(* ===== verification/Prelude.thy ===== *)
theory Prelude
  imports Main "HOL-Library.Word" "HOL-Library.Monad_Syntax"
begin

text \<open>
  Shared vocabulary of the development.

  \<^item> Fixed-width unsigned integers of the C++ sources (uint32, uint64) are either words of that
    width, or natural numbers on which every operation that can wrap is written with
    \<open>w32\<close> / \<open>w64\<close>.
  \<^item> An operation whose C++ counterpart contains an \<open>assert\<close>, a \<open>memcpy\<close> or an array access
    returns an option: \<open>None\<close> stands for a failed assertion or an access outside the memory
    block, behaviour the sources leave undefined. \<open>check\<close>, \<open>mem_get\<close> and \<open>mem_put\<close> are
    the three primitives that can fail. That an operation returns \<open>Some\<close> is therefore a memory
    safety statement.
  \<^item> A memory block is a list of cells; a pointer into it is its offset from the start.
\<close>

named_theorems mem_simps \<open>Evaluation of the memory primitives inside their bounds\<close>

type_synonym byte = "8 word"

definition w32 :: "nat \<Rightarrow> nat" where
  "w32 n = n mod 2 ^ 32"

definition w64 :: "nat \<Rightarrow> nat" where
  "w64 n = n mod 2 ^ 64"

lemma w32_id [simp]: "n < 2 ^ 32 \<Longrightarrow> w32 n = n"
  by (simp add: w32_def)

lemma w64_id [simp]: "n < 2 ^ 64 \<Longrightarrow> w64 n = n"
  by (simp add: w64_def)

lemma w32_less [simp]: "w32 n < 2 ^ 32"
  by (simp add: w32_def)

lemma w32_le: "w32 n \<le> n"
  by (simp add: w32_def)

section \<open>Assertions and memory blocks\<close>

definition check :: "bool \<Rightarrow> unit option" where
  "check b = (if b then Some () else None)"

lemma check_simps [simp]: "check True = Some ()" "check False = None"
  by (simp_all add: check_def)

lemma check_eq_Some [simp]: "check b = Some u \<longleftrightarrow> b"
  by (simp add: check_def)

definition mem_get :: "'a list \<Rightarrow> nat \<Rightarrow> nat \<Rightarrow> 'a list option" where
  "mem_get m p n = (if p + n \<le> length m then Some (take n (drop p m)) else None)"

definition mem_put :: "'a list \<Rightarrow> nat \<Rightarrow> 'a list \<Rightarrow> 'a list option" where
  "mem_put m p d =
     (if p + length d \<le> length m then Some (take p m @ d @ drop (p + length d) m) else None)"

lemma mem_get_in [mem_simps]: "p + n \<le> length m \<Longrightarrow> mem_get m p n = Some (take n (drop p m))"
  by (simp add: mem_get_def)

lemma mem_put_in [mem_simps]:
  "p + length d \<le> length m \<Longrightarrow> mem_put m p d = Some (take p m @ d @ drop (p + length d) m)"
  by (simp add: mem_put_def)

lemma mem_put_length: "mem_put m p d = Some m' \<Longrightarrow> length m' = length m"
  by (auto simp: mem_put_def split: if_splits)

lemma mem_get_length: "mem_get m p n = Some d \<Longrightarrow> length d = n"
  by (auto simp: mem_get_def split: if_splits)

lemma mem_get_put: "mem_put m p d = Some m' \<Longrightarrow> mem_get m' p (length d) = Some d"
  by (auto simp: mem_put_def mem_get_def split: if_splits)

section \<open>Lists\<close>

lemma take_drop_split: "i \<le> n \<Longrightarrow> take n xs = take i xs @ take (n - i) (drop i xs)"
  by (metis le_add_diff_inverse take_add)

lemma remove1_eq_filter: "distinct xs \<Longrightarrow> remove1 x xs = filter (\<lambda>y. y \<noteq> x) xs"
  by (simp add: distinct_remove1_removeAll removeAll_filter_not_eq) (metis (full_types))

lemma take_before_splice: "off \<le> length X \<Longrightarrow> r \<le> off \<Longrightarrow> take r (take off X @ Y) = take r X"
  by (simp add: min_absorb1)

lemma take_after_splice:
  "off \<le> length X \<Longrightarrow> take (off + length d) (take off X @ d @ Y) = take off X @ d"
  by (simp add: min_absorb2)

section \<open>Unchecked vector access\<close>

text \<open>\<open>std::vector::operator[]\<close> out of range is undefined.\<close>

definition vget :: "'a list \<Rightarrow> nat \<Rightarrow> 'a option" where
  "vget xs i = (if i < length xs then Some (xs ! i) else None)"

definition vset :: "'a list \<Rightarrow> nat \<Rightarrow> 'a \<Rightarrow> 'a list option" where
  "vset xs i v = (if i < length xs then Some (xs[i := v]) else None)"

lemma vget_in [simp]: "i < length xs \<Longrightarrow> vget xs i = Some (xs ! i)"
  by (simp add: vget_def)

lemma vset_in [simp]: "i < length xs \<Longrightarrow> vset xs i v = Some (xs[i := v])"
  by (simp add: vset_def)

text \<open>Evaluate a bind's first argument before its continuation.\<close>

lemma bind_eval_cong: "m = m' \<Longrightarrow> m \<bind> f = m' \<bind> (f :: 'a \<Rightarrow> 'b option)"
  by simp

section \<open>Signed division\<close>

text \<open>\<open>/\<close> and \<open>%\<close> of C++ truncate towards zero.\<close>

definition cdiv :: "int \<Rightarrow> int \<Rightarrow> int" where
  "cdiv x y = (if x < 0 then - ((- x) div y) else x div y)"

definition cmod :: "int \<Rightarrow> int \<Rightarrow> int" where
  "cmod x y = (if x < 0 then - ((- x) mod y) else x mod y)"

lemma cdiv_nonneg [simp]: "0 \<le> x \<Longrightarrow> cdiv x y = x div y"
  by (simp add: cdiv_def)

lemma cmod_nonneg [simp]: "0 \<le> x \<Longrightarrow> cmod x y = x mod y"
  by (simp add: cmod_def)

lemma cdiv_cmod: "cdiv x y * y + cmod x y = x"
  by (simp add: cdiv_def cmod_def minus_div_mult_eq_mod [symmetric])

end
