(* ===== verification/VersionNumber.thy ===== *)
theory VersionNumber
  imports Prelude
begin

text \<open>
  The serial numbers of src/Base/VersionNumber.hpp (classes VersionNumber64 and VersionNumber32,
  textually the same at two widths). Raft uses them as terms (32 bit) and message serials
  (64 bit). Comparison is cyclic: a number precedes the half circle after it.

  Both classes are the same definitions over a word of arbitrary width \<open>'a\<close>; MAX_ULLONG and
  MAX_UINT are the all-ones word \<open>- 1\<close>.
\<close>

section \<open>The model\<close>

definition ver_inc :: "'a::len word \<Rightarrow> 'a word" where
  "ver_inc v = (if v \<noteq> - 1 then v + 1 else 0)"

definition ver_add :: "'a::len word \<Rightarrow> 'a word \<Rightarrow> 'a word" where
  "ver_add v step =
     (let res = - 1 - v in if step < res then v + step else step - res - 1)"

definition ver_lt :: "'a::len word \<Rightarrow> 'a word \<Rightarrow> bool" where
  "ver_lt l r = (if l < r then r - l \<le> (- 1) div 2 else l - r > (- 1) div 2)"

definition ver_gt :: "'a::len word \<Rightarrow> 'a word \<Rightarrow> bool" where
  "ver_gt l r = (if l > r then l - r \<le> (- 1) div 2 else r - l > (- 1) div 2)"

definition ver_le :: "'a::len word \<Rightarrow> 'a word \<Rightarrow> bool" where
  "ver_le l r = (l = r \<or> ver_lt l r)"

definition ver_ge :: "'a::len word \<Rightarrow> 'a word \<Rightarrow> bool" where
  "ver_ge l r = (l = r \<or> ver_gt l r)"

section \<open>Addition wraps, comparison is a cyclic order\<close>

lemma ver_inc_eq: "ver_inc v = v + 1"
  by (simp add: ver_inc_def)

lemma ver_add_eq: "ver_add v step = v + step"
  by (simp add: ver_add_def Let_def)

text \<open>
  The comparison in terms of the distance from the left to the right operand, walked upwards on
  the circle: smaller means strictly less than half a turn ahead; at exactly half a turn the
  numerically larger number counts as the smaller one.
\<close>

lemma max_div_2: "unat ((- 1 :: 'a::len word) div 2) = (2 ^ LENGTH('a) - 1) div 2"
proof (cases "LENGTH('a) = 1")
  case True
  then show ?thesis
    by (simp add: unat_div)
next
  case False
  then have "2 \<le> LENGTH('a)"
    by (metis One_nat_def Suc_1 Suc_leI le_neq_implies_less len_gt_0)
  then have "(2::nat) ^ 2 \<le> 2 ^ LENGTH('a)"
    by (rule power_increasing) simp
  then have "unat (2 :: 'a word) = 2"
    using False by (simp add: unsigned_numeral take_bit_nat_eq_self)
  then show ?thesis
    by (simp only: unat_div unsigned_minus_1_eq_mask mask_eq_exp_minus_1)
qed

lemma unat_diff_cases:
  "unat (r - l) = (if l \<le> r then unat r - unat l else 2 ^ LENGTH('a) + unat r - unat l)"
  for l r :: "'a::len word"
  by (simp add: unat_sub_if' word_le_nat_alt add.commute)

lemma half_turn: "2 ^ LENGTH('a::len) = 2 * (2 ^ (LENGTH('a) - 1) :: nat)"
  by (metis One_nat_def Suc_pred len_gt_0 power_Suc)

lemma ver_lt_distance:
  "ver_lt l r \<longleftrightarrow>
     (0 < unat (r - l) \<and> unat (r - l) < 2 ^ (LENGTH('a) - 1))
     \<or> (unat (r - l) = 2 ^ (LENGTH('a) - 1) \<and> r < l)"
  for l r :: "'a::len word"
proof -
  define H :: nat where "H = 2 ^ (LENGTH('a) - 1)"
  have two: "2 ^ LENGTH('a) = 2 * H" and pos: "0 < H"
    using half_turn [where 'a = 'a] by (simp_all add: H_def)
  have bnd: "unat l < 2 * H" "unat r < 2 * H"
    using unsigned_less [of l, where 'a = nat] unsigned_less [of r, where 'a = nat]
    by (simp_all add: two)
  have mx: "unat ((- 1 :: 'a word) div 2) = H - 1"
    unfolding max_div_2 two using pos by linarith
  show ?thesis
    unfolding ver_lt_def H_def [symmetric] word_less_nat_alt word_le_nat_alt mx
    using bnd pos by (auto simp: unat_diff_cases two word_le_nat_alt word_less_nat_alt)
qed

lemma ver_gt_lt: "ver_gt l r \<longleftrightarrow> ver_lt r l"
  by (simp add: ver_gt_def ver_lt_def)

lemma ver_distance_flip:
  "l \<noteq> r \<Longrightarrow> unat (l - r) + unat (r - l) = 2 ^ LENGTH('a)"
  for l r :: "'a::len word"
proof -
  assume "l \<noteq> r"
  then have "unat l \<noteq> unat r"
    by (auto dest: word_unat_eq_iff [THEN iffD2])
  moreover have "unat l < 2 ^ LENGTH('a)" "unat r < 2 ^ LENGTH('a)"
    by simp_all
  ultimately show ?thesis
    unfolding unat_diff_cases word_le_nat_alt by presburger
qed

lemma ver_lt_iff_not_gt: "l \<noteq> r \<Longrightarrow> ver_lt l r \<longleftrightarrow> \<not> ver_lt r l"
  for l r :: "'a::len word"
proof -
  assume ne: "l \<noteq> r"
  define H :: nat where "H = 2 ^ (LENGTH('a) - 1)"
  have sum: "unat (l - r) + unat (r - l) = 2 * H"
    using ver_distance_flip [OF ne] half_turn [where 'a = 'a] by (simp add: H_def)
  have order: "r < l \<longleftrightarrow> \<not> l < r"
    using ne by auto
  have pos: "0 < unat (l - r)" "0 < unat (r - l)"
    using ne by (simp_all add: unat_gt_0)
  show ?thesis
    unfolding ver_lt_distance H_def [symmetric] order using sum pos by auto
qed

lemma ver_lt_irrefl: "\<not> ver_lt v v"
  by (simp add: ver_lt_distance)

text \<open>
  Property C31. For any two version numbers exactly one of "smaller", "equal" and "greater"
  holds, and "greater" is the converse of "smaller": the four hand-written comparison
  operators of either class agree with each other, also across the wrap-around.
\<close>

theorem ver_trichotomy:
  "(ver_gt l r \<longleftrightarrow> ver_lt r l) \<and>
   (ver_lt l r \<or> l = r \<or> ver_lt r l) \<and>
   \<not> (ver_lt l r \<and> ver_lt r l) \<and> \<not> ver_lt l l \<and>
   (ver_le l r \<longleftrightarrow> \<not> ver_gt l r) \<and> (ver_ge l r \<longleftrightarrow> \<not> ver_lt l r)"
  for l r :: "'a::len word"
  by (cases "l = r")
    (auto simp: ver_gt_lt ver_le_def ver_ge_def ver_lt_irrefl ver_lt_iff_not_gt [of l r])

text \<open>
  Advancing a version by any step of less than half the number range, by the
  addition or by repeated increments, gives a later version, wrap-around included.
\<close>

theorem ver_add_later:
  fixes v s :: "'a::len word"
  assumes "0 < s" and "unat s < 2 ^ (LENGTH('a) - 1)"
  shows "ver_lt v (ver_add v s) \<and> ver_gt (ver_add v s) v \<and>
    ver_add v s = (ver_inc ^^ unat s) v"
proof -
  have "(ver_inc ^^ n) v = v + of_nat n" for n
    by (induction n) (simp_all add: ver_inc_eq algebra_simps)
  with assms show ?thesis
    by (simp add: ver_gt_lt ver_lt_distance ver_add_eq word_less_nat_alt)
qed

theorem ver_add_later_witness:
  "ver_lt (0xFFFFFFFE :: 32 word) (ver_add 0xFFFFFFFE 5) \<and> ver_add (0xFFFFFFFE :: 32 word) 5 = 3"
  using ver_add_later [where s = "5 :: 32 word" and v = "0xFFFFFFFE"]
  by (simp add: ver_add_eq)

text \<open>
  The cyclic order is not transitive: three versions a third of the circle apart
  precede one another in turn. Comparisons are only meaningful between versions that are less
  than half the range apart.
\<close>

theorem ver_lt_not_transitive:
  "\<exists>a b c :: 32 word. ver_lt a b \<and> ver_lt b c \<and> ver_lt c a"
proof -
  have "ver_lt 0 (0x55555555 :: 32 word)" "ver_lt (0x55555555 :: 32 word) 0xAAAAAAAA"
    "ver_lt 0xAAAAAAAA (0 :: 32 word)"
    by (simp_all add: ver_lt_def)
  then show ?thesis
    by blast
qed

end
