(* ===== verification/RingBuffer.thy ===== *)
theory RingBuffer
  imports Prelude
begin

text \<open>
  The byte ring of src/Base/Buffer/RingBufferWrapper.hpp and src/Base/Buffer/src/RingBufferWrapper.cpp,
  with the scatter/gather arrays of src/Base/Detail/BufferArray.hpp and the owning class of
  src/Base/Buffer/RingBuffer.hpp.

  \<open>_buffer\<close> is the memory block \<open>rb_mem\<close>; the pointers \<open>_read\<close> and \<open>_write\<close> are the offsets
  \<open>rb_rd\<close> and \<open>rb_wr\<close>; \<open>end()\<close> is the offset \<open>rb_size\<close>. An iovec the caller fills is a length,
  one the caller supplies is the list of its bytes. The numbers returned by the C++ functions are
  returned too, followed by the new state. Sums of two uint32 values are wrapped with \<open>w32\<close>
  where the source does not bound them first.
\<close>

record ring =
  rb_mem :: "byte list"
  rb_rd :: nat
  rb_wr :: nat
  rb_readable :: nat
  rb_size :: nat

section \<open>Construction and observers\<close>

definition rb_new :: "byte list \<Rightarrow> ring" where
  "rb_new m = \<lparr>rb_mem = m, rb_rd = 0, rb_wr = 0, rb_readable = 0, rb_size = length m\<rparr>"

definition readable_len :: "ring \<Rightarrow> nat" where
  "readable_len rb = rb_readable rb"

definition writable_len :: "ring \<Rightarrow> nat" where
  "writable_len rb = rb_size rb - rb_readable rb"

definition continuously_readable :: "ring \<Rightarrow> nat" where
  "continuously_readable rb =
     (let dis = rb_size rb - rb_rd rb
      in if dis \<ge> rb_readable rb then rb_readable rb else dis)"

definition continuously_writable :: "ring \<Rightarrow> nat" where
  "continuously_writable rb =
     (if rb_rd rb > rb_wr rb then rb_rd rb - rb_wr rb
      else if rb_rd rb = rb_wr rb \<and> rb_readable rb \<noteq> 0 then 0
      else rb_size rb - rb_wr rb)"

definition rb_empty :: "ring \<Rightarrow> bool" where
  "rb_empty rb = (rb_rd rb = rb_wr rb \<and> rb_readable rb = 0)"

section \<open>Moving the two ends\<close>

definition read_advance :: "ring \<Rightarrow> nat \<Rightarrow> ring option" where
  "read_advance rb step = do {
     check (readable_len rb \<ge> step);
     let r = rb_rd rb + step;
     Some (rb\<lparr>rb_rd := (if r \<ge> rb_size rb then r - rb_size rb else r),
              rb_readable := rb_readable rb - step\<rparr>)
   }"

definition read_back :: "ring \<Rightarrow> nat \<Rightarrow> ring option" where
  "read_back rb step = do {
     check (writable_len rb \<ge> step);
     Some (rb\<lparr>rb_rd := (if rb_rd rb < step then rb_rd rb + rb_size rb - step else rb_rd rb - step),
              rb_readable := rb_readable rb + step\<rparr>)
   }"

definition write_advance :: "ring \<Rightarrow> nat \<Rightarrow> ring option" where
  "write_advance rb step = do {
     check (writable_len rb \<ge> step);
     let w = rb_wr rb + step;
     Some (rb\<lparr>rb_wr := (if w \<ge> rb_size rb then w - rb_size rb else w),
              rb_readable := rb_readable rb + step\<rparr>)
   }"

definition write_back :: "ring \<Rightarrow> nat \<Rightarrow> ring option" where
  "write_back rb step = do {
     check (step \<le> readable_len rb);
     Some (rb\<lparr>rb_wr := (if rb_wr rb < step then rb_wr rb + rb_size rb - step else rb_wr rb - step),
              rb_readable := rb_readable rb - step\<rparr>)
   }"

definition clear_input :: "ring \<Rightarrow> ring option" where
  "clear_input rb = read_advance rb (readable_len rb)"

definition clear_output :: "ring \<Rightarrow> ring option" where
  "clear_output rb = read_advance rb (readable_len rb)"

section \<open>Copies that may wrap at the end of the block\<close>

text \<open>
  The pairs of \<open>memcpy\<close> that \<open>read\<close>, \<open>try_read\<close>, \<open>write\<close>, \<open>try_write\<close> and \<open>change_written\<close>
  each contain: one copy when the range fits before \<open>end()\<close>, two when it wraps.
\<close>

definition copy_out :: "ring \<Rightarrow> nat \<Rightarrow> nat \<Rightarrow> byte list option" where
  "copy_out rb pos n =
     (let len = rb_size rb - pos
      in if len \<ge> n then mem_get (rb_mem rb) pos n
         else do {
           a \<leftarrow> mem_get (rb_mem rb) pos len;
           b \<leftarrow> mem_get (rb_mem rb) 0 (n - len);
           Some (a @ b)
         })"

definition copy_in :: "ring \<Rightarrow> nat \<Rightarrow> byte list \<Rightarrow> ring option" where
  "copy_in rb pos d =
     (let len = rb_size rb - pos
      in if len \<ge> length d then do {
           m \<leftarrow> mem_put (rb_mem rb) pos d;
           Some (rb\<lparr>rb_mem := m\<rparr>)
         } else do {
           m \<leftarrow> mem_put (rb_mem rb) pos (take len d);
           m' \<leftarrow> mem_put m 0 (drop len d);
           Some (rb\<lparr>rb_mem := m'\<rparr>)
         })"

section \<open>Reading and writing\<close>

definition rb_read :: "ring \<Rightarrow> nat \<Rightarrow> (byte list \<times> ring) option" where
  "rb_read rb sz = do {
     let n = (if sz > readable_len rb then readable_len rb else sz);
     d \<leftarrow> copy_out rb (rb_rd rb) n;
     rb' \<leftarrow> read_advance rb n;
     Some (d, rb')
   }"

fun rb_readv :: "ring \<Rightarrow> nat list \<Rightarrow> (byte list list \<times> ring) option" where
  "rb_readv rb [] = Some ([], rb)"
| "rb_readv rb (l # ls) =
     (if l = 0 then do {
        (ds, rb') \<leftarrow> rb_readv rb ls;
        Some ([] # ds, rb')
      }
      else if readable_len rb = 0 then Some ([], rb)
      else do {
        (d, rb1) \<leftarrow> rb_read rb (w32 l);
        (ds, rb2) \<leftarrow> rb_readv rb1 ls;
        Some (d # ds, rb2)
      })"

definition rb_fix_read :: "ring \<Rightarrow> nat \<Rightarrow> (byte list \<times> ring) option" where
  "rb_fix_read rb sz = (if readable_len rb < sz then Some ([], rb) else rb_read rb sz)"

definition rb_fix_readv :: "ring \<Rightarrow> nat list \<Rightarrow> (byte list list \<times> ring) option" where
  "rb_fix_readv rb ls =
     (if readable_len rb < w64 (sum_list ls) then Some ([], rb) else rb_readv rb ls)"

definition rb_try_read :: "ring \<Rightarrow> nat \<Rightarrow> nat \<Rightarrow> byte list option" where
  "rb_try_read rb sz offset =
     (if offset \<ge> readable_len rb then Some []
      else let n = (if w32 (offset + sz) > readable_len rb then readable_len rb - offset else sz);
               p = rb_rd rb + offset;
               p' = (if p \<ge> rb_size rb then p - rb_size rb else p)
           in copy_out rb p' n)"

fun rb_try_readv :: "ring \<Rightarrow> nat list \<Rightarrow> nat \<Rightarrow> nat \<Rightarrow> byte list list option" where
  "rb_try_readv rb [] offset got = Some []"
| "rb_try_readv rb (l # ls) offset got =
     (if l = 0 then map_option ((#) []) (rb_try_readv rb ls offset got)
      else if readable_len rb \<le> w32 (offset + got) then Some []
      else do {
        d \<leftarrow> rb_try_read rb (w32 l) (w32 (offset + got));
        ds \<leftarrow> rb_try_readv rb ls offset (w32 (got + length d));
        Some (d # ds)
      })"

definition rb_write :: "ring \<Rightarrow> byte list \<Rightarrow> (nat \<times> ring) option" where
  "rb_write rb data = do {
     let n = (if length data > writable_len rb then writable_len rb else length data);
     rb' \<leftarrow> copy_in rb (rb_wr rb) (take n data);
     rb'' \<leftarrow> write_advance rb' n;
     Some (n, rb'')
   }"

fun rb_writev :: "ring \<Rightarrow> byte list list \<Rightarrow> (nat \<times> ring) option" where
  "rb_writev rb [] = Some (0, rb)"
| "rb_writev rb (d # ds) =
     (if length d = 0 then rb_writev rb ds
      else if writable_len rb = 0 then Some (0, rb)
      else do {
        (n, rb1) \<leftarrow> rb_write rb (take (w32 (length d)) d);
        (k, rb2) \<leftarrow> rb_writev rb1 ds;
        Some (w32 (n + k), rb2)
      })"

definition rb_fix_write :: "ring \<Rightarrow> byte list \<Rightarrow> (nat \<times> ring) option" where
  "rb_fix_write rb data = (if writable_len rb < length data then Some (0, rb) else rb_write rb data)"

definition rb_fix_writev :: "ring \<Rightarrow> byte list list \<Rightarrow> (nat \<times> ring) option" where
  "rb_fix_writev rb ds =
     (if writable_len rb < w64 (sum_list (map length ds)) then Some (0, rb) else rb_writev rb ds)"

text \<open>
  \<open>try_write\<close> copies beyond the written part without moving \<open>_write\<close>. Past the contiguous part
  it stores at \<open>_buffer + offset - continuously_writable()\<close>.
\<close>

definition rb_try_write :: "ring \<Rightarrow> byte list \<Rightarrow> nat \<Rightarrow> (nat \<times> ring) option" where
  "rb_try_write rb data offset =
     (if offset \<ge> writable_len rb then Some (0, rb)
      else let n = (if w32 (offset + length data) > writable_len rb
                    then writable_len rb - offset else length data);
               d = take n data;
               cw = continuously_writable rb
           in if offset \<ge> cw then do {
                m \<leftarrow> mem_put (rb_mem rb) (offset - cw) d;
                Some (n, rb\<lparr>rb_mem := m\<rparr>)
              } else do {
                let len = rb_size rb - rb_wr rb - offset;
                let len' = (if len > n then n else len);
                m \<leftarrow> mem_put (rb_mem rb) (rb_wr rb + offset) (take len' d);
                m' \<leftarrow> mem_put m 0 (drop len' d);
                Some (n, rb\<lparr>rb_mem := m'\<rparr>)
              })"

fun rb_try_writev :: "ring \<Rightarrow> byte list list \<Rightarrow> nat \<Rightarrow> nat \<Rightarrow> (nat \<times> ring) option" where
  "rb_try_writev rb [] offset written = Some (written, rb)"
| "rb_try_writev rb (d # ds) offset written =
     (if length d = 0 then rb_try_writev rb ds offset written
      else if writable_len rb \<le> w32 (offset + written) then Some (written, rb)
      else do {
        (n, rb1) \<leftarrow> rb_try_write rb (take (w32 (length d)) d) (w32 (offset + written));
        rb_try_writev rb1 ds offset (w32 (written + n))
      })"

definition rb_change_written :: "ring \<Rightarrow> nat \<Rightarrow> byte list \<Rightarrow> (nat \<times> ring) option" where
  "rb_change_written rb offset data =
     (if offset > readable_len rb then Some (0, rb)
      else let n = (if w32 (offset + length data) > readable_len rb
                    then readable_len rb - offset else length data);
               p = rb_rd rb + offset;
               p' = (if p \<ge> rb_size rb then p - rb_size rb else p)
           in do {
             rb' \<leftarrow> copy_in rb p' (take n data);
             Some (n, rb')
           })"

fun rb_change_writtenv :: "ring \<Rightarrow> nat \<Rightarrow> byte list list \<Rightarrow> nat \<Rightarrow> (nat \<times> ring) option" where
  "rb_change_writtenv rb offset [] written = Some (written, rb)"
| "rb_change_writtenv rb offset (d # ds) written =
     (if length d = 0 then rb_change_writtenv rb offset ds written
      else if readable_len rb \<le> w32 (offset + written) then Some (written, rb)
      else do {
        (n, rb1) \<leftarrow> rb_change_written rb (w32 (offset + written)) (take (w32 (length d)) d);
        rb_change_writtenv rb1 offset ds (w32 (written + n))
      })"

section \<open>Scatter/gather views of the block\<close>

text \<open>An iovec that points into the block is a pair of offset and length.\<close>

fun arr_advance :: "(nat \<times> nat) list \<Rightarrow> nat \<Rightarrow> (nat \<times> nat) list" where
  "arr_advance [] step = []"
| "arr_advance ((base, len) # arr) step =
     (if step = 0 then (base, len) # arr
      else if len < step then (base + len, 0) # arr_advance arr (step - len)
      else (base + step, len - step) # arr)"

definition arr_size_of :: "(nat \<times> nat) list \<Rightarrow> nat" where
  "arr_size_of arr = w64 (sum_list (map snd arr))"

definition read_array :: "ring \<Rightarrow> nat \<Rightarrow> nat \<Rightarrow> (nat \<times> nat) list" where
  "read_array rb sz offset =
     (if offset \<ge> readable_len rb then [(rb_rd rb, 0), (0, 0)]
      else let size1 = (if w32 (offset + sz) > readable_len rb
                        then readable_len rb - offset else sz);
               size2 = w32 (size1 + offset);
               len0 = (if continuously_readable rb > size2 then size2 else continuously_readable rb)
           in arr_advance [(rb_rd rb, len0), (0, size2 - len0)] offset)"

definition write_array :: "ring \<Rightarrow> nat \<Rightarrow> nat \<Rightarrow> (nat \<times> nat) list" where
  "write_array rb sz offset =
     (if offset \<ge> writable_len rb then [(rb_rd rb, 0), (0, 0)]
      else let size1 = (if sz > writable_len rb then writable_len rb - offset else sz);
               size2 = w32 (size1 + offset);
               len0 = (if continuously_writable rb > size2 then size2 else continuously_writable rb)
           in arr_advance [(rb_wr rb, len0), (0, size2 - len0)] offset)"

definition readable_array :: "ring \<Rightarrow> (nat \<times> nat) list option" where
  "readable_array rb = do {
     check (readable_len rb \<ge> continuously_readable rb);
     Some [(rb_rd rb, continuously_readable rb), (0, readable_len rb - continuously_readable rb)]
   }"

definition writable_array :: "ring \<Rightarrow> (nat \<times> nat) list option" where
  "writable_array rb = do {
     check (writable_len rb \<ge> continuously_writable rb);
     Some [(rb_wr rb, continuously_writable rb), (0, writable_len rb - continuously_writable rb)]
   }"

text \<open>What a consumer of such an array reads, and what a producer stores through it.\<close>

fun gather :: "byte list \<Rightarrow> (nat \<times> nat) list \<Rightarrow> byte list list option" where
  "gather m [] = Some []"
| "gather m ((base, len) # arr) = do {
     d \<leftarrow> mem_get m base len;
     ds \<leftarrow> gather m arr;
     Some (d # ds)
   }"

fun scatter :: "byte list \<Rightarrow> (nat \<times> nat) list \<Rightarrow> byte list list \<Rightarrow> byte list option" where
  "scatter m ((base, len) # arr) (d # ds) = do {
     m' \<leftarrow> mem_put m base d;
     scatter m' arr ds
   }"
| "scatter m _ _ = Some m"

section \<open>Moving bytes between two rings\<close>

text \<open>
  \<open>read(const OutputBuffer&, size)\<close> and \<open>write(const InputBuffer&, size)\<close> with another ring as the
  partner; \<open>same\<close> is the test \<open>this == &buffer\<close>.
\<close>

definition rb_read_to :: "bool \<Rightarrow> ring \<Rightarrow> ring \<Rightarrow> nat \<Rightarrow> (nat \<times> ring \<times> ring) option" where
  "rb_read_to same rb out sz =
     (if same then Some (0, rb, out)
      else do {
        let size1 = (if sz > readable_len rb then readable_len rb else sz);
        ds \<leftarrow> gather (rb_mem rb) (read_array rb size1 0);
        (n, out') \<leftarrow> rb_writev out ds;
        rb' \<leftarrow> read_advance rb n;
        Some (n, rb', out')
      })"

definition rb_write_from :: "bool \<Rightarrow> ring \<Rightarrow> ring \<Rightarrow> nat \<Rightarrow> (nat \<times> ring \<times> ring) option" where
  "rb_write_from same rb inp sz =
     (if same then Some (0, rb, inp)
      else do {
        let size1 = (if sz > writable_len rb then writable_len rb else sz);
        let arr = write_array rb size1 0;
        (ds, inp') \<leftarrow> rb_readv inp (map snd arr);
        m \<leftarrow> scatter (rb_mem rb) arr ds;
        let n = sum_list (map length ds);
        rb' \<leftarrow> write_advance (rb\<lparr>rb_mem := m\<rparr>) n;
        Some (n, rb', inp')
      })"

definition rb_fix_read_to :: "bool \<Rightarrow> ring \<Rightarrow> ring \<Rightarrow> nat \<Rightarrow> (nat \<times> ring \<times> ring) option" where
  "rb_fix_read_to same rb out sz =
     (if readable_len rb < sz then Some (0, rb, out) else rb_read_to same rb out sz)"

definition rb_fix_write_from :: "bool \<Rightarrow> ring \<Rightarrow> ring \<Rightarrow> nat \<Rightarrow> (nat \<times> ring \<times> ring) option" where
  "rb_fix_write_from same rb inp sz =
     (if writable_len rb < sz then Some (0, rb, inp) else rb_write_from same rb inp sz)"

section \<open>Reposition and resize\<close>

text \<open>
  \<open>memcpy\<close> between ranges of the same block is undefined when they overlap; \<open>memmove\<close> is not.
\<close>

definition mem_move :: "byte list \<Rightarrow> nat \<Rightarrow> nat \<Rightarrow> nat \<Rightarrow> byte list option" where
  "mem_move m dest src n = do {
     d \<leftarrow> mem_get m src n;
     mem_put m dest d
   }"

definition mem_copy :: "byte list \<Rightarrow> nat \<Rightarrow> nat \<Rightarrow> nat \<Rightarrow> byte list option" where
  "mem_copy m dest src n = do {
     check (n = 0 \<or> dest + n \<le> src \<or> src + n \<le> dest);
     mem_move m dest src n
   }"

definition rb_reposition :: "ring \<Rightarrow> ring option" where
  "rb_reposition rb =
     (if rb_rd rb = 0 then Some rb
      else do {
        m \<leftarrow> (if rb_rd rb + rb_readable rb \<le> rb_size rb
              then mem_move (rb_mem rb) 0 (rb_rd rb) (rb_readable rb)
              else let len = rb_size rb - rb_rd rb; another = rb_readable rb - len
                   in if len < another then do {
                        t \<leftarrow> mem_get (rb_mem rb) (rb_rd rb) len;
                        m1 \<leftarrow> mem_copy (rb_mem rb) len 0 another;
                        mem_put m1 0 t
                      } else do {
                        t \<leftarrow> mem_get (rb_mem rb) 0 another;
                        m1 \<leftarrow> mem_copy (rb_mem rb) 0 (rb_rd rb) len;
                        mem_put m1 len t
                      });
        Some (rb\<lparr>rb_mem := m, rb_rd := 0, rb_wr := rb_readable rb\<rparr>)
      })"

text \<open>
  \<open>RingBuffer::resize\<close>: the new block is freshly allocated, hence disjoint from the old one, so
  \<open>RingBufferWrapper::resize\<close> takes its copying branch. \<open>fresh\<close> is the new block with whatever
  it contains.
\<close>

definition rb_resize :: "ring \<Rightarrow> byte list \<Rightarrow> ring option" where
  "rb_resize rb fresh = do {
     check (readable_len rb \<le> length fresh);
     let old_readable = readable_len rb;
     (d, _) \<leftarrow> rb_read rb old_readable;
     m \<leftarrow> mem_put fresh 0 d;
     write_advance
       \<lparr>rb_mem = m, rb_rd = 0, rb_wr = 0, rb_readable = 0, rb_size = length fresh\<rparr> old_readable
   }"

section \<open>Contents and invariant\<close>

text \<open>
  The bytes waiting in the ring, oldest first, are a prefix of the block rotated to start at
  \<open>_read\<close>. \<open>_write\<close> is the position after them, up to a full turn: \<open>reposition\<close> of a full ring
  leaves it at \<open>end()\<close> instead of wrapping it.
\<close>

definition rot :: "nat \<Rightarrow> 'a list \<Rightarrow> 'a list" where
  "rot k m = drop k m @ take k m"

definition rb_content :: "ring \<Rightarrow> byte list" where
  "rb_content rb = take (rb_readable rb) (rot (rb_rd rb) (rb_mem rb))"

definition turn_eq :: "nat \<Rightarrow> nat \<Rightarrow> nat \<Rightarrow> bool" where
  "turn_eq n p q = (p = q \<or> p + n = q \<or> p = q + n)"

definition rb_inv :: "ring \<Rightarrow> bool" where
  "rb_inv rb \<longleftrightarrow>
     length (rb_mem rb) = rb_size rb \<and> rb_size rb < 2 ^ 32 \<and> rb_readable rb \<le> rb_size rb \<and>
     (rb_rd rb < rb_size rb \<or> rb_rd rb = 0) \<and> rb_wr rb \<le> rb_size rb \<and>
     turn_eq (rb_size rb) (rb_wr rb) (rb_rd rb + rb_readable rb)"

lemma length_rot [simp]: "length (rot k m) = length m"
  by (simp add: rot_def)

lemma nth_rot:
  "k \<le> length m \<Longrightarrow> i < length m \<Longrightarrow>
   rot k m ! i = m ! (if k + i < length m then k + i else k + i - length m)"
  by (auto simp: rot_def nth_append add.commute)

lemma length_content: "rb_inv rb \<Longrightarrow> length (rb_content rb) = rb_readable rb"
  by (simp add: rb_content_def rb_inv_def)

lemma copy_out_rot:
  assumes "length (rb_mem rb) = rb_size rb" "pos \<le> rb_size rb" "n \<le> rb_size rb"
  shows "copy_out rb pos n = Some (take n (rot pos (rb_mem rb)))"
  using assms by (auto simp: copy_out_def mem_get_def rot_def Let_def min_def)

lemma take_rot_drop:
  assumes "k \<le> length m" "p \<le> length m" "turn_eq (length m) p (k + off)" "off + n \<le> length m"
  shows "take n (rot p m) = take n (drop off (rot k m))"
proof (rule nth_equalityI)
  show "length (take n (rot p m)) = length (take n (drop off (rot k m)))"
    using assms by simp
  fix i assume "i < length (take n (rot p m))"
  then show "take n (rot p m) ! i = take n (drop off (rot k m)) ! i"
    using assms by (auto simp: nth_rot turn_eq_def intro!: arg_cong [of _ _ "(!) m"])
qed

lemma copy_in_eq:
  assumes "length (rb_mem rb) = rb_size rb" "pos \<le> rb_size rb" "length d \<le> rb_size rb"
  obtains m where "copy_in rb pos d = Some (rb\<lparr>rb_mem := m\<rparr>)" "length m = rb_size rb"
    "\<And>i. i < rb_size rb \<Longrightarrow> m ! i =
       (if pos \<le> i \<and> i < pos + length d then d ! (i - pos)
        else if i + rb_size rb < pos + length d then d ! (i + rb_size rb - pos)
        else rb_mem rb ! i)"
proof (cases "length d \<le> rb_size rb - pos")
  case True
  with assms show ?thesis
    by (intro that [of "take pos (rb_mem rb) @ d @ drop (pos + length d) (rb_mem rb)"])
      (auto simp: copy_in_def mem_put_def Let_def nth_append)
next
  case False
  define len where "len = rb_size rb - pos"
  have *: "length d > len" "pos = rb_size rb - len" "len \<le> rb_size rb" "length d - len \<le> pos"
    using False assms by (auto simp: len_def)
  then show ?thesis
    using assms
    by (intro that [of "drop len d @ drop (length d - len) (take pos (rb_mem rb)) @ take len d"])
      (auto simp: copy_in_def mem_put_def Let_def nth_append min_def len_def [symmetric]
        add.commute)
qed

text \<open>A wrapped copy replaces the bytes after offset \<open>off\<close> of the rotated block.\<close>

lemma copy_in_rot:
  assumes "length (rb_mem rb) = rb_size rb" "pos \<le> rb_size rb" "k \<le> rb_size rb"
    and "turn_eq (rb_size rb) pos (k + off)" "off + length d \<le> rb_size rb"
  obtains m where "copy_in rb pos d = Some (rb\<lparr>rb_mem := m\<rparr>)" "length m = rb_size rb"
    "rot k m = take off (rot k (rb_mem rb)) @ d @ drop (off + length d) (rot k (rb_mem rb))"
proof -
  obtain m where m: "copy_in rb pos d = Some (rb\<lparr>rb_mem := m\<rparr>)" "length m = rb_size rb"
    and nth: "\<And>i. i < rb_size rb \<Longrightarrow> m ! i =
       (if pos \<le> i \<and> i < pos + length d then d ! (i - pos)
        else if i + rb_size rb < pos + length d then d ! (i + rb_size rb - pos)
        else rb_mem rb ! i)"
    using assms copy_in_eq [of rb pos d] by auto
  have "rot k m = take off (rot k (rb_mem rb)) @ d @ drop (off + length d) (rot k (rb_mem rb))"
  proof (rule nth_equalityI)
    show "length (rot k m) =
        length (take off (rot k (rb_mem rb)) @ d @ drop (off + length d) (rot k (rb_mem rb)))"
      using assms m by simp
    fix i assume "i < length (rot k m)"
    then have i: "i < rb_size rb"
      using m by simp
    define j where "j = (if k + i < rb_size rb then k + i else k + i - rb_size rb)"
    have j: "j < rb_size rb" "rot k m ! i = m ! j" "rot k (rb_mem rb) ! i = rb_mem rb ! j"
      using i assms(1,3) m(2) by (auto simp: j_def nth_rot)
    have turn: "pos = k + off \<or> pos + rb_size rb = k + off \<or> pos = k + off + rb_size rb"
      using assms(4) by (simp add: turn_eq_def)
    consider "i < off" | "off \<le> i" "i < off + length d" | "off + length d \<le> i"
      by linarith
    then show "rot k m ! i =
        (take off (rot k (rb_mem rb)) @ d @ drop (off + length d) (rot k (rb_mem rb))) ! i"
    proof cases
      case 1
      have "\<not> (pos \<le> j \<and> j < pos + length d)" "\<not> j + rb_size rb < pos + length d"
        using 1 turn i assms(2,3,5) unfolding j_def by (auto split: if_splits)
      then show ?thesis
        using 1 i j assms(1) by (auto simp: nth_append nth)
    next
      case 2
      have "if pos \<le> j \<and> j < pos + length d then j - pos = i - off
          else j + rb_size rb < pos + length d \<and> j + rb_size rb - pos = i - off"
        using 2 turn i assms(2,3,5) unfolding j_def by (auto split: if_splits)
      then show ?thesis
        using 2 i j assms(1,5) by (auto simp: nth_append nth split: if_splits)
    next
      case 3
      have "\<not> (pos \<le> j \<and> j < pos + length d)" "\<not> j + rb_size rb < pos + length d"
        using 3 turn i assms(2,3,5) unfolding j_def by (auto split: if_splits)
      then show ?thesis
        using 3 i j assms(1,5) by (auto simp: nth_append nth)
    qed
  qed
  with m show ?thesis
    by (rule that)
qed

section \<open>Every operation against the contents\<close>

lemma read_advance_spec:
  assumes "rb_inv rb" "n \<le> rb_readable rb"
  obtains rb' where "read_advance rb n = Some rb'" "rb_inv rb'"
    "rb_content rb' = drop n (rb_content rb)" "rb_size rb' = rb_size rb"
    "rb_mem rb' = rb_mem rb" "rb_readable rb' = rb_readable rb - n"
proof -
  let ?r = "if rb_rd rb + n \<ge> rb_size rb then rb_rd rb + n - rb_size rb else rb_rd rb + n"
  have le: "?r \<le> length (rb_mem rb)" "rb_rd rb \<le> length (rb_mem rb)"
    using assms by (auto simp: rb_inv_def)
  have teq: "turn_eq (length (rb_mem rb)) ?r (rb_rd rb + n)"
    using assms by (auto simp: rb_inv_def turn_eq_def)
  have "take (rb_readable rb - n) (rot ?r (rb_mem rb)) =
      drop n (take (rb_readable rb) (rot (rb_rd rb) (rb_mem rb)))"
    unfolding drop_take using assms le teq
    by (intro take_rot_drop) (auto simp: rb_inv_def)
  then show ?thesis
    using assms
    by (intro that [of "rb\<lparr>rb_rd := ?r, rb_readable := rb_readable rb - n\<rparr>"])
      (auto simp: read_advance_def readable_len_def rb_inv_def rb_content_def turn_eq_def)
qed

lemma write_advance_spec:
  assumes "rb_inv rb" "n \<le> writable_len rb"
  obtains rb' where "write_advance rb n = Some rb'" "rb_inv rb'"
    "rb_content rb' = take (rb_readable rb + n) (rot (rb_rd rb) (rb_mem rb))"
    "rb_size rb' = rb_size rb" "rb_readable rb' = rb_readable rb + n"
    "rb_mem rb' = rb_mem rb" "rb_rd rb' = rb_rd rb"
proof -
  let ?w = "if rb_wr rb + n \<ge> rb_size rb then rb_wr rb + n - rb_size rb else rb_wr rb + n"
  show ?thesis
    using assms
    by (intro that [of "rb\<lparr>rb_wr := ?w, rb_readable := rb_readable rb + n\<rparr>"])
      (auto simp: write_advance_def writable_len_def rb_inv_def rb_content_def turn_eq_def)
qed

lemma rb_read_spec:
  assumes "rb_inv rb"
  obtains rb' where "rb_read rb n = Some (take n (rb_content rb), rb')" "rb_inv rb'"
    "rb_content rb' = drop n (rb_content rb)" "rb_size rb' = rb_size rb"
proof -
  let ?n = "if n > readable_len rb then readable_len rb else n"
  have n: "?n \<le> rb_readable rb" "?n = min n (rb_readable rb)"
    by (auto simp: readable_len_def)
  obtain rb' where rb': "read_advance rb ?n = Some rb'" "rb_inv rb'"
    "rb_content rb' = drop ?n (rb_content rb)" "rb_size rb' = rb_size rb"
    using read_advance_spec [OF assms n(1)] by blast
  have "copy_out rb (rb_rd rb) ?n = Some (take ?n (rot (rb_rd rb) (rb_mem rb)))"
    using assms n(1) by (intro copy_out_rot) (auto simp: rb_inv_def)
  moreover have "take ?n (rot (rb_rd rb) (rb_mem rb)) = take n (rb_content rb)"
    using n(2) by (simp add: rb_content_def min.commute)
  moreover have "drop ?n (rb_content rb) = drop n (rb_content rb)"
    using n(2) length_content [OF assms] by (auto simp: min_def)
  ultimately show ?thesis
    using rb' by (intro that [of rb']) (simp_all add: rb_read_def Let_def)
qed

text \<open>
  Storing bytes right after the content and then advancing \<open>_write\<close> is an append: shared by
  \<open>write\<close>, \<open>try_write\<close> and \<open>write(const InputBuffer&)\<close>.
\<close>

definition rot_put :: "ring \<Rightarrow> nat \<Rightarrow> byte list \<Rightarrow> ring \<Rightarrow> bool" where
  "rot_put rb off d rb' \<longleftrightarrow>
     (\<exists>m. rb' = rb\<lparr>rb_mem := m\<rparr> \<and> length m = rb_size rb \<and>
        rot (rb_rd rb) m = take off (rot (rb_rd rb) (rb_mem rb)) @ d
          @ drop (off + length d) (rot (rb_rd rb) (rb_mem rb)))"

lemma copy_in_rot_put:
  assumes "rb_inv rb" "pos \<le> rb_size rb" "turn_eq (rb_size rb) pos (rb_rd rb + off)"
    and "off + length d \<le> rb_size rb"
  obtains rb' where "copy_in rb pos d = Some rb'" "rot_put rb off d rb'"
  using assms copy_in_rot [of rb pos "rb_rd rb" off d]
  unfolding rot_put_def rb_inv_def by (metis le_eq_less_or_eq zero_le)

lemma rot_put_inv: "rot_put rb off d rb' \<Longrightarrow> rb_inv rb \<Longrightarrow> rb_inv rb'"
  by (auto simp: rot_put_def rb_inv_def)

lemma rot_put_same:
  assumes "rot_put rb off d rb'"
  shows "rb_size rb' = rb_size rb" "rb_readable rb' = rb_readable rb" "rb_wr rb' = rb_wr rb"
    "rb_rd rb' = rb_rd rb" "writable_len rb' = writable_len rb"
    "readable_len rb' = readable_len rb"
  using assms by (auto simp: rot_put_def writable_len_def readable_len_def)

lemma rot_put_content_after:
  assumes "rot_put rb off d rb'" "rb_inv rb" "rb_readable rb \<le> off" "off \<le> rb_size rb"
  shows "rb_content rb' = rb_content rb"
proof -
  obtain m where m: "rb' = rb\<lparr>rb_mem := m\<rparr>"
    "rot (rb_rd rb) m = take off (rot (rb_rd rb) (rb_mem rb)) @ d
      @ drop (off + length d) (rot (rb_rd rb) (rb_mem rb))"
    using assms(1) by (auto simp: rot_put_def)
  have "off \<le> length (rot (rb_rd rb) (rb_mem rb))"
    using assms(2,4) by (simp add: rb_inv_def)
  then show ?thesis
    using assms(3) by (simp add: m rb_content_def take_before_splice del: take_append)
qed

lemma rot_put_append:
  assumes "rot_put rb (rb_readable rb) d rb1" "rb_inv rb" "length d \<le> writable_len rb"
  obtains rb' where "write_advance rb1 (length d) = Some rb'" "rb_inv rb'"
    "rb_content rb' = rb_content rb @ d" "rb_size rb' = rb_size rb"
proof -
  obtain rb' where rb': "write_advance rb1 (length d) = Some rb'" "rb_inv rb'"
    "rb_content rb' = take (rb_readable rb1 + length d) (rot (rb_rd rb1) (rb_mem rb1))"
    "rb_size rb' = rb_size rb1"
    using write_advance_spec [OF rot_put_inv [OF assms(1,2)], of "length d"] assms(3)
    unfolding rot_put_same(5) [OF assms(1)] by blast
  obtain m where m: "rb1 = rb\<lparr>rb_mem := m\<rparr>"
    "rot (rb_rd rb) m = take (rb_readable rb) (rot (rb_rd rb) (rb_mem rb)) @ d
      @ drop (rb_readable rb + length d) (rot (rb_rd rb) (rb_mem rb))"
    using assms(1) by (auto simp: rot_put_def)
  have "rb_readable rb \<le> length (rot (rb_rd rb) (rb_mem rb))"
    using assms(2) by (simp add: rb_inv_def)
  then have "rb_content rb' = rb_content rb @ d"
    unfolding rb'(3) by (simp add: m rb_content_def take_after_splice del: take_append)
  then show ?thesis
    using rb' by (intro that [of rb']) (simp_all add: m(1))
qed

lemma rb_write_spec:
  assumes "rb_inv rb"
  obtains rb' where
    "rb_write rb d = Some (min (length d) (writable_len rb), rb')" "rb_inv rb'"
    "rb_content rb' = rb_content rb @ take (writable_len rb) d" "rb_size rb' = rb_size rb"
proof -
  define d' where "d' = take (writable_len rb) d"
  have n: "(if length d > writable_len rb then writable_len rb else length d) = length d'"
    and d': "take (length d') d = d'" "length d' \<le> writable_len rb"
    by (auto simp: d'_def min_def)
  have fits: "rb_readable rb + length d' \<le> rb_size rb"
    using assms d'(2) by (auto simp: writable_len_def rb_inv_def)
  have "rb_wr rb \<le> rb_size rb" "turn_eq (rb_size rb) (rb_wr rb) (rb_rd rb + rb_readable rb)"
    using assms by (simp_all add: rb_inv_def)
  then obtain rb1 where "copy_in rb (rb_wr rb) d' = Some rb1"
    and put: "rot_put rb (rb_readable rb) d' rb1"
    using copy_in_rot_put [OF assms _ _ fits] by blast
  moreover obtain rb' where rb': "write_advance rb1 (length d') = Some rb'" "rb_inv rb'"
    "rb_content rb' = rb_content rb @ d'" "rb_size rb' = rb_size rb"
    using rot_put_append [OF put assms d'(2)] by blast
  ultimately have "rb_write rb d = Some (length d', rb')"
    unfolding rb_write_def n by (simp add: d'(1))
  then show ?thesis
    using rb' by (intro that [of rb']) (simp_all add: d'_def min.commute)
qed

lemma rb_inv_readable: "rb_inv rb \<Longrightarrow> rb_readable rb + writable_len rb = rb_size rb"
  by (simp add: rb_inv_def writable_len_def)

lemma rb_inv_size: "rb_inv rb \<Longrightarrow> rb_size rb < 2 ^ 32"
  by (simp add: rb_inv_def)

lemma try_read_pos:
  assumes "rb_inv rb" "off \<le> rb_readable rb"
  defines "p \<equiv> (if rb_rd rb + off \<ge> rb_size rb then rb_rd rb + off - rb_size rb else rb_rd rb + off)"
  shows "p \<le> rb_size rb" "turn_eq (rb_size rb) p (rb_rd rb + off)"
  using assms by (auto simp: rb_inv_def turn_eq_def)

lemma rb_try_read_spec:
  assumes inv: "rb_inv rb" and small: "off + n < 2 ^ 32"
  shows "rb_try_read rb n off = Some (take n (drop off (rb_content rb)))"
proof (cases "off \<ge> rb_readable rb")
  case True
  then show ?thesis
    using length_content [OF inv] by (simp add: rb_try_read_def readable_len_def)
next
  case False
  let ?n = "if off + n > rb_readable rb then rb_readable rb - off else n"
  let ?p = "if rb_rd rb + off \<ge> rb_size rb then rb_rd rb + off - rb_size rb else rb_rd rb + off"
  have p: "?p \<le> rb_size rb" "turn_eq (rb_size rb) ?p (rb_rd rb + off)"
    using try_read_pos [OF inv, of off] False by auto
  have "copy_out rb ?p ?n = Some (take ?n (rot ?p (rb_mem rb)))"
    using inv p(1) False by (intro copy_out_rot) (auto simp: rb_inv_def)
  also have "take ?n (rot ?p (rb_mem rb)) = take ?n (drop off (rot (rb_rd rb) (rb_mem rb)))"
    using inv p False by (intro take_rot_drop) (auto simp: rb_inv_def)
  also have "\<dots> = take n (drop off (rb_content rb))"
    using False by (auto simp: rb_content_def drop_take min_def)
  finally show ?thesis
    using False small by (simp only: rb_try_read_def readable_len_def Let_def w32_id if_False)
qed

text \<open>Where \<open>try_write\<close> stores, in terms of the offsets alone.\<close>

lemma try_write_offset:
  fixes sz rd wr readable off cw :: nat
  assumes "wr = rd + readable \<or> wr + sz = rd + readable \<or> wr = rd + readable + sz"
    and "rd < sz \<or> rd = 0" "wr \<le> sz" "readable \<le> sz" "off < sz - readable"
    and "cw = (if rd > wr then rd - wr else if rd = wr \<and> readable \<noteq> 0 then 0 else sz - wr)"
    and "p = (if off \<ge> cw then off - cw else wr + off)"
  shows "p \<le> sz" "turn_eq sz p (rd + (readable + off))"
    and "cw \<le> off \<Longrightarrow> off + n \<le> sz - readable \<Longrightarrow> off - cw + n \<le> sz"
  using assms unfolding turn_eq_def by (auto split: if_splits)

lemma rb_try_write_spec:
  assumes inv: "rb_inv rb" and small: "off + length d < 2 ^ 32"
  obtains rb' where "rb_try_write rb d off = Some (min (length d) (writable_len rb - off), rb')"
    "off < writable_len rb \<Longrightarrow> rot_put rb (rb_readable rb + off) (take (writable_len rb - off) d) rb'"
    "writable_len rb \<le> off \<Longrightarrow> rb' = rb"
proof (cases "off \<ge> writable_len rb")
  case True
  then show ?thesis
    by (intro that [of rb]) (simp_all add: rb_try_write_def)
next
  case False
  define d' where "d' = take (writable_len rb - off) d"
  define p where
    "p = (if off \<ge> continuously_writable rb then off - continuously_writable rb else rb_wr rb + off)"
  have n: "(if off + length d > writable_len rb then writable_len rb - off else length d) = length d'"
    and d': "take (length d') d = d'" "off + length d' \<le> writable_len rb"
    using False by (auto simp: d'_def min_def)
  have turn: "rb_wr rb = rb_rd rb + rb_readable rb \<or>
      rb_wr rb + rb_size rb = rb_rd rb + rb_readable rb \<or>
      rb_wr rb = rb_rd rb + rb_readable rb + rb_size rb"
    and small_ptrs: "rb_rd rb < rb_size rb \<or> rb_rd rb = 0" "rb_wr rb \<le> rb_size rb"
      "rb_readable rb \<le> rb_size rb" "off < rb_size rb - rb_readable rb"
    using inv False by (simp_all add: rb_inv_def turn_eq_def writable_len_def)
  note place = try_write_offset [OF turn small_ptrs continuously_writable_def p_def]
  have fits: "rb_readable rb + off + length d' \<le> rb_size rb"
    using d'(2) rb_inv_readable [OF inv] by simp
  obtain rb' where cp: "copy_in rb p d' = Some rb'" and put: "rot_put rb (rb_readable rb + off) d' rb'"
    using copy_in_rot_put [OF inv place(1,2) fits] by blast
  have body: "rb_try_write rb d off =
      (if off \<ge> continuously_writable rb then do {
         m \<leftarrow> mem_put (rb_mem rb) (off - continuously_writable rb) d';
         Some (length d', rb\<lparr>rb_mem := m\<rparr>)
       } else do {
         let len = rb_size rb - rb_wr rb - off;
         let len' = (if len > length d' then length d' else len);
         m \<leftarrow> mem_put (rb_mem rb) (rb_wr rb + off) (take len' d');
         m' \<leftarrow> mem_put m 0 (drop len' d');
         Some (length d', rb\<lparr>rb_mem := m'\<rparr>)
       })"
    using False by (simp only: rb_try_write_def w32_id [OF small] n d'(1) Let_def if_False)
  have "rb_try_write rb d off = Some (length d', rb')"
  proof (cases "off \<ge> continuously_writable rb")
    case True
    then have "off - continuously_writable rb + length d' \<le> rb_size rb"
      using place(3) d'(2) by (simp add: writable_len_def)
    then have "length d' \<le> rb_size rb - (off - continuously_writable rb)"
      using True by linarith
    moreover have "copy_in rb (off - continuously_writable rb) d' = Some rb'"
      using cp True by (simp add: p_def)
    ultimately show ?thesis
      using True unfolding body copy_in_def by (auto simp: bind_eq_Some_conv Let_def)
  next
    case not_past: False
    then have cp': "copy_in rb (rb_wr rb + off) d' = Some rb'"
      using cp by (simp add: p_def)
    show ?thesis
    proof (cases "length d' \<le> rb_size rb - (rb_wr rb + off)")
      case True
      then show ?thesis
        using not_past cp' unfolding body copy_in_def
        by (auto simp: bind_eq_Some_conv mem_put_def Let_def split: if_splits)
    next
      case False
      then show ?thesis
        using not_past cp' unfolding body copy_in_def
        by (auto simp: bind_eq_Some_conv Let_def)
    qed
  qed
  then show ?thesis
    using put False by (intro that [of rb']) (simp_all add: d'_def min.commute)
qed

lemma rot_put_content_inside:
  assumes "rot_put rb off d rb'" "rb_inv rb" "off + length d \<le> rb_readable rb"
  shows "rb_content rb' = take off (rb_content rb) @ d @ drop (off + length d) (rb_content rb)"
proof -
  let ?R = "rot (rb_rd rb) (rb_mem rb)" and ?k = "rb_readable rb"
  obtain m where m: "rb' = rb\<lparr>rb_mem := m\<rparr>"
    "rot (rb_rd rb) m = take off ?R @ d @ drop (off + length d) ?R"
    using assms(1) by (auto simp: rot_put_def)
  have len: "?k \<le> length ?R"
    using assms(2) by (simp add: rb_inv_def)
  have "take ?k (rot (rb_rd rb) m) =
      take off ?R @ d @ take (?k - (off + length d)) (drop (off + length d) ?R)"
    unfolding m(2) using assms(3) len by (simp add: min_absorb2 take_drop)
  then show ?thesis
    using assms(3) by (simp add: m(1) rb_content_def drop_take take_take min_absorb1)
qed

lemma rb_change_written_spec:
  assumes inv: "rb_inv rb" and small: "off + length d < 2 ^ 32"
  obtains rb' where "rb_change_written rb off d = Some (min (length d) (rb_readable rb - off), rb')"
    "rb_inv rb'" "rb_size rb' = rb_size rb"
    "rb_content rb' = take off (rb_content rb) @ take (rb_readable rb - off) d
       @ drop (off + length d) (rb_content rb)"
proof (cases "off > rb_readable rb")
  case True
  then show ?thesis
    using inv length_content [OF inv]
    by (intro that [of rb]) (simp_all add: rb_change_written_def readable_len_def)
next
  case False
  define d' where "d' = take (rb_readable rb - off) d"
  let ?p = "if rb_rd rb + off \<ge> rb_size rb then rb_rd rb + off - rb_size rb else rb_rd rb + off"
  have n: "(if off + length d > rb_readable rb then rb_readable rb - off else length d) = length d'"
    and d': "take (length d') d = d'" "off + length d' \<le> rb_readable rb"
    using False by (auto simp: d'_def min_def)
  have fits: "off + length d' \<le> rb_size rb"
    using d'(2) inv by (simp add: rb_inv_def)
  have p: "?p \<le> rb_size rb" "turn_eq (rb_size rb) ?p (rb_rd rb + off)"
    using try_read_pos [OF inv, of off] False by auto
  obtain rb' where cp: "copy_in rb ?p d' = Some rb'" and put: "rot_put rb off d' rb'"
    using copy_in_rot_put [OF inv p fits] by blast
  have "rb_change_written rb off d = Some (length d', rb')"
    using False cp
    by (simp only: rb_change_written_def readable_len_def w32_id [OF small] n d'(1) Let_def
        if_False bind.bind_lunit)
  moreover have "drop (off + length d') (rb_content rb) = drop (off + length d) (rb_content rb)"
    using length_content [OF inv] False by (auto simp: d'_def min_def)
  ultimately show ?thesis
    using rot_put_inv [OF put inv] rot_put_same [OF put] rot_put_content_inside [OF put inv d'(2)]
    by (intro that [of rb']) (simp_all add: d'_def min.commute)
qed

subsection \<open>Gather and scatter over several buffers\<close>

text \<open>What \<open>readv\<close> hands out: one piece per iovec, and nothing after the ring ran dry.\<close>

fun split_lens :: "nat list \<Rightarrow> 'a list \<Rightarrow> 'a list list" where
  "split_lens [] c = []"
| "split_lens (l # ls) c =
     (if l = 0 then [] # split_lens ls c
      else if c = [] then []
      else take l c # split_lens ls (drop l c))"

lemma concat_split_lens: "concat (split_lens ls c) = take (sum_list ls) c"
  by (induction ls c rule: split_lens.induct) (auto simp: take_add)

lemma rb_readv_spec:
  assumes "rb_inv rb" "\<forall>l \<in> set ls. l < 2 ^ 32"
  obtains rb' where "rb_readv rb ls = Some (split_lens ls (rb_content rb), rb')" "rb_inv rb'"
    "rb_content rb' = drop (sum_list ls) (rb_content rb)" "rb_size rb' = rb_size rb"
  using assms
proof (induction ls arbitrary: rb thesis)
  case Nil
  then show ?case by simp
next
  case (Cons l ls)
  have empty: "readable_len rb = 0 \<longleftrightarrow> rb_content rb = []"
    using length_content [OF Cons.prems(2)] by (auto simp: readable_len_def)
  show ?case
  proof (cases "l = 0")
    case True
    obtain rb' where "rb_readv rb ls = Some (split_lens ls (rb_content rb), rb')" "rb_inv rb'"
      "rb_content rb' = drop (sum_list ls) (rb_content rb)" "rb_size rb' = rb_size rb"
      using Cons.IH [of rb] Cons.prems(2,3) by auto
    then show ?thesis
      using True by (intro Cons.prems(1) [of rb']) simp_all
  next
    case nonzero: False
    show ?thesis
    proof (cases "rb_content rb = []")
      case True
      then show ?thesis
        using Cons.prems(2) nonzero empty by (intro Cons.prems(1) [of rb]) simp_all
    next
      case False
      obtain rb1 where rb1: "rb_read rb l = Some (take l (rb_content rb), rb1)" "rb_inv rb1"
        "rb_content rb1 = drop l (rb_content rb)" "rb_size rb1 = rb_size rb"
        using rb_read_spec [OF Cons.prems(2)] by blast
      obtain rb2 where "rb_readv rb1 ls = Some (split_lens ls (rb_content rb1), rb2)" "rb_inv rb2"
        "rb_content rb2 = drop (sum_list ls) (rb_content rb1)" "rb_size rb2 = rb_size rb1"
        using Cons.IH [OF _ rb1(2)] Cons.prems(3) by auto
      then show ?thesis
        using nonzero False empty rb1 Cons.prems(3)
        by (intro Cons.prems(1) [of rb2]) (simp_all add: add.commute)
    qed
  qed
qed

lemma rb_writev_spec:
  assumes "rb_inv rb" "\<forall>d \<in> set ds. length d < 2 ^ 32"
  obtains rb' where
    "rb_writev rb ds = Some (min (length (concat ds)) (writable_len rb), rb')" "rb_inv rb'"
    "rb_content rb' = rb_content rb @ take (writable_len rb) (concat ds)"
    "rb_size rb' = rb_size rb"
  using assms
proof (induction ds arbitrary: rb thesis)
  case Nil
  then show ?case by simp
next
  case (Cons d ds)
  consider "d = []" | "d \<noteq> []" "writable_len rb = 0" | "d \<noteq> []" "writable_len rb \<noteq> 0"
    by blast
  then show ?case
  proof cases
    case 1
    obtain rb' where "rb_writev rb ds = Some (min (length (concat ds)) (writable_len rb), rb')"
      "rb_inv rb'" "rb_content rb' = rb_content rb @ take (writable_len rb) (concat ds)"
      "rb_size rb' = rb_size rb"
      using Cons.IH [OF _ Cons.prems(2)] Cons.prems(3) by auto
    then show ?thesis
      using 1 by (intro Cons.prems(1) [of rb']) simp_all
  next
    case 2
    then show ?thesis
      using Cons.prems(2) by (intro Cons.prems(1) [of rb]) simp_all
  next
    case 3
    obtain rb1 where rb1: "rb_write rb d = Some (min (length d) (writable_len rb), rb1)"
      "rb_inv rb1" "rb_content rb1 = rb_content rb @ take (writable_len rb) d"
      "rb_size rb1 = rb_size rb"
      using rb_write_spec [OF Cons.prems(2)] by blast
    have left: "writable_len rb1 = writable_len rb - length d"
      using rb_inv_readable [OF rb1(2)] rb_inv_readable [OF Cons.prems(2)]
        length_content [OF rb1(2)] length_content [OF Cons.prems(2)] rb1(3,4) by simp
    obtain rb2 where rb2:
      "rb_writev rb1 ds = Some (min (length (concat ds)) (writable_len rb1), rb2)" "rb_inv rb2"
      "rb_content rb2 = rb_content rb1 @ take (writable_len rb1) (concat ds)"
      "rb_size rb2 = rb_size rb1"
      using Cons.IH [OF _ rb1(2)] Cons.prems(3) by auto
    let ?n = "min (length d) (writable_len rb)
      + min (length (concat ds)) (writable_len rb - length d)"
    have n: "?n = min (length (concat (d # ds))) (writable_len rb)"
      by (simp only: concat.simps length_append)
    have "writable_len rb \<le> rb_size rb"
      by (simp add: writable_len_def)
    then have "?n < 2 ^ 32"
      unfolding n using rb_inv_size [OF Cons.prems(2)] by linarith
    then have "rb_writev rb (d # ds) = Some (?n, rb2)"
      using 3 rb1(1) rb2(1) Cons.prems(3) by (simp add: left)
    then show ?thesis
      using rb1 rb2 unfolding n
      by (intro Cons.prems(1) [of rb2]) (simp_all add: left)
  qed
qed

lemma gather_arr_advance:
  "gather m arr = Some ds \<Longrightarrow>
   \<exists>ds'. gather m (arr_advance arr s) = Some ds' \<and> concat ds' = drop s (concat ds)"
proof (induction arr s arbitrary: ds rule: arr_advance.induct)
  case (1 s)
  then show ?case by simp
next
  case (2 base len arr s)
  from "2.prems" obtain d es where d: "mem_get m base len = Some d" and es: "gather m arr = Some es"
    and ds: "ds = d # es"
    by (auto simp: bind_eq_Some_conv)
  have len: "length d = len" "base + len \<le> length m" "d = take len (drop base m)"
    using d by (auto simp: mem_get_def split: if_splits)
  consider "s = 0" | "s \<noteq> 0" "len < s" | "s \<noteq> 0" "s \<le> len"
    by linarith
  then show ?case
  proof cases
    case 1
    then show ?thesis
      using "2.prems" by auto
  next
    case 2
    then obtain es' where "gather m (arr_advance arr (s - len)) = Some es'"
      "concat es' = drop (s - len) (concat es)"
      using "2.IH" es by blast
    then show ?thesis
      using 2 len by (auto simp: ds mem_get_def)
  next
    case 3
    then have "mem_get m (base + s) (len - s) = Some (drop s d)"
      using len by (simp add: mem_get_def drop_take add.commute)
    then show ?thesis
      using 3 len es by (simp add: ds)
  qed
qed

lemma rb_read_array_spec:
  assumes inv: "rb_inv rb" and small: "off + n < 2 ^ 32"
  shows "\<exists>ds. gather (rb_mem rb) (read_array rb n off) = Some ds \<and>
    concat ds = take n (drop off (rb_content rb))"
proof (cases "off \<ge> rb_readable rb")
  case True
  then show ?thesis
    using inv length_content [OF inv]
    by (auto simp: read_array_def readable_len_def mem_get_def rb_inv_def)
next
  case False
  define n' where "n' = (if off + n > rb_readable rb then rb_readable rb - off else n)"
  define len0 where
    "len0 = (if continuously_readable rb > n' + off then n' + off else continuously_readable rb)"
  have n': "n' + off \<le> rb_readable rb" "n' = min n (rb_readable rb - off)"
    using False by (auto simp: n'_def)
  have len0: "len0 = min (n' + off) (rb_size rb - rb_rd rb)"
    using n'(1) by (auto simp: len0_def continuously_readable_def Let_def)
  have rd: "rb_rd rb \<le> rb_size rb" "length (rb_mem rb) = rb_size rb" "n' + off \<le> rb_size rb"
    "n' + off < 2 ^ 32"
    using inv n'(1) by (auto simp: rb_inv_def)
  have bounds: "rb_rd rb + len0 \<le> rb_size rb" "n' + off - len0 \<le> rb_size rb"
    using rd(1,3) unfolding len0 by linarith+
  have "gather (rb_mem rb) [(rb_rd rb, len0), (0, n' + off - len0)] =
      Some [take len0 (drop (rb_rd rb) (rb_mem rb)), take (n' + off - len0) (rb_mem rb)]"
    using rd(2) bounds by (simp add: mem_get_def)
  then obtain ds where
    ds: "gather (rb_mem rb) (arr_advance [(rb_rd rb, len0), (0, n' + off - len0)] off) = Some ds"
    "concat ds =
      drop off (take len0 (drop (rb_rd rb) (rb_mem rb)) @ take (n' + off - len0) (rb_mem rb))"
    using gather_arr_advance [of "rb_mem rb" "[(rb_rd rb, len0), (0, n' + off - len0)]" _ off]
    by auto
  have "take len0 (drop (rb_rd rb) (rb_mem rb)) @ take (n' + off - len0) (rb_mem rb) =
      take (n' + off) (rot (rb_rd rb) (rb_mem rb))"
    using rd len0 by (auto simp: rot_def min_def)
  then have "concat ds = take n (drop off (rb_content rb))"
    unfolding ds(2) using n' by (simp add: rb_content_def drop_take min_def)
  moreover have "read_array rb n off = arr_advance [(rb_rd rb, len0), (0, n' + off - len0)] off"
    using False
    by (simp only: read_array_def readable_len_def w32_id [OF small] w32_id [OF rd(4)] Let_def
        n'_def [symmetric] len0_def [symmetric] if_False)
  ultimately show ?thesis
    using ds(1) by simp
qed

subsection \<open>Transfer between rings\<close>

lemma gather_length_le:
  "gather m arr = Some ds \<Longrightarrow> d \<in> set ds \<Longrightarrow> length d \<le> length m"
  by (induction m arr arbitrary: ds rule: gather.induct)
    (auto simp: bind_eq_Some_conv mem_get_def split: if_splits)

lemma rb_read_to_spec:
  assumes src: "rb_inv src" and dst: "rb_inv dst"
  obtains src' dst' where
    "rb_read_to False src dst n =
       Some (min n (min (rb_readable src) (writable_len dst)), src', dst')"
    "rb_inv src'" "rb_inv dst'"
    "rb_content dst' = rb_content dst @ take (min n (writable_len dst)) (rb_content src)"
    "rb_content src' = drop (min n (writable_len dst)) (rb_content src)"
    "rb_size src' = rb_size src" "rb_size dst' = rb_size dst"
proof -
  define n1 where "n1 = (if n > readable_len src then readable_len src else n)"
  have n1: "n1 = min n (rb_readable src)" "n1 < 2 ^ 32"
    using src by (auto simp: n1_def readable_len_def rb_inv_def)
  obtain ds where ds: "gather (rb_mem src) (read_array src n1 0) = Some ds"
    "concat ds = take n1 (rb_content src)"
    using rb_read_array_spec [OF src, of 0 n1] n1(2) by auto
  have small: "\<forall>d \<in> set ds. length d < 2 ^ 32"
    using gather_length_le [OF ds(1)] src by (fastforce simp: rb_inv_def)
  obtain dst' where dst': "rb_writev dst ds = Some (min (length (concat ds)) (writable_len dst), dst')"
    "rb_inv dst'" "rb_content dst' = rb_content dst @ take (writable_len dst) (concat ds)"
    "rb_size dst' = rb_size dst"
    using rb_writev_spec [OF dst small] by blast
  have k: "min (length (concat ds)) (writable_len dst) = min n (min (rb_readable src) (writable_len dst))"
    unfolding ds(2) using length_content [OF src] n1(1) by simp
  obtain src' where src': "read_advance src (min n (min (rb_readable src) (writable_len dst))) = Some src'"
    "rb_inv src'"
    "rb_content src' = drop (min n (min (rb_readable src) (writable_len dst))) (rb_content src)"
    "rb_size src' = rb_size src"
    using read_advance_spec [OF src min.coboundedI2 [OF min.cobounded1]] by blast
  have "rb_content src' = drop (min n (writable_len dst)) (rb_content src)"
    unfolding src'(3) using length_content [OF src] by (auto simp: min_def)
  moreover have "rb_content dst' = rb_content dst @ take (min n (writable_len dst)) (rb_content src)"
    unfolding dst'(3) ds(2) n1(1) using length_content [OF src] by (auto simp: min_def)
  moreover have "rb_read_to False src dst n =
      Some (min n (min (rb_readable src) (writable_len dst)), src', dst')"
    using ds(1) dst'(1) src'(1)
    by (simp add: rb_read_to_def n1_def [symmetric] Let_def k)
  ultimately show ?thesis
    using src' dst' by (intro that [of src' dst']) simp_all
qed

lemma mem_put_Nil: "p \<le> length m \<Longrightarrow> mem_put m p [] = Some m"
  by (simp add: mem_put_def)

lemma scatter_two:
  "w \<le> length m \<Longrightarrow>
   scatter m [(w, l0), (0, l1)] (split_lens [l0, l1] c) =
     mem_put m w (take l0 c) \<bind> (\<lambda>m1. mem_put m1 0 (take l1 (drop l0 c)))"
  by (auto simp: mem_put_Nil bind_eq_None_conv split: bind_splits)

lemma contiguous_room:
  fixes sz rd wr readable cw n :: nat
  assumes "wr = rd + readable \<or> wr + sz = rd + readable \<or> wr = rd + readable + sz"
    and "rd < sz \<or> rd = 0" "wr \<le> sz" "readable \<le> sz" "readable < sz" "n \<le> sz - readable"
    and "cw = (if rd > wr then rd - wr else if rd = wr \<and> readable \<noteq> 0 then 0 else sz - wr)"
  shows "min cw n = min n (sz - wr)"
  using assms by (auto split: if_splits)

lemma write_array_two:
  assumes inv: "rb_inv rb" and room: "0 < writable_len rb" and n: "n \<le> writable_len rb"
  defines "l0 \<equiv> min (continuously_writable rb) n"
  shows "write_array rb n 0 = [(rb_wr rb, l0), (0, n - l0)]"
    and "copy_in rb (rb_wr rb) (take n c) =
      map_option (\<lambda>m. rb\<lparr>rb_mem := m\<rparr>)
        (scatter (rb_mem rb) [(rb_wr rb, l0), (0, n - l0)] (split_lens [l0, n - l0] c))"
proof -
  have turn: "rb_wr rb = rb_rd rb + rb_readable rb \<or>
      rb_wr rb + rb_size rb = rb_rd rb + rb_readable rb \<or>
      rb_wr rb = rb_rd rb + rb_readable rb + rb_size rb"
    and ptrs: "rb_rd rb < rb_size rb \<or> rb_rd rb = 0" "rb_wr rb \<le> rb_size rb"
      "rb_readable rb \<le> rb_size rb" "length (rb_mem rb) = rb_size rb" "rb_size rb < 2 ^ 32"
    using inv by (simp_all add: rb_inv_def turn_eq_def)
  have "n < 2 ^ 32"
    using n ptrs(5) by (simp add: writable_len_def)
  then have "write_array rb n 0 =
      (let len0 = (if continuously_writable rb > n then n else continuously_writable rb)
       in [(rb_wr rb, len0), (0, n - len0)])"
    using room n by (simp add: write_array_def Let_def)
  also have "(if continuously_writable rb > n then n else continuously_writable rb) = l0"
    by (simp add: l0_def)
  finally show "write_array rb n 0 = [(rb_wr rb, l0), (0, n - l0)]"
    by (simp only: Let_def)
  have l0: "l0 = min n (rb_size rb - rb_wr rb)"
    using room n unfolding l0_def writable_len_def
    by (intro contiguous_room [OF turn ptrs(1-3) _ _ continuously_writable_def]) simp_all
  have "n \<le> rb_size rb"
    using n by (simp add: writable_len_def)
  then show "copy_in rb (rb_wr rb) (take n c) =
      map_option (\<lambda>m. rb\<lparr>rb_mem := m\<rparr>)
        (scatter (rb_mem rb) [(rb_wr rb, l0), (0, n - l0)] (split_lens [l0, n - l0] c))"
  proof (cases "length (take n c) \<le> rb_size rb - rb_wr rb")
    case True
    then have "take n c = take l0 c" "take (n - l0) (drop l0 c) = []"
      using l0 by (cases "n \<le> rb_size rb - rb_wr rb"; simp add: min_def split: if_splits)+
    then show ?thesis
      using True ptrs
      by (simp only: scatter_two copy_in_def Let_def if_True)
        (auto simp: mem_put_Nil map_option_case split: bind_splits option.splits
          dest: mem_put_length)
  next
    case False
    then have *: "l0 = rb_size rb - rb_wr rb" "l0 \<le> n"
      using l0 by simp_all
    have "take l0 (take n c) = take l0 c" "drop l0 (take n c) = take (n - l0) (drop l0 c)"
      using *(2) by (auto simp: min_def drop_take)
    then show ?thesis
      using False ptrs
      by (simp only: scatter_two copy_in_def Let_def if_False *(1) [symmetric])
        (auto simp: map_option_case split: bind_splits option.splits)
  qed
qed

lemma rb_write_from_spec:
  assumes dst: "rb_inv dst" and src: "rb_inv src"
  obtains dst' src' where
    "rb_write_from False dst src n =
       Some (min n (min (rb_readable src) (writable_len dst)), dst', src')"
    "rb_inv dst'" "rb_inv src'"
    "rb_content dst' = rb_content dst @ take (min n (writable_len dst)) (rb_content src)"
    "rb_content src' = drop (min n (writable_len dst)) (rb_content src)"
    "rb_size dst' = rb_size dst" "rb_size src' = rb_size src"
proof -
  define n1 where "n1 = (if n > writable_len dst then writable_len dst else n)"
  have n1: "n1 = min n (writable_len dst)" "n1 \<le> writable_len dst" "n1 < 2 ^ 32"
    using dst by (auto simp: n1_def writable_len_def rb_inv_def)
  define d where "d = take n1 (rb_content src)"
  have fits: "rb_readable dst + length d \<le> rb_size dst"
    using n1(2) rb_inv_readable [OF dst] by (simp add: d_def)
  have len_d: "length d \<le> writable_len dst"
    using n1(2) by (simp add: d_def)
  have wr: "rb_wr dst \<le> rb_size dst" "turn_eq (rb_size dst) (rb_wr dst) (rb_rd dst + rb_readable dst)"
    using dst by (simp_all add: rb_inv_def)
  obtain rb1 where cp: "copy_in dst (rb_wr dst) d = Some rb1" and put: "rot_put dst (rb_readable dst) d rb1"
    using copy_in_rot_put [OF dst wr fits] by blast
  have "\<exists>l0 l1 base m. write_array dst n1 0 = [(base, l0), (0, l1)] \<and> l0 + l1 = n1 \<and>
      scatter (rb_mem dst) (write_array dst n1 0) (split_lens [l0, l1] (rb_content src)) = Some m \<and>
      rb1 = dst\<lparr>rb_mem := m\<rparr>"
  proof (cases "writable_len dst = 0")
    case True
    then have z: "n1 = 0" "d = []" "write_array dst n1 0 = [(rb_rd dst, 0), (0, 0)]"
      using n1 by (simp_all add: d_def write_array_def)
    moreover have "scatter (rb_mem dst) [(rb_rd dst, 0), (0, 0)] [[], []] = Some (rb_mem dst)"
      using dst by (auto simp: mem_put_Nil rb_inv_def)
    moreover have "rb1 = dst"
      using cp z(2) wr(1) dst by (auto simp: copy_in_def mem_put_Nil rb_inv_def)
    ultimately show ?thesis
      by (intro exI [of _ 0] exI [of _ "rb_rd dst"] exI [of _ "rb_mem dst"]) simp
  next
    case False
    then show ?thesis
      using write_array_two(1) [OF dst _ n1(2)]
        write_array_two(2) [OF dst _ n1(2), of "rb_content src"] cp n1(2)
      by (auto simp: d_def)
  qed
  then obtain l0 l1 base m where arr: "write_array dst n1 0 = [(base, l0), (0, l1)]" "l0 + l1 = n1"
    and sc: "scatter (rb_mem dst) (write_array dst n1 0) (split_lens [l0, l1] (rb_content src)) = Some m"
    and rb1: "rb1 = dst\<lparr>rb_mem := m\<rparr>"
    by blast
  obtain src' where src': "rb_readv src [l0, l1] = Some (split_lens [l0, l1] (rb_content src), src')"
    "rb_inv src'" "rb_content src' = drop (sum_list [l0, l1]) (rb_content src)"
    "rb_size src' = rb_size src"
    using rb_readv_spec [OF src, of "[l0, l1]"] arr(2) n1(3) by auto
  have len: "sum_list (map length (split_lens [l0, l1] (rb_content src))) = length d"
    unfolding length_concat [symmetric] concat_split_lens d_def arr(2) [symmetric] by simp
  obtain dst' where dst': "write_advance rb1 (length d) = Some dst'" "rb_inv dst'"
    "rb_content dst' = rb_content dst @ d" "rb_size dst' = rb_size dst"
    using rot_put_append [OF put dst len_d] by blast
  have k: "length d = min n (min (rb_readable src) (writable_len dst))"
    unfolding d_def n1(1) using length_content [OF src] by simp
  have "rb_write_from False dst src n = Some (length d, dst', src')"
    unfolding rb_write_from_def n1_def [symmetric] Let_def arr(1) [unfolded arr(1)]
    using src'(1) sc dst'(1) len rb1 arr(1)
    by (simp del: split_lens.simps rb_readv.simps scatter.simps)
  then have "rb_write_from False dst src n =
      Some (min n (min (rb_readable src) (writable_len dst)), dst', src')"
    by (simp only: k)
  moreover have "rb_content dst' = rb_content dst @ take (min n (writable_len dst)) (rb_content src)"
    by (simp only: dst'(3) d_def n1(1))
  moreover have "rb_content src' = drop (min n (writable_len dst)) (rb_content src)"
    using src'(3) arr(2) n1(1) by simp
  ultimately show ?thesis
    using dst'(2,4) src'(2,4) by (intro that [of dst' src'])
qed

subsection \<open>Moving the content inside one block or to a new one\<close>

lemma rb_reposition_spec:
  assumes "rb_inv rb"
  defines "len \<equiv> rb_size rb - rb_rd rb"
  shows "if rb_rd rb = 0 \<or> rb_rd rb + rb_readable rb \<le> rb_size rb
      \<or> rb_readable rb - len \<le> len \<and> len \<le> rb_rd rb
    then \<exists>rb'. rb_reposition rb = Some rb' \<and> rb_inv rb' \<and> rb_content rb' = rb_content rb \<and>
      rb_rd rb' = 0 \<and> rb_size rb' = rb_size rb
    else rb_reposition rb = None"
proof -
  have inv: "length (rb_mem rb) = rb_size rb" "rb_readable rb \<le> rb_size rb" "rb_size rb < 2 ^ 32"
    "rb_rd rb \<le> rb_size rb"
    using assms(1) by (auto simp: rb_inv_def)
  consider "rb_rd rb = 0" | "rb_rd rb \<noteq> 0" "rb_rd rb + rb_readable rb \<le> rb_size rb"
    | "rb_rd rb \<noteq> 0" "\<not> rb_rd rb + rb_readable rb \<le> rb_size rb"
        "rb_readable rb - len \<le> len" "len \<le> rb_rd rb"
    | "rb_rd rb \<noteq> 0" "\<not> rb_rd rb + rb_readable rb \<le> rb_size rb"
        "\<not> (rb_readable rb - len \<le> len \<and> len \<le> rb_rd rb)"
    using that not_le by blast
  then show ?thesis
  proof cases
    case 1
    then show ?thesis
      using assms(1) by (simp add: rb_reposition_def)
  next
    case 2
    then show ?thesis
      using inv
      by (auto simp: rb_reposition_def mem_move_def mem_get_def mem_put_def rb_inv_def
          rb_content_def rot_def turn_eq_def)
  next
    case 3
    have wrapped: "rb_readable rb > len" "len + rb_rd rb = rb_size rb"
      using 3(2) inv(4) by (auto simp: len_def)
    then show ?thesis
      using 3 inv
      by (auto simp: rb_reposition_def Let_def len_def [symmetric] mem_copy_def mem_move_def
          mem_get_def mem_put_def rb_inv_def rb_content_def rot_def turn_eq_def min_def)
  next
    case 4
    have wrapped: "rb_readable rb > len"
      using 4(2) inv(4) by (auto simp: len_def)
    have "\<not> (len = 0 \<or> len \<le> rb_rd rb \<or> rb_rd rb + len \<le> 0)" if "rb_readable rb - len \<le> len"
      using that 4 by auto
    then show ?thesis
      using 4 wrapped
      by (auto simp: rb_reposition_def Let_def len_def [symmetric] mem_copy_def check_def
          bind_eq_None_conv split: bind_splits)
  qed
qed

lemma rb_resize_spec:
  assumes inv: "rb_inv rb" and room: "rb_readable rb \<le> length fresh" "length fresh < 2 ^ 32"
  obtains rb' where "rb_resize rb fresh = Some rb'" "rb_inv rb'" "rb_content rb' = rb_content rb"
    "rb_size rb' = length fresh"
proof -
  let ?m = "rb_content rb @ drop (rb_readable rb) fresh"
  let ?new = "\<lparr>rb_mem = ?m, rb_rd = 0, rb_wr = 0, rb_readable = 0, rb_size = length fresh\<rparr>"
  have len: "length (rb_content rb) = rb_readable rb"
    by (rule length_content [OF inv])
  obtain old where "rb_read rb (rb_readable rb) = Some (rb_content rb, old)"
    using rb_read_spec [OF inv, of "rb_readable rb"] len by auto
  moreover have "mem_put fresh 0 (rb_content rb) = Some ?m"
    using room(1) len by (simp add: mem_put_def)
  moreover have "rb_inv ?new" "rb_readable rb \<le> writable_len ?new"
    using room len by (simp_all add: rb_inv_def turn_eq_def writable_len_def)
  then obtain rb' where "write_advance ?new (rb_readable rb) = Some rb'" "rb_inv rb'"
    "rb_content rb' = take (0 + rb_readable rb) (rot 0 ?m)" "rb_size rb' = length fresh"
    using write_advance_spec by (metis ring.select_convs)
  ultimately show ?thesis
    using len room(1) by (intro that [of rb']) (simp_all add: rb_resize_def readable_len_def rot_def)
qed

section \<open>The stream interface\<close>

text \<open>
  What a client of \<open>InputBuffer\<close>/\<open>OutputBuffer\<close> relies on: \<open>write\<close> accepts as much as there is
  room for and appends it, \<open>read\<close> delivers the oldest bytes, and a byte that can be peeked is the
  one a later \<open>read\<close> delivers.
\<close>

datatype stream_op = Put "byte list" | Get nat

fun stream_run ::
  "('s \<Rightarrow> byte list \<Rightarrow> (nat \<times> 's) option) \<Rightarrow> ('s \<Rightarrow> nat \<Rightarrow> (byte list \<times> 's) option) \<Rightarrow>
   stream_op list \<Rightarrow> 's \<Rightarrow> (byte list \<times> byte list \<times> 's) option" where
  "stream_run wr rd [] s = Some ([], [], s)"
| "stream_run wr rd (Put d # ops) s = do {
     (n, s1) \<leftarrow> wr s d;
     (acc, del, s2) \<leftarrow> stream_run wr rd ops s1;
     Some (take n d @ acc, del, s2)
   }"
| "stream_run wr rd (Get n # ops) s = do {
     (d, s1) \<leftarrow> rd s n;
     (acc, del, s2) \<leftarrow> stream_run wr rd ops s1;
     Some (acc, d @ del, s2)
   }"

locale byte_stream =
  fixes wr :: "'s \<Rightarrow> byte list \<Rightarrow> (nat \<times> 's) option"
    and rd :: "'s \<Rightarrow> nat \<Rightarrow> (byte list \<times> 's) option"
    and content :: "'s \<Rightarrow> byte list"
    and inv :: "'s \<Rightarrow> bool"
    and room :: "'s \<Rightarrow> nat"
  assumes wr: "inv s \<Longrightarrow> \<exists>s'. wr s d = Some (min (length d) (room s), s') \<and> inv s' \<and>
      content s' = content s @ take (room s) d \<and> room s' = room s - length d"
    and rd: "inv s \<Longrightarrow> \<exists>s'. rd s n = Some (take n (content s), s') \<and> inv s' \<and>
      content s' = drop n (content s) \<and> room s' = room s + min n (length (content s))"
begin

lemma run_fifo:
  "inv s \<Longrightarrow> \<exists>acc del s'. stream_run wr rd ops s = Some (acc, del, s') \<and> inv s' \<and>
     content s @ acc = del @ content s'"
proof (induction ops arbitrary: s)
  case Nil
  then show ?case by simp
next
  case (Cons x ops)
  show ?case
  proof (cases x)
    case (Put d)
    obtain s1 where s1: "wr s d = Some (min (length d) (room s), s1)" "inv s1"
      "content s1 = content s @ take (room s) d"
      using wr [OF Cons.prems] by blast
    then show ?thesis
      using Cons.IH [OF s1(2)] by (auto simp: Put min_def)
  next
    case (Get n)
    obtain s1 where s1: "rd s n = Some (take n (content s), s1)" "inv s1"
      "content s1 = drop n (content s)"
      using rd [OF Cons.prems] by blast
    then obtain acc del s' where run: "stream_run wr rd ops s1 = Some (acc, del, s')" "inv s'"
      "drop n (content s) @ acc = del @ content s'"
      using Cons.IH [OF s1(2)] by auto
    then have "content s @ acc = (take n (content s) @ del) @ content s'"
      by (metis append.assoc append_take_drop_id)
    then show ?thesis
      using s1(1) run by (simp add: Get)
  qed
qed

lemma wr_rd_roundtrip:
  assumes "inv s" "content s = []" "length d \<le> room s"
  shows "\<exists>s1 s2. wr s d = Some (length d, s1) \<and> rd s1 (length d) = Some (d, s2) \<and> content s2 = []"
proof -
  obtain s1 where s1: "wr s d = Some (length d, s1)" "inv s1" "content s1 = d"
    using wr [OF assms(1), of d] assms(2,3) by (auto simp: min_def)
  then show ?thesis
    using rd [OF s1(2), of "length d"] by auto
qed

end

locale peek_stream = byte_stream +
  fixes peek :: "'s \<Rightarrow> nat \<Rightarrow> nat \<Rightarrow> byte list option"
  assumes peek: "inv s \<Longrightarrow> off + n < 2 ^ 32 \<Longrightarrow> peek s n off = Some (take n (drop off (content s)))"
begin

lemma peek_is_later_read:
  assumes "inv s" "off + n < 2 ^ 32"
  shows "\<exists>skipped s1 s2 d. rd s off = Some (skipped, s1) \<and> rd s1 n = Some (d, s2) \<and>
    peek s n off = Some d"
proof -
  obtain s1 where s1: "rd s off = Some (take off (content s), s1)" "inv s1"
    "content s1 = drop off (content s)"
    using rd [OF assms(1)] by blast
  then show ?thesis
    using rd [OF s1(2), of n] peek [OF assms] by auto
qed

end

lemma writable_len_content: "rb_inv rb \<Longrightarrow> writable_len rb = rb_size rb - length (rb_content rb)"
  by (simp add: length_content writable_len_def)

interpretation rbs: peek_stream rb_write rb_read rb_content rb_inv writable_len rb_try_read
proof unfold_locales
  fix rb d assume inv: "rb_inv rb"
  show "\<exists>rb'. rb_write rb d = Some (min (length d) (writable_len rb), rb') \<and> rb_inv rb' \<and>
      rb_content rb' = rb_content rb @ take (writable_len rb) d \<and>
      writable_len rb' = writable_len rb - length d"
  proof -
    obtain rb' where rb': "rb_write rb d = Some (min (length d) (writable_len rb), rb')" "rb_inv rb'"
      "rb_content rb' = rb_content rb @ take (writable_len rb) d" "rb_size rb' = rb_size rb"
      using rb_write_spec [OF inv] by blast
    then have "writable_len rb' = writable_len rb - length d"
      using inv by (auto simp: writable_len_content min_def)
    with rb' show ?thesis
      by blast
  qed
next
  fix rb n assume inv: "rb_inv rb"
  obtain rb' where rb': "rb_read rb n = Some (take n (rb_content rb), rb')" "rb_inv rb'"
    "rb_content rb' = drop n (rb_content rb)" "rb_size rb' = rb_size rb"
    using rb_read_spec [OF inv] by blast
  moreover have "length (rb_content rb) \<le> rb_size rb"
    using inv length_content [OF inv] by (simp add: rb_inv_def)
  ultimately show "\<exists>rb'. rb_read rb n = Some (take n (rb_content rb), rb') \<and> rb_inv rb' \<and>
      rb_content rb' = drop n (rb_content rb) \<and>
      writable_len rb' = writable_len rb + min n (length (rb_content rb))"
    using inv by (auto simp: writable_len_content)
next
  fix rb off n assume "rb_inv rb" "off + n < (2 :: nat) ^ 32"
  then show "rb_try_read rb n off = Some (take n (drop off (rb_content rb)))"
    by (rule rb_try_read_spec)
qed

lemma rb_new_inv: "length m < 2 ^ 32 \<Longrightarrow> rb_inv (rb_new m) \<and> rb_content (rb_new m) = []"
  by (simp add: rb_inv_def rb_new_def turn_eq_def rb_content_def)

definition rb_run :: "stream_op list \<Rightarrow> ring \<Rightarrow> (byte list \<times> byte list \<times> ring) option" where
  "rb_run = stream_run rb_write rb_read"

text \<open>
  Property C6. Whatever sequence of writes and reads is applied to a ring, no operation fails or
  leaves the block, and the bytes delivered followed by those still waiting are exactly the bytes
  that were waiting followed by those accepted: nothing is lost, duplicated or reordered, however
  often the two ends wrap.
\<close>

theorem rb_fifo:
  assumes "rb_inv rb"
  shows "\<exists>acc del rb'. rb_run ops rb = Some (acc, del, rb') \<and> rb_inv rb' \<and>
    rb_content rb @ acc = del @ rb_content rb'"
  unfolding rb_run_def by (rule rbs.run_fifo [OF assms])

theorem rb_fifo_witness:
  "\<exists>acc del rb'. rb_run [Put [1, 2, 3], Get 2, Put [4, 5, 6, 7]] (rb_new [0, 0, 0, 0]) =
      Some (acc, del, rb') \<and> rb_inv rb' \<and>
      rb_content (rb_new [0, 0, 0, 0]) @ acc = del @ rb_content rb'"
  by (rule rb_fifo) (simp add: rb_new_inv)



text \<open>
  \<open>try_read\<close> peeks: it delivers what a read of the same length would deliver after
  the bytes before the offset are consumed, provided offset and length do not overflow uint32.
\<close>

theorem rb_try_read_peeks:
  assumes "rb_inv rb" "off + n < 2 ^ 32"
  shows "\<exists>skipped rb1 rb2 d. rb_read rb off = Some (skipped, rb1) \<and> rb_read rb1 n = Some (d, rb2) \<and>
    rb_try_read rb n off = Some d"
  by (rule rbs.peek_is_later_read [OF assms])

theorem rb_try_read_peeks_witness:
  "\<exists>skipped rb1 rb2 d.
     rb_read \<lparr>rb_mem = [1, 2, 3, 4], rb_rd = 3, rb_wr = 2, rb_readable = 3, rb_size = 4\<rparr> 1 =
       Some (skipped, rb1) \<and> rb_read rb1 2 = Some (d, rb2) \<and>
     rb_try_read \<lparr>rb_mem = [1, 2, 3, 4], rb_rd = 3, rb_wr = 2, rb_readable = 3, rb_size = 4\<rparr> 2 1 =
       Some d"
  by (rule rb_try_read_peeks) (simp_all add: rb_inv_def turn_eq_def)

text \<open>
  Bytes stored ahead with \<open>try_write\<close> stay invisible until \<open>_write\<close> is advanced over
  them: the content is unchanged at first, and after \<open>write_advance(offset + n)\<close> it is the old
  content, \<open>offset\<close> bytes of whatever the block held, and the stored bytes.
\<close>

theorem rb_try_write_publishes:
  assumes inv: "rb_inv rb" and "off < writable_len rb" "off + length d < 2 ^ 32"
  shows "\<exists>n rb1 rb2 gap. rb_try_write rb d off = Some (n, rb1) \<and>
    n = min (length d) (writable_len rb - off) \<and>
    rb_inv rb1 \<and> rb_content rb1 = rb_content rb \<and>
    write_advance rb1 (off + n) = Some rb2 \<and> rb_inv rb2 \<and> length gap = off \<and>
    rb_content rb2 = rb_content rb @ gap @ take n d"
proof -
  define d' where "d' = take (writable_len rb - off) d"
  let ?R = "rot (rb_rd rb) (rb_mem rb)" and ?k = "rb_readable rb"
  obtain rb1 where rb1: "rb_try_write rb d off = Some (length d', rb1)" and put: "rot_put rb (?k + off) d' rb1"
    using rb_try_write_spec [OF inv assms(3)] assms(2)
    by (metis d'_def length_take min.commute)
  have room: "?k + off + length d' \<le> rb_size rb" "off + length d' \<le> writable_len rb1"
    using assms(2) rb_inv_readable [OF inv] rot_put_same(5) [OF put] by (simp_all add: d'_def)
  obtain m where m: "rb1 = rb\<lparr>rb_mem := m\<rparr>"
    "rot (rb_rd rb) m = take (?k + off) ?R @ d' @ drop (?k + off + length d') ?R"
    using put by (auto simp: rot_put_def)
  have len: "length ?R = rb_size rb"
    using inv by (simp add: rb_inv_def)
  obtain rb2 where rb2: "write_advance rb1 (off + length d') = Some rb2" "rb_inv rb2"
    "rb_content rb2 = take (rb_readable rb1 + (off + length d')) (rot (rb_rd rb1) (rb_mem rb1))"
    using write_advance_spec [OF rot_put_inv [OF put inv] room(2)] by blast
  have "rb_content rb2 = take (?k + off) ?R @ d'"
    unfolding rb2(3) using room(1) len m take_after_splice [of "?k + off" ?R d']
    by (simp add: add.assoc)
  also have "take (?k + off) ?R = rb_content rb @ take off (drop ?k ?R)"
    by (simp add: rb_content_def take_add)
  finally have "rb_content rb2 = rb_content rb @ take off (drop ?k ?R) @ d'"
    by simp
  moreover have "length (take off (drop ?k ?R)) = off"
    using room(1) len by simp
  moreover have "take (length d') d = d'" "length d' = min (length d) (writable_len rb - off)"
    by (auto simp: d'_def min_def)
  moreover have "rb_content rb1 = rb_content rb"
    using rot_put_content_after [OF put inv] room(1) by simp
  ultimately show ?thesis
    using rb1 rb2(1,2) rot_put_inv [OF put inv] by metis
qed

theorem rb_try_write_publishes_witness:
  "\<exists>n rb1 rb2 gap. rb_try_write (rb_new [0, 0, 0, 0]) [7, 8, 9] 2 = Some (n, rb1) \<and>
    n = min (length [7, 8, 9 :: byte]) (writable_len (rb_new [0, 0, 0, 0]) - 2) \<and>
    rb_inv rb1 \<and> rb_content rb1 = rb_content (rb_new [0, 0, 0, 0]) \<and>
    write_advance rb1 (2 + n) = Some rb2 \<and> rb_inv rb2 \<and> length gap = 2 \<and>
    rb_content rb2 = rb_content (rb_new [0, 0, 0, 0]) @ gap @ take n [7, 8, 9]"
  by (rule rb_try_write_publishes) (simp_all add: rb_new_inv, simp add: rb_new_def writable_len_def)

text \<open>A ring of four cells whose three waiting bytes wrap, for the witnesses below.\<close>

definition rb_wrapped :: ring where
  "rb_wrapped = \<lparr>rb_mem = [1, 2, 3, 4], rb_rd = 3, rb_wr = 2, rb_readable = 3, rb_size = 4\<rparr>"

lemma rb_wrapped_facts: "rb_inv rb_wrapped" "rb_readable rb_wrapped = 3"
  by (simp_all add: rb_wrapped_def rb_inv_def turn_eq_def)

text \<open>
  Property C25. Moving bytes between two rings, pulled by the reader or pushed by the writer, moves
  the same longest prefix that both have, appends it to the destination and consumes it from the
  source; the two directions agree. A ring is never moved into itself.
\<close>

theorem rb_transfer:
  fixes n :: nat
  assumes "rb_inv src" "rb_inv dst"
  defines "k \<equiv> min n (min (rb_readable src) (writable_len dst))"
  shows "\<exists>src1 dst1 src2 dst2.
    rb_read_to False src dst n = Some (k, src1, dst1) \<and> rb_inv src1 \<and> rb_inv dst1 \<and>
    rb_content dst1 = rb_content dst @ take k (rb_content src) \<and>
    rb_content src1 = drop k (rb_content src) \<and>
    rb_write_from False dst src n = Some (k, dst2, src2) \<and> rb_inv src2 \<and> rb_inv dst2 \<and>
    rb_content dst2 = rb_content dst1 \<and> rb_content src2 = rb_content src1 \<and>
    rb_read_to True src src n = Some (0, src, src)"
proof -
  have k: "take (min n (writable_len dst)) (rb_content src) = take k (rb_content src)"
    "drop (min n (writable_len dst)) (rb_content src) = drop k (rb_content src)"
    using length_content [OF assms(1)] by (auto simp: k_def min_def)
  obtain src1 dst1 where "rb_read_to False src dst n = Some (k, src1, dst1)" "rb_inv src1"
    "rb_inv dst1" "rb_content dst1 = rb_content dst @ take k (rb_content src)"
    "rb_content src1 = drop k (rb_content src)"
    using rb_read_to_spec [OF assms(1,2), of n] unfolding k k_def [symmetric] by blast
  moreover obtain dst2 src2 where "rb_write_from False dst src n = Some (k, dst2, src2)"
    "rb_inv dst2" "rb_inv src2" "rb_content dst2 = rb_content dst @ take k (rb_content src)"
    "rb_content src2 = drop k (rb_content src)"
    using rb_write_from_spec [OF assms(2,1), of n] unfolding k k_def [symmetric] by blast
  moreover have "rb_read_to True src src n = Some (0, src, src)"
    by (simp add: rb_read_to_def)
  ultimately show ?thesis
    by auto
qed

theorem rb_transfer_witness:
  "\<exists>src1 dst1 src2 dst2.
    rb_read_to False rb_wrapped (rb_new [0, 0]) 5 = Some (2, src1, dst1) \<and>
    rb_write_from False (rb_new [0, 0]) rb_wrapped 5 = Some (2, dst2, src2) \<and>
    rb_content dst2 = rb_content dst1"
proof -
  have "min 5 (min (rb_readable rb_wrapped) (writable_len (rb_new [0, 0]))) = 2"
    by (simp add: rb_wrapped_facts writable_len_def rb_new_def)
  then show ?thesis
    using rb_transfer [of rb_wrapped "rb_new [0, 0]" 5] rb_new_inv [of "[0, 0]"]
      rb_wrapped_facts(1) by auto
qed

text \<open>
  The two-piece view \<open>read_array\<close> gives a gathering consumer exactly the peeked bytes,
  and \<open>change_written\<close> through the same offset overwrites exactly those bytes.
\<close>

theorem rb_read_array_view:
  assumes "rb_inv rb" "off + length d < 2 ^ 32" "off + length d \<le> rb_readable rb"
  shows "\<exists>ds rb'. gather (rb_mem rb) (read_array rb (length d) off) = Some ds \<and>
    rb_content rb = take off (rb_content rb) @ concat ds @ drop (off + length d) (rb_content rb) \<and>
    rb_change_written rb off d = Some (length d, rb') \<and> rb_inv rb' \<and>
    rb_content rb' = take off (rb_content rb) @ d @ drop (off + length d) (rb_content rb)"
proof -
  obtain ds where ds: "gather (rb_mem rb) (read_array rb (length d) off) = Some ds"
    "concat ds = take (length d) (drop off (rb_content rb))"
    using rb_read_array_spec [OF assms(1,2)] by blast
  have "rb_content rb = take off (rb_content rb) @ concat ds @ drop (off + length d) (rb_content rb)"
    unfolding ds(2) by (metis append.assoc append_take_drop_id take_add)
  moreover have "min (length d) (rb_readable rb - off) = length d"
    "take (rb_readable rb - off) d = d"
    using assms(3) by simp_all
  ultimately show ?thesis
    using ds(1) rb_change_written_spec [OF assms(1,2)] by metis
qed

theorem rb_read_array_view_witness:
  "\<exists>ds rb'. gather (rb_mem rb_wrapped) (read_array rb_wrapped (length [8, 9 :: byte]) 1) = Some ds \<and>
    rb_content rb_wrapped =
      take 1 (rb_content rb_wrapped) @ concat ds
        @ drop (1 + length [8, 9 :: byte]) (rb_content rb_wrapped) \<and>
    rb_change_written rb_wrapped 1 [8, 9] = Some (length [8, 9 :: byte], rb') \<and> rb_inv rb' \<and>
    rb_content rb' = take 1 (rb_content rb_wrapped) @ [8, 9]
      @ drop (1 + length [8, 9 :: byte]) (rb_content rb_wrapped)"
  by (rule rb_read_array_view) (simp_all add: rb_wrapped_facts)

text \<open>
  \<open>resize\<close> to any block that can hold the waiting bytes keeps them in order and
  re-establishes the invariant at the new size; a smaller block fails the assertion.
\<close>

theorem rb_resize_keeps:
  assumes "rb_inv rb" "length fresh < 2 ^ 32"
  shows "if rb_readable rb \<le> length fresh
    then \<exists>rb'. rb_resize rb fresh = Some rb' \<and> rb_inv rb' \<and> rb_content rb' = rb_content rb \<and>
      rb_size rb' = length fresh
    else rb_resize rb fresh = None"
proof (cases "rb_readable rb \<le> length fresh")
  case True
  then show ?thesis
    using rb_resize_spec [OF assms(1) True assms(2)] by auto
next
  case False
  then show ?thesis
    by (simp add: rb_resize_def readable_len_def)
qed

theorem rb_resize_keeps_witness:
  "if rb_readable rb_wrapped \<le> length [0, 0, 0, 0, 0, 0 :: byte]
    then \<exists>rb'. rb_resize rb_wrapped [0, 0, 0, 0, 0, 0] = Some rb' \<and> rb_inv rb' \<and>
      rb_content rb' = rb_content rb_wrapped \<and> rb_size rb' = length [0, 0, 0, 0, 0, 0 :: byte]
    else rb_resize rb_wrapped [0, 0, 0, 0, 0, 0] = None"
  by (rule rb_resize_keeps) (simp_all add: rb_wrapped_facts)

text \<open>
  \<open>reposition\<close> moves the content to the start of the block when it is contiguous, or
  when it wraps and the part at the end of the block neither overlaps its destination nor is
  shorter than the part at the start; in every other wrapped case it calls \<open>memcpy\<close> on
  overlapping ranges, which is undefined (here \<open>None\<close>).
\<close>

theorem rb_reposition_exact:
  assumes "rb_inv rb"
  defines "len \<equiv> rb_size rb - rb_rd rb"
  shows "if rb_rd rb = 0 \<or> rb_rd rb + rb_readable rb \<le> rb_size rb
      \<or> rb_readable rb - len \<le> len \<and> len \<le> rb_rd rb
    then \<exists>rb'. rb_reposition rb = Some rb' \<and> rb_inv rb' \<and> rb_content rb' = rb_content rb \<and>
      rb_rd rb' = 0 \<and> rb_size rb' = rb_size rb
    else rb_reposition rb = None"
  unfolding len_def by (rule rb_reposition_spec [OF assms(1)])

theorem rb_reposition_exact_witness:
  "rb_reposition \<lparr>rb_mem = [1, 2, 3, 4], rb_rd = 1, rb_wr = 1, rb_readable = 4, rb_size = 4\<rparr> = None"
  using rb_reposition_exact
    [of "\<lparr>rb_mem = [1, 2, 3, 4], rb_rd = 1, rb_wr = 1, rb_readable = 4, rb_size = 4\<rparr>"]
  by (simp add: rb_inv_def turn_eq_def)

text \<open>
  Three corner cases of the code, on concrete rings. (1) \<open>try_read\<close> adds offset and
  size in uint32: a size near the maximum passes the length test and the copy leaves the block.
  (2) \<open>write_array\<close> with an offset does not subtract it from a size that fits without it: the
  pieces it returns cover bytes still waiting to be read. (3) After \<open>reposition\<close> of a full ring
  and reading everything, \<open>empty()\<close> is false although no byte is left.
\<close>

theorem rb_corner_cases:
  "rb_try_read (rb_new [0, 0, 0, 0] \<lparr>rb_readable := 3, rb_wr := 3\<rparr>) (2 ^ 32 - 1) 1 = None \<and>
   write_array \<lparr>rb_mem = [1, 2, 0, 0], rb_rd = 0, rb_wr = 2, rb_readable = 2, rb_size = 4\<rparr> 2 1 =
     [(3, 1), (0, 1)] \<and>
   (\<exists>rb1 rb2. rb_reposition \<lparr>rb_mem = [1, 2], rb_rd = 1, rb_wr = 1, rb_readable = 2, rb_size = 2\<rparr> =
       Some rb1 \<and> rb_read rb1 2 = Some ([2, 1], rb2) \<and> readable_len rb2 = 0 \<and> \<not> rb_empty rb2)"
proof (intro conjI)
  show "rb_try_read (rb_new [0, 0, 0, 0] \<lparr>rb_readable := 3, rb_wr := 3\<rparr>) (2 ^ 32 - 1) 1 = None"
    by (simp add: rb_try_read_def readable_len_def rb_new_def w32_def copy_out_def mem_get_def)
  show "write_array \<lparr>rb_mem = [1, 2, 0, 0], rb_rd = 0, rb_wr = 2, rb_readable = 2, rb_size = 4\<rparr> 2 1 =
      [(3, 1), (0, 1)]"
    by (simp add: write_array_def writable_len_def continuously_writable_def w32_def)
  show "\<exists>rb1 rb2. rb_reposition \<lparr>rb_mem = [1, 2], rb_rd = 1, rb_wr = 1, rb_readable = 2, rb_size = 2\<rparr> =
      Some rb1 \<and> rb_read rb1 2 = Some ([2, 1], rb2) \<and> readable_len rb2 = 0 \<and> \<not> rb_empty rb2"
    by (simp add: rb_reposition_def mem_copy_def mem_move_def mem_get_def mem_put_def rb_read_def
        copy_out_def read_advance_def readable_len_def rb_empty_def)
qed

end
