(* ===== verification/BufferPool.thy ===== *)
theory BufferPool
  imports Prelude
begin

text \<open>
  The buddy allocator of src/Base/Buffer/BufferPool.hpp and src/Base/Buffer/src/BufferPool.cpp.

  \<open>_rest\<close> is the heap-ordered array of a complete binary tree: entry \<open>i\<close> is the largest block that
  can still be handed out below node \<open>i\<close>. A buffer is its offset in \<open>_buffer\<close> and its size;
  \<open>nullptr\<close> is \<open>None\<close>. Whether \<open>posix_memalign\<close> succeeds is a parameter of the constructor. The
  mutex is held through each operation, which is therefore one step.

  The level of a node is computed in the sources with the int expression \<open>(1 << n) - 1\<close>, undefined
  from \<open>n = 31\<close> on; \<open>pow_minus_one\<close> makes that visible.
\<close>

section \<open>The model\<close>

definition BLOCK_SIZE :: nat where
  "BLOCK_SIZE = 4096"

function round_loop :: "64 word \<Rightarrow> 64 word \<Rightarrow> 64 word \<Rightarrow> 64 word" where
  "round_loop pre sz target =
     (if sz < target \<and> sz > pre then round_loop sz (push_bit 1 sz) target
      else if sz < pre then pre else sz)"
  by pat_completeness auto
termination
  by (relation "measure (\<lambda>(pre, sz, target). 2 ^ 64 - unat pre)")
    (auto simp: word_less_nat_alt intro!: diff_less_mono2 intro: unsigned_less [where 'b = 64, simplified])

declare round_loop.simps [simp del]

definition round_size :: "nat \<Rightarrow> nat" where
  "round_size target = unat (round_loop 0 (word_of_nat BLOCK_SIZE) (word_of_nat target))"

record pool =
  bp_size :: nat
  bp_alloc :: nat
  bp_rest :: "nat list"

type_synonym buffer = "(nat \<times> nat) option"

definition parent_sibling :: "nat \<Rightarrow> nat \<times> nat" where
  "parent_sibling i = (if odd i then ((i - 1) div 2, i + 1) else ((i - 2) div 2, i - 1))"

definition pow_minus_one :: "nat \<Rightarrow> nat option" where
  "pow_minus_one n = (if n < 31 then Some (2 ^ n - 1) else None)"

text \<open>The constructor: \<open>fill_level\<close> is the inner loop, \<open>fill_levels\<close> the outer one.\<close>

fun fill_level :: "nat list \<Rightarrow> nat \<Rightarrow> nat \<Rightarrow> nat \<Rightarrow> nat list option" where
  "fill_level rest i 0 s = Some rest"
| "fill_level rest i (Suc n) s = do {
     rest' \<leftarrow> vset rest i s;
     fill_level rest' (i + 1) n s
   }"

function fill_levels :: "nat list \<Rightarrow> nat \<Rightarrow> nat \<Rightarrow> nat \<Rightarrow> nat list option" where
  "fill_levels rest s t i =
     (if s \<ge> BLOCK_SIZE then do {
        rest' \<leftarrow> fill_level rest i t s;
        fill_levels rest' (s div 2) (2 * t) (i + t)
      } else Some rest)"
  by pat_completeness auto
termination
  by (relation "measure (\<lambda>(rest, s, t, i). s)") (auto simp: BLOCK_SIZE_def)

declare fill_levels.simps [simp del]

definition pool_new :: "bool \<Rightarrow> nat \<Rightarrow> pool option" where
  "pool_new memalign_ok total_size =
     (let sz = round_size total_size;
          rest = replicate (sz div BLOCK_SIZE * 2) 0
      in if \<not> memalign_ok then Some \<lparr>bp_size = 0, bp_alloc = 0, bp_rest = rest\<rparr>
         else do {
           rest' \<leftarrow> fill_levels rest sz 1 0;
           Some \<lparr>bp_size = sz, bp_alloc = total_size, bp_rest = rest'\<rparr>
         })"

definition max_block :: "pool \<Rightarrow> nat option" where
  "max_block bp = vget (bp_rest bp) 0"

text \<open>
  \<open>positioning\<close>: descend from the root to a node of the wanted size. Were the size never met, the
  index would leave the array.
\<close>

fun pos_loop :: "nat list \<Rightarrow> nat \<Rightarrow> nat \<Rightarrow> nat \<Rightarrow> nat \<Rightarrow> (nat \<times> nat) option" where
  "pos_loop rest sz s i n =
     (if s = sz then Some (i, n)
      else if s = 0 then None
      else do {
        l \<leftarrow> vget rest (2 * i + 1);
        r \<leftarrow> vget rest (2 * i + 2);
        check (l \<ge> sz \<or> r \<ge> sz);
        pos_loop rest sz (s div 2)
          (if r < sz \<or> l \<ge> sz \<and> l \<le> r then 2 * i + 1 else 2 * i + 2) (n + 1)
      })"

declare pos_loop.simps [simp del]

definition positioning :: "pool \<Rightarrow> nat \<Rightarrow> (nat \<times> nat) option" where
  "positioning bp sz = do {
     (i, n) \<leftarrow> pos_loop (bp_rest bp) sz (bp_size bp) 0 0;
     first \<leftarrow> pow_minus_one n;
     Some (i, (i - first) * sz)
   }"

function loc_loop :: "nat \<Rightarrow> nat \<Rightarrow> nat \<Rightarrow> nat option" where
  "loc_loop whole s i =
     (if whole > s then (if s = 0 then None else loc_loop whole (2 * s) (i + 1)) else Some i)"
  by pat_completeness auto
termination
  by (relation "measure (\<lambda>(whole, s, i). whole - s)") auto

declare loc_loop.simps [simp del]

definition location :: "pool \<Rightarrow> nat \<Rightarrow> nat \<Rightarrow> nat option" where
  "location bp target sz = do {
     n \<leftarrow> loc_loop (bp_size bp) sz 0;
     first \<leftarrow> pow_minus_one n;
     Some (first + target div sz)
   }"

function get_loop :: "nat list \<Rightarrow> nat \<Rightarrow> nat list option" where
  "get_loop rest i =
     (if i > 0 then do {
        let (p, s) = parent_sibling i;
        ri \<leftarrow> vget rest i;
        rs \<leftarrow> vget rest s;
        rp \<leftarrow> vget rest p;
        let ms = max ri rs;
        check (rp \<ge> ms);
        (if rp = ms then Some rest
         else get_loop (rest[p := ms]) p)
      } else Some rest)"
  by pat_completeness auto
termination
  by (relation "measure (\<lambda>(rest, i). i)") (auto simp: parent_sibling_def split: if_splits)

declare get_loop.simps [simp del]

definition pool_get :: "pool \<Rightarrow> nat \<Rightarrow> (buffer \<times> pool) option" where
  "pool_get bp sz0 = do {
     let sz = round_size sz0;
     top \<leftarrow> vget (bp_rest bp) 0;
     (if sz > top then Some (None, bp)
      else do {
        (i, ptr) \<leftarrow> positioning bp sz;
        ri \<leftarrow> vget (bp_rest bp) i;
        check (ri = sz);
        rest \<leftarrow> get_loop ((bp_rest bp)[i := 0]) i;
        Some (Some (ptr, sz), bp\<lparr>bp_rest := rest\<rparr>)
      })
   }"

function put_loop :: "nat list \<Rightarrow> nat \<Rightarrow> nat \<Rightarrow> nat list option" where
  "put_loop rest i fs =
     (if i > 0 then do {
        let (p, s) = parent_sibling i;
        ri \<leftarrow> vget rest i;
        rs \<leftarrow> vget rest s;
        rp \<leftarrow> vget rest p;
        let ms = (if ri = fs \<and> fs = rs then 2 * fs else max ri rs);
        check (rp \<le> ms);
        (if rp = ms then Some rest
         else put_loop (rest[p := ms]) p (2 * fs))
      } else Some rest)"
  by pat_completeness auto
termination
  by (relation "measure (\<lambda>(rest, i, fs). i)") (auto simp: parent_sibling_def split: if_splits)

declare put_loop.simps [simp del]

text \<open>\<open>BufferPool::put\<close> with the test of \<open>Buffer::put_back\<close>: returning an empty buffer does nothing.\<close>

definition pool_put :: "pool \<Rightarrow> buffer \<Rightarrow> pool option" where
  "pool_put bp b =
     (case b of None \<Rightarrow> Some bp
      | Some (ptr, sz) \<Rightarrow> do {
          i \<leftarrow> location bp ptr sz;
          ri \<leftarrow> vget (bp_rest bp) i;
          check (ri = 0);
          rest \<leftarrow> put_loop ((bp_rest bp)[i := sz]) i sz;
          Some (bp\<lparr>bp_rest := rest\<rparr>)
        })"

text \<open>\<open>Buffer::put_back\<close> also empties the buffer; move assignment puts the target back first.\<close>

definition buffer_put_back :: "pool \<Rightarrow> buffer \<Rightarrow> (buffer \<times> pool) option" where
  "buffer_put_back bp b = do {
     bp' \<leftarrow> pool_put bp b;
     Some (None, bp')
   }"

definition buffer_assign :: "pool \<Rightarrow> buffer \<Rightarrow> buffer \<Rightarrow> (buffer \<times> buffer \<times> pool) option" where
  "buffer_assign bp b other = do {
     (e, bp') \<leftarrow> buffer_put_back bp b;
     Some (other, e, bp')
   }"

text \<open>The destructor exits the process when a buffer is still out.\<close>

definition pool_destroy :: "pool \<Rightarrow> unit option" where
  "pool_destroy bp = do {
     m \<leftarrow> max_block bp;
     check (m = bp_size bp)
   }"

section \<open>The tree behind the array\<close>

text \<open>
  Node \<open>m\<close> of level \<open>k\<close> sits at index \<open>2 ^ k - 1 + m\<close>; in a pool of \<open>2 ^ D\<close> blocks it stands for
  the \<open>m\<close>-th aligned range of size \<open>full D k\<close>.
\<close>

definition idx :: "nat \<Rightarrow> nat \<Rightarrow> nat" where
  "idx k m = 2 ^ k - 1 + m"

definition full :: "nat \<Rightarrow> nat \<Rightarrow> nat" where
  "full D k = BLOCK_SIZE * 2 ^ (D - k)"

definition comb :: "nat \<Rightarrow> nat \<Rightarrow> nat \<Rightarrow> nat \<Rightarrow> nat" where
  "comb D k a b = (if a = full D (Suc k) \<and> b = full D (Suc k) then full D k else max a b)"

text \<open>
  The invariant is local: \<open>A\<close> is the set of nodes handed out. A handed-out node has no room and
  keeps its subtree full; any other inner node has the room of its children, merged when both are
  whole.
\<close>

definition node_ok :: "nat \<Rightarrow> (nat \<times> nat) set \<Rightarrow> nat list \<Rightarrow> nat \<Rightarrow> nat \<Rightarrow> bool" where
  "node_ok D A rest k m \<longleftrightarrow>
     (if (k, m) \<in> A
      then rest ! idx k m = 0 \<and> (k < D \<longrightarrow>
        rest ! idx (Suc k) (2 * m) = full D (Suc k) \<and>
        rest ! idx (Suc k) (2 * m + 1) = full D (Suc k))
      else rest ! idx k m =
        (if k = D then full D D
         else comb D k (rest ! idx (Suc k) (2 * m)) (rest ! idx (Suc k) (2 * m + 1))))"

definition buddy :: "nat \<Rightarrow> (nat \<times> nat) set \<Rightarrow> nat list \<Rightarrow> bool" where
  "buddy D A rest \<longleftrightarrow> length rest = 2 ^ Suc D \<and> (\<forall>k \<le> D. \<forall>m < 2 ^ k. node_ok D A rest k m)"

lemma full_pos [simp]: "0 < full D k"
  by (simp add: full_def BLOCK_SIZE_def)

lemma full_neq_0 [simp]: "full D k \<noteq> 0" "0 \<noteq> full D k"
  using full_pos [of D k] by auto

lemma full_Suc: "k < D \<Longrightarrow> full D k = 2 * full D (Suc k)"
  by (simp add: full_def Suc_diff_Suc [symmetric] del: power_Suc) simp

lemma comb_commute: "comb D k a b = comb D k b a"
  by (auto simp: comb_def max.commute)

lemma comb_ge: "k < D \<Longrightarrow> a \<le> full D (Suc k) \<Longrightarrow> b \<le> full D (Suc k) \<Longrightarrow> max a b \<le> comb D k a b"
  by (auto simp: comb_def full_Suc)

lemma comb_le: "k < D \<Longrightarrow> a \<le> full D (Suc k) \<Longrightarrow> b \<le> full D (Suc k) \<Longrightarrow> comb D k a b \<le> full D k"
  by (auto simp: comb_def full_Suc)

lemma comb_not_full: "a \<noteq> full D (Suc k) \<Longrightarrow> comb D k a b = max a b"
  by (simp add: comb_def)

lemma comb_full_iff:
  assumes "k < D" "a \<le> full D (Suc k)" "b \<le> full D (Suc k)"
  shows "comb D k a b = full D k \<longleftrightarrow> a = full D (Suc k) \<and> b = full D (Suc k)"
proof -
  have "max a b < full D k"
    unfolding full_Suc [OF assms(1)] using assms full_pos [of D "Suc k"] by linarith
  then show ?thesis
    by (auto simp: comb_def)
qed

lemma idx_0 [simp]: "idx 0 0 = 0"
  by (simp add: idx_def)

lemma idx_plus_1: "idx k m + 1 = 2 ^ k + m"
  using one_le_power [of "2 :: nat" k] unfolding idx_def by linarith

lemma idx_children: "2 * idx k m + 1 = idx (Suc k) (2 * m)" "2 * idx k m + 2 = idx (Suc k) (2 * m + 1)"
  using idx_plus_1 [of k m] idx_plus_1 [of "Suc k" "2 * m"] idx_plus_1 [of "Suc k" "2 * m + 1"]
  unfolding power_Suc by linarith+

lemma idx_pos: "0 < idx (Suc k) m"
  using idx_plus_1 [of "Suc k" m] one_le_power [of "2 :: nat" k] unfolding power_Suc by linarith

lemma idx_bounds: "m < 2 ^ k \<Longrightarrow> idx k m + 1 < 2 ^ Suc k" "2 ^ k \<le> idx k m + 1"
  using idx_plus_1 [of k m] unfolding power_Suc by linarith+

lemma idx_less: "k \<le> D \<Longrightarrow> m < 2 ^ k \<Longrightarrow> idx k m < 2 ^ Suc D"
  using idx_bounds(1) [of m k] power_increasing [of "Suc k" "Suc D" "2 :: nat"] by linarith

lemma idx_inj:
  assumes "m < 2 ^ k" "m' < 2 ^ k'" "idx k m = idx k' m'"
  shows "k = k' \<and> m = m'"
proof -
  have "\<not> k < k'" if "m < 2 ^ k" "idx k m = idx k' m'" for k k' m m'
  proof
    assume "k < k'"
    then have "(2 :: nat) ^ Suc k \<le> 2 ^ k'"
      by (intro power_increasing) simp_all
    then show False
      using idx_bounds(1) [OF that(1)] idx_bounds(2) [of k' m'] that(2) by linarith
  qed
  then have "k = k'"
    using assms by (metis linorder_neqE_nat)
  then show ?thesis
    using assms(3) idx_plus_1 [of k m] idx_plus_1 [of k' m'] by simp
qed

lemma parent_sibling_idx:
  "parent_sibling (idx (Suc k) m) =
     (idx k (m div 2), idx (Suc k) (if even m then m + 1 else m - 1))"
proof -
  have p: "1 \<le> (2 :: nat) ^ k"
    by simp
  show ?thesis
  proof (cases "even m")
    case True
    then obtain j where m: "m = 2 * j"
      by (elim evenE)
    have "idx (Suc k) m = 2 * idx k j + 1"
      unfolding idx_children m ..
    then show ?thesis
      using p by (simp add: parent_sibling_def m) (simp add: idx_def)
  next
    case False
    then obtain j where m: "m = 2 * j + 1"
      by (elim oddE)
    have "idx (Suc k) m = 2 * idx k j + 2"
      unfolding idx_children m ..
    then show ?thesis
      using p by (simp add: parent_sibling_def m) (simp add: idx_def)
  qed
qed

lemma node_bound: "buddy D A rest \<Longrightarrow> k \<le> D \<Longrightarrow> m < 2 ^ k \<Longrightarrow> rest ! idx k m \<le> full D k"
proof (induction "D - k" arbitrary: k m)
  case 0
  then have "k = D"
    by simp
  moreover have "node_ok D A rest k m"
    using 0 by (auto simp: buddy_def)
  ultimately show ?case
    by (auto simp: node_ok_def split: if_splits)
next
  case (Suc n)
  have "rest ! idx (Suc k) (2 * m) \<le> full D (Suc k)" "rest ! idx (Suc k) (2 * m + 1) \<le> full D (Suc k)"
    using Suc by (auto intro!: Suc.hyps(1))
  moreover have "node_ok D A rest k m"
    using Suc.prems by (auto simp: buddy_def)
  moreover have "k < D"
    using Suc.hyps(2) by simp
  ultimately show ?case
    by (auto simp: node_ok_def comb_le split: if_splits)
qed

text \<open>Below a node that is whole or handed out everything is whole, so handed-out nodes are unrelated.\<close>

lemma whole_below:
  assumes "buddy D A rest" "rest ! idx k m = full D k" "k + j \<le> D" "m < 2 ^ k" "n < 2 ^ j"
  shows "rest ! idx (k + j) (m * 2 ^ j + n) = full D (k + j)"
  using assms(3,5)
proof (induction j arbitrary: n)
  case 0
  then show ?case
    using assms(2) by simp
next
  case (Suc j)
  define q where "q = m * 2 ^ j + n div 2"
  have n: "n div 2 < 2 ^ j"
    using Suc.prems(2) by (simp add: div_less_iff_less_mult)
  have q: "q < 2 ^ (k + j)"
  proof -
    have "q < (m + 1) * 2 ^ j"
      using n by (simp add: q_def)
    also have "\<dots> \<le> 2 ^ k * 2 ^ j"
      using assms(4) by (intro mult_right_mono) simp_all
    finally show ?thesis
      by (simp add: power_add)
  qed
  have whole: "rest ! idx (k + j) q = full D (k + j)"
    using Suc.IH [OF _ n] Suc.prems(1) by (simp add: q_def)
  have "node_ok D A rest (k + j) q"
    using assms(1) q Suc.prems(1) by (auto simp: buddy_def)
  then have "comb D (k + j) (rest ! idx (Suc (k + j)) (2 * q)) (rest ! idx (Suc (k + j)) (2 * q + 1))
      = full D (k + j)"
    using whole Suc.prems(1) by (auto simp: node_ok_def split: if_splits)
  moreover have "rest ! idx (Suc (k + j)) (2 * q) \<le> full D (Suc (k + j))"
    "rest ! idx (Suc (k + j)) (2 * q + 1) \<le> full D (Suc (k + j))"
    using node_bound [OF assms(1), of "Suc (k + j)"] Suc.prems(1) q by auto
  ultimately have "rest ! idx (Suc (k + j)) (2 * q) = full D (Suc (k + j))"
    "rest ! idx (Suc (k + j)) (2 * q + 1) = full D (Suc (k + j))"
    using Suc.prems(1) by (simp_all add: comb_full_iff)
  moreover have "m * 2 ^ Suc j + n = 2 * q + n mod 2"
    by (simp add: q_def algebra_simps)
  ultimately show ?case
    by (cases "even n") (auto simp: even_iff_mod_2_eq_zero odd_iff_mod_2_eq_one)
qed

section \<open>The two loops restore the invariant\<close>

text \<open>
  Both loops run with every node in order except the parent of the node just changed, whose entry
  still reflects the old value \<open>v\<close> of that node.
\<close>

definition but_parent :: "nat \<Rightarrow> (nat \<times> nat) set \<Rightarrow> nat list \<Rightarrow> nat \<Rightarrow> nat \<Rightarrow> bool" where
  "but_parent D A rest k m \<longleftrightarrow> length rest = 2 ^ Suc D \<and>
     (\<forall>k' \<le> D. \<forall>m' < 2 ^ k'. \<not> (k = Suc k' \<and> m' = m div 2) \<longrightarrow> node_ok D A rest k' m')"

definition sib :: "nat \<Rightarrow> nat" where
  "sib m = (if even m then m + 1 else m - 1)"

lemma sib_less: "m < 2 ^ Suc k \<Longrightarrow> sib m < 2 ^ Suc k"
  by (auto simp: sib_def elim!: evenE)

lemma parent_sib: "parent_sibling (idx (Suc k) m) = (idx k (m div 2), idx (Suc k) (sib m))"
  by (simp add: parent_sibling_idx sib_def)

lemma parent_node_ok:
  assumes "(k, m div 2) \<notin> A" "k < D"
  shows "node_ok D A rest k (m div 2) \<longleftrightarrow>
    rest ! idx k (m div 2) = comb D k (rest ! idx (Suc k) m) (rest ! idx (Suc k) (sib m))"
proof (cases "even m")
  case True
  then show ?thesis
    using assms by (auto simp: node_ok_def sib_def)
next
  case False
  then have "2 * (m div 2) = m - 1" "2 * (m div 2) + 1 = m"
    by presburger+
  then show ?thesis
    using assms False by (auto simp: node_ok_def sib_def comb_commute)
qed

lemma but_parent_root: "but_parent D A rest 0 0 \<longleftrightarrow> buddy D A rest"
  by (auto simp: but_parent_def buddy_def)

lemma but_parent_fixed:
  "but_parent D A rest (Suc k) m \<Longrightarrow> node_ok D A rest k (m div 2) \<Longrightarrow> buddy D A rest"
  by (auto simp: but_parent_def buddy_def)

text \<open>Changing an entry disturbs its own node and its parent only.\<close>

lemma node_ok_upd_other:
  assumes "k \<le> D" "m < 2 ^ k" "k' \<le> D" "m' < 2 ^ k'" "length rest = 2 ^ Suc D"
    and "(k', m') \<noteq> (k, m)" "\<not> (k = Suc k' \<and> m' = m div 2)"
  shows "node_ok D A (rest[idx k m := v]) k' m' \<longleftrightarrow> node_ok D A rest k' m'"
proof -
  have own: "rest[idx k m := v] ! idx k' m' = rest ! idx k' m'"
    using idx_inj [OF assms(2,4)] assms(6) by (metis nth_list_update_neq)
  have child: "rest[idx k m := v] ! idx (Suc k') c = rest ! idx (Suc k') c"
    if "c div 2 = m'" for c
  proof -
    have "c < 2 ^ Suc k'"
      using that assms(4) by (simp add: div_less_iff_less_mult)
    then have "idx k m \<noteq> idx (Suc k') c"
      using idx_inj [OF assms(2)] assms(7) that by blast
    then show ?thesis
      by simp
  qed
  show ?thesis
    using own child [of "2 * m'"] child [of "2 * m' + 1"] by (simp add: node_ok_def)
qed

lemma but_parent_step:
  assumes "but_parent D A rest (Suc k) m" "k < D" "m < 2 ^ Suc k" "(k, m div 2) \<notin> A"
    and "new = comb D k (rest ! idx (Suc k) m) (rest ! idx (Suc k) (sib m))"
  shows "but_parent D A (rest[idx k (m div 2) := new]) k (m div 2)"
proof -
  have len: "length rest = 2 ^ Suc D" and p: "m div 2 < 2 ^ k"
    using assms(1,3) by (auto simp: but_parent_def div_less_iff_less_mult)
  have ne: "idx k (m div 2) \<noteq> idx (Suc k) c" if "c < 2 ^ Suc k" for c
    using idx_inj [OF p that] by auto
  have "node_ok D A (rest[idx k (m div 2) := new]) k (m div 2)"
    using assms(2-5) len idx_less [OF _ p, of D] ne [OF assms(3)] ne [OF sib_less [OF assms(3)]]
    by (simp add: parent_node_ok)
  moreover have "node_ok D A (rest[idx k (m div 2) := new]) k' m'"
    if "k' \<le> D" "m' < 2 ^ k'" "(k', m') \<noteq> (k, m div 2)" "\<not> (k = Suc k' \<and> m' = m div 2 div 2)"
    for k' m'
    using node_ok_upd_other [OF _ p that(1,2) len that(3,4)] assms(1,2) that
    by (auto simp: but_parent_def)
  ultimately show ?thesis
    using len by (auto simp: but_parent_def)
qed

lemma entry_bound_below:
  assumes "but_parent D A rest (Suc k) m" "k < D" "c < 2 ^ Suc k"
  shows "rest ! idx (Suc k) c \<le> full D (Suc k)"
proof -
  have "rest ! idx j c \<le> full D j" if "j \<ge> Suc k" "j \<le> D" "c < 2 ^ j" for j c
    using that
  proof (induction "D - j" arbitrary: j c)
    case 0
    then have "j = D" "node_ok D A rest j c"
      using assms(1) by (auto simp: but_parent_def)
    then show ?case
      by (auto simp: node_ok_def split: if_splits)
  next
    case (Suc n)
    have "rest ! idx (Suc j) (2 * c) \<le> full D (Suc j)" "rest ! idx (Suc j) (2 * c + 1) \<le> full D (Suc j)"
      using Suc by (auto intro!: Suc.hyps(1))
    moreover have "node_ok D A rest j c" "j < D"
      using Suc.prems Suc.hyps(2) assms(1) by (auto simp: but_parent_def)
    ultimately show ?case
      by (auto simp: node_ok_def comb_le split: if_splits)
  qed
  then show ?thesis
    using assms(2,3) by auto
qed

lemma grandparent_idx:
  assumes "0 < k" "q < 2 ^ k"
  shows "idx k q \<noteq> idx (k - 1) (q div 2)" "idx k q \<noteq> idx k (sib q)"
proof -
  obtain k' where k': "k = Suc k'"
    using assms(1) by (cases k) auto
  have "q div 2 < 2 ^ k'" "sib q < 2 ^ k"
    using assms(2) sib_less [of q k'] by (simp_all add: k' div_less_iff_less_mult)
  moreover have "sib q \<noteq> q"
    by (auto simp: sib_def elim: oddE)
  ultimately show "idx k q \<noteq> idx (k - 1) (q div 2)" "idx k q \<noteq> idx k (sib q)"
    using idx_inj [OF assms(2), of "q div 2" k'] idx_inj [OF assms(2), of "sib q" k]
    by (auto simp: k')
qed

lemma grandparent:
  assumes "but_parent D A rest (Suc k) m" "k < D" "0 < k" "m div 2 < 2 ^ k"
    and "(k - 1, m div 2 div 2) \<notin> A"
  shows "rest ! idx (k - 1) (m div 2 div 2) =
    comb D (k - 1) (rest ! idx k (m div 2)) (rest ! idx k (sib (m div 2)))"
proof -
  obtain k' where k': "k = Suc k'"
    using assms(3) by (cases k) auto
  have "m div 2 div 2 < 2 ^ k'"
    using assms(4) by (simp add: k' div_less_iff_less_mult)
  then have "node_ok D A rest k' (m div 2 div 2)"
    using assms(1,2) by (auto simp: but_parent_def k')
  then show ?thesis
    using assms(2,5) by (subst (asm) parent_node_ok) (simp_all add: k')
qed

lemma get_loop_ok:
  assumes "but_parent D A rest k m" "k \<le> D" "m < 2 ^ k"
    and "\<forall>j \<le> k. 0 < j \<longrightarrow> (k - j, m div 2 ^ j) \<notin> A"
    and "rest ! idx k m < full D k" "rest ! idx k m \<le> v"
    and "0 < k \<Longrightarrow> rest ! idx (k - 1) (m div 2) = comb D (k - 1) v (rest ! idx k (sib m))"
    and "v \<le> full D k"
  shows "\<exists>rest'. get_loop rest (idx k m) = Some rest' \<and> buddy D A rest'"
  using assms
proof (induction k arbitrary: rest m v)
  case 0
  then have "m = 0"
    by simp
  then show ?case
    using "0.prems"(1) by (subst get_loop.simps) (simp add: but_parent_root)
next
  case (Suc k)
  let ?p = "idx k (m div 2)" and ?ri = "rest ! idx (Suc k) m" and ?rs = "rest ! idx (Suc k) (sib m)"
  have k: "k < D" and p: "m div 2 < 2 ^ k" and len: "length rest = 2 ^ Suc D"
    using Suc.prems(1-3) by (auto simp: but_parent_def div_less_iff_less_mult)
  have in_range: "idx (Suc k) m < length rest" "idx (Suc k) (sib m) < length rest" "?p < length rest"
    using idx_less [OF Suc.prems(2,3)] idx_less [OF Suc.prems(2) sib_less [OF Suc.prems(3)]]
      idx_less [OF _ p, of D] k len by auto
  have pA: "(k, m div 2) \<notin> A"
    using Suc.prems(4) [rule_format, of 1] by simp
  have rs: "?rs \<le> full D (Suc k)"
    using entry_bound_below [OF Suc.prems(1) k sib_less [OF Suc.prems(3)]] .
  have rp: "rest ! ?p = comb D k v ?rs"
    using Suc.prems(7) by simp
  have ms: "max ?ri ?rs = comb D k ?ri ?rs"
    using Suc.prems(5) by (simp add: comb_not_full)
  have ge: "max ?ri ?rs \<le> rest ! ?p"
    unfolding rp using comb_ge [OF k Suc.prems(8) rs] Suc.prems(6) by linarith
  have loop: "get_loop rest (idx (Suc k) m) =
      (if rest ! ?p = max ?ri ?rs then Some rest else get_loop (rest[?p := max ?ri ?rs]) ?p)"
    using in_range ge idx_pos [of k m] by (subst get_loop.simps) (simp add: parent_sib)
  show ?case
  proof (cases "rest ! ?p = max ?ri ?rs")
    case True
    then have "node_ok D A rest k (m div 2)"
      using ms by (simp add: parent_node_ok [OF pA k])
    then show ?thesis
      using True but_parent_fixed [OF Suc.prems(1)] by (simp add: loop)
  next
    case False
    let ?rest = "rest[?p := max ?ri ?rs]"
    have bp: "but_parent D A ?rest k (m div 2)"
      using but_parent_step [OF Suc.prems(1) k Suc.prems(3) pA] ms by simp
    have anc: "\<forall>j \<le> k. 0 < j \<longrightarrow> (k - j, m div 2 div 2 ^ j) \<notin> A"
    proof (intro allI impI)
      fix j assume "j \<le> k" "0 < j"
      then show "(k - j, m div 2 div 2 ^ j) \<notin> A"
        using Suc.prems(4) [rule_format, of "Suc j"] by (simp add: div_mult2_eq)
    qed
    have here: "?rest ! ?p = max ?ri ?rs"
      using in_range(3) by simp
    have small: "max ?ri ?rs < full D k"
      unfolding full_Suc [OF k] using Suc.prems(5) rs by linarith
    have old: "rest ! ?p \<le> full D k"
      unfolding rp by (rule comb_le [OF k Suc.prems(8) rs])
    have up: "?rest ! idx (k - 1) (m div 2 div 2) = comb D (k - 1) (rest ! ?p) (?rest ! idx k (sib (m div 2)))"
      if k0: "0 < k"
    proof -
      have "rest ! idx (k - 1) (m div 2 div 2) =
          comb D (k - 1) (rest ! ?p) (rest ! idx k (sib (m div 2)))"
        by (rule grandparent [OF Suc.prems(1) k k0 p]) (use anc [rule_format, of 1] k0 in simp)
      then show ?thesis
        using grandparent_idx [OF k0 p] by simp
    qed
    have "\<exists>rest'. get_loop ?rest ?p = Some rest' \<and> buddy D A rest'"
    proof (rule Suc.IH [OF bp _ p anc _ _ up old])
      show "k \<le> D"
        using k by simp
      show "?rest ! ?p < full D k" "?rest ! ?p \<le> rest ! ?p"
        unfolding here by (rule small, rule ge)
    qed
    then show ?thesis
      using False by (simp add: loop)
  qed
qed


lemma comb_mono: "k < D \<Longrightarrow> v \<le> a \<Longrightarrow> a \<le> full D (Suc k) \<Longrightarrow> b \<le> full D (Suc k) \<Longrightarrow> comb D k v b \<le> comb D k a b"
  by (auto simp: comb_def full_Suc)

lemma put_loop_ok:
  assumes "but_parent D A rest k m" "k \<le> D" "m < 2 ^ k"
    and "\<forall>j \<le> k. 0 < j \<longrightarrow> (k - j, m div 2 ^ j) \<notin> A"
    and "v \<le> rest ! idx k m" "rest ! idx k m \<le> full D k"
    and "0 < k \<Longrightarrow> rest ! idx (k - 1) (m div 2) = comb D (k - 1) v (rest ! idx k (sib m))"
  shows "\<exists>rest'. put_loop rest (idx k m) (full D k) = Some rest' \<and> buddy D A rest'"
  using assms
proof (induction k arbitrary: rest m v)
  case 0
  then have "m = 0"
    by simp
  then show ?case
    using "0.prems"(1) by (subst put_loop.simps) (simp add: but_parent_root)
next
  case (Suc k)
  let ?p = "idx k (m div 2)" and ?ri = "rest ! idx (Suc k) m" and ?rs = "rest ! idx (Suc k) (sib m)"
  have k: "k < D" and p: "m div 2 < 2 ^ k" and len: "length rest = 2 ^ Suc D"
    using Suc.prems(1-3) by (auto simp: but_parent_def div_less_iff_less_mult)
  have in_range: "idx (Suc k) m < length rest" "idx (Suc k) (sib m) < length rest" "?p < length rest"
    using idx_less [OF Suc.prems(2,3)] idx_less [OF Suc.prems(2) sib_less [OF Suc.prems(3)]]
      idx_less [OF _ p, of D] k len by auto
  have pA: "(k, m div 2) \<notin> A"
    using Suc.prems(4) [rule_format, of 1] by simp
  have rs: "?rs \<le> full D (Suc k)"
    using entry_bound_below [OF Suc.prems(1) k sib_less [OF Suc.prems(3)]] .
  have rp: "rest ! ?p = comb D k v ?rs"
    using Suc.prems(7) by simp
  let ?ms = "comb D k ?ri ?rs"
  have ms: "(if ?ri = full D (Suc k) \<and> full D (Suc k) = ?rs then 2 * full D (Suc k) else max ?ri ?rs) = ?ms"
    by (auto simp: comb_def full_Suc [OF k])
  have ge: "rest ! ?p \<le> ?ms"
    unfolding rp by (rule comb_mono [OF k Suc.prems(5,6) rs])
  have loop: "put_loop rest (idx (Suc k) m) (full D (Suc k)) =
      (if rest ! ?p = ?ms then Some rest else put_loop (rest[?p := ?ms]) ?p (full D k))"
    using in_range ge idx_pos [of k m]
    by (subst put_loop.simps) (simp add: parent_sib ms full_Suc [OF k, symmetric])
  show ?case
  proof (cases "rest ! ?p = ?ms")
    case True
    then have "node_ok D A rest k (m div 2)"
      by (simp add: parent_node_ok [OF pA k])
    then show ?thesis
      using True but_parent_fixed [OF Suc.prems(1)] by (simp add: loop)
  next
    case False
    let ?rest = "rest[?p := ?ms]"
    have bp: "but_parent D A ?rest k (m div 2)"
      using but_parent_step [OF Suc.prems(1) k Suc.prems(3) pA] by simp
    have anc: "\<forall>j \<le> k. 0 < j \<longrightarrow> (k - j, m div 2 div 2 ^ j) \<notin> A"
    proof (intro allI impI)
      fix j assume "j \<le> k" "0 < j"
      then show "(k - j, m div 2 div 2 ^ j) \<notin> A"
        using Suc.prems(4) [rule_format, of "Suc j"] by (simp add: div_mult2_eq)
    qed
    have here: "?rest ! ?p = ?ms"
      using in_range(3) by simp
    have small: "?ms \<le> full D k"
      by (rule comb_le [OF k Suc.prems(6) rs])
    have up: "?rest ! idx (k - 1) (m div 2 div 2) = comb D (k - 1) (rest ! ?p) (?rest ! idx k (sib (m div 2)))"
      if k0: "0 < k"
    proof -
      have "rest ! idx (k - 1) (m div 2 div 2) =
          comb D (k - 1) (rest ! ?p) (rest ! idx k (sib (m div 2)))"
        by (rule grandparent [OF Suc.prems(1) k k0 p]) (use anc [rule_format, of 1] k0 in simp)
      then show ?thesis
        using grandparent_idx [OF k0 p] by simp
    qed
    have "\<exists>rest'. put_loop ?rest ?p (full D k) = Some rest' \<and> buddy D A rest'"
    proof (rule Suc.IH [OF bp _ p anc _ _ up])
      show "k \<le> D"
        using k by simp
      show "rest ! ?p \<le> ?rest ! ?p" "?rest ! ?p \<le> full D k"
        unfolding here by (rule ge, rule small)
    qed
    then show ?thesis
      using False by (simp add: loop)
  qed
qed


section \<open>Finding a node and its address\<close>

lemma full_antimono: "j \<le> k \<Longrightarrow> full D k \<le> full D j"
  by (simp add: full_def power_increasing diff_le_mono2)

lemma full_strict: "j < k \<Longrightarrow> k \<le> D \<Longrightarrow> full D k < full D j"
  by (simp add: full_def BLOCK_SIZE_def power_strict_increasing)

lemma full_inj: "j \<le> D \<Longrightarrow> k \<le> D \<Longrightarrow> full D j = full D k \<longleftrightarrow> j = k"
  using full_strict [of j k D] full_strict [of k j D] by (cases j k rule: linorder_cases) auto

lemma full_half: "k < D \<Longrightarrow> full D k div 2 = full D (Suc k)"
  by (simp add: full_Suc)

lemma comb_room:
  assumes "full D k \<le> comb D j a b" "j < k" "k \<le> D"
  shows "full D k \<le> a \<or> full D k \<le> b"
  using assms full_antimono [of "Suc j" k D] by (auto simp: comb_def le_max_iff_disj split: if_splits)

lemma node_okD: "buddy D A rest \<Longrightarrow> k \<le> D \<Longrightarrow> m < 2 ^ k \<Longrightarrow> node_ok D A rest k m"
  by (simp add: buddy_def)

lemma pos_loop_ok:
  assumes "buddy D A rest" "j \<le> k" "k \<le> D" "m < 2 ^ j" "full D k \<le> rest ! idx j m"
  shows "\<exists>q < 2 ^ k. pos_loop rest (full D k) (full D j) (idx j m) j = Some (idx k q, k) \<and>
    rest ! idx k q = full D k \<and> (\<forall>i. j \<le> i \<longrightarrow> i \<le> k \<longrightarrow> (i, q div 2 ^ (k - i)) \<notin> A)
    \<and> q div 2 ^ (k - j) = m"
  using assms
proof (induction "k - j" arbitrary: j m)
  case 0
  then have [simp]: "j = k"
    by simp
  have "rest ! idx k m = full D k"
    using node_bound [OF "0.prems"(1,3), of m] "0.prems"(4,5) by simp
  moreover from this have "(k, m) \<notin> A"
    using node_okD [OF "0.prems"(1,3), of m] "0.prems"(4) by (auto simp: node_ok_def)
  ultimately show ?case
    using "0.prems" by (intro exI [of _ m]) (auto simp: pos_loop.simps)
next
  case (Suc n)
  have jk: "j < k" "j < D"
    using Suc.hyps(2) Suc.prems by simp_all
  let ?l = "rest ! idx (Suc j) (2 * m)" and ?r = "rest ! idx (Suc j) (2 * m + 1)"
  have nA: "(j, m) \<notin> A" and eq: "rest ! idx j m = comb D j ?l ?r"
  proof -
    have ok: "node_ok D A rest j m"
      using Suc.prems jk by (simp add: buddy_def)
    show "(j, m) \<notin> A"
      using ok Suc.prems(5) full_pos [of D k] by (auto simp: node_ok_def simp del: full_pos)
    then show "rest ! idx j m = comb D j ?l ?r"
      using ok jk by (simp add: node_ok_def)
  qed
  have room: "full D k \<le> ?l \<or> full D k \<le> ?r"
    using comb_room [of D k j ?l ?r] Suc.prems(3,5) jk eq by simp
  define c where "c = (if ?r < full D k \<or> full D k \<le> ?l \<and> ?l \<le> ?r then 2 * m else 2 * m + 1)"
  have c: "c < 2 ^ Suc j" "full D k \<le> rest ! idx (Suc j) c" "c div 2 = m"
    using room Suc.prems(4) by (auto simp: c_def)
  have next_idx: "(if ?r < full D k \<or> full D k \<le> ?l \<and> ?l \<le> ?r then idx (Suc j) (2 * m)
      else idx (Suc j) (2 * m + 1)) = idx (Suc j) c"
    by (simp add: c_def)
  have len: "length rest = 2 ^ Suc D"
    using Suc.prems(1) by (simp add: buddy_def)
  have "idx (Suc j) (2 * m) < length rest" "idx (Suc j) (2 * m + 1) < length rest"
    unfolding len using jk Suc.prems(4) by (intro idx_less; simp)+
  moreover have "full D j \<noteq> full D k"
    using full_inj [of j D k] jk Suc.prems(3) by simp
  ultimately have step: "pos_loop rest (full D k) (full D j) (idx j m) j =
      pos_loop rest (full D k) (full D (Suc j)) (idx (Suc j) c) (Suc j)"
    using room next_idx by (subst pos_loop.simps, unfold idx_children) (simp add: full_half jk)
  have "\<exists>q < 2 ^ k. pos_loop rest (full D k) (full D (Suc j)) (idx (Suc j) c) (Suc j) = Some (idx k q, k) \<and>
    rest ! idx k q = full D k \<and> (\<forall>i. Suc j \<le> i \<longrightarrow> i \<le> k \<longrightarrow> (i, q div 2 ^ (k - i)) \<notin> A)
    \<and> q div 2 ^ (k - Suc j) = c"
    by (rule Suc.hyps(1)) (use Suc.hyps(2) Suc.prems(1,3) jk c in simp_all)
  then obtain q where q: "q < 2 ^ k" "pos_loop rest (full D k) (full D (Suc j)) (idx (Suc j) c) (Suc j) = Some (idx k q, k)"
    "rest ! idx k q = full D k" "\<forall>i. Suc j \<le> i \<longrightarrow> i \<le> k \<longrightarrow> (i, q div 2 ^ (k - i)) \<notin> A"
    "q div 2 ^ (k - Suc j) = c"
    by blast
  have "q div 2 ^ (k - j) = m"
    using q(5) c(3) jk(1) by (metis Suc_diff_Suc div_mult2_eq power_Suc2)
  moreover from this have "(i, q div 2 ^ (k - i)) \<notin> A" if "j \<le> i" "i \<le> k" for i
    using q(4) nA that by (cases "i = j") auto
  ultimately show ?case
    using q step by auto
qed

lemma loc_loop_ok: "j \<le> k \<Longrightarrow> k \<le> D \<Longrightarrow> loc_loop (full D 0) (full D j) i = Some (i + j)"
proof (induction j arbitrary: i)
  case 0
  then show ?case
    by (simp add: loc_loop.simps)
next
  case (Suc j)
  then have "full D (Suc j) < full D 0" "2 * full D (Suc j) = full D j"
    using full_strict [of 0 "Suc j" D] full_Suc [of j D] by auto
  then show ?case
    using Suc by (subst loc_loop.simps) simp
qed

section \<open>Rounding to a block size\<close>

lemma unat_two_power: "i < 64 \<Longrightarrow> unat (2 ^ i :: 64 word) = 2 ^ i"
  using unsigned_of_nat [of "2 ^ i", where 'a = nat and 'b = 64] by (simp add: take_bit_nat_eq_self)

lemma round_loop_ok:
  assumes "j \<le> 51" "unat pre < 2 ^ (12 + j)"
  shows "\<exists>k. j \<le> k \<and> k \<le> 51 \<and> unat (round_loop pre (2 ^ (12 + j)) t) = 2 ^ (12 + k) \<and>
    (unat t \<le> 2 ^ 63 \<longrightarrow> unat t \<le> 2 ^ (12 + k)) \<and> (j < k \<longrightarrow> 2 ^ (11 + k) < unat t)"
  using assms
proof (induction "51 - j" arbitrary: j pre)
  case 0
  then have j: "j = 51"
    by simp
  have two: "unat (2 ^ 63 :: 64 word) = 2 ^ 63"
    by simp
  have "round_loop pre (2 ^ 63) t = 2 ^ 63"
  proof (cases "(2 ^ 63 :: 64 word) < t")
    case True
    moreover have "pre < 2 ^ 63"
      using 0(3) by (simp add: j word_less_nat_alt)
    moreover have "push_bit 1 (2 ^ 63 :: 64 word) = 0"
      by simp
    ultimately show ?thesis
      by (subst round_loop.simps, subst round_loop.simps) simp
  next
    case False
    moreover have "\<not> 2 ^ 63 < pre"
      using 0(3) by (simp add: j word_less_nat_alt)
    ultimately show ?thesis
      by (subst round_loop.simps) simp
  qed
  then show ?case
    using j two by (intro exI [of _ 51]) simp
next
  case (Suc n)
  have j: "j < 51"
    using Suc.hyps(2) by simp
  have u: "unat (2 ^ (12 + j) :: 64 word) = 2 ^ (12 + j)"
    using j by (intro unat_two_power) simp
  have pre: "pre < 2 ^ (12 + j)"
    using Suc.prems(2) u by (simp add: word_less_nat_alt)
  show ?case
  proof (cases "(2 ^ (12 + j) :: 64 word) < t")
    case True
    have "round_loop pre (2 ^ (12 + j)) t = round_loop (2 ^ (12 + j)) (2 ^ (12 + Suc j)) t"
      using True pre by (subst round_loop.simps) (simp add: push_bit_eq_mult numeral_eq_Suc power_commutes)
    moreover have "\<exists>k. Suc j \<le> k \<and> k \<le> 51 \<and>
        unat (round_loop (2 ^ (12 + j)) (2 ^ (12 + Suc j)) t) = 2 ^ (12 + k) \<and>
        (unat t \<le> 2 ^ 63 \<longrightarrow> unat t \<le> 2 ^ (12 + k)) \<and> (Suc j < k \<longrightarrow> 2 ^ (11 + k) < unat t)"
      by (rule Suc.hyps(1)) (use Suc.hyps(2) j u in simp_all)
    then obtain k where "Suc j \<le> k" "k \<le> 51"
      "unat (round_loop (2 ^ (12 + j)) (2 ^ (12 + Suc j)) t) = 2 ^ (12 + k)"
      "unat t \<le> 2 ^ 63 \<longrightarrow> unat t \<le> 2 ^ (12 + k)" "Suc j < k \<longrightarrow> 2 ^ (11 + k) < unat t"
      by blast
    moreover have "2 ^ (11 + k) < unat t" if "k = Suc j"
      using True u that by (simp add: word_less_nat_alt)
    ultimately show ?thesis
      by (intro exI [of _ k]) (auto simp: le_Suc_eq)
  next
    case False
    then show ?thesis
      using pre u j by (intro exI [of _ j], subst round_loop.simps) (auto simp: word_less_nat_alt not_less)
  qed
qed

lemma round_size_pow:
  assumes "n < 2 ^ 64"
  obtains k where "k \<le> 51" "round_size n = BLOCK_SIZE * 2 ^ k" "n \<le> 2 ^ 63 \<longrightarrow> n \<le> round_size n"
    "0 < k \<longrightarrow> BLOCK_SIZE * 2 ^ (k - 1) < n"
proof -
  have u: "unat (word_of_nat n :: 64 word) = n"
    using assms by (simp add: unsigned_of_nat take_bit_nat_eq_self)
  obtain k where "k \<le> 51" "unat (round_loop 0 (2 ^ (12 + 0)) (word_of_nat n)) = 2 ^ (12 + k)"
    "n \<le> 2 ^ 63 \<longrightarrow> n \<le> 2 ^ (12 + k)" "0 < k \<longrightarrow> 2 ^ (11 + k) < n"
    using round_loop_ok [of 0 0 "word_of_nat n"] unfolding u by auto
  then show ?thesis
    using that [of k] by (cases k) (simp_all add: round_size_def BLOCK_SIZE_def power_add)
qed


section \<open>One operation\<close>

text \<open>
  The buffer of a node, and the state of a pool with the nodes \<open>A\<close> handed out. A pool has at most
  \<open>2 ^ 30\<close> blocks (4 TiB): beyond, the shifts of an int \<open>1\<close> in \<open>positioning\<close> overflow.
\<close>

definition node_buf :: "nat \<Rightarrow> nat \<times> nat \<Rightarrow> nat \<times> nat" where
  "node_buf D n = (snd n * full D (fst n), full D (fst n))"

definition pool_inv :: "nat \<Rightarrow> (nat \<times> nat) set \<Rightarrow> pool \<Rightarrow> bool" where
  "pool_inv D A bp \<longleftrightarrow> D \<le> 30 \<and> bp_size bp = full D 0 \<and> buddy D A (bp_rest bp) \<and>
     (\<forall>n \<in> A. fst n \<le> D \<and> snd n < 2 ^ fst n)"

lemma node_buf_inj:
  assumes "fst a \<le> D" "fst b \<le> D" "node_buf D a = node_buf D b"
  shows "a = b"
proof -
  have "fst a = fst b"
    using assms full_inj [of "fst a" D "fst b"] by (simp add: node_buf_def)
  then show ?thesis
    using assms(3) by (simp add: node_buf_def prod_eq_iff)
qed

text \<open>The start of the two loops: only the parent of the changed node is out of date.\<close>

lemma but_parent_start:
  assumes "buddy D A rest" "k \<le> D" "m < 2 ^ k" "node_ok D B (rest[idx k m := v]) k m"
    and "\<And>k' m'. (k', m') \<noteq> (k, m) \<Longrightarrow> (k', m') \<in> B \<longleftrightarrow> (k', m') \<in> A"
  shows "but_parent D B (rest[idx k m := v]) k m"
proof -
  have len: "length rest = 2 ^ Suc D"
    using assms(1) by (simp add: buddy_def)
  have "node_ok D B (rest[idx k m := v]) k' m'"
    if "k' \<le> D" "m' < 2 ^ k'" "\<not> (k = Suc k' \<and> m' = m div 2)" "(k', m') \<noteq> (k, m)" for k' m'
  proof -
    have "node_ok D A (rest[idx k m := v]) k' m'"
      using node_ok_upd_other [OF assms(2,3) that(1,2) len that(4,3)] node_okD [OF assms(1) that(1,2)]
      by blast
    then show ?thesis
      using assms(5) [OF that(4)] by (simp add: node_ok_def)
  qed
  then show ?thesis
    using len assms(4) by (auto simp: but_parent_def)
qed

lemma parent_entry:
  assumes "buddy D A rest" "k \<le> D" "m < 2 ^ k" "0 < k" "(k - 1, m div 2) \<notin> A"
  shows "rest ! idx (k - 1) (m div 2) = comb D (k - 1) (rest ! idx k m) (rest ! idx k (sib m))"
proof -
  obtain k' where k': "k = Suc k'"
    using assms(4) by (cases k) auto
  have "node_ok D A rest k' (m div 2)"
    using assms(2,3) by (intro node_okD [OF assms(1)]) (simp_all add: k' div_less_iff_less_mult)
  then show ?thesis
    using assms(2,5) by (subst (asm) parent_node_ok) (simp_all add: k')
qed

lemma start_other:
  assumes "0 < k" "m < 2 ^ k"
  shows "rest[idx k m := v] ! idx (k - 1) (m div 2) = rest ! idx (k - 1) (m div 2)"
    "rest[idx k m := v] ! idx k (sib m) = rest ! idx k (sib m)"
  using grandparent_idx [OF assms] by simp_all

lemma take_node:
  assumes "buddy D A rest" "k \<le> D" "m < 2 ^ k" "rest ! idx k m = full D k"
    and "\<forall>i \<le> k. (i, m div 2 ^ (k - i)) \<notin> A"
  shows "\<exists>rest'. get_loop (rest[idx k m := 0]) (idx k m) = Some rest' \<and> buddy D (insert (k, m) A) rest'"
proof (rule get_loop_ok [where v = "full D k"])
  have inr: "idx k m < length rest"
    using idx_less [OF assms(2,3)] assms(1) by (simp add: buddy_def)
  have "k < D \<longrightarrow> rest ! idx (Suc k) (2 * m) = full D (Suc k) \<and> rest ! idx (Suc k) (2 * m + 1) = full D (Suc k)"
    using whole_below [OF assms(1,4) _ assms(3), of 1 0] whole_below [OF assms(1,4) _ assms(3), of 1 1]
    by (simp add: mult.commute)
  moreover have "idx k m \<noteq> idx (Suc k) (2 * m)" "idx k m \<noteq> idx (Suc k) (2 * m + 1)"
    using idx_inj [OF assms(3), of "2 * m" "Suc k"] idx_inj [OF assms(3), of "2 * m + 1" "Suc k"] assms(3)
    by auto
  ultimately have "node_ok D (insert (k, m) A) (rest[idx k m := 0]) k m"
    using inr by (simp add: node_ok_def)
  then show "but_parent D (insert (k, m) A) (rest[idx k m := 0]) k m"
    by (rule but_parent_start [OF assms(1-3)]) auto
  show "\<forall>j \<le> k. 0 < j \<longrightarrow> (k - j, m div 2 ^ j) \<notin> insert (k, m) A"
  proof (intro allI impI)
    fix j assume "j \<le> k" "0 < j"
    then show "(k - j, m div 2 ^ j) \<notin> insert (k, m) A"
      using assms(5) [rule_format, of "k - j"] by auto
  qed
  show "rest[idx k m := 0] ! idx (k - 1) (m div 2) =
      comb D (k - 1) (full D k) (rest[idx k m := 0] ! idx k (sib m))" if "0 < k"
    using parent_entry [OF assms(1-3) that] assms(5) [rule_format, of "k - 1"] assms(4) that
    by (simp add: start_other [OF that assms(3), simplified])
qed (use assms(2,3) idx_less [OF assms(2,3)] assms(1) in \<open>auto simp: buddy_def\<close>)

lemma ancestors_free:
  assumes "buddy D A rest" "(k, m) \<in> A" "k \<le> D" "m < 2 ^ k" "i < k"
  shows "(i, m div 2 ^ (k - i)) \<notin> A"
proof
  assume iA: "(i, m div 2 ^ (k - i)) \<in> A"
  let ?p = "m div 2 ^ (k - i)"
  have p: "?p < 2 ^ i"
    using assms(4,5) by (simp add: div_less_iff_less_mult power_add [symmetric])
  define c where "c = m div 2 ^ (k - Suc i)"
  have cp: "c div 2 = ?p"
    using assms(5) by (simp add: c_def div_mult2_eq [symmetric] power_Suc2 [symmetric] Suc_diff_Suc del: power_Suc)
  have "rest ! idx (Suc i) (2 * ?p) = full D (Suc i)" "rest ! idx (Suc i) (2 * ?p + 1) = full D (Suc i)"
    using node_okD [OF assms(1) _ p] iA assms(3,5) by (auto simp: node_ok_def)
  moreover have "c = 2 * ?p \<or> c = 2 * ?p + 1"
    using cp by linarith
  ultimately have whole: "rest ! idx (Suc i) c = full D (Suc i)"
    by auto
  have "c < 2 ^ Suc i"
    using cp p unfolding power_Suc by linarith
  then have "rest ! idx (Suc i + (k - Suc i)) (c * 2 ^ (k - Suc i) + m mod 2 ^ (k - Suc i)) = full D k"
    using whole_below [OF assms(1) whole, of "k - Suc i"] assms(3,5) by simp
  then have "rest ! idx k m = full D k"
    using assms(5) unfolding c_def div_mult_mod_eq by simp
  moreover have "rest ! idx k m = 0"
    using node_okD [OF assms(1,3,4)] assms(2) by (simp add: node_ok_def)
  ultimately show False
    by simp
qed

lemma return_node:
  assumes "buddy D A rest" "(k, m) \<in> A" "k \<le> D" "m < 2 ^ k"
  shows "\<exists>rest'. put_loop (rest[idx k m := full D k]) (idx k m) (full D k) = Some rest' \<and>
    buddy D (A - {(k, m)}) rest'"
proof (rule put_loop_ok [where v = 0])
  have inr: "idx k m < length rest"
    using idx_less [OF assms(3,4)] assms(1) by (simp add: buddy_def)
  have own: "rest ! idx k m = 0" "k < D \<Longrightarrow> rest ! idx (Suc k) (2 * m) = full D (Suc k)"
    "k < D \<Longrightarrow> rest ! idx (Suc k) (2 * m + 1) = full D (Suc k)"
    using node_okD [OF assms(1,3,4)] assms(2) by (simp_all add: node_ok_def)
  moreover have "idx k m \<noteq> idx (Suc k) (2 * m)" "idx k m \<noteq> idx (Suc k) (2 * m + 1)"
    using idx_inj [OF assms(4), of "2 * m" "Suc k"] idx_inj [OF assms(4), of "2 * m + 1" "Suc k"] assms(4)
    by auto
  ultimately have "node_ok D (A - {(k, m)}) (rest[idx k m := full D k]) k m"
    using inr assms(3) by (auto simp: node_ok_def comb_def)
  then show "but_parent D (A - {(k, m)}) (rest[idx k m := full D k]) k m"
    by (rule but_parent_start [OF assms(1,3,4)]) auto
  have anc: "(k - j, m div 2 ^ j) \<notin> A" if "j \<le> k" "0 < j" for j
    using ancestors_free [OF assms, of "k - j"] that by simp
  then show "\<forall>j \<le> k. 0 < j \<longrightarrow> (k - j, m div 2 ^ j) \<notin> A - {(k, m)}"
    by auto
  show "rest[idx k m := full D k] ! idx (k - 1) (m div 2) =
      comb D (k - 1) 0 (rest[idx k m := full D k] ! idx k (sib m))" if "0 < k"
    using parent_entry [OF assms(1,3,4) that] anc [of 1] own(1) that
    by (simp add: start_other [OF that assms(4), simplified])
qed (use assms(3,4) idx_less [OF assms(3,4)] assms(1) in \<open>auto simp: buddy_def\<close>)


section \<open>The interface of an allocator\<close>

text \<open>
  A client sees \<open>get\<close>, \<open>put\<close> and the regions it holds. \<open>alloc_run\<close> is a client that takes
  buffers and returns any of those it holds, in any order.
\<close>

datatype alloc_op = Take nat | Return nat

fun disjoint_ranges :: "nat \<times> nat \<Rightarrow> nat \<times> nat \<Rightarrow> bool" where
  "disjoint_ranges (a, n) (b, m) = (a + n \<le> b \<or> b + m \<le> a)"

fun alloc_run ::
  "('s \<Rightarrow> nat \<Rightarrow> (buffer \<times> 's) option) \<Rightarrow> ('s \<Rightarrow> buffer \<Rightarrow> 's option) \<Rightarrow> alloc_op list \<Rightarrow>
   's \<Rightarrow> (nat \<times> nat) list \<Rightarrow> ('s \<times> (nat \<times> nat) list) option" where
  "alloc_run get put [] s live = Some (s, live)"
| "alloc_run get put (Take n # ops) s live = do {
     (b, s') \<leftarrow> get s n;
     alloc_run get put ops s' (case b of None \<Rightarrow> live | Some r \<Rightarrow> live @ [r])
   }"
| "alloc_run get put (Return i # ops) s live =
     (if i < length live then do {
        s' \<leftarrow> put s (Some (live ! i));
        alloc_run get put ops s' (remove1 (live ! i) live)
      } else alloc_run get put ops s live)"

locale allocator =
  fixes get :: "'s \<Rightarrow> nat \<Rightarrow> (buffer \<times> 's) option"
    and put :: "'s \<Rightarrow> buffer \<Rightarrow> 's option"
    and inv :: "'s \<Rightarrow> (nat \<times> nat) set \<Rightarrow> bool"
    and request :: "nat \<Rightarrow> bool"
  assumes get_law: "inv s L \<Longrightarrow> request n \<Longrightarrow> \<exists>b s'. get s n = Some (b, s') \<and>
      (case b of None \<Rightarrow> s' = s | Some r \<Rightarrow> r \<notin> L \<and> inv s' (insert r L))"
    and put_law: "inv s L \<Longrightarrow> r \<in> L \<Longrightarrow> \<exists>s'. put s (Some r) = Some s' \<and> inv s' (L - {r})"
    and apart: "inv s L \<Longrightarrow> pairwise disjoint_ranges L"
begin

lemma run_law:
  "inv s (set live) \<Longrightarrow> distinct live \<Longrightarrow> \<forall>n. Take n \<in> set ops \<longrightarrow> request n \<Longrightarrow>
    \<exists>s' live'. alloc_run get put ops s live = Some (s', live') \<and> inv s' (set live') \<and> distinct live'"
proof (induction ops arbitrary: s live)
  case (Cons op ops)
  show ?case
  proof (cases op)
    case (Take n)
    obtain b s' where get: "get s n = Some (b, s')"
      "case b of None \<Rightarrow> s' = s | Some r \<Rightarrow> r \<notin> set live \<and> inv s' (insert r (set live))"
      using get_law [OF Cons.prems(1), of n] Cons.prems(3) Take by auto
    then show ?thesis
      using Cons.IH [of s' "case b of None \<Rightarrow> live | Some r \<Rightarrow> live @ [r]"] Cons.prems Take
      by (cases b) auto
  next
    case (Return i)
    show ?thesis
    proof (cases "i < length live")
      case True
      obtain s' where put: "put s (Some (live ! i)) = Some s'" "inv s' (set live - {live ! i})"
        using put_law [OF Cons.prems(1) nth_mem [OF True]] by auto
      then show ?thesis
        using Cons.IH [of s' "remove1 (live ! i) live"] Cons.prems True Return
        by (simp add: set_remove1_eq)
    next
      case False
      then show ?thesis
        using Cons.IH [of s live] Cons.prems Return by simp
    qed
  qed
qed simp

end

text \<open>An allocator that merges what is returned: its state is determined by what is out.\<close>

locale coalescing_allocator = allocator get put inv request
  for get :: "'s \<Rightarrow> nat \<Rightarrow> (buffer \<times> 's) option" and put :: "'s \<Rightarrow> buffer \<Rightarrow> 's option"
    and inv :: "'s \<Rightarrow> (nat \<times> nat) set \<Rightarrow> bool" and request :: "nat \<Rightarrow> bool" +
  fixes free :: "'s \<Rightarrow> 'v"
  assumes coalesce: "inv s L \<Longrightarrow> inv s' L \<Longrightarrow> free s = free s'"
begin

lemma run_returns_all:
  assumes "inv s {}" "\<forall>n. Take n \<in> set ops \<longrightarrow> request n" "alloc_run get put ops s [] = Some (s', [])"
  shows "free s' = free s"
  using run_law [of s "[]" ops] assms coalesce [of s' "{}" s] by auto

end

section \<open>The pool is one\<close>

definition pool_live :: "nat \<Rightarrow> pool \<Rightarrow> (nat \<times> nat) set \<Rightarrow> bool" where
  "pool_live D bp L \<longleftrightarrow> (\<exists>A. pool_inv D A bp \<and> L = node_buf D ` A)"

lemma pool_invD:
  assumes "pool_inv D A bp"
  shows "D \<le> 30" "bp_size bp = full D 0" "buddy D A (bp_rest bp)" "0 < length (bp_rest bp)"
    "length (bp_rest bp) = 2 ^ Suc D"
  using assms by (auto simp: pool_inv_def buddy_def)

lemma put_back_twice:
  assumes "buffer_put_back bp b = Some (b', bp')"
  shows "buffer_put_back bp' b' = Some (b', bp')"
  using assms by (auto simp: buffer_put_back_def pool_put_def split: bind_splits)

text \<open>A request is refused at the root or served by a node all of whose ancestors are at home.\<close>

lemma pool_get_ok:
  assumes inv: "pool_inv D A bp" and n: "n < 2 ^ 64"
  shows "(\<exists>k m. k \<le> D \<and> m < 2 ^ k \<and> round_size n = full D k \<and> (k, m) \<notin> A \<and>
      (\<exists>bp'. pool_get bp n = Some (Some (node_buf D (k, m)), bp') \<and> pool_inv D (insert (k, m) A) bp'))
    \<or> pool_get bp n = Some (None, bp) \<and> bp_rest bp ! 0 < round_size n"
proof (cases "bp_rest bp ! 0 < round_size n")
  case True
  then show ?thesis
    using pool_invD(4) [OF inv] by (simp add: pool_get_def)
next
  case False
  note b = pool_invD [OF inv]
  obtain j where j: "round_size n = BLOCK_SIZE * 2 ^ j"
    using round_size_pow [OF n] by metis
  have "BLOCK_SIZE * 2 ^ j \<le> full D 0"
    using False node_bound [OF b(3), of 0 0] j by simp
  then have jD: "j \<le> D"
    by (simp add: full_def BLOCK_SIZE_def)
  define k where "k = D - j"
  have k: "k \<le> D" "round_size n = full D k"
    using jD j by (simp_all add: k_def full_def)
  obtain m where m: "m < 2 ^ k" "pos_loop (bp_rest bp) (full D k) (full D 0) 0 0 = Some (idx k m, k)"
    "bp_rest bp ! idx k m = full D k" "\<forall>i. 0 \<le> i \<longrightarrow> i \<le> k \<longrightarrow> (i, m div 2 ^ (k - i)) \<notin> A"
    using pos_loop_ok [OF b(3) _ k(1), of 0 0] False k by auto
  have inr: "idx k m < length (bp_rest bp)"
    using idx_less [OF k(1) m(1)] b(5) by simp
  have pos: "positioning bp (full D k) = Some (idx k m, m * full D k)"
    using m(2) b(1,2) k(1) by (simp add: positioning_def pow_minus_one_def idx_def)
  obtain rest' where rest': "get_loop ((bp_rest bp)[idx k m := 0]) (idx k m) = Some rest'"
    "buddy D (insert (k, m) A) rest'"
    using take_node [OF b(3) k(1) m(1,3)] m(4) by auto
  have "pool_get bp n = Some (Some (node_buf D (k, m)), bp\<lparr>bp_rest := rest'\<rparr>)"
    using False b(4) k(2) pos inr m(3) rest'(1) by (simp add: pool_get_def node_buf_def Let_def)
  moreover have "pool_inv D (insert (k, m) A) (bp\<lparr>bp_rest := rest'\<rparr>)"
    using inv rest'(2) k(1) m(1) by (simp add: pool_inv_def)
  moreover have "(k, m) \<notin> A"
    using m(4) [rule_format, of k] by simp
  ultimately show ?thesis
    using k m(1) by blast
qed

lemma pool_put_ok:
  assumes inv: "pool_inv D A bp" and A: "(k, m) \<in> A"
  shows "\<exists>bp'. pool_put bp (Some (node_buf D (k, m))) = Some bp' \<and> pool_inv D (A - {(k, m)}) bp'"
proof -
  note b = pool_invD [OF inv]
  have k: "k \<le> D" "m < 2 ^ k"
    using inv A by (auto simp: pool_inv_def)
  have loc: "location bp (m * full D k) (full D k) = Some (idx k m)"
    using loc_loop_ok [OF order_refl k(1), of 0] b(1,2) k(1)
    by (simp add: location_def pow_minus_one_def idx_def)
  obtain rest' where rest': "put_loop ((bp_rest bp)[idx k m := full D k]) (idx k m) (full D k) = Some rest'"
    "buddy D (A - {(k, m)}) rest'"
    using return_node [OF b(3) A k] by auto
  have "idx k m < length (bp_rest bp)" "bp_rest bp ! idx k m = 0"
    using idx_less [OF k] b(5) node_okD [OF b(3) k] A by (auto simp: node_ok_def)
  then have "pool_put bp (Some (node_buf D (k, m))) = Some (bp\<lparr>bp_rest := rest'\<rparr>)"
    using loc rest'(1) by (simp add: pool_put_def node_buf_def)
  then show ?thesis
    using inv rest'(2) by (simp add: pool_inv_def)
qed


lemma full_ratio: "k \<le> k' \<Longrightarrow> k' \<le> D \<Longrightarrow> full D k = 2 ^ (k' - k) * full D k'"
  by (simp add: full_def mult.left_commute power_add [symmetric])

lemma node_ranges_apart:
  assumes "k \<le> k'" "k' \<le> D" "m' div 2 ^ (k' - k) \<noteq> m"
  shows "disjoint_ranges (node_buf D (k, m)) (node_buf D (k', m'))"
proof -
  let ?f = "full D k'" and ?d = "2 ^ (k' - k) :: nat"
  have f: "full D k = ?d * ?f"
    by (rule full_ratio [OF assms(1,2)])
  show ?thesis
  proof (cases "m' div ?d < m")
    case True
    then have "Suc m' \<le> m * ?d"
      by (simp add: div_less_iff_less_mult Suc_le_eq)
    then have "Suc m' * ?f \<le> m * ?d * ?f"
      by (rule mult_right_mono) simp
    then show ?thesis
      by (simp add: node_buf_def f algebra_simps)
  next
    case False
    then have "Suc m \<le> m' div ?d"
      using assms(3) by simp
    then have "Suc m * ?d \<le> m'"
      by (subst (asm) less_eq_div_iff_mult_less_eq) simp_all
    then have "Suc m * ?d * ?f \<le> m' * ?f"
      by (rule mult_right_mono) simp
    then show ?thesis
      by (simp add: node_buf_def f algebra_simps)
  qed
qed

lemma disjoint_ranges_sym: "disjoint_ranges r r' \<longleftrightarrow> disjoint_ranges r' r"
  by (cases r; cases r') auto

lemma pool_apart:
  assumes "pool_inv D A bp"
  shows "pairwise disjoint_ranges (node_buf D ` A)"
proof (rule pairwiseI)
  have apart: "disjoint_ranges (node_buf D (k, m)) (node_buf D (k', m'))"
    if "(k, m) \<in> A" "(k', m') \<in> A" "(k, m) \<noteq> (k', m')" "k \<le> k'" for k m k' m'
  proof -
    have "k' \<le> D" "m' < 2 ^ k'"
      using assms that(2) by (auto simp: pool_inv_def)
    then have "m' div 2 ^ (k' - k) \<noteq> m"
      using ancestors_free [OF pool_invD(3) [OF assms] that(2), of k] that by (cases "k = k'") auto
    then show ?thesis
      using that(4) \<open>k' \<le> D\<close> by (intro node_ranges_apart)
  qed
  fix r r' assume "r \<in> node_buf D ` A" "r' \<in> node_buf D ` A" "r \<noteq> r'"
  then obtain k m k' m' where "r = node_buf D (k, m)" "r' = node_buf D (k', m')"
    "(k, m) \<in> A" "(k', m') \<in> A" "(k, m) \<noteq> (k', m')"
    by auto
  then show "disjoint_ranges r r'"
    using apart [of k m k' m'] apart [of k' m' k m] disjoint_ranges_sym [of r r'] by (cases "k \<le> k'") auto
qed

lemma idx_surj: "i + 1 < 2 ^ Suc D \<Longrightarrow> \<exists>k \<le> D. \<exists>m < 2 ^ k. i = idx k m"
proof (induction D)
  case 0
  then show ?case
    by (intro exI [of _ 0]) simp
next
  case (Suc D)
  show ?case
  proof (cases "i + 1 < 2 ^ Suc D")
    case True
    then show ?thesis
      using Suc.IH by (meson le_SucI)
  next
    case False
    then have "i = idx (Suc D) (i + 1 - 2 ^ Suc D)" "i + 1 - 2 ^ Suc D < 2 ^ Suc D"
      using Suc.prems by (simp_all add: idx_def)
    then show ?thesis
      by blast
  qed
qed

lemma buddy_unique:
  assumes "buddy D A rest" "buddy D A rest'"
  shows "butlast rest = butlast rest'"
proof -
  have same: "rest ! idx k m = rest' ! idx k m" if "k \<le> D" "m < 2 ^ k" for k m
    using that
  proof (induction "D - k" arbitrary: k m)
    case 0
    then show ?case
      using node_okD [OF assms(1), of k m] node_okD [OF assms(2), of k m]
      by (cases "(k, m) \<in> A") (simp_all add: node_ok_def)
  next
    case (Suc n)
    have "rest ! idx (Suc k) (2 * m) = rest' ! idx (Suc k) (2 * m)"
      "rest ! idx (Suc k) (2 * m + 1) = rest' ! idx (Suc k) (2 * m + 1)"
      by (rule Suc.hyps(1); use Suc.prems Suc.hyps(2) in simp)+
    then show ?case
      using node_okD [OF assms(1) Suc.prems] node_okD [OF assms(2) Suc.prems] Suc.hyps(2)
      by (cases "(k, m) \<in> A") (simp_all add: node_ok_def)
  qed
  have "rest ! i = rest' ! i" if "i + 1 < 2 ^ Suc D" for i
    using idx_surj [OF that] same by blast
  then show ?thesis
    using assms unfolding buddy_def by (intro nth_equalityI) (simp_all add: nth_butlast)
qed

lemma pool_inv_node: "pool_inv D A bp \<Longrightarrow> n \<in> A \<Longrightarrow> fst n \<le> D \<and> snd n < 2 ^ fst n"
  unfolding pool_inv_def by blast

lemma node_buf_inj_on: "\<forall>n \<in> A. fst n \<le> D \<Longrightarrow> inj_on (node_buf D) A"
  by (rule inj_onI) (blast intro: node_buf_inj)

lemma node_buf_image_inj:
  assumes "pool_inv D A bp" "pool_inv D A' bp'" "node_buf D ` A = node_buf D ` A'"
  shows "A = A'"
proof -
  have "inj_on (node_buf D) (A \<union> A')"
    using pool_inv_node [OF assms(1)] pool_inv_node [OF assms(2)] by (intro node_buf_inj_on) blast
  then show ?thesis
    using assms(3) by (metis Un_upper1 Un_upper2 inj_on_image_eq_iff)
qed

interpretation pool: coalescing_allocator pool_get pool_put "pool_live D" "\<lambda>n. n < 2 ^ 64"
  "\<lambda>bp. (butlast (bp_rest bp), bp_size bp)"
  for D
proof
  fix s s' L r and n :: nat
  show "\<exists>b s'. pool_get s n = Some (b, s') \<and>
      (case b of None \<Rightarrow> s' = s | Some r \<Rightarrow> r \<notin> L \<and> pool_live D s' (insert r L))"
    if live: "pool_live D s L" and n: "n < 2 ^ 64"
  proof -
    obtain A where A: "pool_inv D A s" "L = node_buf D ` A"
      using live by (auto simp: pool_live_def)
    have new: "node_buf D (k, m) \<notin> L" if "(k, m) \<notin> A" "k \<le> D" for k m
    proof
      assume "node_buf D (k, m) \<in> L"
      then obtain n where n: "n \<in> A" "node_buf D (k, m) = node_buf D n"
        unfolding A(2) by blast
      then have "(k, m) = n"
        using that(2) pool_inv_node [OF A(1) n(1)] by (intro node_buf_inj [OF _ _ n(2)]) simp_all
      then show False
        using n(1) that(1) by simp
    qed
    from pool_get_ok [OF A(1) n] show ?thesis
    proof
      assume "\<exists>k m. k \<le> D \<and> m < 2 ^ k \<and> round_size n = full D k \<and> (k, m) \<notin> A \<and>
        (\<exists>bp'. pool_get s n = Some (Some (node_buf D (k, m)), bp') \<and> pool_inv D (insert (k, m) A) bp')"
      then obtain k m bp' where k: "k \<le> D" "(k, m) \<notin> A"
        "pool_get s n = Some (Some (node_buf D (k, m)), bp')" "pool_inv D (insert (k, m) A) bp'"
        by blast
      then have "pool_live D bp' (insert (node_buf D (k, m)) L)"
        unfolding pool_live_def A(2) by (intro exI [of _ "insert (k, m) A"]) simp
      then show ?thesis
        using k new by simp
    next
      assume "pool_get s n = Some (None, s) \<and> bp_rest s ! 0 < round_size n"
      then show ?thesis
        by simp
    qed
  qed
  show "\<exists>s'. pool_put s (Some r) = Some s' \<and> pool_live D s' (L - {r})"
    if live: "pool_live D s L" and r: "r \<in> L"
  proof -
    obtain A k m where A: "pool_inv D A s" "L = node_buf D ` A" "r = node_buf D (k, m)" "(k, m) \<in> A"
      using live r by (auto simp: pool_live_def)
    obtain s' where s': "pool_put s (Some r) = Some s'" "pool_inv D (A - {(k, m)}) s'"
      using pool_put_ok [OF A(1,4)] A(3) by auto
    have "inj_on (node_buf D) A"
      using pool_inv_node [OF A(1)] by (intro node_buf_inj_on) blast
    then have "L - {r} = node_buf D ` (A - {(k, m)})"
      using A(2-4) by (simp add: inj_on_image_set_diff [of _ A])
    then show ?thesis
      using s' by (auto simp: pool_live_def)
  qed
  show "pairwise disjoint_ranges L" if "pool_live D s L"
    using that pool_apart by (auto simp: pool_live_def)
  show "(butlast (bp_rest s), bp_size s) = (butlast (bp_rest s'), bp_size s')"
    if live: "pool_live D s L" "pool_live D s' L"
  proof -
    obtain A A' where A: "pool_inv D A s" "pool_inv D A' s'" "node_buf D ` A = node_buf D ` A'"
      using live by (auto simp: pool_live_def)
    then have "A = A'"
      using node_buf_image_inj by blast
    then show ?thesis
      using A buddy_unique [of D A "bp_rest s" "bp_rest s'"] by (auto simp: pool_inv_def)
  qed
qed


section \<open>The constructor\<close>

lemma fill_level_ok:
  "i + n \<le> length rest \<Longrightarrow> fill_level rest i n s = Some (take i rest @ replicate n s @ drop (i + n) rest)"
proof (induction n arbitrary: rest i)
  case (Suc n)
  then have "fill_level rest i (Suc n) s = fill_level (rest[i := s]) (i + 1) n s"
    by (simp add: vset_def)
  also have "\<dots> = Some (take (i + 1) (rest[i := s]) @ replicate n s @ drop (i + 1 + n) (rest[i := s]))"
    using Suc.prems by (intro Suc.IH) simp
  also have "take (i + 1) (rest[i := s]) = take i rest @ [s]"
    using Suc.prems by (simp add: take_Suc_conv_app_nth)
  finally show ?case
    using Suc.prems by (simp add: drop_update_cancel)
qed simp

lemma splice_nth:
  assumes "p + n \<le> length rest"
  shows "m < n \<Longrightarrow> (take p rest @ replicate n s @ drop (p + n) rest) ! (p + m) = s"
    "i < p \<Longrightarrow> (take p rest @ replicate n s @ drop (p + n) rest) ! i = rest ! i"
  using assms by (simp_all add: nth_append)

lemma fill_levels_ok:
  assumes "k \<le> D" "length rest = 2 ^ Suc D"
  shows "\<exists>rest'. fill_levels rest (full D k) (2 ^ k) (2 ^ k - 1) = Some rest' \<and> length rest' = 2 ^ Suc D \<and>
    (\<forall>i < 2 ^ k - 1. rest' ! i = rest ! i) \<and> (\<forall>j m. k \<le> j \<longrightarrow> j \<le> D \<longrightarrow> m < 2 ^ j \<longrightarrow> rest' ! idx j m = full D j)"
  using assms
proof (induction "D - k" arbitrary: k rest)
  case 0
  then have [simp]: "k = D"
    by simp
  let ?rest = "take (2 ^ D - 1) rest @ replicate (2 ^ D) (full D D) @ drop (2 ^ D - 1 + 2 ^ D) rest"
  have "(2 :: nat) ^ D - 1 + 2 ^ D \<le> length rest"
    using "0.prems"(2) by simp
  then have "fill_levels rest (full D k) (2 ^ k) (2 ^ k - 1) = fill_levels ?rest (full D D div 2) (2 * 2 ^ D) (2 ^ D - 1 + 2 ^ D)"
    by (subst fill_levels.simps) (simp add: fill_level_ok full_def)
  also have "\<dots> = Some ?rest"
    by (subst fill_levels.simps) (simp add: full_def BLOCK_SIZE_def)
  finally have step: "fill_levels rest (full D k) (2 ^ k) (2 ^ k - 1) = Some ?rest" .
  have "?rest ! idx j m = full D j" if "k \<le> j" "j \<le> D" "m < 2 ^ j" for j m
    using splice_nth(1) [of "2 ^ D - 1" "2 ^ D" rest m] that "0.prems"(2) by (simp add: idx_def)
  moreover have "?rest ! i = rest ! i" if "i < 2 ^ D - 1" for i
    using that "0.prems"(2) by (intro splice_nth) simp_all
  ultimately show ?case
    using step "0.prems"(2) by (intro exI [of _ ?rest]) simp
next
  case (Suc n)
  let ?rest = "take (2 ^ k - 1) rest @ replicate (2 ^ k) (full D k) @ drop (2 ^ k - 1 + 2 ^ k) rest"
  have kD: "k < D"
    using Suc.hyps(2) by simp
  have ge: "(2 :: nat) ^ Suc k \<le> 2 ^ D"
    using kD by (intro power_increasing) simp_all
  have fits: "(2 :: nat) ^ k - 1 + 2 ^ k \<le> length rest"
    unfolding Suc.prems(2) using ge by simp
  have "BLOCK_SIZE \<le> full D k"
    by (simp add: full_def)
  then have step: "fill_levels rest (full D k) (2 ^ k) (2 ^ k - 1) = fill_levels ?rest (full D (Suc k)) (2 ^ Suc k) (2 ^ Suc k - 1)"
    using fits by (subst fill_levels.simps) (simp add: fill_level_ok full_half [OF kD] mult_2)
  have "\<exists>rest'. fill_levels ?rest (full D (Suc k)) (2 ^ Suc k) (2 ^ Suc k - 1) = Some rest' \<and> length rest' = 2 ^ Suc D \<and>
    (\<forall>i < 2 ^ Suc k - 1. rest' ! i = ?rest ! i) \<and>
    (\<forall>j m. Suc k \<le> j \<longrightarrow> j \<le> D \<longrightarrow> m < 2 ^ j \<longrightarrow> rest' ! idx j m = full D j)"
    using fits Suc.hyps(2) Suc.prems by (intro Suc.hyps(1)) simp_all
  then obtain rest' where rest': "fill_levels ?rest (full D (Suc k)) (2 ^ Suc k) (2 ^ Suc k - 1) = Some rest'"
    "length rest' = 2 ^ Suc D" "\<forall>i < 2 ^ Suc k - 1. rest' ! i = ?rest ! i"
    "\<forall>j m. Suc k \<le> j \<longrightarrow> j \<le> D \<longrightarrow> m < 2 ^ j \<longrightarrow> rest' ! idx j m = full D j"
    by blast
  have here: "rest' ! idx k m = full D k" if "m < 2 ^ k" for m
  proof -
    have "rest' ! idx k m = ?rest ! idx k m"
      using that by (intro rest'(3) [rule_format]) (simp add: idx_def)
    then show ?thesis
      unfolding idx_def using splice_nth(1) [OF fits that] by simp
  qed
  have "rest' ! idx j m = full D j" if "k \<le> j" "j \<le> D" "m < 2 ^ j" for j m
    using here rest'(4) that by (cases "j = k") auto
  moreover have "rest' ! i = rest ! i" if "i < 2 ^ k - 1" for i
    using rest'(3) [rule_format, of i] that splice_nth(2) [OF fits that] by simp
  ultimately show ?case
    using step rest'(1,2) by (intro exI [of _ rest']) simp
qed

lemma pool_new_ok:
  assumes "D \<le> 30" "round_size n = full D 0"
  shows "\<exists>bp. pool_new True n = Some bp \<and> pool_inv D {} bp \<and> bp_alloc bp = n"
proof -
  have len: "full D 0 div BLOCK_SIZE * 2 = 2 ^ Suc D"
    by (simp add: full_def BLOCK_SIZE_def)
  obtain rest where rest: "fill_levels (replicate (2 ^ Suc D) 0) (full D 0) 1 0 = Some rest"
    "length rest = 2 ^ Suc D" "\<forall>j m. j \<le> D \<longrightarrow> m < 2 ^ j \<longrightarrow> rest ! idx j m = full D j"
    using fill_levels_ok [of 0 D "replicate (2 ^ Suc D) 0"] by auto
  have "node_ok D {} rest k m" if "k \<le> D" "m < 2 ^ k" for k m
    using rest(3) that by (auto simp: node_ok_def comb_def)
  then show ?thesis
    using assms rest(1,2) unfolding pool_new_def Let_def assms(2) len by (simp add: pool_inv_def buddy_def)
qed

text \<open>A request up to 4 TiB makes a pool of at most \<open>2 ^ 30\<close> blocks.\<close>

lemma round_size_full:
  assumes "n \<le> 2 ^ 42"
  obtains D where "D \<le> 30" "round_size n = full D 0"
proof -
  have n: "n < 2 ^ 64"
    using assms by simp
  obtain k where k: "round_size n = BLOCK_SIZE * 2 ^ k" "0 < k \<longrightarrow> BLOCK_SIZE * 2 ^ (k - 1) < n"
    using round_size_pow [OF n] by blast
  have "k \<le> 30"
  proof (rule ccontr)
    assume "\<not> k \<le> 30"
    then have "(2 :: nat) ^ 30 \<le> 2 ^ (k - 1)"
      by (intro power_increasing) simp_all
    then have "2 ^ 42 \<le> BLOCK_SIZE * 2 ^ (k - 1)"
      by (simp add: BLOCK_SIZE_def)
    then show False
      using k(2) assms \<open>\<not> k \<le> 30\<close> by simp
  qed
  then show ?thesis
    using that [of k] k(1) by (simp add: full_def)
qed

lemma pool_new_live:
  assumes "n \<le> 2 ^ 42"
  obtains D bp where "pool_new True n = Some bp" "pool_live D bp {}" "bp_size bp = round_size n"
proof -
  obtain D where D: "D \<le> 30" "round_size n = full D 0"
    using round_size_full [OF assms] .
  then obtain bp where "pool_new True n = Some bp" "pool_inv D {} bp"
    using pool_new_ok by blast
  then show ?thesis
    using that [of bp D] D by (auto simp: pool_live_def pool_inv_def)
qed

section \<open>No request is refused needlessly\<close>

lemma untouched_whole:
  assumes "buddy D A rest" "k \<le> D" "m < 2 ^ k"
    and "\<And>j q. k + j \<le> D \<Longrightarrow> q < 2 ^ j \<Longrightarrow> (k + j, m * 2 ^ j + q) \<notin> A"
  shows "rest ! idx k m = full D k"
  using assms(2-4)
proof (induction "D - k" arbitrary: k m)
  case 0
  then show ?case
    using node_okD [OF assms(1) "0.prems"(1,2)] "0.prems"(3) [of 0 0] by (simp add: node_ok_def)
next
  case (Suc n)
  have kD: "k < D"
    using Suc.hyps(2) by simp
  have "rest ! idx (Suc k) (2 * m + c) = full D (Suc k)" if "c < 2" for c
  proof (rule Suc.hyps(1))
    fix j q assume "Suc k + j \<le> D" "q < (2 :: nat) ^ j"
    then have "c * 2 ^ j + q < 2 ^ Suc j"
      using that by (cases c) auto
    then have "(k + Suc j, m * 2 ^ Suc j + (c * 2 ^ j + q)) \<notin> A"
      using \<open>Suc k + j \<le> D\<close> by (intro Suc.prems(3)) simp_all
    then show "(Suc k + j, (2 * m + c) * 2 ^ j + q) \<notin> A"
      by (simp add: algebra_simps)
  qed (use Suc.hyps(2) Suc.prems that in simp_all)
  from this [of 0] this [of 1] show ?case
    using node_okD [OF assms(1) Suc.prems(1,2)] Suc.prems(3) [of 0 0] kD by (simp add: node_ok_def comb_def)
qed

lemma room_above:
  assumes "buddy D A rest" "k \<le> D" "m < 2 ^ k" "i \<le> k"
    and "\<And>j. j \<le> k \<Longrightarrow> (k - j, m div 2 ^ j) \<notin> A"
  shows "rest ! idx k m \<le> rest ! idx (k - i) (m div 2 ^ i)"
  using assms(4)
proof (induction i)
  case (Suc i)
  let ?k = "k - i" and ?m = "m div 2 ^ i"
  have m: "?m < 2 ^ ?k"
    using Suc.prems assms(3) by (simp add: div_less_iff_less_mult power_add [symmetric])
  have p: "k - Suc i = ?k - 1" "m div 2 ^ Suc i = ?m div 2" "0 < ?k"
    using Suc.prems unfolding power_Suc2 by (linarith, intro div_mult2_eq, linarith)
  have pA: "(?k - 1, ?m div 2) \<notin> A"
    using assms(5) [OF Suc.prems] unfolding p .
  have "rest ! idx (?k - 1) (?m div 2) = comb D (?k - 1) (rest ! idx ?k ?m) (rest ! idx ?k (sib ?m))"
    using assms(2) by (intro parent_entry [OF assms(1) _ m p(3) pA]) simp
  moreover have sk: "Suc (?k - 1) = ?k"
    using p(3) by linarith
  then have "sib ?m < 2 ^ ?k"
    using sib_less [of ?m "?k - 1", unfolded sk] m by blast
  then have "rest ! idx ?k ?m \<le> full D ?k" "rest ! idx ?k (sib ?m) \<le> full D ?k"
    using node_bound [OF assms(1), of ?k] m assms(2) by simp_all
  then have "max (rest ! idx ?k ?m) (rest ! idx ?k (sib ?m)) \<le> comb D (?k - 1) (rest ! idx ?k ?m) (rest ! idx ?k (sib ?m))"
    using comb_ge [of "?k - 1" D, unfolded sk] p(3) assms(2) by simp
  ultimately show ?case
    using Suc.IH Suc.prems unfolding p by simp
qed simp


section \<open>The allocator's properties\<close>

lemma related_ranges:
  assumes "k \<le> k'" "k' \<le> D" "m' div 2 ^ (k' - k) = m"
  shows "\<not> disjoint_ranges (node_buf D (k, m)) (node_buf D (k', m'))"
proof -
  let ?f = "full D k'" and ?d = "2 ^ (k' - k) :: nat"
  have f: "full D k = ?d * ?f"
    by (rule full_ratio [OF assms(1,2)])
  have "m * ?d \<le> m'" "Suc m' \<le> Suc m * ?d"
    using assms(3) by (auto simp: Suc_le_eq dividend_less_div_times)
  then have "m * ?d * ?f \<le> m' * ?f" "Suc m' * ?f \<le> Suc m * ?d * ?f"
    by (auto intro!: mult_right_mono simp del: mult_Suc)
  then have le: "m * full D k \<le> m' * ?f" "m' * ?f + ?f \<le> m * full D k + full D k"
    by (simp_all add: f algebra_simps)
  have "\<not> m * full D k + full D k \<le> m' * ?f" "\<not> m' * ?f + ?f \<le> m * full D k"
    using le full_pos [of D k'] full_pos [of D k] by linarith+
  then show ?thesis
    by (simp add: node_buf_def)
qed

lemma pool_refuses_ok:
  assumes inv: "pool_inv D A bp" and k: "k \<le> D" "m < 2 ^ k"
    and apart: "\<forall>r \<in> node_buf D ` A. disjoint_ranges r (node_buf D (k, m))"
  shows "full D k \<le> bp_rest bp ! 0"
proof -
  note b = pool_invD [OF inv]
  have anc: "(k - j, m div 2 ^ j) \<notin> A" if "j \<le> k" for j
  proof -
    have "\<not> disjoint_ranges (node_buf D (k - j, m div 2 ^ j)) (node_buf D (k, m))"
      using k(1) that by (intro related_ranges) simp_all
    then show ?thesis
      using apart by blast
  qed
  have "(k + j, m * 2 ^ j + q) \<notin> A" if "k + j \<le> D" "q < 2 ^ j" for j q
  proof -
    have "\<not> disjoint_ranges (node_buf D (k, m)) (node_buf D (k + j, m * 2 ^ j + q))"
      using that by (intro related_ranges) simp_all
    then show ?thesis
      using apart disjoint_ranges_sym by blast
  qed
  then have "bp_rest bp ! idx k m = full D k"
    by (rule untouched_whole [OF b(3) k])
  then show ?thesis
    using room_above [OF b(3) k order_refl anc] k(2) by simp
qed

lemma pool_all_home:
  assumes "pool_inv D A bp"
  shows "bp_rest bp ! 0 = bp_size bp \<longleftrightarrow> A = {}"
proof
  note b = pool_invD [OF assms]
  assume whole: "bp_rest bp ! 0 = bp_size bp"
  show "A = {}"
  proof (rule equals0I)
    fix n assume n: "n \<in> A"
    then have n_node: "fst n \<le> D" "snd n < 2 ^ fst n"
      using pool_inv_node [OF assms] by auto
    then have "bp_rest bp ! idx (fst n) (snd n) = full D (fst n)"
      using whole_below [OF b(3), of 0 0 "fst n" "snd n"] whole b(2) by simp
    then show False
      using node_okD [OF b(3) n_node] n by (simp add: node_ok_def)
  qed
next
  assume "A = {}"
  then show "bp_rest bp ! 0 = bp_size bp"
    using untouched_whole [OF pool_invD(3) [OF assms], of 0 0] pool_invD(2) [OF assms] by simp
qed

text \<open>
  Property C4. Starting from a new pool, no sequence of \<open>get\<close>s and returns of live buffers fails an
  assertion or leaves the array, and the live buffers never overlap; each is aligned to its size and
  lies in the \<open>_size\<close> bytes the pool manages.
\<close>

theorem pool_buffers_apart:
  assumes "total_size \<le> 2 ^ 42" "\<forall>n. Take n \<in> set ops \<longrightarrow> n < 2 ^ 64"
  shows "\<exists>bp bp' live. pool_new True total_size = Some bp \<and>
    alloc_run pool_get pool_put ops bp [] = Some (bp', live) \<and> distinct live \<and>
    pairwise disjoint_ranges (set live) \<and>
    (\<forall>r \<in> set live. snd r dvd fst r \<and> fst r + snd r \<le> round_size total_size)"
proof -
  obtain D bp where bp: "pool_new True total_size = Some bp" "pool_live D bp {}"
    "bp_size bp = round_size total_size"
    using pool_new_live [OF assms(1)] .
  obtain bp' live where run: "alloc_run pool_get pool_put ops bp [] = Some (bp', live)"
    "pool_live D bp' (set live)" "distinct live"
    using pool.run_law [of D bp "[]" ops] bp(2) assms(2) by auto
  obtain A where A: "pool_inv D A bp'" "set live = node_buf D ` A"
    using run(2) by (auto simp: pool_live_def)
  have size_eq: "round_size total_size = full D 0"
    using bp(2,3) by (auto simp: pool_live_def pool_inv_def)
  have "snd r dvd fst r \<and> fst r + snd r \<le> round_size total_size" if r: "r \<in> set live" for r
  proof -
    obtain n where n: "r = node_buf D n" "fst n \<le> D" "snd n < 2 ^ fst n"
      using A(2) r pool_inv_node [OF A(1)] by blast
    have "Suc (snd n) * full D (fst n) \<le> 2 ^ fst n * full D (fst n)"
      using n(3) by (intro mult_right_mono) simp_all
    then show ?thesis
      using n full_ratio [of 0 "fst n" D] by (simp add: node_buf_def size_eq)
  qed
  then show ?thesis
    using bp(1) run pool.apart by blast
qed

text \<open>
  \<open>round_size\<close> yields the least size \<open>BLOCK_SIZE * 2 ^ k\<close> that holds the request, up to
  \<open>2 ^ 63\<close> bytes.
\<close>

theorem round_size_least:
  assumes "0 < n" "n \<le> 2 ^ 63"
  shows "\<exists>k \<le> 51. round_size n = BLOCK_SIZE * 2 ^ k \<and> n \<le> round_size n \<and>
    (\<forall>j. n \<le> BLOCK_SIZE * 2 ^ j \<longrightarrow> round_size n \<le> BLOCK_SIZE * 2 ^ j)"
proof -
  have n: "n < 2 ^ 64"
    using assms(2) by simp
  obtain k where k: "k \<le> 51" "round_size n = BLOCK_SIZE * 2 ^ k" "n \<le> round_size n"
    "0 < k \<longrightarrow> BLOCK_SIZE * 2 ^ (k - 1) < n"
    using round_size_pow [OF n] assms(2) by blast
  have "k \<le> j" if "n \<le> BLOCK_SIZE * 2 ^ j" for j
  proof (rule ccontr)
    assume "\<not> k \<le> j"
    then have "BLOCK_SIZE * 2 ^ j \<le> BLOCK_SIZE * 2 ^ (k - 1)"
      by (intro mult_left_mono power_increasing) simp_all
    moreover have "BLOCK_SIZE * 2 ^ (k - 1) < n"
      using k(4) \<open>\<not> k \<le> j\<close> by auto
    ultimately show False
      using that by linarith
  qed
  then have "\<forall>j. n \<le> BLOCK_SIZE * 2 ^ j \<longrightarrow> BLOCK_SIZE * 2 ^ k \<le> BLOCK_SIZE * 2 ^ j"
    by (simp add: power_increasing)
  then show ?thesis
    using k(1-3) by (intro exI [of _ k]) simp
qed


text \<open>
  Property C24. Returned buffers merge completely: when all are back, the room array is that of the
  new pool, whatever the order of the requests; and the destructor exits the process exactly when a
  buffer is still out.
\<close>

theorem pool_coalesces:
  assumes "total_size \<le> 2 ^ 42" "pool_new True total_size = Some bp0"
    and "\<forall>n. Take n \<in> set ops \<longrightarrow> n < 2 ^ 64"
    and "alloc_run pool_get pool_put ops bp0 [] = Some (bp, live)"
  shows "(live = [] \<longrightarrow> butlast (bp_rest bp) = butlast (bp_rest bp0) \<and> bp_size bp = bp_size bp0) \<and>
    (pool_destroy bp = Some () \<longleftrightarrow> live = [])"
proof -
  obtain D where D: "pool_live D bp0 {}"
    using pool_new_live [OF assms(1)] assms(2) by force
  then have "pool_live D bp (set live)"
    using pool.run_law [of D bp0 "[]" ops] assms(3,4) by auto
  then obtain A where A: "pool_inv D A bp" "set live = node_buf D ` A"
    by (auto simp: pool_live_def)
  have "pool_destroy bp = Some () \<longleftrightarrow> bp_rest bp ! 0 = bp_size bp"
    using pool_invD(4) [OF A(1)] by (simp add: pool_destroy_def max_block_def check_def)
  also have "\<dots> \<longleftrightarrow> live = []"
    using pool_all_home [OF A(1)] A(2) by auto
  finally show ?thesis
    using pool.run_returns_all [OF D assms(3), of bp] assms(4) by auto
qed


section \<open>Concrete pools\<close>

definition pool_two :: "pool" where
  "pool_two = \<lparr>bp_size = 8192, bp_alloc = 8192, bp_rest = [8192, 4096, 4096, 0]\<rparr>"

lemma round_size_eqs: "round_size 4096 = 4096" "round_size 8192 = 8192" "round_size 12288 = 16384"
  "round_size 5000 = 8192" "round_size (Suc 0) = 4096"
  by (simp_all add: round_size_def BLOCK_SIZE_def round_loop.simps word_less_def)

lemma fill_level_step:
  "0 < n \<Longrightarrow> fill_level rest i n s = vset rest i s \<bind> (\<lambda>rest'. fill_level rest' (i + 1) (n - 1) s)"
  by (cases n) simp_all

lemmas pool_eval = round_size_eqs BLOCK_SIZE_def pool_new_def fill_levels.simps [of _ "numeral s" for s] fill_level_step
  pool_get_def pool_put_def positioning_def location_def
  pos_loop.simps [of _ "numeral sz" "numeral s" for sz s] loc_loop.simps [of "numeral w" "numeral s" for w s]
  get_loop.simps [of _ 0] get_loop.simps [of _ "Suc 0"] get_loop.simps [of _ "Suc (Suc 0)"] get_loop.simps [of _ "numeral i" for i]
  put_loop.simps [of _ 0] put_loop.simps [of _ "Suc 0"] put_loop.simps [of _ "Suc (Suc 0)"] put_loop.simps [of _ "numeral i" for i] parent_sibling_def pow_minus_one_def vget_def vset_def check_def Let_def

lemma replicates: "replicate 4 x = [x, x, x, x]" "replicate 8 x = [x, x, x, x, x, x, x, x]"
  by (simp_all add: numeral_eq_Suc)

lemma pool_two_new: "pool_new True 8192 = Some pool_two"
  by (simp add: pool_eval replicates pool_two_def cong: bind_eval_cong)

lemma pool_two_full: "alloc_run pool_get pool_put [Take 1, Take 4096] pool_two [] =
    Some (pool_two\<lparr>bp_rest := [0, 0, 0, 0]\<rparr>, [(0, 4096), (4096, 4096)])"
  by (simp add: pool_eval pool_two_def cong: bind_eval_cong)

lemma pool_two_emptied: "alloc_run pool_get pool_put [Take 1, Take 4096, Return 0, Return 0] pool_two [] =
    Some (pool_two, [])"
  by (simp add: pool_eval pool_two_def cong: bind_eval_cong)

text \<open>
  The constructor allocates \<open>total_size\<close> bytes but manages the rounded size: from a pool
  made for 12288 bytes the fourth block handed out starts at the end of the allocation.
\<close>

theorem pool_overruns_allocation:
  "\<exists>bp bp' r. pool_new True 12288 = Some bp \<and> bp_alloc bp = 12288 \<and>
    alloc_run pool_get pool_put [Take 4096, Take 4096, Take 4096, Take 4096] bp [] = Some (bp', r) \<and>
    (12288, 4096) \<in> set r"
  by (simp add: pool_eval replicates cong: bind_eval_cong)

lemma pool_buffers_apart_witness:
  "\<exists>bp bp' live. pool_new True 8192 = Some bp \<and>
    alloc_run pool_get pool_put [Take 1, Take 5000, Return 0, Take 8192] bp [] = Some (bp', live) \<and>
    distinct live \<and> pairwise disjoint_ranges (set live) \<and>
    (\<forall>r \<in> set live. snd r dvd fst r \<and> fst r + snd r \<le> round_size 8192)"
  by (rule pool_buffers_apart) auto

lemma round_size_least_witness:
  "\<exists>k \<le> 51. round_size 5000 = BLOCK_SIZE * 2 ^ k \<and> 5000 \<le> round_size 5000 \<and>
    (\<forall>j. 5000 \<le> BLOCK_SIZE * 2 ^ j \<longrightarrow> round_size 5000 \<le> BLOCK_SIZE * 2 ^ j)"
  by (rule round_size_least) simp_all


lemma pool_coalesces_witness:
  "\<exists>bp. alloc_run pool_get pool_put [Take 1, Take 4096, Return 0, Return 0] pool_two [] = Some (bp, []) \<and>
    butlast (bp_rest bp) = butlast (bp_rest pool_two) \<and> pool_destroy bp = Some ()"
  using pool_coalesces [OF _ pool_two_new _ pool_two_emptied] pool_two_emptied by auto

end
