(* ===== verification/PtrList.thy ===== *)
theory PtrList
  imports Prelude
begin

text \<open>
  The intrusive doubly linked list of src/Base/Container/List.hpp.

  Nodes live in a heap, a partial map from addresses to nodes; a pointer is \<open>None\<close> (\<open>nullptr\<close>) or
  the address of a node, and to read or write through \<open>nullptr\<close> or a freed node is undefined, the
  value \<open>None\<close> of the operation. The address a \<open>new\<close> returns is an argument, which must be unused.
  An iterator is its pointer. The template parameter \<open>Data\<close> is the type variable \<open>'d\<close>.
\<close>

section \<open>The model\<close>

type_synonym ptr = "nat option"

record 'd node =
  n_data :: 'd
  n_prev :: ptr
  n_next :: ptr

type_synonym 'd heap = "nat \<Rightarrow> 'd node option"

record plist =
  l_head :: ptr
  l_tail :: ptr
  l_size :: nat

definition list_empty :: plist where
  "list_empty = \<lparr>l_head = None, l_tail = None, l_size = 0\<rparr>"

text \<open>Dereference, the two pointer assignments, \<open>new\<close> and \<open>delete\<close>.\<close>

definition deref :: "'d heap \<Rightarrow> ptr \<Rightarrow> 'd node option" where
  "deref h p = (case p of None \<Rightarrow> None | Some a \<Rightarrow> h a)"

definition set_prev :: "'d heap \<Rightarrow> ptr \<Rightarrow> ptr \<Rightarrow> 'd heap option" where
  "set_prev h p q = do {
     n \<leftarrow> deref h p;
     Some (h(the p \<mapsto> n\<lparr>n_prev := q\<rparr>))
   }"

definition set_next :: "'d heap \<Rightarrow> ptr \<Rightarrow> ptr \<Rightarrow> 'd heap option" where
  "set_next h p q = do {
     n \<leftarrow> deref h p;
     Some (h(the p \<mapsto> n\<lparr>n_next := q\<rparr>))
   }"

definition new_node :: "'d heap \<Rightarrow> nat \<Rightarrow> 'd \<Rightarrow> 'd heap option" where
  "new_node h a d = do {
     check (h a = None);
     Some (h(a \<mapsto> \<lparr>n_data = d, n_prev = None, n_next = None\<rparr>))
   }"

definition delete_node :: "'d heap \<Rightarrow> ptr \<Rightarrow> 'd heap option" where
  "delete_node h p = do {
     n \<leftarrow> deref h p;
     Some (h(the p := None))
   }"

text \<open>The iterator's \<open>operator*\<close>, \<open>operator++\<close> and \<open>operator--\<close>.\<close>

definition iter_data :: "'d heap \<Rightarrow> ptr \<Rightarrow> 'd option" where
  "iter_data h p = do { n \<leftarrow> deref h p; Some (n_data n) }"

definition iter_next :: "'d heap \<Rightarrow> ptr \<Rightarrow> ptr option" where
  "iter_next h p = do { n \<leftarrow> deref h p; Some (n_next n) }"

definition iter_prev :: "'d heap \<Rightarrow> ptr \<Rightarrow> ptr option" where
  "iter_prev h p = do { n \<leftarrow> deref h p; Some (n_prev n) }"

text \<open>The assignments that link node \<open>p\<close> before \<open>dest\<close>, the same in both \<open>insert\<close>s and \<open>move_to\<close>.\<close>

definition link_before :: "'d heap \<Rightarrow> plist \<Rightarrow> ptr \<Rightarrow> ptr \<Rightarrow> ('d heap \<times> plist) option" where
  "link_before h l dest p =
     (if dest \<noteq> None then do {
        dp \<leftarrow> iter_prev h dest;
        h \<leftarrow> set_prev h p dp;
        h \<leftarrow> set_next h p dest;
        h \<leftarrow> set_prev h dest p;
        (if dest = l_head l then Some (h, l\<lparr>l_head := p\<rparr>)
         else do {
           pp \<leftarrow> iter_prev h p;
           h \<leftarrow> set_next h pp p;
           Some (h, l)
         })
      } else do {
        h \<leftarrow> set_prev h p (l_tail l);
        (if l_tail l \<noteq> None then do {
           h \<leftarrow> set_next h (l_tail l) p;
           Some (h, l\<lparr>l_tail := p\<rparr>)
         } else Some (h, l\<lparr>l_head := p, l_tail := p\<rparr>))
      })"

text \<open>The assignments that unlink node \<open>p\<close>, the same in \<open>move_to\<close>, \<open>erase\<close> and \<open>release\<close>.\<close>

definition unlink :: "'d heap \<Rightarrow> plist \<Rightarrow> ptr \<Rightarrow> ('d heap \<times> plist) option" where
  "unlink h l p = do {
     nx \<leftarrow> iter_next h p;
     pv \<leftarrow> iter_prev h p;
     (if nx \<noteq> None then do {
        h \<leftarrow> set_prev h nx pv;
        (if pv \<noteq> None then do {
           h \<leftarrow> set_next h pv nx;
           Some (h, l)
         } else Some (h, l\<lparr>l_head := nx\<rparr>))
      } else
        (if pv \<noteq> None then do {
           h \<leftarrow> set_next h pv None;
           Some (h, l\<lparr>l_tail := pv\<rparr>)
         } else Some (h, l\<lparr>l_tail := pv, l_head := None\<rparr>)))
   }"

definition list_insert :: "'d heap \<Rightarrow> plist \<Rightarrow> ptr \<Rightarrow> nat \<Rightarrow> 'd \<Rightarrow> (ptr \<times> 'd heap \<times> plist) option" where
  "list_insert h l dest a d = do {
     h \<leftarrow> new_node h a d;
     (h, l) \<leftarrow> link_before h l dest (Some a);
     Some (Some a, h, l\<lparr>l_size := l_size l + 1\<rparr>)
   }"

text \<open>\<open>insert\<close> of a released node; its \<open>Val\<close> is consumed.\<close>

definition list_insert_val :: "'d heap \<Rightarrow> plist \<Rightarrow> ptr \<Rightarrow> ptr \<Rightarrow> (ptr \<times> 'd heap \<times> plist) option" where
  "list_insert_val h l dest p = do {
     h \<leftarrow> set_prev h p None;
     h \<leftarrow> set_next h p None;
     (h, l) \<leftarrow> link_before h l dest p;
     Some (p, h, l\<lparr>l_size := l_size l + 1\<rparr>)
   }"

definition list_move_to :: "'d heap \<Rightarrow> plist \<Rightarrow> ptr \<Rightarrow> ptr \<Rightarrow> ('d heap \<times> plist) option" where
  "list_move_to h l dest p =
     (if p = None then Some (h, l)
      else do {
        nx \<leftarrow> iter_next h p;
        (if nx = dest then Some (h, l)
         else do {
           (h, l) \<leftarrow> unlink h l p;
           h \<leftarrow> (if dest \<noteq> None then Some h else set_next h p None);
           link_before h l dest p
         })
      })"

definition list_erase :: "'d heap \<Rightarrow> plist \<Rightarrow> ptr \<Rightarrow> ('d heap \<times> plist) option" where
  "list_erase h l p =
     (if p = None then Some (h, l)
      else do {
        (h, l) \<leftarrow> unlink h l p;
        h \<leftarrow> delete_node h p;
        Some (h, l\<lparr>l_size := l_size l - 1\<rparr>)
      })"

definition list_release :: "'d heap \<Rightarrow> plist \<Rightarrow> ptr \<Rightarrow> (ptr \<times> 'd heap \<times> plist) option" where
  "list_release h l p =
     (if p = None then Some (None, h, l)
      else do {
        (h, l) \<leftarrow> unlink h l p;
        Some (p, h, l\<lparr>l_size := l_size l - 1\<rparr>)
      })"

text \<open>The loop of the range \<open>erase\<close>: \<open>None\<close> when it runs off the list or never meets \<open>e\<close>.\<close>

partial_function (option) erase_loop :: "'d heap \<Rightarrow> nat \<Rightarrow> ptr \<Rightarrow> ptr \<Rightarrow> ('d heap \<times> nat) option" where
  "erase_loop h sz b e =
     (if b \<noteq> e then do {
        nx \<leftarrow> iter_next h b;
        h' \<leftarrow> delete_node h b;
        erase_loop h' (sz - 1) nx e
      } else Some (h, sz))"

definition list_erase_range :: "'d heap \<Rightarrow> plist \<Rightarrow> ptr \<Rightarrow> ptr \<Rightarrow> ('d heap \<times> plist) option" where
  "list_erase_range h l b e =
     (if b = None then Some (h, l)
      else do {
        bp \<leftarrow> iter_prev h b;
        (h, l) \<leftarrow> (if bp \<noteq> None then do { h \<leftarrow> set_next h bp e; Some (h, l) }
                   else Some (h, l\<lparr>l_head := e\<rparr>));
        (h, l) \<leftarrow> (if e \<noteq> None then do { h \<leftarrow> set_prev h e bp; Some (h, l) }
                   else Some (h, l\<lparr>l_tail := bp\<rparr>));
        (h, sz) \<leftarrow> erase_loop h (l_size l) b e;
        Some (h, l\<lparr>l_size := sz\<rparr>)
      })"

text \<open>
  The copy constructor, with the addresses its \<open>new\<close>s return in \<open>fresh\<close>; the destructor's loop.
\<close>

partial_function (option) copy_loop ::
  "'d heap \<Rightarrow> plist \<Rightarrow> nat list \<Rightarrow> ptr \<Rightarrow> ptr \<Rightarrow> ('d heap \<times> plist) option" where
  "copy_loop h l fresh it lst =
     (if it \<noteq> None then
        (case fresh of [] \<Rightarrow> None
         | a # fresh' \<Rightarrow> do {
             d \<leftarrow> iter_data h it;
             h \<leftarrow> new_node h a d;
             (h, l) \<leftarrow> (if lst = None then Some (h, l\<lparr>l_head := Some a\<rparr>)
                        else do {
                          h \<leftarrow> set_prev h (Some a) lst;
                          h \<leftarrow> set_next h lst (Some a);
                          Some (h, l)
                        });
             nx \<leftarrow> iter_next h it;
             copy_loop h l fresh' nx (Some a)
           })
      else Some (h, l\<lparr>l_tail := lst\<rparr>))"

definition list_copy :: "'d heap \<Rightarrow> plist \<Rightarrow> nat list \<Rightarrow> ('d heap \<times> plist) option" where
  "list_copy h other fresh =
     copy_loop h (list_empty\<lparr>l_size := l_size other\<rparr>) fresh (l_head other) None"

definition list_move :: "plist \<Rightarrow> plist \<times> plist" where
  "list_move other = (other, list_empty)"

partial_function (option) destroy_loop :: "'d heap \<Rightarrow> ptr \<Rightarrow> 'd heap option" where
  "destroy_loop h p =
     (if p \<noteq> None then do {
        nx \<leftarrow> iter_next h p;
        h' \<leftarrow> delete_node h p;
        destroy_loop h' nx
      } else Some h)"

definition list_destroy :: "'d heap \<Rightarrow> plist \<Rightarrow> 'd heap option" where
  "list_destroy h l = destroy_loop h (l_head l)"

section \<open>The list behind the pointers\<close>

text \<open>
  \<open>chain h pr ps nx\<close>: the nodes \<open>ps\<close> are linked in both directions, \<open>pr\<close> and \<open>nx\<close> being the
  pointers out of the two ends. \<open>list_rep\<close> is the invariant of a list object.
\<close>

definition first :: "nat list \<Rightarrow> ptr \<Rightarrow> ptr" where
  "first ps nx = (case ps of [] \<Rightarrow> nx | p # _ \<Rightarrow> Some p)"

definition final :: "ptr \<Rightarrow> nat list \<Rightarrow> ptr" where
  "final pr ps = (if ps = [] then pr else Some (last ps))"

fun chain :: "'d heap \<Rightarrow> ptr \<Rightarrow> nat list \<Rightarrow> ptr \<Rightarrow> bool" where
  "chain h pr [] nx \<longleftrightarrow> True"
| "chain h pr (p # ps) nx \<longleftrightarrow>
     (case h p of None \<Rightarrow> False
      | Some n \<Rightarrow> n_prev n = pr \<and> n_next n = first ps nx) \<and> chain h (Some p) ps nx"

definition linked :: "'d heap \<Rightarrow> plist \<Rightarrow> nat list \<Rightarrow> bool" where
  "linked h l ps \<longleftrightarrow> distinct ps \<and> chain h None ps None \<and> l_head l = first ps None \<and> l_tail l = final None ps"

definition list_rep :: "'d heap \<Rightarrow> plist \<Rightarrow> nat list \<Rightarrow> bool" where
  "list_rep h l ps \<longleftrightarrow> linked h l ps \<and> l_size l = length ps"

text \<open>Nothing but the links of the nodes in \<open>A\<close> differs between two heaps.\<close>

definition relinks :: "nat set \<Rightarrow> 'd heap \<Rightarrow> 'd heap \<Rightarrow> bool" where
  "relinks A h h' \<longleftrightarrow> (\<forall>a. map_option n_data (h' a) = map_option n_data (h a) \<and> (a \<notin> A \<longrightarrow> h' a = h a))"

lemma first_simps [simp]: "first [] nx = nx" "first (p # ps) nx = Some p"
  "first (ps @ qs) nx = first ps (first qs nx)"
  by (auto simp: first_def split: list.splits)

lemma final_simps [simp]: "final pr [] = pr" "final pr (p # ps) = final (Some p) ps"
  "final pr (ps @ qs) = final (final pr ps) qs"
  by (auto simp: final_def)

lemma chain_append [simp]:
  "chain h pr (ps @ qs) nx \<longleftrightarrow> chain h pr ps (first qs nx) \<and> chain h (final pr ps) qs nx"
  by (induction ps arbitrary: pr) (auto split: option.splits)

lemma chain_upd [simp]: "a \<notin> set ps \<Longrightarrow> chain (h(a := x)) pr ps nx \<longleftrightarrow> chain h pr ps nx"
  by (induction ps arbitrary: pr) (auto split: option.splits)

lemma chain_cong: "(\<And>a. a \<in> set ps \<Longrightarrow> h' a = h a) \<Longrightarrow> chain h' pr ps nx \<longleftrightarrow> chain h pr ps nx"
  by (induction ps arbitrary: pr) simp_all

lemma chain_dom: "chain h pr ps nx \<Longrightarrow> p \<in> set ps \<Longrightarrow> h p \<noteq> None"
  by (induction ps arbitrary: pr) (auto split: option.splits)

lemma relinks_refl [simp]: "relinks A h h"
  by (simp add: relinks_def)

lemma relinks_trans: "relinks A h h' \<Longrightarrow> relinks A h' h'' \<Longrightarrow> relinks A h h''"
  by (simp add: relinks_def)

lemma relinks_upd: "h a = Some n \<Longrightarrow> a \<in> A \<Longrightarrow> n_data n' = n_data n \<Longrightarrow> relinks A h (h(a \<mapsto> n'))"
  by (simp add: relinks_def)

lemma relinks_upd2:
  "relinks A h h' \<Longrightarrow> h' a = Some n \<Longrightarrow> a \<in> A \<Longrightarrow> n_data n' = n_data n \<Longrightarrow> relinks A h (h'(a \<mapsto> n'))"
  unfolding relinks_def by (metis (no_types, lifting) fun_upd_apply option.simps(9))

lemmas heap_defs = deref_def set_prev_def set_next_def iter_prev_def iter_next_def iter_data_def

lemma unlink_ok:
  assumes "linked h l (as @ p # bs)"
  obtains h' l' where "unlink h l (Some p) = Some (h', l')" "linked h' l' (as @ bs)"
    "l_size l' = l_size l" "relinks (set as \<union> set bs) h h'"
proof -
  obtain n where n: "h p = Some n" "n_prev n = final None as" "n_next n = first bs None"
    using assms by (auto simp: linked_def split: option.splits)
  show thesis
  proof (cases bs)
    case Nil
    show thesis
    proof (cases as rule: rev_cases)
      case Nil
      then have u: "unlink h l (Some p) = Some (h, l\<lparr>l_tail := None, l_head := None\<rparr>)"
        using n \<open>bs = []\<close> by (simp add: unlink_def heap_defs)
      from u show thesis
        by (rule that) (use Nil \<open>bs = []\<close> in \<open>simp_all add: linked_def\<close>)
    next
      case (snoc as' a)
      obtain m where m: "h a = Some m" "n_prev m = final None as'"
        using assms snoc by (auto simp: linked_def split: option.splits)
      have u: "unlink h l (Some p) = Some (h(a \<mapsto> m\<lparr>n_next := None\<rparr>), l\<lparr>l_tail := Some a\<rparr>)"
        using n m snoc Nil by (simp add: unlink_def heap_defs)
      from u show thesis
      by (rule that) (use assms n m snoc Nil in \<open>auto simp: linked_def intro!: relinks_upd\<close>)
    qed
  next
    case (Cons b bs')
    obtain k where k: "h b = Some k" "n_next k = first bs' None"
      using assms Cons by (auto simp: linked_def split: option.splits)
    show thesis
    proof (cases as rule: rev_cases)
      case Nil
      have u: "unlink h l (Some p) = Some (h(b \<mapsto> k\<lparr>n_prev := None\<rparr>), l\<lparr>l_head := Some b\<rparr>)"
        using n k Cons Nil by (simp add: unlink_def heap_defs)
      from u show thesis
      by (rule that) (use assms n k Cons Nil in \<open>auto simp: linked_def intro!: relinks_upd\<close>)
    next
      case (snoc as' a)
      obtain m where m: "h a = Some m" "n_prev m = final None as'"
        using assms snoc by (auto simp: linked_def split: option.splits)
      have ab: "a \<noteq> b"
        using assms snoc Cons by (auto simp: linked_def)
      have u: "unlink h l (Some p) =
          Some (h(b \<mapsto> k\<lparr>n_prev := Some a\<rparr>, a \<mapsto> m\<lparr>n_next := Some b\<rparr>), l)"
        using n m k snoc Cons ab by (simp add: unlink_def heap_defs)
      from u show thesis
      by (rule that) (use assms n m k snoc Cons ab in \<open>auto simp: linked_def intro!: relinks_upd relinks_upd2\<close>)
    qed
  qed
qed

lemma link_before_ok:
  assumes "linked h l (as @ bs)" "p \<notin> set (as @ bs)" "h p = Some n" "bs = [] \<Longrightarrow> n_next n = None"
  obtains h' l' where "link_before h l (first bs None) (Some p) = Some (h', l')" "linked h' l' (as @ p # bs)"
    "l_size l' = l_size l" "relinks (insert p (set as \<union> set bs)) h h'"
proof (cases bs)
  case Nil
  show thesis
  proof (cases as rule: rev_cases)
    case Nil
    have u: "link_before h l (first bs None) (Some p) =
        Some (h(p \<mapsto> n\<lparr>n_prev := None\<rparr>), l\<lparr>l_head := Some p, l_tail := Some p\<rparr>)"
      using assms Nil \<open>bs = []\<close> by (simp add: link_before_def heap_defs linked_def)
    from u show thesis
      by (rule that) (use assms Nil \<open>bs = []\<close> in \<open>auto simp: linked_def intro!: relinks_upd\<close>)
  next
    case (snoc as' a)
    obtain m where m: "h a = Some m" "n_prev m = final None as'"
      using assms(1) snoc by (auto simp: linked_def split: option.splits)
    have ap: "a \<noteq> p"
      using assms(2) snoc by auto
    have u: "link_before h l (first bs None) (Some p) =
        Some (h(p \<mapsto> n\<lparr>n_prev := Some a\<rparr>, a \<mapsto> m\<lparr>n_next := Some p\<rparr>), l\<lparr>l_tail := Some p\<rparr>)"
      using assms m ap snoc Nil by (simp add: link_before_def heap_defs linked_def)
    from u show thesis
      by (rule that) (use assms m ap snoc Nil in \<open>auto simp: linked_def intro!: relinks_upd relinks_upd2\<close>)
  qed
next
  case (Cons b bs')
  obtain k where k: "h b = Some k" "n_next k = first bs' None" "n_prev k = final None as"
    using assms(1) Cons by (auto simp: linked_def split: option.splits)
  have bp: "b \<noteq> p"
    using assms(2) Cons by auto
  show thesis
  proof (cases as rule: rev_cases)
    case Nil
    have u: "link_before h l (first bs None) (Some p) =
        Some (h(p \<mapsto> n\<lparr>n_prev := None, n_next := Some b\<rparr>, b \<mapsto> k\<lparr>n_prev := Some p\<rparr>), l\<lparr>l_head := Some p\<rparr>)"
      using assms k bp Cons Nil by (simp add: link_before_def heap_defs linked_def)
    from u show thesis
      by (rule that) (use assms k bp Cons Nil in \<open>auto simp: linked_def intro!: relinks_upd relinks_upd2\<close>)
  next
    case (snoc as' a)
    obtain m where m: "h a = Some m" "n_prev m = final None as'"
      using assms(1) snoc by (auto simp: linked_def split: option.splits)
    have ab: "a \<noteq> b" "a \<noteq> p" "l_head l \<noteq> Some b"
      using assms(1,2) snoc Cons by (cases as'; auto simp: linked_def)+
    have u: "link_before h l (first bs None) (Some p) =
        Some (h(p \<mapsto> n\<lparr>n_prev := Some a, n_next := Some b\<rparr>, b \<mapsto> k\<lparr>n_prev := Some p\<rparr>, a \<mapsto> m\<lparr>n_next := Some p\<rparr>), l)"
      using assms m k bp ab snoc Cons by (auto simp: link_before_def heap_defs)
    from u show thesis
      by (rule that) (use assms m k bp ab snoc Cons in \<open>auto simp: linked_def fun_upd_twist intro!: relinks_upd relinks_upd2\<close>)
  qed
qed

section \<open>The operations on a list of handles\<close>

text \<open>
  \<open>list_at h l qs\<close>: the object \<open>l\<close> holds the nodes and data \<open>qs\<close>. \<open>outside A h h'\<close>: an operation
  leaves the heap alone outside \<open>A\<close>, so that other lists and released nodes survive.
\<close>

definition data_ok :: "'d heap \<Rightarrow> (nat \<times> 'd) list \<Rightarrow> bool" where
  "data_ok h qs \<longleftrightarrow> (\<forall>q \<in> set qs. map_option n_data (h (fst q)) = Some (snd q))"

definition list_at :: "'d heap \<Rightarrow> plist \<Rightarrow> (nat \<times> 'd) list \<Rightarrow> bool" where
  "list_at h l qs \<longleftrightarrow> list_rep h l (map fst qs) \<and> data_ok h qs"

definition outside :: "nat set \<Rightarrow> 'd heap \<Rightarrow> 'd heap \<Rightarrow> bool" where
  "outside A h h' \<longleftrightarrow> (\<forall>a. a \<notin> A \<longrightarrow> h' a = h a)"

definition handles :: "(nat \<times> 'd) list \<Rightarrow> nat set" where
  "handles qs = fst ` set qs"

definition at_handle :: "(nat \<times> 'd) list \<Rightarrow> ptr" where
  "at_handle qs = first (map fst qs) None"

lemma handles_simps [simp]: "handles [] = {}" "handles (q # qs) = insert (fst q) (handles qs)"
  "handles (qs @ qs') = handles qs \<union> handles qs'" "fst ` set qs = handles qs"
  by (auto simp: handles_def)

lemma data_ok_simps [simp]: "data_ok h []"
  "data_ok h (q # qs) \<longleftrightarrow> map_option n_data (h (fst q)) = Some (snd q) \<and> data_ok h qs"
  "data_ok h (qs @ qs') \<longleftrightarrow> data_ok h qs \<and> data_ok h qs'"
  by (auto simp: data_ok_def)

lemma data_ok_cong: "(\<And>a. a \<in> handles qs \<Longrightarrow> map_option n_data (h' a) = map_option n_data (h a)) \<Longrightarrow>
    data_ok h' qs \<longleftrightarrow> data_ok h qs"
  by (induction qs) simp_all

lemma data_ok_upd: "a \<notin> handles qs \<Longrightarrow> data_ok (h(a := x)) qs \<longleftrightarrow> data_ok h qs"
  by (intro data_ok_cong) auto

lemma at_handle_simps [simp]: "at_handle [] = None" "at_handle (q # qs) = Some (fst q)"
  by (simp_all add: at_handle_def)

lemma list_atD:
  assumes "list_at h l qs"
  shows "linked h l (map fst qs)" "l_size l = length qs" "distinct (map fst qs)"
    "l_head l = at_handle qs" "l_tail l = final None (map fst qs)"
  using assms by (auto simp: list_at_def list_rep_def linked_def at_handle_def)

lemma data_ok_relinks: "relinks A h h' \<Longrightarrow> data_ok h' qs \<longleftrightarrow> data_ok h qs"
  by (intro data_ok_cong) (simp add: relinks_def)

lemma list_atI:
  assumes "linked h' l' (map fst qs)" "l_size l' = length qs" "relinks A h h'" "data_ok h qs"
  shows "list_at h' l' qs"
  using assms by (simp add: list_at_def list_rep_def data_ok_relinks)

lemma list_at_data: "list_at h l qs \<Longrightarrow> data_ok h qs"
  by (simp add: list_at_def)

lemma list_at_frame:
  assumes "list_at h l qs" "outside A h h'" "A \<inter> handles qs = {}"
  shows "list_at h' l qs"
proof -
  have same: "h' a = h a" if "a \<in> handles qs" for a
    using assms(2,3) that by (auto simp: outside_def)
  then have "chain h' None (map fst qs) None = chain h None (map fst qs) None"
    by (intro chain_cong) simp
  moreover have "data_ok h' qs = data_ok h qs"
    by (intro data_ok_cong) (simp add: same)
  ultimately show ?thesis
    using assms(1) by (simp add: list_at_def list_rep_def linked_def)
qed

lemma relinks_outside: "relinks A h h' \<Longrightarrow> outside A h h'"
  by (simp add: relinks_def outside_def)

lemma relinks_mono: "relinks A h h' \<Longrightarrow> A \<subseteq> B \<Longrightarrow> relinks B h h'"
  by (auto simp: relinks_def)

lemma outside_trans: "outside A h h' \<Longrightarrow> outside B h' h'' \<Longrightarrow> outside (A \<union> B) h h''"
  by (simp add: outside_def)

lemma outside_upd: "outside {a} h (h(a := x))"
  by (simp add: outside_def)

lemma linked_upd: "p \<notin> set ps \<Longrightarrow> linked (h(p := x)) l ps \<longleftrightarrow> linked h l ps"
  by (simp add: linked_def)

lemma linked_size [simp]: "linked h (l\<lparr>l_size := n\<rparr>) ps \<longleftrightarrow> linked h l ps"
  by (simp add: linked_def)

lemma insert_at:
  assumes "list_at h l (xs @ ys)" "h a = None"
  obtains h' l' where "list_insert h l (at_handle ys) a d = Some (Some a, h', l')"
    "list_at h' l' (xs @ (a, d) # ys)" "outside (insert a (handles (xs @ ys))) h h'"
proof -
  let ?h = "h(a \<mapsto> \<lparr>n_data = d, n_prev = None, n_next = None\<rparr>)"
  have fresh: "a \<notin> handles (xs @ ys)"
    using chain_dom [of h None "map fst (xs @ ys)" None a] list_atD(1) [OF assms(1)] assms(2)
    by (auto simp: linked_def)
  then have fr: "a \<notin> set (map fst xs @ map fst ys)"
    by simp
  then have lk: "linked ?h l (map fst xs @ map fst ys)"
    using list_atD(1) [OF assms(1)] linked_upd [OF fr] unfolding map_append by blast
  obtain h' l' where hl: "link_before ?h l (first (map fst ys) None) (Some a) = Some (h', l')"
    "linked h' l' (map fst xs @ a # map fst ys)" "l_size l' = l_size l"
    "relinks (insert a (set (map fst xs) \<union> set (map fst ys))) ?h h'"
    by (rule link_before_ok [OF lk fr fun_upd_same]) simp
  show thesis
  proof (rule that)
    show "list_insert h l (at_handle ys) a d = Some (Some a, h', l'\<lparr>l_size := l_size l + 1\<rparr>)"
      using hl(1,3) assms(2) by (simp add: list_insert_def new_node_def check_def at_handle_def)
    show "list_at h' (l'\<lparr>l_size := l_size l + 1\<rparr>) (xs @ (a, d) # ys)"
      by (rule list_atI [OF _ _ hl(4)])
        (use hl(2,3) list_atD(2) [OF assms(1)] list_at_data [OF assms(1)] fresh in \<open>simp_all add: data_ok_upd\<close>)
    show "outside (insert a (handles (xs @ ys))) h h'"
      using outside_trans [OF outside_upd relinks_outside [OF hl(4)]] by simp
  qed
qed

lemma unlink_at:
  assumes "list_at h l (xs @ (p, d) # ys)"
  obtains h' l' where "unlink h l (Some p) = Some (h', l')" "linked h' l' (map fst (xs @ ys))"
    "l_size l' = Suc (length (xs @ ys))" "relinks (handles (xs @ ys)) h h'" "p \<notin> handles (xs @ ys)"
    "\<exists>n. h p = Some n \<and> n_data n = d \<and> n_next n = at_handle ys"
proof -
  have "linked h l (map fst xs @ p # map fst ys)"
    using list_atD(1) [OF assms] by simp
  then obtain h' l' where "unlink h l (Some p) = Some (h', l')" "linked h' l' (map fst xs @ map fst ys)"
    "l_size l' = l_size l" "relinks (set (map fst xs) \<union> set (map fst ys)) h h'"
    by (rule unlink_ok)
  moreover have "p \<notin> handles (xs @ ys)"
    using list_atD(3) [OF assms] by simp
  moreover have "\<exists>n. h p = Some n \<and> n_data n = d \<and> n_next n = at_handle ys"
    using list_atD(1) [OF assms] list_at_data [OF assms] by (auto simp: linked_def at_handle_def split: option.splits)
  ultimately show thesis
    using that list_atD(2) [OF assms] by simp
qed

lemma erase_at:
  assumes "list_at h l (xs @ (p, d) # ys)"
  obtains h' l' where "list_erase h l (Some p) = Some (h', l')" "list_at h' l' (xs @ ys)"
    "outside (insert p (handles (xs @ ys))) h h'" "h' p = None"
proof -
  obtain h' l' where u: "unlink h l (Some p) = Some (h', l')" "linked h' l' (map fst (xs @ ys))"
    "l_size l' = Suc (length (xs @ ys))" "relinks (handles (xs @ ys)) h h'" "p \<notin> handles (xs @ ys)"
    "\<exists>n. h p = Some n \<and> n_data n = d \<and> n_next n = at_handle ys"
    using unlink_at [OF assms] .
  have p: "h' p \<noteq> None"
    using u(4-6) by (auto simp: relinks_def)
  have la: "list_at h' (l'\<lparr>l_size := l_size l' - 1\<rparr>) (xs @ ys)"
    by (rule list_atI [OF _ _ u(4)]) (use u(2,3) list_at_data [OF assms] in auto)
  show thesis
  proof (rule that)
    show "list_erase h l (Some p) = Some (h'(p := None), l'\<lparr>l_size := l_size l' - 1\<rparr>)"
      using u(1) p by (auto simp: list_erase_def delete_node_def deref_def)
    show "list_at (h'(p := None)) (l'\<lparr>l_size := l_size l' - 1\<rparr>) (xs @ ys)"
      using list_at_frame [OF la outside_upd [of p]] u(5) by simp
    show "outside (insert p (handles (xs @ ys))) h (h'(p := None))"
      using outside_trans [OF relinks_outside [OF u(4)] outside_upd [of p]] by simp
  qed simp
qed

lemma release_at:
  assumes "list_at h l (xs @ (p, d) # ys)"
  obtains h' l' where "list_release h l (Some p) = Some (Some p, h', l')" "list_at h' l' (xs @ ys)"
    "outside (handles (xs @ ys)) h h'" "map_option n_data (h' p) = Some d" "p \<notin> handles (xs @ ys)"
proof -
  obtain h' l' where u: "unlink h l (Some p) = Some (h', l')" "linked h' l' (map fst (xs @ ys))"
    "l_size l' = Suc (length (xs @ ys))" "relinks (handles (xs @ ys)) h h'" "p \<notin> handles (xs @ ys)"
    "\<exists>n. h p = Some n \<and> n_data n = d \<and> n_next n = at_handle ys"
    using unlink_at [OF assms] .
  show thesis
  proof (rule that)
    show "list_release h l (Some p) = Some (Some p, h', l'\<lparr>l_size := l_size l' - 1\<rparr>)"
      using u(1) by (simp add: list_release_def)
    show "list_at h' (l'\<lparr>l_size := l_size l' - 1\<rparr>) (xs @ ys)"
      by (rule list_atI [OF _ _ u(4)]) (use u(2,3) list_at_data [OF assms] in auto)
    show "map_option n_data (h' p) = Some d"
      using u(4,6) by (auto simp: relinks_def)
  qed (use u(4,5) relinks_outside in auto)
qed

lemma insert_val_at:
  assumes "list_at h l (xs @ ys)" "map_option n_data (h p) = Some d" "p \<notin> handles (xs @ ys)"
  obtains h' l' where "list_insert_val h l (at_handle ys) (Some p) = Some (Some p, h', l')"
    "list_at h' l' (xs @ (p, d) # ys)" "outside (insert p (handles (xs @ ys))) h h'"
proof -
  obtain n where n: "h p = Some n" "n_data n = d"
    using assms(2) by auto
  let ?n = "n\<lparr>n_prev := None, n_next := None\<rparr>"
  have fr: "p \<notin> set (map fst xs @ map fst ys)"
    using assms(3) by simp
  then have lk: "linked (h(p \<mapsto> ?n)) l (map fst xs @ map fst ys)"
    using list_atD(1) [OF assms(1)] linked_upd [OF fr] unfolding map_append by blast
  obtain h' l' where hl: "link_before (h(p \<mapsto> ?n)) l (first (map fst ys) None) (Some p) = Some (h', l')"
    "linked h' l' (map fst xs @ p # map fst ys)" "l_size l' = l_size l"
    "relinks (insert p (set (map fst xs) \<union> set (map fst ys))) (h(p \<mapsto> ?n)) h'"
    by (rule link_before_ok [OF lk fr fun_upd_same]) simp
  show thesis
  proof (rule that)
    show "list_insert_val h l (at_handle ys) (Some p) = Some (Some p, h', l'\<lparr>l_size := l_size l + 1\<rparr>)"
      using hl(1,3) n by (simp add: list_insert_val_def heap_defs at_handle_def)
    show "list_at h' (l'\<lparr>l_size := l_size l + 1\<rparr>) (xs @ (p, d) # ys)"
      by (rule list_atI [OF _ _ hl(4)])
        (use hl(2,3) list_atD(2) [OF assms(1)] list_at_data [OF assms(1)] assms(3) n in \<open>simp_all add: data_ok_upd\<close>)
    show "outside (insert p (handles (xs @ ys))) h h'"
      using outside_trans [OF outside_upd relinks_outside [OF hl(4)]] by simp
  qed
qed

lemma same_split:
  assumes "us @ vs = xs @ ys" "distinct (map fst (us @ vs))" "at_handle ys = at_handle vs"
  shows "us = xs \<and> vs = ys"
proof (cases vs)
  case Nil
  then have "ys = []"
    using assms(3) by (cases ys) auto
  then show ?thesis
    using assms(1) Nil by simp
next
  case (Cons v vs')
  then obtain y ys' where ys: "ys = y # ys'" "fst y = fst v"
    using assms(3) by (cases ys) auto
  have nx: "fst v \<notin> set (map fst us)" "fst v \<notin> set (map fst vs')"
    using assms(2) Cons by auto
  have "map fst us @ fst v # map fst vs' = map fst xs @ fst v # map fst ys'"
    using arg_cong [OF assms(1), of "map fst"] Cons ys by simp
  then have "map fst us = map fst xs"
    using append_Cons_eq_iff [OF nx] by blast
  then have "length us = length xs"
    using map_eq_imp_length_eq by blast
  then show ?thesis
    using assms(1) by simp
qed

text \<open>\<open>move_to\<close> with a destination \<open>at_handle vs\<close> other than the node itself.\<close>

lemma move_at:
  assumes "list_at h l (xs @ (p, d) # ys)" "xs @ ys = us @ vs"
  obtains h' l' where "list_move_to h l (at_handle vs) (Some p) = Some (h', l')"
    "list_at h' l' (us @ (p, d) # vs)" "outside (handles (xs @ (p, d) # ys)) h h'"
proof (cases "at_handle ys = at_handle vs")
  case True
  have "distinct (map fst (us @ vs))"
    using list_atD(3) [OF assms(1)] unfolding assms(2) [symmetric] by simp
  then have "us = xs" "vs = ys"
    using True assms(2) same_split [of us vs xs ys] by auto
  moreover obtain n where "h p = Some n" "n_next n = at_handle ys"
    using unlink_at [OF assms(1)] by metis
  ultimately show thesis
    using that [of h l] assms(1) by (simp add: list_move_to_def heap_defs outside_def)
next
  case False
  obtain h1 l1 where u: "unlink h l (Some p) = Some (h1, l1)" "linked h1 l1 (map fst (xs @ ys))"
    "l_size l1 = Suc (length (xs @ ys))" "relinks (handles (xs @ ys)) h h1" "p \<notin> handles (xs @ ys)"
    "\<exists>n. h p = Some n \<and> n_data n = d \<and> n_next n = at_handle ys"
    using unlink_at [OF assms(1)] .
  obtain n where n: "h p = Some n" "n_data n = d" "n_next n = at_handle ys"
    using u(6) by auto
  have h1p: "h1 p = Some n"
    using u(4,5) n(1) by (auto simp: relinks_def)
  define n' where "n' = (if at_handle vs = None then n\<lparr>n_next := None\<rparr> else n)"
  define h2 where "h2 = h1(p \<mapsto> n')"
  have fr: "p \<notin> set (map fst us @ map fst vs)"
    using u(5) unfolding assms(2) by simp
  have lk: "linked h2 l1 (map fst us @ map fst vs)"
    using u(2) linked_upd [OF fr] unfolding h2_def assms(2) map_append by blast
  have h2p: "h2 p = Some n'" "map fst vs = [] \<Longrightarrow> n_next n' = None"
    by (simp_all add: h2_def n'_def)
  obtain h' l' where hl: "link_before h2 l1 (first (map fst vs) None) (Some p) = Some (h', l')"
    "linked h' l' (map fst us @ p # map fst vs)" "l_size l' = l_size l1"
    "relinks (insert p (set (map fst us) \<union> set (map fst vs))) h2 h'"
    by (rule link_before_ok [OF lk fr h2p])
  have h12: "relinks (insert p (handles (xs @ ys))) h1 h2"
    using h1p by (auto simp: h2_def n'_def relinks_def)
  have re: "relinks (handles (xs @ (p, d) # ys)) h h'"
  proof -
    have A: "handles (us @ vs) = handles (xs @ ys)"
      by (simp only: assms(2))
    have "relinks (insert p (handles (xs @ ys))) h h1" "relinks (insert p (handles (xs @ ys))) h2 h'"
      using u(4) hl(4) A by (auto intro: relinks_mono)
    then show ?thesis
      using h12 relinks_trans by (metis Un_insert_right fst_conv handles_simps(2,3))
  qed
  show thesis
  proof (rule that)
    show "list_move_to h l (at_handle vs) (Some p) = Some (h', l')"
    proof (cases "at_handle vs = None")
      case True
      then show ?thesis
        using False u(1) n h1p hl(1)
        by (auto simp: list_move_to_def heap_defs at_handle_def h2_def n'_def)
    next
      case nonnull: False
      then have "h2 = h1"
        using h1p by (auto simp: h2_def n'_def)
      then show ?thesis
        using False nonnull u(1) n hl(1) by (simp add: list_move_to_def heap_defs at_handle_def)
    qed
    have "data_ok h (xs @ ys)"
      using list_at_data [OF assms(1)] by simp
    then have "data_ok h us" "data_ok h vs"
      by (simp_all add: assms(2))
    then show "list_at h' l' (us @ (p, d) # vs)"
      by (intro list_atI [OF _ _ re]) (use hl(2,3) u(3) n assms(2) in auto)
  qed (rule relinks_outside [OF re])
qed

section \<open>Ranges, copies and destruction\<close>

definition erase_all :: "nat set \<Rightarrow> 'd heap \<Rightarrow> 'd heap" where
  "erase_all A h = (\<lambda>a. if a \<in> A then None else h a)"

lemma erase_loop_ok:
  "chain h pr ms e \<Longrightarrow> distinct ms \<Longrightarrow> e \<notin> Some ` set ms \<Longrightarrow>
    erase_loop h sz (first ms e) e = Some (erase_all (set ms) h, sz - length ms)"
proof (induction ms arbitrary: h pr sz)
  case Nil
  then show ?case
    by (simp add: erase_loop.simps erase_all_def)
next
  case (Cons m ms)
  obtain n where n: "h m = Some n" "n_next n = first ms e"
    using Cons.prems(1) by (auto split: option.splits)
  have c: "chain (h(m := None)) (Some m) ms e"
    using Cons.prems(1,2) by simp
  have "erase_loop (h(m := None)) (sz - 1) (first ms e) e =
      Some (erase_all (set ms) (h(m := None)), sz - 1 - length ms)"
    by (rule Cons.IH [OF c]) (use Cons.prems(2,3) in simp_all)
  moreover have "erase_all (set ms) (h(m := None)) = erase_all (set (m # ms)) h"
    by (auto simp: erase_all_def)
  ultimately show ?case
    using n Cons.prems(3) by (subst erase_loop.simps) (auto simp: heap_defs delete_node_def)
qed

lemma destroy_loop_ok:
  "chain h pr ps None \<Longrightarrow> distinct ps \<Longrightarrow> destroy_loop h (first ps None) = Some (erase_all (set ps) h)"
proof (induction ps arbitrary: h pr)
  case Nil
  then show ?case
    by (simp add: destroy_loop.simps erase_all_def)
next
  case (Cons p ps)
  obtain n where n: "h p = Some n" "n_next n = first ps None"
    using Cons.prems(1) by (auto split: option.splits)
  have c: "chain (h(p := None)) (Some p) ps None"
    using Cons.prems(1,2) by simp
  have "destroy_loop (h(p := None)) (first ps None) = Some (erase_all (set ps) (h(p := None)))"
    by (rule Cons.IH [OF c]) (use Cons.prems(2) in simp)
  moreover have "erase_all (set ps) (h(p := None)) = erase_all (set (p # ps)) h"
    by (auto simp: erase_all_def)
  ultimately show ?case
    using n by (subst destroy_loop.simps) (simp add: heap_defs delete_node_def)
qed

lemma destroy_at: "list_at h l qs \<Longrightarrow> list_destroy h l = Some (erase_all (handles qs) h)"
  using destroy_loop_ok [of h None "map fst qs"] list_atD [of h l qs]
  by (simp add: list_destroy_def linked_def at_handle_def)

text \<open>Cutting a range out: the two ends are joined before any node is freed.\<close>

lemma cut_at:
  assumes "linked h l (as @ ms @ bs)" "ms \<noteq> []"
  obtains h1 l1 h2 l2 where
    "(if final None as \<noteq> None then do { h' \<leftarrow> set_next h (final None as) (first bs None); Some (h', l) }
      else Some (h, l\<lparr>l_head := first bs None\<rparr>)) = Some (h1, l1)"
    "(if first bs None \<noteq> None then do { h' \<leftarrow> set_prev h1 (first bs None) (final None as); Some (h', l1) }
      else Some (h1, l1\<lparr>l_tail := final None as\<rparr>)) = Some (h2, l2)"
    "linked h2 l2 (as @ bs)" "l_size l2 = l_size l" "relinks (set as \<union> set bs) h h2"
    "chain h2 (final None as) ms (first bs None)"
proof -
  have dis: "set as \<inter> set ms = {}" "set as \<inter> set bs = {}" "set ms \<inter> set bs = {}" "distinct as" "distinct bs"
    using assms(1) by (auto simp: linked_def)
  obtain h1 l1 where one: "(if final None as \<noteq> None then do { h' \<leftarrow> set_next h (final None as) (first bs None); Some (h', l) }
      else Some (h, l\<lparr>l_head := first bs None\<rparr>)) = Some (h1, l1)"
    "chain h1 None as (first bs None)" "chain h1 (final None as) ms (first bs None)"
    "chain h1 (final (final None as) ms) bs None" "l_head l1 = first (as @ bs) None" "l_tail l1 = l_tail l"
    "l_size l1 = l_size l" "relinks (set as) h h1"
  proof (cases as rule: rev_cases)
    case Nil
    show thesis
      by (rule that [of h "l\<lparr>l_head := first bs None\<rparr>"])
        (use Nil assms(1) in \<open>simp_all add: linked_def\<close>)
  next
    case (snoc as' a)
    obtain m where m: "h a = Some m" "n_prev m = final None as'"
      using assms(1) snoc by (auto simp: linked_def split: option.splits)
    have head: "l_head l = first (as @ bs) None"
      using assms(1) snoc by (cases as') (simp_all add: linked_def)
    show thesis
      by (rule that [of "h(a \<mapsto> m\<lparr>n_next := first bs None\<rparr>)" l])
        (use snoc assms m dis head in \<open>auto simp: linked_def heap_defs intro!: relinks_upd\<close>)
  qed
  obtain h2 l2 where two: "(if first bs None \<noteq> None then do { h' \<leftarrow> set_prev h1 (first bs None) (final None as); Some (h', l1) }
      else Some (h1, l1\<lparr>l_tail := final None as\<rparr>)) = Some (h2, l2)"
    "chain h2 None as (first bs None)" "chain h2 (final None as) ms (first bs None)"
    "chain h2 (final None as) bs None" "l_head l2 = l_head l1" "l_tail l2 = final None (as @ bs)"
    "l_size l2 = l_size l1" "relinks (set bs) h1 h2"
  proof (cases bs)
    case Nil
    show thesis
      by (rule that [of h1 "l1\<lparr>l_tail := final None as\<rparr>"]) (use Nil one in simp_all)
  next
    case (Cons b bs')
    obtain k where k: "h1 b = Some k" "n_next k = first bs' None"
      using one(4) Cons by (auto split: option.splits)
    have "l_tail l = final None (as @ bs)"
      using assms(1) Cons by (simp add: linked_def)
    then show thesis
      by (intro that [of "h1(b \<mapsto> k\<lparr>n_prev := final None as\<rparr>)" l1])
        (use Cons one k dis in \<open>auto simp: heap_defs intro!: relinks_upd\<close>)
  qed
  show thesis
  proof (rule that [OF one(1) two(1)])
    show "linked h2 l2 (as @ bs)"
      using two one(5) dis by (simp add: linked_def)
    show "relinks (set as \<union> set bs) h h2"
      using one(8) two(8) by (auto intro: relinks_trans relinks_mono)
  qed (use one two in simp_all)
qed

lemma erase_range_at:
  assumes "list_at h l (xs @ ms @ ys)" "ms \<noteq> []"
  obtains h' l' where "list_erase_range h l (at_handle ms) (at_handle ys) = Some (h', l')"
    "list_at h' l' (xs @ ys)" "outside (handles (xs @ ms @ ys)) h h'" "\<forall>a \<in> handles ms. h' a = None"
proof -
  have "linked h l (map fst xs @ map fst ms @ map fst ys)"
    using list_atD(1) [OF assms(1)] by simp
  then obtain h1 l1 h2 l2 where cut0:
    "(if final None (map fst xs) \<noteq> None then do { h' \<leftarrow> set_next h (final None (map fst xs)) (at_handle ys); Some (h', l) }
      else Some (h, l\<lparr>l_head := at_handle ys\<rparr>)) = Some (h1, l1)"
    "(if at_handle ys \<noteq> None then do { h' \<leftarrow> set_prev h1 (at_handle ys) (final None (map fst xs)); Some (h', l1) }
      else Some (h1, l1\<lparr>l_tail := final None (map fst xs)\<rparr>)) = Some (h2, l2)"
    "linked h2 l2 (map fst xs @ map fst ys)" "l_size l2 = l_size l" "relinks (set (map fst xs) \<union> set (map fst ys)) h h2"
    "chain h2 (final None (map fst xs)) (map fst ms) (at_handle ys)"
    unfolding at_handle_def by (rule cut_at) (use assms(2) in simp)
  note cut = cut0(1,2) cut0(3) [folded map_append] cut0(4) cut0(5) [simplified, folded handles_simps(3)] cut0(6)
  have dist: "distinct (map fst ms)" "handles ms \<inter> handles (xs @ ys) = {}"
    using list_atD(3) [OF assms(1)] by auto
  have "at_handle ys \<notin> Some ` set (map fst ms)"
    using dist(2) by (cases ys) auto
  then have loop: "erase_loop h2 (l_size l2) (at_handle ms) (at_handle ys) =
      Some (erase_all (handles ms) h2, l_size l2 - length ms)"
    using erase_loop_ok [OF cut(6) dist(1), of "l_size l2"] assms(2) by (cases ms) auto
  have prev: "iter_prev h (at_handle ms) = Some (final None (map fst xs))" "at_handle ms \<noteq> None"
    using list_atD(1) [OF assms(1)] assms(2)
    by (cases ms; auto simp: linked_def heap_defs split: option.splits)+
  have la: "list_at h2 (l2\<lparr>l_size := l_size l2 - length ms\<rparr>) (xs @ ys)"
    by (rule list_atI [OF _ _ cut(5)])
      (use cut(3,4) list_atD(2) [OF assms(1)] list_at_data [OF assms(1)] in simp_all)
  show thesis
  proof (rule that)
    show "list_erase_range h l (at_handle ms) (at_handle ys) =
        Some (erase_all (handles ms) h2, l2\<lparr>l_size := l_size l2 - length ms\<rparr>)"
      using cut(1,2) loop prev by (auto simp: list_erase_range_def cut(4))
    show "list_at (erase_all (handles ms) h2) (l2\<lparr>l_size := l_size l2 - length ms\<rparr>) (xs @ ys)"
      by (rule list_at_frame [OF la _ dist(2)]) (simp add: outside_def erase_all_def)
    show "outside (handles (xs @ ms @ ys)) h (erase_all (handles ms) h2)"
      using cut(5) by (auto simp: outside_def erase_all_def relinks_def)
  qed (simp add: erase_all_def)
qed

text \<open>The copy is built in fresh nodes and the original is only read.\<close>

lemma copy_loop_ok:
  assumes "chain h pr (map fst qs) None" "data_ok h qs"
    and "chain h None ds None" "distinct ds" "l_head l = first ds None"
    and "distinct fresh" "length fresh = length qs" "\<forall>a \<in> set fresh. h a = None"
    and "set ds \<inter> handles qs = {}"
  shows "\<exists>h' l'. copy_loop h l fresh (at_handle qs) (final None ds) = Some (h', l') \<and>
    linked h' l' (ds @ fresh) \<and> l_size l' = l_size l \<and> outside (set ds \<union> set fresh) h h' \<and>
    data_ok h' (zip fresh (map snd qs)) \<and> (\<forall>a \<in> set ds. map_option n_data (h' a) = map_option n_data (h a))"
  using assms
proof (induction qs arbitrary: h pr ds l fresh)
  case Nil
  then show ?case
    by (simp add: copy_loop.simps linked_def outside_def)
next
  case (Cons q qs)
  obtain a fresh' where fr: "fresh = a # fresh'"
    using Cons.prems(7) by (cases fresh) auto
  obtain n where n: "h (fst q) = Some n" "n_data n = snd q" "n_next n = at_handle qs"
    using Cons.prems(1,2) by (auto simp: at_handle_def split: option.splits)
  have a: "h a = None" "a \<notin> set ds" "a \<notin> insert (fst q) (handles qs)" "a \<notin> set fresh'"
    using Cons.prems(6,8) chain_dom [OF Cons.prems(1), of a] chain_dom [OF Cons.prems(3), of a] fr by auto
  let ?n = "\<lparr>n_data = snd q, n_prev = final None ds, n_next = None\<rparr>"
  have aq: "fst q \<noteq> a"
    using a(3) by auto
  have q_ds: "fst q \<notin> set ds"
    using Cons.prems(9) by auto
  obtain h1 l1 where step: "copy_loop h l fresh (at_handle (q # qs)) (final None ds) =
      copy_loop h1 l1 fresh' (at_handle qs) (final None (ds @ [a]))"
    "chain h1 None (ds @ [a]) None" "l_head l1 = first (ds @ [a]) None" "l_size l1 = l_size l"
    "relinks (set ds) (h(a \<mapsto> ?n)) h1" "h1 a = Some ?n"
  proof (cases ds rule: rev_cases)
    case Nil
    have "copy_loop h l fresh (at_handle (q # qs)) (final None ds) =
        copy_loop (h(a \<mapsto> ?n)) (l\<lparr>l_head := Some a\<rparr>) fresh' (at_handle qs) (final None (ds @ [a]))"
      using Nil fr n a(1) aq by (subst copy_loop.simps) (simp add: heap_defs new_node_def check_def)
    then show thesis
      by (rule that) (use Nil in simp_all)
  next
    case (snoc ds' z)
    obtain m where m: "h z = Some m" "n_prev m = final None ds'"
      using Cons.prems(3) snoc by (auto split: option.splits)
    have z: "z \<noteq> a" "fst q \<noteq> z"
      using a(2) q_ds snoc by auto
    have "copy_loop h l fresh (at_handle (q # qs)) (final None ds) =
        copy_loop (h(a \<mapsto> ?n, z \<mapsto> m\<lparr>n_next := Some a\<rparr>)) l fresh' (at_handle qs) (final None (ds @ [a]))"
      using snoc fr n a(1) aq m z by (subst copy_loop.simps) (simp add: heap_defs new_node_def check_def)
    then show thesis
      by (rule that) (use snoc a(2) m z Cons.prems(3,4,5) in \<open>auto simp: relinks_def\<close>)
  qed
  have same: "h1 b = h b" if "b \<noteq> a" "b \<notin> set ds" for b
    using step(5) that by (auto simp: relinks_def)
  have rest: "h1 b = h b" if "b \<in> handles qs" for b
    using Cons.prems(9) a(3) that by (intro same) auto
  have "\<exists>h' l'. copy_loop h1 l1 fresh' (at_handle qs) (final None (ds @ [a])) = Some (h', l') \<and>
    linked h' l' ((ds @ [a]) @ fresh') \<and> l_size l' = l_size l1 \<and> outside (set (ds @ [a]) \<union> set fresh') h1 h' \<and>
    data_ok h' (zip fresh' (map snd qs)) \<and>
    (\<forall>b \<in> set (ds @ [a]). map_option n_data (h' b) = map_option n_data (h1 b))"
  proof (rule Cons.IH [of _ "Some (fst q)"])
    show "chain h1 (Some (fst q)) (map fst qs) None"
      using Cons.prems(1) rest by (subst chain_cong [of _ h1 h]) simp_all
    show "data_ok h1 qs"
      using Cons.prems(2) rest by (subst data_ok_cong [of _ h1 h]) simp_all
    show "\<forall>b \<in> set fresh'. h1 b = None"
    proof
      fix b assume b: "b \<in> set fresh'"
      then have "h b = None" "b \<noteq> a"
        using Cons.prems(8) a(4) fr by auto
      moreover have "b \<notin> set ds"
        using chain_dom [OF Cons.prems(3), of b] \<open>h b = None\<close> by blast
      ultimately show "h1 b = None"
        using same by simp
    qed
  qed (use step(2,3) Cons.prems a fr in auto)
  then obtain h' l' where fin: "copy_loop h1 l1 fresh' (at_handle qs) (final None (ds @ [a])) = Some (h', l')"
    "linked h' l' (ds @ fresh)" "l_size l' = l_size l1" "outside (set ds \<union> set fresh) h1 h'"
    "data_ok h' (zip fresh' (map snd qs))"
    "\<forall>b \<in> set (ds @ [a]). map_option n_data (h' b) = map_option n_data (h1 b)"
    by (auto simp: fr)
  have "outside (set ds \<union> set fresh) h h'"
    using fin(4) step(5) by (auto simp: outside_def relinks_def fr)
  moreover have "data_ok h' (zip fresh (map snd (q # qs)))"
    using fin(5,6) step(6) by (simp add: fr)
  moreover have "\<forall>b \<in> set ds. map_option n_data (h' b) = map_option n_data (h b)"
    using fin(6) step(5) a(2) by (auto simp: relinks_def)
  ultimately show ?case
    using step(1,4) fin(1-3) by auto
qed

lemma copy_at:
  assumes "list_at h other qs" "distinct fresh" "length fresh = length qs" "\<forall>a \<in> set fresh. h a = None"
  obtains h' l' where "list_copy h other fresh = Some (h', l')" "list_at h' l' (zip fresh (map snd qs))"
    "list_at h' other qs" "outside (set fresh) h h'"
proof -
  note l = list_atD [OF assms(1)]
  obtain h' l' where hl: "list_copy h other fresh = Some (h', l')" "linked h' l' fresh" "l_size l' = l_size other"
    "outside (set fresh) h h'" "data_ok h' (zip fresh (map snd qs))"
    using copy_loop_ok [of h None qs "[]" "list_empty\<lparr>l_size := l_size other\<rparr>" fresh] l(1,4)
      list_at_data [OF assms(1)] assms(2-4)
    by (auto simp: list_copy_def linked_def list_empty_def)
  have "set fresh \<inter> handles qs = {}"
  proof -
    have "h a \<noteq> None" if "a \<in> handles qs" for a
      using chain_dom [of h None "map fst qs" None a] l(1) that by (simp add: linked_def)
    then show ?thesis
      using assms(4) by blast
  qed
  then have "list_at h' other qs"
    using list_at_frame [OF assms(1) hl(4)] by simp
  moreover have "list_at h' l' (zip fresh (map snd qs))"
    using hl(2,3,5) l(2) assms(3) by (simp add: list_at_def list_rep_def)
  ultimately show thesis
    using that hl(1,4) by blast
qed

section \<open>Traversal and scripts\<close>

text \<open>
  The client: iterate from \<open>begin()\<close>, or back from \<open>tail()\<close>, through exactly \<open>size()\<close> elements;
  go to a position; and a script of operations at positions, over an allocator \<open>alloc\<close>.
\<close>

fun forward :: "'d heap \<Rightarrow> nat \<Rightarrow> ptr \<Rightarrow> 'd list option" where
  "forward h 0 p = (if p = None then Some [] else None)"
| "forward h (Suc n) p = do {
     d \<leftarrow> iter_data h p;
     q \<leftarrow> iter_next h p;
     ds \<leftarrow> forward h n q;
     Some (d # ds)
   }"

fun backward :: "'d heap \<Rightarrow> nat \<Rightarrow> ptr \<Rightarrow> 'd list option" where
  "backward h 0 p = (if p = None then Some [] else None)"
| "backward h (Suc n) p = do {
     d \<leftarrow> iter_data h p;
     q \<leftarrow> iter_prev h p;
     ds \<leftarrow> backward h n q;
     Some (d # ds)
   }"

fun advance :: "'d heap \<Rightarrow> ptr \<Rightarrow> nat \<Rightarrow> ptr option" where
  "advance h p 0 = Some p"
| "advance h p (Suc n) = do { q \<leftarrow> iter_next h p; advance h q n }"

datatype 'd list_op = Insert nat 'd | Erase nat | Move nat nat | Shift nat nat | Erase_range nat nat

fun list_step :: "('d heap \<Rightarrow> nat) \<Rightarrow> 'd list_op \<Rightarrow> 'd heap \<times> plist \<Rightarrow> ('d heap \<times> plist) option" where
  "list_step alloc (Insert i d) (h, l) = do {
     p \<leftarrow> advance h (l_head l) i;
     (_, h, l) \<leftarrow> list_insert h l p (alloc h) d;
     Some (h, l)
   }"
| "list_step alloc (Erase i) (h, l) = do {
     p \<leftarrow> advance h (l_head l) i;
     list_erase h l p
   }"
| "list_step alloc (Move i j) (h, l) = do {
     dest \<leftarrow> advance h (l_head l) i;
     p \<leftarrow> advance h (l_head l) j;
     list_move_to h l dest p
   }"
| "list_step alloc (Shift i j) (h, l) = do {
     p \<leftarrow> advance h (l_head l) j;
     (v, h, l) \<leftarrow> list_release h l p;
     dest \<leftarrow> advance h (l_head l) i;
     (_, h, l) \<leftarrow> list_insert_val h l dest v;
     Some (h, l)
   }"
| "list_step alloc (Erase_range i j) (h, l) = do {
     b \<leftarrow> advance h (l_head l) i;
     e \<leftarrow> advance h (l_head l) j;
     list_erase_range h l b e
   }"

text \<open>What each operation means for the sequence, and the positions at which it is defined.\<close>

fun seq_step :: "'d list_op \<Rightarrow> 'd list \<Rightarrow> 'd list" where
  "seq_step (Insert i d) xs = take i xs @ d # drop i xs"
| "seq_step (Erase i) xs = take i xs @ drop (Suc i) xs"
| "seq_step (Move i j) xs =
     (if i \<le> j then take i xs @ xs ! j # drop i (take j xs) @ drop (Suc j) xs
      else take j xs @ drop (Suc j) (take i xs) @ xs ! j # drop i xs)"
| "seq_step (Shift i j) xs =
     (let ys = take j xs @ drop (Suc j) xs in take i ys @ xs ! j # drop i ys)"
| "seq_step (Erase_range i j) xs = take i xs @ drop j xs"

fun step_ok :: "'d list_op \<Rightarrow> nat \<Rightarrow> bool" where
  "step_ok (Insert i d) n = (i \<le> n)"
| "step_ok (Erase i) n = (i < n)"
| "step_ok (Move i j) n = (i \<le> n \<and> j < n \<and> i \<noteq> j)"
| "step_ok (Shift i j) n = (i < n \<and> j < n)"
| "step_ok (Erase_range i j) n = (i < j \<and> j \<le> n)"

fun run_ops :: "('op \<Rightarrow> 's \<Rightarrow> 's option) \<Rightarrow> 'op list \<Rightarrow> 's \<Rightarrow> 's option" where
  "run_ops step [] s = Some s"
| "run_ops step (op # ops) s = do { s' \<leftarrow> step op s; run_ops step ops s' }"

fun ops_ok :: "('op \<Rightarrow> 'd list \<Rightarrow> 'd list) \<Rightarrow> ('op \<Rightarrow> nat \<Rightarrow> bool) \<Rightarrow> 'op list \<Rightarrow> 'd list \<Rightarrow> bool" where
  "ops_ok spec ok [] xs \<longleftrightarrow> True"
| "ops_ok spec ok (op # ops) xs \<longleftrightarrow> ok op (length xs) \<and> ops_ok spec ok ops (spec op xs)"

text \<open>The contract of a sequence container: each defined operation does to the contents what \<open>spec\<close> says.\<close>

locale sequence =
  fixes holds :: "'s \<Rightarrow> 'd list \<Rightarrow> bool"
    and step :: "'op \<Rightarrow> 's \<Rightarrow> 's option"
    and spec :: "'op \<Rightarrow> 'd list \<Rightarrow> 'd list"
    and ok :: "'op \<Rightarrow> nat \<Rightarrow> bool"
  assumes step_law: "holds s xs \<Longrightarrow> ok op (length xs) \<Longrightarrow> \<exists>s'. step op s = Some s' \<and> holds s' (spec op xs)"
begin

lemma run_law:
  "holds s xs \<Longrightarrow> ops_ok spec ok ops xs \<Longrightarrow>
    \<exists>s'. run_ops step ops s = Some s' \<and> holds s' (fold spec ops xs)"
proof (induction ops arbitrary: s xs)
  case (Cons op ops)
  then show ?case
    using step_law [of s xs op] by fastforce
qed simp

end

lemma list_at_forward: "chain h pr (map fst qs) None \<Longrightarrow> data_ok h qs \<Longrightarrow>
    forward h (length qs) (at_handle qs) = Some (map snd qs)"
proof (induction qs arbitrary: pr)
  case (Cons q qs)
  then obtain n where "h (fst q) = Some n" "n_next n = at_handle qs" "n_data n = snd q"
    by (auto simp: at_handle_def split: option.splits)
  then show ?case
    using Cons by (auto simp: heap_defs)
qed simp

lemma list_at_backward: "chain h None (map fst qs) nx \<Longrightarrow> data_ok h qs \<Longrightarrow>
    backward h (length qs) (final None (map fst qs)) = Some (rev (map snd qs))"
proof (induction qs arbitrary: nx rule: rev_induct)
  case (snoc q qs)
  then obtain n where "h (fst q) = Some n" "n_prev n = final None (map fst qs)" "n_data n = snd q"
    by (auto split: option.splits)
  then show ?case
    using snoc by (auto simp: heap_defs)
qed simp

lemma list_at_advance:
  assumes "list_at h l (xs @ ys)"
  shows "advance h (l_head l) (length xs) = Some (at_handle ys)"
proof -
  have "chain h pr (map fst (xs @ ys)) None \<Longrightarrow> advance h (at_handle (xs @ ys)) (length xs) = Some (at_handle ys)"
    for pr
  proof (induction xs arbitrary: pr)
    case (Cons x xs)
    then obtain n where "h (fst x) = Some n" "n_next n = at_handle (xs @ ys)"
      by (auto simp: at_handle_def split: option.splits)
    then show ?case
      using Cons by (auto simp: heap_defs)
  qed simp
  then show ?thesis
    using list_atD(1,4) [OF assms] by (auto simp: linked_def)
qed

lemma list_at_position:
  assumes "list_at h l qs" "i \<le> length qs"
  shows "advance h (l_head l) i = Some (at_handle (drop i qs))"
  using list_at_advance [of h l "take i qs" "drop i qs"] assms by simp

section \<open>The pointer list is such a sequence\<close>

text \<open>\<open>new\<close> returns an address that is not in use, as long as memory is finite.\<close>

definition allocates :: "('d heap \<Rightarrow> nat) \<Rightarrow> bool" where
  "allocates alloc \<longleftrightarrow> (\<forall>h. finite (dom h) \<longrightarrow> h (alloc h) = None)"

definition list_holds :: "('d heap \<Rightarrow> nat) \<Rightarrow> 'd heap \<times> plist \<Rightarrow> 'd list \<Rightarrow> bool" where
  "list_holds alloc s xs \<longleftrightarrow> allocates alloc \<and> finite (dom (fst s)) \<and>
     (\<exists>qs. list_at (fst s) (snd s) qs \<and> xs = map snd qs)"

lemma outside_finite: "outside A h h' \<Longrightarrow> finite A \<Longrightarrow> finite (dom h) \<Longrightarrow> finite (dom h')"
  by (rule finite_subset [of _ "A \<union> dom h"]) (auto simp: outside_def dom_def)

lemma finite_handles [simp]: "finite (handles qs)"
  by (induction qs) simp_all

lemma holds_result:
  assumes "list_holds alloc (h, l) xs" "list_at h' l' qs" "outside A h h'" "finite A" "ys = map snd qs"
  shows "list_holds alloc (h', l') ys"
  using assms outside_finite [OF assms(3,4)] by (auto simp: list_holds_def)

lemma split_nth: "i < length xs \<Longrightarrow> \<exists>us v vs. xs = us @ v # vs \<and> length us = i"
  by (metis id_take_nth_drop length_take less_imp_le_nat min.absorb2)

lemma list_step_insert:
  assumes "list_holds alloc (h, l) xs" "i \<le> length xs"
  shows "\<exists>s'. list_step alloc (Insert i d) (h, l) = Some s' \<and> list_holds alloc s' (take i xs @ d # drop i xs)"
proof -
  obtain qs where qs: "list_at h l (take i qs @ drop i qs)" "xs = map snd qs" "h (alloc h) = None"
    using assms(1) by (auto simp: list_holds_def allocates_def)
  obtain h' l' where ins: "list_insert h l (at_handle (drop i qs)) (alloc h) d = Some (Some (alloc h), h', l')"
    "list_at h' l' (take i qs @ (alloc h, d) # drop i qs)"
    "outside (insert (alloc h) (handles (take i qs @ drop i qs))) h h'"
    using insert_at [OF qs(1,3)] .
  have "advance h (l_head l) i = Some (at_handle (drop i qs))"
    using list_at_position [of h l qs i] qs(1,2) assms(2) by simp
  moreover have "list_holds alloc (h', l') (take i xs @ d # drop i xs)"
    by (rule holds_result [OF assms(1) ins(2,3)]) (simp_all add: qs(2) take_map drop_map)
  ultimately show ?thesis
    using ins(1) by simp
qed

lemma list_step_erase:
  assumes "list_holds alloc (h, l) xs" "i < length xs"
  shows "\<exists>s'. list_step alloc (Erase i) (h, l) = Some s' \<and> list_holds alloc s' (take i xs @ drop (Suc i) xs)"
proof -
  obtain qs where qs: "list_at h l qs" "xs = map snd qs"
    using assms(1) by (auto simp: list_holds_def)
  then obtain us p d vs where sp: "qs = us @ (p, d) # vs" "length us = i"
    using split_nth [of i qs] assms(2) by auto
  obtain h' l' where er: "list_erase h l (Some p) = Some (h', l')" "list_at h' l' (us @ vs)"
    "outside (insert p (handles (us @ vs))) h h'" "h' p = None"
    using erase_at [of h l us p d vs] qs(1) sp(1) by blast
  have "advance h (l_head l) i = Some (Some p)"
    using list_at_position [OF qs(1), of i] sp by simp
  moreover have "list_holds alloc (h', l') (take i xs @ drop (Suc i) xs)"
    by (rule holds_result [OF assms(1) er(2,3)]) (use qs(2) sp in auto)
  ultimately show ?thesis
    using er(1) by simp
qed

lemma list_step_erase_range:
  assumes "list_holds alloc (h, l) xs" "i < j" "j \<le> length xs"
  shows "\<exists>s'. list_step alloc (Erase_range i j) (h, l) = Some s' \<and> list_holds alloc s' (take i xs @ drop j xs)"
proof -
  obtain qs where qs: "list_at h l qs" "xs = map snd qs"
    using assms(1) by (auto simp: list_holds_def)
  let ?ms = "drop i (take j qs)"
  have sp: "qs = take i qs @ ?ms @ drop j qs" "?ms \<noteq> []"
    using assms(2,3) qs(2) by (simp_all add: append_assoc [symmetric] take_drop_split del: append_assoc)
      (metis append_take_drop_id less_imp_le_nat min.absorb1 take_take)
  obtain h' l' where er: "list_erase_range h l (at_handle ?ms) (at_handle (drop j qs)) = Some (h', l')"
    "list_at h' l' (take i qs @ drop j qs)" "outside (handles (take i qs @ ?ms @ drop j qs)) h h'"
    using erase_range_at [of h l "take i qs" ?ms "drop j qs"] qs(1) sp by metis
  have "drop i qs = ?ms @ drop j qs"
    using sp(1) assms(2,3) qs(2) by (metis append_eq_conv_conj append_take_drop_id)
  then have "at_handle (drop i qs) = at_handle ?ms"
    using sp(2) by (cases ?ms) auto
  then have "advance h (l_head l) i = Some (at_handle ?ms)" "advance h (l_head l) j = Some (at_handle (drop j qs))"
    using list_at_position [OF qs(1), of i] list_at_position [OF qs(1), of j] assms(2,3) qs(2) by simp_all
  moreover have "list_holds alloc (h', l') (take i xs @ drop j xs)"
    by (rule holds_result [OF assms(1) er(2,3)]) (simp_all add: qs(2) take_map drop_map)
  ultimately show ?thesis
    using er(1) by simp
qed

lemma list_step_shift:
  assumes "list_holds alloc (h, l) xs" "i < length xs" "j < length xs"
  shows "\<exists>s'. list_step alloc (Shift i j) (h, l) = Some s' \<and> list_holds alloc s' (seq_step (Shift i j) xs)"
proof -
  obtain qs where qs: "list_at h l qs" "xs = map snd qs"
    using assms(1) by (auto simp: list_holds_def)
  then obtain us p d vs where sp: "qs = us @ (p, d) # vs" "length us = j"
    using split_nth [of j qs] assms(3) by auto
  obtain h1 l1 where re: "list_release h l (Some p) = Some (Some p, h1, l1)" "list_at h1 l1 (us @ vs)"
    "outside (handles (us @ vs)) h h1" "map_option n_data (h1 p) = Some d" "p \<notin> handles (us @ vs)"
    using release_at [of h l us p d vs] qs(1) sp(1) by blast
  let ?qs = "us @ vs"
  have i: "i \<le> length ?qs"
    using assms(2) qs(2) sp by simp
  obtain h' l' where ins: "list_insert_val h1 l1 (at_handle (drop i ?qs)) (Some p) = Some (Some p, h', l')"
    "list_at h' l' (take i ?qs @ (p, d) # drop i ?qs)" "outside (insert p (handles (take i ?qs @ drop i ?qs))) h1 h'"
    using insert_val_at [of h1 l1 "take i ?qs" "drop i ?qs" p d] re by (metis append_take_drop_id)
  have pos: "advance h (l_head l) j = Some (Some p)" "advance h1 (l_head l1) i = Some (at_handle (drop i ?qs))"
    using list_at_position [OF qs(1), of j] sp list_at_position [OF re(2) i] by simp_all
  have "list_holds alloc (h', l') (seq_step (Shift i j) xs)"
    by (rule holds_result [OF assms(1) ins(2) outside_trans [OF re(3) ins(3)]])
      (use qs(2) sp in \<open>simp_all add: Let_def nth_append take_map drop_map\<close>)
  then show ?thesis
    using pos re(1) ins(1) by simp
qed

lemma list_step_move:
  assumes "list_holds alloc (h, l) xs" "i \<le> length xs" "j < length xs" "i \<noteq> j"
  shows "\<exists>s'. list_step alloc (Move i j) (h, l) = Some s' \<and> list_holds alloc s' (seq_step (Move i j) xs)"
proof -
  obtain qs where qs: "list_at h l qs" "xs = map snd qs"
    using assms(1) by (auto simp: list_holds_def)
  then obtain us p d vs where sp: "qs = us @ (p, d) # vs" "length us = j"
    using split_nth [of j qs] assms(3) by auto
  define as where "as = (if i \<le> j then take i us else us @ take (i - Suc j) vs)"
  define bs where "bs = (if i \<le> j then drop i us @ vs else drop (i - Suc j) vs)"
  have "us @ vs = as @ bs"
    by (simp add: as_def bs_def)
  then obtain h' l' where mv: "list_move_to h l (at_handle bs) (Some p) = Some (h', l')"
    "list_at h' l' (as @ (p, d) # bs)" "outside (handles (us @ (p, d) # vs)) h h'"
    using move_at [of h l us p d vs as bs] qs(1) sp(1) by blast
  have "at_handle (drop i qs) = at_handle bs"
  proof (cases "i \<le> j")
    case True
    then obtain u us' where "drop i us = u # us'"
      using assms(4) sp(2) by (cases "drop i us") auto
    then show ?thesis
      using True sp by (simp add: bs_def)
  next
    case False
    then obtain k where "i = Suc (j + k)"
      by (metis add_Suc_right less_imp_Suc_add not_le)
    then show ?thesis
      using sp by (simp add: bs_def)
  qed
  then have "advance h (l_head l) i = Some (at_handle bs)" "advance h (l_head l) j = Some (Some p)"
    using list_at_position [OF qs(1), of i] list_at_position [OF qs(1), of j] assms(2) qs(2) sp by simp_all
  moreover have "seq_step (Move i j) xs = map snd (as @ (p, d) # bs)"
  proof (cases "i \<le> j")
    case True
    then show ?thesis
      using qs(2) sp by (simp add: as_def bs_def nth_append take_map drop_map)
  next
    case False
    then obtain k where "i = Suc (j + k)"
      by (metis add_Suc_right less_imp_Suc_add not_le)
    then show ?thesis
      using qs(2) sp by (simp add: as_def bs_def nth_append take_map drop_map)
  qed
  then have "list_holds alloc (h', l') (seq_step (Move i j) xs)"
    by (intro holds_result [OF assms(1) mv(2,3)]) simp_all
  ultimately show ?thesis
    using mv(1) by simp
qed

interpretation plist: sequence "list_holds alloc" "list_step alloc" seq_step step_ok for alloc
proof
  fix s :: "'a heap \<times> plist" and xs and op :: "'a list_op"
  assume s: "list_holds alloc s xs" "step_ok op (length xs)"
  obtain h l where hl: "s = (h, l)"
    by (cases s)
  show "\<exists>s'. list_step alloc op s = Some s' \<and> list_holds alloc s' (seq_step op xs)"
    using s list_step_insert [of alloc h l xs] list_step_erase [of alloc h l xs] list_step_move [of alloc h l xs]
      list_step_shift [of alloc h l xs] list_step_erase_range [of alloc h l xs]
    unfolding hl by (cases op) (simp_all del: list_step.simps)
qed

lemma list_holds_empty: "allocates alloc \<Longrightarrow> finite (dom h) \<Longrightarrow> list_holds alloc (h, list_empty) []"
  by (simp add: list_holds_def list_at_def list_rep_def linked_def list_empty_def)

lemma list_at_reads:
  assumes "list_at h l qs"
  shows "forward h (l_size l) (l_head l) = Some (map snd qs)"
    "backward h (l_size l) (l_tail l) = Some (rev (map snd qs))"
  using list_atD [OF assms] list_at_forward [of h None qs] list_at_backward [of h qs None] list_at_data [OF assms]
  by (auto simp: linked_def)

lemma list_holds_read:
  assumes "list_holds alloc (h, l) xs"
  shows "forward h (l_size l) (l_head l) = Some xs" "backward h (l_size l) (l_tail l) = Some (rev xs)"
    "l_size l = length xs"
proof -
  obtain qs where qs: "list_at h l qs" "xs = map snd qs"
    using assms by (auto simp: list_holds_def)
  then show "forward h (l_size l) (l_head l) = Some xs" "backward h (l_size l) (l_tail l) = Some (rev xs)"
    "l_size l = length xs"
    using list_at_reads [OF qs(1)] list_atD(2) [OF qs(1)] by simp_all
qed

section \<open>The properties of the list\<close>


definition some_alloc :: "'d heap \<Rightarrow> nat" where
  "some_alloc h = (LEAST a. h a = None)"

lemma some_alloc_allocates: "allocates some_alloc"
  unfolding allocates_def some_alloc_def
proof (intro allI impI)
  fix h :: "'a heap"
  assume "finite (dom h)"
  then obtain a where "h a = None"
    using ex_new_if_finite [OF infinite_UNIV_nat, of "dom h"] by (auto simp: dom_def)
  then show "h (LEAST a. h a = None) = None"
    by (rule LeastI)
qed




lemma forward_short: "chain h pr xs None \<Longrightarrow> length xs < n \<Longrightarrow> forward h n (first xs None) = None"
proof (induction xs arbitrary: pr n)
  case Nil
  then show ?case
    by (cases n) (simp_all add: heap_defs)
next
  case (Cons x xs)
  then obtain m n' where "h x = Some m" "n_next m = first xs None" "chain h (Some x) xs None" "n = Suc n'"
    by (cases n) (auto split: option.splits)
  then show ?case
    using Cons by (simp add: heap_defs)
qed

text \<open>
  \<open>move_to\<close> of a node before itself destroys the list: the node is left linked to
  itself only, \<open>_size\<close> still counts it, and an iteration over \<open>size()\<close> elements runs off the end.
\<close>

theorem list_move_to_self:
  assumes "list_rep h l (ps @ p # qs)"
  shows "\<exists>h' l'. list_move_to h l (Some p) (Some p) = Some (h', l') \<and> iter_next h' (Some p) = Some (Some p) \<and>
    iter_prev h' (Some p) = Some (Some p) \<and> forward h' (l_size l') (l_head l') = None"
proof -
  have lk: "linked h l (ps @ p # qs)" and sz: "l_size l = Suc (length (ps @ qs))"
    using assms by (auto simp: list_rep_def)
  have p: "p \<notin> set (ps @ qs)"
    using lk by (auto simp: linked_def)
  obtain n where n: "h p = Some n" "n_next n = first qs None"
    using lk by (auto simp: linked_def split: option.splits)
  obtain h1 l1 where u: "unlink h l (Some p) = Some (h1, l1)" "linked h1 l1 (ps @ qs)"
    "l_size l1 = l_size l" "relinks (set ps \<union> set qs) h h1"
    using unlink_ok [OF lk] .
  have h1p: "h1 p = Some n"
    using u(4) p n(1) by (auto simp: relinks_def)
  have next_p: "n_next n \<noteq> Some p" and head: "l_head l1 \<noteq> Some p"
    using p u(2) n(2) by (cases ps; cases qs; auto simp: linked_def)+
  define h' where "h' = h1(p \<mapsto> n\<lparr>n_prev := Some p, n_next := Some p\<rparr>)"
  have "list_move_to h l (Some p) (Some p) = Some (h', l1)"
    using u(1) n h1p next_p head by (auto simp: list_move_to_def link_before_def heap_defs h'_def)
  moreover have "linked h' l1 (ps @ qs)"
    using linked_upd [OF p] u(2) unfolding h'_def by blast
  then have "forward h' (l_size l1) (l_head l1) = None"
    using forward_short [of h' None "ps @ qs" "l_size l1"] sz u(3) by (simp add: linked_def del: forward.simps)
  ultimately show ?thesis
    by (simp add: heap_defs h'_def)
qed

definition self_list :: "nat heap" where
  "self_list = [1 \<mapsto> \<lparr>n_data = 10, n_prev = None, n_next = Some 2\<rparr>, 2 \<mapsto> \<lparr>n_data = 20, n_prev = Some 1, n_next = None\<rparr>]"

lemma self_list_rep: "list_rep self_list \<lparr>l_head = Some 1, l_tail = Some 2, l_size = 2\<rparr> ([1] @ 2 # [])"
  by (simp add: list_rep_def linked_def self_list_def)

lemma list_move_to_self_witness:
  "\<exists>h' l'. list_move_to self_list \<lparr>l_head = Some 1, l_tail = Some 2, l_size = 2\<rparr> (Some 2) (Some 2) = Some (h', l') \<and>
    iter_next h' (Some 2) = Some (Some 2) \<and> iter_prev h' (Some 2) = Some (Some 2) \<and>
    forward h' (l_size l') (l_head l') = None"
  by (rule list_move_to_self [OF self_list_rep])


end
