(* ===== verification/LRUCache.thy ===== *)
theory LRUCache
  imports Prelude "HOL-Library.AList"
begin

text \<open>
  The write-back cache of src/Base/LRUCache.hpp.

  The template parameter \<open>Helper\<close> is a record of functions over its state \<open>'h\<close>; the destructor of a
  \<open>Value\<close> (which gives a buffer back to its pool) is one of them. \<open>can_create\<close> also sees the number of
  cached entries, because the helper of the link log asks the cache for it. \<open>_map\<close> is an association
  list, its order standing for the unspecified iteration order of \<open>std::unordered_map\<close>. The three
  queues are lists of nodes, each an address and a key, as theory PtrList justifies them; an iterator
  is the address it points to, or \<open>None\<close>. Freshness of the address of a new queue node comes from a
  counter.

  An operation ends in \<open>Ok\<close>, in \<open>Throw\<close> with the state the exception leaves behind, or in \<open>Stuck\<close>: a
  failed assertion or an undefined access.
\<close>

section \<open>The model\<close>

type_synonym 'k queue = "(nat \<times> 'k) list"

record 'v cnode =
  c_value :: 'v
  c_need_update :: bool
  c_persistent :: bool
  c_inst :: "32 word"
  c_time :: int
  c_iter :: "nat option"
  c_obs_iter :: "nat option"

record ('h, 'k, 'v) helper_fns =
  h_can_create :: "'h \<Rightarrow> nat \<Rightarrow> 'k \<Rightarrow> bool"
  h_create :: "'h \<Rightarrow> 'k \<Rightarrow> ('v \<times> 'h) option"
  h_update :: "'h \<Rightarrow> 'k \<Rightarrow> 'v \<Rightarrow> 'h option"
  h_release :: "('h \<Rightarrow> 'k \<Rightarrow> 'v \<Rightarrow> 'h) option"
  h_release_key :: "'h \<Rightarrow> 'k \<Rightarrow> 'h"
  h_erase :: "'h \<Rightarrow> 'k \<Rightarrow> 'h option"
  h_drop :: "'h \<Rightarrow> 'v \<Rightarrow> 'h"

record ('h, 'k, 'v) cache =
  helper :: 'h
  cmap :: "('k \<times> 'v cnode) list"
  q_persistent :: "'k queue"
  q_temporary :: "'k queue"
  q_obsolete :: "'k queue"
  next_handle :: nat

datatype ('a, 's) outcome = Ok 'a 's | Throw 's | Stuck

fun then_do :: "('a, 's) outcome \<Rightarrow> ('a \<Rightarrow> 's \<Rightarrow> ('b, 's) outcome) \<Rightarrow> ('b, 's) outcome" where
  "then_do (Ok a s) f = f a s"
| "then_do (Throw s) f = Throw s"
| "then_do Stuck f = Stuck"

definition sure :: "'s option \<Rightarrow> (unit, 's) outcome" where
  "sure r = (case r of None \<Rightarrow> Stuck | Some s \<Rightarrow> Ok () s)"

definition cache_new :: "'h \<Rightarrow> ('h, 'k, 'v) cache" where
  "cache_new h = \<lparr>helper = h, cmap = [], q_persistent = [], q_temporary = [], q_obsolete = [], next_handle = 0\<rparr>"

definition threshold_time :: int where
  "threshold_time = 1000000000"

definition need_update_size :: "('h, 'k, 'v) cache \<Rightarrow> nat" where
  "need_update_size c = length (q_obsolete c)"

definition total_size :: "('h, 'k, 'v) cache \<Rightarrow> nat" where
  "total_size c = length (cmap c)"

text \<open>Erasing a queue node through an iterator: \<open>nullptr\<close> is ignored, a stale iterator undefined.\<close>

definition q_erase :: "'k queue \<Rightarrow> nat option \<Rightarrow> 'k queue option" where
  "q_erase q p = (case p of None \<Rightarrow> Some q
     | Some a \<Rightarrow> if a \<in> fst ` set q then Some (filter (\<lambda>x. fst x \<noteq> a) q) else None)"

definition set_node :: "('h, 'k, 'v) cache \<Rightarrow> 'k \<Rightarrow> 'v cnode \<Rightarrow> ('h, 'k, 'v) cache" where
  "set_node c k n = c\<lparr>cmap := AList.update k n (cmap c)\<rparr>"

definition can_create :: "('h, 'k, 'v) helper_fns \<Rightarrow> ('h, 'k, 'v) cache \<Rightarrow> 'k \<Rightarrow> bool" where
  "can_create H c k = h_can_create H (helper c) (total_size c) k"

definition node_release :: "('h, 'k, 'v) helper_fns \<Rightarrow> ('h, 'k, 'v) cache \<Rightarrow> 'k \<Rightarrow> 'v \<Rightarrow> ('h, 'k, 'v) cache" where
  "node_release H c k v = (case h_release H of None \<Rightarrow> c
     | Some rel \<Rightarrow> c\<lparr>helper := rel (helper c) k v\<rparr>)"

definition node_update :: "('h, 'k, 'v) helper_fns \<Rightarrow> ('h, 'k, 'v) cache \<Rightarrow> 'k \<Rightarrow> 'v \<Rightarrow> (unit, ('h, 'k, 'v) cache) outcome" where
  "node_update H c k v = (case h_update H (helper c) k v of None \<Rightarrow> Throw c
     | Some h \<Rightarrow> Ok () (c\<lparr>helper := h\<rparr>))"

text \<open>\<open>_map.erase\<close> runs the destructor of the value.\<close>

definition map_erase :: "('h, 'k, 'v) helper_fns \<Rightarrow> ('h, 'k, 'v) cache \<Rightarrow> 'k \<Rightarrow> ('h, 'k, 'v) cache" where
  "map_erase H c k = (case map_of (cmap c) k of None \<Rightarrow> c
     | Some n \<Rightarrow> c\<lparr>cmap := AList.delete k (cmap c), helper := h_drop H (helper c) (c_value n)\<rparr>)"

text \<open>The queue of idle nodes a node belongs to.\<close>

definition idle_erase :: "('h, 'k, 'v) cache \<Rightarrow> 'v cnode \<Rightarrow> ('h, 'k, 'v) cache option" where
  "idle_erase c n = do {
     check (c_iter n \<noteq> None);
     (if c_persistent n then do {
        q \<leftarrow> q_erase (q_persistent c) (c_iter n);
        Some (c\<lparr>q_persistent := q\<rparr>)
      } else do {
        q \<leftarrow> q_erase (q_temporary c) (c_iter n);
        Some (c\<lparr>q_temporary := q\<rparr>)
      })
   }"

definition obs_erase :: "('h, 'k, 'v) cache \<Rightarrow> 'v cnode \<Rightarrow> ('h, 'k, 'v) cache option" where
  "obs_erase c n = do {
     q \<leftarrow> q_erase (q_obsolete c) (c_obs_iter n);
     Some (c\<lparr>q_obsolete := q\<rparr>)
   }"

definition get_change :: "('h, 'k, 'v) cache \<Rightarrow> 'k \<Rightarrow> ('h, 'k, 'v) cache option" where
  "get_change c k = do {
     n0 \<leftarrow> map_of (cmap c) k;
     let n = n0\<lparr>c_inst := c_inst n0 + 1\<rparr>;
     (if c_inst n > 1 then Some (set_node c k n)
      else do {
        c \<leftarrow> idle_erase c n;
        let n = n\<lparr>c_iter := None\<rparr>;
        (if c_obs_iter n \<noteq> None then do {
           check (c_need_update n);
           c \<leftarrow> obs_erase c n;
           Some (set_node c k (n\<lparr>c_obs_iter := None\<rparr>))
         } else Some (set_node c k n))
      })
   }"

definition put_change :: "('h, 'k, 'v) cache \<Rightarrow> int \<Rightarrow> 'k \<Rightarrow> ('h, 'k, 'v) cache option" where
  "put_change c now k = do {
     n0 \<leftarrow> map_of (cmap c) k;
     let n = n0\<lparr>c_inst := c_inst n0 - 1\<rparr>;
     (if c_inst n > 0 then Some (set_node c k n)
      else do {
        let a = next_handle c;
        let (n, c) =
          (if c_persistent n \<or> now - c_time n \<ge> threshold_time
           then (n\<lparr>c_persistent := True, c_iter := Some a\<rparr>, c\<lparr>q_persistent := q_persistent c @ [(a, k)], next_handle := a + 1\<rparr>)
           else (n\<lparr>c_iter := Some a\<rparr>, c\<lparr>q_temporary := q_temporary c @ [(a, k)], next_handle := a + 1\<rparr>));
        (if c_need_update n then do {
           check (c_obs_iter n = None);
           let b = next_handle c;
           Some (set_node (c\<lparr>q_obsolete := q_obsolete c @ [(b, k)], next_handle := b + 1\<rparr>) k (n\<lparr>c_obs_iter := Some b\<rparr>))
         } else Some (set_node c k n))
      })
   }"

text \<open>
  The three loops of \<open>reserve_space\<close>. Each visits the nodes of its queue in order and erases only
  the one it is at, so the nodes still to come are those of the queue when the loop starts.
\<close>

fun drop_clean :: "('h, 'k, 'v) helper_fns \<Rightarrow> 'k \<Rightarrow> 'k queue \<Rightarrow> ('h, 'k, 'v) cache \<Rightarrow> (unit, ('h, 'k, 'v) cache) outcome" where
  "drop_clean H key [] c = Ok () c"
| "drop_clean H key ((a, k) # it) c =
     (if can_create H c key then Ok () c
      else (case map_of (cmap c) k of None \<Rightarrow> Stuck
        | Some n \<Rightarrow>
            if \<not> c_need_update n then
              then_do (sure (do { q \<leftarrow> q_erase (q_temporary c) (Some a); Some (c\<lparr>q_temporary := q\<rparr>) }))
                (\<lambda>_ c. drop_clean H key it (map_erase H (node_release H c k (c_value n)) k))
            else drop_clean H key it c))"

fun drop_obsolete :: "('h, 'k, 'v) helper_fns \<Rightarrow> 'k \<Rightarrow> 'k queue \<Rightarrow> ('h, 'k, 'v) cache \<Rightarrow> (unit, ('h, 'k, 'v) cache) outcome" where
  "drop_obsolete H key [] c = Ok () c"
| "drop_obsolete H key ((a, k) # it) c =
     (if can_create H c key then Ok () c
      else (case map_of (cmap c) k of None \<Rightarrow> Stuck
        | Some n \<Rightarrow>
            if \<not> c_need_update n then Stuck
            else then_do (node_update H c k (c_value n)) (\<lambda>_ c.
              then_do (sure (do {
                  c \<leftarrow> obs_erase (node_release H c k (c_value n)) n;
                  q \<leftarrow> q_erase (q_temporary c) (Some a);
                  Some (c\<lparr>q_temporary := q\<rparr>) }))
                (\<lambda>_ c. drop_obsolete H key it (map_erase H c k)))))"

fun drop_persistent :: "('h, 'k, 'v) helper_fns \<Rightarrow> 'k \<Rightarrow> 'k queue \<Rightarrow> ('h, 'k, 'v) cache \<Rightarrow> (unit, ('h, 'k, 'v) cache) outcome" where
  "drop_persistent H key [] c = Ok () c"
| "drop_persistent H key ((a, k) # it) c =
     (if can_create H c key then Ok () c
      else (case map_of (cmap c) k of None \<Rightarrow> Stuck
        | Some n \<Rightarrow>
            then_do (if c_need_update n
                     then then_do (node_update H c k (c_value n)) (\<lambda>_ c. sure (obs_erase c n))
                     else Ok () c)
              (\<lambda>_ c. then_do (sure (do {
                  q \<leftarrow> q_erase (q_persistent c) (Some a);
                  Some ((node_release H c k (c_value n))\<lparr>q_persistent := q\<rparr>) }))
                (\<lambda>_ c. drop_persistent H key it (map_erase H c k)))))"

definition reserve_space :: "('h, 'k, 'v) helper_fns \<Rightarrow> ('h, 'k, 'v) cache \<Rightarrow> 'k \<Rightarrow> (unit, ('h, 'k, 'v) cache) outcome" where
  "reserve_space H c key =
     (if can_create H c key then Ok () c
      else then_do (drop_clean H key (q_temporary c) c) (\<lambda>_ c.
        if can_create H c key then Ok () c
        else then_do (drop_obsolete H key (q_temporary c) c) (\<lambda>_ c.
          if can_create H c key then Ok () c
          else then_do (drop_persistent H key (q_persistent c) c) (\<lambda>_ c.
            if can_create H c key then Ok () c else Throw c))))"

text \<open>\<open>get\<close> returns a pointer to the value of the key; the clock reading is an argument.\<close>

definition cache_get :: "('h, 'k, 'v) helper_fns \<Rightarrow> ('h, 'k, 'v) cache \<Rightarrow> int \<Rightarrow> 'k \<Rightarrow> (unit, ('h, 'k, 'v) cache) outcome" where
  "cache_get H c now key =
     (if map_of (cmap c) key \<noteq> None then sure (get_change c key)
      else then_do (reserve_space H c key) (\<lambda>_ c.
        case h_create H (helper c) key of None \<Rightarrow> Throw c
        | Some (v, h) \<Rightarrow> Ok () (set_node (c\<lparr>helper := h\<rparr>) key
            \<lparr>c_value = v, c_need_update = False, c_persistent = False, c_inst = 1, c_time = now,
             c_iter = None, c_obs_iter = None\<rparr>)))"

definition cache_put :: "('h, 'k, 'v) cache \<Rightarrow> int \<Rightarrow> 'k \<Rightarrow> bool \<Rightarrow> ('h, 'k, 'v) cache option" where
  "cache_put c now key need = do {
     n \<leftarrow> map_of (cmap c) key;
     put_change (if need then set_node c key (n\<lparr>c_need_update := True\<rparr>) else c) now key
   }"

text \<open>One entry of \<open>update_one\<close> and of the loops of \<open>update_all\<close> and \<open>update_all_with_order\<close>.\<close>

definition update_node :: "('h, 'k, 'v) helper_fns \<Rightarrow> ('h, 'k, 'v) cache \<Rightarrow> 'k \<Rightarrow> (unit, ('h, 'k, 'v) cache) outcome" where
  "update_node H c k =
     (case map_of (cmap c) k of None \<Rightarrow> Stuck
      | Some n \<Rightarrow>
          if \<not> (c_need_update n \<and> c_inst n = 0) then Stuck
          else then_do (node_update H c k (c_value n))
            (\<lambda>_ c. Ok () (set_node c k (n\<lparr>c_need_update := False, c_obs_iter := None\<rparr>))))"

definition update_one :: "('h, 'k, 'v) helper_fns \<Rightarrow> ('h, 'k, 'v) cache \<Rightarrow> (unit, ('h, 'k, 'v) cache) outcome" where
  "update_one H c =
     (case q_obsolete c of [] \<Rightarrow> Ok () c
      | (a, k) # q \<Rightarrow>
          if map_option c_obs_iter (map_of (cmap c) k) \<noteq> Some (Some a) then Stuck
          else then_do (update_node H c k) (\<lambda>_ c. Ok () (c\<lparr>q_obsolete := q\<rparr>)))"

fun update_nodes :: "('h, 'k, 'v) helper_fns \<Rightarrow> 'k list \<Rightarrow> ('h, 'k, 'v) cache \<Rightarrow> (unit, ('h, 'k, 'v) cache) outcome" where
  "update_nodes H [] c = Ok () c"
| "update_nodes H (k # ks) c = then_do (update_node H c k) (\<lambda>_ c. update_nodes H ks c)"

definition update_all :: "('h, 'k, 'v) helper_fns \<Rightarrow> ('h, 'k, 'v) cache \<Rightarrow> (unit, ('h, 'k, 'v) cache) outcome" where
  "update_all H c = then_do (update_nodes H (map snd (q_obsolete c)) c) (\<lambda>_ c. Ok () (c\<lparr>q_obsolete := []\<rparr>))"

text \<open>\<open>std::sort\<close> with the comparison \<open>cmp\<close>, on the distinct keys of the queue.\<close>

fun insert_by :: "('k \<Rightarrow> 'k \<Rightarrow> bool) \<Rightarrow> 'k \<Rightarrow> 'k list \<Rightarrow> 'k list" where
  "insert_by cmp x [] = [x]"
| "insert_by cmp x (y # ys) = (if cmp y x then y # insert_by cmp x ys else x # y # ys)"

definition sort_by :: "('k \<Rightarrow> 'k \<Rightarrow> bool) \<Rightarrow> 'k list \<Rightarrow> 'k list" where
  "sort_by cmp xs = foldr (insert_by cmp) xs []"

definition update_all_with_order ::
  "('h, 'k, 'v) helper_fns \<Rightarrow> ('k \<Rightarrow> 'k \<Rightarrow> bool) \<Rightarrow> ('h, 'k, 'v) cache \<Rightarrow> (unit, ('h, 'k, 'v) cache) outcome" where
  "update_all_with_order H cmp c =
     then_do (update_nodes H (sort_by cmp (map snd (q_obsolete c))) c) (\<lambda>_ c. Ok () (c\<lparr>q_obsolete := []\<rparr>))"

text \<open>\<open>remove\<close> throws when the key is absent.\<close>

definition cache_remove :: "('h, 'k, 'v) helper_fns \<Rightarrow> ('h, 'k, 'v) cache \<Rightarrow> 'k \<Rightarrow> (unit, ('h, 'k, 'v) cache) outcome" where
  "cache_remove H c key =
     (case map_of (cmap c) key of None \<Rightarrow> Throw c
      | Some n \<Rightarrow>
          if c_inst n \<noteq> 0 then Stuck
          else then_do (if c_need_update n
                        then then_do (node_update H c key (c_value n))
                          (\<lambda>_ c. if c_obs_iter n = None then Stuck else sure (obs_erase c n))
                        else Ok () c)
            (\<lambda>_ c. then_do (sure (idle_erase (node_release H c key (c_value n)) n))
              (\<lambda>_ c. Ok () (map_erase H c key))))"

text \<open>
  \<open>erase\<close>: both of its compile-time tests, \<open>has_release_callable\<close> and \<open>has_erase_callable\<close>, ask whether
  the helper has a \<open>release(key, value)\<close>.
\<close>

definition cache_erase :: "('h, 'k, 'v) helper_fns \<Rightarrow> ('h, 'k, 'v) cache \<Rightarrow> 'k \<Rightarrow> (unit, ('h, 'k, 'v) cache) outcome" where
  "cache_erase H c key =
     (let has_release = h_release H \<noteq> None; has_erase = h_release H \<noteq> None;
          erase_key = (\<lambda>c. case h_erase H (helper c) key of None \<Rightarrow> Throw c | Some h \<Rightarrow> Ok () (c\<lparr>helper := h\<rparr>))
      in case map_of (cmap c) key of None \<Rightarrow> (if has_erase then erase_key c else Ok () c)
      | Some n \<Rightarrow>
          then_do (if has_release then Ok () (c\<lparr>helper := h_release_key H (helper c) key\<rparr>) else Ok () c) (\<lambda>_ c.
          then_do (if has_erase then erase_key c else Ok () c) (\<lambda>_ c.
          if c_inst n \<noteq> 0 then Stuck
          else then_do (if c_need_update n
                        then (if c_obs_iter n = None then Stuck else sure (obs_erase c n))
                        else Ok () c)
            (\<lambda>_ c. then_do (sure (idle_erase c n)) (\<lambda>_ c. Ok () (map_erase H c key))))))"

text \<open>The destructor; it terminates the process when a value is still held.\<close>

fun destroy_nodes :: "('h, 'k, 'v) helper_fns \<Rightarrow> ('k \<times> 'v cnode) list \<Rightarrow> ('h, 'k, 'v) cache \<Rightarrow> (unit, ('h, 'k, 'v) cache) outcome" where
  "destroy_nodes H [] c = Ok () c"
| "destroy_nodes H ((k, n) # ns) c =
     (if c_inst n \<noteq> 0 then Stuck
      else then_do (if c_need_update n then node_update H c k (c_value n) else Ok () c)
        (\<lambda>_ c. destroy_nodes H ns (node_release H c k (c_value n))))"

definition cache_destroy :: "('h, 'k, 'v) helper_fns \<Rightarrow> ('h, 'k, 'v) cache \<Rightarrow> (unit, ('h, 'k, 'v) cache) outcome" where
  "cache_destroy H c = destroy_nodes H (cmap c) c"

section \<open>The queues follow the nodes\<close>

text \<open>
  \<open>handle_of f m k\<close> is the iterator a node should have in a queue, and \<open>queue_ok\<close> says that a queue
  holds exactly the nodes that have one. \<open>cache_inv\<close> is the invariant: an idle node (no outstanding
  \<open>get\<close>) waits in the temporary or the persistent queue, and also in the obsolete queue when it
  must be written back; a node in use is in none.
\<close>

definition handle_of :: "('v cnode \<Rightarrow> nat option) \<Rightarrow> ('k \<times> 'v cnode) list \<Rightarrow> 'k \<Rightarrow> nat option" where
  "handle_of f m k = (case map_of m k of None \<Rightarrow> None | Some n \<Rightarrow> f n)"

definition in_temporary :: "'v cnode \<Rightarrow> nat option" where
  "in_temporary n = (if c_persistent n then None else c_iter n)"

definition in_persistent :: "'v cnode \<Rightarrow> nat option" where
  "in_persistent n = (if c_persistent n then c_iter n else None)"

definition queue_ok :: "'k queue \<Rightarrow> ('k \<Rightarrow> nat option) \<Rightarrow> nat \<Rightarrow> bool" where
  "queue_ok q sel lim \<longleftrightarrow> distinct (map fst q) \<and> (\<forall>a k. (a, k) \<in> set q \<longleftrightarrow> sel k = Some a) \<and> (\<forall>a \<in> fst ` set q. a < lim)"

definition node_ok :: "'v cnode \<Rightarrow> bool" where
  "node_ok n \<longleftrightarrow> (c_iter n \<noteq> None \<longleftrightarrow> c_inst n = 0) \<and> (c_obs_iter n \<noteq> None \<longleftrightarrow> c_inst n = 0 \<and> c_need_update n)"

definition cache_inv :: "('h, 'k, 'v) cache \<Rightarrow> bool" where
  "cache_inv c \<longleftrightarrow> distinct (map fst (cmap c)) \<and> (\<forall>k n. map_of (cmap c) k = Some n \<longrightarrow> node_ok n) \<and>
     queue_ok (q_temporary c) (handle_of in_temporary (cmap c)) (next_handle c) \<and>
     queue_ok (q_persistent c) (handle_of in_persistent (cmap c)) (next_handle c) \<and>
     queue_ok (q_obsolete c) (handle_of c_obs_iter (cmap c)) (next_handle c)"

lemma handle_of_update [simp]: "handle_of f (AList.update k n m) = (handle_of f m)(k := f n)"
  by (auto simp: handle_of_def update_conv')

lemma handle_of_delete [simp]: "handle_of f (AList.delete k m) = (handle_of f m)(k := None)"
  by (auto simp: handle_of_def delete_conv')

lemma handle_of_node: "map_of m k = Some n \<Longrightarrow> handle_of f m k = f n"
  by (simp add: handle_of_def)

lemma handle_of_new: "map_of m k = None \<Longrightarrow> handle_of f m k = None"
  by (simp add: handle_of_def)

lemma queue_ok_same: "queue_ok q sel lim \<Longrightarrow> sel k = h \<Longrightarrow> queue_ok q (sel(k := h)) lim"
  by (metis fun_upd_triv)

lemma queue_ok_mono: "queue_ok q sel lim \<Longrightarrow> lim \<le> lim' \<Longrightarrow> queue_ok q sel lim'"
  unfolding queue_ok_def by fastforce

lemma queue_ok_push:
  assumes "queue_ok q sel lim" "sel k = None" "lim \<le> a" "a < lim'"
  shows "queue_ok (q @ [(a, k)]) (sel(k := Some a)) lim'"
proof -
  have a: "a \<notin> fst ` set q"
    using assms(1,3) by (auto simp: queue_ok_def)
  have "(b, k') \<in> set (q @ [(a, k)]) \<longleftrightarrow> (sel(k := Some a)) k' = Some b" for b k'
    using assms(1,2) by (cases "k' = k") (auto simp: queue_ok_def)
  moreover have "\<forall>b \<in> fst ` set (q @ [(a, k)]). b < lim'"
    using assms(1,3,4) unfolding queue_ok_def by fastforce
  ultimately show ?thesis
    using assms(1) a by (simp add: queue_ok_def)
qed

lemma queue_ok_handle: "queue_ok q sel lim \<Longrightarrow> (a, k) \<in> set q \<longleftrightarrow> sel k = Some a"
  by (simp add: queue_ok_def)

lemma queue_ok_key_inj: "queue_ok q sel lim \<Longrightarrow> (a, k) \<in> set q \<Longrightarrow> (a, k') \<in> set q \<Longrightarrow> k = k'"
  unfolding queue_ok_def by (metis eq_key_imp_eq_value)

lemma queue_ok_distinct_keys: "queue_ok q sel lim \<Longrightarrow> distinct (map snd q)"
  unfolding queue_ok_def distinct_map
  by (auto simp: inj_on_def distinct_map)

lemma filter_handle:
  assumes "queue_ok q sel lim" "sel k = Some a"
  shows "filter (\<lambda>x. fst x \<noteq> a) q = filter (\<lambda>x. snd x \<noteq> k) q"
proof (rule filter_cong [OF refl])
  fix x assume "x \<in> set q"
  then show "fst x \<noteq> a \<longleftrightarrow> snd x \<noteq> k"
    using assms queue_ok_key_inj [OF assms(1), of a k "snd x"] queue_ok_handle [OF assms(1)]
    by (metis option.inject prod.collapse)
qed

lemma q_erase_ok:
  assumes "queue_ok q sel lim" "sel k = Some a"
  shows "q_erase q (Some a) = Some (filter (\<lambda>x. snd x \<noteq> k) q)"
    "queue_ok (filter (\<lambda>x. snd x \<noteq> k) q) (sel(k := None)) lim"
proof -
  have "(a, k) \<in> set q"
    using assms by (simp add: queue_ok_def)
  then have "a \<in> fst ` set q"
    by force
  then show "q_erase q (Some a) = Some (filter (\<lambda>x. snd x \<noteq> k) q)"
    using filter_handle [OF assms] by (simp add: q_erase_def)
  show "queue_ok (filter (\<lambda>x. snd x \<noteq> k) q) (sel(k := None)) lim"
    using assms(1) by (auto simp: queue_ok_def distinct_map_filter)
qed

lemma q_erase_none: "q_erase q None = Some q"
  by (simp add: q_erase_def)

lemma filter_absent:
  assumes "queue_ok q sel lim" "sel k = None"
  shows "filter (\<lambda>x. snd x \<noteq> k) q = q"
  using assms by (auto simp: queue_ok_def filter_id_conv)

section \<open>Every operation keeps the invariant\<close>

lemma cache_invD:
  assumes "cache_inv c"
  shows "distinct (map fst (cmap c))" "map_of (cmap c) k = Some n \<Longrightarrow> node_ok n"
    "queue_ok (q_temporary c) (handle_of in_temporary (cmap c)) (next_handle c)"
    "queue_ok (q_persistent c) (handle_of in_persistent (cmap c)) (next_handle c)"
    "queue_ok (q_obsolete c) (handle_of c_obs_iter (cmap c)) (next_handle c)"
  using assms unfolding cache_inv_def by blast+

lemma cache_inv_helper [simp]: "cache_inv (c\<lparr>helper := h\<rparr>) \<longleftrightarrow> cache_inv c"
  by (simp add: cache_inv_def)

lemma distinct_keys_update: "distinct (map fst m) \<Longrightarrow> distinct (map fst (AList.update k n m))"
  by (rule distinct_update)

lemma distinct_keys_delete: "distinct (map fst m) \<Longrightarrow> distinct (map fst (AList.delete k m))"
  by (simp add: distinct_delete)

lemma nodes_ok_update: "\<forall>k n. map_of m k = Some n \<longrightarrow> node_ok n \<Longrightarrow> node_ok n' \<Longrightarrow>
    \<forall>k n. map_of (AList.update k' n' m) k = Some n \<longrightarrow> node_ok n"
  by (simp add: update_conv')

lemma nodes_ok_delete: "\<forall>k n. map_of m k = Some n \<longrightarrow> node_ok n \<Longrightarrow>
    \<forall>k n. map_of (AList.delete k' m) k = Some n \<longrightarrow> node_ok n"
  by (simp add: delete_conv')

text \<open>Taking an idle node out of its queues, as \<open>get_change\<close> and the evictions do.\<close>

definition without :: "'k \<Rightarrow> 'k queue \<Rightarrow> 'k queue" where
  "without k q = filter (\<lambda>x. snd x \<noteq> k) q"

definition unqueue :: "('h, 'k, 'v) cache \<Rightarrow> 'k \<Rightarrow> ('h, 'k, 'v) cache" where
  "unqueue c k = c\<lparr>q_temporary := without k (q_temporary c), q_persistent := without k (q_persistent c),
     q_obsolete := without k (q_obsolete c)\<rparr>"

lemma without_queue_ok: "queue_ok q sel lim \<Longrightarrow> queue_ok (without k q) (sel(k := None)) lim"
  by (auto simp: without_def queue_ok_def distinct_map_filter)

lemma without_absent: "queue_ok q sel lim \<Longrightarrow> sel k = None \<Longrightarrow> without k q = q"
  unfolding without_def by (rule filter_absent)

lemma idle_erase_ok:
  assumes "cache_inv c" "map_of (cmap c) k = Some n0" "c_inst n0 = 0"
    and "c_iter n = c_iter n0" "c_persistent n = c_persistent n0"
  shows "idle_erase c n = Some (c\<lparr>q_temporary := without k (q_temporary c), q_persistent := without k (q_persistent c)\<rparr>)"
proof -
  note i = cache_invD [OF assms(1)]
  obtain a where a: "c_iter n0 = Some a"
    using i(2) [OF assms(2)] assms(3) by (auto simp: node_ok_def)
  show ?thesis
  proof (cases "c_persistent n0")
    case True
    then have "handle_of in_persistent (cmap c) k = Some a" "handle_of in_temporary (cmap c) k = None"
      using assms(2) a by (simp_all add: handle_of_def in_persistent_def in_temporary_def)
    then show ?thesis
      using q_erase_ok(1) [OF i(4)] without_absent [OF i(3)] True assms(4,5) a
      by (simp add: idle_erase_def check_def without_def)
  next
    case False
    then have "handle_of in_temporary (cmap c) k = Some a" "handle_of in_persistent (cmap c) k = None"
      using assms(2) a by (simp_all add: handle_of_def in_persistent_def in_temporary_def)
    then show ?thesis
      using q_erase_ok(1) [OF i(3)] without_absent [OF i(4)] False assms(4,5) a
      by (simp add: idle_erase_def check_def without_def)
  qed
qed

lemma obs_erase_ok:
  assumes "queue_ok (q_obsolete c) (handle_of c_obs_iter (cmap c)) lim" "map_of (cmap c) k = Some n0"
    and "c_obs_iter n = c_obs_iter n0"
  shows "obs_erase c n = Some (c\<lparr>q_obsolete := without k (q_obsolete c)\<rparr>)"
proof (cases "c_obs_iter n0")
  case None
  then have "handle_of c_obs_iter (cmap c) k = None"
    using assms(2) by (simp add: handle_of_def)
  then show ?thesis
    using None assms(3) without_absent [OF assms(1)] by (simp add: obs_erase_def q_erase_none)
next
  case (Some b)
  then have "handle_of c_obs_iter (cmap c) k = Some b"
    using assms(2) by (simp add: handle_of_def)
  then show ?thesis
    using Some assms(3) q_erase_ok(1) [OF assms(1)] by (simp add: obs_erase_def without_def)
qed

lemma inc_above_one: "x \<noteq> 0 \<Longrightarrow> x + 1 \<noteq> 0 \<Longrightarrow> 1 < x + (1 :: 32 word)"
  using unatSuc [of x] by (simp add: word_less_nat_alt add.commute unat_gt_0)

lemma get_change_ok:
  assumes "cache_inv c" "map_of (cmap c) k = Some n" "c_inst n + 1 \<noteq> 0"
  shows "get_change c k = Some (set_node (if c_inst n = 0 then unqueue c k else c) k
    (if c_inst n = 0 then n\<lparr>c_inst := 1, c_iter := None, c_obs_iter := None\<rparr> else n\<lparr>c_inst := c_inst n + 1\<rparr>))"
proof (cases "c_inst n = 0")
  case True
  note i = cache_invD [OF assms(1)]
  let ?n = "n\<lparr>c_inst := 1\<rparr>"
  have idle: "idle_erase c ?n = Some (c\<lparr>q_temporary := without k (q_temporary c), q_persistent := without k (q_persistent c)\<rparr>)"
    by (rule idle_erase_ok [OF assms(1,2) True]) simp_all
  have ok: "node_ok n"
    by (rule i(2) [OF assms(2)])
  show ?thesis
  proof (cases "c_obs_iter n")
    case None
    then have "without k (q_obsolete c) = q_obsolete c"
      using without_absent [OF i(5), of k] assms(2) by (simp add: handle_of_def)
    then show ?thesis
      using assms(2) True idle None by (cases n) (simp add: get_change_def Let_def unqueue_def)
  next
    case (Some b)
    let ?c = "c\<lparr>q_temporary := without k (q_temporary c), q_persistent := without k (q_persistent c)\<rparr>"
    have "obs_erase ?c (?n\<lparr>c_iter := None\<rparr>) = Some (?c\<lparr>q_obsolete := without k (q_obsolete c)\<rparr>)"
      using obs_erase_ok [of ?c "next_handle c" k n "?n\<lparr>c_iter := None\<rparr>"] i(5) assms(2) by simp
    moreover have "c_need_update n"
      using ok Some by (simp add: node_ok_def)
    ultimately show ?thesis
      using assms(2) True idle Some by (simp add: get_change_def Let_def unqueue_def check_def)
  qed
next
  case False
  then have "c_inst n + 1 > 1"
    by (intro inc_above_one assms(3))
  then show ?thesis
    using assms(2) False by (simp add: get_change_def Let_def)
qed


lemma set_node_sel [simp]: "helper (set_node c k n) = helper c" "cmap (set_node c k n) = AList.update k n (cmap c)"
  "q_temporary (set_node c k n) = q_temporary c" "q_persistent (set_node c k n) = q_persistent c"
  "q_obsolete (set_node c k n) = q_obsolete c" "next_handle (set_node c k n) = next_handle c"
  by (simp_all add: set_node_def)

lemma unqueue_sel [simp]: "helper (unqueue c k) = helper c" "cmap (unqueue c k) = cmap c"
  "q_temporary (unqueue c k) = without k (q_temporary c)" "q_persistent (unqueue c k) = without k (q_persistent c)"
  "q_obsolete (unqueue c k) = without k (q_obsolete c)" "next_handle (unqueue c k) = next_handle c"
  by (simp_all add: unqueue_def)

text \<open>Two ways to keep the invariant: a node in no queue after \<open>unqueue\<close>, and a change of queues.\<close>

lemma cache_inv_busy:
  assumes "cache_inv c" "node_ok n" "c_inst n \<noteq> 0"
  shows "cache_inv (set_node (unqueue c k) k n)"
proof -
  note i = cache_invD [OF assms(1)]
  have "in_temporary n = None" "in_persistent n = None" "c_obs_iter n = None"
    using assms(2,3) by (auto simp: node_ok_def in_temporary_def in_persistent_def)
  then show ?thesis
    using i(1) nodes_ok_update [of "cmap c" n k] i(2) assms(2) without_queue_ok [OF i(3)] without_queue_ok [OF i(4)]
      without_queue_ok [OF i(5)]
    by (simp add: cache_inv_def distinct_update)
qed

lemma cache_inv_set:
  assumes "cache_inv c" "node_ok n" "in_temporary n = handle_of in_temporary (cmap c) k"
    and "in_persistent n = handle_of in_persistent (cmap c) k" "c_obs_iter n = handle_of c_obs_iter (cmap c) k"
  shows "cache_inv (set_node c k n)"
proof -
  note i = cache_invD [OF assms(1)]
  show ?thesis
    using i(1) nodes_ok_update [of "cmap c" n k] i(2) assms(2) queue_ok_same [OF i(3), of k] queue_ok_same [OF i(4), of k]
      queue_ok_same [OF i(5), of k]
    by (simp add: cache_inv_def distinct_update assms(3-5))
qed

lemma get_change_inv:
  assumes "cache_inv c" "map_of (cmap c) k = Some n" "c_inst n + 1 \<noteq> 0" "get_change c k = Some c'"
  shows "cache_inv c'"
proof (cases "c_inst n = 0")
  case True
  then have "c' = set_node (unqueue c k) k (n\<lparr>c_inst := 1, c_iter := None, c_obs_iter := None\<rparr>)"
    using get_change_ok [OF assms(1-3)] assms(4) by simp
  then show ?thesis
    using cache_inv_busy [OF assms(1)] by (simp add: node_ok_def)
next
  case False
  then have "c' = set_node c k (n\<lparr>c_inst := c_inst n + 1\<rparr>)"
    using get_change_ok [OF assms(1-3)] assms(4) by simp
  moreover have "node_ok n"
    using cache_invD(2) [OF assms(1,2)] .
  ultimately show ?thesis
    using False assms(2,3) by (auto intro!: cache_inv_set [OF assms(1)]
      simp: node_ok_def handle_of_def in_temporary_def in_persistent_def)
qed

lemma busy_not_queued:
  assumes "cache_inv c" "map_of (cmap c) k = Some n" "c_inst n \<noteq> 0"
  shows "handle_of in_temporary (cmap c) k = None" "handle_of in_persistent (cmap c) k = None"
    "handle_of c_obs_iter (cmap c) k = None"
  using cache_invD(2) [OF assms(1,2)] assms(2,3)
  by (auto simp: node_ok_def handle_of_def in_temporary_def in_persistent_def)

text \<open>\<open>put_change\<close>: the last \<open>put\<close> of a key queues its node again.\<close>

definition put_node :: "('h, 'k, 'v) cache \<Rightarrow> int \<Rightarrow> 'v cnode \<Rightarrow> 'v cnode" where
  "put_node c now n = n\<lparr>c_inst := 0, c_persistent := c_persistent n \<or> now - c_time n \<ge> threshold_time,
     c_iter := Some (next_handle c), c_obs_iter := (if c_need_update n then Some (next_handle c + 1) else None)\<rparr>"

definition requeue :: "('h, 'k, 'v) cache \<Rightarrow> 'k \<Rightarrow> 'v cnode \<Rightarrow> ('h, 'k, 'v) cache" where
  "requeue c k n =
     (let a = next_handle c
      in c\<lparr>q_temporary := q_temporary c @ (if c_persistent n then [] else [(a, k)]),
           q_persistent := q_persistent c @ (if c_persistent n then [(a, k)] else []),
           q_obsolete := q_obsolete c @ (if c_need_update n then [(a + 1, k)] else []),
           next_handle := (if c_need_update n then a + 2 else a + 1)\<rparr>)"

lemma put_node_sel:
  "in_temporary (put_node c now n) = (if c_persistent (put_node c now n) then None else Some (next_handle c))"
  "in_persistent (put_node c now n) = (if c_persistent (put_node c now n) then Some (next_handle c) else None)"
  "c_obs_iter (put_node c now n) = (if c_need_update n then Some (next_handle c + 1) else None)"
  "c_need_update (put_node c now n) = c_need_update n"
  by (simp_all add: put_node_def in_temporary_def in_persistent_def)

lemma put_change_ok:
  assumes "cache_inv c" "map_of (cmap c) k = Some n" "c_inst n \<noteq> 0"
  shows "put_change c now k = Some (if c_inst n = 1
    then set_node (requeue c k (put_node c now n)) k (put_node c now n)
    else set_node c k (n\<lparr>c_inst := c_inst n - 1\<rparr>))"
proof (cases "c_inst n = 1")
  case True
  have ok: "c_obs_iter n = None"
    using cache_invD(2) [OF assms(1,2)] assms(3) by (auto simp: node_ok_def)
  show ?thesis
    using assms(2) True ok
    by (cases n; cases c) (auto simp: put_change_def Let_def requeue_def put_node_def set_node_def check_def)
next
  case False
  then have "c_inst n - 1 > 0"
    by (simp add: word_gt_0)
  then show ?thesis
    using assms(2) False by (simp add: put_change_def Let_def)
qed

lemma put_change_inv:
  assumes "cache_inv c" "map_of (cmap c) k = Some n" "c_inst n \<noteq> 0" "put_change c now k = Some c'"
  shows "cache_inv c'"
proof (cases "c_inst n = 1")
  case True
  note i = cache_invD [OF assms(1)]
  note none = busy_not_queued [OF assms(1-3)]
  let ?n = "put_node c now n"
  have c': "c' = set_node (requeue c k ?n) k ?n"
    using put_change_ok [OF assms(1-3), of now] assms(4) True by simp
  have ok: "node_ok ?n"
    by (simp add: node_ok_def put_node_def)
  have "queue_ok (q_temporary c') (handle_of in_temporary (cmap c')) (next_handle c')"
    using none(1) queue_ok_push [OF i(3) none(1), of "next_handle c" "next_handle c'"]
      queue_ok_same [OF queue_ok_mono [OF i(3)] none(1), of "next_handle c'"]
    by (auto simp: c' requeue_def Let_def put_node_sel)
  moreover have "queue_ok (q_persistent c') (handle_of in_persistent (cmap c')) (next_handle c')"
    using none(2) queue_ok_push [OF i(4) none(2), of "next_handle c" "next_handle c'"]
      queue_ok_same [OF queue_ok_mono [OF i(4)] none(2), of "next_handle c'"]
    by (auto simp: c' requeue_def Let_def put_node_sel)
  moreover have "queue_ok (q_obsolete c') (handle_of c_obs_iter (cmap c')) (next_handle c')"
    using none(3) queue_ok_push [OF i(5) none(3), of "next_handle c + 1" "next_handle c'"]
      queue_ok_same [OF queue_ok_mono [OF i(5)] none(3), of "next_handle c'"]
    by (auto simp: c' requeue_def Let_def put_node_sel)
  ultimately show ?thesis
    using i(1) nodes_ok_update [of "cmap c" ?n k] i(2) ok by (simp add: cache_inv_def c' distinct_update requeue_def Let_def)
next
  case False
  then have c': "c' = set_node c k (n\<lparr>c_inst := c_inst n - 1\<rparr>)"
    using put_change_ok [OF assms(1-3), of now] assms(4) by simp
  have "node_ok n"
    using cache_invD(2) [OF assms(1,2)] .
  then show ?thesis
    using False assms(2,3) unfolding c' by (auto intro!: cache_inv_set [OF assms(1)]
      simp: node_ok_def handle_of_def in_temporary_def in_persistent_def)
qed

text \<open>Marking a node in use for write-back.\<close>

lemma mark_inv:
  assumes "cache_inv c" "map_of (cmap c) k = Some n" "c_inst n \<noteq> 0"
  shows "cache_inv (set_node c k (n\<lparr>c_need_update := b\<rparr>))"
  using cache_invD(2) [OF assms(1,2)] assms(2,3)
  by (auto intro!: cache_inv_set [OF assms(1)] simp: node_ok_def handle_of_def in_temporary_def in_persistent_def)

text \<open>Eviction of an idle node: out of its queues and out of the map.\<close>

definition evict :: "('h, 'k, 'v) cache \<Rightarrow> 'k \<Rightarrow> ('h, 'k, 'v) cache" where
  "evict c k = (unqueue c k)\<lparr>cmap := AList.delete k (cmap c)\<rparr>"

lemma evict_inv:
  assumes "cache_inv c"
  shows "cache_inv (evict c k)"
proof -
  note i = cache_invD [OF assms]
  show ?thesis
    using i(1) nodes_ok_delete [of "cmap c" k] i(2) without_queue_ok [OF i(3)] without_queue_ok [OF i(4)]
      without_queue_ok [OF i(5)]
    by (simp add: evict_def cache_inv_def distinct_delete)
qed

section \<open>Making room\<close>

text \<open>
  \<open>discard\<close> is one eviction with the calls to the helper it makes. \<open>evicts\<close> is any sequence of
  them: clean idle nodes are dropped, obsolete ones written back first.
\<close>

definition rel_helper :: "('h, 'k, 'v) helper_fns \<Rightarrow> 'h \<Rightarrow> 'k \<Rightarrow> 'v \<Rightarrow> 'h" where
  "rel_helper H h k v = (case h_release H of None \<Rightarrow> h | Some rel \<Rightarrow> rel h k v)"

definition discard :: "('h, 'k, 'v) helper_fns \<Rightarrow> ('h, 'k, 'v) cache \<Rightarrow> 'k \<Rightarrow> 'v cnode \<Rightarrow> ('h, 'k, 'v) cache" where
  "discard H c k n = (evict c k)\<lparr>helper := h_drop H (rel_helper H (helper c) k (c_value n)) (c_value n)\<rparr>"

inductive evicts :: "('h, 'k, 'v) helper_fns \<Rightarrow> ('h, 'k, 'v) cache \<Rightarrow> ('h, 'k, 'v) cache \<Rightarrow> bool" for H c where
  evicts_none: "evicts H c c"
| evicts_clean: "evicts H c d \<Longrightarrow> map_of (cmap d) k = Some n \<Longrightarrow> c_inst n = 0 \<Longrightarrow> \<not> c_need_update n \<Longrightarrow>
    evicts H c (discard H d k n)"
| evicts_dirty: "evicts H c d \<Longrightarrow> map_of (cmap d) k = Some n \<Longrightarrow> c_inst n = 0 \<Longrightarrow>
    h_update H (helper d) k (c_value n) = Some h \<Longrightarrow> evicts H c (discard H (d\<lparr>helper := h\<rparr>) k n)"

lemma node_release_eq: "node_release H c k v = c\<lparr>helper := rel_helper H (helper c) k v\<rparr>"
  by (simp add: node_release_def rel_helper_def split: option.splits)

lemma cache_upd_order:
  "c\<lparr>q_obsolete := x, q_temporary := y\<rparr> = c\<lparr>q_temporary := y, q_obsolete := x\<rparr>"
  "c\<lparr>q_obsolete := x, q_persistent := y\<rparr> = c\<lparr>q_persistent := y, q_obsolete := x\<rparr>"
  by (cases c; simp)+

lemma discard_sel [simp]: "cmap (discard H c k n) = AList.delete k (cmap c)"
  "q_temporary (discard H c k n) = without k (q_temporary c)" "q_persistent (discard H c k n) = without k (q_persistent c)"
  "q_obsolete (discard H c k n) = without k (q_obsolete c)" "next_handle (discard H c k n) = next_handle c"
  by (simp_all add: discard_def evict_def)

lemma discard_inv [simp]: "cache_inv c \<Longrightarrow> cache_inv (discard H c k n)"
  by (simp add: discard_def evict_inv)

lemma evicts_inv: "evicts H c d \<Longrightarrow> cache_inv c \<Longrightarrow> cache_inv d"
  by (induction rule: evicts.induct) simp_all

lemma without_mem: "(a, k') \<in> set (without k q) \<longleftrightarrow> (a, k') \<in> set q \<and> k' \<noteq> k"
  by (simp add: without_def)

lemma evicts_queues:
  "evicts H c d \<Longrightarrow> set (q_temporary d) \<subseteq> set (q_temporary c) \<and> set (q_persistent d) \<subseteq> set (q_persistent c)"
  by (induction rule: evicts.induct) (auto simp: without_mem)

text \<open>With both idle queues empty every node is in use.\<close>

lemma queues_empty_busy:
  assumes "cache_inv c" "q_temporary c = []" "q_persistent c = []" "map_of (cmap c) k = Some n"
  shows "c_inst n \<noteq> 0"
proof
  assume "c_inst n = 0"
  then obtain a where "c_iter n = Some a"
    using cache_invD(2) [OF assms(1,4)] by (auto simp: node_ok_def)
  then show False
    using queue_ok_handle [OF cache_invD(3) [OF assms(1)], of a k] queue_ok_handle [OF cache_invD(4) [OF assms(1)], of a k]
      assms(2-4) by (cases "c_persistent n") (simp_all add: handle_of_def in_temporary_def in_persistent_def)
qed

lemma temporary_node:
  assumes "cache_inv c" "(a, k) \<in> set (q_temporary c)"
  obtains n where "map_of (cmap c) k = Some n" "c_inst n = 0" "\<not> c_persistent n" "c_iter n = Some a"
    "c_obs_iter n \<noteq> None \<longleftrightarrow> c_need_update n"
proof -
  have "handle_of in_temporary (cmap c) k = Some a"
    using queue_ok_handle [OF cache_invD(3) [OF assms(1)]] assms(2) by blast
  then obtain n where n: "map_of (cmap c) k = Some n" "\<not> c_persistent n" "c_iter n = Some a"
    by (auto simp: handle_of_def in_temporary_def split: option.splits if_splits)
  then show thesis
    using that cache_invD(2) [OF assms(1) n(1)] by (simp add: node_ok_def)
qed

lemma persistent_node:
  assumes "cache_inv c" "(a, k) \<in> set (q_persistent c)"
  obtains n where "map_of (cmap c) k = Some n" "c_inst n = 0" "c_persistent n" "c_iter n = Some a"
    "c_obs_iter n \<noteq> None \<longleftrightarrow> c_need_update n"
proof -
  have "handle_of in_persistent (cmap c) k = Some a"
    using queue_ok_handle [OF cache_invD(4) [OF assms(1)]] assms(2) by blast
  then obtain n where n: "map_of (cmap c) k = Some n" "c_persistent n" "c_iter n = Some a"
    by (auto simp: handle_of_def in_persistent_def split: option.splits if_splits)
  then show thesis
    using that cache_invD(2) [OF assms(1) n(1)] by (simp add: node_ok_def)
qed

lemma without_id:
  assumes "cache_inv c" "map_of (cmap c) k = Some n"
  shows "c_persistent n \<Longrightarrow> without k (q_temporary c) = q_temporary c"
    "\<not> c_persistent n \<Longrightarrow> without k (q_persistent c) = q_persistent c"
    "c_obs_iter n = None \<Longrightarrow> without k (q_obsolete c) = q_obsolete c"
proof -
  note i = cache_invD [OF assms(1)]
  show "c_persistent n \<Longrightarrow> without k (q_temporary c) = q_temporary c"
    by (rule without_absent [OF i(3)]) (simp add: handle_of_node [OF assms(2)] in_temporary_def)
  show "\<not> c_persistent n \<Longrightarrow> without k (q_persistent c) = q_persistent c"
    by (rule without_absent [OF i(4)]) (simp add: handle_of_node [OF assms(2)] in_persistent_def)
  show "c_obs_iter n = None \<Longrightarrow> without k (q_obsolete c) = q_obsolete c"
    by (rule without_absent [OF i(5)]) (simp add: handle_of_node [OF assms(2)])
qed

lemma erase_queues:
  assumes "cache_inv c" "map_of (cmap c) k = Some n"
  shows "c_iter n = Some a \<Longrightarrow> \<not> c_persistent n \<Longrightarrow> q_erase (q_temporary c) (Some a) = Some (without k (q_temporary c))"
    "c_iter n = Some a \<Longrightarrow> c_persistent n \<Longrightarrow> q_erase (q_persistent c) (Some a) = Some (without k (q_persistent c))"
proof -
  note i = cache_invD [OF assms(1)]
  show "c_iter n = Some a \<Longrightarrow> \<not> c_persistent n \<Longrightarrow> q_erase (q_temporary c) (Some a) = Some (without k (q_temporary c))"
    unfolding without_def by (rule q_erase_ok(1) [OF i(3)]) (simp add: handle_of_node [OF assms(2)] in_temporary_def)
  show "c_iter n = Some a \<Longrightarrow> c_persistent n \<Longrightarrow> q_erase (q_persistent c) (Some a) = Some (without k (q_persistent c))"
    unfolding without_def by (rule q_erase_ok(1) [OF i(4)]) (simp add: handle_of_node [OF assms(2)] in_persistent_def)
qed

lemma evicts_step: "evicts H d e \<Longrightarrow> evicts H c d \<Longrightarrow> evicts H c e"
  by (induction rule: evicts.induct) (auto intro: evicts.intros)

text \<open>The first loop drops clean temporary nodes in order, until there is room.\<close>

lemma drop_clean_step:
  assumes "cache_inv c" "(a, k) \<in> set (q_temporary c)" "map_of (cmap c) k = Some n" "\<not> c_need_update n"
    and "\<not> can_create H c key"
  shows "drop_clean H key ((a, k) # it) c = drop_clean H key it (discard H c k n)"
proof -
  have n: "c_iter n = Some a" "\<not> c_persistent n" "c_obs_iter n = None"
    using temporary_node [OF assms(1,2)] assms(3,4) by auto
  show ?thesis
    using assms(3-5) erase_queues(1) [OF assms(1,3) n(1,2)] without_id(2,3) [OF assms(1,3)] n
    by (simp add: sure_def node_release_eq map_erase_def cache_upd_order discard_def evict_def unqueue_def)
qed

definition stale :: "('h, 'k, 'v) cache \<Rightarrow> 'k \<Rightarrow> bool" where
  "stale c k \<longleftrightarrow> (\<exists>n. map_of (cmap c) k = Some n \<and> c_need_update n)"

lemma stale_discard [simp]: "stale (discard H c k n) k' \<longleftrightarrow> k' \<noteq> k \<and> stale c k'"
  by (auto simp: stale_def delete_conv')

lemma drop_clean_ok:
  assumes "cache_inv c" "set it \<subseteq> set (q_temporary c)" "distinct (map snd it)"
    and "\<forall>(a, k) \<in> set (q_temporary c). k \<in> snd ` set it \<or> stale c k"
  shows "\<exists>d. drop_clean H key it c = Ok () d \<and> evicts H c d \<and>
    (can_create H d key \<or> (\<forall>(a, k) \<in> set (q_temporary d). stale d k))"
  using assms
proof (induction it arbitrary: c)
  case Nil
  then show ?case
    by (auto intro: evicts_none)
next
  case (Cons x it)
  obtain a k where x: "x = (a, k)"
    by (cases x)
  then have mem: "(a, k) \<in> set (q_temporary c)"
    using Cons.prems(2) by simp
  obtain n where n: "map_of (cmap c) k = Some n" "c_inst n = 0"
    using temporary_node [OF Cons.prems(1) mem] .
  show ?case
  proof (cases "can_create H c key")
    case True
    then show ?thesis
      using x by (auto intro: evicts_none)
  next
    case no_room: False
    show ?thesis
    proof (cases "c_need_update n")
      case True
      then have "stale c k"
        using n(1) by (simp add: stale_def)
      then have "\<forall>(a, k) \<in> set (q_temporary c). k \<in> snd ` set it \<or> stale c k"
        using Cons.prems(4) x by auto
      then show ?thesis
        using Cons.IH [OF Cons.prems(1)] Cons.prems(2,3) no_room n(1) True x by auto
    next
      case False
      let ?c = "discard H c k n"
      have "set it \<subseteq> set (q_temporary ?c)"
        using Cons.prems(2,3) x by (force simp: without_mem)
      moreover have "\<forall>(a, k) \<in> set (q_temporary ?c). k \<in> snd ` set it \<or> stale ?c k"
        using Cons.prems(4) x by (auto simp: without_mem)
      ultimately obtain d where d: "drop_clean H key it ?c = Ok () d" "evicts H ?c d"
        "can_create H d key \<or> (\<forall>(a, k) \<in> set (q_temporary d). stale d k)"
        using Cons.IH [of ?c] Cons.prems(1,3) by auto
      have "evicts H c d"
        using evicts_step [OF d(2) evicts_clean [OF evicts_none n False]] .
      then show ?thesis
        using d drop_clean_step [OF Cons.prems(1) mem n(1) False no_room] x by auto
    qed
  qed
qed

text \<open>The second writes back and drops the temporary nodes, all of them obsolete by now.\<close>

lemma drop_obsolete_step:
  assumes "cache_inv c" "(a, k) \<in> set (q_temporary c)" "map_of (cmap c) k = Some n" "c_need_update n"
    and "\<not> can_create H c key"
  shows "drop_obsolete H key ((a, k) # it) c =
    (case h_update H (helper c) k (c_value n) of None \<Rightarrow> Throw c
     | Some h \<Rightarrow> drop_obsolete H key it (discard H (c\<lparr>helper := h\<rparr>) k n))"
proof -
  have n: "c_iter n = Some a" "\<not> c_persistent n"
    using temporary_node [OF assms(1,2)] assms(3) by auto
  have "obs_erase (c\<lparr>helper := h\<rparr>) n = Some (c\<lparr>helper := h, q_obsolete := without k (q_obsolete c)\<rparr>)" for h
    using obs_erase_ok [of "c\<lparr>helper := h\<rparr>" _ k n n] cache_invD(5) [OF assms(1)] assms(3) by simp
  then show ?thesis
    using assms(3-5) erase_queues(1) [OF assms(1,3) n] without_id(2) [OF assms(1,3)] n
    by (simp add: node_update_def sure_def node_release_eq map_erase_def cache_upd_order discard_def evict_def unqueue_def split: option.splits)
qed

lemma drop_obsolete_ok:
  assumes "cache_inv c" "set it \<subseteq> set (q_temporary c)" "distinct (map snd it)"
    and "\<forall>(a, k) \<in> set (q_temporary c). k \<in> snd ` set it" "\<forall>(a, k) \<in> set (q_temporary c). stale c k"
  shows "(\<exists>d. drop_obsolete H key it c = Ok () d \<and> evicts H c d \<and> (can_create H d key \<or> q_temporary d = [])) \<or>
    (\<exists>d k v. drop_obsolete H key it c = Throw d \<and> evicts H c d \<and> h_update H (helper d) k v = None)"
  using assms
proof (induction it arbitrary: c)
  case Nil
  then have "q_temporary c = []"
    by (cases "q_temporary c") auto
  then show ?case
    by (auto intro: evicts_none)
next
  case (Cons x it)
  obtain a k where x: "x = (a, k)"
    by (cases x)
  then have mem: "(a, k) \<in> set (q_temporary c)"
    using Cons.prems(2) by simp
  obtain n where n: "map_of (cmap c) k = Some n" "c_inst n = 0"
    using temporary_node [OF Cons.prems(1) mem] .
  have n3: "c_need_update n"
    using bspec [OF Cons.prems(5) mem] n(1) by (simp add: stale_def)
  show ?case
  proof (cases "can_create H c key")
    case True
    then show ?thesis
      using x by (auto intro: evicts_none)
  next
    case no_room: False
    note step = drop_obsolete_step [OF Cons.prems(1) mem n(1) n3 no_room]
    show ?thesis
    proof (cases "h_update H (helper c) k (c_value n)")
      case None
      then show ?thesis
        using step x evicts_none [of H c] by auto
    next
      case (Some h)
      let ?c = "discard H (c\<lparr>helper := h\<rparr>) k n"
      have ev: "evicts H c ?c"
        by (rule evicts_dirty [OF evicts_none n(1,2) Some])
      have "set it \<subseteq> set (q_temporary ?c)"
        using Cons.prems(2,3) x by (force simp: without_mem)
      moreover have "\<forall>(a, k) \<in> set (q_temporary ?c). k \<in> snd ` set it" "\<forall>(a, k) \<in> set (q_temporary ?c). stale ?c k"
        using Cons.prems(4,5) x by (auto simp: without_mem stale_def)
      ultimately have "(\<exists>d. drop_obsolete H key it ?c = Ok () d \<and> evicts H ?c d \<and> (can_create H d key \<or> q_temporary d = [])) \<or>
          (\<exists>d k v. drop_obsolete H key it ?c = Throw d \<and> evicts H ?c d \<and> h_update H (helper d) k v = None)"
        using Cons.IH [of ?c] Cons.prems(1,3) by simp
      moreover have "drop_obsolete H key (x # it) c = drop_obsolete H key it ?c"
        using step Some x by simp
      ultimately show ?thesis
        using evicts_step [OF _ ev] by metis
    qed
  qed
qed

text \<open>The third drops the persistent nodes, written back where needed.\<close>

lemma drop_persistent_step:
  assumes "cache_inv c" "(a, k) \<in> set (q_persistent c)" "map_of (cmap c) k = Some n" "\<not> can_create H c key"
  shows "drop_persistent H key ((a, k) # it) c =
    (if c_need_update n then (case h_update H (helper c) k (c_value n) of None \<Rightarrow> Throw c
       | Some h \<Rightarrow> drop_persistent H key it (discard H (c\<lparr>helper := h\<rparr>) k n))
     else drop_persistent H key it (discard H c k n))"
proof -
  have n: "c_iter n = Some a" "c_persistent n" "c_obs_iter n \<noteq> None \<longleftrightarrow> c_need_update n"
    using persistent_node [OF assms(1,2)] assms(3) by auto
  have "obs_erase (c\<lparr>helper := h\<rparr>) n = Some (c\<lparr>helper := h, q_obsolete := without k (q_obsolete c)\<rparr>)" for h
    using obs_erase_ok [of "c\<lparr>helper := h\<rparr>" _ k n n] cache_invD(5) [OF assms(1)] assms(3) by simp
  then show ?thesis
    using assms(3,4) erase_queues(2) [OF assms(1,3) n(1,2)] without_id(1,3) [OF assms(1,3)] n
    by (auto simp: node_update_def sure_def node_release_eq map_erase_def cache_upd_order discard_def evict_def unqueue_def split: option.splits)
qed

lemma drop_persistent_ok:
  assumes "cache_inv c" "set it \<subseteq> set (q_persistent c)" "distinct (map snd it)"
    and "\<forall>(a, k) \<in> set (q_persistent c). k \<in> snd ` set it"
  shows "(\<exists>d. drop_persistent H key it c = Ok () d \<and> evicts H c d \<and> (can_create H d key \<or> q_persistent d = [])) \<or>
    (\<exists>d k v. drop_persistent H key it c = Throw d \<and> evicts H c d \<and> h_update H (helper d) k v = None)"
  using assms
proof (induction it arbitrary: c)
  case Nil
  then have "q_persistent c = []"
    by (cases "q_persistent c") auto
  then show ?case
    by (auto intro: evicts_none)
next
  case (Cons x it)
  obtain a k where x: "x = (a, k)"
    by (cases x)
  then have mem: "(a, k) \<in> set (q_persistent c)"
    using Cons.prems(2) by simp
  obtain n where n: "map_of (cmap c) k = Some n" "c_inst n = 0"
    using persistent_node [OF Cons.prems(1) mem] .
  show ?case
  proof (cases "can_create H c key")
    case True
    then show ?thesis
      using x by (auto intro: evicts_none)
  next
    case no_room: False
    note step = drop_persistent_step [OF Cons.prems(1) mem n(1) no_room]
    have go_on: ?thesis
      if c': "evicts H c (discard H c' k n)" "cmap c' = cmap c" "q_persistent c' = q_persistent c" "cache_inv c'"
        "drop_persistent H key ((a, k) # it) c = drop_persistent H key it (discard H c' k n)" for c'
    proof -
      let ?c = "discard H c' k n"
      have "set it \<subseteq> set (q_persistent ?c)" "\<forall>(a, k) \<in> set (q_persistent ?c). k \<in> snd ` set it"
        using Cons.prems(2-4) x c'(3) by (force simp: without_mem)+
      then have "(\<exists>d. drop_persistent H key it ?c = Ok () d \<and> evicts H ?c d \<and> (can_create H d key \<or> q_persistent d = [])) \<or>
          (\<exists>d k v. drop_persistent H key it ?c = Throw d \<and> evicts H ?c d \<and> h_update H (helper d) k v = None)"
        using Cons.IH [of ?c] Cons.prems(3) c'(4) by simp
      then show ?thesis
        unfolding x c'(5) using evicts_step [OF _ c'(1)] by blast
    qed
    show ?thesis
    proof (cases "c_need_update n")
      case False
      then show ?thesis
        using go_on [of c] step evicts_clean [OF evicts_none n False] Cons.prems(1) by simp
    next
      case True
      show ?thesis
      proof (cases "h_update H (helper c) k (c_value n)")
        case None
        then show ?thesis
          using step True x evicts_none [of H c] by auto
      next
        case (Some h)
        then show ?thesis
          using go_on [of "c\<lparr>helper := h\<rparr>"] step True evicts_dirty [OF evicts_none n Some] Cons.prems(1) by simp
      qed
    qed
  qed
qed

lemma reserve_space_ok:
  assumes "cache_inv c"
  shows "(\<exists>d. reserve_space H c key = Ok () d \<and> evicts H c d \<and> can_create H d key) \<or>
    (\<exists>d. reserve_space H c key = Throw d \<and> evicts H c d \<and>
      ((\<exists>k v. h_update H (helper d) k v = None) \<or>
       \<not> can_create H d key \<and> (\<forall>k n. map_of (cmap d) k = Some n \<longrightarrow> c_inst n \<noteq> 0)))"
proof (cases "can_create H c key")
  case True
  then show ?thesis
    by (auto simp: reserve_space_def intro: evicts_none)
next
  case no_room: False
  have keys: "distinct (map snd (q_temporary d))" "distinct (map snd (q_persistent d))" if "cache_inv d" for d :: "('a, 'b, 'c) cache"
    using queue_ok_distinct_keys cache_invD(3,4) [OF that] by blast+
  obtain d1 where d1: "drop_clean H key (q_temporary c) c = Ok () d1" "evicts H c d1"
    "can_create H d1 key \<or> (\<forall>(a, k) \<in> set (q_temporary d1). stale d1 k)"
    using drop_clean_ok [OF assms order_refl keys(1) [OF assms], of H key] by force
  have i1: "cache_inv d1"
    by (rule evicts_inv [OF d1(2) assms])
  show ?thesis
  proof (cases "can_create H d1 key")
    case True
    then show ?thesis
      using no_room d1 by (simp add: reserve_space_def)
  next
    case no_room1: False
    have "(\<exists>d. drop_obsolete H key (q_temporary d1) d1 = Ok () d \<and> evicts H d1 d \<and> (can_create H d key \<or> q_temporary d = [])) \<or>
      (\<exists>d k v. drop_obsolete H key (q_temporary d1) d1 = Throw d \<and> evicts H d1 d \<and> h_update H (helper d) k v = None)"
      using d1(3) no_room1 by (intro drop_obsolete_ok [OF i1 order_refl keys(1) [OF i1]]) force+
    then consider (thrown) d k v where "drop_obsolete H key (q_temporary d1) d1 = Throw d" "evicts H d1 d"
        "h_update H (helper d) k v = None"
      | (finished) d2 where "drop_obsolete H key (q_temporary d1) d1 = Ok () d2" "evicts H d1 d2"
        "can_create H d2 key \<or> q_temporary d2 = []"
      by blast
    then show ?thesis
    proof cases
      case thrown
      then show ?thesis
        using no_room no_room1 d1(1,2) evicts_step by (auto simp: reserve_space_def)
    next
      case d2: finished
      have i2: "cache_inv d2"
        by (rule evicts_inv [OF d2(2) i1])
      have e2: "evicts H c d2"
        by (rule evicts_step [OF d2(2) d1(2)])
      show ?thesis
      proof (cases "can_create H d2 key")
        case True
        then show ?thesis
          using no_room no_room1 d1(1) d2(1) e2 by (simp add: reserve_space_def)
      next
        case no_room2: False
        have "(\<exists>d. drop_persistent H key (q_persistent d2) d2 = Ok () d \<and> evicts H d2 d \<and> (can_create H d key \<or> q_persistent d = [])) \<or>
          (\<exists>d k v. drop_persistent H key (q_persistent d2) d2 = Throw d \<and> evicts H d2 d \<and> h_update H (helper d) k v = None)"
          by (intro drop_persistent_ok [OF i2 order_refl keys(2) [OF i2]]) force
        then consider (thrown) d k v where "drop_persistent H key (q_persistent d2) d2 = Throw d" "evicts H d2 d"
            "h_update H (helper d) k v = None"
          | (finished) d3 where "drop_persistent H key (q_persistent d2) d2 = Ok () d3" "evicts H d2 d3"
            "can_create H d3 key \<or> q_persistent d3 = []"
          by blast
        then show ?thesis
        proof cases
          case thrown
          then show ?thesis
            using no_room no_room1 no_room2 d1(1) d2(1) e2 evicts_step by (auto simp: reserve_space_def)
        next
          case d3: finished
          have "evicts H c d3" "cache_inv d3"
            using evicts_step [OF d3(2) e2] evicts_inv [OF d3(2) i2] by auto
          moreover have "q_temporary d3 = []"
            using evicts_queues [OF d3(2)] d2(3) no_room2 by simp
          ultimately have "c_inst n \<noteq> 0" if "map_of (cmap d3) k = Some n" "\<not> can_create H d3 key" for k n
            using queues_empty_busy [of d3 k n] d3(3) that by simp
          moreover note \<open>evicts H c d3\<close>
          ultimately show ?thesis
            using no_room no_room1 no_room2 d1(1) d2(1) d3(1) by (auto simp: reserve_space_def)
        qed
      qed
    qed
  qed
qed

section \<open>The cache and its backing store\<close>

text \<open>
  What the helper promises, seen through \<open>peek\<close>, the contents of the backing store, and \<open>view\<close>, the
  contents of a cached value (a value may also carry the place it is kept at): \<open>update\<close> stores, \<open>release\<close>
  and the value's destructor do not. \<open>good\<close> is the helper's own invariant.
\<close>

locale backing_medium =
  fixes H :: "('h, 'k, 'v) helper_fns"
    and view :: "'v \<Rightarrow> 'd"
    and peek :: "'h \<Rightarrow> 'k \<Rightarrow> 'd"
    and good :: "'h \<Rightarrow> bool"
  assumes update_law: "good h \<Longrightarrow> h_update H h k v = Some h' \<Longrightarrow> peek h' = (peek h)(k := view v) \<and> good h'"
    and release_law: "good h \<Longrightarrow> h_release H = Some rel \<Longrightarrow> peek (rel h k v) = peek h \<and> good (rel h k v)"
    and drop_law: "good h \<Longrightarrow> peek (h_drop H h v) = peek h \<and> good (h_drop H h v)"

text \<open>A backing store also loads: \<open>create\<close> gives what is stored (a helper may be told not to read a
  block that is about to be overwritten: then it is only a medium).\<close>

locale backing_store = backing_medium +
  assumes create_law: "good h \<Longrightarrow> h_create H h k = Some (v, h') \<Longrightarrow> peek h' = peek h \<and> good h' \<and> view v = peek h k"

text \<open>
  \<open>coherent\<close>: \<open>mem\<close> is the memory a client sees. A cached value is the memory's; it is also the
  store's unless the node is marked or its key is in \<open>W\<close>, the keys written by their holders.
\<close>

definition coherent ::
  "('v \<Rightarrow> 'd) \<Rightarrow> ('h \<Rightarrow> 'k \<Rightarrow> 'd) \<Rightarrow> ('h, 'k, 'v) cache \<Rightarrow> 'k set \<Rightarrow> ('k \<Rightarrow> 'd) \<Rightarrow> bool" where
  "coherent view peek c W mem \<longleftrightarrow> cache_inv c \<and>
     (\<forall>k \<in> W. \<exists>n. map_of (cmap c) k = Some n \<and> c_inst n \<noteq> 0) \<and>
     (\<forall>k n. map_of (cmap c) k = Some n \<longrightarrow>
        view (c_value n) = mem k \<and> (c_need_update n \<or> k \<in> W \<or> peek (helper c) k = mem k)) \<and>
     (\<forall>k. map_of (cmap c) k = None \<longrightarrow> peek (helper c) k = mem k)"

lemma coherentD:
  assumes "coherent view peek c W mem"
  shows "cache_inv c" "k \<in> W \<Longrightarrow> \<exists>n. map_of (cmap c) k = Some n \<and> c_inst n \<noteq> 0"
    "map_of (cmap c) k = Some n \<Longrightarrow> view (c_value n) = mem k"
    "map_of (cmap c) k = Some n \<Longrightarrow> c_need_update n \<or> k \<in> W \<or> peek (helper c) k = mem k"
    "map_of (cmap c) k = None \<Longrightarrow> peek (helper c) k = mem k"
  using assms unfolding coherent_def by blast+

lemma set_node_map: "map_of (cmap (set_node c k n)) k' = (if k' = k then Some n else map_of (cmap c) k')"
  by (simp add: update_conv')

lemma coherent_set_node:
  assumes "coherent view peek c W mem" "cache_inv c'" "cmap c' = AList.update k n (cmap c)" "helper c' = helper c"
    and "view (c_value n) = mem k" "c_need_update n \<or> k \<in> W \<or> peek (helper c) k = mem k" "k \<in> W \<Longrightarrow> c_inst n \<noteq> 0"
  shows "coherent view peek c' W mem"
proof -
  have "map_of (cmap c') k' = (if k' = k then Some n else map_of (cmap c) k')" for k'
    by (simp add: assms(3) update_conv')
  note m = this
  note d = coherentD [OF assms(1)]
  show ?thesis
    unfolding coherent_def m assms(4)
  proof (intro conjI ballI allI impI)
    show "cache_inv c'"
      by (rule assms(2))
    show "\<exists>n'. (if j = k then Some n else map_of (cmap c) j) = Some n' \<and> c_inst n' \<noteq> 0" if "j \<in> W" for j
      using d(2) [OF that] assms(7) that by auto
    fix j n'
    assume j: "(if j = k then Some n else map_of (cmap c) j) = Some n'"
    show "view (c_value n') = mem j" "c_need_update n' \<or> j \<in> W \<or> peek (helper c) j = mem j"
      using j d(3,4) [of j n'] assms(5,6) by (auto split: if_splits)
  next
    fix j
    assume "(if j = k then Some n else map_of (cmap c) j) = None"
    then show "peek (helper c) j = mem j"
      using d(5) by (auto split: if_splits)
  qed
qed

text \<open>The client: \<open>get\<close>, writing through the pointer, \<open>put\<close>, flushing and removing.\<close>

datatype ('k, 'v) client_op =
  Get 'k int | Put 'k int bool | Write 'k 'v | Update_one | Update_all | Update_ordered | Remove 'k

fun client_step ::
  "('h, 'k, 'v) helper_fns \<Rightarrow> ('k \<Rightarrow> 'k \<Rightarrow> bool) \<Rightarrow> ('k, 'v) client_op \<Rightarrow> ('h, 'k, 'v) cache \<Rightarrow> (unit, ('h, 'k, 'v) cache) outcome" where
  "client_step H cmp (Get k now) c = cache_get H c now k"
| "client_step H cmp (Put k now need) c = sure (cache_put c now k need)"
| "client_step H cmp (Write k v) c =
     (case map_of (cmap c) k of None \<Rightarrow> Stuck | Some n \<Rightarrow> Ok () (set_node c k (n\<lparr>c_value := v\<rparr>)))"
| "client_step H cmp Update_one c = update_one H c"
| "client_step H cmp Update_all c = update_all H c"
| "client_step H cmp Update_ordered c = update_all_with_order H cmp c"
| "client_step H cmp (Remove k) c = cache_remove H c k"

text \<open>
  What the client owes: only the holder of a value writes it or puts it back, a written value is put
  back with \<open>need_update\<close>, a key in use is not removed, and no key is held \<open>2 ^ 32\<close> times at once.
\<close>

definition held :: "('h, 'k, 'v) cache \<Rightarrow> 'k \<Rightarrow> bool" where
  "held c k \<longleftrightarrow> (\<exists>n. map_of (cmap c) k = Some n \<and> c_inst n \<noteq> 0)"

fun client_ok :: "('k, 'v) client_op \<Rightarrow> ('h, 'k, 'v) cache \<Rightarrow> 'k set \<Rightarrow> bool" where
  "client_ok (Get k now) c W \<longleftrightarrow> (\<forall>n. map_of (cmap c) k = Some n \<longrightarrow> c_inst n + 1 \<noteq> 0)"
| "client_ok (Put k now need) c W \<longleftrightarrow> held c k \<and> (need \<or> k \<notin> W)"
| "client_ok (Write k v) c W \<longleftrightarrow> held c k"
| "client_ok (Remove k) c W \<longleftrightarrow> \<not> held c k"
| "client_ok _ c W \<longleftrightarrow> True"

fun client_written :: "('k, 'v) client_op \<Rightarrow> 'k set \<Rightarrow> 'k set" where
  "client_written (Put k now need) W = (if need then W - {k} else W)"
| "client_written (Write k v) W = insert k W"
| "client_written _ W = W"

fun client_mem :: "('v \<Rightarrow> 'd) \<Rightarrow> ('k, 'v) client_op \<Rightarrow> ('k \<Rightarrow> 'd) \<Rightarrow> 'k \<Rightarrow> 'd" where
  "client_mem view (Write k v) mem = mem(k := view v)"
| "client_mem view _ mem = mem"

lemma update_node_ok:
  assumes "map_of (cmap c) k = Some n" "c_need_update n" "c_inst n = 0"
  shows "update_node H c k = (case h_update H (helper c) k (c_value n) of None \<Rightarrow> Throw c
    | Some h \<Rightarrow> Ok () (set_node (c\<lparr>helper := h\<rparr>) k (n\<lparr>c_need_update := False, c_obs_iter := None\<rparr>)))"
  using assms by (simp add: update_node_def node_update_def split: option.splits)

text \<open>
  Writing back a set of nodes: the other nodes, the queues and the order do not matter. \<open>flushed\<close> is
  the state once the keys \<open>ks\<close> have been written.
\<close>

definition flushed :: "'k set \<Rightarrow> ('h, 'k, 'v) cache \<Rightarrow> ('h, 'k, 'v) cache \<Rightarrow> bool" where
  "flushed ks c d \<longleftrightarrow> q_temporary d = q_temporary c \<and> q_persistent d = q_persistent c \<and> q_obsolete d = q_obsolete c \<and>
     next_handle d = next_handle c \<and> map fst (cmap d) = map fst (cmap c) \<and>
     (\<forall>k. map_of (cmap d) k = (if k \<in> ks then map_option (\<lambda>n. n\<lparr>c_need_update := False, c_obs_iter := None\<rparr>) (map_of (cmap c) k)
       else map_of (cmap c) k))"

lemma flushed_none: "flushed {} c c"
  by (simp add: flushed_def)

lemma flushed_step:
  assumes "flushed ks c d" "k \<notin> ks" "map_of (cmap c) k = Some n"
  shows "flushed (insert k ks) c (set_node (d\<lparr>helper := h\<rparr>) k (n\<lparr>c_need_update := False, c_obs_iter := None\<rparr>))"
proof -
  have "k \<in> fst ` set (cmap d)"
    using assms by (metis (mono_tags, lifting) flushed_def map_of_SomeD image_eqI fst_conv)
  then have "map fst (AList.update k n' (cmap d)) = map fst (cmap d)" for n'
    by (simp add: update_keys)
  then show ?thesis
    using assms by (auto simp: flushed_def update_conv')
qed


fun writes :: "('h, 'k, 'v) helper_fns \<Rightarrow> 'h \<Rightarrow> ('k \<times> 'v) list \<Rightarrow> 'h option" where
  "writes H h [] = Some h"
| "writes H h ((k, v) # kvs) = do { h' \<leftarrow> h_update H h k v; writes H h' kvs }"

definition node_value :: "('h, 'k, 'v) cache \<Rightarrow> 'k \<Rightarrow> 'v" where
  "node_value c k = c_value (the (map_of (cmap c) k))"

lemma update_nodes_ok:
  assumes "flushed F c d" "distinct ks" "set ks \<inter> F = {}"
    and "\<forall>k \<in> set ks. \<exists>n. map_of (cmap c) k = Some n \<and> c_need_update n \<and> c_inst n = 0"
  shows "case writes H (helper d) (map (\<lambda>k. (k, node_value c k)) ks) of
      None \<Rightarrow> \<exists>e. update_nodes H ks d = Throw e
    | Some h \<Rightarrow> \<exists>e. update_nodes H ks d = Ok () e \<and> flushed (F \<union> set ks) c e \<and> helper e = h"
  using assms
proof (induction ks arbitrary: d F)
  case Nil
  then show ?case
    by simp
next
  case (Cons k ks)
  obtain n where n: "map_of (cmap c) k = Some n" "c_need_update n" "c_inst n = 0"
    using Cons.prems(4) by auto
  have kF: "k \<notin> F"
    using Cons.prems(3) by simp
  then have nd: "map_of (cmap d) k = Some n"
    using Cons.prems(1) n(1) by (simp add: flushed_def)
  have v: "node_value c k = c_value n"
    using n(1) by (simp add: node_value_def)
  show ?case
  proof (cases "h_update H (helper d) k (c_value n)")
    case None
    then show ?thesis
      using update_node_ok [OF nd n(2,3), of H] v by simp
  next
    case (Some h)
    let ?d = "set_node (d\<lparr>helper := h\<rparr>) k (n\<lparr>c_need_update := False, c_obs_iter := None\<rparr>)"
    have "update_node H d k = Ok () ?d"
      using update_node_ok [OF nd n(2,3), of H] Some by simp
    moreover have "case writes H (helper ?d) (map (\<lambda>k. (k, node_value c k)) ks) of
        None \<Rightarrow> \<exists>e. update_nodes H ks ?d = Throw e
      | Some h \<Rightarrow> \<exists>e. update_nodes H ks ?d = Ok () e \<and> flushed (insert k F \<union> set ks) c e \<and> helper e = h"
      by (rule Cons.IH [OF flushed_step [OF Cons.prems(1) kF n(1)]]) (use Cons.prems in auto)
    ultimately show ?thesis
      using Some v by (simp add: Un_insert_right split: option.splits)
  qed
qed

lemma obsolete_node:
  assumes "cache_inv c" "k \<in> snd ` set (q_obsolete c)"
  shows "\<exists>n. map_of (cmap c) k = Some n \<and> c_need_update n \<and> c_inst n = 0"
proof -
  obtain b where "(b, k) \<in> set (q_obsolete c)"
    using assms(2) by auto
  then have "handle_of c_obs_iter (cmap c) k = Some b"
    using queue_ok_handle [OF cache_invD(5) [OF assms(1)]] by blast
  then obtain n where "map_of (cmap c) k = Some n" "c_obs_iter n = Some b"
    by (auto simp: handle_of_def split: option.splits)
  then show ?thesis
    using cache_invD(2) [OF assms(1)] by (auto simp: node_ok_def)
qed

lemma not_obsolete:
  assumes "cache_inv c" "k \<notin> snd ` set (q_obsolete c)" "map_of (cmap c) k = Some n"
  shows "c_obs_iter n = None"
proof (rule ccontr)
  assume "c_obs_iter n \<noteq> None"
  then obtain b where "handle_of c_obs_iter (cmap c) k = Some b"
    using assms(3) by (auto simp: handle_of_def)
  then have "(b, k) \<in> set (q_obsolete c)"
    using queue_ok_handle [OF cache_invD(5) [OF assms(1)]] by blast
  then show False
    using assms(2) by force
qed

lemma handle_of_flushed:
  assumes "flushed ks c d" "\<And>n. f (n\<lparr>c_need_update := False, c_obs_iter := None\<rparr>) = f n"
  shows "handle_of f (cmap d) = handle_of f (cmap c)"
  using assms by (auto simp: handle_of_def flushed_def fun_eq_iff split: option.splits)

lemma flush_inv:
  assumes "cache_inv c" "flushed (snd ` set (q_obsolete c)) c d"
  shows "cache_inv (d\<lparr>q_obsolete := []\<rparr>)"
proof -
  note i = cache_invD [OF assms(1)]
  have f: "q_temporary d = q_temporary c" "q_persistent d = q_persistent c" "next_handle d = next_handle c"
    "map fst (cmap d) = map fst (cmap c)"
    using assms(2) by (simp_all add: flushed_def)
  have "handle_of c_obs_iter (cmap d) k = None" for k
    using assms(2) not_obsolete [OF assms(1), of k] by (auto simp: handle_of_def flushed_def split: option.splits)
  then have "queue_ok [] (handle_of c_obs_iter (cmap d)) (next_handle d)"
    by (simp add: queue_ok_def)
  moreover have "node_ok n" if dn: "map_of (cmap d) k = Some n" for k n
  proof -
    obtain z where z: "map_of (cmap c) k = Some z" "n = z \<or> n = z\<lparr>c_need_update := False, c_obs_iter := None\<rparr>"
      using assms(2) dn by (auto simp: flushed_def split: if_splits)
    then show ?thesis
      using i(2) [OF z(1)] by (auto simp: node_ok_def)
  qed
  ultimately show ?thesis
    using i(1,3,4) handle_of_flushed [OF assms(2), of in_temporary] handle_of_flushed [OF assms(2), of in_persistent]
    by (simp add: cache_inv_def f in_temporary_def in_persistent_def)
qed

lemma set_insert_by [simp]: "set (insert_by cmp x xs) = insert x (set xs)"
  by (induction xs) auto

lemma distinct_insert_by [simp]: "distinct (insert_by cmp x xs) \<longleftrightarrow> x \<notin> set xs \<and> distinct xs"
  by (induction xs) auto

lemma sort_by_simps [simp]: "set (sort_by cmp xs) = set xs" "distinct (sort_by cmp xs) \<longleftrightarrow> distinct xs"
  by (induction xs) (simp_all add: sort_by_def)

text \<open>Both flushes in one form, \<open>ks\<close> being the obsolete keys in some order.\<close>

lemma flush_ok:
  assumes "cache_inv c" "set ks = snd ` set (q_obsolete c)" "distinct ks"
  shows "case writes H (helper c) (map (\<lambda>k. (k, node_value c k)) ks) of
      None \<Rightarrow> \<exists>e. then_do (update_nodes H ks c) (\<lambda>_ c. Ok () (c\<lparr>q_obsolete := []\<rparr>)) = Throw e
    | Some h \<Rightarrow> \<exists>e. then_do (update_nodes H ks c) (\<lambda>_ c. Ok () (c\<lparr>q_obsolete := []\<rparr>)) = Ok () (e\<lparr>q_obsolete := []\<rparr>) \<and>
        flushed (snd ` set (q_obsolete c)) c e \<and> helper e = h"
proof -
  have "\<forall>k \<in> set ks. \<exists>n. map_of (cmap c) k = Some n \<and> c_need_update n \<and> c_inst n = 0"
    using obsolete_node [OF assms(1)] assms(2) by blast
  then have "case writes H (helper c) (map (\<lambda>k. (k, node_value c k)) ks) of
      None \<Rightarrow> \<exists>e. update_nodes H ks c = Throw e
    | Some h \<Rightarrow> \<exists>e. update_nodes H ks c = Ok () e \<and> flushed ({} \<union> set ks) c e \<and> helper e = h"
    using assms(3) by (intro update_nodes_ok [OF flushed_none]) auto
  then show ?thesis
    by (auto simp: assms(2) split: option.splits)
qed

lemma update_all_ok:
  assumes "cache_inv c"
  obtains ks where "set ks = snd ` set (q_obsolete c)" "distinct ks"
    "update_all H c = then_do (update_nodes H ks c) (\<lambda>_ c. Ok () (c\<lparr>q_obsolete := []\<rparr>))"
  by (rule that [of "map snd (q_obsolete c)"])
    (simp_all add: update_all_def queue_ok_distinct_keys [OF cache_invD(5) [OF assms]])

lemma update_ordered_ok:
  assumes "cache_inv c"
  obtains ks where "set ks = snd ` set (q_obsolete c)" "distinct ks"
    "update_all_with_order H cmp c = then_do (update_nodes H ks c) (\<lambda>_ c. Ok () (c\<lparr>q_obsolete := []\<rparr>))"
  by (rule that [of "sort_by cmp (map snd (q_obsolete c))"])
    (simp_all add: update_all_with_order_def queue_ok_distinct_keys [OF cache_invD(5) [OF assms]])

lemma update_one_ok:
  assumes "cache_inv c" "q_obsolete c = (b, k) # q"
  obtains n where "map_of (cmap c) k = Some n" "c_need_update n" "c_inst n = 0"
    "update_one H c = (case h_update H (helper c) k (c_value n) of None \<Rightarrow> Throw c
      | Some h \<Rightarrow> Ok () ((set_node (c\<lparr>helper := h\<rparr>) k (n\<lparr>c_need_update := False, c_obs_iter := None\<rparr>))\<lparr>q_obsolete := q\<rparr>))"
    "cache_inv ((set_node (c\<lparr>helper := h\<rparr>) k (n\<lparr>c_need_update := False, c_obs_iter := None\<rparr>))\<lparr>q_obsolete := q\<rparr>)"
proof -
  note i = cache_invD [OF assms(1)]
  have b: "handle_of c_obs_iter (cmap c) k = Some b"
    using queue_ok_handle [OF i(5), of b k] assms(2) by simp
  then obtain n where n: "map_of (cmap c) k = Some n" "c_obs_iter n = Some b"
    by (auto simp: handle_of_def split: option.splits)
  have ok: "c_need_update n" "c_inst n = 0" "c_iter n \<noteq> None"
    using i(2) [OF n(1)] n(2) by (auto simp: node_ok_def)
  have "without k (q_obsolete c) = q"
  proof -
    have "k \<notin> snd ` set q"
      using queue_ok_distinct_keys [OF i(5)] assms(2) by simp
    then show ?thesis
      by (force simp: without_def assms(2) filter_id_conv)
  qed
  then have q: "queue_ok q ((handle_of c_obs_iter (cmap c))(k := None)) (next_handle c)"
    using without_queue_ok [OF i(5), of k] by simp
  let ?n = "n\<lparr>c_need_update := False, c_obs_iter := None\<rparr>"
  have t: "handle_of in_temporary (cmap c) k = in_temporary ?n" "handle_of in_persistent (cmap c) k = in_persistent ?n"
    using n(1) by (simp_all add: handle_of_def in_temporary_def in_persistent_def)
  then have "queue_ok (q_temporary c) ((handle_of in_temporary (cmap c))(k := in_temporary ?n)) (next_handle c)"
    "queue_ok (q_persistent c) ((handle_of in_persistent (cmap c))(k := in_persistent ?n)) (next_handle c)"
    using queue_ok_same [OF i(3) t(1)] queue_ok_same [OF i(4) t(2)] by blast+
  moreover have "node_ok ?n"
    using ok by (simp add: node_ok_def)
  then have "\<forall>k' n'. map_of (AList.update k ?n (cmap c)) k' = Some n' \<longrightarrow> node_ok n'"
    using i(2) by (intro nodes_ok_update) blast+
  ultimately have inv: "cache_inv ((set_node (c\<lparr>helper := h\<rparr>) k ?n)\<lparr>q_obsolete := q\<rparr>)"
    using i(1) q by (simp add: cache_inv_def distinct_update)
  have "update_one H c = (case h_update H (helper c) k (c_value n) of None \<Rightarrow> Throw c
      | Some h \<Rightarrow> Ok () ((set_node (c\<lparr>helper := h\<rparr>) k ?n)\<lparr>q_obsolete := q\<rparr>))"
    using assms(2) n update_node_ok [OF n(1) ok(1,2), of H] by (simp add: update_one_def split: option.splits)
  then show thesis
    by (rule that [OF n(1) ok(1,2) _ inv])
qed


lemma coherent_helper:
  assumes "coherent view peek c W mem" "\<And>j. peek h j = peek (helper c) j \<or> peek h j = mem j"
  shows "coherent view peek (c\<lparr>helper := h\<rparr>) W mem"
proof -
  note d = coherentD [OF assms(1)]
  show ?thesis
    unfolding coherent_def
  proof (intro conjI ballI allI impI)
    fix j n assume j: "map_of (cmap (c\<lparr>helper := h\<rparr>)) j = Some n"
    then show "view (c_value n) = mem j"
      using d(3) by simp
    show "c_need_update n \<or> j \<in> W \<or> peek (helper (c\<lparr>helper := h\<rparr>)) j = mem j"
      using d(4) [of j n] assms(2) [of j] j by auto
  next
    fix j assume "map_of (cmap (c\<lparr>helper := h\<rparr>)) j = None"
    then show "peek (helper (c\<lparr>helper := h\<rparr>)) j = mem j"
      using d(5) [of j] assms(2) [of j] by auto
  qed (use d(1,2) in auto)
qed

lemma coherent_shrink:
  assumes "coherent view peek c W mem" "map_of (cmap c) k = Some n" "c_need_update n"
  shows "coherent view peek c (W - {k}) mem"
  using assms unfolding coherent_def by auto

lemma coherent_evict:
  assumes "coherent view peek c W mem" "map_of (cmap c) k = Some n" "c_inst n = 0" "peek (helper c) k = mem k"
  shows "coherent view peek (evict c k) W mem"
proof -
  note d = coherentD [OF assms(1)]
  have m: "map_of (cmap (evict c k)) j = (if j = k then None else map_of (cmap c) j)" for j
    by (simp add: evict_def delete_conv')
  have h: "helper (evict c k) = helper c"
    by (simp add: evict_def)
  have kW: "k \<notin> W"
    using d(2) [of k] assms(2,3) by auto
  show ?thesis
    unfolding coherent_def m h
  proof (intro conjI ballI allI impI)
    show "cache_inv (evict c k)"
      by (rule evict_inv [OF d(1)])
    show "\<exists>n. (if j = k then None else map_of (cmap c) j) = Some n \<and> c_inst n \<noteq> 0" if "j \<in> W" for j
      using d(2) [OF that] kW that by auto
    fix j n'
    assume "(if j = k then None else map_of (cmap c) j) = Some n'"
    then show "view (c_value n') = mem j" "c_need_update n' \<or> j \<in> W \<or> peek (helper c) j = mem j"
      using d(3,4) [of j n'] by (auto split: if_splits)
  next
    fix j
    assume "(if j = k then None else map_of (cmap c) j) = None"
    then show "peek (helper c) j = mem j"
      using d(5) assms(4) by (auto split: if_splits)
  qed
qed

lemma evicts_map: "evicts H c d \<Longrightarrow> map_of (cmap c) k = None \<Longrightarrow> map_of (cmap d) k = None"
  by (induction rule: evicts.induct) (simp_all add: delete_conv')

context backing_medium
begin

lemma writes_law:
  "good h \<Longrightarrow> writes H h kvs = Some h' \<Longrightarrow> good h' \<and>
    (\<forall>k. k \<notin> fst ` set kvs \<longrightarrow> peek h' k = peek h k) \<and>
    (\<forall>m. (\<forall>(k, v) \<in> set kvs. view v = m k) \<longrightarrow> (\<forall>k \<in> fst ` set kvs. peek h' k = m k))"
proof (induction kvs arbitrary: h)
  case (Cons kv kvs)
  obtain k v where kv: "kv = (k, v)"
    by (cases kv)
  obtain h1 where h1: "h_update H h k v = Some h1" "writes H h1 kvs = Some h'"
    using Cons.prems kv by (auto split: bind_splits)
  have up: "peek h1 = (peek h)(k := view v)" "good h1"
    using update_law [OF Cons.prems(1) h1(1)] by auto
  note IH = Cons.IH [OF up(2) h1(2)]
  have "peek h' j = m j" if m: "\<forall>(k, v) \<in> set (kv # kvs). view v = m k" and j: "j \<in> fst ` set (kv # kvs)" for m j
  proof (cases "j \<in> fst ` set kvs")
    case True
    then show ?thesis
      using IH m by auto
  next
    case False
    then have "j = k" "peek h' j = peek h1 j"
      using IH j kv by auto
    then show ?thesis
      using up m kv by simp
  qed
  then show ?case
    using IH up kv by auto
qed simp

lemma rel_helper_law: "good h \<Longrightarrow> peek (rel_helper H h k v) = peek h \<and> good (rel_helper H h k v)"
  using release_law by (auto simp: rel_helper_def split: option.splits)

lemma discard_coherent:
  assumes "coherent view peek c W mem" "map_of (cmap c) k = Some n" "c_inst n = 0" "peek (helper c) k = mem k"
    and "good (helper c)"
  shows "coherent view peek (discard H c k n) W mem \<and> good (helper (discard H c k n))"
proof -
  have "coherent view peek (evict c k) W mem"
    by (rule coherent_evict [OF assms(1-4)])
  then have "coherent view peek ((evict c k)\<lparr>helper := h_drop H (rel_helper H (helper c) k (c_value n)) (c_value n)\<rparr>) W mem"
    by (rule coherent_helper) (simp add: drop_law rel_helper_law evict_def assms(5))
  then show ?thesis
    by (simp add: discard_def drop_law rel_helper_law assms(5))
qed

lemma evicts_coherent:
  "evicts H c d \<Longrightarrow> coherent view peek c W mem \<Longrightarrow> good (helper c) \<Longrightarrow> coherent view peek d W mem \<and> good (helper d)"
proof (induction rule: evicts.induct)
  case (evicts_clean d k n)
  then have d: "coherent view peek d W mem" "good (helper d)"
    by auto
  have "k \<notin> W"
    using coherentD(2) [OF d(1), of k] evicts_clean.hyps(2,3) by auto
  then have "peek (helper d) k = mem k"
    using coherentD(4) [OF d(1) evicts_clean.hyps(2)] evicts_clean.hyps(4) by auto
  then show ?case
    using discard_coherent [OF d(1) evicts_clean.hyps(2,3)] d(2) by simp
next
  case (evicts_dirty d k n h)
  then have d: "coherent view peek d W mem" "good (helper d)"
    by auto
  have up: "peek h = (peek (helper d))(k := view (c_value n))" "good h"
    using update_law [OF d(2) evicts_dirty.hyps(4)] by auto
  have v: "view (c_value n) = mem k"
    by (rule coherentD(3) [OF d(1) evicts_dirty.hyps(2)])
  have "coherent view peek (d\<lparr>helper := h\<rparr>) W mem"
    by (rule coherent_helper [OF d(1)]) (simp add: up v)
  then show ?case
    using discard_coherent [of "d\<lparr>helper := h\<rparr>" W mem k n] evicts_dirty.hyps(2,3) up v d(2) by simp
qed simp

lemma get_hit_coherent:
  assumes "coherent view peek c W mem" "map_of (cmap c) k = Some n" "c_inst n + 1 \<noteq> 0"
  shows "\<exists>d. cache_get H c now k = Ok () d \<and> coherent view peek d W mem \<and> helper d = helper c \<and> held d k"
proof -
  note d = coherentD [OF assms(1)]
  define n' where "n' = (if c_inst n = 0 then n\<lparr>c_inst := 1, c_iter := None, c_obs_iter := None\<rparr> else n\<lparr>c_inst := c_inst n + 1\<rparr>)"
  define c0 where "c0 = (if c_inst n = 0 then unqueue c k else c)"
  have g: "get_change c k = Some (set_node c0 k n')"
    unfolding c0_def n'_def by (rule get_change_ok [OF d(1) assms(2,3)])
  have "cache_inv (set_node c0 k n')"
    by (rule get_change_inv [OF d(1) assms(2,3) g])
  moreover have "c_inst n' \<noteq> 0"
    using assms(3) by (simp add: n'_def)
  ultimately have "coherent view peek (set_node c0 k n') W mem"
    using d(3,4) [OF assms(2)] by (intro coherent_set_node [OF assms(1), of _ k n']) (auto simp: c0_def n'_def)
  moreover have "held (set_node c0 k n') k"
    using \<open>c_inst n' \<noteq> 0\<close> by (simp add: held_def update_conv')
  ultimately show ?thesis
    using assms(2) g by (simp add: cache_get_def sure_def c0_def)
qed

text \<open>A value that is not what the store holds, such as one that was not read, must be written back.\<close>

lemma get_miss_coherent:
  assumes "coherent view peek c W mem" "good (helper c)" "map_of (cmap c) k = None"
    and create: "\<And>h v h'. good h \<Longrightarrow> peek h k = mem k \<Longrightarrow> h_create H h k = Some (v, h') \<Longrightarrow>
      peek h' = peek h \<and> good h' \<and> view v = x"
    and V: "V = (if x = mem k then W else insert k W)"
  shows "(\<exists>d. cache_get H c now k = Ok () d \<and> coherent view peek d V (mem(k := x)) \<and> good (helper d) \<and> held d k) \<or>
    (\<exists>d. cache_get H c now k = Throw d \<and> coherent view peek d W mem \<and> good (helper d))"
proof -
  have get: "cache_get H c now k = then_do (reserve_space H c k) (\<lambda>_ c.
      case h_create H (helper c) k of None \<Rightarrow> Throw c
      | Some (v, h) \<Rightarrow> Ok () (set_node (c\<lparr>helper := h\<rparr>) k
          \<lparr>c_value = v, c_need_update = False, c_persistent = False, c_inst = 1, c_time = now,
           c_iter = None, c_obs_iter = None\<rparr>))"
    using assms(3) by (simp add: cache_get_def)
  from reserve_space_ok [OF coherentD(1) [OF assms(1)], of H k] show ?thesis
  proof (elim disjE exE conjE)
    fix d assume d: "reserve_space H c k = Ok () d" "evicts H c d"
    have co: "coherent view peek d W mem" "good (helper d)"
      using evicts_coherent [OF d(2) assms(1,2)] by auto
    have absent: "map_of (cmap d) k = None"
      by (rule evicts_map [OF d(2) assms(3)])
    note d0 = coherentD [OF co(1)]
    show ?thesis
    proof (cases "h_create H (helper d) k")
      case None
      then show ?thesis
        using get d(1) co by simp
    next
      case (Some vh)
      obtain v h where vh: "vh = (v, h)"
        by (cases vh)
      have cr: "peek h = peek (helper d)" "good h" "view v = x"
        using create [OF co(2) d0(5) [OF absent]] Some vh by auto
      let ?n = "\<lparr>c_value = v, c_need_update = False, c_persistent = False, c_inst = 1, c_time = now,
        c_iter = None, c_obs_iter = None\<rparr>"
      let ?d = "set_node (d\<lparr>helper := h\<rparr>) k ?n"
      have "cache_inv ?d"
        using d0(1) absent by (intro cache_inv_set) (simp_all add: node_ok_def handle_of_def in_temporary_def in_persistent_def)
      moreover have "map_of (cmap ?d) j = (if j = k then Some ?n else map_of (cmap d) j)" for j
        by (simp add: update_conv')
      ultimately have "coherent view peek ?d V (mem(k := x))"
        using d0(2-5) absent cr V unfolding coherent_def by auto
      moreover have "held ?d k"
        by (simp add: held_def update_conv')
      ultimately show ?thesis
        using get d(1) Some vh cr(2) by simp
    qed
  qed (use get evicts_coherent [OF _ assms(1,2)] in auto)
qed

end

context backing_store
begin

lemma get_coherent:
  assumes "coherent view peek c W mem" "good (helper c)" "\<forall>n. map_of (cmap c) k = Some n \<longrightarrow> c_inst n + 1 \<noteq> 0"
  shows "(\<exists>d. cache_get H c now k = Ok () d \<and> coherent view peek d W mem \<and> good (helper d) \<and> held d k) \<or>
    (\<exists>d. cache_get H c now k = Throw d \<and> coherent view peek d W mem \<and> good (helper d))"
proof (cases "map_of (cmap c) k")
  case None
  from get_miss_coherent [OF assms(1,2) this, of "mem k" W now] show ?thesis
    using create_law by auto
next
  case (Some n)
  then show ?thesis
    using get_hit_coherent [OF assms(1) Some, of now] assms(2,3) by auto
qed

end

context backing_medium
begin

lemma put_coherent:
  assumes "coherent view peek c W mem" "held c k" "need \<or> k \<notin> W"
  shows "\<exists>d. cache_put c now k need = Some d \<and> coherent view peek d (if need then W - {k} else W) mem \<and> helper d = helper c"
proof -
  obtain n where n: "map_of (cmap c) k = Some n" "c_inst n \<noteq> 0"
    using assms(2) by (auto simp: held_def)
  define n1 where "n1 = (if need then n\<lparr>c_need_update := True\<rparr> else n)"
  define c1 where "c1 = (if need then set_node c k (n\<lparr>c_need_update := True\<rparr>) else c)"
  define V where "V = (if need then W - {k} else W)"
  note d = coherentD [OF assms(1)]
  have n1: "map_of (cmap c1) k = Some n1" "c_inst n1 \<noteq> 0" "helper c1 = helper c"
    using n by (simp_all add: n1_def c1_def update_conv')
  have "coherent view peek c1 W mem"
  proof (cases need)
    case True
    have "cache_inv c1"
      using mark_inv [OF d(1) n, of True] True by (simp add: c1_def)
    then show ?thesis
      using d(3) [OF n(1)] n(2) True by (intro coherent_set_node [OF assms(1), of c1 k n1]) (simp_all add: c1_def n1_def)
  qed (simp add: c1_def assms(1))
  then have co: "coherent view peek c1 V mem"
    using coherent_shrink [of view peek c1 W mem k n1] n1(1) by (simp add: V_def n1_def)
  have kV: "k \<notin> V"
    using assms(3) by (auto simp: V_def)
  note d1 = coherentD [OF co]
  define n2 where "n2 = (if c_inst n1 = 1 then put_node c1 now n1 else n1\<lparr>c_inst := c_inst n1 - 1\<rparr>)"
  define c2 where "c2 = (if c_inst n1 = 1 then requeue c1 k (put_node c1 now n1) else c1)"
  have p: "put_change c1 now k = Some (set_node c2 k n2)"
    using put_change_ok [OF d1(1) n1(1,2), of now] by (simp add: n2_def c2_def)
  have inv: "cache_inv (set_node c2 k n2)"
    by (rule put_change_inv [OF d1(1) n1(1,2) p])
  have "coherent view peek (set_node c2 k n2) V mem"
    using d1(3,4) [OF n1(1)] kV inv
    by (intro coherent_set_node [OF co inv, of k n2]) (simp_all add: c2_def n2_def requeue_def put_node_def Let_def)
  moreover have "cache_put c now k need = Some (set_node c2 k n2)"
    using n(1) p by (simp add: cache_put_def c1_def)
  moreover have "helper (set_node c2 k n2) = helper c"
    using n1(3) by (simp add: c2_def requeue_def Let_def)
  ultimately show ?thesis
    by (simp add: V_def)
qed

lemma write_coherent:
  assumes "coherent view peek c W mem" "map_of (cmap c) k = Some n" "c_inst n \<noteq> 0"
  shows "coherent view peek (set_node c k (n\<lparr>c_value := v\<rparr>)) (insert k W) (mem(k := view v))"
proof -
  note d = coherentD [OF assms(1)]
  have "node_ok n"
    by (rule cache_invD(2) [OF d(1) assms(2)])
  then have "cache_inv (set_node c k (n\<lparr>c_value := v\<rparr>))"
    using assms(2) by (intro cache_inv_set [OF d(1)])
      (simp_all add: node_ok_def handle_of_def in_temporary_def in_persistent_def)
  then show ?thesis
    using d assms(2,3) unfolding coherent_def set_node_map by (auto simp: set_node_map)
qed

end


lemma idle_erase_obsolete:
  "idle_erase (c\<lparr>q_obsolete := q\<rparr>) n = map_option (\<lambda>d. d\<lparr>q_obsolete := q\<rparr>) (idle_erase c n)"
  by (cases "c_iter n"; cases "c_persistent n"; cases "q_erase (q_persistent c) (c_iter n)";
      cases "q_erase (q_temporary c) (c_iter n)") (auto simp: idle_erase_def check_def cache_upd_order)

context backing_medium
begin

lemma flushed_coherent:
  assumes "coherent view peek c W mem" "good (helper c)" "set ks = snd ` set (q_obsolete c)" "distinct ks"
    and "F = then_do (update_nodes H ks c) (\<lambda>_ c. Ok () (c\<lparr>q_obsolete := []\<rparr>))"
  shows "(\<exists>d. F = Ok () d \<and> coherent view peek d W mem \<and> good (helper d) \<and> (\<forall>k. \<not> held d k \<longrightarrow> peek (helper d) k = mem k)) \<or>
    (\<exists>d. F = Throw d)"
proof -
  note d = coherentD [OF assms(1)]
  let ?kvs = "map (\<lambda>k. (k, node_value c k)) ks"
  note f = flush_ok [OF d(1) assms(3,4), of H]
  show ?thesis
  proof (cases "writes H (helper c) ?kvs")
    case None
    then show ?thesis
      using f by (simp add: assms(5))
  next
    case (Some h)
    then obtain e where e: "F = Ok () (e\<lparr>q_obsolete := []\<rparr>)" "flushed (snd ` set (q_obsolete c)) c e" "helper e = h"
      using f by (auto simp: assms(5))
    let ?e = "e\<lparr>q_obsolete := []\<rparr>"
    have vals: "\<forall>(k, v) \<in> set ?kvs. view v = mem k"
      using obsolete_node [OF d(1)] d(3) assms(3) by (force simp: node_value_def)
    have w: "good h" "k \<notin> set ks \<Longrightarrow> peek h k = peek (helper c) k" "k \<in> set ks \<Longrightarrow> peek h k = mem k" for k
      using writes_law [OF assms(2) Some] vals by (auto simp: image_image)
    have m: "map_of (cmap e) k = (if k \<in> set ks then map_option (\<lambda>n. n\<lparr>c_need_update := False, c_obs_iter := None\<rparr>) (map_of (cmap c) k)
        else map_of (cmap c) k)" for k
      using e(2) assms(3) by (simp add: flushed_def)
    have co: "coherent view peek ?e W mem"
      unfolding coherent_def
    proof (intro conjI ballI allI impI)
      show "cache_inv ?e"
        by (rule flush_inv [OF d(1) e(2)])
      show "\<exists>n. map_of (cmap ?e) k = Some n \<and> c_inst n \<noteq> 0" if "k \<in> W" for k
        using d(2) [OF that] by (auto simp: m)
      fix k n assume k: "map_of (cmap ?e) k = Some n"
      show "view (c_value n) = mem k"
        using k d(3) by (auto simp: m split: if_splits)
      show "c_need_update n \<or> k \<in> W \<or> peek (helper ?e) k = mem k"
        using k d(4) [of k n] w(2,3) [of k] by (auto simp: m e(3) split: if_splits)
    next
      fix k assume "map_of (cmap ?e) k = None"
      then show "peek (helper ?e) k = mem k"
        using d(5) [of k] w(2,3) [of k] by (auto simp: m e(3) split: if_splits)
    qed
    have "peek (helper ?e) k = mem k" if "\<not> held ?e k" for k
    proof (cases "map_of (cmap ?e) k")
      case None
      then show ?thesis
        by (rule coherentD(5) [OF co])
    next
      case (Some n)
      then have "c_inst n = 0"
        using that by (simp add: held_def)
      moreover have "handle_of c_obs_iter (cmap ?e) k = None"
        using queue_ok_handle [OF cache_invD(5) [OF coherentD(1) [OF co]]]
        by (metis cache.select_convs(5) cache.surjective cache.update_convs(5) empty_iff list.set(1) not_None_eq)
      ultimately have "\<not> c_need_update n"
        using cache_invD(2) [OF coherentD(1) [OF co] Some] Some by (simp add: node_ok_def handle_of_def)
      moreover have "k \<notin> W"
        using coherentD(2) [OF co, of k] Some \<open>c_inst n = 0\<close> by auto
      ultimately show ?thesis
        using coherentD(4) [OF co Some] by simp
    qed
    then show ?thesis
      using e(1,3) co w(1) assms(2) by auto
  qed
qed

lemma update_one_coherent:
  assumes "coherent view peek c W mem" "good (helper c)"
  shows "(\<exists>d. update_one H c = Ok () d \<and> coherent view peek d W mem \<and> good (helper d)) \<or> update_one H c = Throw c"
proof (cases "q_obsolete c")
  case Nil
  then show ?thesis
    using assms by (simp add: update_one_def)
next
  case (Cons bk q)
  obtain b k where bk: "bk = (b, k)"
    by (cases bk)
  note d = coherentD [OF assms(1)]
  show ?thesis
  proof (rule update_one_ok [OF d(1), of b k q])
    show "q_obsolete c = (b, k) # q"
      using Cons bk by simp
    fix n
    assume n: "map_of (cmap c) k = Some n" "c_need_update n" "c_inst n = 0"
      "update_one H c = (case h_update H (helper c) k (c_value n) of None \<Rightarrow> Throw c
        | Some h \<Rightarrow> Ok () ((set_node (c\<lparr>helper := h\<rparr>) k (n\<lparr>c_need_update := False, c_obs_iter := None\<rparr>))\<lparr>q_obsolete := q\<rparr>))"
    show ?thesis
    proof (cases "h_update H (helper c) k (c_value n)")
      case None
      then show ?thesis
        using n(4) by simp
    next
      case (Some h)
      let ?n = "n\<lparr>c_need_update := False, c_obs_iter := None\<rparr>"
      have up: "peek h = (peek (helper c))(k := mem k)" "good h"
        using update_law [OF assms(2) Some] d(3) [OF n(1)] by auto
      have ch: "coherent view peek (c\<lparr>helper := h\<rparr>) W mem"
        by (rule coherent_helper [OF assms(1)]) (simp add: up)
      obtain n' where n': "map_of (cmap c) k = Some n'"
        "cache_inv ((set_node (c\<lparr>helper := h\<rparr>) k (n'\<lparr>c_need_update := False, c_obs_iter := None\<rparr>))\<lparr>q_obsolete := q\<rparr>)"
        using update_one_ok [OF d(1), of b k q, where h = h and H = H] Cons bk by blast
      then have inv: "cache_inv ((set_node (c\<lparr>helper := h\<rparr>) k ?n)\<lparr>q_obsolete := q\<rparr>)"
        using n(1) by simp
      have "coherent view peek ((set_node (c\<lparr>helper := h\<rparr>) k ?n)\<lparr>q_obsolete := q\<rparr>) W mem"
        using d(2) [of k] n(1,3) d(3) [OF n(1)]
        by (intro coherent_set_node [OF ch inv, of k ?n]) (auto simp: up)
      then show ?thesis
        using n(4) Some up(2) by simp
    qed
  qed
qed

lemma remove_coherent:
  assumes "coherent view peek c W mem" "good (helper c)" "\<not> held c k"
  shows "(\<exists>d. cache_remove H c k = Ok () d \<and> coherent view peek d W mem \<and> good (helper d)) \<or> cache_remove H c k = Throw c"
proof (cases "map_of (cmap c) k")
  case None
  then show ?thesis
    by (simp add: cache_remove_def)
next
  case (Some n)
  note d = coherentD [OF assms(1)]
  have n: "c_inst n = 0"
    using assms(3) Some by (simp add: held_def)
  have ok: "c_obs_iter n \<noteq> None \<longleftrightarrow> c_need_update n"
    using cache_invD(2) [OF d(1) Some] n by (auto simp: node_ok_def)
  have kW: "k \<notin> W"
    using d(2) [of k] Some n by auto
  have out: "then_do (sure (idle_erase (node_release H c' k (c_value n)) n)) (\<lambda>_ c. Ok () (map_erase H c k)) =
      Ok () (discard H (c\<lparr>helper := h\<rparr>) k n)"
    if c': "c' = c\<lparr>helper := h, q_obsolete := without k (q_obsolete c)\<rparr>" for c' h
  proof -
    have "idle_erase (c\<lparr>helper := g\<rparr>) n = Some (c\<lparr>helper := g, q_temporary := without k (q_temporary c),
        q_persistent := without k (q_persistent c)\<rparr>)" for g
      using idle_erase_ok [of "c\<lparr>helper := g\<rparr>" k n n] d(1) Some n by simp
    then have "idle_erase (c\<lparr>helper := g, q_obsolete := q\<rparr>) n = Some (c\<lparr>helper := g, q_temporary := without k (q_temporary c),
        q_persistent := without k (q_persistent c), q_obsolete := q\<rparr>)" for g q
      using idle_erase_obsolete [where c = "c\<lparr>helper := g\<rparr>" and q = q and n = n] by simp
    then show ?thesis
      using Some unfolding c'
      by (cases c) (simp add: sure_def node_release_eq map_erase_def discard_def evict_def unqueue_def)
  qed
  show ?thesis
  proof (cases "c_need_update n")
    case False
    then have "without k (q_obsolete c) = q_obsolete c"
      using without_id(3) [OF d(1) Some] ok by simp
    then have "cache_remove H c k = Ok () (discard H c k n)"
      using Some n False out [of c "helper c"] by (simp add: cache_remove_def)
    moreover have "peek (helper c) k = mem k"
      using d(4) [OF Some] False kW by simp
    ultimately show ?thesis
      using discard_coherent [OF assms(1) Some n] assms(2) by simp
  next
    case True
    show ?thesis
    proof (cases "h_update H (helper c) k (c_value n)")
      case None
      then show ?thesis
        using Some n True by (simp add: cache_remove_def node_update_def)
    next
      case h: (Some h)
      have up: "peek h = (peek (helper c))(k := mem k)" "good h"
        using update_law [OF assms(2) h] d(3) [OF Some] by auto
      have ch: "coherent view peek (c\<lparr>helper := h\<rparr>) W mem"
        by (rule coherent_helper [OF assms(1)]) (simp add: up)
      have "obs_erase (c\<lparr>helper := h\<rparr>) n = Some (c\<lparr>helper := h, q_obsolete := without k (q_obsolete c)\<rparr>)"
        using obs_erase_ok [of "c\<lparr>helper := h\<rparr>" _ k n n] cache_invD(5) [OF d(1)] Some by simp
      then have "cache_remove H c k = Ok () (discard H (c\<lparr>helper := h\<rparr>) k n)"
        using Some n True ok h out [OF refl, of h] by (simp add: cache_remove_def node_update_def sure_def)
      then show ?thesis
        using discard_coherent [OF ch, of k n] Some n up by simp
    qed
  qed
qed

end

context backing_store
begin

text \<open>One step of a client that keeps its side of the contract.\<close>

lemma client_step_coherent:
  assumes "coherent view peek c W mem" "good (helper c)" "client_ok op c W"
  shows "(\<exists>d. client_step H cmp op c = Ok () d \<and> coherent view peek d (client_written op W) (client_mem view op mem) \<and> good (helper d)) \<or>
    (\<exists>d. client_step H cmp op c = Throw d \<and>
      (op = Update_all \<or> op = Update_ordered \<or> coherent view peek d W mem \<and> good (helper d)))"
proof (cases op)
  case (Get k now)
  then show ?thesis
    using get_coherent [OF assms(1,2), of k now] assms(3) by auto
next
  case (Put k now need)
  then show ?thesis
    using put_coherent [OF assms(1), of k need now] assms(2,3) by (auto simp: sure_def)
next
  case (Write k v)
  then obtain n where "map_of (cmap c) k = Some n" "c_inst n \<noteq> 0"
    using assms(3) by (auto simp: held_def)
  then show ?thesis
    using write_coherent [OF assms(1), of k n v] assms(2) Write by simp
next
  case Update_one
  then show ?thesis
    using update_one_coherent [OF assms(1,2)] assms(1,2) by auto
next
  case Update_all
  obtain ks where ks: "set ks = snd ` set (q_obsolete c)" "distinct ks"
    "update_all H c = then_do (update_nodes H ks c) (\<lambda>_ c. Ok () (c\<lparr>q_obsolete := []\<rparr>))"
    using update_all_ok [OF coherentD(1) [OF assms(1)]] by blast
  then show ?thesis
    using flushed_coherent [OF assms(1,2) ks(1,2) refl] Update_all by auto
next
  case Update_ordered
  obtain ks where ks: "set ks = snd ` set (q_obsolete c)" "distinct ks"
    "update_all_with_order H cmp c = then_do (update_nodes H ks c) (\<lambda>_ c. Ok () (c\<lparr>q_obsolete := []\<rparr>))"
    using update_ordered_ok [OF coherentD(1) [OF assms(1)]] by blast
  then show ?thesis
    using flushed_coherent [OF assms(1,2) ks(1,2) refl] Update_ordered by auto
next
  case (Remove k)
  then show ?thesis
    using remove_coherent [OF assms(1,2), of k] assms by auto
qed

end

text \<open>The states a client can bring about; an exception of the two flushes ends the run.\<close>

inductive client_reach ::
  "('h, 'k, 'v) helper_fns \<Rightarrow> ('k \<Rightarrow> 'k \<Rightarrow> bool) \<Rightarrow> ('v \<Rightarrow> 'd) \<Rightarrow> ('h \<Rightarrow> 'k \<Rightarrow> 'd) \<Rightarrow> 'h \<Rightarrow>
   ('h, 'k, 'v) cache \<Rightarrow> 'k set \<Rightarrow> ('k \<Rightarrow> 'd) \<Rightarrow> bool" for H cmp view peek h where
  reach_new: "client_reach H cmp view peek h (cache_new h) {} (peek h)"
| reach_step: "client_reach H cmp view peek h c W mem \<Longrightarrow> client_ok op c W \<Longrightarrow> client_step H cmp op c = Ok () d \<Longrightarrow>
    client_reach H cmp view peek h d (client_written op W) (client_mem view op mem)"
| reach_throw: "client_reach H cmp view peek h c W mem \<Longrightarrow> client_ok op c W \<Longrightarrow> client_step H cmp op c = Throw d \<Longrightarrow>
    op \<noteq> Update_all \<Longrightarrow> op \<noteq> Update_ordered \<Longrightarrow> client_reach H cmp view peek h d W mem"

lemma cache_new_coherent: "coherent view peek (cache_new h) {} (peek h)"
  by (simp add: coherent_def cache_new_def cache_inv_def queue_ok_def handle_of_def)

context backing_store
begin

lemma reach_coherent:
  "client_reach H cmp view peek h c W mem \<Longrightarrow> good h \<Longrightarrow> coherent view peek c W mem \<and> good (helper c)"
proof (induction rule: client_reach.induct)
  case reach_new
  then show ?case
    using cache_new_coherent [of view peek h] by (simp add: cache_new_def)
next
  case (reach_step c W mem op d)
  then show ?case
    using client_step_coherent [of c W mem op cmp] by auto
next
  case (reach_throw c W mem op d)
  then show ?case
    using client_step_coherent [of c W mem op cmp] by auto
qed

end


section \<open>The properties of the cache\<close>

text \<open>
  Property C3. A client that keeps its side of the contract never drives the cache into an assertion
  or an undefined access, and every value it sees through the cache is the last one written to that
  key, across evictions, write-backs and the exceptions of \<open>get\<close>, \<open>update_one\<close> and \<open>remove\<close>.
\<close>

theorem cache_is_memory:
  assumes "backing_store H view peek good" "good h" "client_reach H cmp view peek h c W mem"
  shows "(\<forall>k. case map_of (cmap c) k of None \<Rightarrow> peek (helper c) k = mem k | Some n \<Rightarrow> view (c_value n) = mem k) \<and>
    (\<forall>op. client_ok op c W \<longrightarrow> client_step H cmp op c \<noteq> Stuck)"
proof (intro conjI allI impI)
  have co: "coherent view peek c W mem" "good (helper c)"
    using backing_store.reach_coherent [OF assms(1,3,2)] by auto
  show "case map_of (cmap c) k of None \<Rightarrow> peek (helper c) k = mem k | Some n \<Rightarrow> view (c_value n) = mem k" for k
    using coherentD(3,5) [OF co(1)] by (simp split: option.split)
  show "client_step H cmp op c \<noteq> Stuck" if "client_ok op c W" for op
    using backing_store.client_step_coherent [OF assms(1) co that, of cmp] by auto
qed

text \<open>
  Property C22. When \<open>update_all\<close> or \<open>update_all_with_order\<close> returns, the backing store holds the
  current value of every key that is not held at the moment, whatever the order of the writes.
\<close>

theorem flush_writes_everything:
  assumes "backing_store H view peek good" "good h" "client_reach H cmp view peek h c W mem"
    and "update_all H c = Ok () d \<or> update_all_with_order H cmp c = Ok () d"
  shows "\<forall>k. \<not> held d k \<longrightarrow> peek (helper d) k = mem k"
proof -
  have co: "coherent view peek c W mem" "good (helper c)"
    using backing_store.reach_coherent [OF assms(1,3,2)] by auto
  have inv: "cache_inv c"
    by (rule coherentD(1) [OF co(1)])
  obtain ks where ks: "set ks = snd ` set (q_obsolete c)" "distinct ks"
    "then_do (update_nodes H ks c) (\<lambda>_ c. Ok () (c\<lparr>q_obsolete := []\<rparr>)) = Ok () d"
    using assms(4) update_all_ok [OF inv, of H] update_ordered_ok [OF inv, of H cmp] by metis
  show ?thesis
    using backing_medium.flushed_coherent [OF backing_store.axioms(1) [OF assms(1)] co ks(1,2) refl] ks(3) by auto
qed

definition clean_in :: "('h, 'k, 'v) cache \<Rightarrow> 'k \<Rightarrow> bool" where
  "clean_in c k \<longleftrightarrow> \<not> stale c k"

definition victim :: "('h, 'k, 'v) cache \<Rightarrow> 'k option" where
  "victim c = (case filter (clean_in c) (map snd (q_temporary c)) @ map snd (q_temporary c) @ map snd (q_persistent c) of
     [] \<Rightarrow> None | k # _ \<Rightarrow> Some k)"

lemma length_dom: "distinct (map fst xs) \<Longrightarrow> length xs = card (dom (map_of xs))"
  by (metis distinct_card dom_map_of_conv_image_fst length_map set_map)

lemma total_size_discard:
  assumes "distinct (map fst (cmap c))" "map_of (cmap c) k = Some n"
  shows "total_size (discard H c k n) = total_size c - 1"
proof -
  have "dom (map_of (AList.delete k (cmap c))) = dom (map_of (cmap c)) - {k}"
    by (auto simp: delete_conv')
  then have "card (dom (map_of (AList.delete k (cmap c)))) = card (dom (map_of (cmap c))) - 1"
    using assms(2) by (simp add: domI)
  then show ?thesis
    unfolding total_size_def discard_sel length_dom [OF assms(1)] length_dom [OF distinct_delete [OF assms(1)]] .
qed

lemma drop_clean_skip:
  assumes "cache_inv c" "\<forall>(a, k) \<in> set it. stale c k" "\<not> can_create H c key"
  shows "drop_clean H key (it @ it') c = drop_clean H key it' c"
  using assms(2)
proof (induction it)
  case (Cons x it)
  then obtain a k n where "x = (a, k)" "map_of (cmap c) k = Some n" "c_need_update n"
    by (cases x) (auto simp: stale_def)
  then show ?case
    using Cons assms(3) by simp
qed simp

lemma keys_delete: "fst ` set (AList.delete k m) = fst ` set m - {k}"
  using arg_cong [OF delete_keys [of k m], of set] by simp

lemma drops_with_room: "can_create H c key \<Longrightarrow> drop_clean H key it c = Ok () c"
  "can_create H c key \<Longrightarrow> drop_obsolete H key it c = Ok () c"
  "can_create H c key \<Longrightarrow> drop_persistent H key it c = Ok () c"
  by (cases it; auto)+

text \<open>With a helper that bounds the size and never fails, one eviction makes room.\<close>

lemma reserve_evicts_victim:
  assumes "cache_inv c" "\<And>h n j. h_can_create H h n j \<longleftrightarrow> n < cap" "total_size c = cap" "0 < cap"
    and "\<And>h j v. h_update H h j v \<noteq> None"
  shows "case victim c of
      None \<Rightarrow> reserve_space H c key = Throw c \<and> (\<forall>k n. map_of (cmap c) k = Some n \<longrightarrow> c_inst n \<noteq> 0)
    | Some k \<Rightarrow> \<exists>e n. reserve_space H c key = Ok () (discard H e k n) \<and> cmap e = cmap c"
proof -
  have room: "can_create H e key \<longleftrightarrow> total_size e < cap" for e
    by (simp add: can_create_def assms(2))
  have full: "\<not> can_create H c key"
    by (simp add: room assms(3))
  have after: "can_create H (discard H e k n) key" if "cmap e = cmap c" "map_of (cmap c) k = Some n" for e k n
    using total_size_discard [of e k n] that cache_invD(1) [OF assms(1)] assms(3,4) by (simp add: room total_size_def)
  show ?thesis
  proof (cases "filter (clean_in c) (map snd (q_temporary c))")
    case (Cons k ks)
    then have "filter (clean_in c) (map snd (q_temporary c)) \<noteq> []"
      by simp
    then have "\<exists>x \<in> set (q_temporary c). clean_in c (snd x)"
      by (simp add: filter_empty_conv)
    then obtain it x it' where sp: "q_temporary c = it @ x # it'" "clean_in c (snd x)" "\<forall>y \<in> set it. \<not> clean_in c (snd y)"
      using split_list_first_prop [of "q_temporary c" "\<lambda>x. clean_in c (snd x)"] by blast
    have k: "snd x = k"
    proof -
      have "filter (clean_in c) (map snd it) = []"
        using sp(3) by (simp add: filter_empty_conv)
      then show ?thesis
        using Cons sp(1,2) by simp
    qed
    then obtain a where x: "x = (a, k)"
      by (cases x) auto
    have mem: "(a, k) \<in> set (q_temporary c)"
      using sp(1) x by simp
    obtain n where n: "map_of (cmap c) k = Some n"
      using temporary_node [OF assms(1) mem] .
    have "\<not> c_need_update n"
      using sp(2) k n by (simp add: clean_in_def stale_def)
    then have "drop_clean H key (q_temporary c) c = drop_clean H key it' (discard H c k n)"
      using sp(1,3) drop_clean_skip [OF assms(1) _ full, of it "(a, k) # it'"] drop_clean_step [OF assms(1) mem n _ full, of it'] x
      by (simp add: clean_in_def split_beta del: drop_clean.simps)
    also have "\<dots> = Ok () (discard H c k n)"
      by (rule drops_with_room(1) [OF after [OF refl n]])
    finally have "reserve_space H c key = Ok () (discard H c k n)"
      using full after [OF refl n] by (simp add: reserve_space_def)
    moreover have "victim c = Some k"
      using Cons by (simp add: victim_def)
    ultimately show ?thesis
      by auto
  next
    case Nil
    then have st: "\<forall>x \<in> set (q_temporary c). stale c (snd x)"
      by (simp add: filter_empty_conv clean_in_def)
    have clean: "drop_clean H key (q_temporary c) c = Ok () c"
      using drop_clean_skip [OF assms(1) _ full, of "q_temporary c" "[]"] st by (simp add: split_beta)
    show ?thesis
    proof (cases "q_temporary c")
      case (Cons x it)
      obtain a k where x: "x = (a, k)"
        by (cases x)
      have mem: "(a, k) \<in> set (q_temporary c)"
        using Cons x by simp
      obtain n where n: "map_of (cmap c) k = Some n" "c_need_update n"
        using st mem by (auto simp: stale_def)
      obtain h where h: "h_update H (helper c) k (c_value n) = Some h"
        using assms(5) by blast
      have "drop_obsolete H key (q_temporary c) c = drop_obsolete H key it (discard H (c\<lparr>helper := h\<rparr>) k n)"
        using drop_obsolete_step [OF assms(1) mem n full] h Cons x by simp
      also have "\<dots> = Ok () (discard H (c\<lparr>helper := h\<rparr>) k n)"
        by (rule drops_with_room(2) [OF after]) (simp_all add: n)
      finally have "reserve_space H c key = Ok () (discard H (c\<lparr>helper := h\<rparr>) k n)"
        using full clean after [of "c\<lparr>helper := h\<rparr>" k n] n by (simp add: reserve_space_def)
      moreover have "victim c = Some k"
        using Nil Cons x by (simp add: victim_def)
      ultimately show ?thesis
        by (auto intro!: exI [of _ "c\<lparr>helper := h\<rparr>"])
    next
      case none: Nil
      show ?thesis
      proof (cases "q_persistent c")
        case Nil
        then have "reserve_space H c key = Throw c"
          using full none by (simp add: reserve_space_def)
        then show ?thesis
          using none Nil queues_empty_busy [OF assms(1) none Nil] by (simp add: victim_def)
      next
        case (Cons x it)
        obtain a k where x: "x = (a, k)"
          by (cases x)
        have mem: "(a, k) \<in> set (q_persistent c)"
          using Cons x by simp
        obtain n where n: "map_of (cmap c) k = Some n"
          using persistent_node [OF assms(1) mem] .
        obtain h where h: "h_update H (helper c) k (c_value n) = Some h"
          using assms(5) by blast
        define e where "e = (if c_need_update n then c\<lparr>helper := h\<rparr> else c)"
        have "drop_persistent H key (q_persistent c) c = drop_persistent H key it (discard H e k n)"
          using drop_persistent_step [OF assms(1) mem n full] h Cons x by (simp add: e_def)
        also have "\<dots> = Ok () (discard H e k n)"
          by (rule drops_with_room(3) [OF after]) (simp_all add: n e_def)
        finally have "reserve_space H c key = Ok () (discard H e k n)"
          using full none after [of e k n] n by (simp add: reserve_space_def e_def)
        moreover have "victim c = Some k" "cmap e = cmap c"
          using none Cons x by (simp_all add: victim_def e_def)
        ultimately show ?thesis
          by auto
      qed
    qed
  qed
qed



text \<open>
  \<open>erase\<close> with a helper that has an \<open>erase\<close> but no \<open>release\<close> (the helper of the link log)
  drops the cached value and never calls the helper's \<open>erase\<close>: the entry stays in the backing store.
\<close>

theorem erase_keeps_store:
  assumes "backing_medium H view peek good" "h_release H = None" "cache_inv c" "\<not> held c k" "good (helper c)"
  shows "\<exists>d. cache_erase H c k = Ok () d \<and> map_of (cmap d) k = None \<and> peek (helper d) = peek (helper c)"
proof (cases "map_of (cmap c) k")
  case None
  then show ?thesis
    using assms(2) by (simp add: cache_erase_def)
next
  case (Some n)
  have n: "c_inst n = 0"
    using assms(4) Some by (simp add: held_def)
  have ok: "c_obs_iter n \<noteq> None \<longleftrightarrow> c_need_update n"
    using cache_invD(2) [OF assms(3) Some] n by (auto simp: node_ok_def)
  have idle: "idle_erase c n = Some (c\<lparr>q_temporary := without k (q_temporary c), q_persistent := without k (q_persistent c)\<rparr>)"
    by (rule idle_erase_ok [OF assms(3) Some n]) simp_all
  have obs: "obs_erase c n = Some (c\<lparr>q_obsolete := without k (q_obsolete c)\<rparr>)"
    by (rule obs_erase_ok [OF cache_invD(5) [OF assms(3)] Some refl])
  have peek: "peek (h_drop H (helper c) v) = peek (helper c)" for v
    using backing_medium.drop_law [OF assms(1,5)] by simp
  show ?thesis
  proof (cases "c_need_update n")
    case True
    then show ?thesis
      using assms(2) Some n ok idle obs
      by (auto simp: cache_erase_def Let_def sure_def idle_erase_obsolete map_erase_def delete_conv' peek)
  next
    case False
    then show ?thesis
      using assms(2) Some n idle by (auto simp: cache_erase_def Let_def sure_def map_erase_def delete_conv' peek)
  qed
qed

text \<open>
  Property C32. When the write of the second obsolete entry throws, \<open>update_all\<close> leaves the first one
  in the obsolete queue although it is clean by now: the next \<open>update_one\<close> fails its assertion.
\<close>

theorem update_all_not_exception_safe:
  assumes "cache_inv c" "q_obsolete c = (b, k) # (b', k') # q"
    and "h_update H (helper c) k (node_value c k) = Some h" "h_update H h k' (node_value c k') = None"
  shows "\<exists>d. update_all H c = Throw d \<and> update_one H d = Stuck"
proof -
  obtain n where n: "map_of (cmap c) k = Some n" "c_need_update n" "c_inst n = 0"
    using obsolete_node [OF assms(1), of k] assms(2) by auto
  obtain n' where n': "map_of (cmap c) k' = Some n'" "c_need_update n'" "c_inst n' = 0"
    using obsolete_node [OF assms(1), of k'] assms(2) by auto
  have "k' \<noteq> k"
    using queue_ok_distinct_keys [OF cache_invD(5) [OF assms(1)]] assms(2) by auto
  let ?d = "set_node (c\<lparr>helper := h\<rparr>) k (n\<lparr>c_need_update := False, c_obs_iter := None\<rparr>)"
  have v: "node_value c k = c_value n" "node_value c k' = c_value n'"
    using n(1) n'(1) by (simp_all add: node_value_def)
  have "update_node H c k = Ok () ?d"
    using update_node_ok [OF n, of H] assms(3) v by simp
  moreover have "map_of (cmap ?d) k' = Some n'"
    using n'(1) \<open>k' \<noteq> k\<close> by (simp add: update_conv')
  then have "update_node H ?d k' = Throw ?d"
    using update_node_ok [OF _ n'(2,3), of ?d k' H] assms(4) v by simp
  ultimately have "update_all H c = Throw ?d"
    by (simp add: update_all_def assms(2))
  moreover have "update_one H ?d = Stuck"
    using n(1) by (simp add: update_one_def assms(2) update_node_def update_conv')
  ultimately show ?thesis
    by blast
qed

section \<open>Concrete runs\<close>

text \<open>A helper over a store of numbers: at most \<open>cap\<close> entries, writes of the keys in \<open>bad\<close> fail.\<close>

definition store_fns :: "nat \<Rightarrow> nat set \<Rightarrow> (nat \<Rightarrow> nat, nat, nat) helper_fns" where
  "store_fns cap bad = \<lparr>h_can_create = (\<lambda>h n k. n < cap), h_create = (\<lambda>h k. Some (h k, h)),
     h_update = (\<lambda>h k v. if k \<in> bad then None else Some (h(k := v))), h_release = None,
     h_release_key = (\<lambda>h k. h), h_erase = (\<lambda>h k. Some (h(k := 0))), h_drop = (\<lambda>h v. h)\<rparr>"

lemma store_backing: "backing_store (store_fns cap bad) (\<lambda>v. v) (\<lambda>h. h) (\<lambda>h. True)"
  by unfold_locales (auto simp: store_fns_def split: if_splits)

text \<open>Two entries held and written in turn; both wait in the temporary and the obsolete queue.\<close>

definition two_dirty :: "(nat \<Rightarrow> nat, nat, nat) cache" where
  "two_dirty = \<lparr>helper = (\<lambda>k. 0),
     cmap = [(1, \<lparr>c_value = 11, c_need_update = True, c_persistent = False, c_inst = 0, c_time = 0,
               c_iter = Some 0, c_obs_iter = Some 1\<rparr>),
             (2, \<lparr>c_value = 22, c_need_update = True, c_persistent = False, c_inst = 0, c_time = 0,
               c_iter = Some 2, c_obs_iter = Some 3\<rparr>)],
     q_persistent = [], q_temporary = [(0, 1), (2, 2)], q_obsolete = [(1, 1), (3, 2)], next_handle = 4\<rparr>"

fun run_client ::
  "('h, 'k, 'v) helper_fns \<Rightarrow> ('k \<Rightarrow> 'k \<Rightarrow> bool) \<Rightarrow> ('k, 'v) client_op list \<Rightarrow>
   ('h, 'k, 'v) cache \<Rightarrow> 'k set \<Rightarrow> ('k \<Rightarrow> 'v) \<Rightarrow> (('h, 'k, 'v) cache \<times> 'k set \<times> ('k \<Rightarrow> 'v)) option" where
  "run_client H cmp [] c W mem = Some (c, W, mem)"
| "run_client H cmp (op # ops) c W mem =
     (if client_ok op c W
      then (case client_step H cmp op c of Ok _ d \<Rightarrow> run_client H cmp ops d (client_written op W) (client_mem (\<lambda>v. v) op mem) | _ \<Rightarrow> None)
      else None)"

lemma run_client_reach:
  "run_client H cmp ops c W mem = Some (d, V, m) \<Longrightarrow> client_reach H cmp (\<lambda>v. v) peek h c W mem \<Longrightarrow> client_reach H cmp (\<lambda>v. v) peek h d V m"
proof (induction ops arbitrary: c W mem)
  case (Cons op ops)
  then show ?case
    by (auto split: if_splits outcome.splits intro: reach_step)
qed simp

lemma two_dirty_run:
  "run_client (store_fns 2 bad) (<) [Get 1 0, Write 1 11, Put 1 0 True, Get 2 0, Write 2 22, Put 2 0 True]
     (cache_new (\<lambda>k. 0)) {} (\<lambda>k. 0) = Some (two_dirty, {}, (\<lambda>k. 0)(1 := 11, 2 := 22))"
  by (simp add: cache_new_def cache_get_def reserve_space_def can_create_def total_size_def store_fns_def set_node_def
      cache_put_def put_change_def sure_def threshold_time_def two_dirty_def held_def)

lemma two_dirty_reach:
  "client_reach (store_fns 2 bad) (<) (\<lambda>v. v) (\<lambda>h. h) (\<lambda>k. 0) two_dirty {} ((\<lambda>k. 0)(1 := 11, 2 := 22))"
  proof (rule run_client_reach [OF two_dirty_run])
  show "client_reach (store_fns 2 bad) (<) (\<lambda>v. v) (\<lambda>h. h) (\<lambda>k. 0) (cache_new (\<lambda>k. 0)) {} (\<lambda>k. 0)"
    by (rule reach_new)
qed

lemma two_dirty_inv: "cache_inv two_dirty"
  using backing_store.reach_coherent [OF store_backing two_dirty_reach [of "{}"] TrueI] by (simp add: coherent_def)

lemma two_dirty_value: "map_of (cmap two_dirty) 2 = Some \<lparr>c_value = 22, c_need_update = True, c_persistent = False,
    c_inst = 0, c_time = 0, c_iter = Some 2, c_obs_iter = Some 3\<rparr>"
  by (simp add: two_dirty_def)

lemma two_dirty_get: "client_ok (Get 3 9) two_dirty {}"
  by (simp add: two_dirty_def)

lemma cache_is_memory_witness:
  "(case map_of (cmap two_dirty) 2 of None \<Rightarrow> helper two_dirty 2 = 22 | Some n \<Rightarrow> c_value n = 22) \<and>
   client_step (store_fns 2 {}) (<) (Get 3 9) two_dirty \<noteq> Stuck"
proof -
  note mem = cache_is_memory [OF store_backing TrueI two_dirty_reach [of "{}"]]
  show ?thesis
    using mem [THEN conjunct1, rule_format, of 2] mem [THEN conjunct2, rule_format, OF two_dirty_get]
    by (simp add: two_dirty_value)
qed

definition two_clean :: "(nat \<Rightarrow> nat, nat, nat) cache" where
  "two_clean = \<lparr>helper = (\<lambda>k. 0)(1 := 11, 2 := 22),
     cmap = [(1, \<lparr>c_value = 11, c_need_update = False, c_persistent = False, c_inst = 0, c_time = 0,
               c_iter = Some 0, c_obs_iter = None\<rparr>),
             (2, \<lparr>c_value = 22, c_need_update = False, c_persistent = False, c_inst = 0, c_time = 0,
               c_iter = Some 2, c_obs_iter = None\<rparr>)],
     q_persistent = [], q_temporary = [(0, 1), (2, 2)], q_obsolete = [], next_handle = 4\<rparr>"

lemma two_dirty_flush: "update_all (store_fns 2 {}) two_dirty = Ok () two_clean"
  by (simp add: update_all_def two_dirty_def two_clean_def update_node_def node_update_def store_fns_def set_node_def)

lemma flush_writes_everything_witness: "helper two_clean 1 = ((\<lambda>k. 0)(1 := 11, 2 := 22)) (1 :: nat)"
  using flush_writes_everything [OF store_backing _ two_dirty_reach, of "{}" two_clean] two_dirty_flush
  by (simp add: held_def two_clean_def)


lemma erase_keeps_store_witness:
  "\<exists>d. cache_erase (store_fns 2 {}) two_dirty 1 = Ok () d \<and> map_of (cmap d) 1 = None \<and> helper d = helper two_dirty"
  by (rule erase_keeps_store [OF backing_store.axioms(1) [OF store_backing] _ two_dirty_inv]) (simp_all add: store_fns_def held_def two_dirty_def)

lemma update_all_not_exception_safe_witness:
  "\<exists>d. update_all (store_fns 2 {2}) two_dirty = Throw d \<and> update_one (store_fns 2 {2}) d = Stuck"
  by (rule update_all_not_exception_safe [OF two_dirty_inv, of 1 1 3 2 "[]" _ "(\<lambda>k. 0)(1 := 11)"])
    (simp_all add: store_fns_def two_dirty_def node_value_def)

end
