(* ===== verification/NetErrors.thy ===== *)
theory NetErrors
  imports Prelude
begin

text \<open>
  Error marks of the network layer: \<open>Net/error/error_mark.hpp\<close> and \<open>Net/error/src/errors.cpp\<close>.
  An \<open>error_mark\<close> pairs the kind of call that failed with the \<open>errno\<close> it left; \<open>get_error\<close> turns
  it into a message. The \<open>errno\<close> constants have the values of \<open><cerrno>\<close> on Linux. Every \<open>switch\<close>
  is a chain of conditionals in the order of its cases; two labels of one case are a disjunction.
  The lemmas show which call and which code a message identifies.
\<close>

section \<open>Error marks\<close>

datatype error_types =
  Null | Socket | Close | Read | Write | Connect | Bind
  | Listen | Accept | Shutdown | Sendfile | Encoding | Select | Poll
  | Epoll_create | Epoll_wait | Epoll_ctl | Socket_opt | ErrorEvent | TimeoutEvent | UnexpectedShutdown

record error_mark =
  types :: error_types
  codes :: int

text \<open>A default-constructed mark.\<close>

definition error_mark_init :: error_mark where
  "error_mark_init = \<lparr>types = Null, codes = -1\<rparr>"

text \<open>\<open>static_cast<int>(type)\<close>: the position of the enumerator.\<close>

fun error_type_code :: "error_types \<Rightarrow> nat" where
  "error_type_code Null = 0"
| "error_type_code Socket = 1"
| "error_type_code Close = 2"
| "error_type_code Read = 3"
| "error_type_code Write = 4"
| "error_type_code Connect = 5"
| "error_type_code Bind = 6"
| "error_type_code Listen = 7"
| "error_type_code Accept = 8"
| "error_type_code Shutdown = 9"
| "error_type_code Sendfile = 10"
| "error_type_code Encoding = 11"
| "error_type_code Select = 12"
| "error_type_code Poll = 13"
| "error_type_code Epoll_create = 14"
| "error_type_code Epoll_wait = 15"
| "error_type_code Epoll_ctl = 16"
| "error_type_code Socket_opt = 17"
| "error_type_code ErrorEvent = 18"
| "error_type_code TimeoutEvent = 19"
| "error_type_code UnexpectedShutdown = 20"

definition error_type_names :: "string list" where
  "error_type_names =
    [''Null'', ''Socket'', ''Close'', ''Read'', ''Write'', ''Connect'',
     ''Bind'', ''Listen'', ''Accept'', ''Shutdown'', ''Sendfile'', ''Encoding'',
     ''Poll'', ''Epoll_create'', ''Socket_opt'', ''Epoll_wait'', ''Epoll_ctl'', ''Socket_opt'',
     ''ErrorEvent'', ''TimeoutEvent'', ''UnexpectedShutdown'']"

definition get_error_type_name :: "error_types \<Rightarrow> string option" where
  "get_error_type_name type = vget error_type_names (error_type_code type)"

section \<open>The constants of \<open>errno\<close>\<close>

abbreviation (input) E2BIG :: int where "E2BIG \<equiv> 7"
abbreviation (input) EACCES :: int where "EACCES \<equiv> 13"
abbreviation (input) EADDRINUSE :: int where "EADDRINUSE \<equiv> 98"
abbreviation (input) EADDRNOTAVAIL :: int where "EADDRNOTAVAIL \<equiv> 99"
abbreviation (input) EAFNOSUPPORT :: int where "EAFNOSUPPORT \<equiv> 97"
abbreviation (input) EAGAIN :: int where "EAGAIN \<equiv> 11"
abbreviation (input) EALREADY :: int where "EALREADY \<equiv> 114"
abbreviation (input) EBADE :: int where "EBADE \<equiv> 52"
abbreviation (input) EBADF :: int where "EBADF \<equiv> 9"
abbreviation (input) ECONNABORTED :: int where "ECONNABORTED \<equiv> 103"
abbreviation (input) ECONNREFUSED :: int where "ECONNREFUSED \<equiv> 111"
abbreviation (input) EDESTADDRREQ :: int where "EDESTADDRREQ \<equiv> 89"
abbreviation (input) EDQUOT :: int where "EDQUOT \<equiv> 122"
abbreviation (input) EEXIST :: int where "EEXIST \<equiv> 17"
abbreviation (input) EFAULT :: int where "EFAULT \<equiv> 14"
abbreviation (input) EFBIG :: int where "EFBIG \<equiv> 27"
abbreviation (input) EILSEQ :: int where "EILSEQ \<equiv> 84"
abbreviation (input) EINPROGRESS :: int where "EINPROGRESS \<equiv> 115"
abbreviation (input) EINTR :: int where "EINTR \<equiv> 4"
abbreviation (input) EINVAL :: int where "EINVAL \<equiv> 22"
abbreviation (input) EIO :: int where "EIO \<equiv> 5"
abbreviation (input) EISCONN :: int where "EISCONN \<equiv> 106"
abbreviation (input) ELOOP :: int where "ELOOP \<equiv> 40"
abbreviation (input) EMFILE :: int where "EMFILE \<equiv> 24"
abbreviation (input) ENAMETOOLONG :: int where "ENAMETOOLONG \<equiv> 36"
abbreviation (input) ENETUNREACH :: int where "ENETUNREACH \<equiv> 101"
abbreviation (input) ENOBUFS :: int where "ENOBUFS \<equiv> 105"
abbreviation (input) ENOENT :: int where "ENOENT \<equiv> 2"
abbreviation (input) ENOMEM :: int where "ENOMEM \<equiv> 12"
abbreviation (input) ENOPROTOOPT :: int where "ENOPROTOOPT \<equiv> 92"
abbreviation (input) ENOSPC :: int where "ENOSPC \<equiv> 28"
abbreviation (input) ENOTCONN :: int where "ENOTCONN \<equiv> 107"
abbreviation (input) ENOTDIR :: int where "ENOTDIR \<equiv> 20"
abbreviation (input) ENOTSOCK :: int where "ENOTSOCK \<equiv> 88"
abbreviation (input) EOPNOTSUPP :: int where "EOPNOTSUPP \<equiv> 95"
abbreviation (input) EOVERFLOW :: int where "EOVERFLOW \<equiv> 75"
abbreviation (input) EPERM :: int where "EPERM \<equiv> 1"
abbreviation (input) EPIPE :: int where "EPIPE \<equiv> 32"
abbreviation (input) EPROTO :: int where "EPROTO \<equiv> 71"
abbreviation (input) EPROTONOSUPPORT :: int where "EPROTONOSUPPORT \<equiv> 93"
abbreviation (input) EPROTOTYPE :: int where "EPROTOTYPE \<equiv> 91"
abbreviation (input) EROFS :: int where "EROFS \<equiv> 30"
abbreviation (input) ESPIPE :: int where "ESPIPE \<equiv> 29"
abbreviation (input) ETIMEDOUT :: int where "ETIMEDOUT \<equiv> 110"
abbreviation (input) EWOULDBLOCK :: int where "EWOULDBLOCK \<equiv> 11"

section \<open>Messages\<close>

definition get_socket_error :: "int \<Rightarrow> string" where
  "get_socket_error error =
     (if error = EACCES then ''ops: creation permission is insufficient.''
      else if error = EAFNOSUPPORT then ''ops: not support the specified address family.''
      else if error = EINVAL then ''ops: unknown protocol, or protocol family not available, or invalid flags.''
      else if error = EMFILE then ''ops: the maximum number of sockets can be created.''
      else if error = ENOBUFS \<or> error = ENOMEM then ''ops: insufficient memory is available.''
      else if error = EPROTONOSUPPORT then ''ops: protocol is not supported within this domain.''
      else ''ops: unknown error.'')"

definition get_close_error :: "int \<Rightarrow> string" where
  "get_close_error error =
     (if error = EBADF then ''close: fd isn't a valid open file descriptor.''
      else if error = EINTR then ''close: close() call was interrupted by a signal.''
      else if error = EIO then ''close: I/O error occurred.''
      else ''close: unknown error.'')"

definition get_read_error :: "int \<Rightarrow> string" where
  "get_read_error error =
     (if error = EWOULDBLOCK then ''read: fd has been marked nonblocking,but read() would block.''
      else if error = EBADF then ''read: fd is invalid or is not open for reading.''
      else if error = EFAULT then ''read: buf is outside your accessible address space.''
      else if error = EINTR then ''read: The call was interrupted by a signal before any data was read.''
      else if error = EINVAL then ''read: fd is attached to an object which is unsuitable for reading,or fd was created via a call to timerfd_create(2) and the wrong size Buffer was given to read()''
      else if error = EIO then ''read: I/O error.''
      else ''read: unknown error.'')"

definition get_write_error :: "int \<Rightarrow> string" where
  "get_write_error error =
     (if error = EWOULDBLOCK then ''write: fd marked nonblocking,but write() would block.''
      else if error = EBADF then ''write: fd is invalid or is not open for writing.''
      else if error = EDESTADDRREQ then ''write: fd has not using connect(2).''
      else if error = EDQUOT then ''write: user's quota of disk blocks has been exhausted.''
      else if error = EFAULT then ''write: buf is outside your accessible address space.''
      else if error = EFBIG then ''write: The number of writes exceeds the limit.''
      else if error = EINTR then ''write: call was interrupted by a signal.''
      else if error = EINVAL then ''write: fd is unsuitable for writing, or the file was opened with the O_DIRECT flag, and either the address specified in buf, the value specified in count,or the file offset is not suitably aligned.''
      else if error = EIO then ''write: a low-level I/O error occurred while modifying the inode.''
      else if error = ENOSPC then ''write: The device no room for the data.''
      else if error = EPERM then ''write: operation was prevented by a file seal.''
      else if error = EPIPE then ''write: fd is connected to a pipe or ops whose reading end is closed.''
      else ''write: unknown error.'')"

definition get_connect_error :: "int \<Rightarrow> string" where
  "get_connect_error error =
     (if error = ETIMEDOUT then ''connect: Timeout while attempting connection.''
      else if error = EPERM \<or> error = EACCES then ''connect: permission is denied or tried to connect to a broadcast address without having the ops broadcast flag enabled or the connection request failed because of a local firewall rule.''
      else if error = EADDRINUSE then ''connect: local address is already in use.''
      else if error = EADDRNOTAVAIL then ''connect: fd had not previously been bound to an address.''
      else if error = EAFNOSUPPORT then ''connect: passed address didn't have the correct address family.''
      else if error = EAGAIN then ''connect: for nonblocking sockets: ops is nonblocking,but connect would blocked;for other insufficient entries in the routing cache.''
      else if error = EALREADY then ''connect: ops is nonblocking and a previous connection attempt has not yet been completed.''
      else if error = EFAULT then ''connect: ops structure address is outside the user's address space.''
      else if error = EBADF then ''connect: fd is not a valid open file descriptor.''
      else if error = ECONNREFUSED then ''connect: no one listening on the remote address.''
      else if error = EINTR then ''connect: system call was interrupted by a signal.''
      else if error = EINPROGRESS then ''connect: ops is nonblocking but connect would blocked.''
      else if error = EISCONN then ''connect: ops is already connected.''
      else if error = ENETUNREACH then ''connect: Network is unreachable.''
      else if error = ENOTSOCK then ''connect: fd does not refer to a ops.''
      else if error = EPROTOTYPE then ''connect: ops type does not support the requested protocol.''
      else ''connect: unknown error.'')"

definition get_bind_error :: "int \<Rightarrow> string" where
  "get_bind_error error =
     (if error = EADDRINUSE then ''bind: address is already in use or port number was specified as zero in the ops address structure''
      else if error = EBADF then ''bind: fd is invalid.''
      else if error = EINVAL then ''bind: ops is already bound to an address or addrlen is wrong, or addr is not a valid address''
      else if error = ENOTSOCK then ''bind: fd does not refer to a ops.''
      else if error = EACCES then ''bind: search permission is denied on a component of the path prefix.''
      else if error = EADDRNOTAVAIL then ''bind: nonexistent interface was requested or the requested address was not local.''
      else if error = EFAULT then ''bind: addr points outside the user's accessible address space.''
      else if error = ELOOP then ''bind: Too many symbolic links.''
      else if error = ENAMETOOLONG then ''bind: addr is too long.''
      else if error = ENOENT then ''bind: prefix of the ops pathname does not exist.''
      else if error = ENOMEM then ''bind: Insufficient kernel memory was available.''
      else if error = ENOTDIR then ''bind: A component of the path prefix is not a directory.''
      else if error = EROFS then ''bind: ops inode would reside on a read-only filesystem.''
      else ''bind: unknown error.'')"

definition get_listen_error :: "int \<Rightarrow> string" where
  "get_listen_error error =
     (if error = EACCES then ''listen: the address is protected or search permission is denied on a component of the path prefix.''
      else if error = EADDRINUSE then ''listen: given address is already in use or port number was specified as zero in the ops address structure.''
      else if error = EBADF then ''listen: fd is not a valid file descriptor.''
      else if error = EINVAL then ''listen: ops is already bound to an address, or addrlen is wrong,or addr is not a valid address for this ops's domain.''
      else if error = ENOTSOCK then ''listen: fd does not refer to a ops.''
      else if error = EADDRNOTAVAIL then ''listen: nonexistent interface was requested or the requested address was not local.''
      else if error = EFAULT then ''listen: addr points outside the user's accessible address space.''
      else if error = ELOOP then ''listen: too many symbolic links were encountered in resolving addr.''
      else if error = ENAMETOOLONG then ''listen: addr is too long.''
      else if error = ENOENT then ''listen: component in the directory prefix of the ops pathname does not exist.''
      else if error = ENOMEM then ''listen: insufficient kernel memory was available.''
      else if error = ENOTDIR then ''listen: component of the path prefix is not a directory.''
      else if error = EROFS then ''listen: ops inode would reside on a read-only filesystem.''
      else ''listen: unknown error.'')"

definition get_accept_error :: "int \<Rightarrow> string" where
  "get_accept_error error =
     (if error = EAGAIN then ''accept: nonblocking ops no connections are present to be accepted.''
      else if error = EBADF then ''accept: ops fd is not open.''
      else if error = ECONNABORTED then ''accept: connection has been aborted.''
      else if error = EFAULT then ''accept: addr argument is not in a writable part of the user address space.''
      else if error = EINTR then ''accept: The system call was interrupted by a signal.''
      else if error = EINVAL then ''accept: ops is not listening for connections, or addrlen is invalid''
      else if error = EMFILE then ''accept: the maximum number of sockets can be created.''
      else if error = ENOTSOCK then ''accept: fd does not refer to a ops.''
      else if error = ENOBUFS \<or> error = ENOMEM then ''accept: insufficient memory is available.''
      else if error = EOPNOTSUPP then ''accept: fd is not of type SOCK_STREAM.''
      else if error = EPROTO then ''accept: Protocol error.''
      else ''accept: unknown error.'')"

definition get_shutdown_error :: "int \<Rightarrow> string" where
  "get_shutdown_error error =
     (if error = EBADF then ''shutdown: fd is invalid.''
      else if error = EINVAL then ''shutdown: An invalid value was specified in how.''
      else if error = ENOTCONN then ''shutdown: ops is not connected.''
      else if error = ENOTSOCK then ''shutdown: fd does not refer to a ops.''
      else ''shutdown: unknown error.'')"

definition get_sendfile_error :: "int \<Rightarrow> string" where
  "get_sendfile_error error =
     (if error = EAGAIN then ''Sendfile: Nonblocking I/O selected but cannot send all bytes at once.''
      else if error = EBADE then ''Sendfile: input file was not opened for reading or the output file was not opened for writing.''
      else if error = EFAULT then ''Sendfile: Bad address.''
      else if error = EINVAL then ''Sendfile: fd is not valid or locked, or an mmap(2)-like operation is not available for in_fd, or count is negative, or out_fd has the O_APPEND flag set but not supported.''
      else if error = EIO then ''Sendfile: unspecified error while reading from in_fd.''
      else if error = ENOMEM then ''Sendfile: insufficient memory to read from in_fd.''
      else if error = EOVERFLOW then ''Sendfile: count is too large.''
      else if error = ESPIPE then ''Sendfile: offset is not NULL but the input file is not seekable.''
      else ''Sendfile: unknown error.'')"

definition get_encoding_error :: "int \<Rightarrow> string" where
  "get_encoding_error error =
     (if error = E2BIG then ''Encoding_conversion: output Buffer is insufficient''
      else if error = EILSEQ then ''Encoding_conversion: invalid multibyte sequence''
      else if error = EINVAL then ''Encoding_conversion: incomplete multibyte sequence or The conversion from fromcode to tocode is not supported ''
      else ''Encoding_conversion: unknown error.'')"

definition get_select_error :: "int \<Rightarrow> string" where
  "get_select_error error =
     (if error = EBADF then ''select: an invalid fd was given in one of the sets.(Perhaps fd was already closed, or an error has occurred.) or timeout is invalid.''
      else if error = EINTR then ''select: a signal was caught.''
      else if error = EINVAL then ''select: nfds is negative or exceeds the RLIMIT_NOFILE resource limit.''
      else if error = ENOMEM then ''select: Unable to allocate memory for internal tables.''
      else ''select: unknown error.'')"

definition get_poll_error :: "int \<Rightarrow> string" where
  "get_poll_error error =
     (if error = EFAULT then ''poll: fds points outside the process's accessible address space.''
      else if error = EINTR then ''poll: a signal occurred before any requested event.''
      else if error = EINVAL then ''poll: nfds value exceeds the RLIMIT_NOFILE value or (ppoll())  The  timeout value expressed in *ip is invalid''
      else if error = ENOMEM then ''poll: unable to allocate memory for kernel data structures.''
      else ''poll: unknown error.'')"

definition get_epoll_create_error :: "int \<Rightarrow> string" where
  "get_epoll_create_error error =
     (if error = EINVAL then ''epoll_create: size is not positive or (epoll_create1()) invalid value specified in flags.''
      else if error = EMFILE then ''epoll_create: The number of epoll instances reaches the user limit(control by /proc/sys/fs/epoll/max_user_instances) or the number of fd reaches process/system limit.''
      else if error = ENOMEM then ''epoll_create: insufficient memory to create the kernel object.''
      else ''epoll_create: unknown error.'')"

definition get_epoll_wait_error :: "int \<Rightarrow> string" where
  "get_epoll_wait_error error =
     (if error = EBADF then ''epoll_wait: epfd is not a valid file descriptor.''
      else if error = EFAULT then ''epoll_wait: The memory area pointed to by events is not accessible with write permissions.''
      else if error = EINTR then ''epoll_wait: The call was interrupted by a signal.''
      else if error = EINVAL then ''epoll_wait: epfd is not an epoll fd, or maxevents is less than one.''
      else ''epoll_wait: unknown error.'')"

definition get_epoll_ctl_error :: "int \<Rightarrow> string" where
  "get_epoll_ctl_error error =
     (if error = EBADF then ''epoll_ctl: epfd or fd is invalid.''
      else if error = EEXIST then ''epoll_ctl: EPOLL_CTL_ADD: supplied fd is already registered.''
      else if error = EINVAL then ''epoll_ctl: epfd is not an epoll fd; or fd is the same as epfd; or the requested operation op not support; or invalid event type is specified in the event; or EPOLL_CTL_MOD: events included EPOLLEXCLUSIVE or the EPOLLEXCLUSIVE flag has previously been applied to epfd; or EPOLLEXCLUSIVE was specified in event and fd refers to an epoll instance.''
      else if error = ELOOP then ''epoll_ctl: fd refers to an epoll instance.''
      else if error = ENOENT then ''epoll_ctl: EPOLL_CTL_MOD or EPOLL_CTL_DEL: fd is not registered.''
      else if error = ENOMEM then ''epoll_ctl: insufficient memory to handle the requested op control operation.''
      else if error = ENOSPC then ''epoll_wait: register fd reaches limit(by /proc/sys/fs/epoll/max_user_watches).''
      else if error = EPERM then ''epoll_wait: target file fd does not support epoll.''
      else ''epoll_wait: unknown error.'')"

definition get_socket_opt_error :: "int \<Rightarrow> string" where
  "get_socket_opt_error error =
     (if error = EBADF then ''getsockopt: fd is invalid.''
      else if error = EFAULT then ''getsockopt: address pointed to by optval is not in a valid part of the process address space.''
      else if error = EINVAL then ''getsockopt: optlen invalid in setsockopt().''
      else if error = ENOPROTOOPT then ''getsockopt: option is unknown at the level indicated.''
      else if error = ENOTSOCK then ''getsockopt: fd does not refer to a socket.''
      else ''getsockopt: unknown error.'')"

definition get_error :: "error_mark \<Rightarrow> string" where
  "get_error mark =
     (case types mark of
        Null \<Rightarrow> ''no error.''
      | Socket \<Rightarrow> get_socket_error (codes mark)
      | Close \<Rightarrow> get_close_error (codes mark)
      | Read \<Rightarrow> get_read_error (codes mark)
      | Write \<Rightarrow> get_write_error (codes mark)
      | Connect \<Rightarrow> get_connect_error (codes mark)
      | Bind \<Rightarrow> get_bind_error (codes mark)
      | Listen \<Rightarrow> get_listen_error (codes mark)
      | Accept \<Rightarrow> get_accept_error (codes mark)
      | Shutdown \<Rightarrow> get_shutdown_error (codes mark)
      | Sendfile \<Rightarrow> get_sendfile_error (codes mark)
      | Encoding \<Rightarrow> get_encoding_error (codes mark)
      | Select \<Rightarrow> get_select_error (codes mark)
      | Poll \<Rightarrow> get_poll_error (codes mark)
      | Epoll_create \<Rightarrow> get_epoll_create_error (codes mark)
      | Epoll_wait \<Rightarrow> get_epoll_wait_error (codes mark)
      | Epoll_ctl \<Rightarrow> get_epoll_ctl_error (codes mark)
      | Socket_opt \<Rightarrow> get_socket_opt_error (codes mark)
      | ErrorEvent \<Rightarrow> ''ErrorEvent''
      | TimeoutEvent \<Rightarrow> ''TimeoutEvent''
      | UnexpectedShutdown \<Rightarrow> ''unexpectedShutdown'')"

section \<open>What a message tells\<close>

text \<open>The name of the failed call, the part of the message before the colon.\<close>

definition message_call :: "string \<Rightarrow> string" where
  "message_call s = takeWhile (\<lambda>c. c \<noteq> CHR '':'') s"

fun call_name :: "error_types \<Rightarrow> string" where
  "call_name Null = ''no error.''"
| "call_name Socket = ''ops''"
| "call_name Close = ''close''"
| "call_name Read = ''read''"
| "call_name Write = ''write''"
| "call_name Connect = ''connect''"
| "call_name Bind = ''bind''"
| "call_name Listen = ''listen''"
| "call_name Accept = ''accept''"
| "call_name Shutdown = ''shutdown''"
| "call_name Sendfile = ''Sendfile''"
| "call_name Encoding = ''Encoding_conversion''"
| "call_name Select = ''select''"
| "call_name Poll = ''poll''"
| "call_name Epoll_create = ''epoll_create''"
| "call_name Epoll_wait = ''epoll_wait''"
| "call_name Epoll_ctl = ''epoll_ctl''"
| "call_name Socket_opt = ''getsockopt''"
| "call_name ErrorEvent = ''ErrorEvent''"
| "call_name TimeoutEvent = ''TimeoutEvent''"
| "call_name UnexpectedShutdown = ''unexpectedShutdown''"

lemma call_name_inj: "call_name t = call_name t' \<Longrightarrow> t = t'"
  by (cases t; cases t'; simp)

named_theorems message_simps \<open>The call a message names\<close>

lemma socket_call [message_simps]: "message_call (get_socket_error e) = ''ops''"
  by (simp add: message_call_def get_socket_error_def)

lemma close_call [message_simps]: "message_call (get_close_error e) = ''close''"
  by (simp add: message_call_def get_close_error_def)

lemma read_call [message_simps]: "message_call (get_read_error e) = ''read''"
  by (simp add: message_call_def get_read_error_def)

lemma write_call [message_simps]: "message_call (get_write_error e) = ''write''"
  by (simp add: message_call_def get_write_error_def)

lemma connect_call [message_simps]: "message_call (get_connect_error e) = ''connect''"
  by (simp add: message_call_def get_connect_error_def)

lemma bind_call [message_simps]: "message_call (get_bind_error e) = ''bind''"
  by (simp add: message_call_def get_bind_error_def)

lemma listen_call [message_simps]: "message_call (get_listen_error e) = ''listen''"
  by (simp add: message_call_def get_listen_error_def)

lemma accept_call [message_simps]: "message_call (get_accept_error e) = ''accept''"
  by (simp add: message_call_def get_accept_error_def)

lemma shutdown_call [message_simps]: "message_call (get_shutdown_error e) = ''shutdown''"
  by (simp add: message_call_def get_shutdown_error_def)

lemma sendfile_call [message_simps]: "message_call (get_sendfile_error e) = ''Sendfile''"
  by (simp add: message_call_def get_sendfile_error_def)

lemma encoding_call [message_simps]: "message_call (get_encoding_error e) = ''Encoding_conversion''"
  by (simp add: message_call_def get_encoding_error_def)

lemma select_call [message_simps]: "message_call (get_select_error e) = ''select''"
  by (simp add: message_call_def get_select_error_def)

lemma poll_call [message_simps]: "message_call (get_poll_error e) = ''poll''"
  by (simp add: message_call_def get_poll_error_def)

lemma epoll_create_call [message_simps]: "message_call (get_epoll_create_error e) = ''epoll_create''"
  by (simp add: message_call_def get_epoll_create_error_def)

lemma epoll_wait_call [message_simps]: "message_call (get_epoll_wait_error e) = ''epoll_wait''"
  by (simp add: message_call_def get_epoll_wait_error_def)

text \<open>Three messages of \<open>get_epoll_ctl_error\<close> name \<open>epoll_wait\<close>.\<close>

lemma epoll_ctl_call [message_simps]:
  "message_call (get_epoll_ctl_error e) =
     (if e \<in> {EBADF, EEXIST, EINVAL, ELOOP, ENOENT, ENOMEM} then ''epoll_ctl'' else ''epoll_wait'')"
  by (simp add: message_call_def get_epoll_ctl_error_def)

lemma socket_opt_call [message_simps]: "message_call (get_socket_opt_error e) = ''getsockopt''"
  by (simp add: message_call_def get_socket_opt_error_def)

lemma get_error_call:
  "message_call (get_error m) = call_name (types m) \<or>
   types m = Epoll_ctl \<and> message_call (get_error m) = call_name Epoll_wait"
  by (cases "types m") (simp_all add: get_error_def message_simps, simp_all add: message_call_def)

lemma epoll_messages_collide:
  "get_epoll_wait_error e = get_epoll_ctl_error e' \<Longrightarrow> get_epoll_wait_error e = ''epoll_wait: unknown error.''"
  by (simp add: get_epoll_wait_error_def get_epoll_ctl_error_def split: if_splits)

text \<open>
  Property C39. A message tells which kind of call failed: two marks with the same message are of the
  same kind, except that the message of an unknown \<open>epoll_ctl\<close> error is that of \<open>epoll_wait\<close>.
\<close>

theorem message_identifies_call:
  assumes "get_error m = get_error m'"
  shows "types m = types m' \<or>
    {types m, types m'} = {Epoll_wait, Epoll_ctl} \<and> get_error m = ''epoll_wait: unknown error.''"
proof (cases "types m = types m'")
  case False
  define a b where "a = message_call (get_error m)" and "b = call_name Epoll_wait"
  have "a = call_name (types m) \<or> types m = Epoll_ctl \<and> a = b"
    unfolding a_def b_def by (rule get_error_call)
  moreover have "a = call_name (types m') \<or> types m' = Epoll_ctl \<and> a = b"
    unfolding a_def b_def assms by (rule get_error_call)
  ultimately have "call_name (types m) = call_name (types m') \<or>
      types m = Epoll_ctl \<and> b = call_name (types m') \<or> types m' = Epoll_ctl \<and> call_name (types m) = b"
    using False by metis
  then consider "types m = Epoll_ctl" "types m' = Epoll_wait" | "types m' = Epoll_ctl" "types m = Epoll_wait"
    using False unfolding b_def by (metis call_name_inj)
  then show ?thesis
  proof cases
    case 1
    then have "get_epoll_wait_error (codes m') = get_epoll_ctl_error (codes m)"
      using assms by (simp add: get_error_def)
    then show ?thesis
      using 1 epoll_messages_collide assms by (simp add: get_error_def insert_commute)
  next
    case 2
    then have "get_epoll_wait_error (codes m) = get_epoll_ctl_error (codes m')"
      using assms by (simp add: get_error_def)
    then show ?thesis
      using 2 epoll_messages_collide by (simp add: get_error_def)
  qed
qed simp

lemma message_identifies_call_witness:
  "get_error \<lparr>types = Epoll_wait, codes = ENOSPC\<rparr> = ''epoll_wait: unknown error.''"
proof -
  have "get_error \<lparr>types = Epoll_wait, codes = ENOSPC\<rparr> = get_error \<lparr>types = Epoll_ctl, codes = EIO\<rparr>"
    by (simp add: get_error_def get_epoll_wait_error_def get_epoll_ctl_error_def)
  from message_identifies_call [OF this] show ?thesis
    by simp
qed

text \<open>The spelling of each enumerator.\<close>

fun enumerator_name :: "error_types \<Rightarrow> string" where
  "enumerator_name Null = ''Null''"
| "enumerator_name Socket = ''Socket''"
| "enumerator_name Close = ''Close''"
| "enumerator_name Read = ''Read''"
| "enumerator_name Write = ''Write''"
| "enumerator_name Connect = ''Connect''"
| "enumerator_name Bind = ''Bind''"
| "enumerator_name Listen = ''Listen''"
| "enumerator_name Accept = ''Accept''"
| "enumerator_name Shutdown = ''Shutdown''"
| "enumerator_name Sendfile = ''Sendfile''"
| "enumerator_name Encoding = ''Encoding''"
| "enumerator_name Select = ''Select''"
| "enumerator_name Poll = ''Poll''"
| "enumerator_name Epoll_create = ''Epoll_create''"
| "enumerator_name Epoll_wait = ''Epoll_wait''"
| "enumerator_name Epoll_ctl = ''Epoll_ctl''"
| "enumerator_name Socket_opt = ''Socket_opt''"
| "enumerator_name ErrorEvent = ''ErrorEvent''"
| "enumerator_name TimeoutEvent = ''TimeoutEvent''"
| "enumerator_name UnexpectedShutdown = ''UnexpectedShutdown''"

text \<open>
  \<open>get_error_type_name\<close> never reads outside its table, and names every kind correctly
  but \<open>Select\<close>, \<open>Poll\<close> and \<open>Epoll_create\<close>: the table lacks \<open>Select\<close> and has \<open>Socket_opt\<close> twice.
\<close>

theorem type_names_shifted:
  "get_error_type_name t = Some (if t = Select then ''Poll'' else if t = Poll then ''Epoll_create''
     else if t = Epoll_create then ''Socket_opt'' else enumerator_name t)"
  by (cases t) (simp_all add: get_error_type_name_def error_type_names_def)

end
