(* ===== verification/Raft.thy ===== *)
theory Raft
  imports VersionNumber "HOL-Library.AList" "HOL-Library.Multiset"
begin

text \<open>
  Leader election of src/Distributed/raft: \<open>RaftMessage.hpp\<close>, \<open>RaftTransmitter.cpp\<close>,
  \<open>RaftAgent.cpp\<close> and \<open>RaftInstance.cpp\<close>.

  \<^item> An address is \<open>Some a\<close>; \<open>None\<close> is the default \<open>Address()\<close>, which \<open>receive\<close> returns when no
    whole message arrived in time.
  \<^item> \<open>RaftStateMachine\<close> is an interface the user implements: a record of functions on a state
    of its own.
  \<^item> An instance keeps the datagrams it has handed to the socket in \<open>outbox\<close>; that \<open>sendto\<close> fails
    is only logged, which for the receivers is a lost datagram.
  \<^item> The argument \<open>now\<close> is the clock, read once per event; log lines are not modelled.
  \<^item> A handler runs to the end, fails an assertion, or ends the process in \<open>emergency_exit\<close>.
\<close>

section \<open>Messages\<close>

datatype message_type = Invalid | LeaderCheck | FollowerAck | AskForVote | Vote | Request
  | Online | OnlineAck | Offline | OfflineAck

fun get_TypeName :: "message_type \<Rightarrow> string" where
  "get_TypeName Invalid = ''[Invalid]''"
| "get_TypeName LeaderCheck = ''[LeaderCheck]''"
| "get_TypeName FollowerAck = ''[FollowerAck]''"
| "get_TypeName AskForVote = ''[AskForVote]''"
| "get_TypeName Vote = ''[Vote]''"
| "get_TypeName Request = ''[Request]''"
| "get_TypeName Online = ''[Online]''"
| "get_TypeName OnlineAck = ''[OnlineAck]''"
| "get_TypeName Offline = ''[Offline]''"
| "get_TypeName OfflineAck = ''[OfflineAck]''"

record raft_message =
  mtype :: message_type
  extra_data_size :: "8 word"
  chosen :: bool
  mversion :: "32 word"
  mserial :: "64 word"
  time_of_departure :: int
  extra_data :: "byte list"

definition message_new :: raft_message where
  "message_new = \<lparr>mtype = Invalid, extra_data_size = 0, chosen = False, mversion = 0, mserial = 0,
     time_of_departure = 0, extra_data = replicate 40 0\<rparr>"

text \<open>\<open>MESSAGE_INIT\<close>, the body of \<open>leader_check\<close>, \<open>follower_ack\<close> and the other fillers.\<close>

definition message_init :: "message_type \<Rightarrow> 32 word \<Rightarrow> 64 word \<Rightarrow> int \<Rightarrow> raft_message \<Rightarrow> raft_message" where
  "message_init t v s now m = m\<lparr>mtype := t, mversion := v, mserial := s, time_of_departure := now\<rparr>"

definition message_vote :: "32 word \<Rightarrow> 64 word \<Rightarrow> bool \<Rightarrow> int \<Rightarrow> raft_message \<Rightarrow> raft_message" where
  "message_vote v s val now m = (message_init Vote v s now m)\<lparr>chosen := val\<rparr>"

definition add_extra_message :: "byte list \<Rightarrow> raft_message \<Rightarrow> raft_message option" where
  "add_extra_message data m =
     (let used = unat (extra_data_size m) in
      if length data > 40 - used then None
      else Some (m\<lparr>extra_data_size := extra_data_size m + of_nat (length data),
                   extra_data := take used (extra_data m) @ data @ drop (used + length data) (extra_data m)\<rparr>))"

section \<open>Instances\<close>

datatype raft_state = Leader | Candidate | Follower

fun get_StateName :: "raft_state \<Rightarrow> string" where
  "get_StateName Leader = ''(Leader)''"
| "get_StateName Candidate = ''(Candidate)''"
| "get_StateName Follower = ''(Follower)''"

record ('a, 'm) state_machine =
  can_be_leader :: "'a option \<Rightarrow> raft_message \<Rightarrow> 'm \<Rightarrow> bool \<times> 'm"
  leader_notify_message :: "'a option \<Rightarrow> 'm \<Rightarrow> byte list \<times> 'm"
  need_synchronize_from :: "'a option \<Rightarrow> raft_message \<Rightarrow> 'm \<Rightarrow> bool \<times> 'm"
  ready_to_receiving :: "'a option \<Rightarrow> raft_message \<Rightarrow> 'm \<Rightarrow> byte list \<times> 'm"
  ready_to_send_to :: "'a option \<Rightarrow> raft_message \<Rightarrow> 'm \<Rightarrow> 'm"
  update_log :: "'m \<Rightarrow> 'm"

record ('a, 'm) raft_instance =
  peers :: "('a option \<times> int) list"
  state :: raft_state
  leader :: "'a option"
  last_flush_time :: int
  version :: "32 word"
  serial_number :: "64 word"
  machine :: 'm
  inst_name :: string
  votes :: nat
  running :: bool
  outbox :: "('a option \<times> raft_message) list"

definition instance_new :: "'m \<Rightarrow> string \<Rightarrow> int \<Rightarrow> ('a, 'm) raft_instance" where
  "instance_new m name now = \<lparr>peers = [], state = Follower, leader = None, last_flush_time = now, version = 0,
     serial_number = 0, machine = m, inst_name = name, votes = 0, running = False, outbox = []\<rparr>"

definition name_state :: "('a, 'm) raft_instance \<Rightarrow> string" where
  "name_state i = inst_name i @ get_StateName (state i)"

definition has_peer :: "('a, 'm) raft_instance \<Rightarrow> 'a option \<Rightarrow> bool" where
  "has_peer i a \<longleftrightarrow> map_of (peers i) a \<noteq> None"

definition LEADER_SENT_TIMEOUT :: int where "LEADER_SENT_TIMEOUT = 1000000000"
definition CANDIDATE_RECEIVE_TIMEOUT :: int where "CANDIDATE_RECEIVE_TIMEOUT = 3000000000"
definition FOLLOWER_RECEIVE_TIMEOUT :: int where "FOLLOWER_RECEIVE_TIMEOUT = 3000000000"
definition ONLINE_WAIT_TIMEOUT :: int where "ONLINE_WAIT_TIMEOUT = 2000000000"
definition OFFLINE_WAIT_TIMEOUT :: int where "OFFLINE_WAIT_TIMEOUT = 2000000000"

datatype 's raft_outcome = Run 's | Assertion | Emergency_exit

fun and_then :: "'s raft_outcome \<Rightarrow> ('s \<Rightarrow> 't raft_outcome) \<Rightarrow> 't raft_outcome" where
  "and_then (Run s) f = f s"
| "and_then Assertion f = Assertion"
| "and_then Emergency_exit f = Emergency_exit"

section \<open>The transmitter\<close>

text \<open>\<open>FILLING_PARAMETER\<close>: every message takes the version and the next serial number.\<close>

definition sendto :: "'a option \<Rightarrow> raft_message \<Rightarrow> ('a, 'm) raft_instance \<Rightarrow> ('a, 'm) raft_instance" where
  "sendto a m i = i\<lparr>outbox := outbox i @ [(a, m)]\<rparr>"

definition next_serial :: "('a, 'm) raft_instance \<Rightarrow> ('a, 'm) raft_instance" where
  "next_serial i = i\<lparr>serial_number := ver_inc (serial_number i)\<rparr>"

definition send_plain :: "message_type \<Rightarrow> int \<Rightarrow> 'a option \<Rightarrow> ('a, 'm) raft_instance \<Rightarrow> ('a, 'm) raft_instance" where
  "send_plain t now a i = sendto a (message_init t (version i) (serial_number i) now message_new) (next_serial i)"

definition send_extra :: "message_type \<Rightarrow> int \<Rightarrow> 'a option \<Rightarrow> byte list \<Rightarrow> ('a, 'm) raft_instance \<Rightarrow> ('a, 'm) raft_instance" where
  "send_extra t now a data i =
     (case add_extra_message data (message_init t (version i) (serial_number i) now message_new) of
        None \<Rightarrow> next_serial i
      | Some m \<Rightarrow> sendto a m (next_serial i))"

definition notify_follower :: "int \<Rightarrow> 'a option \<Rightarrow> byte list \<Rightarrow> ('a, 'm) raft_instance \<Rightarrow> ('a, 'm) raft_instance" where
  "notify_follower now a data i = send_extra LeaderCheck now a data i"

definition respond_leader :: "int \<Rightarrow> 'a option \<Rightarrow> ('a, 'm) raft_instance \<Rightarrow> ('a, 'm) raft_instance" where
  "respond_leader now a i = send_plain FollowerAck now a i"

definition request_vote :: "int \<Rightarrow> 'a option \<Rightarrow> ('a, 'm) raft_instance \<Rightarrow> ('a, 'm) raft_instance" where
  "request_vote now a i = send_plain AskForVote now a i"

definition send_vote :: "int \<Rightarrow> 'a option \<Rightarrow> bool \<Rightarrow> ('a, 'm) raft_instance \<Rightarrow> ('a, 'm) raft_instance" where
  "send_vote now a result i =
     sendto a (message_vote (version i) (serial_number i) result now message_new) (next_serial i)"

definition request_logs :: "int \<Rightarrow> 'a option \<Rightarrow> byte list \<Rightarrow> ('a, 'm) raft_instance \<Rightarrow> ('a, 'm) raft_instance" where
  "request_logs now a data i = send_extra Request now a data i"

definition this_one_online :: "int \<Rightarrow> 'a option \<Rightarrow> ('a, 'm) raft_instance \<Rightarrow> ('a, 'm) raft_instance" where
  "this_one_online now a i = send_plain Online now a i"

definition affirm_online :: "int \<Rightarrow> 'a option \<Rightarrow> ('a, 'm) raft_instance \<Rightarrow> ('a, 'm) raft_instance" where
  "affirm_online now a i = send_plain OnlineAck now a i"

definition this_one_offline :: "int \<Rightarrow> 'a option \<Rightarrow> ('a, 'm) raft_instance \<Rightarrow> ('a, 'm) raft_instance" where
  "this_one_offline now a i = send_plain Offline now a i"

definition affirm_offline :: "int \<Rightarrow> 'a option \<Rightarrow> ('a, 'm) raft_instance \<Rightarrow> ('a, 'm) raft_instance" where
  "affirm_offline now a i = send_plain OfflineAck now a i"

text \<open>
  \<open>receive\<close>: how long to wait for a datagram (\<open>None\<close>: do not wait, \<open>MSG_DONTWAIT\<close>), and the sender it
  reports for a datagram of \<open>len\<close> bytes when a message is \<open>expected\<close> bytes.
\<close>

definition receive_wait :: "int \<Rightarrow> int \<Rightarrow> int option" where
  "receive_wait end_time now = (let time = end_time - now in if time > 0 then Some time else None)"

definition receive_from :: "int \<Rightarrow> int \<Rightarrow> 'a option \<Rightarrow> 'a option" where
  "receive_from expected len a = (if len \<noteq> expected then None else a)"

section \<open>The agent: helpers\<close>

fun notify_peers :: "('a, 'm) state_machine \<Rightarrow> int \<Rightarrow> 'a option list \<Rightarrow> ('a, 'm) raft_instance \<Rightarrow> ('a, 'm) raft_instance" where
  "notify_peers M now [] i = i"
| "notify_peers M now (a # as) i =
     (let (data, m) = leader_notify_message M a (machine i)
      in notify_peers M now as (notify_follower now a data (i\<lparr>machine := m\<rparr>)))"

definition notify_one :: "('a, 'm) state_machine \<Rightarrow> int \<Rightarrow> 'a option \<Rightarrow> ('a, 'm) raft_instance \<Rightarrow> ('a, 'm) raft_instance" where
  "notify_one M now a i = notify_peers M now [a] i"

definition become_candidate :: "int \<Rightarrow> ('a, 'm) raft_instance \<Rightarrow> ('a, 'm) raft_instance" where
  "become_candidate now i = i\<lparr>state := Candidate, leader := None, last_flush_time := now,
     version := ver_inc (version i), votes := 1\<rparr>"

definition become_leader :: "int \<Rightarrow> ('a, 'm) raft_instance \<Rightarrow> ('a, 'm) raft_instance" where
  "become_leader now i = i\<lparr>state := Leader, leader := None, last_flush_time := now, votes := 0\<rparr>"

text \<open>\<open>assert_split_brain\<close> ends the process.\<close>

definition split_brain :: "('a, 'm) raft_instance \<Rightarrow> raft_message \<Rightarrow> bool" where
  "split_brain i m \<longleftrightarrow> ver_lt (mversion m) (version i) \<or> mversion m = version i \<and> state i = Leader"

definition change_leader_to :: "int \<Rightarrow> raft_message \<Rightarrow> 'a option \<Rightarrow> ('a, 'm) raft_instance \<Rightarrow> ('a, 'm) raft_instance raft_outcome" where
  "change_leader_to now m a i =
     (if split_brain i m then Emergency_exit
      else Run (i\<lparr>state := Follower, leader := a, version := mversion m,
        last_flush_time := (if a \<noteq> None then now else last_flush_time i), votes := 0\<rparr>))"

definition check_outdated :: "('a, 'm) raft_instance \<Rightarrow> raft_message \<Rightarrow> bool" where
  "check_outdated i m \<longleftrightarrow> ver_lt (mversion m) (version i) \<and> mtype m \<noteq> Online \<and> mtype m \<noteq> Offline"

definition respond_leader_check :: "('a, 'm) state_machine \<Rightarrow> int \<Rightarrow> raft_message \<Rightarrow> ('a, 'm) raft_instance \<Rightarrow> ('a, 'm) raft_instance raft_outcome" where
  "respond_leader_check M now m i =
     (if state i \<noteq> Follower then Assertion
      else
        let i = i\<lparr>version := mversion m\<rparr>;
            (need, s) = need_synchronize_from M (leader i) m (machine i);
            i = i\<lparr>machine := s\<rparr>
        in if \<not> need then Run (respond_leader now (leader i) i)
           else
             let (data, s) = ready_to_receiving M (leader i) m (machine i)
             in Run (request_logs now (leader i) data (i\<lparr>machine := s\<rparr>)))"

fun request_votes :: "int \<Rightarrow> 'a option list \<Rightarrow> ('a, 'm) raft_instance \<Rightarrow> ('a, 'm) raft_instance" where
  "request_votes now [] i = i"
| "request_votes now (a # as) i = request_votes now as (request_vote now a i)"

definition vote_to_be_leader :: "int \<Rightarrow> ('a, 'm) raft_instance \<Rightarrow> ('a, 'm) raft_instance" where
  "vote_to_be_leader now i = (let i = become_candidate now i in request_votes now (map fst (peers i)) i)"

definition vote_to :: "('a, 'm) state_machine \<Rightarrow> int \<Rightarrow> raft_message \<Rightarrow> 'a option \<Rightarrow> ('a, 'm) raft_instance \<Rightarrow> ('a, 'm) raft_instance raft_outcome" where
  "vote_to M now m a i =
     (if ver_gt (mversion m) (version i)
      then
        let (can, s) = can_be_leader M a m (machine i); i = i\<lparr>machine := s\<rparr>
        in if can then and_then (change_leader_to now m a i) (\<lambda>i. Run (send_vote now a True i))
           else and_then (change_leader_to now m None i) (\<lambda>i. Run (send_vote now a False i))
      else Run (send_vote now a False i))"

definition accept_vote :: "('a, 'm) state_machine \<Rightarrow> int \<Rightarrow> raft_message \<Rightarrow> ('a, 'm) raft_instance \<Rightarrow> ('a, 'm) raft_instance" where
  "accept_vote M now m i =
     (if state i \<noteq> Candidate \<or> \<not> chosen m then i
      else
        let i = i\<lparr>votes := votes i + 1\<rparr>
        in if votes i \<ge> (length (peers i) + 1) div 2 + 1
           then let i = become_leader now i in notify_peers M now (map fst (peers i)) i
           else i)"

definition synchronize_logs :: "('a, 'm) state_machine \<Rightarrow> raft_message \<Rightarrow> 'a option \<Rightarrow> ('a, 'm) raft_instance \<Rightarrow> ('a, 'm) raft_instance" where
  "synchronize_logs M m a i = i\<lparr>machine := ready_to_send_to M a m (machine i)\<rparr>"

definition new_one_online :: "('a, 'm) state_machine \<Rightarrow> int \<Rightarrow> 'a option \<Rightarrow> ('a, 'm) raft_instance \<Rightarrow> ('a, 'm) raft_instance" where
  "new_one_online M now a i =
     (let i = (if has_peer i a then i else i\<lparr>peers := peers i @ [(a, now)]\<rparr>)
      in if state i = Leader then notify_one M now a i else affirm_online now a i)"

text \<open>\<open>accept_online_ack\<close> and \<open>accept_offline_ack\<close>: a peer's first acknowledgement sets its time to 0.\<close>

definition accept_ack :: "'a option \<Rightarrow> ('a, 'm) raft_instance \<Rightarrow> bool \<times> ('a, 'm) raft_instance" where
  "accept_ack a i =
     (case map_of (peers i) a of
        None \<Rightarrow> (False, i)
      | Some t \<Rightarrow> if t \<noteq> 0 then (True, i\<lparr>peers := AList.update a 0 (peers i)\<rparr>) else (False, i))"

definition peer_offline :: "int \<Rightarrow> 'a option \<Rightarrow> ('a, 'm) raft_instance \<Rightarrow> ('a, 'm) raft_instance" where
  "peer_offline now a i =
     (let i = affirm_offline now a (i\<lparr>peers := AList.delete a (peers i)\<rparr>)
      in if a = leader i then i\<lparr>leader := None\<rparr> else i)"

section \<open>The agent: handlers\<close>

definition touch_peer :: "int \<Rightarrow> 'a option \<Rightarrow> ('a, 'm) raft_instance \<Rightarrow> ('a, 'm) raft_instance" where
  "touch_peer now a i = i\<lparr>peers := AList.update a now (peers i)\<rparr>"

text \<open>The prologue of the handlers: only an announcement may come from an unknown address.\<close>

definition accept_peer :: "int \<Rightarrow> raft_message \<Rightarrow> 'a option \<Rightarrow> ('a, 'm) raft_instance \<Rightarrow> ('a, 'm) raft_instance raft_outcome" where
  "accept_peer now m a i =
     (if has_peer i a then Run (touch_peer now a i)
      else if mtype m = Online \<or> mtype m = Offline then Run i
      else Assertion)"

definition handle_messages_from_follower :: "('a, 'm) state_machine \<Rightarrow> int \<Rightarrow> raft_message \<Rightarrow> 'a option \<Rightarrow> ('a, 'm) raft_instance \<Rightarrow> ('a, 'm) raft_instance raft_outcome" where
  "handle_messages_from_follower M now m a i =
     (if state i \<noteq> Leader then Assertion
      else and_then (accept_peer now m a i) (\<lambda>i.
        case mtype m of
          FollowerAck \<Rightarrow> Run i
        | Request \<Rightarrow> Run (synchronize_logs M m a i)
        | AskForVote \<Rightarrow> vote_to M now m a i
        | Vote \<Rightarrow> Run (accept_vote M now m i)
        | Online \<Rightarrow> Run (new_one_online M now a i)
        | Offline \<Rightarrow> Run (peer_offline now a i)
        | LeaderCheck \<Rightarrow>
            let (can, i) = (if ver_lt (mversion m) (version i)
                  then let (can, s) = can_be_leader M a m (machine i) in (can, i\<lparr>machine := s\<rparr>)
                  else (False, i))
            in if can then Run (notify_one M now a i)
               else and_then (change_leader_to now m a i) (respond_leader_check M now m)
        | _ \<Rightarrow> Run i))"

definition handle_messages_from_leader :: "('a, 'm) state_machine \<Rightarrow> int \<Rightarrow> raft_message \<Rightarrow> ('a, 'm) raft_instance \<Rightarrow> ('a, 'm) raft_instance raft_outcome" where
  "handle_messages_from_leader M now m i =
     (if state i = Leader then Assertion
      else if check_outdated i m then Run i
      else if \<not> has_peer i (leader i) then Assertion
      else
        let i = (touch_peer now (leader i) i)\<lparr>last_flush_time := now\<rparr>
        in case mtype m of
             LeaderCheck \<Rightarrow> respond_leader_check M now m i
           | AskForVote \<Rightarrow> vote_to M now m (leader i) i
           | Offline \<Rightarrow> Run (peer_offline now (leader i) i)
           | _ \<Rightarrow> Run i)"

definition handle_messages_from_peer :: "('a, 'm) state_machine \<Rightarrow> int \<Rightarrow> raft_message \<Rightarrow> 'a option \<Rightarrow> ('a, 'm) raft_instance \<Rightarrow> ('a, 'm) raft_instance raft_outcome" where
  "handle_messages_from_peer M now m a i =
     (if leader i = a then Assertion
      else if check_outdated i m then Run i
      else and_then (accept_peer now m a i) (\<lambda>i.
        case mtype m of
          AskForVote \<Rightarrow> vote_to M now m a i
        | Vote \<Rightarrow> Run (accept_vote M now m i)
        | LeaderCheck \<Rightarrow> and_then (change_leader_to now m a i) (respond_leader_check M now m)
        | Online \<Rightarrow> Run (new_one_online M now a i)
        | Offline \<Rightarrow> Run (peer_offline now a i)
        | _ \<Rightarrow> Run i))"

definition handle_leader_timeout :: "('a, 'm) state_machine \<Rightarrow> int \<Rightarrow> ('a, 'm) raft_instance \<Rightarrow> ('a, 'm) raft_instance" where
  "handle_leader_timeout M now i = (notify_peers M now (map fst (peers i)) i)\<lparr>last_flush_time := now\<rparr>"

definition handle_candidate_timeout :: "int \<Rightarrow> ('a, 'm) raft_instance \<Rightarrow> ('a, 'm) raft_instance" where
  "handle_candidate_timeout now i = vote_to_be_leader now i"

definition handle_follower_timeout :: "int \<Rightarrow> ('a, 'm) raft_instance \<Rightarrow> ('a, 'm) raft_instance" where
  "handle_follower_timeout now i = vote_to_be_leader now i"

section \<open>Joining and leaving\<close>

definition handle_message_when_online :: "('a, 'm) state_machine \<Rightarrow> int \<Rightarrow> raft_message \<Rightarrow> 'a option \<Rightarrow> ('a, 'm) raft_instance \<Rightarrow> (bool \<times> ('a, 'm) raft_instance) raft_outcome" where
  "handle_message_when_online M now m a i =
     (case mtype m of
        OnlineAck \<Rightarrow> Run (accept_ack a i)
      | LeaderCheck \<Rightarrow>
          and_then (and_then (change_leader_to now m a i) (respond_leader_check M now m)) (\<lambda>i. Run (False, i))
      | AskForVote \<Rightarrow> and_then (vote_to M now m a i) (\<lambda>i. Run (False, i))
      | Online \<Rightarrow> Run (False, this_one_online now a (new_one_online M now a i))
      | Offline \<Rightarrow> Run (False, peer_offline now a (this_one_online now a i))
      | _ \<Rightarrow> Run (False, i))"

definition handle_message_when_offline :: "('a, 'm) state_machine \<Rightarrow> int \<Rightarrow> raft_message \<Rightarrow> 'a option \<Rightarrow> ('a, 'm) raft_instance \<Rightarrow> bool \<times> ('a, 'm) raft_instance" where
  "handle_message_when_offline M now m a i =
     (case mtype m of
        OfflineAck \<Rightarrow> accept_ack a i
      | Online \<Rightarrow> (False, new_one_online M now a (this_one_offline now a i))
      | Offline \<Rightarrow> (False, this_one_offline now a (peer_offline now a i))
      | _ \<Rightarrow> (False, i))"

definition end_status_check :: "int \<Rightarrow> ('a, 'm) raft_instance \<Rightarrow> bool \<times> ('a, 'm) raft_instance" where
  "end_status_check now i =
     (\<forall>(a, t) \<in> set (peers i). t = 0,
      i\<lparr>peers := map (\<lambda>(a, t). (a, if t \<noteq> 0 then t else now)) (peers i)\<rparr>)"

text \<open>
  The waiting loops of \<open>join_to_cluster\<close> and \<open>exit_cluster\<close>. Each round is the list of what \<open>receive\<close>
  returned, with the clock read by the loop condition; the loop also ends when the list does.
\<close>

fun online_wait :: "('a, 'm) state_machine \<Rightarrow> (int \<times> raft_message \<times> 'a option) list \<Rightarrow> nat \<Rightarrow> ('a, 'm) raft_instance \<Rightarrow> (nat \<times> ('a, 'm) raft_instance) raft_outcome" where
  "online_wait M [] confirmed i = Run (confirmed, i)"
| "online_wait M ((now, m, a) # evs) confirmed i =
     (if last_flush_time i + ONLINE_WAIT_TIMEOUT > now \<and> confirmed < length (peers i)
      then and_then (handle_message_when_online M now m a i)
             (\<lambda>(ok, i). online_wait M evs (if ok then confirmed + 1 else confirmed) i)
      else Run (confirmed, i))"

fun announce :: "message_type \<Rightarrow> int \<Rightarrow> ('a option \<times> int) list \<Rightarrow> ('a, 'm) raft_instance \<Rightarrow> ('a, 'm) raft_instance" where
  "announce t now [] i = i"
| "announce t now ((a, time) # ps) i = announce t now ps (if time \<noteq> 0 then send_plain t now a i else i)"

fun online_rounds :: "('a, 'm) state_machine \<Rightarrow> (int \<times> (int \<times> raft_message \<times> 'a option) list) list \<Rightarrow> nat \<Rightarrow> ('a, 'm) raft_instance \<Rightarrow> ('a, 'm) raft_instance raft_outcome" where
  "online_rounds M [] confirmed i = Run i"
| "online_rounds M ((now, evs) # rs) confirmed i =
     (if confirmed < length (peers i)
      then and_then (online_wait M evs confirmed ((announce Online now (peers i) i)\<lparr>last_flush_time := now\<rparr>))
             (\<lambda>(confirmed, i). online_rounds M rs confirmed i)
      else Run i)"

definition join_to_cluster :: "('a, 'm) state_machine \<Rightarrow> (int \<times> (int \<times> raft_message \<times> 'a option) list) list \<Rightarrow> int \<Rightarrow> ('a, 'm) raft_instance \<Rightarrow> (bool \<times> ('a, 'm) raft_instance) raft_outcome" where
  "join_to_cluster M rounds now i =
     (if running i then Assertion
      else and_then (online_rounds M (take 3 rounds) 0 i) (\<lambda>i. Run (end_status_check now i)))"

fun offline_wait :: "('a, 'm) state_machine \<Rightarrow> (int \<times> raft_message \<times> 'a option) list \<Rightarrow> nat \<Rightarrow> ('a, 'm) raft_instance \<Rightarrow> nat \<times> ('a, 'm) raft_instance" where
  "offline_wait M [] confirmed i = (confirmed, i)"
| "offline_wait M ((now, m, a) # evs) confirmed i =
     (if last_flush_time i + OFFLINE_WAIT_TIMEOUT > now \<and> confirmed < length (peers i)
      then let (ok, i) = handle_message_when_offline M now m a i
           in offline_wait M evs (if ok then confirmed + 1 else confirmed) i
      else (confirmed, i))"

fun offline_rounds :: "('a, 'm) state_machine \<Rightarrow> (int \<times> (int \<times> raft_message \<times> 'a option) list) list \<Rightarrow> nat \<Rightarrow> ('a, 'm) raft_instance \<Rightarrow> ('a, 'm) raft_instance" where
  "offline_rounds M [] confirmed i = i"
| "offline_rounds M ((now, evs) # rs) confirmed i =
     (if confirmed < length (peers i)
      then let (confirmed, i) = offline_wait M evs confirmed ((announce Offline now (peers i) i)\<lparr>last_flush_time := now\<rparr>)
           in offline_rounds M rs confirmed i
      else i)"

definition stop :: "('a, 'm) raft_instance \<Rightarrow> ('a, 'm) raft_instance" where
  "stop i = i\<lparr>running := False\<rparr>"

definition exit_cluster :: "('a, 'm) state_machine \<Rightarrow> (int \<times> (int \<times> raft_message \<times> 'a option) list) list \<Rightarrow> int \<Rightarrow> ('a, 'm) raft_instance \<Rightarrow> bool \<times> ('a, 'm) raft_instance" where
  "exit_cluster M rounds now i = end_status_check now (offline_rounds M (take 3 rounds) 0 (stop i))"

section \<open>The thread of an instance\<close>

definition add_peer :: "int \<Rightarrow> 'a option \<Rightarrow> ('a, 'm) raft_instance \<Rightarrow> ('a, 'm) raft_instance raft_outcome" where
  "add_peer now a i =
     (if running i then Assertion
      else Run (if has_peer i a then i else i\<lparr>peers := peers i @ [(a, now)]\<rparr>))"

definition start :: "('a, 'm) raft_instance \<Rightarrow> ('a, 'm) raft_instance raft_outcome" where
  "start i = (if running i then Assertion else Run (i\<lparr>running := True, state := Follower\<rparr>))"

definition synchronize_logs_to_followers :: "('a, 'm) state_machine \<Rightarrow> int \<Rightarrow> ('a, 'm) raft_instance \<Rightarrow> ('a, 'm) raft_instance raft_outcome" where
  "synchronize_logs_to_followers M now i =
     (if \<not> running i then Assertion
      else if state i = Leader
      then Run ((notify_peers M now (map fst (peers i)) (i\<lparr>machine := update_log M (machine i)\<rparr>))\<lparr>last_flush_time := now\<rparr>)
      else Run i)"

definition follower_receive_timeout :: "('a, 'm) raft_instance \<Rightarrow> int" where
  "follower_receive_timeout i =
     (let hundredth = FOLLOWER_RECEIVE_TIMEOUT div 100
      in last_flush_time i + hundredth * (cmod (last_flush_time i) 25 + 76))"

text \<open>
  One turn of the thread loops. \<open>ev\<close> is what \<open>receive\<close> returned: a message and its sender, the
  sender \<open>None\<close> when no message came.
\<close>

definition leader_thread_loop :: "('a, 'm) state_machine \<Rightarrow> int \<Rightarrow> raft_message \<times> 'a option \<Rightarrow> ('a, 'm) raft_instance \<Rightarrow> ('a, 'm) raft_instance raft_outcome" where
  "leader_thread_loop M now ev i =
     (let (m, a) = ev
      in and_then (if a \<noteq> None then handle_messages_from_follower M now m a i else Run i)
           (\<lambda>i. if last_flush_time i + LEADER_SENT_TIMEOUT < now then Run (handle_leader_timeout M now i) else Run i))"

definition candidate_thread_loop :: "('a, 'm) state_machine \<Rightarrow> int \<Rightarrow> raft_message \<times> 'a option \<Rightarrow> ('a, 'm) raft_instance \<Rightarrow> ('a, 'm) raft_instance raft_outcome" where
  "candidate_thread_loop M now ev i =
     (let (m, a) = ev
      in if a \<noteq> None then handle_messages_from_peer M now m a i else Run (handle_candidate_timeout now i))"

definition follower_thread_loop :: "('a, 'm) state_machine \<Rightarrow> int \<Rightarrow> raft_message \<times> 'a option \<Rightarrow> ('a, 'm) raft_instance \<Rightarrow> ('a, 'm) raft_instance raft_outcome" where
  "follower_thread_loop M now ev i =
     (let (m, a) = ev
      in if a \<noteq> None
         then if a = leader i then handle_messages_from_leader M now m i else handle_messages_from_peer M now m a i
         else Run (handle_follower_timeout now i))"

definition thread_loop :: "('a, 'm) state_machine \<Rightarrow> int \<Rightarrow> raft_message \<times> 'a option \<Rightarrow> ('a, 'm) raft_instance \<Rightarrow> ('a, 'm) raft_instance raft_outcome" where
  "thread_loop M now ev i =
     (case state i of
        Leader \<Rightarrow> leader_thread_loop M now ev i
      | Candidate \<Rightarrow> candidate_thread_loop M now ev i
      | Follower \<Rightarrow> follower_thread_loop M now ev i)"

section \<open>What the transmitter leaves alone\<close>

text \<open>The vote requests and the granted votes among the datagrams handed to the socket.\<close>

definition asks :: "('a option \<times> raft_message) list \<Rightarrow> ('a option \<times> 32 word) list" where
  "asks out = map (\<lambda>(a, m). (a, mversion m)) (filter (\<lambda>(a, m). mtype m = AskForVote) out)"

definition grants :: "('a option \<times> raft_message) list \<Rightarrow> ('a option \<times> 32 word) list" where
  "grants out = map (\<lambda>(a, m). (a, mversion m)) (filter (\<lambda>(a, m). mtype m = Vote \<and> chosen m) out)"

lemma asks_simps [simp]:
  "asks [] = []" "asks (out @ out') = asks out @ asks out'"
  "asks [(a, m)] = (if mtype m = AskForVote then [(a, mversion m)] else [])"
  by (simp_all add: asks_def)

lemma grants_simps [simp]:
  "grants [] = []" "grants (out @ out') = grants out @ grants out'"
  "grants [(a, m)] = (if mtype m = Vote \<and> chosen m then [(a, mversion m)] else [])"
  by (simp_all add: grants_def)

lemma message_init_sel [simp]:
  "mtype (message_init t v s now m) = t" "mversion (message_init t v s now m) = v"
  "chosen (message_init t v s now m) = chosen m"
  by (simp_all add: message_init_def)

lemma message_vote_sel [simp]:
  "mtype (message_vote v s b now m) = Vote" "mversion (message_vote v s b now m) = v"
  "chosen (message_vote v s b now m) = b"
  by (simp_all add: message_vote_def)

lemma message_new_sel [simp]: "chosen message_new = False" "mtype message_new = Invalid"
  by (simp_all add: message_new_def)

lemma add_extra_sel: "add_extra_message d m = Some m' \<Longrightarrow> mtype m' = mtype m \<and> mversion m' = mversion m \<and> chosen m' = chosen m"
  by (auto simp: add_extra_message_def Let_def split: if_splits)

lemma send_plain_sel [simp]:
  "peers (send_plain t now a i) = peers i" "state (send_plain t now a i) = state i"
  "leader (send_plain t now a i) = leader i" "version (send_plain t now a i) = version i"
  "votes (send_plain t now a i) = votes i" "last_flush_time (send_plain t now a i) = last_flush_time i"
  "machine (send_plain t now a i) = machine i" "running (send_plain t now a i) = running i"
  by (simp_all add: send_plain_def sendto_def next_serial_def)

lemma send_plain_outbox:
  "\<exists>m. mtype m = t \<and> mversion m = version i \<and> \<not> chosen m \<and> outbox (send_plain t now a i) = outbox i @ [(a, m)]"
  by (simp add: send_plain_def sendto_def next_serial_def)

lemma send_vote_sel [simp]:
  "peers (send_vote now a b i) = peers i" "state (send_vote now a b i) = state i"
  "leader (send_vote now a b i) = leader i" "version (send_vote now a b i) = version i"
  "votes (send_vote now a b i) = votes i" "last_flush_time (send_vote now a b i) = last_flush_time i"
  "machine (send_vote now a b i) = machine i" "running (send_vote now a b i) = running i"
  by (simp_all add: send_vote_def sendto_def next_serial_def)

lemma send_vote_outbox:
  "\<exists>m. mtype m = Vote \<and> mversion m = version i \<and> chosen m = b \<and> outbox (send_vote now a b i) = outbox i @ [(a, m)]"
  by (simp add: send_vote_def sendto_def next_serial_def)

lemma send_extra_sel [simp]:
  "peers (send_extra t now a d i) = peers i" "state (send_extra t now a d i) = state i"
  "leader (send_extra t now a d i) = leader i" "version (send_extra t now a d i) = version i"
  "votes (send_extra t now a d i) = votes i" "last_flush_time (send_extra t now a d i) = last_flush_time i"
  "machine (send_extra t now a d i) = machine i" "running (send_extra t now a d i) = running i"
  by (simp_all add: send_extra_def sendto_def next_serial_def split: option.split)

lemma send_extra_outbox:
  "outbox (send_extra t now a d i) = outbox i \<or>
   (\<exists>m. mtype m = t \<and> mversion m = version i \<and> \<not> chosen m \<and> outbox (send_extra t now a d i) = outbox i @ [(a, m)])"
proof (cases "add_extra_message d (message_init t (version i) (serial_number i) now message_new)")
  case None
  then show ?thesis
    by (simp add: send_extra_def next_serial_def)
next
  case (Some m)
  then show ?thesis
    using add_extra_sel [OF Some] by (simp add: send_extra_def sendto_def next_serial_def)
qed

text \<open>
  \<open>sends i j ts bs\<close>: from \<open>i\<close> to \<open>j\<close> only messages of the types \<open>ts\<close> to the addresses \<open>bs\<close>, with the
  version of \<open>j\<close>, have been handed over, no granted vote among them, and the election state has not
  changed.
\<close>

definition sends :: "('a, 'm) raft_instance \<Rightarrow> ('a, 'm) raft_instance \<Rightarrow> message_type set \<Rightarrow> 'a option set \<Rightarrow> bool" where
  "sends i j ts bs \<longleftrightarrow>
     peers j = peers i \<and> state j = state i \<and> leader j = leader i \<and> version j = version i \<and> votes j = votes i \<and>
     last_flush_time j = last_flush_time i \<and>
     (\<exists>out. outbox j = outbox i @ out \<and>
        (\<forall>(a, m) \<in> set out. a \<in> bs \<and> mtype m \<in> ts \<and> mversion m = version i \<and> \<not> chosen m))"

lemma sends_refl [simp]: "sends i i ts bs"
  by (simp add: sends_def)

lemma sends_machine [simp]: "sends i (j\<lparr>machine := s\<rparr>) ts bs \<longleftrightarrow> sends i j ts bs" "sends (i\<lparr>machine := s\<rparr>) j ts bs \<longleftrightarrow> sends i j ts bs"
  by (simp_all add: sends_def)

lemma sends_trans: "sends i j ts bs \<Longrightarrow> sends j k ts bs \<Longrightarrow> sends i k ts bs"
proof -
  assume a: "sends i j ts bs" "sends j k ts bs"
  obtain o1 where o1: "outbox j = outbox i @ o1" "\<forall>(a, m) \<in> set o1. a \<in> bs \<and> mtype m \<in> ts \<and> mversion m = version i \<and> \<not> chosen m"
    using a(1) by (auto simp: sends_def)
  obtain o2 where o2: "outbox k = outbox j @ o2" "\<forall>(a, m) \<in> set o2. a \<in> bs \<and> mtype m \<in> ts \<and> mversion m = version j \<and> \<not> chosen m"
    using a(2) by (auto simp: sends_def)
  have "version j = version i"
    using a(1) by (simp add: sends_def)
  then have "outbox k = outbox i @ o1 @ o2 \<and>
      (\<forall>(a, m) \<in> set (o1 @ o2). a \<in> bs \<and> mtype m \<in> ts \<and> mversion m = version i \<and> \<not> chosen m)"
    using o1 o2 by auto
  then show "sends i k ts bs"
    using a(1) [unfolded sends_def] a(2) [unfolded sends_def] unfolding sends_def
    by (intro conjI exI [of _ "o1 @ o2"]) simp_all
qed

lemma sends_mono: "sends i j ts bs \<Longrightarrow> ts \<subseteq> us \<Longrightarrow> bs \<subseteq> cs \<Longrightarrow> sends i j us cs"
  unfolding sends_def by fast

lemma sends_plain: "t \<in> ts \<Longrightarrow> a \<in> bs \<Longrightarrow> sends i (send_plain t now a i) ts bs"
  using send_plain_outbox [of t i now a] by (auto simp: sends_def)

lemma sends_extra: "t \<in> ts \<Longrightarrow> a \<in> bs \<Longrightarrow> sends i (send_extra t now a d i) ts bs"
  using send_extra_outbox [of t now a d i] by (auto simp: sends_def)

lemma sends_refusal: "Vote \<in> ts \<Longrightarrow> a \<in> bs \<Longrightarrow> sends i (send_vote now a False i) ts bs"
  using send_vote_outbox [of i False now a] by (auto simp: sends_def)

lemma sends_notify: "LeaderCheck \<in> ts \<Longrightarrow> set as \<subseteq> bs \<Longrightarrow> sends i (notify_peers M now as i) ts bs"
proof (induction as arbitrary: i)
  case (Cons a as)
  obtain d s where ds: "leader_notify_message M a (machine i) = (d, s)"
    by (cases "leader_notify_message M a (machine i)")
  have "sends i (notify_follower now a d (i\<lparr>machine := s\<rparr>)) ts bs"
    using sends_extra [OF Cons.prems(1), of a bs "i\<lparr>machine := s\<rparr>" now d] Cons.prems(2) by (simp add: notify_follower_def)
  moreover have "sends k (notify_peers M now as k) ts bs" for k
    using Cons by simp
  ultimately show ?case
    using sends_trans ds by fastforce
qed simp

lemma sends_sel:
  assumes "sends i j ts bs"
  shows "peers j = peers i" "state j = state i" "leader j = leader i" "version j = version i" "votes j = votes i"
    "last_flush_time j = last_flush_time i"
  using assms by (simp_all add: sends_def)

lemma filter_none: "(\<And>x. x \<in> set xs \<Longrightarrow> \<not> P x) \<Longrightarrow> filter P xs = []"
  by (simp add: filter_empty_conv)

lemma sends_outs:
  assumes "sends i j ts bs"
  shows "grants (outbox j) = grants (outbox i)" "AskForVote \<notin> ts \<Longrightarrow> asks (outbox j) = asks (outbox i)"
proof -
  obtain out where out: "outbox j = outbox i @ out" "\<forall>(a, m) \<in> set out. mtype m \<in> ts \<and> \<not> chosen m"
    using assms unfolding sends_def by blast
  show "grants (outbox j) = grants (outbox i)"
    using out(2) by (auto simp: out(1) grants_def filter_empty_conv)
  show "asks (outbox j) = asks (outbox i)" if "AskForVote \<notin> ts"
    using out(2) that by (auto simp: out(1) asks_def filter_empty_conv)
qed

lemma request_votes_sel:
  "peers (request_votes now as i) = peers i \<and> state (request_votes now as i) = state i \<and>
   leader (request_votes now as i) = leader i \<and> version (request_votes now as i) = version i \<and>
   votes (request_votes now as i) = votes i"
  by (induction as arbitrary: i) (simp_all add: request_vote_def)

lemma request_votes_outbox:
  "\<exists>out. outbox (request_votes now as i) = outbox i @ out \<and> map fst out = as \<and>
    (\<forall>(a, m) \<in> set out. mtype m = AskForVote \<and> mversion m = version i)"
proof (induction as arbitrary: i)
  case (Cons a as)
  obtain m where m: "mtype m = AskForVote" "mversion m = version i" "outbox (request_vote now a i) = outbox i @ [(a, m)]"
    using send_plain_outbox [of AskForVote i now a] by (auto simp: request_vote_def)
  obtain out where out: "outbox (request_votes now as (request_vote now a i)) = outbox (request_vote now a i) @ out"
    "map fst out = as" "\<forall>(b, m) \<in> set out. mtype m = AskForVote \<and> mversion m = version (request_vote now a i)"
    using Cons.IH [of "request_vote now a i"] by blast
  then show ?case
    using m by (intro exI [of _ "(a, m) # out"]) (auto simp: request_vote_def)
qed simp

section \<open>The abstract voter\<close>

text \<open>
  What an instance may do in an election, as state, version and votes: keep its state, follow a
  message that is not older, grant a vote to a newer candidate, stand for the next version, count a
  granted vote, or win with the votes of more than half of the cluster. \<open>as\<close> and \<open>gs\<close> are the vote
  requests and the granted votes it sends, \<open>m\<close> and \<open>a\<close> the message it got and its sender.
\<close>

definition quorum :: "nat \<Rightarrow> nat" where
  "quorum n = n div 2 + 1"

inductive voter :: "raft_message \<Rightarrow> 'a option \<Rightarrow> 'a option list \<Rightarrow> raft_state \<times> 32 word \<times> nat \<Rightarrow>
    ('a option \<times> 32 word) list \<Rightarrow> ('a option \<times> 32 word) list \<Rightarrow> raft_state \<times> 32 word \<times> nat \<Rightarrow> bool" for m a ps where
  voter_keep: "voter m a ps (st, v, k) [] [] (st, v, k)"
| voter_follow: "\<not> ver_lt w v \<Longrightarrow> voter m a ps (st, v, k) [] [] (Follower, w, k')"
| voter_grant: "a \<noteq> None \<Longrightarrow> mtype m = AskForVote \<Longrightarrow> ver_gt (mversion m) v \<Longrightarrow>
    voter m a ps (st, v, k) [] [(a, mversion m)] (Follower, mversion m, 0)"
| voter_stand: "st \<noteq> Leader \<Longrightarrow> voter m a ps (st, v, k) (map (\<lambda>b. (b, ver_inc v)) ps) [] (Candidate, ver_inc v, 1)"
| voter_count: "a \<noteq> None \<Longrightarrow> mtype m = Vote \<Longrightarrow> chosen m \<Longrightarrow> \<not> ver_lt (mversion m) v \<Longrightarrow>
    k + 1 < quorum (length ps + 1) \<Longrightarrow> voter m a ps (Candidate, v, k) [] [] (Candidate, v, k + 1)"
| voter_win: "a \<noteq> None \<Longrightarrow> mtype m = Vote \<Longrightarrow> chosen m \<Longrightarrow> \<not> ver_lt (mversion m) v \<Longrightarrow>
    k + 1 \<ge> quorum (length ps + 1) \<Longrightarrow> voter m a ps (Candidate, v, k) [] [] (Leader, v, 0)"

definition election :: "('a, 'm) raft_instance \<Rightarrow> raft_state \<times> 32 word \<times> nat" where
  "election i = (state i, version i, votes i)"

definition voted :: "raft_message \<Rightarrow> 'a option \<Rightarrow> ('a, 'm) raft_instance \<Rightarrow> ('a, 'm) raft_instance \<Rightarrow> bool" where
  "voted m a i j \<longleftrightarrow> voter m a (map fst (peers i)) (election i) (asks (outbox j)) (grants (outbox j)) (election j)"

lemma and_then_Run [simp]: "and_then r f = Run s \<longleftrightarrow> (\<exists>t. r = Run t \<and> f t = Run s)"
  by (cases r) auto

lemma voted_quiet:
  assumes "election j = election i" "asks (outbox j) = []" "grants (outbox j) = []"
  shows "voted m a i j"
  unfolding voted_def assms by (cases "election i") (simp add: voter_keep)

lemma voted_keep: "outbox i = [] \<Longrightarrow> sends i j ts bs \<Longrightarrow> AskForVote \<notin> ts \<Longrightarrow> voted m a i j"
  by (rule voted_quiet) (simp_all add: election_def sends_sel sends_outs)

lemma voted_sends: "voted m a i j \<Longrightarrow> sends j k ts bs \<Longrightarrow> AskForVote \<notin> ts \<Longrightarrow> voted m a i k"
  by (simp add: voted_def election_def sends_sel sends_outs)

lemma voted_from:
  "voted m a i' j \<Longrightarrow> election i' = election i \<Longrightarrow> map fst (peers i') = map fst (peers i) \<Longrightarrow> voted m a i j"
  by (simp add: voted_def)

lemma change_leader_to_Run:
  assumes "change_leader_to now m a i = Run j"
  shows "\<not> ver_lt (mversion m) (version i)" "state j = Follower" "version j = mversion m" "leader j = a"
    "peers j = peers i" "outbox j = outbox i" "machine j = machine i" "votes j = 0" "running j = running i"
    "a \<noteq> None \<Longrightarrow> last_flush_time j = now"
  using assms by (auto simp: change_leader_to_def split_brain_def split: if_splits)

lemma respond_leader_check_Run:
  assumes "respond_leader_check M now m i = Run j"
  shows "state i = Follower \<and> sends (i\<lparr>version := mversion m\<rparr>) j {FollowerAck, Request} {leader i}"
proof -
  have f: "state i = Follower"
    using assms by (simp add: respond_leader_check_def split: if_splits)
  obtain need s where n: "need_synchronize_from M (leader i) m (machine i) = (need, s)"
    by (cases "need_synchronize_from M (leader i) m (machine i)")
  obtain d s' where r: "ready_to_receiving M (leader i) m s = (d, s')"
    by (cases "ready_to_receiving M (leader i) m s")
  let ?i = "i\<lparr>version := mversion m\<rparr>"
  have j: "j = (if need then request_logs now (leader i) d (?i\<lparr>machine := s'\<rparr>) else respond_leader now (leader i) (?i\<lparr>machine := s\<rparr>))"
    using assms f n r by (auto simp: respond_leader_check_def split: if_splits)
  have "sends (?i\<lparr>machine := s\<rparr>) (respond_leader now (leader i) (?i\<lparr>machine := s\<rparr>)) {FollowerAck, Request} {leader i}"
    unfolding respond_leader_def by (rule sends_plain) simp_all
  moreover have "sends (?i\<lparr>machine := s'\<rparr>) (request_logs now (leader i) d (?i\<lparr>machine := s'\<rparr>)) {FollowerAck, Request} {leader i}"
    unfolding request_logs_def by (rule sends_extra) simp_all
  ultimately show ?thesis
    using f by (simp only: sends_machine j if_split) simp
qed

lemma election_upd [simp]:
  "election (i\<lparr>machine := s\<rparr>) = election i" "election (i\<lparr>last_flush_time := t\<rparr>) = election i"
  "election (i\<lparr>leader := l\<rparr>) = election i" "election (i\<lparr>peers := p\<rparr>) = election i"
  by (simp_all add: election_def)

lemma vote_to_voted:
  assumes "vote_to M now m a i = Run j" "outbox i = []" "mtype m = AskForVote" "a \<noteq> None"
  shows "voted m a i j"
proof (cases "ver_gt (mversion m) (version i)")
  case False
  then have "j = send_vote now a False i"
    using assms(1) by (simp add: vote_to_def)
  then show ?thesis
    using voted_keep [OF assms(2) sends_refusal [of "{Vote}" a UNIV]] by simp
next
  case True
  obtain can s where c: "can_be_leader M a m (machine i) = (can, s)"
    by (cases "can_be_leader M a m (machine i)")
  obtain k where k: "change_leader_to now m (if can then a else None) (i\<lparr>machine := s\<rparr>) = Run k" "j = send_vote now a can k"
    using assms(1) True c by (cases can) (auto simp: vote_to_def)
  note ch = change_leader_to_Run [OF k(1)]
  obtain r where r: "mtype r = Vote" "mversion r = version k" "chosen r = can" "outbox j = [(a, r)]"
    using send_vote_outbox [where b = can and i = k and now = now and a = a] k(2) ch(6) assms(2) by auto
  have e: "election j = (Follower, mversion m, 0)"
    using ch by (simp add: k(2) election_def)
  show ?thesis
  proof (cases can)
    case True
    then show ?thesis
      using r ch(3) e voter_grant [OF assms(4,3) \<open>ver_gt (mversion m) (version i)\<close>]
      by (simp add: voted_def election_def)
  next
    case False
    then show ?thesis
      using r ch(1) e voter_follow [of "mversion m" "version i"] by (simp add: voted_def election_def)
  qed
qed

lemma accept_vote_voted:
  assumes "outbox i = []" "mtype m = Vote" "a \<noteq> None" "state i = Candidate \<Longrightarrow> \<not> ver_lt (mversion m) (version i)"
  shows "voted m a i (accept_vote M now m i)"
proof (cases "state i = Candidate \<and> chosen m")
  case False
  then show ?thesis
    using voted_keep [OF assms(1) sends_refl] by (auto simp: accept_vote_def)
next
  case True
  let ?i = "i\<lparr>votes := votes i + 1\<rparr>"
  show ?thesis
  proof (cases "votes i + 1 \<ge> quorum (length (map fst (peers i)) + 1)")
    case win: True
    let ?j = "become_leader now ?i"
    have "voted m a i ?j"
      using voter_win [OF assms(3,2) conjunct2 [OF True] assms(4) win] True assms(1)
      by (simp add: voted_def election_def become_leader_def)
    then have "voted m a i (notify_peers M now (map fst (peers i)) ?j)"
      by (rule voted_sends) (rule sends_notify [of "{LeaderCheck}" _ UNIV], simp_all)
    then show ?thesis
      using True win by (simp add: accept_vote_def Let_def quorum_def become_leader_def)
  next
    case more: False
    then show ?thesis
      using voter_count [OF assms(3,2) conjunct2 [OF True] assms(4)] True assms(1)
      by (simp add: voted_def election_def accept_vote_def quorum_def)
  qed
qed

lemma follow_voted:
  assumes "and_then (change_leader_to now m a i) (respond_leader_check M now m) = Run j" "outbox i = []"
  shows "voted m' a' i j"
proof -
  obtain k where k: "change_leader_to now m a i = Run k" "respond_leader_check M now m k = Run j"
    using assms(1) by auto
  note ch = change_leader_to_Run [OF k(1)]
  have s: "sends (k\<lparr>version := mversion m\<rparr>) j {FollowerAck, Request} {leader k}"
    using respond_leader_check_Run [OF k(2)] by simp
  have "voted m' a' i (k\<lparr>version := mversion m\<rparr>)"
    using ch(1,2,6) assms(2) voter_follow [OF ch(1)] by (simp add: voted_def election_def)
  then show ?thesis
    by (rule voted_sends [OF _ s]) simp
qed

lemma vote_to_be_leader_voted:
  assumes "outbox i = []" "state i \<noteq> Leader"
  shows "voted m a i (vote_to_be_leader now i)"
proof -
  let ?c = "become_candidate now i"
  let ?as = "map fst (peers i)"
  obtain out where out: "outbox (request_votes now ?as ?c) = out" "map fst out = ?as"
      "\<forall>(b, r) \<in> set out. mtype r = AskForVote \<and> mversion r = ver_inc (version i)"
    using request_votes_outbox [of now ?as ?c] assms(1) by (auto simp: become_candidate_def)
  have "asks out = map (\<lambda>b. (b, ver_inc (version i))) (map fst out)" "grants out = []"
    using out(3) by (induction out) (auto simp: asks_def grants_def)
  then have o: "asks (outbox (vote_to_be_leader now i)) = map (\<lambda>b. (b, ver_inc (version i))) ?as"
    "grants (outbox (vote_to_be_leader now i)) = []"
    unfolding out(2) using out(1) by (simp_all add: vote_to_be_leader_def Let_def become_candidate_def)
  have e: "election (vote_to_be_leader now i) = (Candidate, ver_inc (version i), 1)"
    using request_votes_sel [of now ?as ?c] by (simp add: election_def vote_to_be_leader_def Let_def become_candidate_def)
  show ?thesis
    unfolding voted_def o e unfolding election_def by (rule voter_stand [OF assms(2)])
qed

lemma map_fst_update: "map_of ps a \<noteq> None \<Longrightarrow> map fst (AList.update a t ps) = map fst ps"
  by (induction ps) auto

lemma touch_peer_sel:
  assumes "has_peer i a"
  shows "map fst (peers (touch_peer now a i)) = map fst (peers i)" "election (touch_peer now a i) = election i"
    "outbox (touch_peer now a i) = outbox i" "leader (touch_peer now a i) = leader i" "state (touch_peer now a i) = state i"
    "last_flush_time (touch_peer now a i) = last_flush_time i" "version (touch_peer now a i) = version i"
    "machine (touch_peer now a i) = machine i" "running (touch_peer now a i) = running i"
  using assms map_fst_update [of "peers i" a now] by (simp_all add: touch_peer_def has_peer_def election_def)

lemma accept_peer_Run:
  assumes "accept_peer now m a i = Run j"
  shows "map fst (peers j) = map fst (peers i)" "election j = election i" "outbox j = outbox i" "leader j = leader i"
    "state j = state i" "version j = version i" "last_flush_time j = last_flush_time i" "machine j = machine i"
    "running j = running i"
  using assms touch_peer_sel [of i a now] by (cases "has_peer i a"; simp add: accept_peer_def split: if_splits; blast)+

lemma new_one_online_sends:
  "\<exists>ps. sends (i\<lparr>peers := ps\<rparr>) (new_one_online M now a i) {LeaderCheck, OnlineAck} {a} \<and> (has_peer i a \<longrightarrow> ps = peers i)"
  by (rule exI [of _ "if has_peer i a then peers i else peers i @ [(a, now)]"])
    (auto simp: new_one_online_def Let_def notify_one_def affirm_online_def intro!: sends_plain sends_notify
      simp del: notify_peers.simps)

lemma sends_election: "sends i j ts bs \<Longrightarrow> election j = election i"
  by (simp add: election_def sends_sel)

lemma new_one_online_voted: "outbox i = [] \<Longrightarrow> voted m b i (new_one_online M now a i)"
  using new_one_online_sends [of i M now a]
  by (elim exE conjE) (rule voted_quiet, auto dest: sends_election sends_outs)

lemma peer_offline_voted: "outbox i = [] \<Longrightarrow> voted m b i (peer_offline now a i)"
  by (rule voted_quiet)
    (simp_all add: peer_offline_def Let_def affirm_offline_def election_def send_plain_def sendto_def next_serial_def)

lemma voted_same: "outbox j = [] \<Longrightarrow> election j = election i \<Longrightarrow> voted m a i j"
  by (rule voted_quiet) simp_all

lemma notify_one_voted: "outbox i = [] \<Longrightarrow> voted m b i (notify_one M now a i)"
  unfolding notify_one_def by (rule voted_keep [OF _ sends_notify [of "{LeaderCheck}" _ UNIV]]) simp_all

lemma from_follower_voted:
  assumes "handle_messages_from_follower M now m a i = Run j" "outbox i = []" "a \<noteq> None"
  shows "voted m a i j"
proof -
  obtain k where k: "accept_peer now m a i = Run k" "state i = Leader"
    using assms(1) by (auto simp: handle_messages_from_follower_def split: if_splits)
  note acc = accept_peer_Run [OF k(1)]
  have out: "outbox k = []"
    using acc(3) assms(2) by simp
  have "voted m a k j"
  proof (cases "mtype m")
    case LeaderCheck
    obtain can s where "can_be_leader M a m (machine k) = (can, s)"
      by (cases "can_be_leader M a m (machine k)")
    moreover have "voted m a k (notify_one M now a (k\<lparr>machine := s\<rparr>))" for s
      by (rule voted_from [OF notify_one_voted [of "k\<lparr>machine := s\<rparr>"]]) (simp_all add: out)
    moreover have "voted m a k j" if "and_then (change_leader_to now m a (k\<lparr>machine := s\<rparr>)) (respond_leader_check M now m) = Run j" for s
      by (rule voted_from [OF follow_voted [OF that]]) (simp_all add: out)
    moreover have "voted m a k j" if "and_then (change_leader_to now m a k) (respond_leader_check M now m) = Run j"
      by (rule follow_voted [OF that out])
    ultimately show ?thesis
      using assms(1) k LeaderCheck by (auto simp: handle_messages_from_follower_def split: if_splits)
  next
    case AskForVote
    then show ?thesis
      using assms k by (auto simp: handle_messages_from_follower_def intro!: vote_to_voted [OF _ out])
  next
    case Vote
    then show ?thesis
      using assms k acc(5) by (auto simp: handle_messages_from_follower_def intro!: accept_vote_voted out)
  next
    case Online
    then show ?thesis
      using assms k by (auto simp: handle_messages_from_follower_def intro!: new_one_online_voted out)
  next
    case Offline
    then show ?thesis
      using assms k by (auto simp: handle_messages_from_follower_def intro!: peer_offline_voted out)
  next
    case Request
    then show ?thesis
      using assms k out by (auto simp: handle_messages_from_follower_def synchronize_logs_def intro!: voted_same)
  qed (use assms k out in \<open>auto simp: handle_messages_from_follower_def intro!: voted_same\<close>)
  then show ?thesis
    by (rule voted_from) (use acc(1,2) in simp_all)
qed

lemma from_leader_voted:
  assumes "handle_messages_from_leader M now m i = Run j" "outbox i = []" "leader i \<noteq> None"
  shows "voted m (leader i) i j"
proof (cases "check_outdated i m")
  case True
  then show ?thesis
    using assms by (auto simp: handle_messages_from_leader_def intro!: voted_same split: if_splits)
next
  case False
  let ?k = "(touch_peer now (leader i) i)\<lparr>last_flush_time := now\<rparr>"
  have p: "has_peer i (leader i)" "state i \<noteq> Leader"
    using assms(1) False by (auto simp: handle_messages_from_leader_def split: if_splits)
  note acc = touch_peer_sel [OF p(1), of now]
  have out: "outbox ?k = []"
    using acc(3) assms(2) by simp
  have "voted m (leader i) ?k j"
  proof (cases "mtype m")
    case LeaderCheck
    have ol: "\<not> ver_lt (mversion m) (version i)"
      using False LeaderCheck by (simp add: check_outdated_def)
    have "respond_leader_check M now m ?k = Run j"
      using assms(1) False p LeaderCheck by (simp add: handle_messages_from_leader_def Let_def)
    from respond_leader_check_Run [OF this] have r: "state i = Follower"
      "sends (?k\<lparr>version := mversion m\<rparr>) j {FollowerAck, Request} {leader i}"
      using acc(4,5) by simp_all
    have "voted m (leader i) ?k (?k\<lparr>version := mversion m\<rparr>)"
      using voter_follow [OF ol] out acc(5,7) r(1) by (simp add: voted_def election_def)
    then show ?thesis
      by (rule voted_sends [OF _ r(2)]) simp
  next
    case AskForVote
    then have "vote_to M now m (leader i) ?k = Run j"
      using assms(1) False p acc(4) by (simp add: handle_messages_from_leader_def Let_def)
    then show ?thesis
      by (rule vote_to_voted [OF _ out AskForVote assms(3)])
  next
    case Offline
    then have "j = peer_offline now (leader i) ?k"
      using assms(1) False p acc(4) by (simp add: handle_messages_from_leader_def Let_def)
    then show ?thesis
      using peer_offline_voted [OF out] by simp
  qed (use assms False p out in \<open>auto simp: handle_messages_from_leader_def Let_def intro!: voted_same\<close>)
  then show ?thesis
    by (rule voted_from) (use acc(1,2) in simp_all)
qed

lemma from_peer_voted:
  assumes "handle_messages_from_peer M now m a i = Run j" "outbox i = []" "a \<noteq> None"
  shows "voted m a i j"
proof (cases "check_outdated i m")
  case True
  then show ?thesis
    using assms by (auto simp: handle_messages_from_peer_def intro!: voted_same split: if_splits)
next
  case False
  obtain k where k: "accept_peer now m a i = Run k" "leader i \<noteq> a"
    using assms(1) False by (auto simp: handle_messages_from_peer_def split: if_splits)
  note acc = accept_peer_Run [OF k(1)]
  have out: "outbox k = []"
    using acc(3) assms(2) by simp
  have "voted m a k j"
  proof (cases "mtype m")
    case LeaderCheck
    then show ?thesis
      using assms False k by (intro follow_voted [OF _ out]) (auto simp: handle_messages_from_peer_def)
  next
    case AskForVote
    then show ?thesis
      using assms False k by (auto simp: handle_messages_from_peer_def intro!: vote_to_voted [OF _ out])
  next
    case Vote
    then show ?thesis
      using assms False k acc(6) by (auto simp: handle_messages_from_peer_def check_outdated_def intro!: accept_vote_voted out)
  next
    case Online
    then show ?thesis
      using assms False k by (auto simp: handle_messages_from_peer_def intro!: new_one_online_voted out)
  next
    case Offline
    then show ?thesis
      using assms False k by (auto simp: handle_messages_from_peer_def intro!: peer_offline_voted out)
  qed (use assms False k out in \<open>auto simp: handle_messages_from_peer_def intro!: voted_same\<close>)
  then show ?thesis
    by (rule voted_from) (use acc(1,2) in simp_all)
qed

lemma voted_timeout: "voted m a i j \<Longrightarrow> voted m a i (handle_leader_timeout M now j)"
proof -
  assume "voted m a i j"
  then have "voted m a i (notify_peers M now (map fst (peers j)) j)"
    by (rule voted_sends [OF _ sends_notify [of "{LeaderCheck}" _ UNIV]]) simp_all
  then show ?thesis
    by (simp add: voted_def handle_leader_timeout_def)
qed

lemma leader_loop_Run:
  assumes "state i = Leader" "thread_loop M now (m, a) i = Run j"
  shows "\<exists>k. (if a \<noteq> None then handle_messages_from_follower M now m a i else Run i) = Run k \<and>
    (if last_flush_time k + LEADER_SENT_TIMEOUT < now then Run (handle_leader_timeout M now k) else Run k) = Run j"
  using assms unfolding thread_loop_def leader_thread_loop_def Let_def by (simp only: raft_state.case prod.case and_then_Run)

lemma thread_voted:
  assumes "thread_loop M now (m, a) i = Run j" "outbox i = []"
  shows "voted m a i j"
proof (cases "state i")
  case Leader
  then obtain k where k: "(if a \<noteq> None then handle_messages_from_follower M now m a i else Run i) = Run k"
    "(if last_flush_time k + LEADER_SENT_TIMEOUT < now then Run (handle_leader_timeout M now k) else Run k) = Run j"
    using leader_loop_Run [OF _ assms(1)] by blast
  have "voted m a i k"
    using k(1) from_follower_voted [OF _ assms(2)] assms(2) voted_same [of i i] by (auto split: if_splits)
  then show ?thesis
    using k(2) voted_timeout by (auto split: if_splits)
next
  case Candidate
  then show ?thesis
    using assms from_peer_voted [of M now m a i j] vote_to_be_leader_voted [OF assms(2), of m a now]
    by (auto simp: thread_loop_def candidate_thread_loop_def handle_candidate_timeout_def split: if_splits)
next
  case Follower
  consider "a = None" | "a \<noteq> None" "a = leader i" | "a \<noteq> None" "a \<noteq> leader i"
    by blast
  then show ?thesis
  proof cases
    case 1
    then show ?thesis
      using assms Follower vote_to_be_leader_voted [OF assms(2), of m a now]
      by (simp add: thread_loop_def follower_thread_loop_def handle_follower_timeout_def)
  next
    case 2
    then have "handle_messages_from_leader M now m i = Run j"
      using assms(1) Follower by (simp add: thread_loop_def follower_thread_loop_def)
    from from_leader_voted [OF this assms(2)] show ?thesis
      using 2 by simp
  next
    case 3
    then have "handle_messages_from_peer M now m a i = Run j"
      using assms(1) Follower by (simp add: thread_loop_def follower_thread_loop_def)
    from from_peer_voted [OF this assms(2) 3(1)] show ?thesis .
  qed
qed

text \<open>
  Property C20. Whatever message an instance receives in whatever state, and when it receives none in
  time, a turn of its thread is one step of the abstract voter.
\<close>

theorem thread_refines_voter:
  assumes "thread_loop M now (m, a) i = Run j" "outbox i = []"
  shows "voter m a (map fst (peers i)) (election i) (asks (outbox j)) (grants (outbox j)) (election j)"
  using thread_voted [OF assms] by (simp add: voted_def)

section \<open>What a turn sends, and to whom\<close>

text \<open>A user's state machine that accepts every candidate.\<close>

definition trusting :: "('a, 'm) state_machine \<Rightarrow> bool" where
  "trusting M \<longleftrightarrow> (\<forall>a m s. fst (can_be_leader M a m s))"

definition election_types :: "message_type set" where
  "election_types = {LeaderCheck, FollowerAck, AskForVote, Vote, Request}"

text \<open>
  \<open>tame M a i j\<close>: the step from \<open>i\<close>, with nothing to send, to \<open>j\<close> on a message of \<open>a\<close> keeps the peers,
  leaves no leader but the old one or \<open>a\<close>, and only sends election messages, with its version, to
  them and the peers. Only a leader claims to be one, if the state machine trusts every candidate.
\<close>

definition tame :: "('a, 'm) state_machine \<Rightarrow> 'a option \<Rightarrow> ('a, 'm) raft_instance \<Rightarrow> ('a, 'm) raft_instance \<Rightarrow> bool" where
  "tame M a i j \<longleftrightarrow>
     map fst (peers j) = map fst (peers i) \<and> leader j \<in> {leader i, None, a} \<and> (state j \<noteq> Follower \<longrightarrow> leader j = None) \<and>
     (\<forall>(b, r) \<in> set (outbox j). b \<in> {a, leader i} \<union> fst ` set (peers i) \<and> mtype r \<in> election_types \<and>
        mversion r = version j \<and> (trusting M \<longrightarrow> mtype r = LeaderCheck \<longrightarrow> state j = Leader))"

lemma tame_sends:
  assumes "outbox k = []" "sends k j ts bs" "map fst (peers k) = map fst (peers i)" "leader k \<in> {leader i, None, a}"
    and "state k \<noteq> Follower \<Longrightarrow> leader k = None" "ts \<subseteq> election_types" "bs \<subseteq> {a, leader i} \<union> fst ` set (peers i)"
    and "LeaderCheck \<in> ts \<Longrightarrow> state k = Leader"
  shows "tame M a i j"
proof -
  note s = sends_sel [OF assms(2)]
  have "b \<in> {a, leader i} \<union> fst ` set (peers i) \<and> mtype r \<in> election_types \<and> mversion r = version j \<and>
      (mtype r = LeaderCheck \<longrightarrow> state j = Leader)" if "(b, r) \<in> set (outbox j)" for b r
    using assms(1,2,6-8) that s(2,4) unfolding sends_def by fastforce
  then show ?thesis
    using s assms(3-5) unfolding tame_def by auto
qed

lemma keys_set: "map fst ps = map fst qs \<Longrightarrow> fst ` set ps = fst ` set qs"
  by (metis list.set_map)

lemma tame_from:
  assumes "tame M a k j" "map fst (peers k) = map fst (peers i)" "leader k = leader i"
  shows "tame M a i j"
  using assms(1) unfolding tame_def keys_set [OF assms(2)] assms(2,3) .

lemma tame_refl: "outbox i = [] \<Longrightarrow> (state i \<noteq> Follower \<Longrightarrow> leader i = None) \<Longrightarrow> tame M a i i"
  by (simp add: tame_def)

lemma send_vote_tame:
  assumes "outbox k = []" "map fst (peers k) = map fst (peers i)" "leader k \<in> {leader i, None, a}"
    "state k \<noteq> Follower \<Longrightarrow> leader k = None"
  shows "tame M a i (send_vote now a b k)"
proof -
  obtain m where "mtype m = Vote" "mversion m = version k" "outbox (send_vote now a b k) = [(a, m)]"
    using send_vote_outbox [where b = b and i = k and now = now and a = a] assms(1) by auto
  then show ?thesis
    using assms by (simp add: tame_def election_types_def)
qed

lemma vote_to_tame:
  assumes "vote_to M now m a i = Run j" "outbox i = []" "state i \<noteq> Follower \<Longrightarrow> leader i = None"
  shows "tame M a i j"
proof (cases "ver_gt (mversion m) (version i)")
  case False
  then have "j = send_vote now a False i"
    using assms(1) by (simp add: vote_to_def)
  then show ?thesis
    using send_vote_tame [OF assms(2) refl _ assms(3)] by simp
next
  case True
  obtain can s where c: "can_be_leader M a m (machine i) = (can, s)"
    by (cases "can_be_leader M a m (machine i)")
  obtain k where k: "change_leader_to now m (if can then a else None) (i\<lparr>machine := s\<rparr>) = Run k" "j = send_vote now a can k"
    using assms(1) True c by (cases can) (auto simp: vote_to_def)
  note ch = change_leader_to_Run [OF k(1)]
  show ?thesis
    unfolding k(2) by (rule send_vote_tame) (use ch assms(2) in auto)
qed

lemma follow_tame:
  assumes "and_then (change_leader_to now m a i) (respond_leader_check M now m) = Run j" "outbox i = []"
  shows "tame M a i j"
proof -
  obtain k where k: "change_leader_to now m a i = Run k" "respond_leader_check M now m k = Run j"
    using assms(1) by auto
  note ch = change_leader_to_Run [OF k(1)]
  have s: "sends (k\<lparr>version := mversion m\<rparr>) j {FollowerAck, Request} {leader k}"
    using respond_leader_check_Run [OF k(2)] by simp
  show ?thesis
    by (rule tame_sends [OF _ s]) (use ch assms(2) in \<open>auto simp: election_types_def\<close>)
qed

lemma accept_vote_tame:
  assumes "outbox i = []" "state i \<noteq> Follower \<Longrightarrow> leader i = None"
  shows "tame M a i (accept_vote M now m i)"
proof -
  let ?j = "become_leader now (i\<lparr>votes := votes i + 1\<rparr>)"
  have "sends ?j (notify_peers M now (map fst (peers i)) ?j) {LeaderCheck} (fst ` set (peers i))"
    by (rule sends_notify) simp_all
  then have "tame M a i (notify_peers M now (map fst (peers i)) ?j)"
    by (rule tame_sends [rotated]) (use assms in \<open>auto simp: become_leader_def election_types_def\<close>)
  then show ?thesis
    using assms by (auto simp: accept_vote_def Let_def become_leader_def tame_def)
qed

lemma vote_to_be_leader_tame:
  assumes "outbox i = []"
  shows "tame M a i (vote_to_be_leader now i)"
proof -
  let ?c = "become_candidate now i"
  let ?as = "map fst (peers i)"
  obtain out where out: "outbox (request_votes now ?as ?c) = out" "map fst out = ?as"
      "\<forall>(b, r) \<in> set out. mtype r = AskForVote \<and> mversion r = ver_inc (version i)"
    using request_votes_outbox [of now ?as ?c] assms(1) by (auto simp: become_candidate_def)
  have "b \<in> fst ` set (peers i) \<and> mtype r = AskForVote \<and> mversion r = ver_inc (version i)" if "(b, r) \<in> set out" for b r
    using that out(3) arg_cong [OF out(2), of set] by force
  then show ?thesis
    using out(1) request_votes_sel [of now ?as ?c]
    unfolding tame_def vote_to_be_leader_def Let_def by (auto simp: become_candidate_def election_types_def)
qed

lemma notify_one_tame:
  assumes "outbox k = []" "state k = Leader" "leader k = None" "map fst (peers k) = map fst (peers i)"
  shows "tame M a i (notify_one M now a k)"
proof -
  have "sends k (notify_one M now a k) {LeaderCheck} {a}"
    unfolding notify_one_def by (rule sends_notify) simp_all
  then show ?thesis
    by (rule tame_sends [rotated]) (use assms in \<open>auto simp: election_types_def\<close>)
qed

lemma from_follower_tame:
  assumes "handle_messages_from_follower M now m a i = Run j" "outbox i = []" "mtype m \<in> election_types" "leader i = None"
  shows "tame M a i j"
proof -
  obtain k where k: "accept_peer now m a i = Run k" "state i = Leader"
    using assms(1) by (auto simp: handle_messages_from_follower_def split: if_splits)
  note acc = accept_peer_Run [OF k(1)]
  have out: "outbox k = []" and led: "leader k = None" and st: "state k = Leader"
    using acc(3,4,5) assms(2,4) k(2) by simp_all
  have "tame M a k j"
  proof (cases "mtype m")
    case LeaderCheck
    obtain can s where "can_be_leader M a m (machine k) = (can, s)"
      by (cases "can_be_leader M a m (machine k)")
    moreover have "tame M a k (notify_one M now a (k\<lparr>machine := s\<rparr>))" for s
      by (rule notify_one_tame) (simp_all add: out led st)
    moreover have "tame M a k j" if "and_then (change_leader_to now m a (k\<lparr>machine := s\<rparr>)) (respond_leader_check M now m) = Run j" for s
      by (rule tame_from [OF follow_tame [OF that]]) (simp_all add: out)
    moreover have "tame M a k j" if "and_then (change_leader_to now m a k) (respond_leader_check M now m) = Run j"
      by (rule follow_tame [OF that out])
    ultimately show ?thesis
      using assms(1) k LeaderCheck by (auto simp: handle_messages_from_follower_def split: if_splits)
  next
    case AskForVote
    then show ?thesis
      using assms k led by (auto simp: handle_messages_from_follower_def intro!: vote_to_tame [OF _ out])
  next
    case Vote
    then show ?thesis
      using assms k led by (auto simp: handle_messages_from_follower_def intro!: accept_vote_tame out)
  next
    case FollowerAck
    then show ?thesis
      using assms k led out by (auto simp: handle_messages_from_follower_def intro!: tame_refl)
  next
    case Request
    then show ?thesis
      using assms k out led by (auto simp: handle_messages_from_follower_def synchronize_logs_def tame_def)
  qed (use assms(3) in \<open>auto simp: election_types_def\<close>)
  then show ?thesis
    by (rule tame_from) (use acc in simp_all)
qed

lemma from_leader_tame:
  assumes "handle_messages_from_leader M now m i = Run j" "outbox i = []" "leader i \<noteq> None"
    "state i \<noteq> Follower \<Longrightarrow> leader i = None" "mtype m \<in> election_types"
  shows "tame M (leader i) i j"
proof (cases "check_outdated i m")
  case True
  then show ?thesis
    using assms by (auto simp: handle_messages_from_leader_def intro!: tame_refl split: if_splits)
next
  case False
  let ?k = "(touch_peer now (leader i) i)\<lparr>last_flush_time := now\<rparr>"
  have p: "has_peer i (leader i)" "state i \<noteq> Leader"
    using assms(1) False by (auto simp: handle_messages_from_leader_def split: if_splits)
  note acc = touch_peer_sel [OF p(1), of now]
  have "state i = Follower"
    by (rule ccontr) (use assms(3,4) in simp)
  then have st: "state ?k = Follower"
    using acc(5) by simp
  have out: "outbox ?k = []"
    using acc(3) assms(2) by simp
  have "tame M (leader i) ?k j"
  proof (cases "mtype m")
    case LeaderCheck
    have "respond_leader_check M now m ?k = Run j"
      using assms(1) False p LeaderCheck by (simp add: handle_messages_from_leader_def Let_def)
    from respond_leader_check_Run [OF this]
    have "sends (?k\<lparr>version := mversion m\<rparr>) j {FollowerAck, Request} {leader i}"
      using acc(4) by simp
    then show ?thesis
      by (rule tame_sends [rotated]) (use st out acc(4) in \<open>auto simp: election_types_def\<close>)
  next
    case AskForVote
    then have "vote_to M now m (leader i) ?k = Run j"
      using assms(1) False p acc(4) by (simp add: handle_messages_from_leader_def Let_def)
    then show ?thesis
      by (rule vote_to_tame [OF _ out]) (use st in simp)
  qed (use assms False p out st in \<open>auto simp: handle_messages_from_leader_def Let_def election_types_def intro!: tame_refl\<close>)
  then show ?thesis
    by (rule tame_from) (use acc in simp_all)
qed

lemma from_peer_tame:
  assumes "handle_messages_from_peer M now m a i = Run j" "outbox i = []"
    "state i \<noteq> Follower \<Longrightarrow> leader i = None" "mtype m \<in> election_types"
  shows "tame M a i j"
proof (cases "check_outdated i m")
  case True
  then show ?thesis
    using assms by (auto simp: handle_messages_from_peer_def intro!: tame_refl split: if_splits)
next
  case False
  obtain k where k: "accept_peer now m a i = Run k" "leader i \<noteq> a"
    using assms(1) False by (auto simp: handle_messages_from_peer_def split: if_splits)
  note acc = accept_peer_Run [OF k(1)]
  have out: "outbox k = []" and led: "state k \<noteq> Follower \<Longrightarrow> leader k = None"
    using acc(3,4,5) assms(2,3) by simp_all
  have "tame M a k j"
  proof (cases "mtype m")
    case LeaderCheck
    then show ?thesis
      using assms(1) False k by (intro follow_tame [OF _ out]) (auto simp: handle_messages_from_peer_def)
  next
    case AskForVote
    then have "vote_to M now m a k = Run j"
      using assms(1) False k by (auto simp: handle_messages_from_peer_def)
    then show ?thesis
      by (rule vote_to_tame [OF _ out led])
  next
    case Vote
    then have "j = accept_vote M now m k"
      using assms(1) False k by (auto simp: handle_messages_from_peer_def)
    then show ?thesis
      using accept_vote_tame [OF out led] by simp
  qed (use assms(1,4) False k tame_refl [OF out led] in \<open>auto simp: handle_messages_from_peer_def election_types_def\<close>)
  then show ?thesis
    by (rule tame_from) (use acc in simp_all)
qed

lemma tame_more:
  assumes "tame M a i k" "sends k j {LeaderCheck} (fst ` set (peers i))" "trusting M \<Longrightarrow> state k = Leader"
  shows "tame M a i j"
proof -
  obtain out where out: "outbox j = outbox k @ out"
      "\<forall>(b, r) \<in> set out. b \<in> fst ` set (peers i) \<and> mtype r = LeaderCheck \<and> mversion r = version k"
    using assms(2) unfolding sends_def by fast
  show ?thesis
    using assms(1,3) out(2) sends_sel [OF assms(2)]
    unfolding tame_def out(1) set_append by (auto simp: election_types_def)
qed

text \<open>With a trusting state machine only a leader reaches the end of its turn with an old flush time.\<close>

lemma from_follower_flush:
  assumes "handle_messages_from_follower M now m a i = Run j" "trusting M" "a \<noteq> None" "mtype m \<in> election_types"
  shows "state j = Leader \<or> last_flush_time j = now"
proof -
  obtain k where k: "accept_peer now m a i = Run k" "state i = Leader"
    using assms(1) by (auto simp: handle_messages_from_follower_def split: if_splits)
  have st: "state k = Leader"
    using accept_peer_Run(5) [OF k(1)] k(2) by simp
  have notify: "state (notify_one M now a l) = state l" for l
    unfolding notify_one_def by (rule sends_sel(2) [OF sends_notify [of "{LeaderCheck}" _ UNIV]]) simp_all
  have follow: "last_flush_time j = now" if f: "and_then (change_leader_to now m a l) (respond_leader_check M now m) = Run j" for l
  proof -
    obtain t where t: "change_leader_to now m a l = Run t" "respond_leader_check M now m t = Run j"
      using f by auto
    show ?thesis
      using change_leader_to_Run(10) [OF t(1) assms(3)] respond_leader_check_Run [OF t(2)] sends_sel(6) by fastforce
  qed
  show ?thesis
  proof (cases "mtype m")
    case LeaderCheck
    then show ?thesis
      using assms(1) k st notify follow
      by (auto simp: handle_messages_from_follower_def split: if_splits prod.splits)
  next
    case AskForVote
    then have v: "vote_to M now m a k = Run j"
      using assms(1) k by (auto simp: handle_messages_from_follower_def)
    obtain can s where c: "can_be_leader M a m (machine k) = (can, s)"
      by (cases "can_be_leader M a m (machine k)")
    then have can
      using assms(2) unfolding trusting_def by (metis fst_conv)
    have fl: "last_flush_time t = now" if "change_leader_to now m a l = Run t" for l and t :: "('a, 'b) raft_instance"
      using change_leader_to_Run(10) [OF that assms(3)] .
    show ?thesis
      using v c st \<open>can\<close> by (auto simp: vote_to_def dest: fl split: if_splits)
  next
    case Vote
    then show ?thesis
      using assms(1) k st by (auto simp: handle_messages_from_follower_def accept_vote_def)
  qed (use assms(1,4) k st in \<open>auto simp: handle_messages_from_follower_def synchronize_logs_def election_types_def\<close>)
qed

lemma timeout_sends:
  "sends i (notify_peers M now (map fst (peers i)) i) {LeaderCheck} (fst ` set (peers i))"
  by (rule sends_notify) simp_all

lemma thread_tame:
  assumes "thread_loop M now (m, a) i = Run j" "outbox i = []" "state i \<noteq> Follower \<Longrightarrow> leader i = None"
    "a \<noteq> None \<Longrightarrow> mtype m \<in> election_types"
  shows "tame M a i j"
proof (cases "state i")
  case Leader
  then obtain k where k: "(if a \<noteq> None then handle_messages_from_follower M now m a i else Run i) = Run k"
    "(if last_flush_time k + LEADER_SENT_TIMEOUT < now then Run (handle_leader_timeout M now k) else Run k) = Run j"
    using leader_loop_Run [OF _ assms(1)] by blast
  have t: "tame M a i k"
    using k(1) from_follower_tame [of M now m a i k] tame_refl [OF assms(2,3)] assms Leader by (auto split: if_splits)
  show ?thesis
  proof (cases "last_flush_time k + LEADER_SENT_TIMEOUT < now")
    case True
    have "state k = Leader" if "trusting M"
      using k(1) from_follower_flush [of M now m a i k] that Leader assms(4) True
      by (auto simp: LEADER_SENT_TIMEOUT_def split: if_splits)
    then have "tame M a i (notify_peers M now (map fst (peers k)) k)"
      using tame_more [OF t] timeout_sends [of k M now] keys_set [of "peers k" "peers i"] t by (simp add: tame_def)
    then show ?thesis
      using k(2) True by (auto simp: handle_leader_timeout_def tame_def)
  next
    case False
    then show ?thesis
      using t k(2) by simp
  qed
next
  case Candidate
  then show ?thesis
    using assms from_peer_tame [of M now m a i j] vote_to_be_leader_tame [OF assms(2), of M a now]
    by (auto simp: thread_loop_def candidate_thread_loop_def handle_candidate_timeout_def split: if_splits)
next
  case Follower
  consider "a = None" | "a \<noteq> None" "a = leader i" | "a \<noteq> None" "a \<noteq> leader i"
    by blast
  then show ?thesis
  proof cases
    case 1
    then show ?thesis
      using assms Follower vote_to_be_leader_tame [OF assms(2), of M a now]
      by (simp add: thread_loop_def follower_thread_loop_def handle_follower_timeout_def)
  next
    case 2
    then have "handle_messages_from_leader M now m i = Run j"
      using assms(1) Follower by (simp add: thread_loop_def follower_thread_loop_def)
    from from_leader_tame [OF this assms(2) _ assms(3)] show ?thesis
      using 2 assms(4) by simp
  next
    case 3
    then have "handle_messages_from_peer M now m a i = Run j"
      using assms(1) Follower by (simp add: thread_loop_def follower_thread_loop_def)
    from from_peer_tame [OF this assms(2,3)] show ?thesis
      using 3 assms(4) by simp
  qed
qed

end
