(* ===== verification/RaftCluster.thy ===== *)
theory RaftCluster
  imports Raft
begin

text \<open>
  Clusters of Raft instances over a network that loses, delays and reorders datagrams, built on the
  turns of theory Raft. The members know each other and no one joins or leaves. The invariant counts
  the votes cast against the votes collected; it gives election safety, and that no node stops when
  the user's state machines accept every candidate. The last sections have two ways in which an
  election does go wrong, a refusing state machine and a duplicated datagram, and concrete runs.
\<close>

section \<open>Clusters\<close>

record ('a, 'm) cluster =
  nodes :: "'a \<Rightarrow> ('a, 'm) raft_instance"
  net :: "('a \<times> 'a option \<times> raft_message) multiset"

text \<open>After a turn of \<open>n\<close> its datagrams are on the network, with \<open>n\<close> as their sender.\<close>

definition settle :: "('a, 'm) cluster \<Rightarrow> 'a \<Rightarrow> ('a, 'm) raft_instance \<Rightarrow> ('a \<times> 'a option \<times> raft_message) multiset \<Rightarrow> ('a, 'm) cluster" where
  "settle c n i ns = c\<lparr>nodes := (nodes c)(n := i\<lparr>outbox := []\<rparr>), net := ns + mset (map (\<lambda>(a, m). (n, a, m)) (outbox i))\<rparr>"

inductive cluster_step :: "('a, 'm) state_machine \<Rightarrow> 'a set \<Rightarrow> ('a, 'm) cluster \<Rightarrow> ('a, 'm) cluster \<Rightarrow> bool" for M N c where
  step_receive: "n \<in> N \<Longrightarrow> (f, Some n, m) \<in># net c \<Longrightarrow> thread_loop M now (m, Some f) (nodes c n) = Run i \<Longrightarrow>
    cluster_step M N c (settle c n i (net c - {#(f, Some n, m)#}))"
| step_timeout: "n \<in> N \<Longrightarrow> thread_loop M now (m, None) (nodes c n) = Run i \<Longrightarrow> cluster_step M N c (settle c n i (net c))"
| step_synchronize: "n \<in> N \<Longrightarrow> synchronize_logs_to_followers M now (nodes c n) = Run i \<Longrightarrow>
    cluster_step M N c (settle c n i (net c))"
| step_lose: "x \<in># net c \<Longrightarrow> cluster_step M N c (c\<lparr>net := net c - {#x#}\<rparr>)"

definition cluster_start :: "'a set \<Rightarrow> ('a, 'm) cluster \<Rightarrow> bool" where
  "cluster_start N c \<longleftrightarrow> finite N \<and> net c = {#} \<and>
     (\<forall>n \<in> N. state (nodes c n) = Follower \<and> leader (nodes c n) = None \<and> version (nodes c n) = 0 \<and>
        outbox (nodes c n) = [] \<and> distinct (map fst (peers (nodes c n))) \<and>
        fst ` set (peers (nodes c n)) = Some ` (N - {n}))"

text \<open>Versions are compared on a circle; a run is followed while they stay in its first half.\<close>

inductive cluster_reach :: "('a, 'm) state_machine \<Rightarrow> 'a set \<Rightarrow> ('a, 'm) cluster \<Rightarrow> ('a, 'm) cluster \<Rightarrow> bool" for M N c0 where
  reach_start: "cluster_reach M N c0 c0"
| reach_next: "cluster_reach M N c0 c \<Longrightarrow> cluster_step M N c d \<Longrightarrow> \<forall>n \<in> N. unat (version (nodes d n)) < 2 ^ 31 \<Longrightarrow>
    cluster_reach M N c0 d"

section \<open>The invariant of an election\<close>

text \<open>
  \<open>G\<close> collects the votes: \<open>(w, m, b)\<close> when \<open>m\<close> voted for \<open>b\<close> in version \<open>w\<close>, itself included.
  \<open>pending ns b w\<close> counts the granted votes of version \<open>w\<close> on their way to \<open>b\<close>.
\<close>

definition supporters :: "(32 word \<times> 'a \<times> 'a) set \<Rightarrow> 32 word \<Rightarrow> 'a \<Rightarrow> 'a set" where
  "supporters G w b = {m. (w, m, b) \<in> G}"

definition pending :: "('a \<times> 'a option \<times> raft_message) multiset \<Rightarrow> 'a \<Rightarrow> 32 word \<Rightarrow> nat" where
  "pending ns b w = size (filter_mset (\<lambda>(f, t, m). t = Some b \<and> mtype m = Vote \<and> chosen m \<and> mversion m = w) ns)"

definition nodes_ok :: "'a set \<Rightarrow> ('a, 'm) cluster \<Rightarrow> bool" where
  "nodes_ok N c \<longleftrightarrow> (\<forall>n \<in> N. outbox (nodes c n) = [] \<and> distinct (map fst (peers (nodes c n))) \<and>
     fst ` set (peers (nodes c n)) = Some ` (N - {n}) \<and> (state (nodes c n) \<noteq> Follower \<longrightarrow> leader (nodes c n) = None) \<and>
     unat (version (nodes c n)) < 2 ^ 31)"

definition votes_ok :: "'a set \<Rightarrow> ('a, 'm) cluster \<Rightarrow> (32 word \<times> 'a \<times> 'a) set \<Rightarrow> bool" where
  "votes_ok N c G \<longleftrightarrow>
     (\<forall>w m b. (w, m, b) \<in> G \<longrightarrow> m \<in> N \<and> b \<in> N \<and> w \<le> version (nodes c m) \<and> w \<le> version (nodes c b)) \<and>
     (\<forall>w m b b'. (w, m, b) \<in> G \<longrightarrow> (w, m, b') \<in> G \<longrightarrow> b = b')"

definition net_ok :: "'a set \<Rightarrow> ('a, 'm) cluster \<Rightarrow> (32 word \<times> 'a \<times> 'a) set \<Rightarrow> bool" where
  "net_ok N c G \<longleftrightarrow> (\<forall>f t m. (f, t, m) \<in># net c \<longrightarrow> f \<in> N \<and> mtype m \<in> election_types \<and>
     (mtype m = AskForVote \<longrightarrow> mversion m \<le> version (nodes c f)) \<and>
     (mtype m = Vote \<and> chosen m \<longrightarrow> (\<exists>b. t = Some b \<and> (mversion m, f, b) \<in> G)))"

definition count_ok :: "'a set \<Rightarrow> ('a, 'm) cluster \<Rightarrow> (32 word \<times> 'a \<times> 'a) set \<Rightarrow> bool" where
  "count_ok N c G \<longleftrightarrow> (\<forall>n \<in> N.
     (state (nodes c n) = Candidate \<longrightarrow>
        votes (nodes c n) + pending (net c) n (version (nodes c n)) \<le> card (supporters G (version (nodes c n)) n)) \<and>
     (state (nodes c n) = Leader \<longrightarrow> quorum (card N) \<le> card (supporters G (version (nodes c n)) n)))"

definition election_inv :: "'a set \<Rightarrow> ('a, 'm) cluster \<Rightarrow> (32 word \<times> 'a \<times> 'a) set \<Rightarrow> bool" where
  "election_inv N c G \<longleftrightarrow> finite N \<and> nodes_ok N c \<and> votes_ok N c G \<and> net_ok N c G \<and> count_ok N c G"

lemma election_invD:
  assumes "election_inv N c G"
  shows "finite N" "nodes_ok N c" "votes_ok N c G" "net_ok N c G" "count_ok N c G"
  using assms by (simp_all add: election_inv_def)

lemma nodes_okD:
  assumes "nodes_ok N c" "n \<in> N"
  shows "outbox (nodes c n) = []" "distinct (map fst (peers (nodes c n)))"
    "fst ` set (peers (nodes c n)) = Some ` (N - {n})" "state (nodes c n) \<noteq> Follower \<Longrightarrow> leader (nodes c n) = None"
    "unat (version (nodes c n)) < 2 ^ 31"
  using assms by (simp_all add: nodes_ok_def)

lemma votes_okD:
  assumes "votes_ok N c G"
  shows "(w, m, b) \<in> G \<Longrightarrow> m \<in> N \<and> b \<in> N \<and> w \<le> version (nodes c m) \<and> w \<le> version (nodes c b)"
    "(w, m, b) \<in> G \<Longrightarrow> (w, m, b') \<in> G \<Longrightarrow> b = b'"
  using assms unfolding votes_ok_def by blast+

lemma net_okD:
  assumes "net_ok N c G" "(f, t, m) \<in># net c"
  shows "f \<in> N" "mtype m \<in> election_types" "mtype m = AskForVote \<Longrightarrow> mversion m \<le> version (nodes c f)"
    "mtype m = Vote \<Longrightarrow> chosen m \<Longrightarrow> \<exists>b. t = Some b \<and> (mversion m, f, b) \<in> G"
  using assms unfolding net_ok_def by blast+

lemma supporters_mono: "votes_ok N c G' \<Longrightarrow> finite N \<Longrightarrow> G \<subseteq> G' \<Longrightarrow> card (supporters G w b) \<le> card (supporters G' w b)"
  unfolding supporters_def by (rule card_mono) (auto intro: finite_subset [of _ N] dest: votes_okD(1))

lemma pending_sent:
  "pending (ns + mset (map (\<lambda>(a, m). (n, a, m)) out)) b w = pending ns b w + count_list (grants out) (Some b, w)"
  by (induction out) (auto simp: pending_def grants_def)

lemma pending_less: "ns \<subseteq># ms \<Longrightarrow> pending ns b w \<le> pending ms b w"
  unfolding pending_def by (intro size_mset_mono multiset_filter_mono)

lemma pending_take:
  "(f, Some b, m) \<in># ns \<Longrightarrow> mtype m = Vote \<Longrightarrow> chosen m \<Longrightarrow>
   pending ns b (mversion m) = pending (ns - {#(f, Some b, m)#}) b (mversion m) + 1"
  using insert_DiffM [of "(f, Some b, m)" ns, symmetric] unfolding pending_def
  by (subst (1) insert_DiffM [symmetric]) auto

text \<open>Below half the circle the comparison of versions is the order of words.\<close>

lemma ver_lt_small: "unat l < 2 ^ 31 \<Longrightarrow> unat r < 2 ^ 31 \<Longrightarrow> ver_lt l r \<longleftrightarrow> l < r" for l r :: "32 word"
  unfolding ver_lt_distance by (auto simp: unat_diff_cases word_less_nat_alt word_le_nat_alt)

lemma ver_gt_small: "unat l < 2 ^ 31 \<Longrightarrow> unat r < 2 ^ 31 \<Longrightarrow> ver_gt l r \<longleftrightarrow> r < l" for l r :: "32 word"
  by (simp add: ver_gt_lt ver_lt_small)

lemma ver_inc_small: "unat v < 2 ^ 31 \<Longrightarrow> v < ver_inc v" for v :: "32 word"
  unfolding ver_inc_eq by (simp add: word_less_nat_alt unat_word_ariths)

section \<open>A turn keeps the invariant\<close>

lemma settle_sel [simp]:
  "nodes (settle c n j ns) = (nodes c)(n := j\<lparr>outbox := []\<rparr>)"
  "net (settle c n j ns) = ns + mset (map (\<lambda>(a, m). (n, a, m)) (outbox j))"
  by (simp_all add: settle_def)

lemma grants_sent: "(b, w) \<in> set (grants out) \<longleftrightarrow> (\<exists>r. (b, r) \<in> set out \<and> mtype r = Vote \<and> chosen r \<and> mversion r = w)"
  by (force simp: grants_def)

text \<open>
  What a turn owes: the new votes \<open>G' - G\<close> are cast by \<open>n\<close> in its new version and it has sent no vote
  but them; then the counts of \<open>n\<close> and of the others.
\<close>

lemma settle_inv:
  assumes inv: "election_inv N c G" and n: "n \<in> N" and ns: "ns \<subseteq># net c" and t: "tame M a (nodes c n) j"
    and bnd: "unat (version j) < 2 ^ 31" and mono: "version (nodes c n) \<le> version j" and G: "G \<subseteq> G'"
    and new: "\<And>w m b. (w, m, b) \<in> G' - G \<Longrightarrow> m = n \<and> b = bb \<and> w = version j \<and> version (nodes c n) < w"
    and bb: "G' \<noteq> G \<Longrightarrow> bb \<in> N \<and> (bb \<noteq> n \<longrightarrow> version j \<le> version (nodes c bb))"
    and outs: "\<And>b w. (b, w) \<in> set (grants (outbox j)) \<Longrightarrow> \<exists>f. b = Some f \<and> (w, n, f) \<in> G'"
    and cand: "state j = Candidate \<Longrightarrow> grants (outbox j) = [] \<and> votes j + pending ns n (version j) \<le> card (supporters G' (version j) n)"
    and lead: "state j = Leader \<Longrightarrow> quorum (card N) \<le> card (supporters G' (version j) n)"
    and others: "\<And>b w. b \<noteq> n \<Longrightarrow> count_list (grants (outbox j)) (Some b, w) + card (supporters G w b) \<le> card (supporters G' w b)"
  shows "election_inv N (settle c n j ns) G'"
proof -
  note I = election_invD [OF inv]
  have nodes: "nodes_ok N (settle c n j ns)"
    using I(2) n t bnd keys_set [of "peers j" "peers (nodes c n)"]
    unfolding nodes_ok_def tame_def by auto
  have votes: "votes_ok N (settle c n j ns) G'"
  proof -
    have old: "m \<in> N \<and> b \<in> N \<and> w \<le> version (nodes c m) \<and> w \<le> version (nodes c b)" if "(w, m, b) \<in> G" for w m b
      using votes_okD(1) [OF I(3) that] .
    have ok: "m \<in> N \<and> b \<in> N \<and> w \<le> version (nodes (settle c n j ns) m) \<and> w \<le> version (nodes (settle c n j ns) b)"
      if "(w, m, b) \<in> G'" for w m b
    proof (cases "(w, m, b) \<in> G")
      case True
      then show ?thesis
        using old mono by (auto intro: order_trans)
    next
      case False
      then show ?thesis
        using new [of w m b] bb n that by auto
    qed
    have "b = b'" if "(w, m, b) \<in> G'" "(w, m, b') \<in> G'" for w m b b'
      using votes_okD(2) [OF I(3), of w m b b'] new [of w m b] new [of w m b'] old [of w m b] old [of w m b'] that
      by (cases "(w, m, b) \<in> G"; cases "(w, m, b') \<in> G") auto
    then show ?thesis
      using ok unfolding votes_ok_def by blast
  qed
  have net: "net_ok N (settle c n j ns) G'"
    unfolding net_ok_def
  proof (intro allI impI)
    fix f u m assume "(f, u, m) \<in># net (settle c n j ns)"
    then consider "(f, u, m) \<in># net c" | "f = n" "(u, m) \<in> set (outbox j)"
      using mset_subset_eqD [OF ns] by auto
    then show "f \<in> N \<and> mtype m \<in> election_types \<and>
        (mtype m = AskForVote \<longrightarrow> mversion m \<le> version (nodes (settle c n j ns) f)) \<and>
        (mtype m = Vote \<and> chosen m \<longrightarrow> (\<exists>b. u = Some b \<and> (mversion m, f, b) \<in> G'))"
    proof cases
      case 1
      note N = net_okD [OF I(4) 1]
      show ?thesis
        using N mono G by (auto intro: order_trans)
    next
      case 2
      then have "mversion m = version j" "mtype m \<in> election_types"
        using t by (auto simp: tame_def)
      then show ?thesis
        using 2 n outs [of u "mversion m"] by (auto simp: grants_sent)
    qed
  qed
  have "count_ok N (settle c n j ns) G'"
    unfolding count_ok_def
  proof (intro ballI)
    fix b assume b: "b \<in> N"
    have sent: "pending (net (settle c n j ns)) b w = pending ns b w + count_list (grants (outbox j)) (Some b, w)" for w
      unfolding settle_sel by (rule pending_sent)
    show "(state (nodes (settle c n j ns) b) = Candidate \<longrightarrow> votes (nodes (settle c n j ns) b) +
          pending (net (settle c n j ns)) b (version (nodes (settle c n j ns) b))
          \<le> card (supporters G' (version (nodes (settle c n j ns) b)) b)) \<and>
        (state (nodes (settle c n j ns) b) = Leader \<longrightarrow>
          quorum (card N) \<le> card (supporters G' (version (nodes (settle c n j ns) b)) b))"
    proof (cases "b = n")
      case True
      then show ?thesis
        unfolding sent using cand lead by auto
    next
      case False
      let ?w = "version (nodes c b)"
      have "state (nodes c b) = Candidate \<Longrightarrow> votes (nodes c b) + pending (net c) b ?w \<le> card (supporters G ?w b)"
        "state (nodes c b) = Leader \<Longrightarrow> quorum (card N) \<le> card (supporters G ?w b)"
        using I(5) b by (simp_all add: count_ok_def)
      moreover have "pending ns b ?w \<le> pending (net c) b ?w"
        by (rule pending_less [OF ns])
      ultimately show ?thesis
        unfolding sent using False others [OF False, of ?w] by auto
    qed
  qed
  then show ?thesis
    using I(1) nodes votes net unfolding election_inv_def by blast
qed

text \<open>What \<open>n\<close> received, \<open>ns\<close> being left on the network: nothing, or a message of \<open>f\<close>.\<close>

definition received :: "('a, 'm) cluster \<Rightarrow> 'a \<Rightarrow> raft_message \<Rightarrow> 'a option \<Rightarrow> ('a \<times> 'a option \<times> raft_message) multiset \<Rightarrow> bool" where
  "received c n m a ns \<longleftrightarrow> a = None \<and> ns = net c \<or>
     (\<exists>f. a = Some f \<and> (f, Some n, m) \<in># net c \<and> ns = net c - {#(f, Some n, m)#})"

lemma received_sub: "received c n m a ns \<Longrightarrow> ns \<subseteq># net c"
  by (auto simp: received_def)

lemma received_from: "received c n m a ns \<Longrightarrow> a \<noteq> None \<Longrightarrow> \<exists>f. a = Some f \<and> (f, Some n, m) \<in># net c \<and> ns = net c - {#(f, Some n, m)#}"
  by (auto simp: received_def)

lemma card_peers:
  assumes "nodes_ok N c" "finite N" "n \<in> N"
  shows "length (map fst (peers (nodes c n))) + 1 = card N"
proof -
  have "length (map fst (peers (nodes c n))) = card (set (map fst (peers (nodes c n))))"
    using distinct_card [OF nodes_okD(2) [OF assms(1,3)]] by (rule sym)
  also have "\<dots> = card (Some ` (N - {n}))"
    using nodes_okD(3) [OF assms(1,3)] by simp
  also have "\<dots> = card N - 1"
    using assms(2,3) by (simp add: card_image)
  finally show ?thesis
    using assms(2,3) card_gt_0_iff [of N] by auto
qed

lemma supporters_insert:
  "finite N \<Longrightarrow> votes_ok N c G \<Longrightarrow> (w, m, b) \<notin> G \<Longrightarrow>
   card (supporters (insert (w, m, b) G) w b) = card (supporters G w b) + 1"
proof -
  assume a: "finite N" "votes_ok N c G" "(w, m, b) \<notin> G"
  have "supporters (insert (w, m, b) G) w b = insert m (supporters G w b)" "m \<notin> supporters G w b"
    using a(3) by (auto simp: supporters_def)
  moreover have "finite (supporters G w b)"
    by (rule finite_subset [OF _ a(1)]) (auto simp: supporters_def dest: votes_okD(1) [OF a(2)])
  ultimately show ?thesis
    by simp
qed

lemma supporters_other: "(w', b') \<noteq> (w, b) \<Longrightarrow> supporters (insert (w, m, b) G) w' b' = supporters G w' b'"
  by (auto simp: supporters_def)

text \<open>A granted vote that a candidate accepts is for its present version.\<close>

lemma vote_current:
  assumes "election_inv N c G" "n \<in> N" "received c n m a ns" "a \<noteq> None" "mtype m = Vote" "chosen m"
    "\<not> ver_lt (mversion m) (version (nodes c n))"
  shows "mversion m = version (nodes c n)" "pending (net c) n (mversion m) = pending ns n (mversion m) + 1"
proof -
  note I = election_invD [OF assms(1)]
  obtain f where f: "a = Some f" "(f, Some n, m) \<in># net c" "ns = net c - {#(f, Some n, m)#}"
    using received_from [OF assms(3,4)] by blast
  have "(mversion m, f, n) \<in> G"
    using net_okD(4) [OF I(4) f(2) assms(5,6)] by simp
  then have le: "mversion m \<le> version (nodes c n)"
    using votes_okD(1) [OF I(3)] by blast
  then show "mversion m = version (nodes c n)"
    using assms(7) nodes_okD(5) [OF I(2) assms(2)] ver_lt_small [of "mversion m" "version (nodes c n)"]
    by (meson le_less_trans not_less order_antisym word_le_nat_alt)
  show "pending (net c) n (mversion m) = pending ns n (mversion m) + 1"
    unfolding f(3) by (rule pending_take [OF f(2) assms(5,6)])
qed

lemma election_step:
  assumes inv: "election_inv N c G" and n: "n \<in> N" and v: "voted m a (nodes c n) j" and t: "tame M a (nodes c n) j"
    and r: "received c n m a ns" and bnd: "unat (version j) < 2 ^ 31"
  shows "\<exists>G'. G \<subseteq> G' \<and> election_inv N (settle c n j ns) G'"
proof -
  note I = election_invD [OF inv]
  note ns = received_sub [OF r]
  let ?i = "nodes c n"
  note small = nodes_okD(5) [OF I(2) n]
  have q: "quorum (length (map fst (peers ?i)) + 1) = quorum (card N)"
    using card_peers [OF I(2,1) n] by simp
  have cand: "votes ?i + pending (net c) n (version ?i) \<le> card (supporters G (version ?i) n)" if "state ?i = Candidate"
    using I(5) n that by (simp add: count_ok_def)
  note sub = pending_less [OF ns]
  note keep = settle_inv [OF inv n ns t bnd _ subset_refl, of n]
  obtain st w k where j: "election j = (st, w, k)"
    by (cases "election j")
  then have jv: "state j = st" "version j = w" "votes j = k"
    by (simp_all add: election_def)
  from v show ?thesis
    unfolding voted_def j election_def [of ?i]
  proof cases
    case voter_keep
    have "state j = Candidate \<Longrightarrow> votes j + pending ns n (version j) \<le> card (supporters G (version j) n)"
      using cand sub [of n w] voter_keep jv by simp
    moreover have "state j = Leader \<Longrightarrow> quorum (card N) \<le> card (supporters G (version j) n)"
      using I(5) n voter_keep jv by (simp add: count_ok_def)
    ultimately show ?thesis
      using keep voter_keep jv by (intro exI [of _ G]) auto
  next
    case (voter_follow)
    then have "version ?i \<le> version j"
      using ver_lt_small [of w "version ?i"] small bnd jv by (auto simp: not_less)
    then show ?thesis
      using keep voter_follow jv by (intro exI [of _ G]) auto
  next
    case voter_grant
    obtain f where f: "a = Some f" "(f, Some n, m) \<in># net c"
      using received_from [OF r voter_grant(6)] by blast
    have w: "version ?i < w"
      using ver_gt_small [of w "version ?i"] voter_grant small bnd jv by auto
    have fw: "f \<in> N" "w \<le> version (nodes c f)"
      using net_okD(1,3) [OF I(4) f(2)] voter_grant by auto
    have fresh: "(w, n, b) \<notin> G" for b
      using votes_okD(1) [OF I(3), of w n b] w by auto
    have oth: "count_list (grants (outbox j)) (Some b, u) + card (supporters G u b) \<le> card (supporters (insert (w, n, f) G) u b)" for b u
      using supporters_insert [OF I(1,3) fresh, of f] supporters_other [of u b w f n G] voter_grant f(1)
      by (cases "(u, b) = (w, f)") auto
    have "election_inv N (settle c n j ns) (insert (w, n, f) G)"
      by (rule settle_inv [OF inv n ns t bnd, where bb = f]) (use w fw voter_grant f(1) jv oth in auto)
    then show ?thesis
      by (intro exI [of _ "insert (w, n, f) G"]) auto
  next
    case voter_stand
    have w: "version ?i < w"
      using ver_inc_small [OF small] voter_stand by simp
    have fresh: "b = n \<or> b' = n \<Longrightarrow> (w, b, b') \<notin> G" for b b'
      using votes_okD(1) [OF I(3), of w b b'] w by auto
    have "pending ns n w \<le> pending (net c) n w"
      by (rule sub)
    moreover have "pending (net c) n w = 0"
    proof -
      have "\<not> (mtype r = Vote \<and> chosen r \<and> mversion r = w)" if "(f, Some n, r) \<in># net c" for f r
        using net_okD(4) [OF I(4) that] fresh [of f n] by auto
      then show ?thesis
        unfolding pending_def by auto
    qed
    moreover have "1 \<le> card (supporters (insert (w, n, n) G) w n)"
      using supporters_insert [OF I(1,3) fresh, of n n] by simp
    ultimately have cnd: "votes j + pending ns n (version j) \<le> card (supporters (insert (w, n, n) G) (version j) n)"
      using voter_stand jv by simp
    have oth: "card (supporters G u b) \<le> card (supporters (insert (w, n, n) G) u b)" if "b \<noteq> n" for b u
      using supporters_other [of u b w n n G] that by simp
    have "election_inv N (settle c n j ns) (insert (w, n, n) G)"
      by (rule settle_inv [OF inv n ns t bnd, where bb = n]) (use w n voter_stand jv cnd oth in auto)
    then show ?thesis
      by (intro exI [of _ "insert (w, n, n) G"]) auto
  next
    case voter_count
    have "mversion m = version ?i" "pending (net c) n (mversion m) = pending ns n (mversion m) + 1"
      using vote_current [OF inv n r] voter_count by auto
    then have "votes j + pending ns n (version j) \<le> card (supporters G (version j) n)"
      using cand voter_count jv by simp
    then show ?thesis
      using keep voter_count jv by (intro exI [of _ G]) auto
  next
    case voter_win
    have "mversion m = version ?i" "pending (net c) n (mversion m) = pending ns n (mversion m) + 1"
      using vote_current [OF inv n r] voter_win by auto
    then have "quorum (card N) \<le> card (supporters G (version j) n)"
      using cand voter_win jv q by simp
    then show ?thesis
      using keep voter_win jv by (intro exI [of _ G]) auto
  qed
qed

section \<open>Every reachable state satisfies the invariant\<close>

lemma start_inv: "cluster_start N c \<Longrightarrow> election_inv N c {}"
  by (auto simp: cluster_start_def election_inv_def nodes_ok_def votes_ok_def net_ok_def count_ok_def)

lemma lose_inv: "election_inv N c G \<Longrightarrow> election_inv N (c\<lparr>net := net c - {#x#}\<rparr>) G"
proof -
  assume "election_inv N c G"
  note I = election_invD [OF this]
  have "net_ok N (c\<lparr>net := net c - {#x#}\<rparr>) G"
    using I(4) unfolding net_ok_def by (auto dest: in_diffD)
  moreover have "pending (net c - {#x#}) b w \<le> pending (net c) b w" for b w
    by (rule pending_less) simp
  then have "count_ok N (c\<lparr>net := net c - {#x#}\<rparr>) G"
    using I(5) unfolding count_ok_def by (auto intro: order_trans [OF add_left_mono])
  ultimately show ?thesis
    using I by (simp add: election_inv_def nodes_ok_def votes_ok_def)
qed

lemma synchronize_step:
  assumes "synchronize_logs_to_followers M now i = Run j" "outbox i = []" "state i \<noteq> Follower \<Longrightarrow> leader i = None"
  shows "voted m None i j \<and> tame M None i j"
proof (cases "state i = Leader")
  case True
  let ?k = "notify_peers M now (map fst (peers i)) (i\<lparr>machine := update_log M (machine i)\<rparr>)"
  have s: "sends (i\<lparr>machine := update_log M (machine i)\<rparr>) ?k {LeaderCheck} (fst ` set (peers i))"
    by (rule sends_notify) simp_all
  have j: "j = ?k\<lparr>last_flush_time := now\<rparr>"
    using assms(1) True by (auto simp: synchronize_logs_to_followers_def split: if_splits)
  have "voted m None i ?k"
    by (rule voted_from [OF voted_keep [OF _ s]]) (simp_all add: assms(2))
  moreover have "tame M None i ?k"
    by (rule tame_sends [OF _ s]) (use assms True in \<open>auto simp: election_types_def\<close>)
  ultimately show ?thesis
    by (simp add: j voted_def tame_def)
next
  case False
  then have "j = i"
    using assms(1) by (simp add: synchronize_logs_to_followers_def split: if_splits)
  then show ?thesis
    using voted_same [of i i] tame_refl [OF assms(2,3)] assms(2) by simp
qed

text \<open>Every step is a turn of one node on what it received, or the loss of a message.\<close>

lemma cluster_turn:
  assumes "cluster_step M N c d" "nodes_ok N c" "net_ok N c G"
  obtains (turn) n m a j ns where "n \<in> N" "voted m a (nodes c n) j" "tame M a (nodes c n) j" "received c n m a ns"
      "d = settle c n j ns" "a \<noteq> None \<Longrightarrow> mtype m \<in> election_types"
  | (lose) x where "d = c\<lparr>net := net c - {#x#}\<rparr>"
  using assms(1)
proof cases
  case (step_receive n f m now i)
  note ok = nodes_okD [OF assms(2) step_receive(2)]
  have el: "mtype m \<in> election_types"
    by (rule net_okD(2) [OF assms(3) step_receive(3)])
  show ?thesis
    by (rule turn [OF step_receive(2) thread_voted [OF step_receive(4) ok(1)]
          thread_tame [OF step_receive(4) ok(1,4) el] _ step_receive(1)])
      (use step_receive(3) el in \<open>auto simp: received_def\<close>)
next
  case (step_timeout n m now i)
  note ok = nodes_okD [OF assms(2) step_timeout(2)]
  show ?thesis
    by (rule turn [OF step_timeout(2) thread_voted [OF step_timeout(3) ok(1)]
          thread_tame [OF step_timeout(3) ok(1,4)] _ step_timeout(1)]) (auto simp: received_def)
next
  case (step_synchronize n now i)
  note ok = nodes_okD [OF assms(2) step_synchronize(2)]
  have s: "voted message_new None (nodes c n) i" "tame M None (nodes c n) i"
    using synchronize_step [OF step_synchronize(3) ok(1,4)] by auto
  show ?thesis
    by (rule turn [OF step_synchronize(2) s _ step_synchronize(1)]) (auto simp: received_def)
next
  case (step_lose x)
  show ?thesis
    by (rule lose [OF step_lose(1)])
qed

lemma reach_inv: "cluster_reach M N c0 c \<Longrightarrow> cluster_start N c0 \<Longrightarrow> \<exists>G. election_inv N c G"
proof (induction rule: cluster_reach.induct)
  case reach_start
  then show ?case
    using start_inv by blast
next
  case (reach_next c d)
  then obtain G where G: "election_inv N c G"
    by blast
  from reach_next.hyps(2) election_invD(2,4) [OF G] show ?case
  proof (cases rule: cluster_turn)
    case (turn n m a j ns)
    then have "unat (version j) < 2 ^ 31"
      using reach_next.hyps(3) by auto
    then show ?thesis
      using election_step [OF G turn(1-4)] turn(5) by auto
  next
    case (lose x)
    then show ?thesis
      using lose_inv [OF G, of x] by blast
  qed
qed

lemma majorities_meet:
  assumes "finite N" "A \<subseteq> N" "B \<subseteq> N" "quorum (card N) \<le> card A" "quorum (card N) \<le> card B"
  shows "A \<inter> B \<noteq> {}"
proof
  assume "A \<inter> B = {}"
  then have "card A + card B = card (A \<union> B)"
    using assms(1-3) by (simp add: card_Un_disjoint finite_subset)
  also have "\<dots> \<le> card N"
    using assms(1-3) by (simp add: card_mono)
  finally show False
    using assms(4,5) by (simp add: quorum_def)
qed

lemma quorum_unique:
  assumes "election_inv N c G" "quorum (card N) \<le> card (supporters G w a)" "quorum (card N) \<le> card (supporters G w b)"
  shows "a = b"
proof -
  note I = election_invD [OF assms(1)]
  have "supporters G w x \<subseteq> N" for x
    using votes_okD(1) [OF I(3)] by (auto simp: supporters_def)
  then obtain m where "(w, m, a) \<in> G" "(w, m, b) \<in> G"
    using majorities_meet [OF I(1) _ _ assms(2,3)] by (auto simp: supporters_def)
  then show ?thesis
    by (rule votes_okD(2) [OF I(3)])
qed

lemma leader_quorum:
  "election_inv N c G \<Longrightarrow> n \<in> N \<Longrightarrow> state (nodes c n) = Leader \<Longrightarrow> quorum (card N) \<le> card (supporters G (version (nodes c n)) n)"
  using election_invD(5) [of N c G] by (simp add: count_ok_def)

text \<open>
  Property C1. Election safety: in a cluster whose members know each other, whatever datagrams are lost,
  delayed or reordered and whenever timeouts fire, no two nodes are leaders of the same version.
\<close>

theorem one_leader_per_version:
  assumes "cluster_start N c0" "cluster_reach M N c0 c" "a \<in> N" "b \<in> N"
    and "state (nodes c a) = Leader" "state (nodes c b) = Leader" "version (nodes c a) = version (nodes c b)"
  shows "a = b"
proof -
  obtain G where G: "election_inv N c G"
    using reach_inv [OF assms(2,1)] by blast
  have "quorum (card N) \<le> card (supporters G (version (nodes c a)) a)" "quorum (card N) \<le> card (supporters G (version (nodes c a)) b)"
    using leader_quorum [OF G assms(3,5)] leader_quorum [OF G assms(4,6)] assms(7) by simp_all
  then show ?thesis
    by (rule quorum_unique [OF G])
qed

section \<open>No node stops\<close>

text \<open>
  \<open>calm\<close>: nobody writes to itself or follows itself, every follower's leader is a member, and a
  leader check on the network comes from a node that was elected.
\<close>

definition calm :: "'a set \<Rightarrow> ('a, 'm) cluster \<Rightarrow> (32 word \<times> 'a \<times> 'a) set \<Rightarrow> bool" where
  "calm N c G \<longleftrightarrow>
     (\<forall>n \<in> N. leader (nodes c n) \<noteq> None \<longrightarrow> leader (nodes c n) \<in> Some ` (N - {n})) \<and>
     (\<forall>f t m. (f, t, m) \<in># net c \<longrightarrow> t \<noteq> Some f \<and>
        (mtype m = LeaderCheck \<longrightarrow> quorum (card N) \<le> card (supporters G (mversion m) f)))"

lemma calmD:
  assumes "calm N c G"
  shows "n \<in> N \<Longrightarrow> leader (nodes c n) \<noteq> None \<Longrightarrow> leader (nodes c n) \<in> Some ` (N - {n})"
    "(f, t, m) \<in># net c \<Longrightarrow> t \<noteq> Some f"
    "(f, t, m) \<in># net c \<Longrightarrow> mtype m = LeaderCheck \<Longrightarrow> quorum (card N) \<le> card (supporters G (mversion m) f)"
  using assms unfolding calm_def by blast+

lemma calm_step:
  assumes "trusting M" "calm N c G" "election_inv N c G" "n \<in> N" "tame M a (nodes c n) j" "received c n m a ns"
    and "election_inv N (settle c n j ns) G'" "G \<subseteq> G'"
  shows "calm N (settle c n j ns) G'"
proof -
  note I = election_invD [OF assms(3)] and I' = election_invD [OF assms(7)]
  have a: "a \<in> Some ` (N - {n})" if "a \<noteq> None"
    using received_from [OF assms(6) that] net_okD(1) [OF I(4)] calmD(2) [OF assms(2)] by blast
  have l: "leader (nodes c n) \<in> Some ` (N - {n})" if "leader (nodes c n) \<noteq> None"
    by (rule calmD(1) [OF assms(2,4) that])
  have "leader j \<in> {leader (nodes c n), None, a}"
    using assms(5) by (simp add: tame_def)
  then have lead: "leader j \<noteq> None \<Longrightarrow> leader j \<in> Some ` (N - {n})"
    using a l by auto
  have old: "quorum (card N) \<le> card (supporters G' w f)" if "quorum (card N) \<le> card (supporters G w f)" for w f
    using that supporters_mono [OF I'(3) I(1) assms(8), of w f] by simp
  have "t \<noteq> Some f \<and> (mtype r = LeaderCheck \<longrightarrow> quorum (card N) \<le> card (supporters G' (mversion r) f))"
    if "(f, t, r) \<in># net (settle c n j ns)" for f t r
  proof -
    from that consider "(f, t, r) \<in># net c" | "f = n" "(t, r) \<in> set (outbox j)"
      using mset_subset_eqD [OF received_sub [OF assms(6)]] by auto
    then show ?thesis
    proof cases
      case 1
      then show ?thesis
        using calmD(2,3) [OF assms(2)] old by blast
    next
      case 2
      have r: "mversion r = version j" "mtype r = LeaderCheck \<longrightarrow> state j = Leader"
        using assms(1,5) 2(2) by (auto simp: tame_def)
      have "t \<in> {a, leader (nodes c n)} \<union> fst ` set (peers (nodes c n))"
        using assms(5) 2(2) by (auto simp: tame_def)
      moreover have "a \<noteq> Some n" "leader (nodes c n) \<noteq> Some n"
        using a l by (cases a; cases "leader (nodes c n)"; auto)+
      ultimately have "t \<noteq> Some n"
        using nodes_okD(3) [OF I(2) assms(4)] by auto
      then show ?thesis
        using 2 leader_quorum [OF assms(7,4)] r by simp
    qed
  qed
  then show ?thesis
    using lead calmD(1) [OF assms(2)] unfolding calm_def by simp
qed

lemma reach_calm:
  "cluster_reach M N c0 c \<Longrightarrow> cluster_start N c0 \<Longrightarrow> trusting M \<Longrightarrow> \<exists>G. election_inv N c G \<and> calm N c G"
proof (induction rule: cluster_reach.induct)
  case reach_start
  then have "calm N c0 {}"
    by (simp add: cluster_start_def calm_def)
  then show ?case
    using start_inv [OF reach_start(1)] by blast
next
  case (reach_next c d)
  then obtain G where G: "election_inv N c G" "calm N c G"
    by blast
  from reach_next.hyps(2) election_invD(2,4) [OF G(1)] show ?case
  proof (cases rule: cluster_turn)
    case (turn n m a j ns)
    then have "unat (version j) < 2 ^ 31"
      using reach_next.hyps(3) by auto
    then obtain G' where G': "G \<subseteq> G'" "election_inv N (settle c n j ns) G'"
      using election_step [OF G(1) turn(1-4)] by blast
    have "calm N (settle c n j ns) G'"
      by (rule calm_step [OF reach_next.prems(2) G(2,1) turn(1,3,4) G'(2,1)])
    then show ?thesis
      using G'(2) turn(5) by blast
  next
    case (lose x)
    have "nodes d = nodes c" "\<And>y. y \<in># net d \<Longrightarrow> y \<in># net c"
      unfolding lose by (auto dest: in_diffD)
    then have "calm N d G"
      using G(2) unfolding calm_def by metis
    then show ?thesis
      using lose_inv [OF G(1), of x] lose by blast
  qed
qed

subsection \<open>Handlers that run to the end\<close>

lemma ver_gt_strict: "ver_gt l r \<Longrightarrow> \<not> ver_lt l r \<and> l \<noteq> r" for l r :: "'b::len word"
  unfolding ver_gt_lt using ver_lt_iff_not_gt [of l r] by (cases "l = r") (simp_all add: ver_lt_def)

lemma vote_to_runs: "\<exists>j. vote_to M now m a i = Run j"
proof (cases "ver_gt (mversion m) (version i)")
  case True
  then have "\<not> split_brain (i\<lparr>machine := s\<rparr>) m" for s
    using ver_gt_strict [of "mversion m" "version i"] by (simp add: split_brain_def)
  then show ?thesis
    using True by (auto simp: vote_to_def change_leader_to_def Let_def split: prod.split)
qed (simp add: vote_to_def)

lemma respond_runs: "state i = Follower \<Longrightarrow> \<exists>j. respond_leader_check M now m i = Run j"
  by (auto simp: respond_leader_check_def Let_def split: prod.splits)

lemma follow_runs:
  "\<not> split_brain i m \<Longrightarrow> \<exists>j. and_then (change_leader_to now m a i) (respond_leader_check M now m) = Run j"
  by (simp add: change_leader_to_def respond_runs)

lemma from_follower_runs:
  assumes "trusting M" "state i = Leader" "has_peer i a" "mtype m = LeaderCheck \<Longrightarrow> mversion m \<noteq> version i"
  shows "\<exists>j. handle_messages_from_follower M now m a i = Run j"
proof -
  have p: "accept_peer now m a i = Run (touch_peer now a i)"
    using assms(3) by (simp add: accept_peer_def)
  note t = touch_peer_sel [OF assms(3), of now]
  show ?thesis
  proof (cases "mtype m")
    case LeaderCheck
    obtain can s where c: "can_be_leader M a m (machine i) = (can, s)"
      by (cases "can_be_leader M a m (machine i)")
    then have can
      using assms(1) unfolding trusting_def by (metis fst_conv)
    then show ?thesis
      using LeaderCheck assms p t c follow_runs [of "touch_peer now a i" m now a M]
      by (auto simp: handle_messages_from_follower_def split_brain_def)
  next
    case AskForVote
    then show ?thesis
      using assms(2) p vote_to_runs by (simp add: handle_messages_from_follower_def)
  qed (use assms(2) p in \<open>simp_all add: handle_messages_from_follower_def\<close>)
qed

lemma from_leader_runs:
  assumes "state i = Follower" "has_peer i (leader i)"
  shows "\<exists>j. handle_messages_from_leader M now m i = Run j"
proof (cases "check_outdated i m")
  case False
  let ?k = "(touch_peer now (leader i) i)\<lparr>last_flush_time := now\<rparr>"
  have "state ?k = Follower"
    using touch_peer_sel(5) [OF assms(2)] assms(1) by simp
  then show ?thesis
    using False assms vote_to_runs respond_runs [of ?k M now m]
    by (cases "mtype m") (simp_all add: handle_messages_from_leader_def Let_def)
qed (simp add: handle_messages_from_leader_def assms(1))

lemma from_peer_runs:
  assumes "state i \<noteq> Leader" "has_peer i a" "leader i \<noteq> a"
  shows "\<exists>j. handle_messages_from_peer M now m a i = Run j"
proof (cases "check_outdated i m")
  case False
  note t = touch_peer_sel [OF assms(2), of now]
  have "accept_peer now m a i = Run (touch_peer now a i)"
    using assms(2) by (simp add: accept_peer_def)
  moreover have "mtype m = LeaderCheck \<Longrightarrow> \<not> split_brain (touch_peer now a i) m"
    using False assms(1) t by (simp add: check_outdated_def split_brain_def)
  ultimately show ?thesis
    using False assms vote_to_runs follow_runs
    by (cases "mtype m") (simp_all add: handle_messages_from_peer_def)
qed (simp add: handle_messages_from_peer_def assms(3))

text \<open>
  Property C19. With state machines that accept every candidate no node ever fails an assertion or stops
  for a split brain: whatever message on the network reaches its addressee, its turn runs to the end.
\<close>

theorem no_node_stops:
  assumes "cluster_start N c0" "cluster_reach M N c0 c" "trusting M" "n \<in> N"
    and "a = None \<or> (\<exists>f. a = Some f \<and> (f, Some n, m) \<in># net c)"
  shows "\<exists>j. thread_loop M now (m, a) (nodes c n) = Run j"
proof -
  obtain G where G: "election_inv N c G" "calm N c G"
    using reach_calm [OF assms(2,1,3)] by blast
  note I = election_invD [OF G(1)]
  let ?i = "nodes c n"
  have peer: "has_peer ?i b" if "b \<in> Some ` (N - {n})" for b
    using nodes_okD(3) [OF I(2) assms(4)] that by (simp add: has_peer_def map_of_eq_None_iff)
  show ?thesis
  proof (cases a)
    case None
    then show ?thesis
      by (cases "state ?i") (simp_all add: thread_loop_def leader_thread_loop_def candidate_thread_loop_def follower_thread_loop_def)
  next
    case (Some f)
    then have m: "(f, Some n, m) \<in># net c"
      using assms(5) by simp
    have f: "f \<in> N" "f \<noteq> n"
      using net_okD(1) [OF I(4) m] calmD(2) [OF G(2) m] by auto
    then have hp: "has_peer ?i a"
      using peer Some by simp
    show ?thesis
    proof (cases "state ?i")
      case Leader
      have "mversion m \<noteq> version ?i" if "mtype m = LeaderCheck"
        using quorum_unique [OF G(1) calmD(3) [OF G(2) m that]] leader_quorum [OF G(1) assms(4) Leader] f by auto
      then obtain k where "handle_messages_from_follower M now m a ?i = Run k"
        using from_follower_runs [OF assms(3) Leader hp] by blast
      then show ?thesis
        using Leader Some by (simp add: thread_loop_def leader_thread_loop_def)
    next
      case Candidate
      then have "leader ?i = None"
        using nodes_okD(4) [OF I(2) assms(4)] by simp
      then show ?thesis
        using Candidate Some from_peer_runs [OF _ hp, of M now m] by (simp add: thread_loop_def candidate_thread_loop_def)
    next
      case Follower
      have "has_peer ?i (leader ?i)" if "a = leader ?i"
        using hp that by simp
      then show ?thesis
        using Follower Some from_peer_runs [OF _ hp, of M now m] from_leader_runs [OF Follower, of M now m]
        by (cases "a = leader ?i") (auto simp: thread_loop_def follower_thread_loop_def)
    qed
  qed
qed

section \<open>Where elections go wrong\<close>


text \<open>The same datagram delivered again and again.\<close>

fun deliveries :: "('a, 'm) state_machine \<Rightarrow> int \<Rightarrow> raft_message \<times> 'a option \<Rightarrow> nat \<Rightarrow> ('a, 'm) raft_instance \<Rightarrow> ('a, 'm) raft_instance raft_outcome" where
  "deliveries M now ev 0 i = Run i"
| "deliveries M now ev (Suc k) i = and_then (thread_loop M now ev i) (deliveries M now ev k)"

text \<open>
  Property C30. Votes are counted without looking at the voter: one granted vote, delivered as often as
  a quorum needs, makes a candidate the leader of a cluster of any size.
\<close>

theorem duplicate_vote_elects:
  assumes "state i = Candidate" "leader i = None" "has_peer i (Some f)" "mtype m = Vote" "chosen m" "mversion m = version i"
    and "0 < votes i" "votes i < quorum (length (peers i) + 1)"
  shows "\<exists>j. deliveries M now (m, Some f) (quorum (length (peers i) + 1) - votes i) i = Run j \<and> state j = Leader \<and> version j = version i"
  using assms
proof (induction "quorum (length (peers i) + 1) - votes i - 1" arbitrary: i)
  case (0 i)
  let ?k = "touch_peer now (Some f) i"
  note t = touch_peer_sel [OF "0.prems"(3), of now]
  have len: "length (peers ?k) = length (peers i)"
    using arg_cong [OF t(1), of length] by simp
  have "votes ?k = votes i" "quorum (length (peers i) + 1) = votes i + 1"
    using t(2) 0 by (simp_all add: election_def)
  moreover have "state (notify_peers M now as x) = state x \<and> version (notify_peers M now as x) = version x" for as x
    using sends_sel(2,4) [OF sends_notify [of "{LeaderCheck}" as UNIV x M now]] by simp
  ultimately show ?case
    using 0 t len
    by (simp add: thread_loop_def candidate_thread_loop_def handle_messages_from_peer_def check_outdated_def ver_lt_def
        accept_peer_def accept_vote_def Let_def become_leader_def quorum_def)
next
  case (Suc k i)
  let ?k = "touch_peer now (Some f) i"
  let ?j = "?k\<lparr>votes := votes i + 1\<rparr>"
  note t = touch_peer_sel [OF Suc.prems(3), of now]
  have len: "length (peers ?k) = length (peers i)"
    using arg_cong [OF t(1), of length] by simp
  have v: "votes ?k = votes i"
    using t(2) by (simp add: election_def)
  have more: "votes i + 1 < quorum (length (peers i) + 1)"
    using Suc.hyps(2) Suc.prems(8) by arith
  have step: "thread_loop M now (m, Some f) i = Run ?j"
    using Suc.prems t v len more
    by (simp add: thread_loop_def candidate_thread_loop_def handle_messages_from_peer_def check_outdated_def ver_lt_def
        accept_peer_def accept_vote_def Let_def quorum_def)
  have hp: "has_peer ?j (Some f)"
    using Suc.prems(3) by (simp add: has_peer_def touch_peer_def update_conv')
  have "\<exists>j. deliveries M now (m, Some f) (quorum (length (peers ?j) + 1) - votes ?j) ?j = Run j \<and> state j = Leader \<and> version j = version ?j"
    by (rule Suc.hyps(1)) (use Suc.hyps(2) Suc.prems t len more hp in simp_all)
  moreover have "quorum (length (peers i) + 1) - votes i = Suc (quorum (length (peers ?j) + 1) - votes ?j)"
    using more len by simp
  ultimately show ?case
    using step t(7) by simp
qed

section \<open>Concrete runs\<close>

text \<open>A state machine without logs, accepting or refusing every candidate, and a cluster of three.\<close>

definition plain_machine :: "bool \<Rightarrow> (nat, unit) state_machine" where
  "plain_machine accept = \<lparr>can_be_leader = (\<lambda>a m s. (accept, s)), leader_notify_message = (\<lambda>a s. ([], s)),
     need_synchronize_from = (\<lambda>a m s. (False, s)), ready_to_receiving = (\<lambda>a m s. ([], s)),
     ready_to_send_to = (\<lambda>a m s. s), update_log = (\<lambda>s. s)\<rparr>"

definition member :: "nat \<Rightarrow> nat list \<Rightarrow> (nat, unit) raft_instance" where
  "member n ps = (instance_new () [] 0)\<lparr>peers := map (\<lambda>k. (Some k, 0)) ps, running := True\<rparr>"

definition three :: "(nat, unit) cluster" where
  "three = \<lparr>nodes = (\<lambda>n. member n (filter (\<lambda>k. k \<noteq> n) [0, 1, 2])), net = {#}\<rparr>"

lemma three_start: "cluster_start {0, 1, 2} three"
  by (auto simp: cluster_start_def three_def member_def instance_new_def)

text \<open>Node 0 stands for version 1, node 1 votes for it, and it wins.\<close>

definition ask0 :: "64 word \<Rightarrow> raft_message" where
  "ask0 s = message_init AskForVote 1 s 9 message_new"

definition vote1 :: raft_message where
  "vote1 = message_vote 1 0 True 9 message_new"

lemmas run_defs = thread_loop_def follower_thread_loop_def candidate_thread_loop_def leader_thread_loop_def
  handle_follower_timeout_def vote_to_be_leader_def become_candidate_def request_vote_def send_plain_def sendto_def
  next_serial_def ver_inc_def handle_messages_from_peer_def check_outdated_def accept_peer_def touch_peer_def has_peer_def
  vote_to_def change_leader_to_def split_brain_def send_vote_def accept_vote_def become_leader_def ver_lt_def ver_gt_def
  plain_machine_def Let_def notify_follower_def send_extra_def add_extra_message_def instance_new_def
  handle_messages_from_follower_def handle_leader_timeout_def LEADER_SENT_TIMEOUT_def

definition stood0 :: "(nat, unit) raft_instance" where
  "stood0 = \<lparr>peers = [(Some 1, 0), (Some 2, 0)], state = Candidate, leader = None, last_flush_time = 9, version = 1,
     serial_number = 2, machine = (), inst_name = [], votes = 1, running = True,
     outbox = [(Some 1, ask0 0), (Some 2, ask0 1)]\<rparr>"

definition granted1 :: "(nat, unit) raft_instance" where
  "granted1 = \<lparr>peers = [(Some 0, 9), (Some 2, 0)], state = Follower, leader = Some 0, last_flush_time = 9, version = 1,
     serial_number = 1, machine = (), inst_name = [], votes = 0, running = True, outbox = [(Some 0, vote1)]\<rparr>"

lemma stand0: "thread_loop (plain_machine b) 9 (message_new, None) (nodes three 0) = Run stood0"
  by (simp add: run_defs three_def member_def stood0_def ask0_def)

lemma grant1: "thread_loop (plain_machine True) 9 (ask0 0, Some 0) (nodes three 1) = Run granted1"
  by (simp add: run_defs three_def member_def granted1_def vote1_def ask0_def)

definition won0 :: "(nat, unit) raft_instance" where
  "won0 = notify_peers (plain_machine True) 9 [Some 1, Some 2]
     (stood0\<lparr>peers := [(Some 1, 9), (Some 2, 0)], state := Leader, votes := 0, outbox := []\<rparr>)"

lemma win0: "thread_loop (plain_machine True) 9 (vote1, Some 1) (stood0\<lparr>outbox := []\<rparr>) = Run won0"
  by (simp add: run_defs won0_def stood0_def vote1_def)

definition standing :: "(nat, unit) cluster" where
  "standing = settle three 0 stood0 {#}"

definition granting :: "(nat, unit) cluster" where
  "granting = settle standing 1 granted1 {#(0, Some 2, ask0 1)#}"

definition elected :: "(nat, unit) cluster" where
  "elected = settle granting 0 won0 {#(0, Some 2, ask0 1)#}"

lemma won0_sel: "state won0 = Leader" "version won0 = 1"
proof -
  have "sends (stood0\<lparr>peers := [(Some 1, 9), (Some 2, 0)], state := Leader, votes := 0, outbox := []\<rparr>) won0 {LeaderCheck} UNIV"
    unfolding won0_def by (rule sends_notify) simp_all
  then show "state won0 = Leader" "version won0 = 1"
    by (simp_all add: sends_def stood0_def)
qed

lemma standing_reach: "cluster_reach (plain_machine b) {0, 1, 2} three standing"
proof (rule reach_next [OF reach_start])
  show "cluster_step (plain_machine b) {0, 1, 2} three standing"
    using step_timeout [of 0 "{0, 1, 2}", OF _ stand0] by (simp add: standing_def three_def)
  show "\<forall>n \<in> {0, 1, 2}. unat (version (nodes standing n)) < 2 ^ 31"
    by (simp add: standing_def three_def stood0_def member_def instance_new_def)
qed

lemma standing_net: "net standing = {#(0, Some 1, ask0 0), (0, Some 2, ask0 1)#}"
  by (simp add: standing_def stood0_def)

lemma granting_reach: "cluster_reach (plain_machine True) {0, 1, 2} three granting"
proof (rule reach_next [OF standing_reach])
  have "nodes standing 1 = nodes three 1"
    by (simp add: standing_def)
  then show "cluster_step (plain_machine True) {0, 1, 2} standing granting"
    using step_receive [of 1 "{0, 1, 2}" 0 "ask0 0" standing "plain_machine True" 9 granted1] grant1 standing_net
    by (simp add: granting_def)
  show "\<forall>n \<in> {0, 1, 2}. unat (version (nodes granting n)) < 2 ^ 31"
    by (simp add: granting_def standing_def three_def stood0_def granted1_def member_def instance_new_def)
qed

lemma elected_reach: "cluster_reach (plain_machine True) {0, 1, 2} three elected"
proof (rule reach_next [OF granting_reach])
  have n: "nodes granting 0 = stood0\<lparr>outbox := []\<rparr>"
    by (simp add: granting_def standing_def)
  have "net granting = {#(0, Some 2, ask0 1), (1, Some 0, vote1)#}"
    by (simp add: granting_def granted1_def)
  then show "cluster_step (plain_machine True) {0, 1, 2} granting elected"
    using step_receive [of 0 "{0, 1, 2}" 1 vote1 granting "plain_machine True" 9 won0] win0 n
    by (simp add: elected_def)
  show "\<forall>n \<in> {0, 1, 2}. unat (version (nodes elected n)) < 2 ^ 31"
    by (simp add: elected_def granting_def standing_def three_def won0_sel granted1_def member_def instance_new_def)
qed

lemma one_leader_per_version_witness:
  "{n \<in> {0, 1, 2}. state (nodes elected n) = Leader \<and> version (nodes elected n) = 1} = {0}"
proof -
  have l: "state (nodes elected 0) = Leader" "version (nodes elected 0) = 1"
    by (simp_all add: elected_def won0_sel)
  show ?thesis
    using one_leader_per_version [OF three_start elected_reach, of _ 0] l by auto
qed

lemma trusting_plain: "trusting (plain_machine True)"
  by (simp add: trusting_def plain_machine_def)

lemma no_node_stops_witness: "\<exists>j. thread_loop (plain_machine True) 9 (ask0 1, Some 0) (nodes standing 2) = Run j"
  by (rule no_node_stops [OF three_start standing_reach trusting_plain]) (simp_all add: standing_net)

lemma thread_refines_voter_witness:
  "voter message_new None [Some (1 :: nat), Some 2] (Follower, 0, 0) [(Some 1, 1), (Some 2, 1)] [] (Candidate, 1, 1)"
  using thread_refines_voter [OF stand0]
  by (simp add: three_def member_def instance_new_def election_def stood0_def ask0_def asks_def grants_def)

definition old_leader :: "(nat, unit) raft_instance" where
  "old_leader = (member 0 [1, 2])\<lparr>state := Leader, version := 1\<rparr>"


definition lone_candidate :: "(nat, unit) raft_instance" where
  "lone_candidate = (member 0 [1, 2, 3, 4])\<lparr>state := Candidate, version := 1, votes := 1\<rparr>"

lemma duplicate_vote_elects_witness:
  "\<exists>j. deliveries (plain_machine True) 9 (vote1, Some 1) 2 lone_candidate = Run j \<and> state j = Leader \<and> version j = 1"
proof -
  have n: "quorum (length (peers lone_candidate) + 1) - votes lone_candidate = 2" "version lone_candidate = 1"
    by (simp_all add: lone_candidate_def member_def instance_new_def quorum_def)
  have "\<exists>j. deliveries (plain_machine True) 9 (vote1, Some 1) (quorum (length (peers lone_candidate) + 1) - votes lone_candidate)
      lone_candidate = Run j \<and> state j = Leader \<and> version j = version lone_candidate"
    by (rule duplicate_vote_elects) (simp_all add: lone_candidate_def member_def instance_new_def has_peer_def quorum_def vote1_def)
  then show ?thesis
    unfolding n .
qed

end
