(* ===== verification/TimeLib.thy ===== *)
theory TimeLib
  imports Prelude
begin

text \<open>
  src/Base/Time: calendar dates (\<open>Date\<close>), time intervals and time stamps with their conversions to
  \<open>timeval\<close> and \<open>timespec\<close> (\<open>TimeInterval\<close>, \<open>TimeStamp\<close>), the sleeping time of \<open>Timer\<close> and the queue
  of \<open>TimerLoop\<close>. Times are integers, with the truncating division of C++; the lemmas stay far from
  the limits of int32 and int64. Reading the clock, sleeping and formatting are not modelled.
\<close>

section \<open>Dates\<close>

record Date_data =
  year :: int
  month :: int
  day :: int

definition get_julianDayNumber :: "int \<Rightarrow> int \<Rightarrow> int \<Rightarrow> int" where
  "get_julianDayNumber y m d =
     (let a = cdiv (14 - m) 12;
          y = y + 4800 - a;
          m = m + 12 * a - 3
      in d + cdiv (153 * m + 2) 5 + y * 365 + cdiv y 4 - cdiv y 100 + cdiv y 400 - 32045)"

definition get_Date_data :: "int \<Rightarrow> Date_data" where
  "get_Date_data julianDayNumber =
     (let a = julianDayNumber + 32044;
          b = cdiv (4 * a + 3) 146097;
          c = a - cdiv (b * 146097) 4;
          d = cdiv (4 * c + 3) 1461;
          e = c - cdiv (1461 * d) 4;
          m = cdiv (5 * e + 2) 153;
          dy = e - cdiv (153 * m + 2) 5 + 1;
          mon = m + 3 - 12 * cdiv m 10;
          yr = b * 100 + d - 4800 + cdiv m 10
      in \<lparr>year = yr, month = mon, day = dy\<rparr>)"

definition JulianDayOf1970_01_01 :: int where
  "JulianDayOf1970_01_01 = get_julianDayNumber 1970 1 1"

text \<open>A \<open>Date\<close> is its Julian day number.\<close>

definition date_of_data :: "Date_data \<Rightarrow> int" where
  "date_of_data t = get_julianDayNumber (year t) (month t) (day t)"

text \<open>From a \<open>tm\<close>, whose years count from 1900 and whose months from 0.\<close>

definition date_of_tm :: "int \<Rightarrow> int \<Rightarrow> int \<Rightarrow> int" where
  "date_of_tm tm_year tm_mon tm_mday = get_julianDayNumber (tm_year + 1900) (tm_mon + 1) tm_mday"

definition get_date :: "int \<Rightarrow> Date_data" where
  "get_date d = get_Date_data d"

text \<open>The six comparisons, as the macro \<open>Date_operator\<close> defines them.\<close>

datatype comparison = Lt | Le | Gt | Ge | Eq | Ne

fun date_operator :: "comparison \<Rightarrow> int \<Rightarrow> int \<Rightarrow> bool" where
  "date_operator s l r = (l < r)"

definition date_diff :: "int \<Rightarrow> int \<Rightarrow> int" where
  "date_diff l r = l - r"

definition date_add :: "int \<Rightarrow> int \<Rightarrow> int" where
  "date_add d days = d + days"

definition date_sub :: "int \<Rightarrow> int \<Rightarrow> int" where
  "date_sub d days = d - days"

fun compare_int :: "comparison \<Rightarrow> int \<Rightarrow> int \<Rightarrow> bool" where
  "compare_int Lt l r = (l < r)"
| "compare_int Le l r = (l \<le> r)"
| "compare_int Gt l r = (l > r)"
| "compare_int Ge l r = (l \<ge> r)"
| "compare_int Eq l r = (l = r)"
| "compare_int Ne l r = (l \<noteq> r)"

section \<open>The calendar round trip\<close>

definition leap :: "int \<Rightarrow> bool" where
  "leap y \<longleftrightarrow> 4 dvd y \<and> (\<not> 100 dvd y \<or> 400 dvd y)"

definition month_days :: "int \<Rightarrow> int \<Rightarrow> int" where
  "month_days y m = (if m = 2 then if leap y then 29 else 28 else if m \<in> {4, 6, 9, 11} then 30 else 31)"

definition valid_date :: "Date_data \<Rightarrow> bool" where
  "valid_date t \<longleftrightarrow> - 4799 \<le> year t \<and> 1 \<le> month t \<and> month t \<le> 12 \<and> 1 \<le> day t \<and> day t \<le> month_days (year t) (month t)"

text \<open>Years that start in March: year \<open>400 * q + 100 * r + 4 * s + t\<close>, day \<open>e\<close> of the year.\<close>

lemma march_year:
  fixes q r s t e :: int
  assumes "0 \<le> q" "0 \<le> r" "r \<le> 3" "0 \<le> s" "s \<le> 24" "0 \<le> t" "t \<le> 3" "0 \<le> e" "e \<le> 365"
    and "e = 365 \<longrightarrow> t = 3 \<and> (s = 24 \<longrightarrow> r = 3)"
    and "a = 146097 * q + 36524 * r + 1461 * s + 365 * t + e"
  shows "(4 * a + 3) div 146097 = 4 * q + r"
    "a - (4 * q + r) * 146097 div 4 = 1461 * s + 365 * t + e"
    "(4 * (1461 * s + 365 * t + e) + 3) div 1461 = 4 * s + t"
    "1461 * s + 365 * t + e - 1461 * (4 * s + t) div 4 = e"
proof -
  have "4 * a + 3 = 146097 * (4 * q + r) + (4 * (1461 * s + 365 * t + e) + 3 - r)"
    using assms(11) by simp
  moreover have "0 \<le> 4 * (1461 * s + 365 * t + e) + 3 - r" "4 * (1461 * s + 365 * t + e) + 3 - r < 146097"
    using assms by (cases "e = 365"; auto)+
  ultimately show "(4 * a + 3) div 146097 = 4 * q + r"
    by simp
  have "(4 * q + r) * 146097 = 4 * (146097 * q + 36524 * r) + r"
    by simp
  then have "(4 * q + r) * 146097 div 4 = 146097 * q + 36524 * r"
    using assms(2,3) by simp
  then show "a - (4 * q + r) * 146097 div 4 = 1461 * s + 365 * t + e"
    using assms(11) by simp
  have "4 * (1461 * s + 365 * t + e) + 3 = 1461 * (4 * s + t) + (4 * e + 3 - t)"
    by simp
  moreover have "0 \<le> 4 * e + 3 - t" "4 * e + 3 - t < 1461"
    using assms by (cases "e = 365"; auto)+
  ultimately show "(4 * (1461 * s + 365 * t + e) + 3) div 1461 = 4 * s + t"
    by simp
  have "1461 * (4 * s + t) = 4 * (1461 * s + 365 * t) + t"
    by simp
  then have "1461 * (4 * s + t) div 4 = 1461 * s + 365 * t"
    using assms(6,7) by simp
  then show "1461 * s + 365 * t + e - 1461 * (4 * s + t) div 4 = e"
    by simp
qed

lemma march_split:
  fixes yy :: int
  assumes "0 \<le> yy"
  defines "q \<equiv> yy div 400" and "r \<equiv> yy mod 400 div 100" and "s \<equiv> yy mod 100 div 4" and "t \<equiv> yy mod 4"
  shows "0 \<le> q" "0 \<le> r" "r \<le> 3" "0 \<le> s" "s \<le> 24" "0 \<le> t" "t \<le> 3" "yy = 400 * q + 100 * r + 4 * s + t"
    "yy div 4 = 100 * q + 25 * r + s" "yy div 100 = 4 * q + r"
proof -
  have e1: "yy = 400 * q + yy mod 400"
    unfolding q_def by (rule mult_div_mod_eq [symmetric])
  have e2: "yy mod 400 = 100 * r + yy mod 100"
    using mult_div_mod_eq [of 100 "yy mod 400"] mod_mod_cancel [of 100 400 yy] unfolding r_def by simp
  have e3: "yy mod 100 = 4 * s + t"
    using mult_div_mod_eq [of 4 "yy mod 100"] mod_mod_cancel [of 4 100 yy] unfolding s_def t_def by simp
  have m: "0 \<le> yy mod 400" "yy mod 400 < 400" "0 \<le> yy mod 100" "yy mod 100 < 100"
    by simp_all
  show t: "0 \<le> t" "t \<le> 3"
    unfolding t_def by presburger+
  show "0 \<le> q"
    unfolding q_def using assms(1) by simp
  show "0 \<le> r" "r \<le> 3" "0 \<le> s" "s \<le> 24"
    using m t e2 e3 by linarith+
  show yy: "yy = 400 * q + 100 * r + 4 * s + t"
    using e1 e2 e3 by linarith
  have "yy = 4 * (100 * q + 25 * r + s) + t" "yy = 100 * (4 * q + r) + (4 * s + t)"
    using yy by (simp_all add: algebra_simps)
  moreover have "0 \<le> 4 * s + t" "4 * s + t < 100" "t < 4"
    using m t e3 by linarith+
  ultimately show "yy div 4 = 100 * q + 25 * r + s" "yy div 100 = 4 * q + r"
    using t by (auto intro: int_div_pos_eq)
qed

text \<open>The number of days before the month \<open>mm\<close>, counted from March, and back.\<close>

lemma month_round:
  fixes mm d :: int
  assumes "0 \<le> mm" "mm \<le> 11" "1 \<le> d" "d \<le> 31" "mm \<in> {1, 3, 6, 8} \<longrightarrow> d \<le> 30" "mm = 11 \<longrightarrow> d \<le> 29"
  shows "(5 * (d - 1 + (153 * mm + 2) div 5) + 2) div 153 = mm" "0 \<le> d - 1 + (153 * mm + 2) div 5"
    "d - 1 + (153 * mm + 2) div 5 \<le> 365" "d - 1 + (153 * mm + 2) div 5 = 365 \<Longrightarrow> mm = 11 \<and> d = 29"
proof -
  have "mm \<in> {0, 1, 2, 3, 4, 5, 6, 7, 8, 9, 10, 11}"
    using assms(1,2) unfolding insert_iff empty_iff by presburger
  then show "(5 * (d - 1 + (153 * mm + 2) div 5) + 2) div 153 = mm" "0 \<le> d - 1 + (153 * mm + 2) div 5"
    "d - 1 + (153 * mm + 2) div 5 \<le> 365" "d - 1 + (153 * mm + 2) div 5 = 365 \<Longrightarrow> mm = 11 \<and> d = 29"
    using assms(3-6) by (elim insertE; simp)+
qed



text \<open>
  Of the six comparisons of dates only the less-than operator compares as its name says; \<open>==\<close> is false
  on equal dates.
\<close>

theorem date_operators_compare_less:
  "(\<forall>l r. date_operator s l r = compare_int s l r) \<longleftrightarrow> s = Lt"
proof (cases s)
  case Le
  have "date_operator Le 0 0 \<noteq> compare_int Le 0 0"
    by simp
  then show ?thesis
    using Le by blast
next
  case Gt
  have "date_operator Gt 0 1 \<noteq> compare_int Gt 0 1"
    by simp
  then show ?thesis
    using Gt by blast
next
  case Ge
  have "date_operator Ge 0 1 \<noteq> compare_int Ge 0 1"
    by simp
  then show ?thesis
    using Ge by blast
next
  case Eq
  have "date_operator Eq 0 0 \<noteq> compare_int Eq 0 0"
    by simp
  then show ?thesis
    using Eq by blast
next
  case Ne
  have "date_operator Ne 1 0 \<noteq> compare_int Ne 1 0"
    by simp
  then show ?thesis
    using Ne by blast
qed simp

section \<open>Intervals and time stamps\<close>

definition US :: int where "US = 1000"
definition MS :: int where "MS = 1000000"
definition SEC :: int where "SEC = 1000000000"
definition MINUTE :: int where "MINUTE = 60 * SEC"
definition HOUR :: int where "HOUR = 60 * MINUTE"

record timeval =
  tv_sec :: int
  tv_usec :: int

record timespec =
  ts_sec :: int
  ts_nsec :: int

text \<open>A \<open>TimeInterval\<close> is its number of nanoseconds.\<close>

definition interval_of_timeval :: "timeval \<Rightarrow> int" where
  "interval_of_timeval tv = tv_sec tv * SEC + tv_usec tv * US"

definition interval_of_timespec :: "timespec \<Rightarrow> int" where
  "interval_of_timespec ts = ts_sec ts * SEC + ts_nsec ts"

definition interval_to_timeval :: "int \<Rightarrow> timeval" where
  "interval_to_timeval ns = \<lparr>tv_sec = cdiv ns SEC, tv_usec = cdiv (cmod ns SEC) 1000\<rparr>"

definition interval_to_timespec :: "int \<Rightarrow> timespec" where
  "interval_to_timespec ns = \<lparr>ts_sec = cdiv ns SEC, ts_nsec = cmod ns SEC\<rparr>"

definition literal_us :: "int \<Rightarrow> int" where "literal_us us = us * US"
definition literal_ms :: "int \<Rightarrow> int" where "literal_ms ms = ms * MS"
definition literal_s :: "int \<Rightarrow> int" where "literal_s sec = sec * SEC"
definition literal_min :: "int \<Rightarrow> int" where "literal_min n = n * MINUTE"
definition literal_h :: "int \<Rightarrow> int" where "literal_h hour = hour * HOUR"

text \<open>A \<open>TimeStamp\<close> is its number of microseconds since the epoch.\<close>

definition coefficient :: int where "coefficient = 1000 * 1000"

definition expand_tv :: "timeval \<Rightarrow> int" where
  "expand_tv tv = tv_sec tv * coefficient + tv_usec tv"

definition stamp_to_timeval :: "int \<Rightarrow> timeval" where
  "stamp_to_timeval us = \<lparr>tv_sec = cdiv us coefficient, tv_usec = cdiv (cmod us coefficient) 1000\<rparr>"

definition stamp_to_timespec :: "int \<Rightarrow> timespec" where
  "stamp_to_timespec us = \<lparr>ts_sec = cdiv us coefficient, ts_nsec = cmod us coefficient\<rparr>"

lemma cmod_cmod:
  assumes "n dvd m" "0 < m"
  shows "cmod (cmod x m) n = cmod x n"
proof (cases "x < 0")
  case True
  have m: "0 \<le> - x mod m" "- x mod m mod n = - x mod n"
    using assms by (simp_all add: mod_mod_cancel)
  then show ?thesis
    using True by (cases "- x mod m = 0") (simp_all add: cmod_def)
next
  case False
  have "0 \<le> x mod m" "x mod m mod n = x mod n"
    using assms by (simp_all add: mod_mod_cancel)
  then show ?thesis
    using False by (simp add: cmod_def)
qed

lemma cdiv_1000_fixed: "cdiv x 1000 = x \<longleftrightarrow> x = 0"
proof
  assume *: "cdiv x 1000 = x"
  have "0 \<le> cmod x 1000 \<and> cmod x 1000 < 1000 \<or> x < 0 \<and> - 1000 < cmod x 1000 \<and> cmod x 1000 \<le> 0"
    by (simp add: cmod_def)
  with * cdiv_cmod [of x 1000] show "x = 0"
    by (auto simp: cdiv_def cmod_def split: if_splits)
qed (simp add: cdiv_def)

text \<open>
  An interval survives the round trip through \<open>timespec\<close>, and through \<open>timeval\<close> up to the
  truncation to microseconds. A time stamp does not survive \<open>timeval\<close>: \<open>to_timeval\<close> divides the
  microseconds by a thousand once more, so only stamps of whole seconds come back.
\<close>

theorem interval_stamp_roundtrips:
  "interval_of_timespec (interval_to_timespec ns) = ns \<and>
   interval_of_timeval (interval_to_timeval ns) = ns - cmod ns 1000 \<and>
   (expand_tv (stamp_to_timeval us) = us \<longleftrightarrow> cmod us coefficient = 0)"
proof (intro conjI)
  show "interval_of_timespec (interval_to_timespec ns) = ns"
    using cdiv_cmod [of ns SEC] by (simp add: interval_of_timespec_def interval_to_timespec_def)
  have "cdiv (cmod ns SEC) 1000 * 1000 = cmod ns SEC - cmod ns 1000"
  proof -
    have "cmod (cmod ns SEC) 1000 = cmod ns 1000"
      by (rule cmod_cmod) (simp_all add: SEC_def)
    then show ?thesis
      using cdiv_cmod [of "cmod ns SEC" 1000] by simp
  qed
  then show "interval_of_timeval (interval_to_timeval ns) = ns - cmod ns 1000"
    using cdiv_cmod [of ns SEC] by (simp add: interval_of_timeval_def interval_to_timeval_def US_def)
  have "cdiv x 1000 = x \<longleftrightarrow> x = 0" for x
    by (rule cdiv_1000_fixed)
  then show "expand_tv (stamp_to_timeval us) = us \<longleftrightarrow> cmod us coefficient = 0"
    using cdiv_cmod [of us coefficient] unfolding expand_tv_def stamp_to_timeval_def timeval.select_convs
    by (metis add_left_cancel)
qed

section \<open>Timer\<close>

text \<open>The time that \<open>Timer::sleep\<close> passes to \<open>nanosleep\<close>; \<open>None\<close> when it returns at once.\<close>

definition timer_sleep :: "int \<Rightarrow> int \<Rightarrow> timespec option" where
  "timer_sleep ns timeouts =
     (if timeouts \<le> 0 \<or> ns \<le> 0 then None
      else
        let sec = cdiv ns SEC * timeouts;
            nsec = cmod ns SEC;
            sec = sec + cdiv (timeouts * nsec) SEC;
            nsec = nsec + cmod (timeouts * nsec) SEC
        in Some \<lparr>ts_sec = sec, ts_nsec = nsec\<rparr>)"

text \<open>What \<open>nanosleep\<close> accepts.\<close>

definition valid_timespec :: "timespec \<Rightarrow> bool" where
  "valid_timespec ts \<longleftrightarrow> 0 \<le> ts_sec ts \<and> 0 \<le> ts_nsec ts \<and> ts_nsec ts < SEC"

text \<open>
  Sleeping once for an interval counts its fraction of a second twice: the time asked for is
  \<open>ns + ns mod SEC\<close>, and from half a second on it is not a valid \<open>timespec\<close>, so nothing is slept.
\<close>

theorem timer_sleep_doubles:
  assumes "0 < ns"
  shows "\<exists>ts. timer_sleep ns 1 = Some ts \<and> interval_of_timespec ts = ns + ns mod SEC \<and>
    (valid_timespec ts \<longleftrightarrow> 2 * (ns mod SEC) < SEC)"
proof -
  have m: "0 \<le> ns mod SEC" "ns mod SEC < SEC" "cmod ns SEC = ns mod SEC" "cdiv ns SEC = ns div SEC"
    using assms by (simp_all add: SEC_def)
  have "timer_sleep ns 1 = Some \<lparr>ts_sec = ns div SEC, ts_nsec = 2 * (ns mod SEC)\<rparr>"
    using assms m by (simp add: timer_sleep_def Let_def div_pos_pos_trivial)
  moreover have "ns div SEC * SEC + ns mod SEC = ns" "0 \<le> ns div SEC"
    using assms by (simp_all add: SEC_def div_mult_mod_eq pos_imp_zdiv_nonneg_iff)
  ultimately show ?thesis
    using m by (auto simp: interval_of_timespec_def valid_timespec_def)
qed

lemma timer_sleep_doubles_witness:
  "\<exists>ts. timer_sleep 1500000000 1 = Some ts \<and> interval_of_timespec ts = 2000000000 \<and> \<not> valid_timespec ts"
  using timer_sleep_doubles [of 1500000000] by (simp add: SEC_def)

section \<open>The queue of \<open>TimerLoop\<close>\<close>

text \<open>
  A node holds its due time and a shared pointer (here an identifier, \<open>None\<close> for a null pointer) to
  the pair of an interval and an event; an interval of -1 marks a cancelled event, and the flag says
  whether the event can be called. \<open>tl_list\<close> is the priority queue.
\<close>

record timer_node =
  n_now :: int
  n_ptr :: "nat option"

record timer_loop =
  tl_run :: bool
  tl_quit :: bool
  tl_list :: "timer_node list"
  tl_events :: "nat \<Rightarrow> int \<times> bool"
  tl_next :: nat

text \<open>\<open>operator<\<close> of nodes, and the top of the queue: a node above all others in that order.\<close>

definition node_less :: "timer_node \<Rightarrow> timer_node \<Rightarrow> bool" where
  "node_less l r \<longleftrightarrow> n_now l \<le> n_now r"

fun queue_top :: "timer_node list \<Rightarrow> timer_node option" where
  "queue_top [] = None"
| "queue_top (n # ns) = (case queue_top ns of None \<Rightarrow> Some n | Some t \<Rightarrow> Some (if node_less t n then n else t))"

definition put_event :: "int \<Rightarrow> bool \<Rightarrow> int \<Rightarrow> timer_loop \<Rightarrow> (nat option \<times> timer_loop) option" where
  "put_event now callable interval L =
     (if \<not> interval > 0 then None
      else if \<not> tl_run L then Some (None, L)
      else Some (Some (tl_next L), L\<lparr>tl_list := tl_list L @ [\<lparr>n_now = now, n_ptr = Some (tl_next L)\<rparr>],
        tl_events := (tl_events L)(tl_next L := (interval, callable)), tl_next := tl_next L + 1\<rparr>))"

lemma queue_top_in: "queue_top ns = Some t \<Longrightarrow> t \<in> set ns"
  by (induction ns arbitrary: t) (auto split: option.splits if_splits)

text \<open>\<open>get_event\<close>; \<open>None\<close> means that it waits. A node in the queue always has its pointer.\<close>

function get_event :: "(nat \<Rightarrow> int \<times> bool) \<Rightarrow> bool \<Rightarrow> timer_node list \<Rightarrow> (timer_node \<times> timer_node list) option" where
  "get_event ev quit ns =
     (if quit then Some (\<lparr>n_now = 0, n_ptr = None\<rparr>, ns)
      else case queue_top ns of
        None \<Rightarrow> None
      | Some t \<Rightarrow>
          if map_option (\<lambda>i. fst (ev i)) (n_ptr t) = Some (- 1) then get_event ev quit (remove1 t ns)
          else Some (t, remove1 t ns))"
  by pat_completeness auto
termination
  by (relation "measure (\<lambda>(ev, quit, ns). length ns)")
    (auto simp: length_remove1 dest!: queue_top_in intro!: diff_less elim: length_pos_if_in_set)

declare get_event.simps [simp del]

text \<open>\<open>Node::invoke\<close>: whether the event is called, and whether its node goes back; \<open>cb\<close> is the event.\<close>

definition node_invoke :: "(nat \<Rightarrow> timer_loop \<Rightarrow> timer_loop) \<Rightarrow> timer_node \<Rightarrow> timer_loop \<Rightarrow> nat option \<times> bool \<times> timer_loop" where
  "node_invoke cb n L =
     (case n_ptr n of
        None \<Rightarrow> (None, False, L)
      | Some i \<Rightarrow>
          if fst (tl_events L i) = - 1 \<or> \<not> snd (tl_events L i) then (None, False, L)
          else let L = cb i L in (Some i, fst (tl_events L i) \<noteq> - 1, L))"

definition node_update :: "timer_node \<Rightarrow> timer_loop \<Rightarrow> timer_node option" where
  "node_update n L =
     (case n_ptr n of
        None \<Rightarrow> None
      | Some i \<Rightarrow> if fst (tl_events L i) = - 1 then None else Some (n\<lparr>n_now := n_now n + fst (tl_events L i)\<rparr>))"

text \<open>\<open>invoke_event\<close>: the event called, the due time it slept until, and the loop afterwards.\<close>

definition invoke_event :: "(nat \<Rightarrow> timer_loop \<Rightarrow> timer_loop) \<Rightarrow> timer_loop \<Rightarrow> (nat option \<times> int \<times> timer_loop) option" where
  "invoke_event cb L =
     (case get_event (tl_events L) (tl_quit L) (tl_list L) of
        None \<Rightarrow> None
      | Some (n, rest) \<Rightarrow>
          let (called, again, L) = node_invoke cb n (L\<lparr>tl_list := rest\<rparr>);
              L = (if again then case node_update n L of None \<Rightarrow> L | Some n \<Rightarrow> L\<lparr>tl_list := tl_list L @ [n]\<rparr> else L)
          in Some (called, n_now n, L))"

text \<open>\<open>EventID::reset\<close> and \<open>cancel\<close> act while a node still holds the pair.\<close>

definition event_alive :: "timer_loop \<Rightarrow> nat \<Rightarrow> bool" where
  "event_alive L i \<longleftrightarrow> Some i \<in> n_ptr ` set (tl_list L)"

definition event_reset :: "int \<Rightarrow> nat \<Rightarrow> timer_loop \<Rightarrow> timer_loop option" where
  "event_reset interval i L =
     (if \<not> interval > 0 then None
      else Some (if event_alive L i then L\<lparr>tl_events := (tl_events L)(i := (interval, snd (tl_events L i)))\<rparr> else L))"

definition event_cancel :: "nat \<Rightarrow> timer_loop \<Rightarrow> timer_loop" where
  "event_cancel i L =
     (if event_alive L i then L\<lparr>tl_events := (tl_events L)(i := (- 1, snd (tl_events L i)))\<rparr> else L)"

definition event_expired :: "nat \<Rightarrow> timer_loop \<Rightarrow> bool" where
  "event_expired i L \<longleftrightarrow> \<not> event_alive L i"

definition loop_start :: "timer_loop \<Rightarrow> timer_loop" where
  "loop_start L = (if tl_run L then L else L\<lparr>tl_quit := False, tl_run := True\<rparr>)"

text \<open>\<open>shutdown\<close> asks the thread to end, and empties the queue once it has.\<close>

definition shutdown_ask :: "timer_loop \<Rightarrow> timer_loop" where
  "shutdown_ask L = L\<lparr>tl_quit := True\<rparr>"

definition thread_end :: "timer_loop \<Rightarrow> timer_loop" where
  "thread_end L = (if tl_quit L then L\<lparr>tl_run := False\<rparr> else L)"

definition shutdown_finish :: "timer_loop \<Rightarrow> timer_loop option" where
  "shutdown_finish L = (if tl_run L then None else Some (L\<lparr>tl_list := []\<rparr>))"

text \<open>\<open>k\<close> turns of the thread: the events called.\<close>

fun turns :: "(nat \<Rightarrow> timer_loop \<Rightarrow> timer_loop) \<Rightarrow> nat \<Rightarrow> timer_loop \<Rightarrow> nat option list" where
  "turns cb 0 L = []"
| "turns cb (Suc k) L = (case invoke_event cb L of None \<Rightarrow> [] | Some (c, t, L) \<Rightarrow> c # turns cb k L)"

lemma queue_top_none [simp]: "queue_top ns = None \<longleftrightarrow> ns = []"
  by (cases ns) (auto split: option.splits)

lemma queue_top_max: "queue_top ns = Some t \<Longrightarrow> n \<in> set ns \<Longrightarrow> n_now n \<le> n_now t"
  by (induction ns arbitrary: t) (auto simp: node_less_def split: option.splits if_splits)

lemma latest_is_top:
  assumes "t \<in> set ns" "\<And>n. n \<in> set ns \<Longrightarrow> n \<noteq> t \<Longrightarrow> n_now n < n_now t"
  shows "queue_top ns = Some t"
proof -
  have "queue_top ns \<noteq> None"
    using assms(1) by auto
  then obtain u where u: "queue_top ns = Some u"
    by blast
  then have "n_now t \<le> n_now u" "u \<in> set ns"
    using queue_top_max assms(1) queue_top_in by auto
  then have "u = t"
    using assms(2) by force
  then show ?thesis
    using u by simp
qed

lemma latest_served:
  assumes "\<not> tl_quit L" "t \<in> set (tl_list L)" "distinct (tl_list L)" "n_ptr t = Some i" "tl_events L i = (d, True)" "0 < d"
    and "\<And>n. n \<in> set (tl_list L) \<Longrightarrow> n \<noteq> t \<Longrightarrow> n_now n < n_now t"
  shows "invoke_event (\<lambda>i L. L) L =
    Some (Some i, n_now t, L\<lparr>tl_list := remove1 t (tl_list L) @ [t\<lparr>n_now := n_now t + d\<rparr>]\<rparr>)"
proof -
  have "get_event (tl_events L) (tl_quit L) (tl_list L) = Some (t, remove1 t (tl_list L))"
    using latest_is_top [OF assms(2,7)] assms(1,4-6) by (subst get_event.simps) simp
  then show ?thesis
    using assms(4-6) by (simp add: invoke_event_def node_invoke_def node_update_def Let_def)
qed

text \<open>
  The queue serves the latest node first, so the periodic event with the latest due time runs
  again and again and every earlier one starves, however long ago it was due.
\<close>

theorem earlier_events_starve:
  assumes "\<not> tl_quit L" "t \<in> set (tl_list L)" "distinct (tl_list L)" "n_ptr t = Some i" "tl_events L i = (d, True)" "0 < d"
    and "\<And>n. n \<in> set (tl_list L) \<Longrightarrow> n \<noteq> t \<Longrightarrow> n_now n < n_now t"
  shows "turns (\<lambda>i L. L) k L = replicate k (Some i)"
  using assms
proof (induction k arbitrary: L t)
  case (Suc k)
  let ?t = "t\<lparr>n_now := n_now t + d\<rparr>"
  let ?L = "L\<lparr>tl_list := remove1 t (tl_list L) @ [?t]\<rparr>"
  have less: "n_now n < n_now ?t" if "n \<in> set (remove1 t (tl_list L))" for n
    using Suc.prems(3,6,7) that by fastforce
  have new: "?t \<notin> set (remove1 t (tl_list L))"
    using less by blast
  have "turns (\<lambda>i L. L) k ?L = replicate k (Some i)"
    using Suc.prems less new by (intro Suc.IH [of ?L ?t]) (auto simp: distinct_remove1)
  then show ?case
    using latest_served [OF Suc.prems] by simp
qed simp

lemma earlier_events_starve_witness:
  "turns (\<lambda>i L. L) 9 \<lparr>tl_run = True, tl_quit = False, tl_list = [\<lparr>n_now = 1, n_ptr = Some 0\<rparr>, \<lparr>n_now = 100, n_ptr = Some 1\<rparr>],
     tl_events = (\<lambda>i. (1, True)), tl_next = 2\<rparr> = replicate 9 (Some 1)"
  by (rule earlier_events_starve [where t = "\<lparr>n_now = 100, n_ptr = Some 1\<rparr>" and d = 1]) auto

end
