(* ===== verification/BlockFile.thy ===== *)
theory BlockFile
  imports Prelude "HOL-Library.Monad_Syntax"
begin

text \<open>
  Files of blocks (\<open>Base/Detail/BlockFile.hpp\<close>, \<open>Base/Detail/src/BlockFile.cpp\<close>, over \<open>ioFile.hpp\<close>).

  The operating system's file is its bytes, the position of the stream and the room left to it on the
  disk, in bytes: \<open>fwrite\<close> writes what fits, \<open>ftruncate\<close> fails beyond it, nothing else fails. The
  stream's own buffer is not modelled (every reading or truncation of the code follows an \<open>fseek\<close> that
  flushes it, or only grows the file). Padding bytes, uninitialised in the code, are a parameter.
\<close>

section \<open>The stream\<close>

record os_file =
  bytes :: "byte list"
  fpos :: nat
  room :: nat

text \<open>\<open>ioFile::open\<close>: mode \<open>w\<close> empties the file, mode \<open>r\<close> is retried as \<open>w\<close> when there is no file.\<close>

definition io_open :: "bool \<Rightarrow> nat \<Rightarrow> byte list option \<Rightarrow> bool \<Rightarrow> os_file option" where
  "io_open can_open capacity existing appending =
     (if \<not> can_open then None
      else Some \<lparr>bytes = (if appending then case existing of None \<Rightarrow> [] | Some b \<Rightarrow> b else []), fpos = 0, room = capacity\<rparr>)"

text \<open>\<open>ioFile::read\<close>, \<open>write\<close>, \<open>seek_cur\<close>, \<open>seek_beg\<close> and \<open>resize_file\<close>.\<close>

definition io_read :: "os_file \<Rightarrow> nat \<Rightarrow> byte list \<times> os_file" where
  "io_read f n = (let b = take n (drop (fpos f) (bytes f)) in (b, f\<lparr>fpos := fpos f + length b\<rparr>))"

definition io_write :: "os_file \<Rightarrow> byte list \<Rightarrow> nat \<times> os_file" where
  "io_write f d =
     (let n = min (length d) (room f - fpos f);
          old = bytes f @ replicate (fpos f - length (bytes f)) 0
      in if n = 0 then (0, f)
         else (n, f\<lparr>bytes := take (fpos f) old @ take n d @ drop (fpos f + n) old, fpos := fpos f + n\<rparr>))"

definition seek_cur :: "os_file \<Rightarrow> int \<Rightarrow> os_file option" where
  "seek_cur f step = (if int (fpos f) + step < 0 then None else Some (f\<lparr>fpos := nat (int (fpos f) + step)\<rparr>))"

definition seek_beg :: "os_file \<Rightarrow> nat \<Rightarrow> os_file option" where
  "seek_beg f p = Some (f\<lparr>fpos := p\<rparr>)"

definition resize_file :: "os_file \<Rightarrow> nat \<Rightarrow> os_file option" where
  "resize_file f n =
     (if n > room f then None
      else Some (f\<lparr>bytes := take n (bytes f) @ replicate (n - length (bytes f)) 0\<rparr>))"

section \<open>The block file\<close>

record block_file =
  io :: "os_file option"
  bf_offset :: nat
  total_blocks :: nat
  block_size :: nat

datatype bf_error = No_stat | Not_multiple | Division_by_zero

definition bf_default :: block_file where
  "bf_default = \<lparr>io = None, bf_offset = 0, total_blocks = 0, block_size = 0\<rparr>"

definition bf_new :: "os_file option \<Rightarrow> bool \<Rightarrow> nat \<Rightarrow> bf_error + block_file" where
  "bf_new opened stat_ok bs =
     (case opened of None \<Rightarrow> Inr \<lparr>io = None, bf_offset = 0, total_blocks = 0, block_size = bs\<rparr>
      | Some f \<Rightarrow>
          if \<not> stat_ok then Inl No_stat
          else if bs = 0 then Inl Division_by_zero
          else if length (bytes f) mod bs \<noteq> 0 then Inl Not_multiple
          else Inr \<lparr>io = Some f, bf_offset = 0, total_blocks = length (bytes f) div bs, block_size = bs\<rparr>)"

text \<open>The move constructor gives the new file and what is left of the old one.\<close>

definition bf_move :: "block_file \<Rightarrow> block_file \<times> block_file" where
  "bf_move f = (f, \<lparr>io = None, bf_offset = 0, total_blocks = 0, block_size = 0\<rparr>)"

definition bf_open :: "block_file \<Rightarrow> os_file option \<Rightarrow> bool \<Rightarrow> bf_error + (bool \<times> block_file)" where
  "bf_open f opened stat_ok =
     (let f = f\<lparr>bf_offset := 0, total_blocks := 0, io := opened\<rparr>
      in case opened of None \<Rightarrow> Inr (False, f)
         | Some o' \<Rightarrow>
             if \<not> stat_ok then Inr (False, f\<lparr>io := None\<rparr>)
             else if block_size f = 0 then Inl Division_by_zero
             else Inr (True, f\<lparr>total_blocks := length (bytes o') div block_size f\<rparr>))"

definition bf_close :: "block_file \<Rightarrow> bool \<Rightarrow> bool \<times> block_file" where
  "bf_close f fclose_ok =
     (let f = f\<lparr>bf_offset := 0, total_blocks := 0\<rparr>
      in if io f = None \<or> fclose_ok then (True, f\<lparr>io := None\<rparr>) else (False, f))"

text \<open>
  The operations below use the stream; on a closed file the code passes a null stream to the C library:
  \<open>None\<close>.
\<close>

definition locating :: "block_file \<Rightarrow> nat \<Rightarrow> (bool \<times> block_file) option" where
  "locating f index =
     (if index > total_blocks f then Some (False, f)
      else do {
        s \<leftarrow> io f;
        let step = int (index * block_size f) - int (bf_offset f);
        (case seek_cur s step of None \<Rightarrow> Some (False, f)
         | Some s' \<Rightarrow> Some (True, f\<lparr>io := Some s', bf_offset := nat (int (bf_offset f) + step)\<rparr>))
      })"

definition padding_write :: "(nat \<Rightarrow> byte) \<Rightarrow> block_file \<Rightarrow> byte list \<Rightarrow> (nat \<times> block_file) option" where
  "padding_write junk f d = do {
     s \<leftarrow> io f;
     let (written, s) = io_write s d;
     let (more, s) = (if written = length d \<and> length d \<noteq> block_size f
                      then io_write s (map junk [0..<block_size f - length d]) else (0, s));
     Some (written + more, f\<lparr>io := Some s, bf_offset := bf_offset f + (written + more)\<rparr>)
   }"

definition write_error_handle :: "block_file \<Rightarrow> (bool \<times> block_file) option" where
  "write_error_handle f = do {
     let f = f\<lparr>total_blocks := total_blocks f - 1\<rparr>;
     s \<leftarrow> io f;
     (case resize_file s (total_blocks f * block_size f) of None \<Rightarrow> Some (False, f)
      | Some s \<Rightarrow>
          (case seek_beg s (total_blocks f * block_size f) of None \<Rightarrow> Some (True, f\<lparr>io := Some s\<rparr>)
           | Some s \<Rightarrow> Some (True, f\<lparr>io := Some s, bf_offset := total_blocks f * block_size f\<rparr>)))
   }"

fun read_loop :: "nat \<Rightarrow> block_file \<Rightarrow> os_file \<Rightarrow> byte list \<Rightarrow> byte list \<times> block_file" where
  "read_loop 0 f s dest = (dest, f\<lparr>io := Some s\<rparr>)"
| "read_loop (Suc count) f s dest =
     (let (b, s) = io_read s (block_size f);
          f = f\<lparr>bf_offset := bf_offset f + length b\<rparr>
      in if length b = block_size f then read_loop count f s (dest @ b)
         else (dest @ b, f\<lparr>io := Some s\<rparr>))"

text \<open>The bytes read stand for the destination and, by their number, for the result.\<close>

definition bf_read :: "block_file \<Rightarrow> nat \<Rightarrow> nat \<Rightarrow> (byte list \<times> block_file) option" where
  "bf_read f index count =
     (if (index + count) mod 2 ^ 64 > total_blocks f then Some ([], f)
      else do {
        (ok, f) \<leftarrow> locating f index;
        if \<not> ok then Some ([], f)
        else do {
          s \<leftarrow> io f;
          Some (read_loop count f s [])
        }
      })"

text \<open>The loop of \<open>write_to_back\<close>; \<open>done\<close> is \<open>_data - data\<close>. With a block size of 0 it never ends.\<close>

partial_function (option) write_loop ::
  "(nat \<Rightarrow> byte) \<Rightarrow> block_file \<Rightarrow> byte list \<Rightarrow> nat \<Rightarrow> (nat \<times> block_file) option" where
  "write_loop junk f d written_so_far =
     (if d = [] then Some (written_so_far, f)
      else do {
        let s = (if length d > block_size f then block_size f else length d);
        (written, f) \<leftarrow> padding_write junk f (take s d);
        let f = f\<lparr>total_blocks := total_blocks f + 1\<rparr>;
        if written \<noteq> block_size f
        then do {
          (handled, f) \<leftarrow> write_error_handle f;
          Some ((if handled then 0 else written) + written_so_far, f)
        }
        else write_loop junk f (drop s d) (written_so_far + written)
      })"

definition write_to_back :: "(nat \<Rightarrow> byte) \<Rightarrow> block_file \<Rightarrow> byte list \<Rightarrow> (nat \<times> block_file) option" where
  "write_to_back junk f d = do {
     (ok, f) \<leftarrow> locating f (total_blocks f);
     if \<not> ok then Some (0, f) else write_loop junk f d 0
   }"

definition bf_update :: "(nat \<Rightarrow> byte) \<Rightarrow> block_file \<Rightarrow> byte list \<Rightarrow> nat \<Rightarrow> (nat \<times> block_file) option" where
  "bf_update junk f d index =
     (if index \<ge> total_blocks f then Some (0, f)
      else do {
        (ok, f) \<leftarrow> locating f index;
        if \<not> ok then Some (0, f)
        else padding_write junk f (if length d > block_size f then take (block_size f) d else d)
      })"

definition erase_back_blocks :: "block_file \<Rightarrow> nat \<Rightarrow> (bool \<times> block_file) option" where
  "erase_back_blocks f count =
     (if count > total_blocks f then Some (False, f)
      else do {
        let after_size = (total_blocks f - count) * block_size f;
        (b, f) \<leftarrow> (if bf_offset f > after_size then locating f (total_blocks f - count) else Some (True, f));
        s \<leftarrow> io f;
        (case resize_file s after_size of
           None \<Rightarrow> do { (b, f) \<leftarrow> locating f 0; Some (False, f) }
         | Some s \<Rightarrow> Some (True, f\<lparr>io := Some s, total_blocks := total_blocks f - count\<rparr>))
      })"

definition resize_file_total_blocks :: "block_file \<Rightarrow> nat \<Rightarrow> (bool \<times> block_file) option" where
  "resize_file_total_blocks f new_blocks = do {
     s \<leftarrow> io f;
     (case resize_file s (new_blocks * block_size f) of None \<Rightarrow> Some (False, f)
      | Some s \<Rightarrow> Some (True, f\<lparr>io := Some s, total_blocks := new_blocks\<rparr>))
   }"

section \<open>The file as a list of blocks\<close>

text \<open>The file between two operations: the stream is where the block file believes it is, and the file
  holds exactly its blocks.\<close>

definition bf_inv :: "block_file \<Rightarrow> bool" where
  "bf_inv f \<longleftrightarrow> (case io f of None \<Rightarrow> False
     | Some s \<Rightarrow> fpos s = bf_offset f \<and> length (bytes s) = total_blocks f * block_size f \<and>
         length (bytes s) \<le> room s \<and> 0 < block_size f)"

definition block_at :: "nat \<Rightarrow> byte list \<Rightarrow> nat \<Rightarrow> byte list" where
  "block_at bs b i = take bs (drop (i * bs) b)"

definition blocks :: "block_file \<Rightarrow> byte list list" where
  "blocks f = map (block_at (block_size f) (bytes (the (io f)))) [0..<total_blocks f]"

definition disk_room :: "block_file \<Rightarrow> nat" where
  "disk_room f = room (the (io f))"

lemma length_blocks [simp]: "length (blocks f) = total_blocks f"
  by (simp add: blocks_def)

lemma bf_invE:
  assumes "bf_inv f"
  obtains s where "io f = Some s" "fpos s = bf_offset f" "length (bytes s) = total_blocks f * block_size f"
    "length (bytes s) \<le> room s" "0 < block_size f"
  using assms by (auto simp: bf_inv_def split: option.splits)

lemma next_block_le: "j < i \<Longrightarrow> j * bs + bs \<le> i * (bs :: nat)"
  using mult_le_mono1 [of "Suc j" i bs] by (simp add: add.commute)

lemma block_at_length: "i < n \<Longrightarrow> length b = n * bs \<Longrightarrow> length (block_at bs b i) = bs"
  using next_block_le [of i n bs] by (simp add: block_at_def)

lemma block_at_nth: "k < bs \<Longrightarrow> i < n \<Longrightarrow> length b = n * bs \<Longrightarrow> block_at bs b i ! k = b ! (i * bs + k)"
  using next_block_le [of i n bs] by (simp add: block_at_def)

lemma block_at_write:
  assumes "length b = n * bs" "length d = bs" "i < n" "j < n"
  shows "block_at bs (take (i * bs) b @ d @ drop (i * bs + bs) b) j = (if j = i then d else block_at bs b j)"
proof -
  let ?b = "take (i * bs) b @ d @ drop (i * bs + bs) b"
  have le: "i * bs + bs \<le> n * bs"
    by (rule next_block_le [OF assms(3)])
  have len: "length ?b = n * bs"
    using assms(1,2) le by simp
  show ?thesis
  proof (rule nth_equalityI)
    show "length (block_at bs ?b j) = length (if j = i then d else block_at bs b j)"
      using assms len by (simp add: block_at_length)
    fix k
    assume "k < length (block_at bs ?b j)"
    then have k: "k < bs"
      using block_at_length [OF assms(4) len] by simp
    consider "j < i" | "j = i" | "i < j"
      by linarith
    then show "block_at bs ?b j ! k = (if j = i then d else block_at bs b j) ! k"
    proof cases
      case 1
      then have "j * bs + k < i * bs"
        using next_block_le [of j i bs] k by linarith
      then show ?thesis
        using 1 k assms le by (simp add: block_at_nth [OF k assms(4) len] block_at_nth [OF k assms(4,1)] nth_append)
    next
      case 2
      then show ?thesis
        using block_at_nth [OF k assms(4) len] k assms le unfolding 2 by (simp add: nth_append)
    next
      case 3
      then have ge: "i * bs + bs \<le> j * bs + k" "j * bs + k < n * bs"
        using next_block_le [of i j bs] next_block_le [OF assms(4), of bs] k by linarith+
      then have "\<not> j * bs + k < i * bs" "\<not> j * bs + k - i * bs < bs"
          "i * bs + bs + (j * bs + k - i * bs - bs) = j * bs + k"
        by linarith+
      then show ?thesis
        using 3 ge assms le by (simp add: block_at_nth [OF k assms(4) len] block_at_nth [OF k assms(4,1)] nth_append)
    qed
  qed
qed

lemma block_at_append: "length b = n * bs \<Longrightarrow> j < n \<Longrightarrow> block_at bs (b @ c) j = block_at bs b j"
  using next_block_le [of j n bs] by (simp add: block_at_def)

lemma block_at_new: "length b = n * bs \<Longrightarrow> length c = bs \<Longrightarrow> block_at bs (b @ c) n = c"
  by (simp add: block_at_def)

lemma block_at_take: "m \<le> n \<Longrightarrow> length b = n * bs \<Longrightarrow> j < m \<Longrightarrow> block_at bs (take (m * bs) b) j = block_at bs b j"
  using next_block_le [of j m bs] by (simp add: block_at_def drop_take min_def)

section \<open>The operations\<close>

lemma locating_ok:
  assumes "bf_inv f" "index \<le> total_blocks f"
  shows "locating f index = Some (True, f\<lparr>io := Some ((the (io f))\<lparr>fpos := index * block_size f\<rparr>),
    bf_offset := index * block_size f\<rparr>)"
proof -
  obtain s where s: "io f = Some s" "fpos s = bf_offset f"
    using bf_invE [OF assms(1)] by metis
  show ?thesis
    using assms(2) s by (simp add: locating_def seek_cur_def Let_def del: of_nat_mult)
qed

lemma io_write_inside:
  assumes "fpos s + length d \<le> length (bytes s)" "length (bytes s) \<le> room s"
  shows "io_write s d = (length d, s\<lparr>bytes := take (fpos s) (bytes s) @ d @ drop (fpos s + length d) (bytes s),
    fpos := fpos s + length d\<rparr>)"
  using assms by (auto simp: io_write_def Let_def min_def)

lemma io_write_end:
  assumes "fpos s = length (bytes s)" "length (bytes s) \<le> room s"
  shows "io_write s d = (min (length d) (room s - length (bytes s)),
    s\<lparr>bytes := bytes s @ take (room s - length (bytes s)) d,
      fpos := length (bytes s) + min (length d) (room s - length (bytes s))\<rparr>)"
  using assms by (cases s) (auto simp: io_write_def Let_def min_def)

text \<open>The block written for \<open>d\<close>: the rest of the block is whatever \<open>junk\<close> holds.\<close>

definition padded :: "(nat \<Rightarrow> byte) \<Rightarrow> nat \<Rightarrow> byte list \<Rightarrow> byte list" where
  "padded junk bs d = d @ map junk [0..<bs - length d]"

lemma length_padded [simp]: "length d \<le> bs \<Longrightarrow> length (padded junk bs d) = bs"
  by (simp add: padded_def)

lemma padding_write_inside:
  assumes "io f = Some s" "length d \<le> block_size f" "fpos s + block_size f \<le> length (bytes s)" "length (bytes s) \<le> room s"
  shows "padding_write junk f d = Some (block_size f,
    f\<lparr>io := Some (s\<lparr>bytes := take (fpos s) (bytes s) @ padded junk (block_size f) d @ drop (fpos s + block_size f) (bytes s),
        fpos := fpos s + block_size f\<rparr>), bf_offset := bf_offset f + block_size f\<rparr>)"
proof -
  let ?s = "s\<lparr>bytes := take (fpos s) (bytes s) @ d @ drop (fpos s + length d) (bytes s), fpos := fpos s + length d\<rparr>"
  have w: "io_write s d = (length d, ?s)"
    using assms by (intro io_write_inside) simp_all
  show ?thesis
  proof (cases "length d = block_size f")
    case True
    then show ?thesis
      using w assms(1) by (simp add: padding_write_def Let_def padded_def)
  next
    case False
    let ?p = "map junk [0..<block_size f - length d]"
    have "length (bytes ?s) = length (bytes s)"
      using assms by simp
    then have "io_write ?s ?p = (length ?p, ?s\<lparr>bytes := take (fpos ?s) (bytes ?s) @ ?p @ drop (fpos ?s + length ?p) (bytes ?s),
        fpos := fpos ?s + length ?p\<rparr>)"
      using assms by (intro io_write_inside) simp_all
    then show ?thesis
      using w assms False by (simp add: padding_write_def Let_def padded_def add.commute)
  qed
qed

text \<open>\<open>keeps f g\<close>: an operation changes neither the block size nor the room on the disk.\<close>

definition keeps :: "block_file \<Rightarrow> block_file \<Rightarrow> bool" where
  "keeps f g \<longleftrightarrow> bf_inv g \<and> block_size g = block_size f \<and> disk_room g = disk_room f"

lemma keepsI:
  assumes "bf_inv f" "io g = Some s" "fpos s = bf_offset g" "length (bytes s) = total_blocks g * block_size f"
    "length (bytes s) \<le> room s" "room s = disk_room f" "block_size g = block_size f"
  shows "keeps f g"
  using assms by (auto simp: keeps_def bf_inv_def disk_room_def split: option.splits)

lemma keeps_trans: "keeps f g \<Longrightarrow> keeps g h \<Longrightarrow> keeps f h"
  by (simp add: keeps_def)

lemma bf_update_ok:
  assumes "bf_inv f" "index < total_blocks f"
  obtains g where "bf_update junk f d index = Some (block_size f, g)" "keeps f g"
    "total_blocks g = total_blocks f"
    "blocks g = (blocks f)[index := padded junk (block_size f) (take (block_size f) d)]"
proof -
  obtain s where s: "io f = Some s" "fpos s = bf_offset f" "length (bytes s) = total_blocks f * block_size f"
    "length (bytes s) \<le> room s" "0 < block_size f"
    using bf_invE [OF assms(1)] by metis
  let ?bs = "block_size f"
  let ?d = "take ?bs d"
  let ?s = "s\<lparr>fpos := index * ?bs\<rparr>"
  let ?f = "f\<lparr>io := Some ?s, bf_offset := index * ?bs\<rparr>"
  let ?s' = "?s\<lparr>bytes := take (index * ?bs) (bytes s) @ padded junk ?bs ?d @ drop (index * ?bs + ?bs) (bytes s),
      fpos := index * ?bs + ?bs\<rparr>"
  let ?g = "?f\<lparr>io := Some ?s', bf_offset := index * ?bs + ?bs\<rparr>"
  have le: "index * ?bs + ?bs \<le> total_blocks f * ?bs"
    by (rule next_block_le [OF assms(2)])
  have "padding_write junk ?f ?d = Some (?bs, ?g)"
    using padding_write_inside [of ?f ?s ?d junk] s le by simp
  then have "bf_update junk f d index = Some (?bs, ?g)"
    using assms s(1) locating_ok [OF assms(1), of index] by (cases "?bs < length d") (simp_all add: bf_update_def)
  moreover have "keeps f ?g"
    using s le by (intro keepsI [OF assms(1), of _ ?s']) (simp_all add: disk_room_def)
  moreover have "blocks ?g = (blocks f)[index := padded junk ?bs ?d]"
    by (rule nth_equalityI)
      (use s assms(2) in \<open>simp_all add: blocks_def block_at_write nth_list_update\<close>)
  ultimately show ?thesis
    using that by auto
qed

lemma read_loop_ok:
  assumes "io f = Some s\<^sub>0" "length (bytes s) = total_blocks f * block_size f" "fpos s = i * block_size f"
    "i + count \<le> total_blocks f" "0 < block_size f"
  shows "read_loop count f s dest = (dest @ concat (map (block_at (block_size f) (bytes s)) [i..<i + count]),
    f\<lparr>io := Some (s\<lparr>fpos := fpos s + count * block_size f\<rparr>), bf_offset := bf_offset f + count * block_size f\<rparr>)"
  using assms
proof (induction count arbitrary: f s i dest)
  case (Suc count)
  let ?b = "block_at (block_size f) (bytes s) i"
  have "length ?b = block_size f"
    using Suc.prems by (intro block_at_length [of i "total_blocks f"]) simp_all
  moreover have "io_read s (block_size f) = (?b, s\<lparr>fpos := fpos s + length ?b\<rparr>)"
    using Suc.prems(3) by (simp add: io_read_def block_at_def Let_def)
  moreover have "[i..<i + Suc count] = i # [Suc i..<Suc i + count]"
    by (simp add: upt_rec)
  ultimately show ?case
    using Suc.prems
      Suc.IH [of "f\<lparr>bf_offset := bf_offset f + block_size f\<rparr>" "s\<lparr>fpos := fpos s + block_size f\<rparr>" "Suc i" "dest @ ?b"]
    by (simp add: algebra_simps)
qed simp

lemma bf_read_ok:
  assumes "bf_inv f" "index + count \<le> total_blocks f" "total_blocks f < 2 ^ 64"
  obtains g where "bf_read f index count = Some (concat (take count (drop index (blocks f))), g)" "keeps f g"
    "total_blocks g = total_blocks f" "blocks g = blocks f"
proof -
  obtain s where s: "io f = Some s" "fpos s = bf_offset f" "length (bytes s) = total_blocks f * block_size f"
    "length (bytes s) \<le> room s" "0 < block_size f"
    using bf_invE [OF assms(1)] by metis
  let ?bs = "block_size f"
  let ?s = "s\<lparr>fpos := index * ?bs\<rparr>"
  let ?f = "f\<lparr>io := Some ?s, bf_offset := index * ?bs\<rparr>"
  let ?s' = "?s\<lparr>fpos := index * ?bs + count * ?bs\<rparr>"
  let ?g = "?f\<lparr>io := Some ?s', bf_offset := index * ?bs + count * ?bs\<rparr>"
  have "read_loop count ?f ?s [] = (concat (map (block_at ?bs (bytes s)) [index..<index + count]), ?g)"
    using read_loop_ok [of ?f ?s ?s index count "[]"] s assms(2) by simp
  moreover have "take count (drop index (blocks f)) = map (block_at ?bs (bytes s)) [index..<index + count]"
    using assms(2) s(1) by (simp add: blocks_def drop_map take_map)
  moreover have "(index + count) mod 2 ^ 64 = index + count"
    using assms(2,3) by simp
  ultimately have "bf_read f index count = Some (concat (take count (drop index (blocks f))), ?g)"
    using assms s(1) locating_ok [OF assms(1), of index] unfolding bf_read_def by simp
  moreover have "keeps f ?g"
    using s by (intro keepsI [OF assms(1), of _ ?s']) (simp_all add: disk_room_def)
  moreover have "blocks ?g = blocks f"
    using s(1) by (simp add: blocks_def)
  ultimately show ?thesis
    using that by auto
qed

lemma padding_write_end:
  assumes "io f = Some s" "length d \<le> block_size f" "fpos s = length (bytes s)" "length (bytes s) \<le> room s"
    and r: "r = room s - length (bytes s)" and n: "n = min (block_size f) r"
  shows "padding_write junk f d = Some (n,
    f\<lparr>io := Some (s\<lparr>bytes := bytes s @ take r (padded junk (block_size f) d), fpos := length (bytes s) + n\<rparr>),
      bf_offset := bf_offset f + n\<rparr>)"
proof -
  let ?s = "s\<lparr>bytes := bytes s @ take r d, fpos := length (bytes s) + min (length d) r\<rparr>"
  have w: "io_write s d = (min (length d) r, ?s)"
    using io_write_end [OF assms(3,4)] r by simp
  show ?thesis
  proof (cases "length d \<noteq> block_size f \<and> length d \<le> r")
    case False
    then have "min (length d) r = n" "take r d = take r (padded junk (block_size f) d)"
      using assms(2) n by (auto simp: padded_def min_def)
    then show ?thesis
      using w assms(1) False by (auto simp: padding_write_def Let_def)
  next
    case True
    let ?p = "map junk [0..<block_size f - length d]"
    let ?q = "r - length d"
    have "fpos ?s = length (bytes ?s)" "length (bytes ?s) \<le> room ?s" "room ?s - length (bytes ?s) = ?q"
      using True assms(4) r by (auto simp: le_diff_conv2)
    then have w': "io_write ?s ?p = (min (length ?p) ?q, ?s\<lparr>bytes := bytes ?s @ take ?q ?p,
        fpos := length (bytes ?s) + min (length ?p) ?q\<rparr>)"
      using io_write_end [of ?s ?p] by simp
    have len: "min (length d) r + min (length ?p) ?q = n" "bytes ?s @ take ?q ?p = bytes s @ take r (padded junk (block_size f) d)"
      "length (bytes ?s) + min (length ?p) ?q = length (bytes s) + n"
      using True assms(2) n by (auto simp: padded_def min_def)
    have "min (length d) r = length d"
      using True by simp
    then show ?thesis
      unfolding padding_write_def using w w' assms(1) True len by (simp add: Let_def)
  qed
qed

function chunks :: "(nat \<Rightarrow> byte) \<Rightarrow> nat \<Rightarrow> byte list \<Rightarrow> byte list list" where
  "chunks junk bs d = (if bs = 0 \<or> d = [] then [] else padded junk bs (take bs d) # chunks junk bs (drop bs d))"
  by pat_completeness auto
termination
  by (relation "measure (\<lambda>(junk, bs, d). length d)") (auto simp: length_greater_0_conv [symmetric] simp del: length_greater_0_conv)

declare chunks.simps [simp del]

lemma length_chunks: "0 < bs \<Longrightarrow> length (chunks junk bs d) = (length d + bs - 1) div bs"
proof (induction junk bs d rule: chunks.induct)
  case (1 junk bs d)
  show ?case
  proof (cases "d = []")
    case False
    have "(length d + bs - 1) div bs = Suc ((length (drop bs d) + bs - 1) div bs)"
    proof (cases "length d \<ge> bs")
      case True
      then show ?thesis
        using "1.prems" div_add_self2 [of bs "length d - bs + bs - 1"] by (simp add: le_div_geq)
    next
      case short: False
      moreover have "0 < length d"
        using False by simp
      ultimately have "length d + bs - 1 = bs + (length d - 1)" "length d - 1 < bs"
        by linarith+
      then have "(length d + bs - 1) div bs = 1"
        using "1.prems" by (simp add: le_div_geq)
      then show ?thesis
        using short "1.prems" by simp
    qed
    then show ?thesis
      using 1 False by (subst chunks.simps) simp
  qed (use "1.prems" in \<open>simp add: chunks.simps\<close>)
qed

text \<open>How many more blocks the disk has room for.\<close>

definition spare_blocks :: "block_file \<Rightarrow> nat" where
  "spare_blocks f = disk_room f div block_size f - total_blocks f"

lemma write_loop_ok:
  assumes "bf_inv f" "bf_offset f = total_blocks f * block_size f"
  shows "\<exists>g. write_loop junk f d w = Some (min (length (chunks junk (block_size f) d)) (spare_blocks f) * block_size f + w, g) \<and>
    keeps f g \<and> blocks g = blocks f @ take (spare_blocks f) (chunks junk (block_size f) d)"
  using assms
proof (induction "length d" arbitrary: f d w rule: less_induct)
  case less
  obtain s where s: "io f = Some s" "fpos s = bf_offset f" "length (bytes s) = total_blocks f * block_size f"
    "length (bytes s) \<le> room s" "0 < block_size f"
    using bf_invE [OF less.prems(1)] by metis
  let ?bs = "block_size f"
  show ?case
  proof (cases "d = []")
    case True
    then show ?thesis
      using less.prems(1) by (simp add: write_loop.simps chunks.simps keeps_def)
  next
    case False
    let ?p = "padded junk ?bs (take ?bs d)"
    have c: "chunks junk ?bs d = ?p # chunks junk ?bs (drop ?bs d)"
      using False s(5) by (subst chunks.simps) simp
    have cut: "take (if length d > ?bs then ?bs else length d) d = take ?bs d"
      "drop (if length d > ?bs then ?bs else length d) d = drop ?bs d"
      by simp_all
    have len: "length ?p = ?bs" "disk_room f = room s"
      using s(1) by (simp_all add: disk_room_def)
    define r where "r = room s - length (bytes s)"
    have sp: "spare_blocks f = r div ?bs"
    proof -
      have "room s = total_blocks f * ?bs + r"
        using s(3,4) by (simp add: r_def)
      then show ?thesis
        using s(5) unfolding spare_blocks_def len(2) by simp
    qed
    have pw: "padding_write junk f (take ?bs d) = Some (min ?bs r,
        f\<lparr>io := Some (s\<lparr>bytes := bytes s @ take r ?p, fpos := length (bytes s) + min ?bs r\<rparr>),
          bf_offset := bf_offset f + min ?bs r\<rparr>)"
      using s less.prems(2) r_def by (intro padding_write_end) simp_all
    show ?thesis
    proof (cases "r < ?bs")
      case True
      have "min ?bs r = r" "spare_blocks f = 0"
        using True sp by simp_all
      have "length (bytes s) \<le> room s"
        by (rule s(4))
      then have "write_loop junk f d w = Some (w, f\<lparr>io := Some s, bf_offset := total_blocks f * ?bs\<rparr>)"
        using False True pw s less.prems(2)
        by (subst write_loop.simps)
          (simp add: cut write_error_handle_def resize_file_def seek_beg_def Let_def)
      moreover have "f\<lparr>io := Some s, bf_offset := total_blocks f * ?bs\<rparr> = f"
        using s(1) less.prems(2) by simp
      ultimately show ?thesis
        using \<open>spare_blocks f = 0\<close> less.prems(1) by (simp add: keeps_def)
    next
      case False
      let ?s = "s\<lparr>bytes := bytes s @ ?p, fpos := length (bytes s) + ?bs\<rparr>"
      let ?f = "f\<lparr>io := Some ?s, bf_offset := bf_offset f + ?bs, total_blocks := total_blocks f + 1\<rparr>"
      have k: "keeps f ?f"
        using s False r_def less.prems len by (intro keepsI [OF less.prems(1), of _ ?s]) simp_all
      have "spare_blocks f = Suc (spare_blocks ?f)"
      proof -
        have "room s div ?bs \<ge> Suc (total_blocks f)"
          using False s(3,4,5) unfolding r_def by (simp add: less_eq_div_iff_mult_less_eq)
        then show ?thesis
          using s(1) unfolding spare_blocks_def disk_room_def by simp
      qed
      moreover have "blocks ?f = blocks f @ [?p]"
        by (rule nth_equalityI)
          (use s len in \<open>auto simp: blocks_def nth_append block_at_append block_at_new less_Suc_eq\<close>)
      moreover obtain g where "write_loop junk ?f (drop ?bs d) (w + ?bs) =
          Some (min (length (chunks junk ?bs (drop ?bs d))) (spare_blocks ?f) * ?bs + (w + ?bs), g)"
        "keeps ?f g" "blocks g = blocks ?f @ take (spare_blocks ?f) (chunks junk ?bs (drop ?bs d))"
      proof -
        have "length (drop ?bs d) < length d"
          using \<open>d \<noteq> []\<close> s(5) by simp
        moreover have "bf_inv ?f"
          using k by (simp add: keeps_def)
        ultimately show ?thesis
          using less.hyps [of "drop ?bs d" ?f "w + ?bs"] less.prems(2) that by auto
      qed
      moreover have "write_loop junk f d w = write_loop junk ?f (drop ?bs d) (w + ?bs)"
        using \<open>d \<noteq> []\<close> False pw s(5) len by (subst write_loop.simps) (simp add: cut Let_def)
      ultimately show ?thesis
        using keeps_trans [OF k] c by (auto simp: algebra_simps)
    qed
  qed
qed

lemma write_to_back_ok:
  assumes "bf_inv f"
  obtains g where "write_to_back junk f d =
      Some (min (length (chunks junk (block_size f) d)) (spare_blocks f) * block_size f, g)"
    "keeps f g" "blocks g = blocks f @ take (spare_blocks f) (chunks junk (block_size f) d)"
proof -
  obtain s where s: "io f = Some s" "length (bytes s) = total_blocks f * block_size f"
    "length (bytes s) \<le> room s" "0 < block_size f"
    using bf_invE [OF assms] by metis
  let ?f = "f\<lparr>io := Some (s\<lparr>fpos := total_blocks f * block_size f\<rparr>), bf_offset := total_blocks f * block_size f\<rparr>"
  have k: "keeps f ?f"
    using s by (intro keepsI [OF assms, of _ "s\<lparr>fpos := total_blocks f * block_size f\<rparr>"]) (simp_all add: disk_room_def)
  have same: "blocks ?f = blocks f" "spare_blocks ?f = spare_blocks f"
    using s(1) by (simp_all add: blocks_def spare_blocks_def disk_room_def)
  have "bf_inv ?f"
    using k by (simp add: keeps_def)
  from write_loop_ok [OF this, of junk d 0] show ?thesis
    using that k same keeps_trans [OF k] s(1) locating_ok [OF assms, of "total_blocks f"]
    by (auto simp: write_to_back_def)
qed

lemma write_loop_stuck:
  assumes "write_loop junk f d w = Some y"
  shows "block_size f = 0 \<longrightarrow> d = []"
proof (rule write_loop.raw_induct [of "\<lambda>junk f d w y. block_size f = 0 \<longrightarrow> d = []", OF _ assms])
  fix loop :: "(nat \<Rightarrow> byte) \<Rightarrow> block_file \<Rightarrow> byte list \<Rightarrow> nat \<Rightarrow> (nat \<times> block_file) option"
    and junk :: "nat \<Rightarrow> byte" and f :: block_file and d :: "byte list" and w :: nat and y :: "nat \<times> block_file"
  assume IH: "\<And>junk f d w y. loop junk f d w = Some y \<Longrightarrow> block_size f = 0 \<longrightarrow> d = []"
    and body: "(if d = [] then Some (w, f)
      else do {
        let s = (if length d > block_size f then block_size f else length d);
        (written, f) \<leftarrow> padding_write junk f (take s d);
        let f = f\<lparr>total_blocks := total_blocks f + 1\<rparr>;
        if written \<noteq> block_size f
        then do {
          (handled, f) \<leftarrow> write_error_handle f;
          Some ((if handled then 0 else written) + w, f)
        }
        else loop junk f (drop s d) (w + written)
      }) = Some y"
  show "block_size f = 0 \<longrightarrow> d = []"
  proof (rule impI, rule ccontr)
    assume a: "block_size f = 0" "d \<noteq> []"
    obtain s where s: "io f = Some s"
      using body a by (cases "io f") (auto simp: padding_write_def)
    have "loop junk (f\<lparr>io := Some s, total_blocks := total_blocks f + 1\<rparr>) d w = Some y"
      using body a s by (simp add: padding_write_def io_write_def)
    from IH [OF this] show False
      using a by simp
  qed
qed

lemma erase_back_ok:
  assumes "bf_inv f" "count \<le> total_blocks f"
  obtains g where "erase_back_blocks f count = Some (True, g)" "keeps f g"
    "blocks g = take (total_blocks f - count) (blocks f)"
proof -
  obtain s where s: "io f = Some s" "fpos s = bf_offset f" "length (bytes s) = total_blocks f * block_size f"
    "length (bytes s) \<le> room s" "0 < block_size f"
    using bf_invE [OF assms(1)] by metis
  let ?bs = "block_size f"
  define n where "n = total_blocks f - count"
  have n: "n \<le> total_blocks f" "n * ?bs \<le> total_blocks f * ?bs"
    by (simp_all add: n_def)
  have fits: "\<not> n * ?bs > room s"
    using n(2) s(3,4) by linarith
  define p where "p = (if bf_offset f > n * ?bs then n * ?bs else bf_offset f)"
  let ?s = "s\<lparr>fpos := p, bytes := take (n * ?bs) (bytes s)\<rparr>"
  let ?g = "f\<lparr>io := Some ?s, bf_offset := p, total_blocks := n\<rparr>"
  have fs: "f\<lparr>io := Some (s\<lparr>bytes := b\<rparr>), total_blocks := t\<rparr> =
      f\<lparr>io := Some (s\<lparr>fpos := bf_offset f, bytes := b\<rparr>), bf_offset := bf_offset f, total_blocks := t\<rparr>" for b t
    by (simp add: s(2) [symmetric])
  have "resize_file (s\<lparr>fpos := q\<rparr>) (n * ?bs) = Some (s\<lparr>fpos := q, bytes := take (n * ?bs) (bytes s)\<rparr>)"
    "resize_file s (n * ?bs) = Some (s\<lparr>bytes := take (n * ?bs) (bytes s)\<rparr>)" for q
    using n s(3) fits by (simp_all add: resize_file_def)
  then have "erase_back_blocks f count = Some (True, ?g)"
    using assms(2) s(1) locating_ok [OF assms(1) n(1)] fs
    by (auto simp: erase_back_blocks_def n_def [symmetric] p_def Let_def)
  moreover have "keeps f ?g"
    using s n fits by (intro keepsI [OF assms(1), of _ ?s]) (simp_all add: disk_room_def)
  moreover have "blocks ?g = take n (blocks f)"
    by (rule nth_equalityI) (use s n in \<open>simp_all add: blocks_def block_at_take\<close>)
  ultimately show ?thesis
    using that by (simp add: n_def)
qed

text \<open>Growing the file appends blocks of zeros; beyond the room on the disk it changes nothing.\<close>

lemma resize_blocks_ok:
  assumes "bf_inv f" "total_blocks f \<le> n"
  shows "if n * block_size f \<le> disk_room f
    then \<exists>g. resize_file_total_blocks f n = Some (True, g) \<and> keeps f g \<and>
      blocks g = blocks f @ replicate (n - total_blocks f) (replicate (block_size f) 0)
    else resize_file_total_blocks f n = Some (False, f)"
proof -
  obtain s where s: "io f = Some s" "fpos s = bf_offset f" "length (bytes s) = total_blocks f * block_size f"
    "length (bytes s) \<le> room s" "0 < block_size f"
    using bf_invE [OF assms(1)] by metis
  let ?bs = "block_size f"
  let ?b = "bytes s @ replicate (n * ?bs - length (bytes s)) 0"
  let ?g = "f\<lparr>io := Some (s\<lparr>bytes := ?b\<rparr>), total_blocks := n\<rparr>"
  show ?thesis
  proof (cases "n * ?bs \<le> room s")
    case True
    have le: "total_blocks f * ?bs \<le> n * ?bs"
      using assms(2) by simp
    have "resize_file_total_blocks f n = Some (True, ?g)"
      using True s le by (simp add: resize_file_total_blocks_def resize_file_def)
    moreover have "keeps f ?g"
      using s True le by (intro keepsI [OF assms(1), of _ "s\<lparr>bytes := ?b\<rparr>"]) (simp_all add: disk_room_def)
    moreover have "blocks ?g = blocks f @ replicate (n - total_blocks f) (replicate ?bs 0)"
    proof (rule nth_equalityI)
      fix j
      assume "j < length (blocks ?g)"
      then have j: "j < n"
        by simp
      show "blocks ?g ! j = (blocks f @ replicate (n - total_blocks f) (replicate ?bs 0)) ! j"
      proof (cases "j < total_blocks f")
        case True
        then show ?thesis
          using s j by (simp add: blocks_def nth_append block_at_append)
      next
        case False
        then have "length (bytes s) \<le> j * ?bs"
          using s(3) by simp
        then show ?thesis
          using False j s next_block_le [OF j, of ?bs]
          by (simp add: blocks_def nth_append block_at_def diff_diff_left [symmetric] min_def)
      qed
    qed (use assms(2) in simp)
    ultimately show ?thesis
      using True s(1) by (auto simp: disk_room_def)
  qed (use s(1) in \<open>simp add: resize_file_total_blocks_def resize_file_def disk_room_def\<close>)
qed

section \<open>The properties of block files\<close>

text \<open>
  Property C18. A block file implements an array of blocks: \<open>update\<close> replaces one block (padding
  a short one), \<open>read\<close> returns the bytes of consecutive blocks, \<open>erase_back_blocks\<close> drops the last ones, and
  each leaves the stream and the bookkeeping consistent for the next operation.
\<close>

theorem block_file_is_array:
  assumes "bf_inv f" "total_blocks f < 2 ^ 64"
  shows "(i < total_blocks f \<longrightarrow> (\<exists>g. bf_update junk f d i = Some (block_size f, g) \<and> bf_inv g \<and>
      blocks g = (blocks f)[i := padded junk (block_size f) (take (block_size f) d)])) \<and>
    (i + n \<le> total_blocks f \<longrightarrow> (\<exists>g. bf_read f i n = Some (concat (take n (drop i (blocks f))), g) \<and> bf_inv g \<and>
      blocks g = blocks f)) \<and>
    (n \<le> total_blocks f \<longrightarrow> (\<exists>g. erase_back_blocks f n = Some (True, g) \<and> bf_inv g \<and>
      blocks g = take (total_blocks f - n) (blocks f)))"
proof (intro conjI impI)
  assume "i < total_blocks f"
  from bf_update_ok [OF assms(1) this, of junk d] show "\<exists>g. bf_update junk f d i = Some (block_size f, g) \<and> bf_inv g \<and>
      blocks g = (blocks f)[i := padded junk (block_size f) (take (block_size f) d)]"
    by (metis keeps_def)
next
  assume "i + n \<le> total_blocks f"
  from bf_read_ok [OF assms(1) this assms(2)] show "\<exists>g. bf_read f i n = Some (concat (take n (drop i (blocks f))), g) \<and>
      bf_inv g \<and> blocks g = blocks f"
    by (metis keeps_def)
next
  assume "n \<le> total_blocks f"
  from erase_back_ok [OF assms(1) this] show "\<exists>g. erase_back_blocks f n = Some (True, g) \<and> bf_inv g \<and>
      blocks g = take (total_blocks f - n) (blocks f)"
    by (metis keeps_def)
qed



text \<open>A default-constructed block file cannot be opened: its block size is 0 and nothing sets it.\<close>

lemma default_open_divides_by_zero:
  "bf_open bf_default (io_open True capacity existing appending) True = Inl Division_by_zero"
  by (simp add: bf_open_def bf_default_def io_open_def)

section \<open>Concrete runs\<close>

text \<open>A file of two blocks of two bytes on a disk with room for seven bytes.\<close>

definition small_file :: block_file where
  "small_file = \<lparr>io = Some \<lparr>bytes = [1, 2, 3, 4], fpos = 0, room = 7\<rparr>, bf_offset = 0, total_blocks = 2, block_size = 2\<rparr>"

lemma small_file_inv: "bf_inv small_file" "total_blocks small_file = 2" "block_size small_file = 2"
  "blocks small_file = [[1, 2], [3, 4]]"
  by (simp_all add: small_file_def bf_inv_def blocks_def block_at_def numeral_2_eq_2 upt_rec)

lemma small_file_room: "disk_room small_file = 7"
  by (simp add: small_file_def disk_room_def)

lemma block_file_is_array_witness:
  "\<exists>g. bf_update (\<lambda>_. 0) small_file [9] 1 = Some (2, g) \<and> blocks g = [[1, 2], [9, 0]]"
  using block_file_is_array [OF small_file_inv(1), of 1 "\<lambda>_. 0" "[9]" 1]
  by (auto simp: small_file_inv padded_def)



end
