(* ===== verification/Scheduler.thy ===== *)
theory Scheduler
  imports BlockFile BufferPool LRUCache
begin

text \<open>
  The block scheduler of the B+ tree (\<open>Base/BPTree_impls/Impl_Scheduler.hpp\<close> and
  \<open>Base/BPTree_impls/src/Impl_Scheduler.cpp\<close>): the LRU cache over a helper that takes its buffers from a
  buffer pool and its blocks from a block file. A value is a buffer and the memory behind its pointer;
  \<open>junk\<close> is the memory of a buffer nobody has written. The scheduler's mutex makes each operation one step.
\<close>

section \<open>The helper\<close>

type_synonym memory = "nat \<Rightarrow> byte"
type_synonym page = "buffer \<times> memory"

record lru_helper =
  memory_pool :: pool
  hfile :: block_file
  h_total_blocks :: nat
  need_read_from_file :: bool
  aborted :: bool

datatype sched_error = Failed_to_open | Block_size_mismatch

definition mem_bytes :: "memory \<Rightarrow> byte list" where
  "mem_bytes m = map m [0..<BLOCK_SIZE]"

definition page_bytes :: "page \<Rightarrow> byte list" where
  "page_bytes v = mem_bytes (snd v)"

definition lru_helper_new :: "pool \<Rightarrow> block_file \<Rightarrow> sched_error + lru_helper" where
  "lru_helper_new p f =
     (if io f = None then Inl Failed_to_open
      else if block_size f \<noteq> BLOCK_SIZE then Inl Block_size_mismatch
      else Inr \<lparr>memory_pool = p, hfile = f, h_total_blocks = total_blocks f, need_read_from_file = False, aborted = False\<rparr>)"

definition lru_can_create :: "lru_helper \<Rightarrow> nat \<Rightarrow> nat \<Rightarrow> bool" where
  "lru_can_create h n index = (case max_block (memory_pool h) of None \<Rightarrow> False | Some m \<Rightarrow> m \<ge> BLOCK_SIZE)"

text \<open>\<open>create\<close> throws when the block cannot be read; the buffer goes back to the pool.\<close>

definition lru_create :: "memory \<Rightarrow> lru_helper \<Rightarrow> nat \<Rightarrow> (page \<times> lru_helper) option" where
  "lru_create junk h index = do {
     (buffer, p) \<leftarrow> pool_get (memory_pool h) BLOCK_SIZE;
     if need_read_from_file h
     then do {
       (data, f) \<leftarrow> bf_read (hfile h) index 1;
       check (length data = BLOCK_SIZE);
       Some ((buffer, \<lambda>i. data ! i), h\<lparr>memory_pool := p, hfile := f\<rparr>)
     }
     else Some ((buffer, junk), h\<lparr>memory_pool := p\<rparr>)
   }"

definition lru_update :: "memory \<Rightarrow> lru_helper \<Rightarrow> nat \<Rightarrow> page \<Rightarrow> lru_helper option" where
  "lru_update junk h index v = do {
     f \<leftarrow> (if index \<ge> total_blocks (hfile h)
          then do {
            (success, f) \<leftarrow> resize_file_total_blocks (hfile h) (h_total_blocks h);
            check success;
            Some f
          } else Some (hfile h));
     check (index \<le> total_blocks f);
     (n, f) \<leftarrow> bf_update junk f (page_bytes v) index;
     check (n = BLOCK_SIZE);
     Some (h\<lparr>hfile := f\<rparr>)
   }"

text \<open>The destructor of \<open>Buffer\<close> returns it to the pool; a failed assertion there ends the process.\<close>

definition lru_drop :: "lru_helper \<Rightarrow> page \<Rightarrow> lru_helper" where
  "lru_drop h v = (case pool_put (memory_pool h) (fst v) of None \<Rightarrow> h\<lparr>aborted := True\<rparr> | Some p \<Rightarrow> h\<lparr>memory_pool := p\<rparr>)"

definition sched_fns :: "memory \<Rightarrow> (lru_helper, nat, page) helper_fns" where
  "sched_fns junk = \<lparr>h_can_create = lru_can_create, h_create = lru_create junk, h_update = lru_update junk,
     h_release = None, h_release_key = (\<lambda>h k. h), h_erase = (\<lambda>h k. None), h_drop = lru_drop\<rparr>"

section \<open>The scheduler\<close>

type_synonym scheduler = "(lru_helper, nat, page) cache"

definition set_need_read :: "bool \<Rightarrow> scheduler \<Rightarrow> scheduler" where
  "set_need_read b c = c\<lparr>helper := (helper c)\<lparr>need_read_from_file := b\<rparr>\<rparr>"

definition set_total :: "nat \<Rightarrow> scheduler \<Rightarrow> scheduler" where
  "set_total n c = c\<lparr>helper := (helper c)\<lparr>h_total_blocks := n\<rparr>\<rparr>"

text \<open>\<open>get_block()\<close> returns the number of a new block, counted in 32 bits.\<close>

definition get_new_block :: "memory \<Rightarrow> int \<Rightarrow> scheduler \<Rightarrow> (nat, scheduler) outcome" where
  "get_new_block junk now c =
     then_do (cache_get (sched_fns junk) (set_need_read False c) now (h_total_blocks (helper c)))
       (\<lambda>_ d. Ok (h_total_blocks (helper d)) (set_total ((h_total_blocks (helper d) + 1) mod 2 ^ 32) d))"

definition get_block :: "memory \<Rightarrow> int \<Rightarrow> scheduler \<Rightarrow> nat \<Rightarrow> bool \<Rightarrow> (unit, scheduler) outcome" where
  "get_block junk now c index read_data =
     (if index < h_total_blocks (helper c) then cache_get (sched_fns junk) (set_need_read read_data c) now index else Stuck)"

definition put_block :: "int \<Rightarrow> scheduler \<Rightarrow> nat \<Rightarrow> bool \<Rightarrow> (unit, scheduler) outcome" where
  "put_block now c index need_update =
     (if index < h_total_blocks (helper c) then sure (cache_put c now index need_update) else Stuck)"

definition invoke :: "memory \<Rightarrow> scheduler \<Rightarrow> (unit, scheduler) outcome" where
  "invoke junk c = update_all_with_order (sched_fns junk) (<) c"

section \<open>The helper is a backing store\<close>

definition disk :: "lru_helper \<Rightarrow> nat \<Rightarrow> byte list" where
  "disk h k = (if k < total_blocks (hfile h) then blocks (hfile h) ! k else replicate BLOCK_SIZE 0)"

definition file_ok :: "lru_helper \<Rightarrow> bool" where
  "file_ok h \<longleftrightarrow> bf_inv (hfile h) \<and> block_size (hfile h) = BLOCK_SIZE \<and>
     total_blocks (hfile h) \<le> h_total_blocks h \<and> h_total_blocks h < 2 ^ 32"

lemma page_bytes_length [simp]: "length (page_bytes v) = BLOCK_SIZE"
  by (simp add: page_bytes_def mem_bytes_def)

lemma padded_full [simp]: "length d = n \<Longrightarrow> padded junk n d = d"
  by (simp add: padded_def)

lemma file_update_ok:
  assumes "bf_inv f" "block_size f = BLOCK_SIZE" "k < total_blocks f"
  obtains g where "bf_update junk f (page_bytes v) k = Some (BLOCK_SIZE, g)" "bf_inv g" "block_size g = BLOCK_SIZE"
    "total_blocks g = total_blocks f" "blocks g = (blocks f)[k := page_bytes v]"
proof (rule bf_update_ok [OF assms(1,3), of junk "page_bytes v"])
  fix g
  assume "bf_update junk f (page_bytes v) k = Some (block_size f, g)" "keeps f g" "total_blocks g = total_blocks f"
    "blocks g = (blocks f)[k := padded junk (block_size f) (take (block_size f) (page_bytes v))]"
  then show thesis
    using that assms(2) by (simp add: keeps_def)
qed

lemma lru_update_law:
  assumes "file_ok h" "lru_update junk h k v = Some h'"
  shows "disk h' = (disk h)(k := page_bytes v) \<and> file_ok h'"
proof -
  let ?f = "hfile h"
  have f: "bf_inv ?f" "block_size ?f = BLOCK_SIZE" "total_blocks ?f \<le> h_total_blocks h" "h_total_blocks h < 2 ^ 32"
    using assms(1) by (auto simp: file_ok_def)
  obtain f1 where f1: "bf_inv f1" "block_size f1 = BLOCK_SIZE" "total_blocks f1 \<le> h_total_blocks h"
      "disk (h\<lparr>hfile := f1\<rparr>) = disk h"
      "lru_update junk h k v = do {
         check (k \<le> total_blocks f1);
         (n, f) \<leftarrow> bf_update junk f1 (page_bytes v) k;
         check (n = BLOCK_SIZE);
         Some (h\<lparr>hfile := f\<rparr>)
       }"
  proof (cases "k \<ge> total_blocks ?f")
    case False
    then show ?thesis
      using f by (intro that [of ?f]) (simp_all add: lru_update_def check_def)
  next
    case True
    show ?thesis
    proof (cases "h_total_blocks h * BLOCK_SIZE \<le> disk_room ?f")
      case False
      then show ?thesis
        using True resize_blocks_ok [OF f(1,3)] f(2) assms(2) by (simp add: lru_update_def check_def)
    next
      case fits: True
      then obtain g where g: "resize_file_total_blocks ?f (h_total_blocks h) = Some (True, g)" "keeps ?f g"
        "blocks g = blocks ?f @ replicate (h_total_blocks h - total_blocks ?f) (replicate BLOCK_SIZE 0)"
        using resize_blocks_ok [OF f(1,3)] f(2) by auto
      have n: "total_blocks g = h_total_blocks h"
        using g(3) f(3) length_blocks [of g] by simp
      have "disk (h\<lparr>hfile := g\<rparr>) = disk h"
        using f(3) by (auto simp: disk_def g(3) n nth_append fun_eq_iff)
      then show ?thesis
        using that [of g] g(1,2) n True f(2) by (simp add: lru_update_def keeps_def check_def)
    qed
  qed
  have k: "k < total_blocks f1"
    using assms(2) f1(5) by (rule_tac ccontr) (auto simp: bf_update_def check_def BLOCK_SIZE_def split: if_splits)
  obtain g where g: "bf_update junk f1 (page_bytes v) k = Some (BLOCK_SIZE, g)" "bf_inv g" "block_size g = BLOCK_SIZE"
    "total_blocks g = total_blocks f1" "blocks g = (blocks f1)[k := page_bytes v]"
    using file_update_ok [OF f1(1,2) k, of junk v] by metis
  have h': "h' = h\<lparr>hfile := g\<rparr>"
    using assms(2) g(1) k by (simp add: f1(5) check_def)
  have "disk h' = (disk (h\<lparr>hfile := f1\<rparr>))(k := page_bytes v)"
    using k g(4,5) by (auto simp: h' disk_def fun_eq_iff nth_list_update)
  then show ?thesis
    using f f1 g by (simp add: h' file_ok_def)
qed

lemma lru_create_law:
  assumes "file_ok h" "lru_create junk h k = Some (v, h')"
  shows "disk h' = disk h \<and> file_ok h' \<and> need_read_from_file h' = need_read_from_file h \<and>
    page_bytes v = (if need_read_from_file h then disk h k else mem_bytes junk)"
proof -
  obtain b p where p: "pool_get (memory_pool h) BLOCK_SIZE = Some (b, p)"
    using assms(2) by (auto simp: lru_create_def split: bind_splits)
  show ?thesis
  proof (cases "need_read_from_file h")
    case False
    then show ?thesis
      using assms p by (auto simp: lru_create_def page_bytes_def mem_bytes_def file_ok_def disk_def)
  next
    case True
    have f: "bf_inv (hfile h)" "block_size (hfile h) = BLOCK_SIZE" "total_blocks (hfile h) < 2 ^ 64"
      "total_blocks (hfile h) + 1 < 2 ^ 64"
      using assms(1) by (auto simp: file_ok_def)
    show ?thesis
    proof (cases "k < total_blocks (hfile h)")
      case False
      then have "bf_read (hfile h) k 1 = Some ([], hfile h)"
        using f(4) by (cases "k = total_blocks (hfile h)") (simp_all add: bf_read_def locating_def)
      then show ?thesis
        using assms(2) p True by (simp add: lru_create_def check_def BLOCK_SIZE_def)
    next
      case k: True
      obtain g where g: "bf_read (hfile h) k 1 = Some (concat (take 1 (drop k (blocks (hfile h)))), g)" "keeps (hfile h) g"
        "total_blocks g = total_blocks (hfile h)" "blocks g = blocks (hfile h)"
        using bf_read_ok [OF f(1) _ f(3), of k 1] k by (metis Suc_eq_plus1 Suc_leI)
      have b: "concat (take 1 (drop k (blocks (hfile h)))) = blocks (hfile h) ! k"
        using k by (simp add: take_Suc_conv_app_nth hd_drop_conv_nth take_Suc)
      have "length (blocks (hfile h) ! k) = BLOCK_SIZE \<and> v = (b, \<lambda>i. blocks (hfile h) ! k ! i) \<and>
          h' = h\<lparr>memory_pool := p, hfile := g\<rparr>"
        using assms(2) p True b by (auto simp: lru_create_def g(1) check_def simp del: One_nat_def split: if_splits)
      then show ?thesis
        using assms g(2-4) True k map_nth [of "blocks (hfile h) ! k"]
        by (auto simp: page_bytes_def mem_bytes_def disk_def file_ok_def keeps_def)
    qed
  qed
qed

lemma lru_drop_law: "disk (lru_drop h v) = disk h \<and> file_ok (lru_drop h v) = file_ok h \<and>
    need_read_from_file (lru_drop h v) = need_read_from_file h"
  by (auto simp: lru_drop_def disk_def file_ok_def split: option.splits)
lemma lru_update_flag: "lru_update junk h k v = Some h' \<Longrightarrow> need_read_from_file h' = need_read_from_file h"
  by (auto simp: lru_update_def split: bind_splits)

text \<open>Whatever the flag, the helper is a medium; while it says to read, it is a store.\<close>

definition steady :: "bool \<Rightarrow> lru_helper \<Rightarrow> bool" where
  "steady b h \<longleftrightarrow> file_ok h \<and> need_read_from_file h = b"

interpretation medium: backing_medium "sched_fns junk" page_bytes disk "steady b" for junk b
  by unfold_locales (auto simp: sched_fns_def steady_def lru_drop_law lru_update_flag dest: lru_update_law)

interpretation loaded: backing_store "sched_fns junk" page_bytes disk "steady True" for junk
  by unfold_locales (auto simp: sched_fns_def steady_def dest: lru_create_law)

section \<open>The clients of the scheduler\<close>

text \<open>
  A client takes blocks, writes through the pointers it holds and gives them back. \<open>mem\<close> is the content
  of every block as the clients see it; \<open>W\<close> are the blocks written, or taken without being read, that
  their holder must put back with \<open>need_update\<close>.
\<close>

datatype sched_op = New int | Fetch int nat bool | Store nat memory | Give int nat bool | Invoke

definition store_memory :: "scheduler \<Rightarrow> nat \<Rightarrow> memory \<Rightarrow> (unit, scheduler) outcome" where
  "store_memory c k m = (case map_of (cmap c) k of None \<Rightarrow> Stuck
     | Some n \<Rightarrow> Ok () (set_node c k (n\<lparr>c_value := (fst (c_value n), m)\<rparr>)))"

fun sched_step :: "memory \<Rightarrow> sched_op \<Rightarrow> scheduler \<Rightarrow> (unit, scheduler) outcome" where
  "sched_step junk (New now) c = then_do (get_new_block junk now c) (\<lambda>_ d. Ok () d)"
| "sched_step junk (Fetch now k read) c = get_block junk now c k read"
| "sched_step junk (Store k m) c = store_memory c k m"
| "sched_step junk (Give now k need) c = put_block now c k need"
| "sched_step junk Invoke c = invoke junk c"

definition cached :: "scheduler \<Rightarrow> nat \<Rightarrow> bool" where
  "cached c k \<longleftrightarrow> map_of (cmap c) k \<noteq> None"

fun sched_ok :: "sched_op \<Rightarrow> scheduler \<Rightarrow> nat set \<Rightarrow> bool" where
  "sched_ok (New now) c W \<longleftrightarrow> h_total_blocks (helper c) + 1 < 2 ^ 32"
| "sched_ok (Fetch now k read) c W \<longleftrightarrow> k < h_total_blocks (helper c) \<and>
     (\<forall>n. map_of (cmap c) k = Some n \<longrightarrow> c_inst n + 1 \<noteq> 0)"
| "sched_ok (Store k m) c W \<longleftrightarrow> held c k"
| "sched_ok (Give now k need) c W \<longleftrightarrow> held c k \<and> (need \<or> k \<notin> W)"
| "sched_ok Invoke c W \<longleftrightarrow> True"

text \<open>The new block, or a block taken without being read, holds whatever its buffer held.\<close>

fun sched_mem :: "memory \<Rightarrow> sched_op \<Rightarrow> scheduler \<Rightarrow> (nat \<Rightarrow> byte list) \<Rightarrow> nat \<Rightarrow> byte list" where
  "sched_mem junk (New now) c mem = mem(h_total_blocks (helper c) := mem_bytes junk)"
| "sched_mem junk (Fetch now k read) c mem = (if read \<or> cached c k then mem else mem(k := mem_bytes junk))"
| "sched_mem junk (Store k m) c mem = mem(k := mem_bytes m)"
| "sched_mem junk _ c mem = mem"

fun sched_written :: "sched_op \<Rightarrow> scheduler \<Rightarrow> nat set \<Rightarrow> nat set" where
  "sched_written (New now) c W = insert (h_total_blocks (helper c)) W"
| "sched_written (Fetch now k read) c W = (if read \<or> cached c k then W else insert k W)"
| "sched_written (Store k m) c W = insert k W"
| "sched_written (Give now k need) c W = (if need then W - {k} else W)"
| "sched_written Invoke c W = W"

inductive sched_reach :: "memory \<Rightarrow> lru_helper \<Rightarrow> scheduler \<Rightarrow> nat set \<Rightarrow> (nat \<Rightarrow> byte list) \<Rightarrow> bool" for junk h where
  sreach_new: "sched_reach junk h (cache_new h) {} (disk h)"
| sreach_step: "sched_reach junk h c W mem \<Longrightarrow> sched_ok op c W \<Longrightarrow> sched_step junk op c = Ok () d \<Longrightarrow>
    sched_reach junk h d (sched_written op c W) (sched_mem junk op c mem)"
| sreach_throw: "sched_reach junk h c W mem \<Longrightarrow> sched_ok op c W \<Longrightarrow> sched_step junk op c = Throw d \<Longrightarrow>
    op \<noteq> Invoke \<Longrightarrow> sched_reach junk h d W mem"

section \<open>Blocks are memory\<close>

definition sched_coherent :: "scheduler \<Rightarrow> nat set \<Rightarrow> (nat \<Rightarrow> byte list) \<Rightarrow> bool" where
  "sched_coherent c W mem \<longleftrightarrow> coherent page_bytes disk c W mem \<and> file_ok (helper c) \<and>
     (\<forall>k. cached c k \<longrightarrow> k < h_total_blocks (helper c))"

lemma page_bytes_eq [simp]: "page_bytes (b, m) = mem_bytes m"
  by (simp add: page_bytes_def)

lemma disk_flags [simp]: "disk (h\<lparr>need_read_from_file := b\<rparr>) = disk h" "disk (h\<lparr>h_total_blocks := n\<rparr>) = disk h"
  "file_ok (h\<lparr>need_read_from_file := b\<rparr>) = file_ok h"
  by (simp_all add: disk_def file_ok_def fun_eq_iff)

lemma coherent_flags:
  "coherent page_bytes disk c W mem \<Longrightarrow> coherent page_bytes disk (set_need_read b c) W mem"
  "coherent page_bytes disk c W mem \<Longrightarrow> coherent page_bytes disk (set_total n c) W mem"
  unfolding set_need_read_def set_total_def by (auto intro: coherent_helper)

lemma flags_sel [simp]: "cmap (set_need_read b c) = cmap c" "cmap (set_total n c) = cmap c"
  "helper (set_need_read b c) = (helper c)\<lparr>need_read_from_file := b\<rparr>"
  "helper (set_total n c) = (helper c)\<lparr>h_total_blocks := n\<rparr>"
  by (simp_all add: set_need_read_def set_total_def)

lemma coherent_grow: "coherent view peek c W mem \<Longrightarrow> held c k \<Longrightarrow> coherent view peek c (insert k W) mem"
  unfolding coherent_def held_def by auto

text \<open>What the operations of the cache keep: the number of blocks, and only the key asked for is new.\<close>

lemma lru_keeps_total:
  "lru_update junk h k v = Some h' \<Longrightarrow> h_total_blocks h' = h_total_blocks h"
  "lru_create junk h k = Some (v, h') \<Longrightarrow> h_total_blocks h' = h_total_blocks h"
  "h_total_blocks (lru_drop h v) = h_total_blocks h"
  by (auto simp: lru_update_def lru_create_def lru_drop_def split: bind_splits if_splits option.splits)

lemma evicts_total: "evicts (sched_fns junk) c d \<Longrightarrow> h_total_blocks (helper d) = h_total_blocks (helper c)"
  by (induction rule: evicts.induct)
    (auto simp: discard_def evict_def rel_helper_def sched_fns_def unqueue_def lru_keeps_total)

lemma evicts_cached: "evicts (sched_fns junk) c d \<Longrightarrow> cached d k \<Longrightarrow> cached c k"
  using evicts_map [of "sched_fns junk" c d k] by (metis cached_def)

section \<open>The buffers of the cached blocks\<close>

definition bufs :: "scheduler \<Rightarrow> nat \<Rightarrow> buffer option" where
  "bufs c k = map_option (\<lambda>n. fst (c_value n)) (map_of (cmap c) k)"

text \<open>Every cached block has a buffer of its own, and the pool has given out exactly those.\<close>

definition resident :: "nat \<Rightarrow> scheduler \<Rightarrow> bool" where
  "resident D c \<longleftrightarrow> \<not> aborted (helper c) \<and> None \<notin> ran (bufs c) \<and> inj_on (bufs c) (dom (bufs c)) \<and>
     pool_live D (memory_pool (helper c)) (the ` ran (bufs c))"

definition same_place :: "scheduler \<Rightarrow> scheduler \<Rightarrow> bool" where
  "same_place c d \<longleftrightarrow> bufs d = bufs c \<and> memory_pool (helper d) = memory_pool (helper c) \<and>
     aborted (helper d) = aborted (helper c) \<and> h_total_blocks (helper d) = h_total_blocks (helper c)"

lemma cached_bufs: "cached c k \<longleftrightarrow> bufs c k \<noteq> None"
  by (simp add: cached_def bufs_def)

lemma same_placeD:
  assumes "same_place c d"
  shows "resident D d = resident D c" "cached d k = cached c k" "h_total_blocks (helper d) = h_total_blocks (helper c)"
  using assms by (simp_all add: same_place_def resident_def cached_bufs)

lemma set_node_bufs: "bufs (set_node c k n) = (bufs c)(k := Some (fst (c_value n)))"
  by (auto simp: bufs_def update_conv')

lemma get_hit_place:
  assumes "cache_inv c" "map_of (cmap c) k = Some n" "c_inst n + 1 \<noteq> 0" "cache_get H c now k = Ok () d"
  shows "same_place c d"
proof -
  have "bufs (set_node c' k n') = bufs c" if "cmap c' = cmap c" "c_value n' = c_value n" for c' n'
    using that assms(2) by (auto simp: set_node_bufs bufs_def)
  then show ?thesis
    using assms(2,4) get_change_ok [OF assms(1-3)]
    by (cases "c_inst n = 0") (auto simp: same_place_def cache_get_def sure_def unqueue_def)
qed

lemma put_place:
  assumes "cache_inv c" "map_of (cmap c) k = Some n" "c_inst n \<noteq> 0" "cache_put c now k need = Some d"
  shows "same_place c d"
proof -
  have *: "bufs (set_node c' k n') = bufs c'" if "map_of (cmap c') k = Some n''" "c_value n' = c_value n''" for c' n' n''
    using that by (auto simp: set_node_bufs bufs_def)
  define n1 where "n1 = (if need then n\<lparr>c_need_update := True\<rparr> else n)"
  define c1 where "c1 = (if need then set_node c k (n\<lparr>c_need_update := True\<rparr>) else c)"
  have "cache_inv c1" "map_of (cmap c1) k = Some n1" "c_inst n1 \<noteq> 0"
    using assms(1-3) mark_inv [OF assms(1-3), of True] by (simp_all add: c1_def n1_def update_conv')
  note p = put_change_ok [OF this, of now]
  have v: "bufs c1 = bufs c" "helper c1 = helper c"
    using assms(2) * [of c n] by (simp_all add: c1_def)
  have "put_change c1 now k = Some d"
    using assms(2,4) by (simp add: cache_put_def c1_def)
  then show ?thesis
    using p v * [OF \<open>map_of (cmap c1) k = Some n1\<close>] * [of "requeue c1 k (put_node c1 now n1)" n1 "put_node c1 now n1"]
      \<open>map_of (cmap c1) k = Some n1\<close>
    by (auto simp: same_place_def requeue_def put_node_def Let_def bufs_def fun_eq_iff split: if_splits)
qed

lemma lru_update_place: "lru_update junk h k v = Some h' \<Longrightarrow> memory_pool h' = memory_pool h \<and> aborted h' = aborted h"
  by (auto simp: lru_update_def split: bind_splits)

lemma writes_place:
  "writes (sched_fns junk) h kvs = Some h' \<Longrightarrow> memory_pool h' = memory_pool h \<and> aborted h' = aborted h \<and>
    h_total_blocks h' = h_total_blocks h \<and> need_read_from_file h' = need_read_from_file h"
proof (induction kvs arbitrary: h)
  case (Cons kv kvs)
  obtain k v where kv: "kv = (k, v)"
    by (cases kv)
  obtain h1 where h1: "lru_update junk h k v = Some h1" "writes (sched_fns junk) h1 kvs = Some h'"
    using Cons.prems kv by (auto simp: sched_fns_def split: bind_splits)
  then show ?case
    using Cons.IH [OF h1(2)] lru_update_place lru_keeps_total(1) lru_update_flag by metis
qed simp

lemma invoke_place:
  assumes "cache_inv c" "invoke junk c = Ok () d"
  shows "same_place c d" "need_read_from_file (helper d) = need_read_from_file (helper c)"
proof -
  obtain ks where ks: "set ks = snd ` set (q_obsolete c)" "distinct ks"
    "invoke junk c = then_do (update_nodes (sched_fns junk) ks c) (\<lambda>_ c. Ok () (c\<lparr>q_obsolete := []\<rparr>))"
    unfolding invoke_def using update_ordered_ok [OF assms(1)] by metis
  then obtain h e where e: "writes (sched_fns junk) (helper c) (map (\<lambda>k. (k, node_value c k)) ks) = Some h"
      "d = e\<lparr>q_obsolete := []\<rparr>" "flushed (snd ` set (q_obsolete c)) c e" "helper e = h"
    using flush_ok [OF assms(1) ks(1,2), of "sched_fns junk"] assms(2) by (auto split: option.splits)
  have "bufs d = bufs c"
    using e(2,3) by (auto simp: fun_eq_iff bufs_def flushed_def option.map_comp comp_def)
  then show "same_place c d" "need_read_from_file (helper d) = need_read_from_file (helper c)"
    using writes_place [OF e(1)] e(2,4) by (simp_all add: same_place_def)
qed

lemma pool_live_put:
  assumes "pool_live D p L" "r \<in> L"
  obtains p' where "pool_put p (Some r) = Some p'" "pool_live D p' (L - {r})"
  using pool.put_law [OF assms] by blast

lemma discard_place:
  assumes "resident D c" "map_of (cmap c) k = Some n"
  shows "resident D (discard (sched_fns junk) c k n)"
proof -
  let ?d = "discard (sched_fns junk) c k n"
  have b: "bufs c k = Some (fst (c_value n))"
    using assms(2) by (simp add: bufs_def)
  then obtain r where r: "fst (c_value n) = Some r"
    using assms(1) by (metis not_None_eq ranI resident_def)
  have bd: "bufs ?d = (bufs c)(k := None)"
    by (auto simp: bufs_def delete_conv')
  have "r \<in> the ` ran (bufs c)"
    using b r by (force simp: ran_def)
  then obtain p' where p': "pool_put (memory_pool (helper c)) (Some r) = Some p'" "pool_live D p' (the ` ran (bufs c) - {r})"
    using pool_live_put assms(1) unfolding resident_def by metis
  have inj: "i = k" if "bufs c i = Some (Some r)" for i
    using assms(1) b r that unfolding resident_def by (metis domI inj_onD)
  have "ran ((bufs c)(k := None)) = ran (bufs c) - {Some r}"
    using b r by (auto simp: ran_def dest: inj) (metis option.inject)
  moreover have "the ` (R - {Some r}) = the ` R - {r}" if "None \<notin> R" for R :: "buffer set"
    using that by (auto simp: image_iff) (metis option.collapse)+
  moreover have "inj_on ((bufs c)(k := None)) (dom ((bufs c)(k := None)))"
    using assms(1) by (auto simp: resident_def inj_on_def dom_def)
  moreover have "helper ?d = (helper c)\<lparr>memory_pool := p'\<rparr>"
    using r p'(1) by (simp add: discard_def evict_def unqueue_def rel_helper_def sched_fns_def lru_drop_def)
  ultimately show ?thesis
    using assms(1) p'(2) by (auto simp: resident_def bd)
qed

lemma bufs_helper [simp]: "bufs (d\<lparr>helper := h\<rparr>) = bufs d"
  by (simp add: bufs_def fun_eq_iff)

lemma evicts_resident: "evicts (sched_fns junk) c d \<Longrightarrow> resident D c \<Longrightarrow> resident D d"
proof (induction rule: evicts.induct)
  case (evicts_dirty d k n h)
  have "lru_update junk (helper d) k (c_value n) = Some h"
    using evicts_dirty.hyps by (simp add: sched_fns_def)
  then have "resident D (d\<lparr>helper := h\<rparr>)"
    using lru_update_place [of junk "helper d" k "c_value n" h] evicts_dirty by (simp add: resident_def bufs_def)
  then show ?case
    using discard_place [of D "d\<lparr>helper := h\<rparr>" k n] evicts_dirty.hyps(2) by simp
qed (auto intro: discard_place)

lemma pool_get_fits:
  assumes "pool_live D p L" "max_block p = Some m" "BLOCK_SIZE \<le> m"
  obtains r p' where "pool_get p BLOCK_SIZE = Some (Some r, p')" "r \<notin> L" "pool_live D p' (insert r L)"
proof -
  obtain b p' where g: "pool_get p BLOCK_SIZE = Some (b, p')"
    "case b of None \<Rightarrow> p' = p | Some r \<Rightarrow> r \<notin> L \<and> pool_live D p' (insert r L)"
    using pool.get_law [OF assms(1), of BLOCK_SIZE] by (auto simp: BLOCK_SIZE_def)
  have "b \<noteq> None"
    using g(1) assms(2,3) round_size_eqs(1)
    by (auto simp: pool_get_def max_block_def BLOCK_SIZE_def Let_def split: bind_splits if_splits)
  then show ?thesis
    using g that by auto
qed

text \<open>A miss: blocks are evicted, then the new one gets a buffer of its own.\<close>

lemma get_miss_place:
  assumes "cache_inv c" "resident D c" "map_of (cmap c) k = None"
    and "cache_get (sched_fns junk) c now k = Ok () d \<or> cache_get (sched_fns junk) c now k = Throw d"
  shows "resident D d \<and> h_total_blocks (helper d) = h_total_blocks (helper c) \<and> (\<forall>j. cached d j \<longrightarrow> cached c j \<or> j = k \<and> cache_get (sched_fns junk) c now k = Ok () d) \<and>
    need_read_from_file (helper d) = need_read_from_file (helper c)"
proof -
  have flag: "evicts (sched_fns junk) c e \<Longrightarrow> need_read_from_file (helper e) = need_read_from_file (helper c)" for e
    by (induction rule: evicts.induct)
      (auto simp: discard_def evict_def rel_helper_def sched_fns_def unqueue_def lru_drop_law lru_update_flag)
  have get: "cache_get (sched_fns junk) c now k = then_do (reserve_space (sched_fns junk) c k) (\<lambda>_ c.
      case lru_create junk (helper c) k of None \<Rightarrow> Throw c
      | Some (v, h) \<Rightarrow> Ok () (set_node (c\<lparr>helper := h\<rparr>) k
          \<lparr>c_value = v, c_need_update = False, c_persistent = False, c_inst = 1, c_time = now,
           c_iter = None, c_obs_iter = None\<rparr>))"
    using assms(3) by (simp add: cache_get_def sched_fns_def)
  consider (room) e where "reserve_space (sched_fns junk) c k = Ok () e" "evicts (sched_fns junk) c e" "can_create (sched_fns junk) e k"
    | (thrown) e where "reserve_space (sched_fns junk) c k = Throw e" "evicts (sched_fns junk) c e"
    using reserve_space_ok [OF assms(1), of "sched_fns junk" k] by blast
  then show ?thesis
  proof cases
    case e: (room e)
    have res: "resident D e"
      by (rule evicts_resident [OF e(2) assms(2)])
    obtain m where m: "max_block (memory_pool (helper e)) = Some m" "BLOCK_SIZE \<le> m"
      using e(3) by (auto simp: can_create_def sched_fns_def lru_can_create_def split: option.splits)
    obtain r p' where p: "pool_get (memory_pool (helper e)) BLOCK_SIZE = Some (Some r, p')" "r \<notin> the ` ran (bufs e)"
        "pool_live D p' (insert r (the ` ran (bufs e)))"
      using pool_get_fits [OF _ m] res unfolding resident_def by metis
    show ?thesis
    proof (cases "lru_create junk (helper e) k")
      case None
      then have "d = e"
        using get e(1) assms(4) by simp
      then show ?thesis
        using res evicts_total [OF e(2)] evicts_cached [OF e(2)] flag [OF e(2)] by auto
    next
      case (Some vh)
      obtain v h where vh: "vh = (v, h)"
        by (cases vh)
      have v: "fst v = Some r" "memory_pool h = p'" "aborted h = aborted (helper e)"
          "h_total_blocks h = h_total_blocks (helper e)" "need_read_from_file h = need_read_from_file (helper e)"
        using Some vh p(1) by (auto simp: lru_create_def split: if_splits bind_splits)
      have "map_of (cmap e) k = None"
        by (rule evicts_map [OF e(2) assms(3)])
      then have n: "bufs e k = None"
        by (simp add: bufs_def)
      have bd: "bufs d = (bufs e)(k := Some (Some r))" "helper d = h"
        using get e(1) assms(4) Some vh v(1) by (auto simp: bufs_def fun_eq_iff update_conv')
      have "ran (bufs d) = insert (Some r) (ran (bufs e))"
        unfolding bd(1) by (rule ran_map_upd [of "bufs e" k "Some r", OF n])
      moreover have "inj_on (bufs d) (dom (bufs d))"
        using res p(2) n unfolding bd(1) resident_def by (auto simp: inj_on_def image_iff ran_def dom_def split: if_splits) (metis option.sel)+
      ultimately have "resident D d"
        using res p(3) v bd(2) by (simp add: resident_def)
      moreover have "cached d j \<longrightarrow> cached c j \<or> j = k" for j
        using bd(1) evicts_cached [OF e(2)] by (simp add: cached_bufs)
      moreover have "cache_get (sched_fns junk) c now k = Ok () d"
        using get e(1) assms(4) Some vh by auto
      ultimately show ?thesis
        using bd(2) v evicts_total [OF e(2)] flag [OF e(2)] by simp
    qed
  next
    case e: (thrown e)
    then have "d = e"
      using get assms(4) by simp
    then show ?thesis
      using evicts_resident [OF e(2) assms(2)] evicts_total [OF e(2)] evicts_cached [OF e(2)] flag [OF e(2)] by auto
  qed
qed

section \<open>Every step\<close>

definition sched_inv :: "nat \<Rightarrow> scheduler \<Rightarrow> nat set \<Rightarrow> (nat \<Rightarrow> byte list) \<Rightarrow> bool" where
  "sched_inv D c W mem \<longleftrightarrow> sched_coherent c W mem \<and> resident D c"

lemma sched_invD:
  assumes "sched_inv D c W mem"
  shows "coherent page_bytes disk c W mem" "cache_inv c" "file_ok (helper c)" "resident D c"
    "cached c k \<Longrightarrow> k < h_total_blocks (helper c)"
  using assms coherentD(1) [of page_bytes disk c W mem] by (auto simp: sched_inv_def sched_coherent_def)

lemma sched_inv_same:
  assumes "sched_inv D c W mem" "same_place c d" "coherent page_bytes disk d V m" "file_ok (helper d)"
  shows "sched_inv D d V m"
  using sched_invD(4,5) [OF assms(1)] same_placeD [OF assms(2)] assms(3,4)
  by (simp add: sched_inv_def sched_coherent_def)

lemma bufs_flags [simp]: "bufs (set_need_read b c) = bufs c" "bufs (set_total n c) = bufs c"
  by (simp_all add: bufs_def fun_eq_iff)

lemma place_flags [simp]: "cached (set_need_read b c) = cached c" "cached (set_total n c) = cached c"
  "resident D (set_need_read b c) = resident D c" "resident D (set_total n c) = resident D c"
  by (simp_all add: resident_def cached_bufs fun_eq_iff)

lemma sched_inv_set_need_read: "sched_inv D c W mem \<Longrightarrow> sched_inv D (set_need_read b c) W mem"
  by (simp add: sched_inv_def sched_coherent_def coherent_flags(1))

text \<open>Taking a block that is not cached, read from the file or not.\<close>

lemma get_miss_step:
  assumes inv: "sched_inv D c W mem" and k: "map_of (cmap c) k = None"
    and need: "need_read_from_file (helper c) = b"
    and x: "x = (if b then mem k else mem_bytes junk)" and V: "V = (if b then W else insert k W)"
  shows "(\<exists>d. cache_get (sched_fns junk) c now k = Ok () d \<and> coherent page_bytes disk d V (mem(k := x)) \<and>
      file_ok (helper d) \<and> resident D d \<and> h_total_blocks (helper d) = h_total_blocks (helper c) \<and>
      (\<forall>j. cached d j \<longrightarrow> cached c j \<or> j = k)) \<or>
    (\<exists>d. cache_get (sched_fns junk) c now k = Throw d \<and> coherent page_bytes disk d W mem \<and> file_ok (helper d) \<and>
      resident D d \<and> h_total_blocks (helper d) = h_total_blocks (helper c) \<and> (\<forall>j. cached d j \<longrightarrow> cached c j))"
proof -
  note i = sched_invD [OF inv]
  have steady: "steady b (helper c)"
    using i(3) need by (simp add: steady_def)
  have create: "disk h' = disk h \<and> steady b h' \<and> page_bytes v = x"
    if "steady b h" "disk h k = mem k" "h_create (sched_fns junk) h k = Some (v, h')" for h v h'
    using lru_create_law [of h junk k v h'] that x by (simp add: steady_def sched_fns_def)
  note place = get_miss_place [OF i(2,4) k, of junk now]
  have "(\<exists>d. cache_get (sched_fns junk) c now k = Ok () d \<and>
      coherent page_bytes disk d (if x = mem k then W else insert k W) (mem(k := x)) \<and> steady b (helper d) \<and> held d k) \<or>
    (\<exists>d. cache_get (sched_fns junk) c now k = Throw d \<and> coherent page_bytes disk d W mem \<and> steady b (helper d))"
    by (rule medium.get_miss_coherent [OF i(1) steady k _ refl]) (rule create)
  then show ?thesis
  proof (elim disjE exE conjE)
    fix d
    assume d: "cache_get (sched_fns junk) c now k = Ok () d"
      "coherent page_bytes disk d (if x = mem k then W else insert k W) (mem(k := x))" "steady b (helper d)" "held d k"
    have "coherent page_bytes disk d V (mem(k := x))"
      using coherent_grow [OF d(2,4)] d(2) x unfolding V by (auto split: if_splits)
    then show ?thesis
      using d(3) place [OF disjI1 [OF d(1)]] by (simp add: d(1) steady_def)
  next
    fix d
    assume d: "cache_get (sched_fns junk) c now k = Throw d" "coherent page_bytes disk d W mem" "steady b (helper d)"
    then show ?thesis
      using d(2,3) place [OF disjI2 [OF d(1)]] by (simp add: d(1) steady_def)
  qed
qed

lemma sched_step_inv:
  assumes inv: "sched_inv D c W mem" and ok: "sched_ok op c W"
  shows "(\<exists>d. sched_step junk op c = Ok () d \<and> sched_inv D d (sched_written op c W) (sched_mem junk op c mem)) \<or>
    (\<exists>d. sched_step junk op c = Throw d \<and> (op = Invoke \<or> sched_inv D d W mem))"
proof -
  note i = sched_invD [OF inv]
  show ?thesis
  proof (cases op)
    case (New now)
    let ?k = "h_total_blocks (helper c)"
    let ?c = "set_need_read False c"
    have inv': "sched_inv D ?c W mem"
      by (rule sched_inv_set_need_read [OF inv])
    have "map_of (cmap ?c) ?k = None"
      using i(5) [of ?k] unfolding cached_def by (metis flags_sel(1) less_irrefl)
    note none = this
    have new: "need_read_from_file (helper ?c) = False"
      "mem_bytes junk = (if False then mem ?k else mem_bytes junk)"
      "insert ?k W = (if False then W else insert ?k W)"
      by simp_all
    from get_miss_step [OF inv' none new, of now] show ?thesis
    proof (elim disjE exE conjE)
      fix d
      assume got: "cache_get (sched_fns junk) ?c now ?k = Ok () d"
        "coherent page_bytes disk d (insert ?k W) (mem(?k := mem_bytes junk))"
        "file_ok (helper d)" "resident D d" "h_total_blocks (helper d) = h_total_blocks (helper ?c)"
        "\<forall>j. cached d j \<longrightarrow> cached ?c j \<or> j = ?k"
      have k: "(?k + 1) mod 2 ^ 32 = ?k + 1"
        using ok New by simp
      let ?d = "set_total (?k + 1) d"
      have "sched_inv D ?d (insert ?k W) (mem(?k := mem_bytes junk))"
        unfolding sched_inv_def sched_coherent_def
      proof (intro conjI allI impI)
        show "coherent page_bytes disk ?d (insert ?k W) (mem(?k := mem_bytes junk))"
          by (rule coherent_flags(2) [OF got(2)])
        show "file_ok (helper ?d)"
          using got(3,5) ok New by (simp add: file_ok_def)
        show "resident D ?d"
          using got(4) by simp
        show "j < h_total_blocks (helper ?d)" if "cached ?d j" for j
          using got(6) i(5) [of j] that by fastforce
      qed
      then show ?thesis
        using got(1,5) k New by (simp add: get_new_block_def)
    next
      fix d
      assume thrown: "cache_get (sched_fns junk) ?c now ?k = Throw d" "coherent page_bytes disk d W mem"
        "file_ok (helper d)" "resident D d" "h_total_blocks (helper d) = h_total_blocks (helper ?c)"
        "\<forall>j. cached d j \<longrightarrow> cached ?c j"
      have "sched_inv D d W mem"
        unfolding sched_inv_def sched_coherent_def
      proof (intro conjI allI impI)
        show "j < h_total_blocks (helper d)" if "cached d j" for j
          using thrown(5,6) i(5) [of j] that by simp
      qed (use thrown(2-4) in simp_all)
      then show ?thesis
        using thrown(1) New by (simp add: get_new_block_def)
    qed
  next
    case (Fetch now k read)
    let ?c = "set_need_read read c"
    have inv': "sched_inv D ?c W mem"
      by (rule sched_inv_set_need_read [OF inv])
    have lt: "k < h_total_blocks (helper c)"
      using ok Fetch by simp
    have step: "sched_step junk op c = cache_get (sched_fns junk) ?c now k"
      using Fetch lt by (simp add: get_block_def)
    show ?thesis
    proof (cases "map_of (cmap c) k")
      case (Some n)
      note i' = sched_invD [OF inv']
      have n: "map_of (cmap ?c) k = Some n" "c_inst n + 1 \<noteq> 0"
        using Some ok Fetch by auto
      obtain d where d: "cache_get (sched_fns junk) ?c now k = Ok () d" "coherent page_bytes disk d W mem" "helper d = helper ?c"
        using medium.get_hit_coherent [OF i'(1) n] by blast
      have "sched_inv D d W mem"
        using d(3) i'(3) by (intro sched_inv_same [OF inv' get_hit_place [OF i'(2) n d(1)] d(2)]) simp
      then show ?thesis
        using d(1) step Some Fetch by (simp add: cached_def)
    next
      case None
      then have k: "map_of (cmap ?c) k = None" "need_read_from_file (helper ?c) = read"
        by simp_all
      have key: "\<forall>j. cached d j \<longrightarrow> cached ?c j \<or> j = k \<Longrightarrow> h_total_blocks (helper d) = h_total_blocks (helper ?c) \<Longrightarrow>
          \<forall>j. cached d j \<longrightarrow> j < h_total_blocks (helper d)" for d
        using i(5) lt by (auto simp: cached_def)
      from get_miss_step [OF inv' k refl refl, of junk now] show ?thesis
      proof (elim disjE exE conjE)
        fix d
        assume d: "cache_get (sched_fns junk) ?c now k = Ok () d"
          "coherent page_bytes disk d (if read then W else insert k W) (mem(k := if read then mem k else mem_bytes junk))"
          "file_ok (helper d)" "resident D d" "h_total_blocks (helper d) = h_total_blocks (helper ?c)"
          "\<forall>j. cached d j \<longrightarrow> cached ?c j \<or> j = k"
        have "sched_inv D d (sched_written op c W) (sched_mem junk op c mem)"
          using d(2-4) key [OF d(6,5)] None Fetch
          by (cases read) (simp_all add: sched_inv_def sched_coherent_def cached_def)
        then show ?thesis
          using d(1) step by simp
      next
        fix d
        assume d: "cache_get (sched_fns junk) ?c now k = Throw d" "coherent page_bytes disk d W mem"
          "file_ok (helper d)" "resident D d" "h_total_blocks (helper d) = h_total_blocks (helper ?c)"
          "\<forall>j. cached d j \<longrightarrow> cached ?c j"
        then have "\<forall>j. cached d j \<longrightarrow> j < h_total_blocks (helper d)"
          using i(5) by simp
        then show ?thesis
          using d step by (simp add: sched_inv_def sched_coherent_def)
      qed
    qed
  next
    case (Store k m)
    then obtain n where n: "map_of (cmap c) k = Some n" "c_inst n \<noteq> 0"
      using ok by (auto simp: held_def)
    let ?d = "set_node c k (n\<lparr>c_value := (fst (c_value n), m)\<rparr>)"
    have "bufs ?d = bufs c"
      using n(1) by (auto simp: set_node_bufs bufs_def)
    then have "same_place c ?d"
      by (simp add: same_place_def)
    moreover have "coherent page_bytes disk ?d (insert k W) (mem(k := mem_bytes m))"
      using medium.write_coherent [OF i(1) n, of "(fst (c_value n), m)"] by simp
    ultimately have "sched_inv D ?d (insert k W) (mem(k := mem_bytes m))"
      using sched_inv_same [OF inv] i(3) by simp
    then show ?thesis
      using n(1) Store by (simp add: store_memory_def)
  next
    case (Give now k need)
    then have h: "held c k" "need \<or> k \<notin> W"
      using ok by auto
    then obtain n where n: "map_of (cmap c) k = Some n" "c_inst n \<noteq> 0"
      by (auto simp: held_def)
    obtain d where d: "cache_put c now k need = Some d" "coherent page_bytes disk d (if need then W - {k} else W) mem"
        "helper d = helper c"
      using medium.put_coherent [OF i(1) h] by blast
    have "k < h_total_blocks (helper c)"
      using i(5) n(1) by (simp add: cached_def)
    then show ?thesis
      using d i(3) sched_inv_same [OF inv put_place [OF i(2) n d(1)] d(2)] Give by (simp add: put_block_def sure_def)
  next
    case Invoke
    obtain ks where ks: "set ks = snd ` set (q_obsolete c)" "distinct ks"
      "invoke junk c = then_do (update_nodes (sched_fns junk) ks c) (\<lambda>_ c. Ok () (c\<lparr>q_obsolete := []\<rparr>))"
      unfolding invoke_def using update_ordered_ok [OF i(2)] by metis
    have steady: "steady (need_read_from_file (helper c)) (helper c)"
      using i(3) by (simp add: steady_def)
    from medium.flushed_coherent [OF i(1) steady ks(1,2) refl, of junk, folded ks(3)] show ?thesis
    proof (elim disjE exE conjE)
      fix d
      assume d: "invoke junk c = Ok () d" "coherent page_bytes disk d W mem" "steady (need_read_from_file (helper c)) (helper d)"
      then have "sched_inv D d W mem"
        using sched_inv_same [OF inv invoke_place(1) [OF i(2) d(1)] d(2)] by (simp add: steady_def)
      then show ?thesis
        using d(1) Invoke by simp
    qed (use Invoke in simp)
  qed
qed

lemma cache_new_sel [simp]: "helper (cache_new h) = h" "cmap (cache_new h) = []" "bufs (cache_new h) = Map.empty"
  by (simp_all add: cache_new_def bufs_def fun_eq_iff)

lemma sched_reach_inv:
  "sched_reach junk h c W mem \<Longrightarrow> file_ok h \<Longrightarrow> pool_live D (memory_pool h) {} \<Longrightarrow> \<not> aborted h \<Longrightarrow> sched_inv D c W mem"
proof (induction rule: sched_reach.induct)
  case sreach_new
  then show ?case
    by (simp add: sched_inv_def sched_coherent_def cache_new_coherent cached_def resident_def)
next
  case (sreach_step c W mem op d)
  then show ?case
    using sched_step_inv [of D c W mem op junk] by auto
next
  case (sreach_throw c W mem op d)
  then show ?case
    using sched_step_inv [of D c W mem op junk] by auto
qed

section \<open>The properties of the scheduler\<close>


text \<open>
  Property C35. When \<open>invoke\<close> returns, the file holds the current content of every block that no client
  holds.
\<close>

theorem invoke_syncs_blocks:
  assumes "file_ok h" "pool_live D (memory_pool h) {}" "\<not> aborted h" "sched_reach junk h c W mem"
    and "invoke junk c = Ok () d"
  shows "\<forall>k. \<not> held d k \<longrightarrow> disk (helper d) k = mem k"
proof -
  note inv = sched_reach_inv [OF assms(4,1,2,3)]
  note i = sched_invD [OF inv]
  obtain ks where ks: "set ks = snd ` set (q_obsolete c)" "distinct ks"
    "invoke junk c = then_do (update_nodes (sched_fns junk) ks c) (\<lambda>_ c. Ok () (c\<lparr>q_obsolete := []\<rparr>))"
    unfolding invoke_def using update_ordered_ok [OF i(2)] by metis
  have "steady (need_read_from_file (helper c)) (helper c)"
    using i(3) by (simp add: steady_def)
  from medium.flushed_coherent [OF i(1) this ks(1,2) refl, of junk, folded ks(3)] show ?thesis
    using assms(5) by auto
qed


section \<open>Concrete runs\<close>

text \<open>A pool of two buffers over an empty file with room for a hundred blocks.\<close>

definition start2 :: lru_helper where
  "start2 = \<lparr>memory_pool = pool_two, hfile = \<lparr>io = Some \<lparr>bytes = [], fpos = 0, room = 409600\<rparr>, bf_offset = 0,
     total_blocks = 0, block_size = BLOCK_SIZE\<rparr>, h_total_blocks = 0, need_read_from_file = False, aborted = False\<rparr>"

lemma start2_ok: "file_ok start2" "\<not> aborted start2" "\<exists>D. pool_live D (memory_pool start2) {}"
proof -
  obtain D bp where "pool_new True 8192 = Some bp" "pool_live D bp {}"
    by (rule pool_new_live [of 8192]) simp_all
  then have "pool_live D pool_two {}"
    using pool_two_new by simp
  then show "\<exists>D. pool_live D (memory_pool start2) {}"
    by (auto simp: start2_def)
qed (simp_all add: start2_def file_ok_def bf_inv_def BLOCK_SIZE_def)

text \<open>Two new blocks, one of them written.\<close>

definition pair2 :: "memory \<Rightarrow> memory \<Rightarrow> scheduler" where
  "pair2 m0 m1 = \<lparr>helper = start2\<lparr>memory_pool := pool_two\<lparr>bp_rest := [0, 0, 0, 0]\<rparr>, h_total_blocks := 2\<rparr>,
     cmap = [(0, \<lparr>c_value = (Some (0, 4096), m0), c_need_update = False, c_persistent = False, c_inst = 1, c_time = 5,
               c_iter = None, c_obs_iter = None\<rparr>),
             (1, \<lparr>c_value = (Some (4096, 4096), m1), c_need_update = False, c_persistent = False, c_inst = 1, c_time = 6,
               c_iter = None, c_obs_iter = None\<rparr>)],
     q_persistent = [], q_temporary = [], q_obsolete = [], next_handle = 0\<rparr>"

lemma pair2_news: "then_do (sched_step junk (New 5) (cache_new start2)) (\<lambda>_. sched_step junk (New 6)) = Ok () (pair2 junk junk)"
  by (simp add: get_new_block_def cache_get_def set_need_read_def cache_new_def start2_def reserve_space_def can_create_def
      sched_fns_def lru_can_create_def max_block_def lru_create_def set_node_def set_total_def pair2_def pool_eval pool_two_def
      cong: bind_eval_cong)

lemma pair2_reach:
  "sched_reach junk start2 (pair2 m junk) {0, 1} ((disk start2)(0 := mem_bytes m, 1 := mem_bytes junk))"
proof -
  obtain c where c: "sched_step junk (New 5) (cache_new start2) = Ok () c" "sched_step junk (New 6) c = Ok () (pair2 junk junk)"
    using pair2_news [of junk] by (cases "sched_step junk (New 5) (cache_new start2)") auto
  have tot: "h_total_blocks (helper c) = 1"
    using c(1) by (simp add: get_new_block_def cache_get_def set_need_read_def cache_new_def start2_def reserve_space_def
        can_create_def sched_fns_def lru_can_create_def max_block_def lru_create_def set_node_def set_total_def pool_eval
        pool_two_def cong: bind_eval_cong) auto
  have "h_total_blocks start2 = 0"
    by (simp add: start2_def)
  then have "sched_reach junk start2 c {0} ((disk start2)(0 := mem_bytes junk))"
    using sreach_step [OF sreach_new _ c(1)] by simp
  from sreach_step [OF this _ c(2)] have "sched_reach junk start2 (pair2 junk junk) {1, 0} ((disk start2)(0 := mem_bytes junk, 1 := mem_bytes junk))"
    by (simp add: tot)
  moreover have "sched_step junk (Store 0 m) (pair2 junk junk) = Ok () (pair2 m junk)"
    by (simp add: store_memory_def pair2_def set_node_def)
  moreover have "held (pair2 junk junk) 0"
    by (simp add: held_def pair2_def)
  moreover have "(f(0 := a, 1 := b))(0 := m') = f(0 := m', 1 := b)" "insert 0 {1, 0} = {0, 1}"
    for f :: "nat \<Rightarrow> byte list" and a b m'
    by (auto simp: fun_eq_iff)
  ultimately show ?thesis
    using sreach_step [of junk start2 "pair2 junk junk" "{1, 0}" _ "Store 0 m" "pair2 m junk"]
    by (metis sched_mem.simps(3) sched_ok.simps(3) sched_written.simps(3))
qed

definition given2 :: "memory \<Rightarrow> memory \<Rightarrow> scheduler" where
  "given2 m0 m1 = (pair2 m0 m1)\<lparr>cmap :=
       [(0, \<lparr>c_value = (Some (0, 4096), m0), c_need_update = True, c_persistent = False, c_inst = 0, c_time = 5,
               c_iter = Some 0, c_obs_iter = Some 1\<rparr>),
        (1, \<lparr>c_value = (Some (4096, 4096), m1), c_need_update = False, c_persistent = False, c_inst = 1, c_time = 6,
               c_iter = None, c_obs_iter = None\<rparr>)],
     q_temporary := [(0, 0)], q_obsolete := [(1, 0)], next_handle := 2\<rparr>"

lemma given2_reach:
  "sched_reach junk start2 (given2 m junk) {1} ((disk start2)(0 := mem_bytes m, 1 := mem_bytes junk))"
proof -
  have "sched_step junk (Give 7 0 True) (pair2 m junk) = Ok () (given2 m junk)"
    by (simp add: put_block_def pair2_def given2_def cache_put_def put_change_def set_node_def sure_def threshold_time_def)
  moreover have "held (pair2 m junk) 0"
    by (simp add: held_def pair2_def)
  ultimately show ?thesis
    using sreach_step [OF pair2_reach, of "Give 7 0 True" m junk "given2 m junk"] by simp
qed

lemma lru_update_fits:
  assumes "file_ok h" "k < h_total_blocks h" "h_total_blocks h * BLOCK_SIZE \<le> disk_room (hfile h)"
  shows "lru_update junk h k v \<noteq> None"
proof -
  have f: "bf_inv (hfile h)" "block_size (hfile h) = BLOCK_SIZE" "total_blocks (hfile h) \<le> h_total_blocks h"
    using assms(1) by (auto simp: file_ok_def)
  show ?thesis
  proof (cases "k < total_blocks (hfile h)")
    case True
    obtain g where "bf_update junk (hfile h) (page_bytes v) k = Some (BLOCK_SIZE, g)"
      using file_update_ok [OF f(1,2) True, of junk v] by metis
    then show ?thesis
      using True by (simp add: lru_update_def check_def)
  next
    case False
    obtain g where g: "resize_file_total_blocks (hfile h) (h_total_blocks h) = Some (True, g)" "keeps (hfile h) g"
      "blocks g = blocks (hfile h) @ replicate (h_total_blocks h - total_blocks (hfile h)) (replicate BLOCK_SIZE 0)"
      using resize_blocks_ok [OF f(1,3)] f(2) assms(3) by auto
    have n: "total_blocks g = h_total_blocks h"
      using f(3) length_blocks [of g] g(3) by simp
    have "bf_inv g" "block_size g = BLOCK_SIZE" "k < total_blocks g"
      using g(2) f(2) n assms(2) by (simp_all add: keeps_def)
    then obtain g' where "bf_update junk g (page_bytes v) k = Some (BLOCK_SIZE, g')"
      using file_update_ok [of g k junk v] by metis
    then show ?thesis
      using g(1) False assms(2) n by (simp add: lru_update_def check_def)
  qed
qed

lemma given2_invoke: "\<exists>d. invoke junk (given2 m junk) = Ok () d \<and> \<not> held d 0"
proof -
  let ?h = "helper (given2 m junk)"
  have "file_ok ?h" "0 < h_total_blocks ?h" "h_total_blocks ?h * BLOCK_SIZE \<le> disk_room (hfile ?h)"
    by (simp_all add: given2_def pair2_def start2_def file_ok_def bf_inv_def BLOCK_SIZE_def disk_room_def)
  then obtain h where "lru_update junk ?h 0 (Some (0, 4096), m) = Some h"
    using lru_update_fits by blast
  then show ?thesis
    by (simp add: invoke_def update_all_with_order_def sort_by_def given2_def pair2_def update_node_def node_update_def
        sched_fns_def set_node_def held_def)
qed

lemma given2_node: "map_of (cmap (given2 m0 m1)) 0 = Some \<lparr>c_value = (Some (0, 4096), m0), c_need_update = True,
    c_persistent = False, c_inst = 0, c_time = 5, c_iter = Some 0, c_obs_iter = Some 1\<rparr>"
  by (simp add: given2_def)


lemma invoke_syncs_blocks_witness:
  "\<exists>d. invoke (\<lambda>_. 0) (given2 (\<lambda>_. 9) (\<lambda>_. 0)) = Ok () d \<and> disk (helper d) 0 = mem_bytes (\<lambda>_. 9)"
proof -
  obtain D where D: "pool_live D (memory_pool start2) {}"
    using start2_ok(3) by blast
  obtain d where "invoke (\<lambda>_. 0) (given2 (\<lambda>_. 9) (\<lambda>_. 0)) = Ok () d" "\<not> held d 0"
    using given2_invoke by metis
  then show ?thesis
    using invoke_syncs_blocks [OF start2_ok(1) D start2_ok(2) given2_reach [of "\<lambda>_. 0" "\<lambda>_. 9"]] by auto
qed


end
