(* ===== verification/BPBlocks.thy ===== *)
theory BPBlocks
  imports Prelude
begin

text \<open>
  The blocks of the B+ tree (\<open>Base/BPTree_impls/IndexBlock_Impl.hpp\<close>, \<open>DataBlock_Impl.hpp\<close>, \<open>BlockIter.hpp\<close>,
  \<open>Interpreter.hpp\<close>), for keys and values of a fixed size (the code for values of another kind does not
  compile: it calls \<open>ValueChecker::get_size\<close>, which the checker of such values does not have).

  A block holds pairs of \<open>pair_size\<close> bytes from byte \<open>begin_pos\<close> on, and its size in bytes. The model keeps
  the pairs in a list and an iterator as its byte offset; sizes and positions are computed in bytes as the code
  does. \<open>None\<close> stands for an offset that is not that of a pair, a copy beyond the pairs or beyond the block.
\<close>

section \<open>Layouts\<close>

record layout =
  begin_pos :: nat
  pair_size :: nat

definition PAGE_SIZE :: nat where
  "PAGE_SIZE = 2 ^ 12"

definition PTR_SIZE :: nat where
  "PTR_SIZE = 4"

definition index_layout :: "nat \<Rightarrow> layout" where
  "index_layout key_size = \<lparr>begin_pos = 3, pair_size = key_size + PTR_SIZE\<rparr>"

definition data_layout :: "nat \<Rightarrow> nat \<Rightarrow> layout" where
  "data_layout key_size value_size = \<lparr>begin_pos = 11, pair_size = key_size + value_size\<rparr>"

type_synonym ('k, 'x) pairs = "('k \<times> 'x) list"

text \<open>\<open>*_helper.get_size()\<close>, in bytes; the pair at an offset; the offset of a pair.\<close>

definition byte_size :: "layout \<Rightarrow> ('k, 'x) pairs \<Rightarrow> nat" where
  "byte_size L b = pair_size L * length b"

definition slot :: "layout \<Rightarrow> nat \<Rightarrow> nat option" where
  "slot L off = (if begin_pos L \<le> off \<and> (off - begin_pos L) mod pair_size L = 0 then Some ((off - begin_pos L) div pair_size L) else None)"

definition pairs_in :: "layout \<Rightarrow> nat \<Rightarrow> nat option" where
  "pairs_in L n = (if n mod pair_size L = 0 then Some (n div pair_size L) else None)"

definition key_at :: "layout \<Rightarrow> ('k, 'x) pairs \<Rightarrow> nat \<Rightarrow> 'k option" where
  "key_at L b off = do { i \<leftarrow> slot L off; e \<leftarrow> vget b i; Some (fst e) }"

definition entry_at :: "layout \<Rightarrow> ('k, 'x) pairs \<Rightarrow> nat \<Rightarrow> 'x option" where
  "entry_at L b off = do { i \<leftarrow> slot L off; e \<leftarrow> vget b i; Some (snd e) }"

definition begin_off :: "layout \<Rightarrow> nat" where
  "begin_off L = begin_pos L"

definition end_off :: "layout \<Rightarrow> ('k, 'x) pairs \<Rightarrow> nat" where
  "end_off L b = begin_pos L + byte_size L b"

text \<open>\<open>operator++\<close>, \<open>--\<close>, \<open>+\<close> and \<open>-\<close> of an iterator.\<close>

definition get_offset :: "layout \<Rightarrow> nat \<Rightarrow> int \<Rightarrow> int" where
  "get_offset L from n = int from + n * int (pair_size L)"

definition next_off :: "layout \<Rightarrow> nat \<Rightarrow> nat" where
  "next_off L off = off + pair_size L"

definition prev_off :: "layout \<Rightarrow> nat \<Rightarrow> nat option" where
  "prev_off L off = (if off < pair_size L then None else Some (off - pair_size L))"

section \<open>The operations of a block\<close>

definition can_insert :: "layout \<Rightarrow> ('k, 'x) pairs \<Rightarrow> bool" where
  "can_insert L b \<longleftrightarrow> byte_size L b + pair_size L + begin_pos L \<le> PAGE_SIZE"

definition blk_insert :: "layout \<Rightarrow> ('k, 'x) pairs \<Rightarrow> nat \<Rightarrow> 'k \<Rightarrow> 'x \<Rightarrow> ('k, 'x) pairs option" where
  "blk_insert L b pos key x = do {
     check (pos \<le> end_off L b \<and> end_off L b + pair_size L \<le> PAGE_SIZE);
     i \<leftarrow> slot L pos;
     Some (take i b @ (key, x) # drop i b)
   }"

definition blk_update_key :: "layout \<Rightarrow> ('k, 'x) pairs \<Rightarrow> nat \<Rightarrow> 'k \<Rightarrow> ('k, 'x) pairs option" where
  "blk_update_key L b pos key = do { i \<leftarrow> slot L pos; e \<leftarrow> vget b i; vset b i (key, snd e) }"

definition blk_update_value :: "layout \<Rightarrow> ('k, 'x) pairs \<Rightarrow> nat \<Rightarrow> 'x \<Rightarrow> ('k, 'x) pairs option" where
  "blk_update_value L b pos x = do { i \<leftarrow> slot L pos; e \<leftarrow> vget b i; vset b i (fst e, x) }"

text \<open>\<open>erase(iter)\<close> also says whether the block is still more than half full.\<close>

definition blk_erase :: "layout \<Rightarrow> ('k, 'x) pairs \<Rightarrow> nat \<Rightarrow> (bool \<times> ('k, 'x) pairs) option" where
  "blk_erase L b pos = do {
     check (pos + pair_size L \<le> end_off L b);
     i \<leftarrow> slot L pos;
     let b = take i b @ drop (i + 1) b;
     Some (byte_size L b > (PAGE_SIZE - begin_pos L) div 2, b)
   }"

definition blk_erase_range :: "layout \<Rightarrow> ('k, 'x) pairs \<Rightarrow> nat \<Rightarrow> nat \<Rightarrow> ('k, 'x) pairs option" where
  "blk_erase_range L b lo hi = do {
     check (lo \<le> hi \<and> hi \<le> end_off L b);
     i \<leftarrow> slot L lo;
     j \<leftarrow> slot L hi;
     Some (take i b @ drop j b)
   }"

text \<open>\<open>merge\<close> empties the other block; \<open>merge_keep_average\<close> chooses between merging, leaving and averaging.\<close>

definition blk_merge :: "layout \<Rightarrow> ('k, 'x) pairs \<Rightarrow> ('k, 'x) pairs \<Rightarrow> (('k, 'x) pairs \<times> ('k, 'x) pairs) option" where
  "blk_merge L this other = do {
     check (end_off L this + byte_size L other \<le> PAGE_SIZE);
     Some (this @ other, [])
   }"

definition merge_keep_average :: "layout \<Rightarrow> ('k, 'x) pairs \<Rightarrow> ('k, 'x) pairs \<Rightarrow> int" where
  "merge_keep_average L this other =
     (let max_block_size = PAGE_SIZE - begin_pos L; this_size = byte_size L this; other_size = byte_size L other;
          difference = (if this_size > other_size then this_size - other_size else other_size - this_size)
      in if this_size + other_size \<le> max_block_size then 1
         else if difference < max_block_size div 2 then 0 else - 1)"

text \<open>\<open>move_other_block_data\<close>: \<open>sz\<close> bytes of \<open>src\<close> from \<open>src_pos\<close> on are inserted into \<open>dest\<close> at \<open>dest_pos\<close>.\<close>

definition move_data ::
  "layout \<Rightarrow> ('k, 'x) pairs \<Rightarrow> nat \<Rightarrow> ('k, 'x) pairs \<Rightarrow> nat \<Rightarrow> nat \<Rightarrow> (('k, 'x) pairs \<times> ('k, 'x) pairs) option" where
  "move_data L dest dest_pos src src_pos sz = do {
     check (dest_pos \<le> end_off L dest \<and> end_off L dest + sz \<le> PAGE_SIZE \<and> src_pos + sz \<le> end_off L src);
     i \<leftarrow> slot L dest_pos;
     j \<leftarrow> slot L src_pos;
     n \<leftarrow> pairs_in L sz;
     Some (take i dest @ take n (drop j src) @ drop i dest, take j src @ drop (j + n) src)
   }"

lemma half_block_less:
  assumes "0 < n div P"
  shows "n div P div 2 * P < (n :: nat)" "0 < P" "0 < n"
proof -
  show P: "0 < P" "0 < n"
    using assms by (auto intro: Nat.gr0I)
  have "n div P div 2 < n div P"
    using assms by simp
  then have "n div P div 2 * P < n div P * P"
    using P(1) by (rule mult_less_mono1)
  also have "\<dots> \<le> n"
    by (rule div_times_less_eq_dividend)
  finally show "n div P div 2 * P < n" .
qed

text \<open>The loop of \<open>lower_bound\<close> over the offsets \<open>begin\<close> and \<open>end\<close>.\<close>

function lower_loop :: "layout \<Rightarrow> ('k :: linorder, 'x) pairs \<Rightarrow> 'k \<Rightarrow> nat \<Rightarrow> nat \<Rightarrow> nat option" where
  "lower_loop L b key lo hi =
     (let n = (hi - lo) div pair_size L;
          mid = lo + n div 2 * pair_size L
      in if n > 0
         then do {
           k \<leftarrow> key_at L b mid;
           if k < key then lower_loop L b key (mid + pair_size L) hi
           else if k = key then Some mid
           else lower_loop L b key lo mid
         }
         else Some hi)"
  by pat_completeness auto

termination
proof (relation "measure (\<lambda>(L, b, key, lo, hi). hi - lo)", goal_cases)
  case (2 L b key lo hi n mid k)
  then show ?case
    using half_block_less(2,3) [of "hi - lo" "pair_size L"] by simp
next
  case (3 L b key lo hi n mid k)
  then show ?case
    using half_block_less(1,3) [of "hi - lo" "pair_size L"] by simp
qed simp

declare lower_loop.simps [simp del]

definition lower_bound :: "layout \<Rightarrow> ('k :: linorder, 'x) pairs \<Rightarrow> 'k \<Rightarrow> nat option" where
  "lower_bound L b key = lower_loop L b key (begin_off L) (end_off L b)"

definition blk_split ::
  "layout \<Rightarrow> ('k :: linorder, 'x) pairs \<Rightarrow> ('k, 'x) pairs \<Rightarrow> 'k \<Rightarrow> 'x \<Rightarrow> (('k, 'x) pairs \<times> ('k, 'x) pairs) option" where
  "blk_split L this new_block key x = do {
     let this_size = byte_size L this;
     let target_size = (this_size + pair_size L) div pair_size L div 2;
     lb \<leftarrow> lower_bound L this key;
     let target_pos = (lb - begin_pos L) div pair_size L;
     if target_pos < target_size
     then do {
       let move_size = this_size - (target_size - 1) * pair_size L;
       (new_block, this) \<leftarrow> move_data L new_block (begin_pos L) this (this_size + begin_pos L - move_size) move_size;
       this \<leftarrow> blk_insert L this (target_pos * pair_size L + begin_pos L) key x;
       Some (this, new_block)
     }
     else do {
       let move_size = this_size - target_size * pair_size L;
       (new_block, this) \<leftarrow> move_data L new_block (begin_pos L) this (this_size + begin_pos L - move_size) move_size;
       new_block \<leftarrow> blk_insert L new_block ((target_pos - target_size) * pair_size L + begin_pos L) key x;
       Some (this, new_block)
     }
   }"

definition blk_average :: "layout \<Rightarrow> ('k, 'x) pairs \<Rightarrow> ('k, 'x) pairs \<Rightarrow> (('k, 'x) pairs \<times> ('k, 'x) pairs) option" where
  "blk_average L this other =
     (let half_kv_pair = (byte_size L this + byte_size L other) div pair_size L div 2
      in if byte_size L this > byte_size L other
         then do {
           let move_size = byte_size L this - half_kv_pair * pair_size L;
           (other, this) \<leftarrow> move_data L other (begin_pos L) this (half_kv_pair * pair_size L + begin_pos L) move_size;
           Some (this, other)
         }
         else do {
           let move_size = byte_size L other - half_kv_pair * pair_size L;
           (this, other) \<leftarrow> move_data L this (begin_pos L + byte_size L this) other (begin_pos L) move_size;
           Some (this, other)
         })"

text \<open>The size check of a value: \<open>?:\<close> binds weaker than \<open>+\<close>, so the key counts only for a small value.\<close>

definition data_size_check :: "nat \<Rightarrow> nat \<Rightarrow> bool" where
  "data_size_check key_size value_size \<longleftrightarrow>
     (if value_size > PTR_SIZE then value_size else PTR_SIZE + key_size) \<le> (PAGE_SIZE - 11) div 2"

section \<open>Offsets and positions\<close>

definition off :: "layout \<Rightarrow> nat \<Rightarrow> nat" where
  "off L i = begin_pos L + i * pair_size L"

lemma off_eqs: "begin_off L = off L 0" "end_off L b = off L (length b)" "begin_pos L = off L 0"
  "next_off L (off L i) = off L (Suc i)" "i * pair_size L + begin_pos L = off L i"
  by (simp_all add: off_def begin_off_def end_off_def byte_size_def next_off_def mult.commute)

lemma off_simps [simp]:
  assumes "0 < pair_size L"
  shows "slot L (off L i) = Some i" "off L i \<le> off L j \<longleftrightarrow> i \<le> j" "off L i = off L j \<longleftrightarrow> i = j"
    "prev_off L (off L (Suc i)) = Some (off L i)" "off L i < off L j \<longleftrightarrow> i < j"
  using assms by (simp_all add: off_def slot_def prev_off_def)

lemma pairs_in_mult [simp]: "0 < pair_size L \<Longrightarrow> pairs_in L (n * pair_size L) = Some n"
  by (simp add: pairs_in_def)

lemma key_at_off: "0 < pair_size L \<Longrightarrow> i < length b \<Longrightarrow> key_at L b (off L i) = Some (fst (b ! i))"
  "0 < pair_size L \<Longrightarrow> i < length b \<Longrightarrow> entry_at L b (off L i) = Some (snd (b ! i))"
  by (simp_all add: key_at_def entry_at_def)

section \<open>Binary search\<close>

abbreviation sorted_keys :: "('k :: linorder, 'x) pairs \<Rightarrow> bool" where
  "sorted_keys b \<equiv> sorted_wrt (<) (map fst b)"

text \<open>The reference: the number of keys below \<open>key\<close>.\<close>

definition below_count :: "('k :: linorder, 'x) pairs \<Rightarrow> 'k \<Rightarrow> nat" where
  "below_count b key = length (takeWhile (\<lambda>e. fst e < key) b)"

lemma below_count_le: "below_count b key \<le> length b"
  unfolding below_count_def by (rule length_takeWhile_le)

lemma below_count_less: "i < below_count b key \<Longrightarrow> fst (b ! i) < key"
  unfolding below_count_def by (metis nth_mem set_takeWhileD takeWhile_nth)

lemma below_count_at: "below_count b key < length b \<Longrightarrow> key \<le> fst (b ! below_count b key)"
  unfolding below_count_def using nth_length_takeWhile [of "\<lambda>e. fst e < key" b] by (simp add: not_less)

lemma below_count_unique:
  assumes "n \<le> length b" "\<forall>i < n. fst (b ! i) < key" "n < length b \<longrightarrow> key \<le> fst (b ! n)"
  shows "below_count b key = n"
proof (rule linorder_cases [of "below_count b key" n])
  assume "below_count b key < n"
  then show ?thesis
    using assms(1,2) below_count_at [of b key] by fastforce
next
  assume "n < below_count b key"
  then show ?thesis
    using assms(3) below_count_less [of n b key] below_count_le [of b key] by fastforce
qed

lemma sorted_keys_nth: "sorted_keys b \<Longrightarrow> i < j \<Longrightarrow> j < length b \<Longrightarrow> fst (b ! i) < fst (b ! j)"
  using sorted_wrt_nth_less [of "(<)" "map fst b" i j] by simp

lemma lower_loop_ok:
  assumes "0 < pair_size L" "sorted_keys b" "i \<le> j" "j \<le> length b"
    and "\<forall>m < i. fst (b ! m) < key" "j < length b \<longrightarrow> key \<le> fst (b ! j)"
  shows "lower_loop L b key (off L i) (off L j) = Some (off L (below_count b key))"
  using assms(3-6)
proof (induction "j - i" arbitrary: i j rule: less_induct)
  case less
  let ?P = "pair_size L"
  have n: "(off L j - off L i) div ?P = j - i"
  proof -
    have "off L j - off L i = (j - i) * ?P"
      by (simp add: off_def diff_mult_distrib)
    then show ?thesis
      using assms(1) by simp
  qed
  show ?case
  proof (cases "i = j")
    case True
    have "below_count b key = j"
      using less.prems True by (intro below_count_unique) auto
    then show ?thesis
      using True n by (subst lower_loop.simps) simp
  next
    case False
    define m where "m = i + (j - i) div 2"
    have m: "i \<le> m" "m < j" "m < length b"
      using False less.prems unfolding m_def by linarith+
    have mid: "off L i + (j - i) div 2 * ?P = off L m"
      by (simp add: off_def m_def distrib_right)
    have key: "key_at L b (off L m) = Some (fst (b ! m))"
      by (rule key_at_off(1) [OF assms(1) m(3)])
    have step: "lower_loop L b key (off L i) (off L j) =
        (if fst (b ! m) < key then lower_loop L b key (off L (Suc m)) (off L j)
         else if fst (b ! m) = key then Some (off L m) else lower_loop L b key (off L i) (off L m))"
      using n mid key False less.prems(1) off_eqs(4) [of L m]
      by (subst lower_loop.simps) (simp add: Let_def next_off_def)
    consider "fst (b ! m) < key" | "fst (b ! m) = key" | "key < fst (b ! m)"
      by force
    then show ?thesis
    proof cases
      case 1
      have "fst (b ! i') < key" if "i' < Suc m" for i'
        using that 1 sorted_keys_nth [OF assms(2), of i' m] m(3) by (cases "i' = m") force+
      then have "lower_loop L b key (off L (Suc m)) (off L j) = Some (off L (below_count b key))"
        using m less.prems by (intro less.hyps) auto
      then show ?thesis
        using step 1 by simp
    next
      case 2
      have "fst (b ! i') < key" if "i' < m" for i'
        using sorted_keys_nth [OF assms(2) that m(3)] 2 by simp
      then have "below_count b key = m"
        using m 2 by (intro below_count_unique) auto
      then show ?thesis
        using step 2 by simp
    next
      case 3
      have "lower_loop L b key (off L i) (off L m) = Some (off L (below_count b key))"
        using m less.prems 3 by (intro less.hyps) auto
      then show ?thesis
        using step 3 by auto
    qed
  qed
qed

lemma lower_bound_ok:
  assumes "0 < pair_size L" "sorted_keys b"
  shows "lower_bound L b key = Some (off L (below_count b key))"
  unfolding lower_bound_def off_eqs using lower_loop_ok [OF assms, of 0 "length b" key] by simp

section \<open>The operations on positions\<close>

lemma byte_size_eq: "byte_size L b = length b * pair_size L"
  by (simp add: byte_size_def)

lemma off_sum: "off L i + j * pair_size L = off L (i + j)" "off L i + pair_size L = off L (i + 1)"
  by (simp_all add: off_def distrib_right)

lemma can_insert_off: "can_insert L b \<longleftrightarrow> off L (length b + 1) \<le> PAGE_SIZE"
  by (simp add: can_insert_def off_def byte_size_def algebra_simps)

lemma blk_insert_ok:
  assumes "0 < pair_size L" "i \<le> length b" "off L (length b + 1) \<le> PAGE_SIZE"
  shows "blk_insert L b (off L i) key x = Some (take i b @ (key, x) # drop i b)"
  using assms by (simp add: blk_insert_def off_eqs(2) off_sum)

lemma blk_update_ok:
  assumes "0 < pair_size L" "i < length b"
  shows "blk_update_key L b (off L i) key = Some (b[i := (key, snd (b ! i))])"
    "blk_update_value L b (off L i) x = Some (b[i := (fst (b ! i), x)])"
  using assms by (simp_all add: blk_update_key_def blk_update_value_def)

lemma blk_erase_ok:
  assumes "0 < pair_size L" "i < length b"
  shows "blk_erase L b (off L i) = Some (byte_size L b - pair_size L > (PAGE_SIZE - begin_pos L) div 2, take i b @ drop (i + 1) b)"
proof -
  have "byte_size L (take i b @ drop (i + 1) b) = byte_size L b - pair_size L"
    using assms(2) by (simp add: byte_size_eq diff_mult_distrib min_def)
  then show ?thesis
    using assms by (simp add: blk_erase_def off_eqs(2) off_sum Let_def)
qed

lemma blk_erase_range_ok:
  assumes "0 < pair_size L" "i \<le> j" "j \<le> length b"
  shows "blk_erase_range L b (off L i) (off L j) = Some (take i b @ drop j b)"
  using assms by (simp add: blk_erase_range_def off_eqs(2))

lemma blk_merge_ok:
  assumes "off L (length a + length b) \<le> PAGE_SIZE"
  shows "blk_merge L a b = Some (a @ b, [])"
  using assms by (simp add: blk_merge_def off_eqs(2) byte_size_eq off_sum)

lemma merge_fits: "begin_pos L \<le> PAGE_SIZE \<Longrightarrow> merge_keep_average L a b > 0 \<longleftrightarrow> off L (length a + length b) \<le> PAGE_SIZE"
  by (auto simp: merge_keep_average_def byte_size_eq off_def Let_def distrib_right)

lemma move_data_ok:
  assumes "0 < pair_size L" "i \<le> length dest" "j + n \<le> length src" "off L (length dest + n) \<le> PAGE_SIZE"
  shows "move_data L dest (off L i) src (off L j) (n * pair_size L) =
    Some (take i dest @ take n (drop j src) @ drop i dest, take j src @ drop (j + n) src)"
  using assms by (simp add: move_data_def off_eqs(2) off_sum)

text \<open>Where an insertion puts the pair.\<close>

definition insert_sorted :: "('k :: linorder, 'x) pairs \<Rightarrow> 'k \<Rightarrow> 'x \<Rightarrow> ('k, 'x) pairs" where
  "insert_sorted b key x = take (below_count b key) b @ (key, x) # drop (below_count b key) b"

lemma length_insert_sorted [simp]: "length (insert_sorted b key x) = length b + 1"
  using below_count_le [of b key] by (simp add: insert_sorted_def)

lemma insert_sorted_split:
  obtains xs ys where "b = xs @ ys" "insert_sorted b key x = xs @ (key, x) # ys" "length xs = below_count b key"
    "xs = take (below_count b key) b" "ys = drop (below_count b key) b"
  using that [of "take (below_count b key) b" "drop (below_count b key) b"] below_count_le [of b key]
  by (simp add: insert_sorted_def)

lemma set_insert_sorted [simp]: "set (insert_sorted b key x) = insert (key, x) (set b)"
proof -
  have "set b = set (take (below_count b key) b) \<union> set (drop (below_count b key) b)"
    by (metis append_take_drop_id set_append)
  then show ?thesis
    by (auto simp: insert_sorted_def)
qed

lemma fst_set_take: "x \<in> set (take (below_count b key) (b :: ('k :: linorder \<times> 'x) list)) \<Longrightarrow> fst x < key"
  by (metis below_count_less in_set_conv_nth length_take min_less_iff_conj nth_take)

lemma fst_set_drop:
  assumes "sorted_keys b" "x \<in> set (drop (below_count b key) b)"
  shows "key \<le> fst x"
proof -
  obtain i where i: "x = b ! (below_count b key + i)" "below_count b key + i < length b"
    using assms(2) by (auto simp: in_set_conv_nth)
  have "key \<le> fst (b ! below_count b key)"
    by (rule below_count_at) (use i in simp)
  then show ?thesis
    using sorted_keys_nth [OF assms(1), of "below_count b key" "below_count b key + i"] i by (cases i) auto
qed

lemma sorted_insert:
  assumes "sorted_keys b" "key \<notin> fst ` set b"
  shows "sorted_keys (insert_sorted b key x)"
proof (rule insert_sorted_split [of b key x])
  fix xs ys
  assume s: "b = xs @ ys" "insert_sorted b key x = xs @ (key, x) # ys" "length xs = below_count b key"
    "xs = take (below_count b key) b" "ys = drop (below_count b key) b"
  have "fst e < key" if "e \<in> set xs" for e
    using fst_set_take [of e b key] that s(4) by simp
  moreover have "key < fst e" if "e \<in> set ys" for e
    using fst_set_drop [OF assms(1)] that s(1,5) assms(2) by (metis UnCI image_eqI order_le_less set_append)
  ultimately show ?thesis
    using assms(1) unfolding s(2) by (auto simp: s(1) sorted_wrt_append)
qed

lemma blk_split_ok:
  assumes "0 < pair_size L" "sorted_keys b" "0 < length b" "off L (length b) \<le> PAGE_SIZE"
  shows "blk_split L b [] key x =
    Some (take ((length b + 1) div 2) (insert_sorted b key x), drop ((length b + 1) div 2) (insert_sorted b key x))"
proof -
  let ?P = "pair_size L" and ?n = "length b" and ?c = "below_count b key"
  define t where "t = (length b + 1) div 2"
  have t: "0 < t" "t \<le> ?n" "2 * t \<le> ?n + 1"
    using assms(3) unfolding t_def by linarith+
  have c: "?c \<le> ?n"
    by (rule below_count_le)
  have target: "(byte_size L b + ?P) div ?P div 2 = t"
  proof -
    have "byte_size L b + ?P = (?n + 1) * ?P"
      by (simp add: byte_size_eq)
    then show ?thesis
      using assms(1) by (simp add: t_def)
  qed
  have pos: "(off L ?c - begin_pos L) div ?P = ?c"
    using assms(1) by (simp add: off_def)
  have fits: "off L m \<le> PAGE_SIZE" if "m \<le> ?n" for m
    using off_simps(2) [OF assms(1), of m ?n] that assms(4) by linarith
  have cut: "byte_size L b - m * ?P = (?n - m) * ?P"
    "byte_size L b + begin_pos L - (?n - m) * ?P = off L m" if "m \<le> ?n" for m
  proof -
    have "?n * ?P = (?n - m) * ?P + m * ?P"
      using that by (simp add: distrib_right [symmetric])
    then show "byte_size L b - m * ?P = (?n - m) * ?P" "byte_size L b + begin_pos L - (?n - m) * ?P = off L m"
      by (simp_all add: byte_size_eq off_def)
  qed
  have move: "move_data L [] (begin_pos L) b (off L m) ((?n - m) * ?P) = Some (drop m b, take m b)" if "m \<le> ?n" for m
    using move_data_ok [OF assms(1), of 0 "[]" m "?n - m" b] fits [of "?n - m"] that by (simp add: off_eqs(3))
  show ?thesis
  proof (cases "?c < t")
    case True
    have "blk_insert L (take (t - 1) b) (off L ?c) key x = Some (take ?c (take (t - 1) b) @ (key, x) # drop ?c (take (t - 1) b))"
    proof (rule blk_insert_ok [OF assms(1)])
      have "length (take (t - 1) b) = t - 1"
        using t by simp
      then show "?c \<le> length (take (t - 1) b)" "off L (length (take (t - 1) b) + 1) \<le> PAGE_SIZE"
        using True t(1,2) fits [of t] unfolding \<open>length (take (t - 1) b) = t - 1\<close> by simp_all
    qed
    then have "blk_split L b [] key x = Some (take ?c (take (t - 1) b) @ (key, x) # drop ?c (take (t - 1) b), drop (t - 1) b)"
      using True t target pos move [of "t - 1"] cut [of "t - 1"] lower_bound_ok [OF assms(1,2), of key]
      by (simp add: blk_split_def Let_def off_eqs(5))
    moreover obtain u where u: "t = Suc u" "?c \<le> u"
      using True by (cases t) simp_all
    then have "take t (insert_sorted b key x) = take ?c (take (t - 1) b) @ (key, x) # drop ?c (take (t - 1) b)"
      "drop t (insert_sorted b key x) = drop (t - 1) b"
      using c t(2) by (simp_all add: insert_sorted_def min_absorb1 min_absorb2 Suc_diff_le drop_take)
    ultimately show ?thesis
      by (simp add: t_def)
  next
    case False
    have "blk_insert L (drop t b) (off L (?c - t)) key x = Some (take (?c - t) (drop t b) @ (key, x) # drop (?c - t) (drop t b))"
      using False t c fits [of "?n - t + 1"] by (intro blk_insert_ok [OF assms(1)]) (simp_all add: Suc_diff_le)
    then have "blk_split L b [] key x = Some (take t b, take (?c - t) (drop t b) @ (key, x) # drop (?c - t) (drop t b))"
      using False t target pos move [of t] cut [of t] lower_bound_ok [OF assms(1,2), of key]
      by (simp add: blk_split_def Let_def off_eqs(5))
    moreover have "take t (insert_sorted b key x) = take t b"
      "drop t (insert_sorted b key x) = take (?c - t) (drop t b) @ (key, x) # drop (?c - t) (drop t b)"
      using False t c by (simp_all add: insert_sorted_def min_def drop_take)
    ultimately show ?thesis
      by (simp add: t_def)
  qed
qed

lemma blk_average_ok:
  assumes "0 < pair_size L" "off L (length a) \<le> PAGE_SIZE" "off L (length b) \<le> PAGE_SIZE"
  obtains n where "blk_average L a b = Some (take n (a @ b), drop n (a @ b))" "n \<le> length a + length b"
    "n = (length a + length b) div 2 \<or> n = (length a + length b + 1) div 2"
proof -
  let ?P = "pair_size L" and ?n = "length a" and ?m = "length b"
  define h where "h = (?n + ?m) div 2"
  have half: "(byte_size L a + byte_size L b) div ?P div 2 = h"
  proof -
    have "byte_size L a + byte_size L b = (?n + ?m) * ?P"
      by (simp add: byte_size_eq distrib_right)
    then show ?thesis
      using assms(1) by (simp add: h_def)
  qed
  have gt: "byte_size L a > byte_size L b \<longleftrightarrow> ?n > ?m"
    using assms(1) by (simp add: byte_size_eq)
  have fits: "off L k \<le> PAGE_SIZE" if "k \<le> ?n \<or> k \<le> ?m" for k
    using off_simps(2) [OF assms(1), of k ?n] off_simps(2) [OF assms(1), of k ?m] that assms(2,3) by linarith
  show ?thesis
  proof (cases "?n > ?m")
    case True
    then have h: "h \<le> ?n" "?m + (?n - h) \<le> ?n"
      unfolding h_def by linarith+
    have "byte_size L a - h * ?P = (?n - h) * ?P"
      by (simp add: byte_size_eq diff_mult_distrib)
    moreover have "move_data L b (begin_pos L) a (off L h) ((?n - h) * ?P) = Some (drop h a @ b, take h a)"
      using move_data_ok [OF assms(1), of 0 b h "?n - h" a] fits [of "?m + (?n - h)"] h by (simp add: off_eqs(3))
    ultimately have "blk_average L a b = Some (take h a, drop h a @ b)"
      using True gt half by (simp add: blk_average_def Let_def off_eqs(5))
    then show ?thesis
      using h by (intro that [of h]) (simp_all add: h_def)
  next
    case False
    define k where "k = ?m - h"
    have k: "k \<le> ?m" "?n + k \<le> ?m" "?n + k = (?n + ?m + 1) div 2"
      using False unfolding k_def h_def by linarith+
    have "byte_size L b - h * ?P = k * ?P"
      by (simp add: byte_size_eq diff_mult_distrib k_def)
    moreover have "begin_pos L + byte_size L a = off L ?n"
      by (simp add: byte_size_eq off_def)
    moreover have "move_data L a (off L ?n) b (begin_pos L) (k * ?P) = Some (a @ take k b, drop k b)"
      using move_data_ok [OF assms(1), of ?n a 0 k b] fits [of "?n + k"] k by (simp add: off_eqs(3))
    ultimately have "blk_average L a b = Some (a @ take k b, drop k b)"
      using False gt half by (simp add: blk_average_def Let_def)
    then show ?thesis
      using that [of "?n + k"] k(1,3) by (metis add_le_cancel_left append_eq_append_conv_if append_take_drop_id
        diff_add_inverse drop_append drop_all take_all take_append le_add1 append_Nil)
  qed
qed

section \<open>Properties of the blocks\<close>

text \<open>The reference for the search: a scan from the first pair.\<close>

fun scan :: "('k :: linorder, 'x) pairs \<Rightarrow> 'k \<Rightarrow> nat" where
  "scan [] key = 0"
| "scan ((k, x) # b) key = (if k < key then scan b key + 1 else 0)"

lemma scan_eq: "scan b key = below_count b key"
  by (induction b key rule: scan.induct) (simp_all add: below_count_def)

lemma below_count_key:
  assumes "sorted_keys b"
  shows "below_count b key < length b \<and> fst (b ! below_count b key) = key \<longleftrightarrow> key \<in> fst ` set b"
proof
  assume "key \<in> fst ` set b"
  then obtain i where i: "i < length b" "fst (b ! i) = key"
    by (metis imageE in_set_conv_nth)
  then have "below_count b key = i"
    using sorted_keys_nth [OF assms _ i(1)] by (intro below_count_unique) auto
  then show "below_count b key < length b \<and> fst (b ! below_count b key) = key"
    using i by simp
qed (metis image_eqI nth_mem)

text \<open>
  Property C37. The binary search of a block over byte offsets finds what a scan from its first pair finds: the
  first pair whose key is not smaller, or the end of the block. So a key of the block is found and is nowhere
  else, and only such a key.
\<close>

theorem block_search_is_scan:
  assumes "0 < pair_size L" "sorted_keys b"
  shows "lower_bound L b key = Some (begin_pos L + scan b key * pair_size L) \<and>
    (key_at L b (begin_pos L + scan b key * pair_size L) = Some key \<longleftrightarrow> key \<in> fst ` set b)"
proof
  let ?o = "begin_pos L + scan b key * pair_size L"
  have o: "?o = off L (below_count b key)"
    by (simp add: scan_eq off_def)
  show "lower_bound L b key = Some ?o"
    using lower_bound_ok [OF assms] by (simp only: o)
  have "key_at L b ?o = (if below_count b key < length b then Some (fst (b ! below_count b key)) else None)"
    using assms(1) by (simp add: o key_at_def vget_def)
  then show "key_at L b ?o = Some key \<longleftrightarrow> key \<in> fst ` set b"
    using below_count_key [OF assms(2), of key] by auto
qed

theorem block_search_is_scan_witness:
  "lower_bound (index_layout 8) [(2 :: int, 7 :: nat), (5, 8), (9, 9)] 5 = Some 15 \<and>
   lower_bound (index_layout 8) [(2 :: int, 7 :: nat), (5, 8), (9, 9)] 6 = Some 27"
  using block_search_is_scan [of "index_layout 8" "[(2 :: int, 7 :: nat), (5, 8), (9, 9)]" 5]
    block_search_is_scan [of "index_layout 8" "[(2 :: int, 7 :: nat), (5, 8), (9, 9)]" 6]
  by (simp add: index_layout_def PTR_SIZE_def)

text \<open>
  Property C38. Splitting a block for an insertion: the two blocks together hold the pairs of the block and the
  new one, in order, every key of the left block below every key of the right one; both fit into a page, none is
  empty, and their sizes differ by at most one pair.
\<close>

theorem split_halves_block:
  assumes "0 < pair_size L" "sorted_keys b" "b \<noteq> []" "end_off L b \<le> PAGE_SIZE" "key \<notin> fst ` set b"
  shows "\<exists>l r. blk_split L b [] key x = Some (l, r) \<and> sorted_keys (l @ r) \<and> set (l @ r) = insert (key, x) (set b) \<and>
    l \<noteq> [] \<and> r \<noteq> [] \<and> end_off L l \<le> PAGE_SIZE \<and> end_off L r \<le> PAGE_SIZE \<and>
    (length r = length l \<or> length r = length l + 1)"
proof -
  define n where "n = (length b + 1) div 2"
  define c where "c = insert_sorted b key x"
  have c: "length c = length b + 1" "sorted_keys c" "set c = insert (key, x) (set b)"
    using sorted_insert [OF assms(2,5)] by (simp_all add: c_def)
  have n: "0 < n" "n \<le> length b" "length c - n \<le> length b"
    "length c - n = n \<or> length c - n = n + 1" "n < length c"
    using assms(3) c(1) by (cases b; simp add: n_def; presburger)+
  have fits: "off L m \<le> PAGE_SIZE" if "m \<le> length b" for m
    using off_simps(2) [OF assms(1), of m "length b"] that assms(4) by (simp add: off_eqs del: off_simps)
  have "blk_split L b [] key x = Some (take n c, drop n c)"
    using blk_split_ok [of L b key x] assms by (simp add: n_def c_def off_eqs)
  moreover have "end_off L (take n c) \<le> PAGE_SIZE" "end_off L (drop n c) \<le> PAGE_SIZE"
    using n c(1) by (simp_all add: off_eqs fits del: off_simps)
  ultimately show ?thesis
    using c n by (intro exI [of _ "take n c"] exI [of _ "drop n c"]) (auto simp: min_absorb2)
qed

theorem split_halves_block_witness:
  "\<exists>l r. blk_split (data_layout 8 8) [(2 :: int, 7 :: nat), (5, 8), (9, 9)] [] 6 1 = Some (l, r) \<and>
    set (l @ r) = {(2, 7), (5, 8), (6, 1), (9, 9)} \<and> l \<noteq> [] \<and> r \<noteq> []"
  using split_halves_block [of "data_layout 8 8" "[(2 :: int, 7 :: nat), (5, 8), (9, 9)]" 6 1]
  by (simp add: data_layout_def end_off_def byte_size_def PAGE_SIZE_def insert_commute) blast

text \<open>Averaging or merging two neighbours keeps their pairs in order, and leaves the blocks within a page.\<close>

lemma average_keeps_pairs:
  assumes "0 < pair_size L" "end_off L a \<le> PAGE_SIZE" "end_off L b \<le> PAGE_SIZE"
  shows "\<exists>l r. blk_average L a b = Some (l, r) \<and> l @ r = a @ b \<and> (length r \<le> length l + 1 \<and> length l \<le> length r + 1)"
proof -
  obtain n where n: "blk_average L a b = Some (take n (a @ b), drop n (a @ b))" "n \<le> length a + length b"
    "n = (length a + length b) div 2 \<or> n = (length a + length b + 1) div 2"
    using blk_average_ok [of L a b] assms by (auto simp: off_eqs)
  define l r where "l = take n (a @ b)" and "r = drop n (a @ b)"
  have s: "length l = n" "length r + n = length a + length b"
    using n(2) by (simp_all add: l_def r_def)
  have "l @ r = a @ b"
    by (simp only: l_def r_def append_take_drop_id)
  moreover from s have "length r \<le> length l + 1 \<and> length l \<le> length r + 1"
    using n(3) by (elim disjE) presburger+
  ultimately show ?thesis
    using n(1) by (auto simp: l_def r_def)
qed

text \<open>The check of the sizes passes a key and a value of which no two pairs fit into a block.\<close>

lemma size_check_ignores_key: "data_size_check 4000 2000 \<and> \<not> can_insert (data_layout 4000 2000) []"
  by (simp add: data_size_check_def can_insert_def data_layout_def byte_size_def PAGE_SIZE_def PTR_SIZE_def)

end
