(* ===== verification/BPStore.thy ===== *)
theory BPStore
  imports BPBlocks
begin

text \<open>
  The blocks of a B+ tree file and the allocation of blocks (\<open>Base/BPTree_impls/BPTree_impl.hpp\<close>, the head and
  record blocks of \<open>Interpreter.hpp\<close>, the links of \<open>DataBlock_Impl.hpp\<close>).

  The scheduler is a memory of blocks (theory \<open>Scheduler\<close>): the model has it as a map from block numbers to
  what the blocks hold. The head block, always held, is the record itself. Erased blocks form a stack whose
  bottom is in the head block; when that is full, erased blocks themselves hold the rest. An exception
  (\<open>BPTreeRuntimeError\<close>, \<open>BPTreeFileError\<close>) and a failed assertion are \<open>None\<close>.
\<close>

section \<open>The state\<close>

datatype ('k, 'v) tree_block =
  Data (d_prev: nat) (d_next: nat) (d_pairs: "('k, 'v) pairs")
| Index (i_pairs: "('k, nat) pairs")
| Record (r_last: nat) (r_deleted: "nat list")

record ('k, 'v) store =
  st_blocks :: "nat \<Rightarrow> ('k, 'v) tree_block option"
  st_total :: nat
  h_begin :: nat
  h_valid :: nat
  h_record :: nat
  h_deleted :: nat
  h_slots :: "nat \<Rightarrow> nat"
  h_extra :: "nat option"
  d_buffer :: bool
  d_index :: nat

definition is_data_block :: "('k, 'v) store \<Rightarrow> nat \<Rightarrow> bool" where
  "is_data_block s i = (case st_blocks s i of Some (Data p n b) \<Rightarrow> True | _ \<Rightarrow> False)"

definition set_block :: "('k, 'v) store \<Rightarrow> nat \<Rightarrow> ('k, 'v) tree_block \<Rightarrow> ('k, 'v) store" where
  "set_block s i b = s\<lparr>st_blocks := (st_blocks s)(i := Some b)\<rparr>"

text \<open>Opening a block as a data or an index block throws when it is of another kind.\<close>

definition data_block :: "('k, 'v) store \<Rightarrow> nat \<Rightarrow> (nat \<times> nat \<times> ('k, 'v) pairs) option" where
  "data_block s i = (case st_blocks s i of Some (Data p n b) \<Rightarrow> Some (p, n, b) | _ \<Rightarrow> None)"

definition index_block :: "('k, 'v) store \<Rightarrow> nat \<Rightarrow> ('k, nat) pairs option" where
  "index_block s i = (case st_blocks s i of Some (Index b) \<Rightarrow> Some b | _ \<Rightarrow> None)"

definition record_block :: "('k, 'v) store \<Rightarrow> nat \<Rightarrow> (nat \<times> nat list) option" where
  "record_block s i = (case st_blocks s i of Some (Record l d) \<Rightarrow> Some (l, d) | _ \<Rightarrow> None)"

section \<open>The head block and the record blocks\<close>

text \<open>The extra data of a head block, when it has any, is preceded by its size and lies before the numbers of erased blocks.\<close>

definition slots_begin :: "('k, 'v) store \<Rightarrow> nat" where
  "slots_begin s = 17 + (case h_extra s of None \<Rightarrow> 0 | Some n \<Rightarrow> 2 + n)"

definition rest_size :: "('k, 'v) store \<Rightarrow> nat" where
  "rest_size s =
     (let ret = PAGE_SIZE - (case h_extra s of None \<Rightarrow> 0 | Some n \<Rightarrow> 2 + n) - 17
      in if ret div 4 < h_deleted s then ret mod 4 else ret - h_deleted s * 4)"

definition head_can_add :: "('k, 'v) store \<Rightarrow> bool" where
  "head_can_add s \<longleftrightarrow> rest_size s \<ge> 4"

definition head_slot :: "('k, 'v) store \<Rightarrow> nat \<Rightarrow> nat option" where
  "head_slot s pos = (if slots_begin s + pos * 4 + 4 \<le> PAGE_SIZE then Some (h_slots s pos) else None)"

definition head_add :: "('k, 'v) store \<Rightarrow> nat \<Rightarrow> ('k, 'v) store option" where
  "head_add s index = do {
     old \<leftarrow> head_slot s (h_deleted s);
     Some (s\<lparr>h_slots := (h_slots s)(h_deleted s := index), h_deleted := h_deleted s + 1\<rparr>)
   }"

definition head_pop :: "('k, 'v) store \<Rightarrow> (nat \<times> ('k, 'v) store) option" where
  "head_pop s = do {
     check (0 < h_deleted s);
     let n = h_deleted s - 1;
     result \<leftarrow> head_slot s n;
     Some (result, s\<lparr>h_slots := (h_slots s)(n := 0), h_deleted := n\<rparr>)
   }"

definition record_can_add :: "nat list \<Rightarrow> bool" where
  "record_can_add d \<longleftrightarrow> length d < (PAGE_SIZE - 7) div 4"

section \<open>Allocation\<close>

definition get_new_block_index :: "('k, 'v) store \<Rightarrow> (nat \<times> ('k, 'v) store) option" where
  "get_new_block_index s =
     (if \<not> d_buffer s then head_pop s
      else do {
        (l, d) \<leftarrow> record_block s (d_index s);
        check (d \<noteq> []);
        let index = last d;
        let s = set_block s (d_index s) (Record l (butlast d));
        s \<leftarrow> (if butlast d = []
             then do {
               let s = s\<lparr>d_index := l\<rparr>;
               if l = 0 then Some (s\<lparr>d_buffer := False\<rparr>)
               else do { r \<leftarrow> record_block s l; Some s }
             } else Some s);
        Some (index, s\<lparr>h_deleted := h_deleted s - 1\<rparr>)
      })"

text \<open>A new block at the end of the file, or a reused one; the scheduler counts blocks in 32 bits.\<close>

definition create_block :: "('k, 'v) tree_block \<Rightarrow> ('k, 'v) store \<Rightarrow> (nat \<times> ('k, 'v) store) option" where
  "create_block blank s = do {
     let s = s\<lparr>h_valid := (h_valid s + 1) mod 2 ^ 32\<rparr>;
     (if h_deleted s = 0
      then Some (st_total s, set_block (s\<lparr>st_total := (st_total s + 1) mod 2 ^ 32\<rparr>) (st_total s) blank)
      else do {
        (index, s) \<leftarrow> get_new_block_index s;
        Some (index, set_block s index blank)
      })
   }"

definition create_data_block :: "('k, 'v) store \<Rightarrow> (nat \<times> ('k, 'v) store) option" where
  "create_data_block s = create_block (Data 0 0 []) s"

definition create_index_block :: "('k, 'v) store \<Rightarrow> (nat \<times> ('k, 'v) store) option" where
  "create_index_block s = create_block (Index []) s"

text \<open>\<open>DataBlock::erase_block\<close> takes a data block out of the chain of its neighbours.\<close>

definition unlink_data :: "('k, 'v) store \<Rightarrow> nat \<Rightarrow> ('k, 'v) store option" where
  "unlink_data s index = do {
     (prev_index, next_index, b) \<leftarrow> data_block s index;
     s \<leftarrow> (if prev_index \<noteq> 0 then do { (p, n, b) \<leftarrow> data_block s prev_index; Some (set_block s prev_index (Data p next_index b)) }
          else Some s);
     (if next_index \<noteq> 0 then do { (p, n, b) \<leftarrow> data_block s next_index; Some (set_block s next_index (Data prev_index n b)) }
      else Some s)
   }"

definition free_block :: "('k, 'v) store \<Rightarrow> nat \<Rightarrow> ('k, 'v) store option" where
  "free_block s index =
     (if d_buffer s
      then do {
        (l, d) \<leftarrow> record_block s (d_index s);
        let (s, l, d) =
          (if record_can_add d then (s, l, d)
           else let new_record = last d
                in (s\<lparr>d_index := new_record, h_record := new_record\<rparr>, d_index s, []));
        Some ((set_block s (d_index s) (Record l (d @ [index])))\<lparr>h_deleted := h_deleted s + 1\<rparr>)
      }
      else if head_can_add s then head_add s index
      else do {
        check (0 < h_deleted s);
        new_record \<leftarrow> head_slot s (h_deleted s - 1);
        let s = s\<lparr>d_index := new_record, h_record := new_record, d_buffer := True\<rparr>;
        Some ((set_block s new_record (Record 0 [index]))\<lparr>h_deleted := h_deleted s + 1\<rparr>)
      })"

definition erase_block :: "('k, 'v) store \<Rightarrow> nat \<Rightarrow> ('k, 'v) store option" where
  "erase_block s index = do {
     s \<leftarrow> (if is_data_block s index then unlink_data s index else Some s);
     free_block (s\<lparr>h_valid := (h_valid s + 2 ^ 32 - 1) mod 2 ^ 32\<rparr>) index
   }"

definition begin_block :: "('k, 'v) store \<Rightarrow> nat option" where
  "begin_block s = (if h_begin s = 0 then None else Some (h_begin s))"

definition set_begin_block :: "('k, 'v) store \<Rightarrow> nat option \<Rightarrow> ('k, 'v) store" where
  "set_begin_block s i = s\<lparr>h_begin := (case i of None \<Rightarrow> 0 | Some i \<Rightarrow> i)\<rparr>"

text \<open>\<open>init\<close> on an empty and on an existing file.\<close>

definition new_store :: "('k, 'v) store" where
  "new_store = \<lparr>st_blocks = Map.empty, st_total = 1, h_begin = 0, h_valid = 0, h_record = 0, h_deleted = 0,
     h_slots = (\<lambda>_. 0), h_extra = None, d_buffer = False, d_index = 0\<rparr>"

definition reopen :: "('k, 'v) store \<Rightarrow> ('k, 'v) store option" where
  "reopen s = do {
     let s = s\<lparr>d_index := h_record s, d_buffer := h_record s \<noteq> 0\<rparr>;
     (if h_record s \<noteq> 0 then do { r \<leftarrow> record_block s (h_record s); Some s } else Some s)
   }"

section \<open>Erased blocks are a stack\<close>

definition head_cap :: "('k, 'v) store \<Rightarrow> nat" where
  "head_cap s = (PAGE_SIZE - slots_begin s) div 4"

definition head_list :: "('k, 'v) store \<Rightarrow> nat \<Rightarrow> nat list" where
  "head_list s n = map (h_slots s) [0..<n]"

text \<open>
  \<open>records s i xs\<close>: the stack \<open>xs\<close>, top first, when block \<open>i\<close> holds its top part. A block that holds a
  part of the stack is itself the erased block just below that part.
\<close>

inductive records :: "('k, 'v) store \<Rightarrow> nat \<Rightarrow> nat list \<Rightarrow> bool" for s where
  lowest: "record_block s i = Some (0, d) \<Longrightarrow> d \<noteq> [] \<Longrightarrow> rev (head_list s (head_cap s)) = i # ys \<Longrightarrow>
    records s i (rev d @ i # ys)"
| upper: "record_block s i = Some (l, d) \<Longrightarrow> d \<noteq> [] \<Longrightarrow> l \<noteq> 0 \<Longrightarrow> records s l (i # ys) \<Longrightarrow>
    records s i (rev d @ i # ys)"

definition erased :: "('k, 'v) store \<Rightarrow> nat list \<Rightarrow> bool" where
  "erased s xs \<longleftrightarrow> (if d_buffer s then records s (d_index s) xs
     else length xs \<le> head_cap s \<and> xs = rev (head_list s (length xs)))"

definition alloc_inv :: "('k, 'v) store \<Rightarrow> nat list \<Rightarrow> bool" where
  "alloc_inv s xs \<longleftrightarrow> erased s xs \<and> distinct xs \<and> 0 \<notin> set xs \<and> (\<forall>x \<in> set xs. x < st_total s) \<and>
     h_deleted s = length xs \<and> 0 < st_total s \<and> slots_begin s + 4 \<le> PAGE_SIZE"

lemma records_in: "records s i xs \<Longrightarrow> i \<in> set xs"
  by (induction rule: records.induct) auto

lemma head_can_add_iff: "slots_begin s + 4 \<le> PAGE_SIZE \<Longrightarrow> head_can_add s \<longleftrightarrow> h_deleted s < head_cap s"
proof -
  assume "slots_begin s + 4 \<le> PAGE_SIZE"
  define r where "r = PAGE_SIZE - slots_begin s"
  have "PAGE_SIZE - (case h_extra s of None \<Rightarrow> 0 | Some n \<Rightarrow> 2 + n) - 17 = r"
    by (simp add: r_def slots_begin_def split: option.split)
  then have "rest_size s = (if r div 4 < h_deleted s then r mod 4 else r - h_deleted s * 4)"
    by (simp add: rest_size_def)
  moreover have "4 \<le> r - h_deleted s * 4 \<longleftrightarrow> h_deleted s < r div 4"
    by (simp add: less_eq_div_iff_mult_less_eq Suc_le_eq [symmetric]) linarith
  moreover have "\<not> 4 \<le> r mod 4"
    by (simp add: not_le)
  ultimately show ?thesis
    by (simp add: head_can_add_def head_cap_def r_def [symmetric])
qed

lemma head_slot_in: "n < head_cap s \<Longrightarrow> head_slot s n = Some (h_slots s n)"
  by (auto simp: head_slot_def head_cap_def)

text \<open>The stack depends only on the head block and on the blocks in it.\<close>

lemma records_cong:
  "records s i xs \<Longrightarrow> \<forall>x \<in> set (tl xs). st_blocks s' x = st_blocks s x \<Longrightarrow> h_slots s' = h_slots s \<Longrightarrow>
    h_extra s' = h_extra s \<Longrightarrow> records s' i xs"
proof (induction rule: records.induct)
  case (lowest i d ys)
  have "head_list s' (head_cap s') = head_list s (head_cap s)"
    using lowest by (simp add: head_list_def head_cap_def slots_begin_def)
  then show ?case
    using lowest by (intro records.lowest) (auto simp: record_block_def)
next
  case (upper i l d ys)
  then show ?case
    by (intro records.upper [where l = l]) (auto simp: record_block_def)
qed

lemma erased_cong:
  assumes "erased s xs" "\<forall>x \<in> set xs. st_blocks s' x = st_blocks s x" "h_slots s' = h_slots s" "h_extra s' = h_extra s"
    "d_buffer s' = d_buffer s" "d_index s' = d_index s"
  shows "erased s' xs"
  using assms records_cong [of s "d_index s" xs s'] list.set_sel(2) [of xs]
  by (cases xs) (auto simp: erased_def head_cap_def slots_begin_def head_list_def)

lemma alloc_inv_cong:
  assumes "alloc_inv s xs" "\<forall>x \<in> set xs. st_blocks s' x = st_blocks s x" "h_slots s' = h_slots s" "h_extra s' = h_extra s"
    "d_buffer s' = d_buffer s" "d_index s' = d_index s" "h_deleted s' = h_deleted s" "st_total s' = st_total s"
  shows "alloc_inv s' xs"
  using assms erased_cong [of s xs s'] by (auto simp: alloc_inv_def slots_begin_def)

lemma set_block_sel [simp]:
  "st_blocks (set_block s i b) = (st_blocks s)(i := Some b)" "st_total (set_block s i b) = st_total s"
  "h_begin (set_block s i b) = h_begin s" "h_slots (set_block s i b) = h_slots s" "h_extra (set_block s i b) = h_extra s"
  "d_buffer (set_block s i b) = d_buffer s" "d_index (set_block s i b) = d_index s" "h_deleted (set_block s i b) = h_deleted s"
  by (simp_all add: set_block_def)

lemma block_sel_cong [simp]:
  "record_block (s\<lparr>d_index := i\<rparr>) = record_block s" "record_block (s\<lparr>d_buffer := b\<rparr>) = record_block s"
  "record_block (s\<lparr>h_deleted := n\<rparr>) = record_block s"
  by (simp_all add: record_block_def fun_eq_iff)

lemma head_list_same: "\<forall>j < n. f j = h_slots s j \<Longrightarrow> head_list (s\<lparr>h_slots := f\<rparr>) n = head_list s n"
  by (simp add: head_list_def)

lemma pop_index_ok:
  assumes "alloc_inv s (x # xs)"
  obtains s' where "get_new_block_index s = Some (x, s')" "alloc_inv s' xs" "h_begin s' = h_begin s" "st_total s' = st_total s"
    "\<forall>y. y \<notin> set (x # xs) \<longrightarrow> st_blocks s' y = st_blocks s y"
proof (cases "d_buffer s")
  case False
  define n where "n = length xs"
  have e: "Suc n \<le> head_cap s" "x # xs = rev (head_list s (Suc n))" "h_deleted s = Suc n"
    using assms False by (simp_all add: alloc_inv_def erased_def n_def)
  then have x: "x = h_slots s n" "xs = rev (head_list s n)"
    by (simp_all add: head_list_def)
  let ?s = "s\<lparr>h_slots := (h_slots s)(n := 0), h_deleted := n\<rparr>"
  have "get_new_block_index s = Some (x, ?s)"
    using False e head_slot_in [of n s] x by (simp add: get_new_block_index_def head_pop_def Let_def)
  moreover have "erased ?s xs"
    using False e x by (simp add: erased_def head_list_def head_cap_def slots_begin_def n_def [symmetric] map_eq_conv flip: n_def)
  ultimately show ?thesis
    using that [of ?s] assms by (simp add: alloc_inv_def slots_begin_def n_def)
next
  case True
  define i where "i = d_index s"
  have rec: "records s i (x # xs)" and dist: "distinct (x # xs)" and zero: "0 \<notin> set (x # xs)"
    using assms True by (simp_all add: alloc_inv_def erased_def i_def)
  from rec obtain l d ys where r: "record_block s i = Some (l, d)" "d \<noteq> []" "x # xs = rev d @ i # ys"
    "l = 0 \<longrightarrow> rev (head_list s (head_cap s)) = i # ys" "l \<noteq> 0 \<longrightarrow> records s l (i # ys)"
    by (cases rule: records.cases) auto
  have x: "last d = x" "xs = rev (butlast d) @ i # ys"
    using r(2,3) by (cases d rule: rev_cases; simp)+
  let ?s1 = "set_block s i (Record l (butlast d))"
  let ?s2 = "(if butlast d = [] then if l = 0 then ?s1\<lparr>d_index := 0, d_buffer := False\<rparr> else ?s1\<lparr>d_index := l\<rparr> else ?s1)"
  let ?s = "?s2\<lparr>h_deleted := h_deleted s - 1\<rparr>"
  have cong: "records s' l (i # ys)" if "l \<noteq> 0" "st_blocks s' = (st_blocks s)(i := b)" "h_slots s' = h_slots s"
    "h_extra s' = h_extra s" for b s'
    using r(5) that dist r(3) by (intro records_cong [of s l "i # ys" s']) auto
  have l: "l \<in> set ys" if "l \<noteq> 0"
  proof -
    from r(5) that have "records s l (i # ys)"
      by simp
    then show ?thesis
      by (cases rule: records.cases) (auto simp: append_eq_Cons_conv Cons_eq_append_conv)
  qed
  then have "record_block ?s1 l = record_block s l" "\<exists>p. record_block s l = Some p" if "l \<noteq> 0"
    using that dist r(3,5) by (auto simp: record_block_def elim: records.cases)
  then have "get_new_block_index s = Some (x, ?s)"
    using True r(1,2) x(1) by (auto simp: get_new_block_index_def i_def [symmetric] Let_def)
  moreover have "erased ?s xs"
  proof (cases "butlast d = []")
    case True
    have h: "head_list ?s = head_list s" "head_cap ?s = head_cap s"
      by (simp_all add: head_list_def head_cap_def slots_begin_def fun_eq_iff)
    show ?thesis
    proof (cases "l = 0")
      case l: True
      then have "rev (head_list s (head_cap s)) = xs"
        using r(4) x(2) True by simp
      then show ?thesis
        using True l h by (auto simp: erased_def head_list_def slots_begin_def head_cap_def)
    next
      case l: False
      then show ?thesis
        using cong [of ?s] True \<open>d_buffer s\<close> x(2) by (simp add: erased_def)
    qed
  next
    case False
    have "record_block ?s i = Some (l, butlast d)"
      using False by (simp add: record_block_def)
    moreover have "rev (head_list ?s (head_cap ?s)) = rev (head_list s (head_cap s))"
      using False by (simp add: head_list_def head_cap_def slots_begin_def)
    ultimately have "records ?s i (rev (butlast d) @ i # ys)"
      using records.lowest [of ?s i "butlast d" ys] records.upper [of ?s i l "butlast d" ys] cong [of ?s] r(4) False
      by (cases "l = 0") simp_all
    then show ?thesis
      using False True x(2) by (simp add: erased_def i_def [symmetric])
  qed
  ultimately show ?thesis
    using that [of ?s] assms records_in [OF rec] by (auto simp: alloc_inv_def slots_begin_def)
qed

lemma alloc_inv_top: "alloc_inv s xs \<Longrightarrow> d_buffer s \<Longrightarrow> xs \<noteq> []"
  using records_in by (fastforce simp: alloc_inv_def erased_def)

text \<open>A block for the client: the erased block on top of the stack, or a new one at the end of the file.\<close>

lemma create_ok:
  assumes "alloc_inv s xs" "st_total s + 1 < 2 ^ 32"
  obtains i s' where "create_block b s = Some (i, s')" "alloc_inv s' (tl xs)" "i = (if xs = [] then st_total s else hd xs)"
    "st_blocks s' i = Some b" "\<forall>y. y \<notin> insert i (set xs) \<longrightarrow> st_blocks s' y = st_blocks s y" "h_begin s' = h_begin s"
    "st_total s' = (if xs = [] then st_total s + 1 else st_total s)"
proof (cases xs)
  case Nil
  let ?s = "set_block (s\<lparr>h_valid := (h_valid s + 1) mod 2 ^ 32, st_total := st_total s + 1\<rparr>) (st_total s) b"
  have "alloc_inv ?s []"
    using assms alloc_inv_top [of s xs] Nil by (auto simp: alloc_inv_def erased_def slots_begin_def head_list_def)
  moreover have "create_block b s = Some (st_total s, ?s)"
    using assms Nil by (simp add: create_block_def alloc_inv_def Let_def)
  ultimately show ?thesis
    using that [of "st_total s" ?s] Nil by simp
next
  case (Cons x ys)
  let ?v = "s\<lparr>h_valid := (h_valid s + 1) mod 2 ^ 32\<rparr>"
  have "alloc_inv ?v (x # ys)"
    using assms(1) Cons by (auto intro: alloc_inv_cong)
  then obtain s1 where s1: "get_new_block_index ?v = Some (x, s1)" "alloc_inv s1 ys" "h_begin s1 = h_begin s"
    "st_total s1 = st_total s" "\<forall>y. y \<notin> set (x # ys) \<longrightarrow> st_blocks s1 y = st_blocks s y"
    by (rule pop_index_ok) auto
  have d: "x \<notin> set ys" "h_deleted s \<noteq> 0"
    using assms(1) Cons by (simp_all add: alloc_inv_def)
  have "alloc_inv (set_block s1 x b) ys"
    using s1(2) d(1) by (auto intro: alloc_inv_cong)
  moreover have "create_block b s = Some (x, set_block s1 x b)"
    using s1(1) d(2) by (simp add: create_block_def Let_def)
  ultimately show ?thesis
    using s1(3-5) Cons by (intro that [of x "set_block s1 x b"]) simp_all
qed

text \<open>An erased block goes on top of the stack.\<close>

lemma free_ok:
  assumes inv: "alloc_inv s xs" and i: "i \<notin> set xs" "i \<noteq> 0" "i < st_total s"
  obtains s' where "free_block s i = Some s'" "alloc_inv s' (i # xs)" "st_total s' = st_total s" "h_begin s' = h_begin s"
    "\<forall>y. y \<notin> set xs \<longrightarrow> st_blocks s' y = st_blocks s y"
proof (cases "d_buffer s")
  case False
  have e: "length xs \<le> head_cap s" "xs = rev (head_list s (length xs))" "h_deleted s = length xs" "slots_begin s + 4 \<le> PAGE_SIZE"
    using inv False by (simp_all add: alloc_inv_def erased_def)
  show ?thesis
  proof (cases "length xs < head_cap s")
    case True
    let ?s = "s\<lparr>h_slots := (h_slots s)(length xs := i), h_deleted := length xs + 1\<rparr>"
    have "erased ?s (i # xs)"
      using False e(2) True by (simp add: erased_def head_list_def head_cap_def slots_begin_def rev_swap)
    then have "alloc_inv ?s (i # xs)"
      using inv i by (auto simp: alloc_inv_def slots_begin_def)
    moreover have "free_block s i = Some ?s"
      using True False e head_slot_in [OF True] by (simp add: free_block_def head_can_add_iff head_add_def)
    ultimately show ?thesis
      using that [of ?s] by simp
  next
    case full: False
    have pos: "0 < head_cap s"
      using e(4) by (simp add: head_cap_def)
    then obtain r ys where xs: "xs = r # ys" "length xs = head_cap s"
      using full e(1) by (cases xs) auto
    have hd: "r = h_slots s (head_cap s - 1)"
      using e(2) xs pos by (cases "head_cap s") (auto simp: head_list_def)
    let ?s = "(set_block (s\<lparr>d_index := r, h_record := r, d_buffer := True\<rparr>) r (Record 0 [i]))\<lparr>h_deleted := length xs + 1\<rparr>"
    have "free_block s i = Some ?s"
      using full False e xs pos hd head_slot_in [of "head_cap s - 1" s]
      by (simp add: free_block_def head_can_add_iff Let_def)
    moreover have c: "head_cap ?s = head_cap s" "head_list ?s (head_cap s) = head_list s (head_cap s)"
      by (simp_all add: head_list_def head_cap_def slots_begin_def)
    have "rev (head_list s (head_cap s)) = r # ys"
      using e(2) unfolding xs(2) unfolding xs(1) by (rule sym)
    then have "rev (head_list ?s (head_cap ?s)) = r # ys"
      by (simp only: c)
    then have "records ?s r (rev [i] @ r # ys)"
      by (intro records.lowest) (simp_all add: record_block_def)
    then have "alloc_inv ?s (i # xs)"
      using inv i xs by (auto simp: alloc_inv_def erased_def slots_begin_def)
    ultimately show ?thesis
      using that [of ?s] xs by auto
  qed
next
  case True
  define r where "r = d_index s"
  have rec: "records s r xs" and dist: "distinct xs" and e: "h_deleted s = length xs"
    using inv True by (simp_all add: alloc_inv_def erased_def r_def)
  from rec obtain l d ys where d: "record_block s r = Some (l, d)" "d \<noteq> []" "xs = rev d @ r # ys"
    "l = 0 \<longrightarrow> rev (head_list s (head_cap s)) = r # ys" "l \<noteq> 0 \<longrightarrow> records s l (r # ys)"
    by (cases rule: records.cases) auto
  show ?thesis
  proof (cases "record_can_add d")
    case room: True
    let ?s = "(set_block s r (Record l (d @ [i])))\<lparr>h_deleted := length xs + 1\<rparr>"
    have "free_block s i = Some ?s"
      using True room d(1) e by (simp add: free_block_def r_def [symmetric])
    moreover have "rev (head_list ?s (head_cap ?s)) = rev (head_list s (head_cap s))"
      by (simp add: head_list_def head_cap_def slots_begin_def)
    then have "records ?s r (rev (d @ [i]) @ r # ys)"
      using records.lowest [of ?s r "d @ [i]" ys] records.upper [of ?s r l "d @ [i]" ys] d(3-5) dist
        records_cong [of s l "r # ys" ?s] by (cases "l = 0") (auto simp: record_block_def)
    then have "alloc_inv ?s (i # xs)"
      using inv i d(3) True by (auto simp: alloc_inv_def erased_def slots_begin_def r_def)
    ultimately show ?thesis
      using that [of ?s] d(3) by auto
  next
    case full: False
    let ?n = "last d"
    let ?s = "(set_block (s\<lparr>d_index := ?n, h_record := ?n\<rparr>) ?n (Record r [i]))\<lparr>h_deleted := length xs + 1\<rparr>"
    have xs: "xs = ?n # (rev (butlast d) @ r # ys)"
      using d(2,3) by (cases d rule: rev_cases) simp_all
    have "free_block s i = Some ?s"
      using True full d(1) e by (simp add: free_block_def r_def [symmetric] Let_def)
    moreover have "r \<noteq> 0"
      using inv d(3) by (auto simp: alloc_inv_def)
    moreover have "records ?s r xs"
      using dist xs by (intro records_cong [OF rec]) (auto dest: in_set_butlastD)
    ultimately have "records ?s ?n (rev [i] @ xs)"
      using records.upper [of ?s ?n r "[i]" "rev (butlast d) @ r # ys"] xs by (simp add: record_block_def)
    then have "alloc_inv ?s (i # xs)"
      using inv i True by (auto simp: alloc_inv_def erased_def slots_begin_def)
    then show ?thesis
      using \<open>free_block s i = Some ?s\<close> d(2,3) by (intro that [of ?s]) auto
  qed
qed

section \<open>A client of the blocks\<close>

text \<open>A client creates blocks, writes to its own, and erases its own when the blocks a data block is linked to are its own.\<close>

definition linked :: "('k, 'v) store \<Rightarrow> nat set \<Rightarrow> nat \<Rightarrow> bool" where
  "linked s D i \<longleftrightarrow> (\<forall>p n b. st_blocks s i = Some (Data p n b) \<longrightarrow>
     (\<forall>j \<in> {p, n}. j \<noteq> 0 \<longrightarrow> j \<in> D \<and> j \<noteq> i \<and> is_data_block s j))"

inductive uses :: "('k, 'v) store \<Rightarrow> nat set \<Rightarrow> bool" where
  start: "uses new_store {}"
| create: "uses s D \<Longrightarrow> st_total s + 1 < 2 ^ 32 \<Longrightarrow> create_block b s = Some (i, s') \<Longrightarrow> uses s' (insert i D)"
| store: "uses s D \<Longrightarrow> i \<in> D \<Longrightarrow> uses (set_block s i b) D"
| erase: "uses s D \<Longrightarrow> i \<in> D \<Longrightarrow> linked s D i \<Longrightarrow> erase_block s i = Some s' \<Longrightarrow> uses s' (D - {i})"

definition owns :: "('k, 'v) store \<Rightarrow> nat list \<Rightarrow> nat set \<Rightarrow> bool" where
  "owns s xs D \<longleftrightarrow> alloc_inv s xs \<and> D \<inter> set xs = {} \<and> (\<forall>i \<in> D. 0 < i \<and> i < st_total s) \<and>
     {0<..<st_total s} \<subseteq> D \<union> set xs"

definition unlinked :: "('k, 'v) store \<Rightarrow> nat \<Rightarrow> ('k, 'v) store option" where
  "unlinked s i = (if is_data_block s i then unlink_data s i else Some s)"

lemma unlinked_ok:
  assumes "linked s D i"
  obtains u where "unlinked s i = Some u" "\<forall>y. y \<notin> D - {i} \<longrightarrow> st_blocks u y = st_blocks s y"
    "\<exists>f. u = s\<lparr>st_blocks := f\<rparr>"
proof (cases "is_data_block s i")
  case False
  then show ?thesis
    by (intro that [of s]) (auto simp: unlinked_def intro: exI [of _ "st_blocks s"])
next
  case True
  then obtain p n b where b: "st_blocks s i = Some (Data p n b)"
    by (auto simp: is_data_block_def split: option.splits tree_block.splits)
  have l: "j \<noteq> 0 \<Longrightarrow> j \<in> {p, n} \<Longrightarrow> j \<in> D \<and> j \<noteq> i \<and> is_data_block s j" for j
    using assms b by (auto simp: linked_def)
  obtain s1 where s1: "(if p \<noteq> 0 then do { (q, m, c) \<leftarrow> data_block s p; Some (set_block s p (Data q n c)) } else Some s) = Some s1"
    "\<forall>y. y \<notin> D - {i} \<longrightarrow> st_blocks s1 y = st_blocks s y" "\<exists>f. s1 = s\<lparr>st_blocks := f\<rparr>" "is_data_block s1 n = is_data_block s n"
  proof (cases "p = 0")
    case True
    then show ?thesis
      by (intro that [of s]) (auto intro: exI [of _ "st_blocks s"])
  next
    case False
    then obtain q m c where q: "st_blocks s p = Some (Data q m c)" "p \<in> D" "p \<noteq> i"
      using l [of p] by (auto simp: is_data_block_def split: option.splits tree_block.splits)
    then show ?thesis
      using False by (intro that [of "set_block s p (Data q n c)"]) (auto simp: data_block_def set_block_def is_data_block_def)
  qed
  have u: "unlinked s i = (if n \<noteq> 0 then do { (q, m, c) \<leftarrow> data_block s1 n; Some (set_block s1 n (Data p m c)) } else Some s1)"
    using True b s1(1) by (auto simp: unlinked_def unlink_data_def data_block_def)
  show ?thesis
  proof (cases "n = 0")
    case True
    then show ?thesis
      using that [of s1] u s1 by simp
  next
    case False
    then obtain q m c where q: "st_blocks s1 n = Some (Data q m c)" "n \<in> D" "n \<noteq> i"
      using l [of n] s1(4) by (auto simp: is_data_block_def split: option.splits tree_block.splits)
    then show ?thesis
      using False u s1(2,3) by (intro that [of "set_block s1 n (Data p m c)"]) (auto simp: data_block_def set_block_def)
  qed
qed

lemma erase_ok:
  assumes "owns s xs D" "i \<in> D" "linked s D i"
  obtains u s' where "unlinked s i = Some u" "erase_block s i = Some s'" "owns s' (i # xs) (D - {i})"
    "\<forall>j \<in> D - {i}. st_blocks s' j = st_blocks u j" "st_total s' = st_total s" "h_begin s' = h_begin s"
    "\<exists>f. u = s\<lparr>st_blocks := f\<rparr>" "\<forall>y. y \<notin> D - {i} \<longrightarrow> st_blocks u y = st_blocks s y"
proof -
  obtain u where u: "unlinked s i = Some u" "\<forall>y. y \<notin> D - {i} \<longrightarrow> st_blocks u y = st_blocks s y" "\<exists>f. u = s\<lparr>st_blocks := f\<rparr>"
    using unlinked_ok [OF assms(3)] by metis
  let ?v = "u\<lparr>h_valid := (h_valid u + 2 ^ 32 - 1) mod 2 ^ 32\<rparr>"
  obtain f where f: "u = s\<lparr>st_blocks := f\<rparr>"
    using u(3) by auto
  have D: "D \<inter> set xs = {}" "\<forall>i \<in> D. 0 < i \<and> i < st_total s" "alloc_inv s xs" "{0<..<st_total s} \<subseteq> D \<union> set xs"
    using assms(1) by (simp_all add: owns_def)
  have "alloc_inv ?v xs"
    using D u(2) f by (intro alloc_inv_cong [OF D(3)]) auto
  then obtain s' where s': "free_block ?v i = Some s'" "alloc_inv s' (i # xs)" "st_total s' = st_total s" "h_begin s' = h_begin s"
    "\<forall>y. y \<notin> set xs \<longrightarrow> st_blocks s' y = st_blocks u y"
    using free_ok [of ?v xs i] D assms(2) f by auto
  moreover have "erase_block s i = free_block ?v i"
    using u(1) by (auto simp: erase_block_def unlinked_def split: if_splits)
  moreover have "owns s' (i # xs) (D - {i})"
    using s'(2,3) D by (auto simp: owns_def)
  moreover have "\<forall>j \<in> D - {i}. st_blocks s' j = st_blocks u j"
    using s'(5) D(1) by auto
  ultimately show ?thesis
    using that [of u s'] u by simp
qed

lemma create_owns:
  assumes "owns s xs D" "st_total s + 1 < 2 ^ 32"
  obtains i s' where "create_block b s = Some (i, s')" "owns s' (tl xs) (insert i D)" "i \<notin> D" "0 < i"
    "i = (if xs = [] then st_total s else hd xs)" "st_blocks s' i = Some b" "\<forall>j \<in> D. st_blocks s' j = st_blocks s j"
    "h_begin s' = h_begin s" "st_total s' \<le> st_total s + 1"
proof -
  have D: "D \<inter> set xs = {}" "\<forall>i \<in> D. 0 < i \<and> i < st_total s" "alloc_inv s xs" "{0<..<st_total s} \<subseteq> D \<union> set xs"
    using assms(1) by (simp_all add: owns_def)
  obtain i s' where s': "create_block b s = Some (i, s')" "alloc_inv s' (tl xs)" "i = (if xs = [] then st_total s else hd xs)"
    "st_blocks s' i = Some b" "\<forall>y. y \<notin> insert i (set xs) \<longrightarrow> st_blocks s' y = st_blocks s y" "h_begin s' = h_begin s"
    "st_total s' = (if xs = [] then st_total s + 1 else st_total s)"
    using create_ok [OF D(3) assms(2)] by metis
  have "i \<notin> D" "0 < i" "i < st_total s'" "i \<notin> set (tl xs)"
    using s'(3,7) D by (cases xs; auto simp: alloc_inv_def)+
  moreover have "{0<..<st_total s'} \<subseteq> insert i D \<union> set (tl xs)"
    using D(4) s'(3,7) by (cases xs) (auto simp: less_Suc_eq subset_iff)
  moreover have "owns s' (tl xs) (insert i D)"
    using D(1-3) s'(2,7) calculation by (cases xs) (auto simp: owns_def)
  moreover have "\<forall>j \<in> D. st_blocks s' j = st_blocks s j"
    using s'(5) D(1) calculation(1) by auto
  ultimately show ?thesis
    using s' by (intro that [of i s']) simp_all
qed

lemma uses_owns: "uses s D \<Longrightarrow> \<exists>xs. owns s xs D"
proof (induction rule: uses.induct)
  case start
  have "owns new_store [] {}"
    by (auto simp: owns_def alloc_inv_def erased_def new_store_def head_list_def slots_begin_def PAGE_SIZE_def)
  then show ?case
    by blast
next
  case (create s D b i s')
  then obtain xs where "owns s xs D"
    by blast
  from create_owns [OF this create(2), of b] create(3) show ?case
    by (metis option.inject prod.inject)
next
  case (store s D i b)
  then obtain xs where "owns s xs D"
    by blast
  then have "owns (set_block s i b) xs D"
    using store(2) by (auto simp: owns_def intro!: alloc_inv_cong [of s xs])
  then show ?case
    by blast
next
  case (erase s D i s')
  then obtain xs where "owns s xs D"
    by blast
  from erase_ok [OF this erase(2,3)] erase(4) show ?case
    by (metis option.inject)
qed


definition two_blocks :: "(nat, nat) store" where
  "two_blocks = snd (the (create_data_block (snd (the (create_data_block new_store)))))"


text \<open>
  The header keeps the number of the record block after the last entry of that block has been taken. When that
  block has become a data block, the file cannot be opened any more.
\<close>

lemma stale_record_block:
  assumes "d_buffer s" "record_block s r = Some (0, [x])" "d_index s = r" "h_record s = r" "r \<noteq> 0" "x \<noteq> r"
    and "h_deleted s = n + 2" "head_slot s n = Some r"
  shows "\<exists>s1 s2. create_data_block s = Some (x, s1) \<and> create_data_block s1 = Some (r, s2) \<and> reopen s2 = None"
proof -
  let ?s1 = "set_block ((set_block (s\<lparr>h_valid := (h_valid s + 1) mod 2 ^ 32\<rparr>) r (Record 0 []))
      \<lparr>d_index := 0, d_buffer := False, h_deleted := n + 1\<rparr>) x (Data 0 0 [])"
  have rec: "record_block (s\<lparr>h_valid := k\<rparr>) r = record_block s r" for k
    by (simp add: record_block_def)
  have s1: "create_data_block s = Some (x, ?s1)"
    using assms rec by (simp add: create_data_block_def create_block_def get_new_block_index_def Let_def)
  have slot: "head_slot (?s1\<lparr>h_valid := k\<rparr>) n = Some r" for k
    using assms(8) by (simp add: head_slot_def slots_begin_def split: if_splits)
  obtain s2 where s2: "create_data_block ?s1 = Some (r, s2)" "h_record s2 = r" "st_blocks s2 r = Some (Data 0 0 [])"
    using assms(4) slot by (simp add: create_data_block_def create_block_def get_new_block_index_def head_pop_def Let_def set_block_def)
  have "reopen s2 = None"
    using s2 assms(5) by (simp add: reopen_def record_block_def)
  then show ?thesis
    using s1 s2(1) by blast
qed

text \<open>Two blocks erased and two created lead there in a file whose head block has room for one erased block.\<close>

definition small_head :: "(nat, nat) store" where
  "small_head = new_store\<lparr>h_extra := Some 4073, st_total := 4\<rparr>"

lemma file_becomes_unreadable:
  "\<exists>s. do { s \<leftarrow> erase_block small_head 1; s \<leftarrow> erase_block s 2; (i, s) \<leftarrow> create_data_block s; (i, s) \<leftarrow> create_data_block s; Some s } = Some s \<and>
    reopen s = None"
  by (simp add: small_head_def new_store_def erase_block_def free_block_def is_data_block_def head_can_add_def rest_size_def
      head_add_def head_slot_def slots_begin_def PAGE_SIZE_def set_block_def create_data_block_def create_block_def
      get_new_block_index_def head_pop_def record_block_def reopen_def Let_def)

end
