(* ===== verification/BPTree.thy ===== *)
theory BPTree
  imports BPStore
begin

text \<open>
  The B+ tree (\<open>Base/BPTree_impls/BPTree.hpp\<close>) over the blocks of \<open>IndexBlock_Impl\<close> and \<open>DataBlock_Impl\<close>.

  A block object is a view of a block of the store, so its operations read and write the block in the store. An
  iterator that one operation passes to another stands for the block it points to, and is that block's number
  here; iterators inside a block are byte offsets. \<open>None\<close> is an exception, a failed assertion, an access outside
  the pairs of a block, or a run that does not end. For keys and values of a fixed size \<open>data_size_check\<close> is a
  \<open>static_assert\<close> and returns true, so \<open>insert\<close>, \<open>update\<close> and \<open>find_for_update\<close> have no branch for it; and
  \<open>update\<close> of a data block never moves pairs.
\<close>

section \<open>Block objects\<close>

record sizes =
  key_size :: nat
  value_size :: nat

abbreviation IL :: "sizes \<Rightarrow> layout" where
  "IL z \<equiv> index_layout (key_size z)"

abbreviation DL :: "sizes \<Rightarrow> layout" where
  "DL z \<equiv> data_layout (key_size z) (value_size z)"

text \<open>\<open>IndexBlock\<close>\<close>

definition index_insert :: "sizes \<Rightarrow> nat \<Rightarrow> nat \<Rightarrow> 'k \<Rightarrow> nat \<Rightarrow> ('k, 'v) store \<Rightarrow> ('k, 'v) store option" where
  "index_insert z i pos key target s = do {
     b \<leftarrow> index_block s i;
     b \<leftarrow> blk_insert (IL z) b pos key target;
     Some (set_block s i (Index b))
   }"

definition index_update :: "sizes \<Rightarrow> nat \<Rightarrow> nat \<Rightarrow> 'k \<Rightarrow> ('k, 'v) store \<Rightarrow> ('k, 'v) store option" where
  "index_update z i pos key s = do {
     b \<leftarrow> index_block s i;
     b \<leftarrow> blk_update_key (IL z) b pos key;
     Some (set_block s i (Index b))
   }"

definition index_erase :: "sizes \<Rightarrow> nat \<Rightarrow> nat \<Rightarrow> ('k, 'v) store \<Rightarrow> (bool \<times> ('k, 'v) store) option" where
  "index_erase z i pos s = do {
     b \<leftarrow> index_block s i;
     (enough, b) \<leftarrow> blk_erase (IL z) b pos;
     Some (enough, set_block s i (Index b))
   }"

definition index_merge :: "sizes \<Rightarrow> nat \<Rightarrow> nat \<Rightarrow> ('k, 'v) store \<Rightarrow> ('k, 'v) store option" where
  "index_merge z i j s = do {
     this \<leftarrow> index_block s i;
     other \<leftarrow> index_block s j;
     (this, other) \<leftarrow> blk_merge (IL z) this other;
     Some (set_block (set_block s i (Index this)) j (Index other))
   }"

definition index_average :: "sizes \<Rightarrow> nat \<Rightarrow> nat \<Rightarrow> ('k, 'v) store \<Rightarrow> ('k, 'v) store option" where
  "index_average z i j s = do {
     this \<leftarrow> index_block s i;
     other \<leftarrow> index_block s j;
     (this, other) \<leftarrow> blk_average (IL z) this other;
     Some (set_block (set_block s i (Index this)) j (Index other))
   }"

definition index_split ::
  "sizes \<Rightarrow> nat \<Rightarrow> nat \<Rightarrow> 'k :: linorder \<Rightarrow> nat \<Rightarrow> ('k, 'v) store \<Rightarrow> ('k, 'v) store option" where
  "index_split z i j key target s = do {
     this \<leftarrow> index_block s i;
     new_block \<leftarrow> index_block s j;
     (this, new_block) \<leftarrow> blk_split (IL z) this new_block key target;
     Some (set_block (set_block s i (Index this)) j (Index new_block))
   }"

text \<open>\<open>index_block.begin().key()\<close>\<close>

definition index_first :: "sizes \<Rightarrow> nat \<Rightarrow> ('k, 'v) store \<Rightarrow> 'k option" where
  "index_first z i s = do { b \<leftarrow> index_block s i; key_at (IL z) b (begin_off (IL z)) }"

text \<open>\<open>DataBlock\<close>\<close>

definition data_insert :: "sizes \<Rightarrow> nat \<Rightarrow> nat \<Rightarrow> 'k \<Rightarrow> 'v \<Rightarrow> ('k, 'v) store \<Rightarrow> ('k, 'v) store option" where
  "data_insert z i pos key val s = do {
     (p, n, b) \<leftarrow> data_block s i;
     b \<leftarrow> blk_insert (DL z) b pos key val;
     Some (set_block s i (Data p n b))
   }"

definition data_update :: "sizes \<Rightarrow> nat \<Rightarrow> nat \<Rightarrow> 'v \<Rightarrow> ('k, 'v) store \<Rightarrow> (bool \<times> ('k, 'v) store) option" where
  "data_update z i pos val s = do {
     (p, n, b) \<leftarrow> data_block s i;
     b \<leftarrow> blk_update_value (DL z) b pos val;
     Some (True, set_block s i (Data p n b))
   }"

definition data_erase :: "sizes \<Rightarrow> nat \<Rightarrow> nat \<Rightarrow> ('k, 'v) store \<Rightarrow> (bool \<times> ('k, 'v) store) option" where
  "data_erase z i pos s = do {
     (p, n, b) \<leftarrow> data_block s i;
     (enough, b) \<leftarrow> blk_erase (DL z) b pos;
     Some (enough, set_block s i (Data p n b))
   }"

definition data_merge :: "sizes \<Rightarrow> nat \<Rightarrow> nat \<Rightarrow> ('k, 'v) store \<Rightarrow> ('k, 'v) store option" where
  "data_merge z i j s = do {
     (p, n, this) \<leftarrow> data_block s i;
     (q, m, other) \<leftarrow> data_block s j;
     (this, other) \<leftarrow> blk_merge (DL z) this other;
     Some (set_block (set_block s i (Data p n this)) j (Data q m other))
   }"

definition data_average :: "sizes \<Rightarrow> nat \<Rightarrow> nat \<Rightarrow> ('k, 'v) store \<Rightarrow> ('k, 'v) store option" where
  "data_average z i j s = do {
     (p, n, this) \<leftarrow> data_block s i;
     (q, m, other) \<leftarrow> data_block s j;
     (this, other) \<leftarrow> blk_average (DL z) this other;
     Some (set_block (set_block s i (Data p n this)) j (Data q m other))
   }"

text \<open>\<open>split\<close> also links the new block behind this one. (The code does not check that the next block is a data block.)\<close>

definition data_split ::
  "sizes \<Rightarrow> nat \<Rightarrow> nat \<Rightarrow> 'k :: linorder \<Rightarrow> 'v \<Rightarrow> ('k, 'v) store \<Rightarrow> ('k, 'v) store option" where
  "data_split z i j key val s = do {
     (p, n, this) \<leftarrow> data_block s i;
     (q, m, new_block) \<leftarrow> data_block s j;
     (this, new_block) \<leftarrow> blk_split (DL z) this new_block key val;
     let s = set_block (set_block s i (Data p n this)) j (Data i n new_block);
     s \<leftarrow> (if n > 0 then do { (q, m, b) \<leftarrow> data_block s n; Some (set_block s n (Data j m b)) } else Some s);
     (p, n, this) \<leftarrow> data_block s i;
     Some (set_block s i (Data p j this))
   }"

definition data_first :: "sizes \<Rightarrow> nat \<Rightarrow> ('k, 'v) store \<Rightarrow> 'k option" where
  "data_first z i s = do { (p, n, b) \<leftarrow> data_block s i; key_at (DL z) b (begin_off (DL z)) }"

text \<open>\<open>iter == end() || iter.key() > key\<close>\<close>

definition is_past :: "layout \<Rightarrow> ('k :: linorder, 'x) pairs \<Rightarrow> nat \<Rightarrow> 'k \<Rightarrow> bool option" where
  "is_past L b pos key = (if pos = end_off L b then Some True else do { k \<leftarrow> key_at L b pos; Some (key < k) })"

section \<open>Search\<close>

text \<open>\<open>iter == end() || (iter != begin() && iter.key() > key)\<close>, then \<open>--iter\<close>.\<close>

definition step_back :: "layout \<Rightarrow> ('k :: linorder, 'x) pairs \<Rightarrow> nat \<Rightarrow> 'k \<Rightarrow> nat option" where
  "step_back L b pos key = do {
     back \<leftarrow> (if pos \<noteq> end_off L b \<and> pos = begin_off L then Some False else is_past L b pos key);
     if back then prev_off L pos else Some pos
   }"

partial_function (option) find_loop :: "sizes \<Rightarrow> 'k :: linorder \<Rightarrow> nat \<Rightarrow> ('k, 'v) store \<Rightarrow> nat option" where
  "find_loop z key i s = do {
     b \<leftarrow> index_block s i;
     pos \<leftarrow> lower_bound (IL z) b key;
     pos \<leftarrow> step_back (IL z) b pos key;
     child \<leftarrow> entry_at (IL z) b pos;
     if is_data_block s child
     then do { pos \<leftarrow> step_back (IL z) b pos key; entry_at (IL z) b pos }
     else find_loop z key child s
   }"

definition find_data :: "sizes \<Rightarrow> 'k :: linorder \<Rightarrow> ('k, 'v) store \<Rightarrow> nat option option" where
  "find_data z key s =
     (case begin_block s of
        None \<Rightarrow> Some None
      | Some i \<Rightarrow> if is_data_block s i then Some (Some i) else do { i \<leftarrow> find_loop z key i s; Some (Some i) })"

text \<open>A \<open>Result\<close> holds a pair or nothing.\<close>

definition bpt_find :: "sizes \<Rightarrow> 'k :: linorder \<Rightarrow> ('k, 'v) store \<Rightarrow> ('k \<times> 'v) option option" where
  "bpt_find z key s = do {
     iter \<leftarrow> find_data z key s;
     case iter of
       None \<Rightarrow> Some None
     | Some i \<Rightarrow> do {
         (p, n, b) \<leftarrow> data_block s i;
         pos \<leftarrow> lower_bound (DL z) b key;
         past \<leftarrow> is_past (DL z) b pos key;
         if past then Some None
         else do { k \<leftarrow> key_at (DL z) b pos; v \<leftarrow> entry_at (DL z) b pos; Some (Some (k, v)) }
       }
   }"

definition bpt_find_for_update ::
  "sizes \<Rightarrow> 'k :: linorder \<Rightarrow> ('v \<Rightarrow> 'v) \<Rightarrow> ('k, 'v) store \<Rightarrow> (bool \<times> ('k, 'v) store) option" where
  "bpt_find_for_update z key f s = do {
     iter \<leftarrow> find_data z key s;
     case iter of
       None \<Rightarrow> Some (False, s)
     | Some i \<Rightarrow> do {
         (p, n, b) \<leftarrow> data_block s i;
         pos \<leftarrow> lower_bound (DL z) b key;
         if pos = end_off (DL z) b then Some (False, s)
         else do {
           k \<leftarrow> key_at (DL z) b pos;
           if k \<noteq> key then Some (False, s)
           else do { old_value \<leftarrow> entry_at (DL z) b pos; data_update z i pos (f old_value) s }
         }
       }
   }"

definition bpt_update :: "sizes \<Rightarrow> 'k :: linorder \<Rightarrow> 'v \<Rightarrow> ('k, 'v) store \<Rightarrow> (bool \<times> ('k, 'v) store) option" where
  "bpt_update z key val s = do {
     iter \<leftarrow> find_data z key s;
     case iter of
       None \<Rightarrow> Some (False, s)
     | Some i \<Rightarrow> do {
         (p, n, b) \<leftarrow> data_block s i;
         pos \<leftarrow> lower_bound (DL z) b key;
         if pos = end_off (DL z) b then Some (False, s)
         else do { k \<leftarrow> key_at (DL z) b pos; if k \<noteq> key then Some (False, s) else data_update z i pos val s }
       }
   }"

section \<open>Insertion\<close>

text \<open>Success, the key and number of a new block behind this one if there is one, and the store.\<close>

definition data_block_insert ::
  "sizes \<Rightarrow> 'k :: linorder \<Rightarrow> 'v \<Rightarrow> nat \<Rightarrow> ('k, 'v) store \<Rightarrow> (bool \<times> ('k \<times> nat) option \<times> ('k, 'v) store) option" where
  "data_block_insert z key val i s = do {
     (p, n, b) \<leftarrow> data_block s i;
     pos \<leftarrow> lower_bound (DL z) b key;
     hit \<leftarrow> (if pos \<noteq> end_off (DL z) b then do { k \<leftarrow> key_at (DL z) b pos; Some (k = key) } else Some False);
     if hit then Some (False, None, s)
     else if can_insert (DL z) b then do {
       s \<leftarrow> data_insert z i pos key val s;
       Some (True, None, s)
     } else do {
       (j, s) \<leftarrow> create_data_block s;
       s \<leftarrow> data_split z i j key val s;
       k \<leftarrow> data_first z j s;
       Some (True, Some (k, j), s)
     }
   }"

definition index_add ::
  "sizes \<Rightarrow> nat \<Rightarrow> nat \<Rightarrow> ('k :: linorder \<times> nat) option \<Rightarrow> ('k, 'v) store \<Rightarrow> (('k \<times> nat) option \<times> ('k, 'v) store) option" where
  "index_add z i pos up s =
     (case up of
        None \<Rightarrow> Some (None, s)
      | Some (k, j) \<Rightarrow> do {
          b \<leftarrow> index_block s i;
          if can_insert (IL z) b then do {
            s \<leftarrow> index_insert z i (next_off (IL z) pos) k j s;
            Some (None, s)
          } else do {
            (m, s) \<leftarrow> create_index_block s;
            s \<leftarrow> index_split z i m k j s;
            k \<leftarrow> index_first z m s;
            Some (Some (k, m), s)
          }
        })"

partial_function (option) insert_impl ::
  "sizes \<Rightarrow> 'k :: linorder \<Rightarrow> 'v \<Rightarrow> nat \<Rightarrow> ('k, 'v) store \<Rightarrow> (bool \<times> ('k \<times> nat) option \<times> ('k, 'v) store) option" where
  "insert_impl z key val i s =
     (if is_data_block s i then data_block_insert z key val i s
      else do {
        b \<leftarrow> index_block s i;
        k0 \<leftarrow> key_at (IL z) b (begin_off (IL z));
        pos \<leftarrow> lower_bound (IL z) b key;
        hit \<leftarrow> (if pos \<noteq> end_off (IL z) b then do { k \<leftarrow> key_at (IL z) b pos; Some (k = key) } else Some False);
        if hit then Some (False, None, s)
        else do {
          pos \<leftarrow> (if pos \<noteq> begin_off (IL z) then prev_off (IL z) pos else Some pos);
          check (pos \<noteq> end_off (IL z) b);
          child \<leftarrow> entry_at (IL z) b pos;
          (ok, up, s) \<leftarrow> insert_impl z key val child s;
          s \<leftarrow> (if key < k0 \<and> ok then index_update z i pos key s else Some s);
          (up, s) \<leftarrow> index_add z i pos up s;
          Some (ok, up, s)
        }
      })"

definition bpt_insert :: "sizes \<Rightarrow> 'k :: linorder \<Rightarrow> 'v \<Rightarrow> ('k, 'v) store \<Rightarrow> (bool \<times> ('k, 'v) store) option" where
  "bpt_insert z key val s =
     (case begin_block s of
        None \<Rightarrow> do {
          (i, s) \<leftarrow> create_data_block s;
          (p, n, b) \<leftarrow> data_block s i;
          check (can_insert (DL z) b);
          s \<leftarrow> data_insert z i (end_off (DL z) b) key val s;
          Some (True, set_begin_block s (Some i))
        }
      | Some i \<Rightarrow> do {
          (ok, up, s) \<leftarrow> insert_impl z key val i s;
          (case up of
             None \<Rightarrow> Some (ok, s)
           | Some (k, j) \<Rightarrow> do {
               (r, s) \<leftarrow> create_index_block s;
               b \<leftarrow> index_block s r;
               check (can_insert (IL z) b);
               k0 \<leftarrow> (if is_data_block s i then data_first z i s else index_first z i s);
               s \<leftarrow> index_insert z r (end_off (IL z) b) k0 i s;
               b \<leftarrow> index_block s r;
               check (can_insert (IL z) b);
               s \<leftarrow> index_insert z r (end_off (IL z) b) k j s;
               Some (ok, set_begin_block s (Some r))
             })
        })"

section \<open>Erasure\<close>

text \<open>Success, the first key and number of the block unless it is gone, and the store; \<open>iter_before\<close> is the left neighbour under the same parent.\<close>

definition data_block_erase ::
  "sizes \<Rightarrow> 'k :: linorder \<Rightarrow> nat option \<Rightarrow> nat \<Rightarrow> ('k, 'v) store \<Rightarrow> (bool \<times> ('k \<times> nat) option \<times> ('k, 'v) store) option" where
  "data_block_erase z key iter_before i s = do {
     (p, n, b) \<leftarrow> data_block s i;
     pos \<leftarrow> lower_bound (DL z) b key;
     miss \<leftarrow> (if pos = end_off (DL z) b then Some True else do { k \<leftarrow> key_at (DL z) b pos; Some (k \<noteq> key) });
     if miss then do { k \<leftarrow> data_first z i s; Some (False, Some (k, i), s) }
     else do {
       (enough, s) \<leftarrow> data_erase z i pos s;
       (p, n, b) \<leftarrow> data_block s i;
       if enough \<or> iter_before = None
       then (if begin_off (DL z) = end_off (DL z) b then do { s \<leftarrow> erase_block s i; Some (True, None, s) }
             else do { k \<leftarrow> data_first z i s; Some (True, Some (k, i), s) })
       else do {
         let l = the iter_before;
         (p, n, lb) \<leftarrow> data_block s l;
         let choice = merge_keep_average (DL z) lb b;
         if choice > 0 then do {
           s \<leftarrow> data_merge z l i s;
           s \<leftarrow> erase_block s i;
           Some (True, None, s)
         } else do {
           s \<leftarrow> (if choice < 0 then data_average z l i s else Some s);
           k \<leftarrow> data_first z i s;
           Some (True, Some (k, i), s)
         }
       }
     }
   }"

definition index_after_erase ::
  "sizes \<Rightarrow> nat option \<Rightarrow> nat \<Rightarrow> nat \<Rightarrow> ('k :: linorder \<times> nat) option \<Rightarrow> ('k, 'v) store \<Rightarrow>
    (bool \<times> ('k \<times> nat) option \<times> ('k, 'v) store) option" where
  "index_after_erase z iter_before i pos r s = do {
     b \<leftarrow> index_block s i;
     (case r of
        Some (k, j) \<Rightarrow> do {
          k0 \<leftarrow> key_at (IL z) b pos;
          s \<leftarrow> (if k0 \<noteq> k then index_update z i pos k s else Some s);
          k \<leftarrow> index_first z i s;
          Some (True, Some (k, i), s)
        }
      | None \<Rightarrow> do {
          (enough, s) \<leftarrow> index_erase z i pos s;
          b \<leftarrow> index_block s i;
          if enough \<or> iter_before = None
          then (if begin_off (IL z) = end_off (IL z) b then do { s \<leftarrow> erase_block s i; Some (True, None, s) }
                else do { k \<leftarrow> index_first z i s; Some (True, Some (k, i), s) })
          else do {
            let l = the iter_before;
            lb \<leftarrow> index_block s l;
            let choice = merge_keep_average (IL z) lb b;
            if choice > 0 then do {
              s \<leftarrow> index_merge z l i s;
              s \<leftarrow> erase_block s i;
              Some (True, None, s)
            } else do {
              s \<leftarrow> (if choice < 0 then index_average z l i s else Some s);
              k \<leftarrow> index_first z i s;
              Some (True, Some (k, i), s)
            }
          }
        })
   }"

partial_function (option) erase_impl ::
  "sizes \<Rightarrow> 'k :: linorder \<Rightarrow> nat option \<Rightarrow> nat \<Rightarrow> ('k, 'v) store \<Rightarrow> (bool \<times> ('k \<times> nat) option \<times> ('k, 'v) store) option" where
  "erase_impl z key iter_before i s =
     (if is_data_block s i then data_block_erase z key iter_before i s
      else do {
        b \<leftarrow> index_block s i;
        pos \<leftarrow> lower_bound (IL z) b key;
        above \<leftarrow> (if pos = begin_off (IL z) then do { k \<leftarrow> key_at (IL z) b pos; Some (key < k) } else Some False);
        if above then do { k \<leftarrow> index_first z i s; Some (False, Some (k, i), s) }
        else do {
          past \<leftarrow> is_past (IL z) b pos key;
          pos \<leftarrow> (if past then prev_off (IL z) pos else Some pos);
          child_before \<leftarrow> (if pos \<noteq> begin_off (IL z)
            then do { at \<leftarrow> prev_off (IL z) pos; j \<leftarrow> entry_at (IL z) b at; Some (Some j) } else Some None);
          child \<leftarrow> entry_at (IL z) b pos;
          (ok, r, s) \<leftarrow> erase_impl z key child_before child s;
          if \<not> ok then do { k \<leftarrow> index_first z i s; Some (False, Some (k, i), s) }
          else index_after_erase z iter_before i pos r s
        }
      })"

definition bpt_erase :: "sizes \<Rightarrow> 'k :: linorder \<Rightarrow> ('k, 'v) store \<Rightarrow> (bool \<times> ('k, 'v) store) option" where
  "bpt_erase z key s =
     (case begin_block s of
        None \<Rightarrow> Some (False, s)
      | Some i \<Rightarrow> do {
          (ok, r, s) \<leftarrow> erase_impl z key None i s;
          s \<leftarrow> (case r of
             None \<Rightarrow> Some (set_begin_block s None)
           | Some (k, j) \<Rightarrow>
               if \<not> is_data_block s j \<and> ok then do {
                 b \<leftarrow> index_block s j;
                 if next_off (IL z) (begin_off (IL z)) = end_off (IL z) b
                 then do { c \<leftarrow> entry_at (IL z) b (begin_off (IL z)); erase_block (set_begin_block s (Some c)) j }
                 else Some s
               } else Some s);
          Some (ok, s)
        })"

declare find_loop.simps [code] insert_impl.simps [code] erase_impl.simps [code]

section \<open>Trees\<close>

text \<open>The shape of a B+ tree: leaves and branches, each with the number of its block.\<close>

datatype ('k, 'v) tree =
  Leaf (root: nat) "('k, 'v) pairs"
| Branch (root: nat) "('k, 'v) tree list"

fun pairs_of :: "('k, 'v) tree \<Rightarrow> ('k, 'v) pairs" where
  "pairs_of (Leaf i b) = b"
| "pairs_of (Branch i ts) = concat (map pairs_of ts)"

fun leaves :: "('k, 'v) tree \<Rightarrow> nat list" where
  "leaves (Leaf i b) = [i]"
| "leaves (Branch i ts) = concat (map leaves ts)"

fun blocks :: "('k, 'v) tree \<Rightarrow> nat list" where
  "blocks (Leaf i b) = [i]"
| "blocks (Branch i ts) = i # concat (map blocks ts)"

definition all_pairs :: "('k, 'v) tree list \<Rightarrow> ('k, 'v) pairs" where
  "all_pairs ts = concat (map pairs_of ts)"

definition all_leaves :: "('k, 'v) tree list \<Rightarrow> nat list" where
  "all_leaves ts = concat (map leaves ts)"

definition all_blocks :: "('k, 'v) tree list \<Rightarrow> nat list" where
  "all_blocks ts = concat (map blocks ts)"

lemma forest_simps [simp]:
  "all_pairs [] = []" "all_pairs (t # ts) = pairs_of t @ all_pairs ts" "all_pairs (ts @ us) = all_pairs ts @ all_pairs us"
  "all_leaves [] = []" "all_leaves (t # ts) = leaves t @ all_leaves ts" "all_leaves (ts @ us) = all_leaves ts @ all_leaves us"
  "all_blocks [] = []" "all_blocks (t # ts) = blocks t @ all_blocks ts" "all_blocks (ts @ us) = all_blocks ts @ all_blocks us"
  by (simp_all add: all_pairs_def all_leaves_def all_blocks_def)

lemma branch_simps: "pairs_of (Branch i ts) = all_pairs ts" "leaves (Branch i ts) = all_leaves ts"
  "blocks (Branch i ts) = i # all_blocks ts"
  by (simp_all add: all_pairs_def all_leaves_def all_blocks_def)

declare pairs_of.simps(2) [simp del] leaves.simps(2) [simp del] blocks.simps(2) [simp del] branch_simps [simp]

definition first_key :: "('k, 'v) tree \<Rightarrow> 'k" where
  "first_key t = fst (hd (pairs_of t))"

definition entry :: "('k, 'v) tree \<Rightarrow> 'k \<times> nat" where
  "entry t = (first_key t, root t)"

text \<open>Every leaf at the same depth; no block empty, every block within its page.\<close>

fun wf :: "sizes \<Rightarrow> nat \<Rightarrow> ('k, 'v) tree \<Rightarrow> bool" where
  "wf z 0 (Leaf i b) \<longleftrightarrow> b \<noteq> [] \<and> off (DL z) (length b) \<le> PAGE_SIZE"
| "wf z (Suc d) (Branch i ts) \<longleftrightarrow> ts \<noteq> [] \<and> off (IL z) (length ts) \<le> PAGE_SIZE \<and> (\<forall>t \<in> set ts. wf z d t)"
| "wf z d t \<longleftrightarrow> False"

text \<open>What a block holds, apart from the links of a data block.\<close>

definition content :: "('k, 'v) store \<Rightarrow> nat \<Rightarrow> ('k, 'v) tree_block option" where
  "content s i = map_option (\<lambda>b. case b of Data p n b \<Rightarrow> Data 0 0 b | _ \<Rightarrow> b) (st_blocks s i)"

primrec holds :: "('k, 'v) store \<Rightarrow> ('k, 'v) tree \<Rightarrow> bool" where
  "holds s (Leaf i b) \<longleftrightarrow> content s i = Some (Data 0 0 b)"
| "holds s (Branch i ts) \<longleftrightarrow> content s i = Some (Index (map entry ts)) \<and> list_all (holds s) ts"

text \<open>The chain of the leaves: \<open>xs\<close> are linked, from the block \<open>p\<close> before them to the block \<open>q\<close> behind them.\<close>

fun leaf_chain :: "('k, 'v) store \<Rightarrow> nat \<Rightarrow> nat list \<Rightarrow> nat \<Rightarrow> bool" where
  "leaf_chain s p [] q \<longleftrightarrow> True"
| "leaf_chain s p (i # xs) q \<longleftrightarrow> (\<exists>b. st_blocks s i = Some (Data p (hd (xs @ [q])) b)) \<and> leaf_chain s i xs q"

definition good :: "('k, 'v) store \<Rightarrow> nat set \<Rightarrow> nat list \<Rightarrow> bool" where
  "good s D xs \<longleftrightarrow> (\<exists>ys. owns s ys D) \<and> set xs \<subseteq> D \<and> distinct xs \<and> leaf_chain s 0 xs 0"

text \<open>
  A row of trees of height \<open>d\<close> lies in the store, in blocks of \<open>D\<close>; \<open>L\<close> and \<open>R\<close> are the leaves of the rest of
  the tree to its left and to its right.
\<close>

definition forest ::
  "sizes \<Rightarrow> nat \<Rightarrow> ('k, 'v) store \<Rightarrow> nat set \<Rightarrow> nat list \<Rightarrow> ('k, 'v) tree list \<Rightarrow> nat list \<Rightarrow> bool" where
  "forest z d s D L ts R \<longleftrightarrow> (\<forall>t \<in> set ts. wf z d t \<and> holds s t) \<and> distinct (all_blocks ts) \<and> set (all_blocks ts) \<subseteq> D \<and>
     set (all_blocks ts) \<inter> set (L @ R) = {} \<and> good s D (L @ all_leaves ts @ R)"

text \<open>From one store to the next only the trees \<open>ts\<close> have changed, to \<open>us\<close>.\<close>

definition turns ::
  "('k, 'v) store \<Rightarrow> nat set \<Rightarrow> ('k, 'v) tree list \<Rightarrow> ('k, 'v) store \<Rightarrow> nat set \<Rightarrow> ('k, 'v) tree list \<Rightarrow> bool" where
  "turns s D ts s' D' us \<longleftrightarrow> D' - set (all_blocks us) = D - set (all_blocks ts) \<and>
     (\<forall>j \<in> D - set (all_blocks ts). content s' j = content s j) \<and> h_begin s' = h_begin s"

lemma leaves_blocks: "set (leaves t) \<subseteq> set (blocks t)"
  by (induction t) (auto simp: all_leaves_def all_blocks_def)

lemma all_leaves_blocks: "set (all_leaves ts) \<subseteq> set (all_blocks ts)"
  using leaves_blocks by (fastforce simp: all_leaves_def all_blocks_def)

lemma distinct_leaves: "distinct (blocks t) \<Longrightarrow> distinct (leaves t)"
proof (induction t)
  case (Branch i ts)
  then have "distinct (all_blocks ts)"
    by simp
  then have "distinct (all_leaves ts)"
    using Branch.IH
  proof (induction ts)
    case (Cons t ts)
    then show ?case
      using leaves_blocks [of t] all_leaves_blocks [of ts] by auto
  qed simp
  then show ?case
    by simp
qed simp

lemma holds_Branch [simp]: "holds s (Branch i ts) \<longleftrightarrow> content s i = Some (Index (map entry ts)) \<and> (\<forall>t \<in> set ts. holds s t)"
  by (simp add: list_all_iff)

declare holds.simps(2) [simp del]

lemma holds_cong: "\<forall>j \<in> set (blocks t). content s' j = content s j \<Longrightarrow> holds s' t \<longleftrightarrow> holds s t"
proof (induction t)
  case (Branch i ts)
  have "holds s' t \<longleftrightarrow> holds s t" if "t \<in> set ts" for t
    using that Branch.prems by (intro Branch.IH) (auto simp: all_blocks_def)
  then show ?case
    using Branch.prems by simp
qed simp

lemma wf_pairs: "wf z d t \<Longrightarrow> pairs_of t \<noteq> []"
proof (induction z d t rule: wf.induct)
  case (2 z d i ts)
  then show ?case
    by (cases ts) auto
qed simp_all

lemma root_block: "root t \<in> set (blocks t)"
  by (cases t) simp_all

lemma entry_simps [simp]: "fst (entry t) = first_key t" "snd (entry t) = root t"
  by (simp_all add: entry_def)

section \<open>The chain\<close>

lemma leaf_chain_append:
  "leaf_chain s p (xs @ ys) q \<longleftrightarrow> leaf_chain s p xs (hd (ys @ [q])) \<and> leaf_chain s (last (p # xs)) ys q"
  by (induction xs arbitrary: p) (auto simp: hd_append)

lemma leaf_chain_cong: "\<forall>x \<in> set xs. st_blocks s' x = st_blocks s x \<Longrightarrow> leaf_chain s' p xs q \<longleftrightarrow> leaf_chain s p xs q"
  by (induction xs arbitrary: p) auto

lemma leaf_chain_data: "leaf_chain s p xs q \<Longrightarrow> x \<in> set xs \<Longrightarrow> is_data_block s x"
  by (induction xs arbitrary: p) (auto simp: is_data_block_def)

lemma leaf_chain_at:
  "leaf_chain s p (xs @ i # ys) q \<Longrightarrow> \<exists>b. st_blocks s i = Some (Data (last (p # xs)) (hd (ys @ [q])) b)"
  by (simp add: leaf_chain_append)

text \<open>The last link of a chain, the first back link of a chain.\<close>

lemma leaf_chain_relink_end:
  assumes "leaf_chain s p (xs @ [i]) q" "i \<notin> set xs" "st_blocks s i = Some (Data a q b)"
  shows "leaf_chain (set_block s i (Data a r c)) p (xs @ [i]) r"
proof -
  have "leaf_chain (set_block s i (Data a r c)) p xs i"
    using assms leaf_chain_cong [of xs "set_block s i (Data a r c)" s p i] by (fastforce simp: leaf_chain_append)
  then show ?thesis
    using assms by (simp add: leaf_chain_append)
qed

lemma leaf_chain_relink_begin:
  assumes "leaf_chain s p (i # ys) q" "i \<notin> set ys" "st_blocks s i = Some (Data p n b)"
  shows "leaf_chain (set_block s i (Data r n c)) r (i # ys) q"
  using assms leaf_chain_cong [of ys "set_block s i (Data r n c)" s i q] by fastforce

lemma content_set_block [simp]:
  "content (set_block s i b) = (content s)(i := Some (case b of Data p n b \<Rightarrow> Data 0 0 b | _ \<Rightarrow> b))"
  by (auto simp: content_def fun_eq_iff split: tree_block.splits)

lemma content_Data: "content s i = Some (Data 0 0 b) \<longleftrightarrow> (\<exists>p n. st_blocks s i = Some (Data p n b))"
proof (cases "st_blocks s i")
  case (Some x)
  then show ?thesis
    by (cases x) (simp_all add: content_def)
qed (simp add: content_def)

lemma content_Index: "content s i = Some (Index b) \<longleftrightarrow> st_blocks s i = Some (Index b)"
proof (cases "st_blocks s i")
  case (Some x)
  then show ?thesis
    by (cases x) (simp_all add: content_def)
qed (simp add: content_def)

lemma block_of_content:
  "content s i = Some (Index b) \<Longrightarrow> index_block s i = Some b \<and> \<not> is_data_block s i"
  "content s i = Some (Data 0 0 c) \<Longrightarrow> (\<exists>p n. data_block s i = Some (p, n, c)) \<and> is_data_block s i"
  by (auto simp: content_Index content_Data index_block_def data_block_def is_data_block_def)

lemma is_data_block_content:
  fixes s s' :: "('k, 'v) store"
  assumes "content s' i = content s i"
  shows "is_data_block s' i = is_data_block s i"
proof -
  have "is_data_block r i \<longleftrightarrow> (\<exists>b. content r i = Some (Data 0 0 b))" for r :: "('k, 'v) store"
    by (auto simp: content_Data is_data_block_def split: option.splits tree_block.splits)
  then show ?thesis
    using assms by simp
qed


section \<open>Rows of trees\<close>

lemma turns_refl [simp]: "turns s D ts s D ts"
  by (simp add: turns_def)

lemma forestD:
  assumes "forest z d s D L ts R"
  shows "t \<in> set ts \<Longrightarrow> wf z d t" "t \<in> set ts \<Longrightarrow> holds s t" "distinct (all_blocks ts)" "set (all_blocks ts) \<subseteq> D"
    "set (all_blocks ts) \<inter> set (L @ R) = {}" "good s D (L @ all_leaves ts @ R)"
  using assms by (simp_all add: forest_def)

text \<open>A part of a row is a row, and can be replaced on its own.\<close>

lemma forest_part:
  assumes "forest z d s D L (A @ M @ C) R"
  shows "forest z d s D (L @ all_leaves A) M (all_leaves C @ R)"
  using assms all_leaves_blocks [of A] all_leaves_blocks [of C] by (fastforce simp: forest_def)

lemma forest_replace:
  assumes f: "forest z d s D L (A @ M @ C) R" and g: "forest z d s' D' (L @ all_leaves A) M' (all_leaves C @ R)"
    and t: "turns s D M s' D' M'"
  shows "forest z d s' D' L (A @ M' @ C) R" "turns s D (A @ M @ C) s' D' (A @ M' @ C)"
proof -
  have D': "D' - set (all_blocks M') = D - set (all_blocks M)" "\<forall>j \<in> D - set (all_blocks M). content s' j = content s j"
    "h_begin s' = h_begin s"
    using t by (simp_all add: turns_def)
  have AC: "set (all_blocks A) \<union> set (all_blocks C) \<subseteq> D - set (all_blocks M)" "set (all_blocks A) \<inter> set (all_blocks C) = {}"
    "distinct (all_blocks A)" "distinct (all_blocks C)" "(set (all_blocks A) \<union> set (all_blocks C)) \<inter> set (L @ R) = {}"
    using forestD(3-5) [OF f] by auto
  have "holds s' t" "wf z d t" if "t \<in> set A \<union> set C" for t
  proof -
    have "set (blocks t) \<subseteq> D - set (all_blocks M)"
      using that AC(1) by (fastforce simp: all_blocks_def)
    then show "holds s' t" "wf z d t"
      using holds_cong [of t s' s] D'(2) forestD(1,2) [OF f, of t] that by auto
  qed
  then show "forest z d s' D' L (A @ M' @ C) R"
    using g AC D'(1) by (auto simp: forest_def)
  show "turns s D (A @ M @ C) s' D' (A @ M' @ C)"
    using D' AC(1) by (auto simp: turns_def)
qed

lemma turns_trans:
  assumes "turns s D ts s1 D1 us" "turns s1 D1 us s2 D2 vs"
  shows "turns s D ts s2 D2 vs"
  using assms by (auto simp: turns_def)

text \<open>A write to a block of its own leaves a row alone.\<close>

lemma good_set_block:
  assumes "good s D xs" "i \<in> D" "i \<notin> set xs"
  shows "good (set_block s i b) D xs"
proof -
  obtain ys where ys: "owns s ys D"
    using assms(1) by (auto simp: good_def)
  then have "owns (set_block s i b) ys D"
    using assms(2) by (auto simp: owns_def intro!: alloc_inv_cong [of s ys])
  then show ?thesis
    using assms leaf_chain_cong [of xs "set_block s i b" s 0 0] by (fastforce simp: good_def)
qed

lemma forest_set_block:
  assumes "forest z d s D L ts R" "i \<in> D" "i \<notin> set (all_blocks ts)" "i \<notin> set (L @ R)"
  shows "forest z d (set_block s i b) D L ts R"
proof -
  have "holds (set_block s i b) t" if "t \<in> set ts" for t
  proof -
    have "i \<notin> set (blocks t)"
      using that assms(3) by (auto simp: all_blocks_def)
    then show ?thesis
      using holds_cong [of t "set_block s i b" s] forestD(2) [OF assms(1) that] by auto
  qed
  moreover have "good (set_block s i b) D (L @ all_leaves ts @ R)"
    using assms all_leaves_blocks [of ts] by (intro good_set_block) (auto simp: forest_def)
  ultimately show ?thesis
    using assms(1) by (simp add: forest_def)
qed

lemma forest_good: "forest z d s D L ts R \<Longrightarrow> \<exists>xs. owns s xs D"
  by (auto simp: forest_def good_def)

text \<open>A branch is its block and the row of its children.\<close>

lemma forest_branch:
  "forest z (Suc d) s D L [Branch i ts] R \<longleftrightarrow> forest z d s D L ts R \<and> i \<in> D \<and> i \<notin> set (all_blocks ts) \<and> i \<notin> set (L @ R) \<and>
    index_block s i = Some (map entry ts) \<and> \<not> is_data_block s i \<and> ts \<noteq> [] \<and> pos_fits z (length ts)"
  (is "?lhs \<longleftrightarrow> ?rhs") if "\<And>n. pos_fits z n \<longleftrightarrow> off (IL z) n \<le> PAGE_SIZE" for pos_fits
  using that by (auto simp: forest_def content_Index index_block_def is_data_block_def split: option.splits tree_block.splits)

lemma forest_branches:
  "forest z (Suc d) s D L [Branch i ts, Branch j us] R \<longleftrightarrow> forest z d s D L (ts @ us) R \<and> i \<in> D \<and> j \<in> D \<and> i \<noteq> j \<and>
    i \<notin> set (all_blocks (ts @ us)) \<and> j \<notin> set (all_blocks (ts @ us)) \<and> i \<notin> set (L @ R) \<and> j \<notin> set (L @ R) \<and>
    index_block s i = Some (map entry ts) \<and> \<not> is_data_block s i \<and> ts \<noteq> [] \<and> off (IL z) (length ts) \<le> PAGE_SIZE \<and>
    index_block s j = Some (map entry us) \<and> \<not> is_data_block s j \<and> us \<noteq> [] \<and> off (IL z) (length us) \<le> PAGE_SIZE"
  by (auto simp: forest_def content_Index index_block_def is_data_block_def split: option.splits tree_block.splits)

text \<open>A tree of height \<open>0\<close> is a leaf, any other a branch.\<close>

lemma wf_cases:
  assumes "wf z d t"
  obtains i b where "d = 0" "t = Leaf i b" "b \<noteq> []" "off (DL z) (length b) \<le> PAGE_SIZE"
  | i ts e where "d = Suc e" "t = Branch i ts" "ts \<noteq> []" "off (IL z) (length ts) \<le> PAGE_SIZE"
  using assms by (cases "(z, d, t)" rule: wf.cases) auto

section \<open>Keys\<close>

lemma sorted_keys_append:
  "sorted_keys (xs @ ys) \<longleftrightarrow> sorted_keys xs \<and> sorted_keys ys \<and> (\<forall>x \<in> set xs. \<forall>y \<in> set ys. fst x < fst y)"
  by (auto simp: sorted_wrt_append)

lemma set_all: "set (all_pairs ts) = (\<Union>t \<in> set ts. set (pairs_of t))" "set (all_blocks ts) = (\<Union>t \<in> set ts. set (blocks t))"
  by (simp_all add: all_pairs_def all_blocks_def)

lemma first_key_in: "pairs_of t \<noteq> [] \<Longrightarrow> \<exists>e \<in> set (pairs_of t). fst e = first_key t"
  using hd_in_set [of "pairs_of t"] by (auto simp: first_key_def)

lemma first_key_le:
  assumes "sorted_keys (pairs_of t)" "e \<in> set (pairs_of t)"
  shows "first_key t \<le> fst e"
  using assms by (cases "pairs_of t") (auto simp: first_key_def)

lemma sorted_part: "sorted_keys (all_pairs ts) \<Longrightarrow> t \<in> set ts \<Longrightarrow> sorted_keys (pairs_of t)"
  by (induction ts) (auto simp: sorted_wrt_append)

lemma sorted_entries:
  assumes "sorted_keys (all_pairs ts)" "\<forall>t \<in> set ts. pairs_of t \<noteq> []"
  shows "sorted_keys (map entry ts)"
  using assms
proof (induction ts)
  case (Cons t ts)
  have "first_key t < first_key u" if u: "u \<in> set ts" for u
  proof -
    obtain x where "x \<in> set (pairs_of u)" "fst x = first_key u"
      using first_key_in [of u] Cons.prems(2) u by (metis list.set_intros(2))
    moreover obtain y where "y \<in> set (pairs_of t)" "fst y = first_key t"
      using first_key_in [of t] Cons.prems(2) by (metis list.set_intros(1))
    ultimately show ?thesis
      using Cons.prems(1) u by (metis UN_I forest_simps(2) set_all(1) sorted_keys_append)
  qed
  then show ?case
    using Cons by (auto simp: sorted_wrt_append)
qed simp

text \<open>The child a key belongs to: only its pairs can have the key.\<close>

definition child_pos :: "('k :: linorder, 'v) tree list \<Rightarrow> 'k \<Rightarrow> nat" where
  "child_pos ts key = (let c = below_count (map entry ts) key
     in if c < length ts \<and> (c = 0 \<or> first_key (ts ! c) = key) then c else c - 1)"

lemma child_pos_split:
  assumes "sorted_keys (all_pairs ts)" "\<forall>t \<in> set ts. pairs_of t \<noteq> []" "ts \<noteq> []"
  obtains A m C where "ts = A @ m # C" "child_pos ts key = length A" "\<forall>e \<in> set (all_pairs A). fst e < key"
    "\<forall>e \<in> set (all_pairs C). key < fst e" "A \<noteq> [] \<Longrightarrow> first_key m \<le> key"
proof -
  let ?c = "below_count (map entry ts) key" and ?p = "child_pos ts key"
  have c: "?c \<le> length ts"
    using below_count_le [of "map entry ts" key] by simp
  have p: "?p < length ts"
    using c assms(3) by (cases "length ts") (auto simp: child_pos_def Let_def)
  define A m C where "A = take ?p ts" and "m = ts ! ?p" and "C = drop (Suc ?p) ts"
  have ts: "ts = A @ m # C"
    using id_take_nth_drop [OF p] by (simp add: A_def m_def C_def)
  have len: "length A = ?p"
    using p by (simp add: A_def)
  have sorted: "sorted_keys (map entry ts)"
    by (rule sorted_entries [OF assms(1,2)])
  have above: "key \<le> first_key (ts ! i)" if "?c \<le> i" "i < length ts" for i
    using below_count_at [of "map entry ts" key] sorted_keys_nth [OF sorted, of ?c i] that
    by (cases "i = ?c") (fastforce simp: order.strict_implies_order order.trans less_imp_le)+
  have "key < first_key t" if t: "t \<in> set C" for t
  proof -
    obtain k where k: "t = C ! k" "k < length C"
      using t by (metis in_set_conv_nth)
    define i where "i = Suc ?p + k"
    have i: "t = ts ! i" "?p < i" "i < length ts"
      using k p by (simp_all add: i_def C_def)
    then have "?c \<le> i"
      by (auto simp: child_pos_def Let_def split: if_splits)
    moreover have "first_key (ts ! i) \<noteq> key" if "?c = i"
      using that i by (auto simp: child_pos_def Let_def split: if_splits)
    moreover have "first_key (ts ! ?c) < first_key (ts ! i)" if "?c < i"
      using sorted_keys_nth [OF sorted that] i(3) that by simp
    ultimately have "key < first_key (ts ! i)"
    proof (cases "?c = i")
      case True
      then show ?thesis
        using above [of i] \<open>?c = i \<Longrightarrow> first_key (ts ! i) \<noteq> key\<close> i(3) by (simp add: order.not_eq_order_implies_strict)
    next
      case False
      then have "?c < i"
        using \<open>?c \<le> i\<close> by simp
      then show ?thesis
        using above [of ?c] \<open>?c < i \<Longrightarrow> first_key (ts ! ?c) < first_key (ts ! i)\<close> i(3) by (meson less_trans order.strict_trans1 order_refl)
    qed
    then show ?thesis
      by (simp only: i(1))
  qed
  then have C: "key < fst e" if e: "e \<in> set (all_pairs C)" for e
  proof -
    obtain t where t: "t \<in> set C" "e \<in> set (pairs_of t)"
      using e by (auto simp: set_all)
    then have "first_key t \<le> fst e"
      using first_key_le [of t e] sorted_part [OF assms(1), of t] ts by simp
    then show ?thesis
      using \<open>\<And>t. t \<in> set C \<Longrightarrow> key < first_key t\<close> [OF t(1)] by simp
  qed
  have m: "first_key m \<le> key" if "A \<noteq> []"
  proof -
    from that have "0 < ?p"
      by (simp add: len [symmetric])
    then show ?thesis
      using below_count_less [of ?p "map entry ts" key] p by (auto simp: child_pos_def m_def Let_def split: if_splits)
  qed
  have "\<forall>e \<in> set (all_pairs A). fst e < key"
  proof (cases "A = []")
    case False
    note m [OF False]
    moreover obtain x where "x \<in> set (pairs_of m)" "fst x = first_key m"
      using first_key_in [of m] assms(2) ts by auto
    moreover have "\<forall>e \<in> set (all_pairs A). \<forall>x \<in> set (pairs_of m). fst e < fst x"
      using assms(1) by (auto simp: ts sorted_wrt_append)
    ultimately show ?thesis
      by (metis order.strict_trans2)
  qed simp
  then show ?thesis
    using that [OF ts] len C m by simp
qed

lemma insert_sorted_below: "\<forall>e \<in> set xs. fst e < key \<Longrightarrow> insert_sorted (xs @ ys) key x = xs @ insert_sorted ys key x"
  by (induction xs) (simp_all add: insert_sorted_def below_count_def)

lemma insert_sorted_above: "\<forall>e \<in> set ys. key < fst e \<Longrightarrow> insert_sorted (xs @ ys) key x = insert_sorted xs key x @ ys"
proof (induction xs)
  case Nil
  then show ?case
    by (cases ys) (auto simp: insert_sorted_def below_count_def)
qed (auto simp: insert_sorted_def below_count_def)


section \<open>Search\<close>

definition sizes_ok :: "sizes \<Rightarrow> bool" where
  "sizes_ok z \<longleftrightarrow> 0 < key_size z + value_size z \<and> off (DL z) 1 \<le> PAGE_SIZE \<and> off (IL z) 2 \<le> PAGE_SIZE"

lemma pair_size_pos [simp]: "0 < pair_size (IL z)" "sizes_ok z \<Longrightarrow> 0 < pair_size (DL z)"
  by (simp_all add: index_layout_def data_layout_def PTR_SIZE_def sizes_ok_def)

lemma step_back_at:
  assumes "0 < pair_size L" "p < length b"
  shows "step_back L b (off L p) key = Some (off L (if p \<noteq> 0 \<and> key < fst (b ! p) then p - 1 else p))"
  using assms by (cases p) (auto simp: step_back_def is_past_def off_eqs key_at_off)

lemma step_back_end:
  assumes "0 < pair_size L" "b \<noteq> []"
  shows "step_back L b (off L (length b)) key = Some (off L (length b - 1))"
  using assms by (cases b) (auto simp: step_back_def is_past_def off_eqs)

definition found_pos :: "('k :: linorder, 'x) pairs \<Rightarrow> 'k \<Rightarrow> nat" where
  "found_pos b key = (let c = below_count b key in if c < length b \<and> (c = 0 \<or> fst (b ! c) = key) then c else c - 1)"

lemma found_pos_child: "found_pos (map entry ts) key = child_pos ts key"
  by (auto simp: found_pos_def child_pos_def Let_def)

lemma found_pos_less: "b \<noteq> [] \<Longrightarrow> found_pos b key < length b"
  using below_count_le [of b key] by (cases b) (auto simp: found_pos_def Let_def)

lemma step_back_search:
  assumes "0 < pair_size L" "b \<noteq> []"
  shows "step_back L b (off L (below_count b key)) key = Some (off L (found_pos b key))"
    "step_back L b (off L (found_pos b key)) key = Some (off L (found_pos b key))"
proof -
  let ?c = "below_count b key"
  have c: "?c \<le> length b" "?c < length b \<Longrightarrow> key \<le> fst (b ! ?c)"
    using below_count_le below_count_at by blast+
  show "step_back L b (off L ?c) key = Some (off L (found_pos b key))"
  proof (cases "?c < length b")
    case True
    then show ?thesis
      using assms(1) c(2) by (auto simp: step_back_at found_pos_def Let_def)
  next
    case False
    then show ?thesis
      using assms c(1) step_back_end [OF assms] by (simp add: found_pos_def Let_def)
  qed
  have "\<not> (found_pos b key \<noteq> 0 \<and> key < fst (b ! found_pos b key))"
    using below_count_less [of "?c - 1" b key] by (cases "?c = 0") (auto simp: found_pos_def Let_def split: if_splits)
  then show "step_back L b (off L (found_pos b key)) key = Some (off L (found_pos b key))"
    using step_back_at [OF assms(1) found_pos_less [OF assms(2)]] by auto
qed

text \<open>The leaves with their pairs.\<close>

fun rows :: "('k, 'v) tree \<Rightarrow> (nat \<times> ('k, 'v) pairs) list" where
  "rows (Leaf i b) = [(i, b)]"
| "rows (Branch i ts) = concat (map rows ts)"

lemma rows_leaves: "map fst (rows t) = leaves t"
  by (induction t) (simp_all add: map_concat all_leaves_def o_def cong: map_cong)

lemma rows_pairs: "concat (map snd (rows t)) = pairs_of t"
proof (induction t)
  case (Branch i ts)
  then have "concat (map snd (concat (map rows ts))) = concat (map pairs_of ts)"
    by (induction ts) simp_all
  then show ?case
    by (simp add: all_pairs_def)
qed simp

lemma rows_holds: "wf z d t \<Longrightarrow> holds s t \<Longrightarrow> (i, b) \<in> set (rows t) \<Longrightarrow> content s i = Some (Data 0 0 b) \<and> b \<noteq> [] \<and> off (DL z) (length b) \<le> PAGE_SIZE"
  by (induction z d t rule: wf.induct) auto

lemma rows_concat: "concat (map snd (concat (map rows ts))) = all_pairs ts"
  using rows_pairs [of "Branch 0 ts"] by simp

text \<open>One step of the search, from a branch to the child its key belongs to.\<close>

lemma find_step:
  assumes "wf z (Suc d) t" "holds s t" "sorted_keys (pairs_of t)"
  shows "\<exists>i A m C. t = Branch i (A @ m # C) \<and> wf z d m \<and> holds s m \<and> sorted_keys (pairs_of m) \<and>
    (\<forall>e \<in> set (all_pairs A). fst e < key) \<and> (\<forall>e \<in> set (all_pairs C). key < fst e) \<and>
    find_loop z key (root t) s = (if is_data_block s (root m) then Some (root m) else find_loop z key (root m) s)"
proof -
  obtain i ts where t: "t = Branch i ts" "ts \<noteq> []" "\<forall>t \<in> set ts. wf z d t"
    using assms(1) by (cases t) auto
  have ts: "\<forall>t \<in> set ts. pairs_of t \<noteq> []" "sorted_keys (all_pairs ts)"
    using t assms(3) wf_pairs by auto
  obtain A m C where s: "ts = A @ m # C" "child_pos ts key = length A" "\<forall>e \<in> set (all_pairs A). fst e < key"
    "\<forall>e \<in> set (all_pairs C). key < fst e"
    by (rule child_pos_split [OF ts(2,1) t(2)])
  let ?b = "map entry ts"
  have b: "index_block s i = Some ?b" "sorted_keys ?b" "?b \<noteq> []"
    using assms(2) t sorted_entries [OF ts(2,1)] by (simp_all add: block_of_content)
  have m: "entry_at (IL z) ?b (off (IL z) (length A)) = Some (root m)"
    by (simp add: key_at_off s(1) nth_append)
  have "find_loop z key i s = (if is_data_block s (root m) then Some (root m) else find_loop z key (root m) s)"
    using b m step_back_search [OF pair_size_pos(1) b(3), of z key] lower_bound_ok [OF pair_size_pos(1) b(2), of z key]
    by (subst find_loop.simps) (simp add: found_pos_child s(2))
  then show ?thesis
    using s t assms(2) sorted_part [OF ts(2), of m] by (intro exI [of _ i] exI [of _ A] exI [of _ m] exI [of _ C]) auto
qed

lemma find_loop_ok:
  assumes "wf z (Suc d) t" "holds s t" "sorted_keys (pairs_of t)"
  shows "\<exists>X i b Y. rows t = X @ (i, b) # Y \<and> find_loop z key (root t) s = Some i \<and>
    (\<forall>e \<in> set (concat (map snd X)). fst e < key) \<and> (\<forall>e \<in> set (concat (map snd Y)). key < fst e)"
  using assms
proof (induction d arbitrary: t)
  case (Suc d)
  obtain i A m C where t: "t = Branch i (A @ m # C)" "wf z (Suc d) m" "holds s m" "sorted_keys (pairs_of m)"
    "\<forall>e \<in> set (all_pairs A). fst e < key" "\<forall>e \<in> set (all_pairs C). key < fst e"
    "find_loop z key (root t) s = (if is_data_block s (root m) then Some (root m) else find_loop z key (root m) s)"
    using find_step [OF Suc.prems] by metis
  obtain X j b Y where m: "rows m = X @ (j, b) # Y" "find_loop z key (root m) s = Some j"
    "\<forall>e \<in> set (concat (map snd X)). fst e < key" "\<forall>e \<in> set (concat (map snd Y)). key < fst e"
    using Suc.IH [OF t(2-4)] by metis
  have "\<not> is_data_block s (root m)"
    using t(2,3) by (cases rule: wf_cases) (auto dest: block_of_content)
  then have "find_loop z key (root t) s = Some j"
    using t(7) m(2) by simp
  moreover have "rows t = (concat (map rows A) @ X) @ (j, b) # (Y @ concat (map rows C))"
    by (simp add: t(1) m(1))
  ultimately show ?case
    using m(3,4) t(5,6) by (intro exI [of _ "concat (map rows A) @ X"] exI [of _ j] exI [of _ b]
        exI [of _ "Y @ concat (map rows C)"]) (auto simp: rows_concat)
next
  case 0
  obtain i A m C where t: "t = Branch i (A @ m # C)" "wf z 0 m" "holds s m"
    "\<forall>e \<in> set (all_pairs A). fst e < key" "\<forall>e \<in> set (all_pairs C). key < fst e"
    "find_loop z key (root t) s = (if is_data_block s (root m) then Some (root m) else find_loop z key (root m) s)"
    using find_step [OF 0] by metis
  from t(2) obtain j b where m: "m = Leaf j b"
    by (cases rule: wf_cases) auto
  have "is_data_block s (root m)"
    using t(3) m by (auto dest: block_of_content)
  then show ?case
    using t m by (intro exI [of _ "concat (map rows A)"] exI [of _ j] exI [of _ b] exI [of _ "concat (map rows C)"])
      (auto simp: rows_concat)
qed


section \<open>The tree in the store\<close>

definition tree_at :: "sizes \<Rightarrow> nat \<Rightarrow> ('k :: linorder, 'v) store \<Rightarrow> nat set \<Rightarrow> ('k, 'v) tree \<Rightarrow> bool" where
  "tree_at z d s D t \<longleftrightarrow> forest z d s D [] [t] [] \<and> D = set (blocks t) \<and> h_begin s = root t \<and> sorted_keys (pairs_of t)"

text \<open>The store holds the pairs \<open>ps\<close>, and no block but those of the tree that has them.\<close>

definition stored :: "sizes \<Rightarrow> ('k :: linorder, 'v) store \<Rightarrow> ('k, 'v) pairs \<Rightarrow> bool" where
  "stored z s ps \<longleftrightarrow> (ps = [] \<and> h_begin s = 0 \<and> (\<exists>xs. owns s xs {})) \<or> (\<exists>d D t. tree_at z d s D t \<and> ps = pairs_of t)"

lemma tree_atD:
  assumes "tree_at z d s D t"
  shows "wf z d t" "holds s t" "sorted_keys (pairs_of t)" "begin_block s = Some (root t)" "leaf_chain s 0 (leaves t) 0"
    "\<exists>xs. owns s xs D" "distinct (blocks t)" "root t \<in> D"
proof -
  have f: "forest z d s D [] [t] []" "h_begin s = root t" "D = set (blocks t)"
    using assms unfolding tree_at_def by blast+
  then show D: "wf z d t" "holds s t" "leaf_chain s 0 (leaves t) 0" "\<exists>xs. owns s xs D" "distinct (blocks t)"
    by (auto simp: forest_def good_def)
  show "sorted_keys (pairs_of t)"
    using assms by (simp add: tree_at_def)
  show "root t \<in> D"
    using root_block f(3) by blast
  then have "0 < root t"
    using D(4) by (auto simp: owns_def)
  then show "begin_block s = Some (root t)"
    by (simp add: begin_block_def f(2))
qed

lemma stored_cases:
  assumes "stored z s ps"
  obtains xs where "ps = []" "begin_block s = None" "owns s xs {}" "h_begin s = 0"
  | d D t where "tree_at z d s D t" "ps = pairs_of t"
  using assms by (auto simp: stored_def begin_block_def)

lemma root_is_data: "wf z d t \<Longrightarrow> holds s t \<Longrightarrow> is_data_block s (root t) \<longleftrightarrow> d = 0"
  by (cases rule: wf_cases) (auto dest: block_of_content)

lemma find_data_ok:
  assumes "tree_at z d s D t"
  obtains X i b Y where "rows t = X @ (i, b) # Y" "find_data z key s = Some (Some i)"
    "\<forall>e \<in> set (concat (map snd X)). fst e < key" "\<forall>e \<in> set (concat (map snd Y)). key < fst e"
proof (cases d)
  case 0
  with tree_atD(1) [OF assms] obtain i b where "t = Leaf i b"
    by (cases rule: wf_cases) auto
  then show ?thesis
    using that [of "[]" i b "[]"] tree_atD(4) [OF assms] root_is_data [OF tree_atD(1,2) [OF assms]] 0
    by (simp add: find_data_def)
next
  case (Suc e)
  then obtain X i b Y where x: "rows t = X @ (i, b) # Y" "find_loop z key (root t) s = Some i"
    "\<forall>e \<in> set (concat (map snd X)). fst e < key" "\<forall>e \<in> set (concat (map snd Y)). key < fst e"
    using find_loop_ok [of z e t s key] tree_atD(1-3) [OF assms] by auto
  moreover have "find_data z key s = Some (Some i)"
    using x(2) tree_atD(4) [OF assms] root_is_data [OF tree_atD(1,2) [OF assms]] Suc by (simp add: find_data_def)
  ultimately show ?thesis
    using that by blast
qed

text \<open>A leaf of the tree: its place in the chain, and its search.\<close>

lemma row_block:
  assumes "tree_at z d s D t" "rows t = X @ (i, b) # Y"
  shows "data_block s i = Some (last (0 # map fst X), hd (map fst Y @ [0]), b)" "b \<noteq> []" "sorted_keys b"
    "off (DL z) (length b) \<le> PAGE_SIZE"
proof -
  have "content s i = Some (Data 0 0 b) \<and> b \<noteq> [] \<and> off (DL z) (length b) \<le> PAGE_SIZE"
    using rows_holds [OF tree_atD(1,2) [OF assms(1)], of i b] assms(2) by simp
  then show "b \<noteq> []" "off (DL z) (length b) \<le> PAGE_SIZE"
    by blast+
  have "leaf_chain s 0 (map fst X @ i # map fst Y) 0"
    using tree_atD(5) [OF assms(1)] rows_leaves [of t] assms(2) by simp
  with \<open>content s i = _ \<and> _\<close> show "data_block s i = Some (last (0 # map fst X), hd (map fst Y @ [0]), b)"
    by (auto simp: data_block_def content_Data dest!: leaf_chain_at)
  have "pairs_of t = concat (map snd X) @ b @ concat (map snd Y)"
    using rows_pairs [of t] assms(2) by simp
  then show "sorted_keys b"
    using tree_atD(3) [OF assms(1)] by (simp add: sorted_wrt_append)
qed

lemma map_of_sorted:
  assumes "sorted_keys b"
  shows "map_of b key = (let c = below_count b key in if c < length b \<and> fst (b ! c) = key then Some (snd (b ! c)) else None)"
proof -
  have d: "distinct (map fst b)"
    using assms by (simp add: strict_sorted_iff)
  let ?c = "below_count b key"
  show ?thesis
  proof (cases "?c < length b \<and> fst (b ! ?c) = key")
    case True
    then have "map_of b key = Some (snd (b ! ?c))"
      using d by (metis map_of_is_SomeI nth_mem prod.collapse)
    then show ?thesis
      using True by (simp add: Let_def)
  next
    case False
    then have "key \<notin> fst ` set b"
      using below_count_key [OF assms, of key] by blast
    then show ?thesis
      using False by (auto simp: Let_def map_of_eq_None_iff)
  qed
qed

lemma map_of_other: "\<forall>e \<in> set xs. fst e \<noteq> key \<Longrightarrow> map_of xs key = None"
  by (auto simp: map_of_eq_None_iff)

lemma map_of_row:
  fixes t :: "('k :: linorder, 'v) tree"
  assumes "rows t = X @ (i, b) # Y" "\<forall>e \<in> set (concat (map snd X)). fst e < key" "\<forall>e \<in> set (concat (map snd Y)). key < fst e"
  shows "map_of (pairs_of t) key = map_of b key"
proof -
  have "pairs_of t = concat (map snd X) @ b @ concat (map snd Y)"
    using rows_pairs [of t] assms(1) by simp
  moreover have "map_of (concat (map snd X)) key = None"
    using assms(2) by (intro map_of_other) (metis less_irrefl)
  moreover have "map_of (concat (map snd Y)) key = None"
    using assms(3) by (intro map_of_other) (metis less_irrefl)
  ultimately show ?thesis
    by (simp add: map_add_def split: option.split)
qed

lemma is_past_search:
  assumes "0 < pair_size L" "sorted_keys b"
  shows "is_past L b (off L (below_count b key)) key = Some (map_of b key = None)"
proof (cases "below_count b key < length b")
  case True
  then show ?thesis
    using assms below_count_at [OF True] by (auto simp: is_past_def off_eqs key_at_off map_of_sorted Let_def)
next
  case False
  then show ?thesis
    using assms below_count_le [of b key] by (simp add: is_past_def off_eqs map_of_sorted Let_def)
qed

lemma bpt_find_ok:
  assumes "sizes_ok z" "stored z s ps"
  shows "bpt_find z key s = Some (map_option (\<lambda>v. (key, v)) (map_of ps key))"
  using assms(2)
proof (cases rule: stored_cases)
  case 1
  then show ?thesis
    by (simp add: bpt_find_def find_data_def)
next
  case (2 d D t)
  obtain X i b Y where r: "rows t = X @ (i, b) # Y" "find_data z key s = Some (Some i)"
    "\<forall>e \<in> set (concat (map snd X)). fst e < key" "\<forall>e \<in> set (concat (map snd Y)). key < fst e"
    by (rule find_data_ok [OF 2(1)])
  note b = row_block [OF 2(1) r(1)]
  have m: "map_of ps key = map_of b key"
    using map_of_row [OF r(1,3,4)] 2(2) by simp
  have P: "0 < pair_size (DL z)"
    using assms(1) by simp
  show ?thesis
  proof (cases "map_of b key")
    case None
    then show ?thesis
      using r(2) b m lower_bound_ok [OF P b(3)] is_past_search [OF P b(3)] by (simp add: bpt_find_def)
  next
    case (Some v)
    then have "below_count b key < length b" "fst (b ! below_count b key) = key" "snd (b ! below_count b key) = v"
      using map_of_sorted [OF b(3), of key] by (auto simp: Let_def split: if_splits)
    then show ?thesis
      using r(2) b m P Some lower_bound_ok [OF P b(3)] is_past_search [OF P b(3)]
      by (simp add: bpt_find_def key_at_off)
  qed
qed

end
