(* ===== verification/BPInsert.thy ===== *)
theory BPInsert
  imports BPTree
begin

text \<open>
  Insertion into the B+ tree: from block to block, the tree in the store turns into the tree with the pair
  inserted in order, its leaves stay in the chain, and new blocks come from the allocator.
\<close>

section \<open>Changes of a leaf\<close>

definition links :: "('k, 'v) store \<Rightarrow> nat \<Rightarrow> (nat \<times> nat) option" where
  "links s i = (case st_blocks s i of Some (Data p n b) \<Rightarrow> Some (p, n) | _ \<Rightarrow> None)"

lemma leaf_chain_links:
  "leaf_chain s p (i # xs) q \<longleftrightarrow> links s i = Some (p, hd (xs @ [q])) \<and> leaf_chain s i xs q"
  by (auto simp: links_def split: option.splits tree_block.splits)

lemma leaf_chain_links_cong: "\<forall>x \<in> set xs. links s' x = links s x \<Longrightarrow> leaf_chain s' p xs q \<longleftrightarrow> leaf_chain s p xs q"
  by (induction xs arbitrary: p) (simp_all add: leaf_chain_links del: leaf_chain.simps(2))

lemma links_set_block [simp]:
  "links (set_block s i b) = (links s)(i := (case b of Data p n c \<Rightarrow> Some (p, n) | _ \<Rightarrow> None))"
  by (auto simp: links_def fun_eq_iff split: tree_block.splits)

lemma owns_set_block: "owns s ys D \<Longrightarrow> i \<in> D \<Longrightarrow> owns (set_block s i b) ys D"
  by (auto simp: owns_def intro!: alloc_inv_cong [of s ys])

lemma good_data:
  assumes "good s D xs" "i \<in> D" "links s i = Some (p, n)"
  shows "good (set_block s i (Data p n b)) D xs"
  using assms owns_set_block [of s _ D i "Data p n b"] leaf_chain_links_cong [of xs "set_block s i (Data p n b)" s 0 0]
  by (auto simp: good_def)

lemma data_block_links: "data_block s i = Some (p, n, b) \<longleftrightarrow> links s i = Some (p, n) \<and> content s i = Some (Data 0 0 b)"
proof (cases "st_blocks s i")
  case (Some x)
  then show ?thesis
    by (cases x) (auto simp: data_block_def links_def content_def)
qed (simp add: data_block_def links_def)

lemma index_block_content: "index_block s i = Some b \<longleftrightarrow> content s i = Some (Index b)"
  by (auto simp: content_Index index_block_def split: option.splits tree_block.splits)

lemma data_block_set [simp]:
  "data_block (set_block s i b) j = (if j = i then (case b of Data p n c \<Rightarrow> Some (p, n, c) | _ \<Rightarrow> None) else data_block s j)"
  "index_block (set_block s i b) j = (if j = i then (case b of Index c \<Rightarrow> Some c | _ \<Rightarrow> None) else index_block s j)"
  "is_data_block (set_block s i b) j = (if j = i then (case b of Data p n c \<Rightarrow> True | _ \<Rightarrow> False) else is_data_block s j)"
  by (simp_all add: data_block_def index_block_def is_data_block_def)

lemma forest_leaf_block:
  assumes "forest z 0 s D L [Leaf i b] R"
  shows "data_block s i = Some (last (0 # L), hd (R @ [0]), b)" "is_data_block s i"
proof -
  have "leaf_chain s 0 (L @ i # R) 0" "content s i = Some (Data 0 0 b)"
    using assms by (simp_all add: forest_def good_def)
  then show "data_block s i = Some (last (0 # L), hd (R @ [0]), b)" "is_data_block s i"
    using leaf_chain_at [of s 0 L i R 0] by (auto simp: data_block_def content_Data is_data_block_def)
qed

lemma forest_leaf_update:
  assumes f: "forest z 0 s D L [Leaf i b] R" and c: "c \<noteq> []" "off (DL z) (length c) \<le> PAGE_SIZE"
    and s': "data_block s i = Some (p, n, b)"
  shows "forest z 0 (set_block s i (Data p n c)) D L [Leaf i c] R" "turns s D [Leaf i b] (set_block s i (Data p n c)) D [Leaf i c]"
proof -
  have "links s i = Some (p, n)"
    using s' by (simp add: data_block_links)
  then show "forest z 0 (set_block s i (Data p n c)) D L [Leaf i c] R"
    using f c good_data [of s D "L @ i # R" i p n c] by (simp add: forest_def)
  show "turns s D [Leaf i b] (set_block s i (Data p n c)) D [Leaf i c]"
    by (simp add: turns_def)
qed

text \<open>A row survives the creation of a block.\<close>

lemma forest_create:
  assumes f: "forest z d s D L ts R" and room: "st_total s + 1 < 2 ^ 32"
  obtains j s' where "create_block b s = Some (j, s')" "forest z d s' (insert j D) L ts R" "j \<notin> D" "0 < j" "st_blocks s' j = Some b"
    "\<forall>k \<in> D. st_blocks s' k = st_blocks s k" "h_begin s' = h_begin s" "st_total s' \<le> st_total s + 1"
proof -
  obtain ys where ys: "owns s ys D"
    using forest_good [OF f] by blast
  obtain j s' where s': "create_block b s = Some (j, s')" "owns s' (tl ys) (insert j D)" "j \<notin> D" "0 < j"
    "st_blocks s' j = Some b" "\<forall>k \<in> D. st_blocks s' k = st_blocks s k" "h_begin s' = h_begin s" "st_total s' \<le> st_total s + 1"
    using create_owns [OF ys room] by metis
  have D: "set (all_blocks ts) \<subseteq> D" "set (L @ all_leaves ts @ R) \<subseteq> D"
    using f by (auto simp: forest_def good_def)
  have "holds s' t" if "t \<in> set ts" for t
  proof -
    have "set (blocks t) \<subseteq> D"
      using that D(1) by (auto simp: set_all)
    then have "\<forall>k \<in> set (blocks t). content s' k = content s k"
      using s'(6) by (auto simp: content_def)
    then show ?thesis
      using holds_cong [of t s' s] forestD(2) [OF f that] by simp
  qed
  moreover have "\<forall>x \<in> set (L @ all_leaves ts @ R). st_blocks s' x = st_blocks s x"
    using D(2) s'(6) by auto
  then have "leaf_chain s' 0 (L @ all_leaves ts @ R) 0"
    using f leaf_chain_cong [of "L @ all_leaves ts @ R" s' s 0 0] by (simp add: forest_def good_def)
  ultimately have "forest z d s' (insert j D) L ts R"
    using f s'(2) by (auto simp: forest_def good_def)
  then show ?thesis
    using that s' by blast
qed

text \<open>The split of a leaf.\<close>

lemma data_split_ok:
  assumes f: "forest z 0 s D L [Leaf i b] R" and j: "j \<in> D" "j \<noteq> i" "j \<notin> set (L @ R)" "data_block s j = Some (q, m, [])"
    and b: "blk_split (DL z) b [] key x = Some (l, r)" "l \<noteq> []" "r \<noteq> []"
      "off (DL z) (length l) \<le> PAGE_SIZE" "off (DL z) (length r) \<le> PAGE_SIZE"
  shows "\<exists>s'. data_split z i j key x s = Some s' \<and> forest z 0 s' D L [Leaf i l, Leaf j r] R \<and> st_total s' = st_total s \<and>
    h_begin s' = h_begin s \<and> (\<forall>k \<in> D - {i, j}. content s' k = content s k)"
proof -
  let ?p = "last (0 # L)" and ?n = "hd (R @ [0])"
  have good: "good s D (L @ i # R)" and i: "i \<in> D" "i \<notin> set L" "i \<notin> set R"
    using f by (auto simp: forest_def)
  have chain: "leaf_chain s 0 (L @ i # R) 0" and dist: "distinct (L @ i # R)" and D: "set (L @ i # R) \<subseteq> D"
    using good by (simp_all add: good_def)
  obtain ys where ys: "owns s ys D"
    using good by (auto simp: good_def)
  then have pos: "k \<in> D \<Longrightarrow> 0 < k" for k
    by (auto simp: owns_def)
  note di = forest_leaf_block(1) [OF f]
  let ?s1 = "set_block (set_block s i (Data ?p ?n l)) j (Data i ?n r)"
  show ?thesis
  proof (cases R)
    case Nil
    let ?s = "set_block ?s1 i (Data ?p j l)"
    have run: "data_split z i j key x s = Some ?s"
      using di j(2,4) b(1) Nil by (simp add: data_split_def Let_def)
    have "\<forall>x \<in> set L. links ?s x = links s x"
      using i j(3) by auto
    then have "leaf_chain ?s 0 L i"
      using leaf_chain_links_cong [of L ?s s 0 i] chain by (simp add: leaf_chain_append)
    then have "leaf_chain ?s 0 (L @ [i, j]) 0"
      using j(2) Nil by (simp add: leaf_chain_append leaf_chain_links del: leaf_chain.simps(2))
    moreover have "owns ?s ys D"
      using ys j(1) i(1) by (intro owns_set_block)
    ultimately have "good ?s D (L @ [i, j])"
      using dist D j i Nil by (auto simp: good_def)
    then show ?thesis
      using run Nil b f j by (intro exI [of _ ?s]) (auto simp: forest_def)
  next
    case (Cons h hs)
    have h: "h \<noteq> i" "h \<noteq> j" "h \<in> D" "0 < h" "links s h = Some (i, hd (hs @ [0]))"
      using dist D j(3) Cons pos [of h] chain by (auto simp: leaf_chain_append leaf_chain_links simp del: leaf_chain.simps(2))
    obtain c where c: "data_block s h = Some (i, hd (hs @ [0]), c)"
      using h(5) by (auto simp: links_def data_block_def split: option.splits tree_block.splits)
    let ?s = "set_block (set_block ?s1 h (Data j (hd (hs @ [0])) c)) i (Data ?p j l)"
    have run: "data_split z i j key x s = Some ?s"
      using di j(2,4) b(1) Cons h(1,2,4) c by (simp add: data_split_def Let_def)
    have "\<forall>x \<in> set L. links ?s x = links s x" "\<forall>x \<in> set hs. links ?s x = links s x"
      using i j(3) dist Cons by auto
    then have "leaf_chain ?s 0 L i" "leaf_chain ?s h hs 0"
      using leaf_chain_links_cong [of L ?s s 0 i] leaf_chain_links_cong [of hs ?s s h 0] chain Cons by (simp_all add: leaf_chain_append)
    then have "leaf_chain ?s 0 (L @ [i, j] @ R) 0"
      using j(2) h Cons by (simp add: leaf_chain_append leaf_chain_links del: leaf_chain.simps(2))
    moreover have "owns ?s ys D"
      using ys j(1) i(1) h(3) by (intro owns_set_block)
    ultimately have "good ?s D (L @ [i, j] @ R)"
      using dist D j i by (auto simp: good_def)
    moreover have "content ?s k = content s k" if "k \<noteq> i" "k \<noteq> j" for k
      using that c by (auto simp: data_block_links)
    ultimately show ?thesis
      using run b f j h by (intro exI [of _ ?s]) (auto simp: forest_def)
  qed
qed


section \<open>Insertion into a leaf\<close>

text \<open>What an insertion below a block leaves: the tree \<open>t\<close> has become one or two trees that hold the pair too.\<close>

definition up_of :: "('k, 'v) tree list \<Rightarrow> ('k \<times> nat) option" where
  "up_of ts = (case ts of [t, u] \<Rightarrow> Some (entry u) | _ \<Rightarrow> None)"

definition inserted ::
  "sizes \<Rightarrow> nat \<Rightarrow> ('k :: linorder, 'v) store \<Rightarrow> nat set \<Rightarrow> nat list \<Rightarrow> ('k, 'v) tree \<Rightarrow> nat list \<Rightarrow> 'k \<Rightarrow> 'v \<Rightarrow>
    (bool \<times> ('k \<times> nat) option \<times> ('k, 'v) store) option \<Rightarrow> bool" where
  "inserted z d s D L t R key x res \<longleftrightarrow> (\<exists>ts s' D'. res = Some (True, up_of ts, s') \<and> forest z d s' D' L ts R \<and>
     turns s D [t] s' D' ts \<and> all_pairs ts = insert_sorted (pairs_of t) key x \<and> (length ts = 1 \<or> length ts = 2) \<and>
     root (hd ts) = root t \<and> st_total s' \<le> st_total s + Suc d)"

lemma hit_search:
  assumes "0 < pair_size L" "sorted_keys b"
  shows "(if off L (below_count b key) \<noteq> end_off L b then do { k \<leftarrow> key_at L b (off L (below_count b key)); Some (k = key) }
      else Some False) = Some (key \<in> fst ` set b)"
  using assms below_count_key [OF assms(2), of key] below_count_le [of b key]
  by (cases "below_count b key < length b") (auto simp: off_eqs key_at_off simp del: below_count_key)

lemma insert_sorted_not_Nil [simp]: "insert_sorted b key x \<noteq> []"
  by (simp add: insert_sorted_def)

lemma split_parts:
  assumes "0 < pair_size L" "sorted_keys b" "b \<noteq> []" "off L (length b) \<le> PAGE_SIZE"
  obtains l r where "blk_split L b [] key x = Some (l, r)" "l @ r = insert_sorted b key x" "l \<noteq> []" "r \<noteq> []"
    "off L (length l) \<le> PAGE_SIZE" "off L (length r) \<le> PAGE_SIZE"
proof -
  define n where "n = (length b + 1) div 2"
  have n: "0 < n" "n \<le> length b" "length b + 1 - n \<le> length b"
    using assms(3) by (cases b; simp add: n_def; presburger)+
  have fits: "off L m \<le> PAGE_SIZE" if "m \<le> length b" for m
    using off_simps(2) [OF assms(1), of m "length b"] that assms(4) by (simp del: off_simps)
  have "blk_split L b [] key x = Some (take n (insert_sorted b key x), drop n (insert_sorted b key x))"
    using blk_split_ok [OF assms(1,2) _ assms(4), of key x] assms(3) by (simp add: n_def)
  then show ?thesis
    using n fits by (intro that [of "take n (insert_sorted b key x)" "drop n (insert_sorted b key x)"]) (simp_all add: min_absorb2)
qed

lemma data_block_insert_hit:
  assumes "sizes_ok z" "forest z 0 s D L [Leaf i b] R" "sorted_keys b" "key \<in> fst ` set b"
  shows "data_block_insert z key x i s = Some (False, None, s)"
  using assms(3,4) forest_leaf_block [OF assms(2)] hit_search [of "DL z" b key] lower_bound_ok [of "DL z" b key] assms(1)
  by (simp add: data_block_insert_def)

lemma data_block_insert_ok:
  assumes z: "sizes_ok z" and f: "forest z 0 s D L [Leaf i b] R" and b: "sorted_keys b" "key \<notin> fst ` set b"
    and room: "st_total s + 1 < 2 ^ 32"
  shows "inserted z 0 s D L (Leaf i b) R key x (data_block_insert z key x i s)"
proof -
  let ?c = "below_count b key"
  note di = forest_leaf_block [OF f]
  have P: "0 < pair_size (DL z)"
    using z by simp
  have wf: "b \<noteq> []" "off (DL z) (length b) \<le> PAGE_SIZE"
    using f by (simp_all add: forest_def)
  have search: "data_block_insert z key x i s = (if can_insert (DL z) b then do {
       s \<leftarrow> data_insert z i (off (DL z) ?c) key x s;
       Some (True, None, s)
     } else do {
       (j, s) \<leftarrow> create_data_block s;
       s \<leftarrow> data_split z i j key x s;
       k \<leftarrow> data_first z j s;
       Some (True, Some (k, j), s)
     })"
    using b di(1) hit_search [OF P b(1), of key] lower_bound_ok [OF P b(1), of key] by (simp add: data_block_insert_def)
  show ?thesis
  proof (cases "can_insert (DL z) b")
    case True
    let ?b = "insert_sorted b key x" and ?s = "set_block s i (Data (last (0 # L)) (hd (R @ [0])) (insert_sorted b key x))"
    have "data_insert z i (off (DL z) ?c) key x s = Some ?s"
      using True di(1) blk_insert_ok [OF P, of ?c b key x] below_count_le [of b key]
      by (simp add: data_insert_def can_insert_off insert_sorted_def)
    moreover have "forest z 0 ?s D L [Leaf i ?b] R" "turns s D [Leaf i b] ?s D [Leaf i ?b]"
      using forest_leaf_update [OF f _ _ di(1), of ?b] True by (auto simp: can_insert_off)
    ultimately show ?thesis
      using True unfolding inserted_def search
      by (intro exI [of _ "[Leaf i ?b]"] exI [of _ ?s] exI [of _ D]) (simp add: up_of_def)
  next
    case False
    obtain l r where lr: "blk_split (DL z) b [] key x = Some (l, r)" "l @ r = insert_sorted b key x" "l \<noteq> []" "r \<noteq> []"
      "off (DL z) (length l) \<le> PAGE_SIZE" "off (DL z) (length r) \<le> PAGE_SIZE"
      by (rule split_parts [OF P b(1) wf])
    obtain j s1 where s1: "create_block (Data 0 0 []) s = Some (j, s1)" "forest z 0 s1 (insert j D) L [Leaf i b] R" "j \<notin> D"
      "st_blocks s1 j = Some (Data 0 0 [])" "\<forall>k \<in> D. st_blocks s1 k = st_blocks s k" "h_begin s1 = h_begin s"
      "st_total s1 \<le> st_total s + 1"
      using forest_create [OF f room] by metis
    have j: "j \<noteq> i" "j \<notin> set (L @ R)"
      using s1(3) f by (auto simp: forest_def good_def)
    obtain s2 where s2: "data_split z i j key x s1 = Some s2" "forest z 0 s2 (insert j D) L [Leaf i l, Leaf j r] R"
      "st_total s2 = st_total s1" "h_begin s2 = h_begin s1" "\<forall>k \<in> insert j D - {i, j}. content s2 k = content s1 k"
      using data_split_ok [OF s1(2) _ j _ lr(1,3-6), of 0 0] s1(4) by (auto simp: data_block_def)
    have "data_first z j s2 = Some (first_key (Leaf j r))"
    proof -
      have "forest z 0 s2 (insert j D) (L @ [i]) [Leaf j r] R"
        using forest_part [of z 0 s2 "insert j D" L "[Leaf i l]" "[Leaf j r]" "[]" R] s2(2) by simp
      from forest_leaf_block(1) [OF this] show ?thesis
        using P lr(4) by (simp add: data_first_def off_eqs key_at_off first_key_def hd_conv_nth)
    qed
    moreover have "turns s D [Leaf i b] s2 (insert j D) [Leaf i l, Leaf j r]"
      using s2(4,5) s1(3,5,6) by (auto simp: turns_def content_def)
    ultimately show ?thesis
      using False s1(1,7) s2(1-3) lr(2) unfolding inserted_def search
      by (intro exI [of _ "[Leaf i l, Leaf j r]"] exI [of _ s2] exI [of _ "insert j D"])
        (simp add: up_of_def create_data_block_def entry_def)
  qed
qed


section \<open>Insertion below a branch\<close>

lemma forest_pairs: "forest z d s D L ts R \<Longrightarrow> \<forall>t \<in> set ts. pairs_of t \<noteq> []"
  using forestD(1) wf_pairs by blast

lemma insert_sorted_at:
  assumes "sorted_keys (X @ (k, y) # Y)"
  shows "insert_sorted (X @ Y) k y = X @ (k, y) # Y"
proof -
  have "below_count (X @ Y) k = length X"
    using assms by (intro below_count_unique) (auto simp: sorted_wrt_append nth_append neq_Nil_conv)
  then show ?thesis
    by (simp add: insert_sorted_def)
qed

lemma insert_sorted_first:
  assumes "b \<noteq> []"
  shows "fst (hd (insert_sorted b key x)) = (if fst (hd b) < key then fst (hd b) else key)"
  using assms by (cases b) (simp_all add: insert_sorted_def below_count_def)

lemma first_key_all:
  assumes "ts \<noteq> []" "\<forall>t \<in> set ts. pairs_of t \<noteq> []"
  shows "first_key (hd ts) = fst (hd (all_pairs ts))"
  using assms by (cases ts) (simp_all add: first_key_def)

lemma first_key_Branch:
  assumes "ts \<noteq> []" "\<forall>t \<in> set ts. pairs_of t \<noteq> []"
  shows "first_key (Branch i ts) = first_key (hd ts)"
  using first_key_all [OF assms] by (simp add: first_key_def)

lemma index_first_ok: "index_block s i = Some (map entry ts) \<Longrightarrow> ts \<noteq> [] \<Longrightarrow> index_first z i s = Some (first_key (hd ts))"
  by (simp add: index_first_def off_eqs key_at_off hd_conv_nth)

lemma turns_branch:
  "turns s D [Branch i ts] s' D' us \<longleftrightarrow> D' - set (all_blocks us) = D - insert i (set (all_blocks ts)) \<and>
    (\<forall>k \<in> D - insert i (set (all_blocks ts)). content s' k = content s k) \<and> h_begin s' = h_begin s"
  by (simp add: turns_def)

lemma index_add_ok:
  assumes f: "forest z d s D L (A @ us @ C) R" and us: "us = [u] \<or> us = [u, v]"
    and i: "i \<in> D" "i \<notin> set (all_blocks (A @ us @ C))" "i \<notin> set (L @ R)" "index_block s i = Some (map entry (A @ u # C))"
    and fits: "off (IL z) (length (A @ u # C)) \<le> PAGE_SIZE" and sorted: "sorted_keys (all_pairs (A @ us @ C))"
    and room: "st_total s + 1 < 2 ^ 32"
  shows "\<exists>ws s' D'. index_add z i (off (IL z) (length A)) (up_of us) s = Some (up_of ws, s') \<and> forest z (Suc d) s' D' L ws R \<and>
    turns s D [Branch i (A @ us @ C)] s' D' ws \<and> all_pairs ws = all_pairs (A @ us @ C) \<and> (length ws = 1 \<or> length ws = 2) \<and>
    root (hd ws) = i \<and> st_total s' \<le> st_total s + 1"
proof (cases "us = [u]")
  case True
  have "\<not> is_data_block s i"
    using i(4) by (auto simp: index_block_def is_data_block_def split: option.splits tree_block.splits)
  then have "forest z (Suc d) s D L [Branch i (A @ us @ C)] R"
    using f i fits True by (subst forest_branch [of "\<lambda>z n. off (IL z) n \<le> PAGE_SIZE"]) auto
  then show ?thesis
    using True by (intro exI [of _ "[Branch i (A @ us @ C)]"] exI [of _ s] exI [of _ D]) (simp add: index_add_def up_of_def)
next
  case False
  with us have uv: "us = [u, v]"
    by simp
  let ?b = "map entry (A @ u # C)" and ?ws = "A @ [u, v] @ C"
  have ws: "\<forall>t \<in> set ?ws. pairs_of t \<noteq> []" "sorted_keys (map entry ?ws)"
    using forest_pairs [OF f] uv sorted_entries [of ?ws] sorted by auto
  show ?thesis
  proof (cases "can_insert (IL z) ?b")
    case True
    let ?s = "set_block s i (Index (map entry ?ws))"
    have "blk_insert (IL z) ?b (off (IL z) (Suc (length A))) (first_key v) (root v) = Some (map entry ?ws)"
      using True blk_insert_ok [of "IL z" "Suc (length A)" ?b "first_key v" "root v"] by (simp add: can_insert_off entry_def)
    then have "index_add z i (off (IL z) (length A)) (up_of us) s = Some (None, ?s)"
      using True i(4) uv by (simp add: index_add_def up_of_def index_insert_def off_eqs entry_def)
    moreover have "forest z (Suc d) ?s D L [Branch i ?ws] R"
      using forest_set_block [OF f i(1-3), of "Index (map entry ?ws)"] i uv True
      by (subst forest_branch [of "\<lambda>z n. off (IL z) n \<le> PAGE_SIZE"]) (auto simp: can_insert_off)
    ultimately show ?thesis
      using uv by (intro exI [of _ "[Branch i ?ws]"] exI [of _ ?s] exI [of _ D]) (simp add: up_of_def turns_branch)
  next
    case full: False
    have "sorted_keys (map entry (A @ u # C))"
      using ws(2) by (auto simp: sorted_wrt_append)
    then obtain l r where lr: "blk_split (IL z) ?b [] (first_key v) (root v) = Some (l, r)"
      "l @ r = insert_sorted ?b (first_key v) (root v)" "l \<noteq> []" "r \<noteq> []"
      "off (IL z) (length l) \<le> PAGE_SIZE" "off (IL z) (length r) \<le> PAGE_SIZE"
      using fits by (elim split_parts [of "IL z" ?b "first_key v" "root v", rotated 1]) simp_all
    have "l @ r = map entry ?ws"
      using lr(2) insert_sorted_at [of "map entry (A @ [u])" "first_key v" "root v" "map entry C"] ws(2) by (simp add: entry_def)
    then obtain ls rs where lrs: "?ws = ls @ rs" "l = map entry ls" "r = map entry rs"
      by (metis map_eq_append_conv)
    obtain j s1 where s1: "create_block (Index []) s = Some (j, s1)" "forest z d s1 (insert j D) L ?ws R" "j \<notin> D"
      "st_blocks s1 j = Some (Index [])" "\<forall>k \<in> D. st_blocks s1 k = st_blocks s k" "h_begin s1 = h_begin s"
      "st_total s1 \<le> st_total s + 1"
      using forest_create [OF f room] uv by metis
    have j: "j \<noteq> i" "j \<notin> set (all_blocks ?ws)" "j \<notin> set (L @ R)"
      using s1(3) f i(1) uv by (auto simp: forest_def good_def)
    let ?s = "set_block (set_block s1 i (Index l)) j (Index r)"
    have b1: "index_block s1 i = Some ?b" "index_block s1 j = Some []"
      using i(1,4) s1(4,5) by (simp_all add: index_block_def)
    have "index_split z i j (first_key v) (root v) s1 = Some ?s"
      using b1 lr(1) by (simp add: index_split_def)
    moreover have "index_first z j ?s = Some (first_key (hd rs))"
      using lrs lr(4) by (intro index_first_ok) auto
    ultimately have run: "index_add z i (off (IL z) (length A)) (up_of us) s = Some (Some (first_key (hd rs), j), ?s)"
      using full i(4) uv s1(1) by (simp add: index_add_def up_of_def create_index_block_def entry_def)
    have B: "set (all_blocks (ls @ rs)) = set (all_blocks ?ws)"
      by (simp only: lrs(1))
    have "forest z d (set_block s1 i (Index l)) (insert j D) L ?ws R"
      using i uv by (intro forest_set_block [OF s1(2)]) auto
    then have f2: "forest z d (set_block s1 i (Index l)) (insert j D) L (ls @ rs) R"
      by (simp only: lrs(1))
    have "forest z d ?s (insert j D) L (ls @ rs) R"
      by (rule forest_set_block [OF f2]) (use j B in auto)
    moreover have "i \<notin> set (all_blocks (ls @ rs))" "j \<notin> set (all_blocks (ls @ rs))"
      using B i(2) j(2) uv by simp_all
    ultimately have "forest z (Suc d) ?s (insert j D) L [Branch i ls, Branch j rs] R"
      using i j(1,3) lr(3-6) lrs(2,3) by (subst forest_branches) auto
    moreover have "first_key (Branch j rs) = first_key (hd rs)"
      using lr(4) lrs ws(1) by (intro first_key_Branch) auto
    moreover have "all_pairs [Branch i ls, Branch j rs] = all_pairs (A @ us @ C)"
      using lrs(1) uv by (metis all_pairs_def branch_simps(1) concat_append forest_simps(1,2,3) append_Nil2)
    moreover have "turns s D [Branch i (A @ us @ C)] ?s (insert j D) [Branch i ls, Branch j rs]"
    proof -
      have "set (all_blocks (ls @ rs)) = set (all_blocks (A @ us @ C))"
        using lrs(1) uv by simp
      then show ?thesis
        using s1(3,5,6) j by (auto simp: turns_def content_def)
    qed
    ultimately show ?thesis
      using run s1(7) by (intro exI [of _ "[Branch i ls, Branch j rs]"] exI [of _ ?s] exI [of _ "insert j D"])
        (simp add: up_of_def entry_def)
  qed
qed


text \<open>The step of an insertion from a branch to the child the key belongs to.\<close>

lemma insert_step:
  assumes b: "index_block s i = Some (map entry ts)" "\<not> is_data_block s i" "sorted_keys (map entry ts)"
    and ts: "ts = A @ m # C" "child_pos ts key = length A"
  shows "insert_impl z key x i s = (if key \<in> first_key ` set ts then Some (False, None, s) else do {
      (ok, up, s) \<leftarrow> insert_impl z key x (root m) s;
      s \<leftarrow> (if key < first_key (hd ts) \<and> ok then index_update z i (off (IL z) (length A)) key s else Some s);
      (up, s) \<leftarrow> index_add z i (off (IL z) (length A)) up s;
      Some (ok, up, s)
    })"
proof -
  let ?b = "map entry ts" and ?c = "below_count (map entry ts) key"
  have P: "0 < pair_size (IL z)" and ne: "ts \<noteq> []"
    using ts(1) by simp_all
  have keys: "fst ` entry ` set ts = first_key ` set ts"
    by (simp add: image_image)
  have first: "key_at (IL z) ?b (begin_off (IL z)) = Some (first_key (hd ts))"
    using ne by (simp add: off_eqs key_at_off hd_conv_nth)
  have "(if off (IL z) ?c \<noteq> begin_off (IL z) then prev_off (IL z) (off (IL z) ?c) else Some (off (IL z) ?c)) =
      Some (off (IL z) (length A))" if "key \<notin> first_key ` set ts"
  proof -
    have "first_key (ts ! ?c) \<noteq> key" if "?c < length ts"
      using \<open>key \<notin> first_key ` set ts\<close> that by (metis image_eqI nth_mem)
    then have "length A = ?c - 1"
      using ts(2) by (auto simp: child_pos_def Let_def split: if_splits)
    then show ?thesis
      by (cases ?c) (simp_all add: off_eqs)
  qed
  moreover have "off (IL z) (length A) \<noteq> end_off (IL z) ?b" "entry_at (IL z) ?b (off (IL z) (length A)) = Some (root m)"
    by (simp_all add: ts(1) off_eqs key_at_off nth_append)
  ultimately show ?thesis
    using b first hit_search [OF P b(3), of key] lower_bound_ok [OF P b(3), of key]
    by (subst insert_impl.simps) (cases "key \<in> first_key ` set ts"; simp add: keys)
qed

lemma index_update_ok:
  assumes "index_block s i = Some (map entry (A @ m # C))" "root u = root m" "first_key u = key"
  shows "index_update z i (off (IL z) (length A)) key s = Some (set_block s i (Index (map entry (A @ u # C))))"
  using assms blk_update_ok(1) [of "IL z" "length A" "map entry (A @ m # C)" key]
  by (simp add: index_update_def list_update_append nth_append entry_def)

lemma insert_impl_ok:
  assumes z: "sizes_ok z"
  shows "forest z d s D L [t] R \<Longrightarrow> sorted_keys (pairs_of t) \<Longrightarrow> st_total s + d + 1 < 2 ^ 32 \<Longrightarrow>
    (key \<in> fst ` set (pairs_of t) \<longrightarrow> insert_impl z key x (root t) s = Some (False, None, s)) \<and>
    (key \<notin> fst ` set (pairs_of t) \<longrightarrow> inserted z d s D L t R key x (insert_impl z key x (root t) s))"
proof (induction d arbitrary: s D L t R)
  case 0
  then obtain i b where t: "t = Leaf i b"
    by (auto simp: forest_def elim: wf_cases)
  then have "insert_impl z key x i s = data_block_insert z key x i s"
    using forest_leaf_block(2) [of z s D L i b R] 0(1) by (subst insert_impl.simps) simp
  then show ?case
    using 0 t data_block_insert_hit [OF z, of s D L i b R key x] data_block_insert_ok [OF z, of s D L i b R key x] by simp
next
  case (Suc d)
  obtain i ts where t: "t = Branch i ts"
    using Suc.prems(1) by (auto simp: forest_def elim: wf_cases)
  have f: "forest z d s D L ts R" and i: "i \<in> D" "i \<notin> set (all_blocks ts)" "i \<notin> set (L @ R)" "index_block s i = Some (map entry ts)"
    "\<not> is_data_block s i" "ts \<noteq> []" "off (IL z) (length ts) \<le> PAGE_SIZE"
    using Suc.prems(1) forest_branch [of "\<lambda>z n. off (IL z) n \<le> PAGE_SIZE" z d s D L i ts R] by (simp_all add: t)
  have sorted: "sorted_keys (all_pairs ts)" and ne: "\<forall>t \<in> set ts. pairs_of t \<noteq> []"
    using Suc.prems(2) t forest_pairs [OF f] by simp_all
  obtain A m C where s: "ts = A @ m # C" "child_pos ts key = length A" "\<forall>e \<in> set (all_pairs A). fst e < key"
    "\<forall>e \<in> set (all_pairs C). key < fst e" "A \<noteq> [] \<longrightarrow> first_key m \<le> key"
    by (rule child_pos_split [OF sorted ne i(6), of key]) blast
  note step = insert_step [OF i(4,5) sorted_entries [OF sorted ne] s(1,2)]
  have m: "sorted_keys (pairs_of m)" "pairs_of m \<noteq> []" "forest z d s D (L @ all_leaves A) [m] (all_leaves C @ R)"
    using sorted_part [OF sorted, of m] ne forest_part [of z d s D L A "[m]" C R] f s(1) by simp_all
  have first: "t \<in> set ts \<Longrightarrow> first_key t \<in> fst ` set (all_pairs ts)" for t
    using first_key_in [of t] ne by (force simp: set_all)
  note IH = Suc.IH [OF m(3,1)]
  show ?case
  proof (intro conjI impI)
    assume "key \<in> fst ` set (pairs_of t)"
    then have "key \<in> fst ` set (pairs_of m)"
      using s(1,3,4) t by (auto dest: less_imp_neq)
    then show "insert_impl z key x (root t) s = Some (False, None, s)"
      using IH Suc.prems(3) by (simp add: t step index_add_def)
  next
    assume key: "key \<notin> fst ` set (pairs_of t)"
    then have "key \<notin> first_key ` set ts" "key \<notin> fst ` set (pairs_of m)"
      using first t s(1) by (auto simp: set_all)
    then obtain us s1 D1 where r: "insert_impl z key x (root m) s = Some (True, up_of us, s1)"
      "forest z d s1 D1 (L @ all_leaves A) us (all_leaves C @ R)" "turns s D [m] s1 D1 us"
      "all_pairs us = insert_sorted (pairs_of m) key x" "length us = 1 \<or> length us = 2" "root (hd us) = root m"
      "st_total s1 \<le> st_total s + Suc d"
      using IH Suc.prems(3) by (auto simp: inserted_def)
    have f1: "forest z d s1 D1 L (A @ us @ C) R" "turns s D ts s1 D1 (A @ us @ C)"
      using forest_replace [of z d s D L A "[m]" C R, OF _ r(2,3)] f s(1) by simp_all
    obtain u where u: "us = [u] \<or> (\<exists>v. us = [u, v])" "hd us = u"
      using r(5) by (cases us) (auto simp: length_Suc_conv numeral_2_eq_2)
    have pairs: "all_pairs (A @ us @ C) = insert_sorted (all_pairs ts) key x"
      using r(4) s(1) insert_sorted_below [OF s(3), of "pairs_of m @ all_pairs C" x] insert_sorted_above [OF s(4), of "pairs_of m" x] by simp
    have i1: "i \<in> D1" "i \<notin> set (all_blocks (A @ us @ C))" "index_block s1 i = Some (map entry (A @ m # C))"
      using f1(2) i(1,2,4) s(1) by (auto simp: turns_def index_block_content)
    have "first_key u = fst (hd (all_pairs us))"
      using first_key_all [of us] forest_pairs [OF r(2)] u by auto
    then have fk: "first_key u = (if first_key m < key then first_key m else key)"
      using r(4) m(2) by (simp add: insert_sorted_first first_key_def)
    have less: "key < first_key (hd ts) \<longleftrightarrow> \<not> first_key m < key"
    proof (cases A)
      case Nil
      then show ?thesis
        using \<open>key \<notin> first_key ` set ts\<close> s(1) by auto
    next
      case (Cons a as)
      then have "first_key (hd ts) < key"
        using first_key_in [of a] ne s(1,3) by (force simp: set_all)
      moreover have "first_key m < key"
        using s(1,5) Cons \<open>key \<notin> first_key ` set ts\<close> by (auto simp: order.order_iff_strict)
      ultimately show ?thesis
        by auto
    qed
    let ?s = "if key < first_key (hd ts) then set_block s1 i (Index (map entry (A @ u # C))) else s1"
    have s2: "(if key < first_key (hd ts) then index_update z i (off (IL z) (length A)) key s1 else Some s1) = Some ?s"
      using index_update_ok [OF i1(3), of u key z] fk less r(6) u(2) by simp
    have b2: "index_block ?s i = Some (map entry (A @ u # C))"
      using i1(3) fk less r(6) u(2) by (simp add: entry_def)
    have f2: "forest z d ?s D1 L (A @ us @ C) R"
      using f1(1) forest_set_block [OF f1(1) i1(1,2) i(3)] by simp
    have len: "off (IL z) (length (A @ u # C)) \<le> PAGE_SIZE"
      using i(7) s(1) by simp
    have sorted': "sorted_keys (all_pairs (A @ us @ C))"
      using sorted_insert [OF sorted] key t pairs by simp
    have room: "st_total ?s + 1 < 2 ^ 32"
      using r(7) Suc.prems(3) by simp
    obtain ws s3 D3 where w: "index_add z i (off (IL z) (length A)) (up_of us) ?s = Some (up_of ws, s3)"
      "forest z (Suc d) s3 D3 L ws R" "turns ?s D1 [Branch i (A @ us @ C)] s3 D3 ws" "all_pairs ws = all_pairs (A @ us @ C)"
      "length ws = 1 \<or> length ws = 2" "root (hd ws) = i" "st_total s3 \<le> st_total ?s + 1"
      using u(1) index_add_ok [OF f2 _ i1(1,2) i(3) b2 len sorted' room] by (metis (no_types, lifting))
    have same: "content ?s j = content s1 j" if "j \<noteq> i" for j
      using that by simp
    have "h_begin ?s = h_begin s1"
      by simp
    then have "turns s D [Branch i ts] ?s D1 [Branch i (A @ us @ C)]"
      using f1(2) i1(2) same unfolding turns_def by auto
    then have "turns s D [Branch i ts] s3 D3 ws"
      using w(3) by (rule turns_trans)
    moreover have "insert_impl z key x i s = Some (True, up_of ws, s3)"
      using step \<open>key \<notin> first_key ` set ts\<close> r(1) s2 w(1) by simp
    moreover have "st_total s3 \<le> st_total s + Suc (Suc d)"
      using w(7) r(7) by (simp split: if_splits)
    ultimately show "inserted z (Suc d) s D L t R key x (insert_impl z key x (root t) s)"
      using w(2,4-6) pairs unfolding inserted_def t
      by (intro exI [of _ ws] exI [of _ s3] exI [of _ D3]) simp
  qed
qed


section \<open>Insertion at the root\<close>

lemma begin_sel [simp]:
  "st_blocks (set_begin_block s i) = st_blocks s" "st_total (set_begin_block s i) = st_total s"
  "h_begin (set_begin_block s i) = (case i of None \<Rightarrow> 0 | Some i \<Rightarrow> i)"
  by (simp_all add: set_begin_block_def)

lemma content_begin [simp]: "content (set_begin_block s i) = content s"
  by (simp add: content_def fun_eq_iff)

lemma owns_begin: "owns s xs D \<Longrightarrow> owns (set_begin_block s i) xs D"
  by (auto simp: owns_def set_begin_block_def intro!: alloc_inv_cong [of s xs])

lemma forest_begin: "forest z d s D L ts R \<Longrightarrow> forest z d (set_begin_block s i) D L ts R"
  using holds_cong [of _ "set_begin_block s i" s] leaf_chain_cong [of _ "set_begin_block s i" s]
  by (auto simp: forest_def good_def intro: owns_begin)

lemma wf_depth: "wf z d t \<Longrightarrow> Suc d \<le> length (blocks t)"
proof (induction z d t rule: wf.induct)
  case (2 z d i ts)
  then obtain u us where "ts = u # us"
    by (cases ts) auto
  then have "Suc d \<le> length (blocks u)" "length (blocks u) \<le> length (all_blocks ts)"
    using 2 by auto
  then show ?case
    by simp
qed simp_all

lemma depth_total:
  assumes "tree_at z d s D t"
  shows "d + 2 \<le> st_total s"
proof -
  have "Suc d \<le> card D"
    using wf_depth [OF tree_atD(1) [OF assms]] distinct_card [OF tree_atD(7) [OF assms]] assms by (simp add: tree_at_def)
  moreover have "D \<subseteq> {1..<st_total s}"
    using tree_atD(6) [OF assms] by (auto simp: owns_def Suc_le_eq)
  then have "card D \<le> st_total s - 1"
    using card_mono [of "{1..<st_total s}" D] by simp
  ultimately show ?thesis
    by linarith
qed

lemma data_first_ok: "data_block s i = Some (p, n, b) \<Longrightarrow> 0 < pair_size (DL z) \<Longrightarrow> b \<noteq> [] \<Longrightarrow> data_first z i s = Some (fst (hd b))"
  by (simp add: data_first_def off_eqs key_at_off hd_conv_nth)

lemma root_first:
  assumes "sizes_ok z" "wf z d t" "holds s t"
  shows "(if is_data_block s (root t) then data_first z (root t) s else index_first z (root t) s) = Some (first_key t)"
  using assms(2)
proof (cases rule: wf_cases)
  case (1 i b)
  then show ?thesis
    using assms data_first_ok [of s i _ _ b z] by (auto dest!: block_of_content simp: first_key_def)
next
  case (2 i ts e)
  then have "\<forall>t \<in> set ts. pairs_of t \<noteq> []"
    using assms(2) wf_pairs by auto
  then show ?thesis
    using assms(3) 2 index_first_ok [of s i ts z] first_key_Branch [of ts i] by (auto dest!: block_of_content)
qed

text \<open>What the store holds after the tree has turned into another.\<close>

lemma tree_atI:
  assumes "tree_at z d s D t" "forest z e s' D' [] [u] []" "turns s D [t] s' D' [u]" "root u = root t" "sorted_keys (pairs_of u)"
  shows "tree_at z e s' D' u"
  using assms by (auto simp: tree_at_def turns_def forest_def)

lemma off_mono: "i \<le> j \<Longrightarrow> off L i \<le> off L j"
  by (simp add: off_def)

lemma storedI: "tree_at z d s D t \<Longrightarrow> ps = pairs_of t \<Longrightarrow> stored z s ps"
  by (auto simp: stored_def)

lemma bpt_insert_empty:
  assumes "sizes_ok z" "owns s xs {}" "begin_block s = None" "st_total s + 1 < 2 ^ 32"
  shows "\<exists>s'. bpt_insert z key x s = Some (True, s') \<and> stored z s' [(key, x)] \<and> st_total s' \<le> st_total s + 1"
proof -
  obtain i s1 where s1: "create_block (Data 0 0 []) s = Some (i, s1)" "owns s1 (tl xs) {i}" "0 < i"
    "st_blocks s1 i = Some (Data 0 0 [])" "st_total s1 \<le> st_total s + 1"
    using create_owns [OF assms(2,4)] by metis
  let ?s = "set_begin_block (set_block s1 i (Data 0 0 [(key, x)])) (Some i)"
  have P: "0 < pair_size (DL z)" and fits: "off (DL z) 1 \<le> PAGE_SIZE"
    using assms(1) by (simp_all add: sizes_ok_def)
  have "data_block s1 i = Some (0, 0, [])"
    using s1(4) by (simp add: data_block_def)
  moreover have "blk_insert (DL z) [] (off (DL z) 0) key x = Some [(key, x)]"
    using blk_insert_ok [OF P, of 0 "[]" key x] fits by simp
  ultimately have "bpt_insert z key x s = Some (True, ?s)"
    using assms(3) s1(1) fits by (simp add: bpt_insert_def create_data_block_def can_insert_off data_insert_def off_eqs)
  moreover have "owns ?s (tl xs) {i}"
    using owns_begin owns_set_block [OF s1(2)] by blast
  then have "tree_at z 0 ?s {i} (Leaf i [(key, x)])"
    using fits by (auto simp: tree_at_def forest_def good_def)
  ultimately show ?thesis
    using s1(5) by (intro exI [of _ ?s]) (auto intro: storedI)
qed

lemma one_or_two: "length ts = 1 \<or> length ts = 2 \<Longrightarrow> (\<exists>u. ts = [u]) \<or> (\<exists>u v. ts = [u, v])"
  by (cases ts; cases "tl ts"; auto)

lemma bpt_insert_ok:
  assumes z: "sizes_ok z" and s: "stored z s ps" and room: "st_total s < 2 ^ 31"
  shows "\<exists>s'. bpt_insert z key x s = Some (key \<notin> fst ` set ps, s') \<and>
    stored z s' (if key \<in> fst ` set ps then ps else insert_sorted ps key x) \<and> st_total s' \<le> 2 * st_total s"
  using s
proof (cases rule: stored_cases)
  case (1 xs)
  have "0 < st_total s"
    using 1(3) by (simp add: owns_def alloc_inv_def)
  then show ?thesis
    using bpt_insert_empty [OF z 1(3,2), of key x] 1(1) room by (auto simp: insert_sorted_def)
next
  case (2 d D t)
  note t = tree_atD [OF 2(1)]
  have f: "forest z d s D [] [t] []" "D = set (blocks t)" "h_begin s = root t"
    using 2(1) unfolding tree_at_def by blast+
  have r: "st_total s + d + 2 < 2 ^ 32" "d + 2 \<le> st_total s"
    using depth_total [OF 2(1)] room by simp_all
  note ins = insert_impl_ok [OF z f(1) t(3), of key x]
  show ?thesis
  proof (cases "key \<in> fst ` set (pairs_of t)")
    case True
    then have "bpt_insert z key x s = Some (False, s)"
      using ins r(1) t(4) by (simp add: bpt_insert_def)
    then show ?thesis
      using True 2 s by simp
  next
    case False
    then obtain ts s1 D1 where i: "insert_impl z key x (root t) s = Some (True, up_of ts, s1)" "forest z d s1 D1 [] ts []"
      "turns s D [t] s1 D1 ts" "all_pairs ts = insert_sorted (pairs_of t) key x" "length ts = 1 \<or> length ts = 2"
      "root (hd ts) = root t" "st_total s1 \<le> st_total s + Suc d"
      using ins r(1) by (auto simp: inserted_def)
    have sorted: "sorted_keys (all_pairs ts)"
      using sorted_insert [OF t(3) False] i(4) by simp
    have D1: "D1 = set (all_blocks ts)"
      using i(2,3) f(2) by (auto simp: turns_def forest_def)
    from i(5) consider u where "ts = [u]" | u v where "ts = [u, v]"
      using one_or_two by blast
    then show ?thesis
    proof cases
      case (1 u)
      have "tree_at z d s1 D1 u"
        using 2(1) i(2,3,4,6) sorted unfolding 1 by (intro tree_atI [of z d s D t d s1 D1 u]) simp_all
      moreover have "bpt_insert z key x s = Some (True, s1)"
        using i(1) 1 t(4) by (simp add: bpt_insert_def up_of_def)
      ultimately show ?thesis
        using False 2(2) i(4,7) r(2) 1 by (auto intro: storedI)
    next
      case (2 u v)
      have "st_total s1 + 1 < 2 ^ 32"
        using i(7) r(1) by simp
      then obtain k s2 where s2: "create_block (Index []) s1 = Some (k, s2)" "forest z d s2 (insert k D1) [] ts []" "k \<notin> D1" "0 < k"
        "st_blocks s2 k = Some (Index [])" "st_total s2 \<le> st_total s1 + 1"
        using forest_create [OF i(2)] by metis
      let ?e = "map entry [u, v]"
      let ?s = "set_begin_block (set_block (set_block s2 k (Index [entry u])) k (Index ?e)) (Some k)"
      have fits: "off (IL z) 1 \<le> PAGE_SIZE" "off (IL z) 2 \<le> PAGE_SIZE"
        using z off_mono [of 1 2 "IL z"] by (simp_all add: sizes_ok_def del: off_simps)
      have uv: "wf z d u" "holds s2 u" "root u = root t" "first_key u = fst (entry u)"
        using s2(2) 2 i(6) by (simp_all add: forest_def)
      have k: "index_block s2 k = Some []"
        using s2(5) by (simp add: index_block_def)
      have b1: "blk_insert (IL z) [] (end_off (IL z) ([] :: ('a \<times> nat) list)) (first_key u) (root t) = Some [entry u]"
        using blk_insert_ok [of "IL z" 0 "[]" "first_key u" "root t"] fits(1) uv(3) by (simp add: off_eqs entry_def)
      have b2: "blk_insert (IL z) [entry u] (end_off (IL z) [entry u]) (first_key v) (root v) = Some ?e"
        using blk_insert_ok [of "IL z" 1 "[entry u]" "first_key v" "root v"] fits(2) by (simp add: off_eqs entry_def numeral_2_eq_2)
      have "bpt_insert z key x s = Some (True, ?s)"
        using i(1) t(4) s2(1) k root_first [OF z uv(1,2), unfolded uv(3)] uv(3) b1 b2 fits 2
        by (cases "is_data_block s2 (root t)")
          (simp_all add: bpt_insert_def up_of_def create_index_block_def can_insert_off index_insert_def entry_def numeral_2_eq_2)
      moreover have "forest z d (set_block (set_block s2 k (Index [entry u])) k (Index ?e)) (insert k D1) [] ts []"
        using s2(3) D1 by (intro forest_set_block s2(2)) auto
      then have "forest z (Suc d) ?s (insert k D1) [] [Branch k ts] []"
        using fits 2 s2(3) D1
        by (intro forest_begin) (auto simp: forest_branch [of "\<lambda>z n. off (IL z) n \<le> PAGE_SIZE"] numeral_2_eq_2)
      then have "tree_at z (Suc d) ?s (insert k D1) (Branch k ts)"
        using D1 sorted by (simp add: tree_at_def)
      ultimately show ?thesis
        using False \<open>ps = pairs_of t\<close> i(4,7) s2(6) r(2) by (auto intro: storedI)
    qed
  qed
qed

end
