(* ===== verification/BPErase.thy ===== *)
theory BPErase
  imports BPInsert
begin

text \<open>
  Erasure from the B+ tree: the tree in the store turns into the tree without the pair, merged with its left
  neighbour or sharing pairs with it where the code does so; erased blocks leave the chain and go back to the
  allocator, and no block is lost.
\<close>

section \<open>Erased blocks\<close>

lemma unlink_chain:
  assumes "leaf_chain s 0 (L @ i # R) 0" "distinct (L @ i # R)" "0 \<notin> set (L @ R)"
  shows "\<exists>u. unlink_data s i = Some u \<and> leaf_chain u 0 (L @ R) 0 \<and> content u = content s"
proof -
  define p n where "p = last (0 # L)" and "n = hd (R @ [0])"
  have chain: "leaf_chain s 0 L i" "leaf_chain s i R 0"
    using assms(1) by (simp_all add: leaf_chain_append)
  obtain b where i: "data_block s i = Some (p, n, b)"
    using leaf_chain_at [OF assms(1)] by (auto simp: data_block_def p_def n_def)
  obtain s1 where s1: "(if p \<noteq> 0 then do { (q, m, c) \<leftarrow> data_block s p; Some (set_block s p (Data q n c)) } else Some s) = Some s1"
    "leaf_chain s1 0 L n" "leaf_chain s1 i R 0" "content s1 = content s"
  proof (cases L rule: rev_cases)
    case Nil
    then show ?thesis
      using that [of s] chain by (simp add: p_def)
  next
    case (snoc K k)
    then have "leaf_chain s 0 (K @ k # []) i"
      using chain by simp
    from leaf_chain_at [OF this] obtain a c where c: "st_blocks s k = Some (Data a i c)"
      by auto
    let ?s = "set_block s k (Data a n c)"
    have "leaf_chain ?s 0 L n"
      using leaf_chain_relink_end [of s 0 K k i a c n c] chain(1) c assms(2) by (simp add: snoc)
    moreover have "leaf_chain ?s i R 0"
      using chain(2) leaf_chain_cong [of R ?s s i 0] assms(2) snoc by fastforce
    moreover have "content ?s = content s"
      using c by (auto simp: content_def fun_eq_iff)
    moreover have "k \<noteq> 0" "p = k"
      using assms(3) snoc by (auto simp: p_def)
    ultimately show ?thesis
      using that [of ?s] c by (simp add: data_block_def)
  qed
  obtain u where u: "(if n \<noteq> 0 then do { (q, m, c) \<leftarrow> data_block s1 n; Some (set_block s1 n (Data p m c)) } else Some s1) = Some u"
    "leaf_chain u 0 L n" "leaf_chain u p R 0" "content u = content s1"
  proof (cases R)
    case Nil
    then show ?thesis
      using that [of s1] s1 by (simp add: n_def)
  next
    case (Cons m rs)
    then obtain c where c: "st_blocks s1 m = Some (Data i (hd (rs @ [0])) c)"
      using s1(3) by auto
    let ?s = "set_block s1 m (Data p (hd (rs @ [0])) c)"
    have "leaf_chain ?s p R 0"
      using leaf_chain_relink_begin [of s1 i m rs 0 "hd (rs @ [0])" c p c] s1(3) c assms(2) by (simp add: Cons)
    moreover have "leaf_chain ?s 0 L n"
      using s1(2) leaf_chain_cong [of L ?s s1 0 n] assms(2) Cons by fastforce
    moreover have "content ?s = content s1"
      using c by (auto simp: content_def fun_eq_iff)
    moreover have "m \<noteq> 0" "n = m"
      using assms(3) Cons by (auto simp: n_def)
    ultimately show ?thesis
      using that [of ?s] c Cons by (simp add: data_block_def)
  qed
  have "unlink_data s i = Some u"
    using i s1(1) u(1) by (simp add: unlink_data_def)
  then show ?thesis
    using u s1(4) by (auto simp: leaf_chain_append p_def n_def)
qed

lemma chain_linked:
  assumes "good s D (L @ i # R)"
  shows "linked s D i" "0 \<notin> set (L @ R)"
proof -
  obtain xs where xs: "owns s xs D"
    using assms by (auto simp: good_def)
  have chain: "leaf_chain s 0 (L @ i # R) 0" "distinct (L @ i # R)" "set (L @ i # R) \<subseteq> D"
    using assms by (simp_all add: good_def)
  show "0 \<notin> set (L @ R)"
    using xs chain(3) by (auto simp: owns_def)
  define p n where "p = last (0 # L)" and "n = hd (R @ [0])"
  have "j \<in> D \<and> j \<noteq> i \<and> is_data_block s j" if "j \<in> {p, n}" "j \<noteq> 0" for j
  proof -
    have j: "j \<in> set L \<union> set R"
      using that by (auto split: if_splits simp: hd_append p_def n_def)
    then show ?thesis
      using chain leaf_chain_data [OF chain(1), of j] by auto
  qed
  moreover obtain b where "st_blocks s i = Some (Data p n b)"
    using leaf_chain_at [OF chain(1)] by (auto simp: p_def n_def)
  ultimately show "linked s D i"
    unfolding linked_def by (metis option.inject tree_block.inject(1))
qed

lemma forest_cong:
  assumes "forest z d s D L ts R" "\<forall>j \<in> set (all_blocks ts). content s' j = content s j" "set (all_blocks ts) \<subseteq> D'"
    "set (all_blocks ts) \<inter> set (L' @ R') = {}" "good s' D' (L' @ all_leaves ts @ R')"
  shows "forest z d s' D' L' ts R'"
proof -
  have "holds s' t" if "t \<in> set ts" for t
    using that assms(1,2) holds_cong [of t s' s] by (auto simp: forest_def set_all)
  then show ?thesis
    using assms by (simp add: forest_def)
qed

text \<open>Erasing the block of a leaf that is not in the row, and a block of no leaf.\<close>

lemma forest_erase_data:
  assumes f: "forest z d s D L ts (i # R)"
  obtains s' where "erase_block s i = Some s'" "forest z d s' (D - {i}) L ts R" "\<forall>j \<in> D - {i}. content s' j = content s j"
    "h_begin s' = h_begin s" "st_total s' = st_total s"
proof -
  have g: "good s D ((L @ all_leaves ts) @ i # R)"
    using f by (simp add: forest_def)
  obtain xs where xs: "owns s xs D"
    using g by (auto simp: good_def)
  have chain: "leaf_chain s 0 ((L @ all_leaves ts) @ i # R) 0" "distinct ((L @ all_leaves ts) @ i # R)" "i \<in> D"
    using g by (simp_all add: good_def)
  obtain u where u: "unlink_data s i = Some u" "leaf_chain u 0 ((L @ all_leaves ts) @ R) 0" "content u = content s"
    using unlink_chain [OF chain(1,2) chain_linked(2) [OF g]] by blast
  obtain u' s' where s': "unlinked s i = Some u'" "erase_block s i = Some s'" "owns s' (i # xs) (D - {i})"
    "\<forall>j \<in> D - {i}. st_blocks s' j = st_blocks u' j" "st_total s' = st_total s" "h_begin s' = h_begin s"
    using erase_ok [OF xs chain(3) chain_linked(1) [OF g]] by metis
  have "is_data_block s i"
    using leaf_chain_data [OF chain(1)] by simp
  then have "u' = u"
    using s'(1) u(1) by (simp add: unlinked_def)
  have sub: "set (L @ all_leaves ts @ R) \<subseteq> D - {i}"
    using g by (auto simp: good_def)
  then have "leaf_chain s' 0 (L @ all_leaves ts @ R) 0"
    using u(2) leaf_chain_cong [of "L @ all_leaves ts @ R" s' u 0 0] s'(4) \<open>u' = u\<close> by auto
  then have "good s' (D - {i}) (L @ all_leaves ts @ R)"
    using s'(3) sub chain(2) by (auto simp: good_def)
  moreover have "\<forall>j \<in> D - {i}. content s' j = content s j"
    using s'(4) u(3) \<open>u' = u\<close> by (auto simp: content_def fun_eq_iff)
  moreover have "set (all_blocks ts) \<subseteq> D - {i}"
    using f by (auto simp: forest_def)
  moreover have "set (all_blocks ts) \<inter> set (L @ R) = {}"
    using f by (auto simp: forest_def)
  ultimately have "forest z d s' (D - {i}) L ts R"
    by (intro forest_cong [OF f]) auto
  then show ?thesis
    using that s' \<open>\<forall>j \<in> D - {i}. content s' j = content s j\<close> by blast
qed

lemma forest_erase_index:
  assumes f: "forest z d s D L ts R" and i: "i \<in> D" "i \<notin> set (all_blocks ts)" "i \<notin> set (L @ R)" "\<not> is_data_block s i"
  obtains s' where "erase_block s i = Some s'" "forest z d s' (D - {i}) L ts R" "\<forall>j \<in> D - {i}. content s' j = content s j"
    "h_begin s' = h_begin s" "st_total s' = st_total s"
proof -
  obtain xs where xs: "owns s xs D"
    using forest_good [OF f] by blast
  have "linked s D i"
    using i(4) by (auto simp: linked_def is_data_block_def)
  then obtain u s' where s': "unlinked s i = Some u" "erase_block s i = Some s'" "owns s' (i # xs) (D - {i})"
    "\<forall>j \<in> D - {i}. st_blocks s' j = st_blocks u j" "st_total s' = st_total s" "h_begin s' = h_begin s"
    using erase_ok [OF xs i(1)] by metis
  then have same: "\<forall>j \<in> D - {i}. st_blocks s' j = st_blocks s j"
    using i(4) by (simp add: unlinked_def)
  have g: "good s D (L @ all_leaves ts @ R)"
    using f by (simp add: forest_def)
  have sub: "set (L @ all_leaves ts @ R) \<subseteq> D - {i}"
    using g i(2,3) all_leaves_blocks [of ts] by (auto simp: good_def)
  then have "leaf_chain s' 0 (L @ all_leaves ts @ R) 0"
    using g leaf_chain_cong [of "L @ all_leaves ts @ R" s' s 0 0] same by (auto simp: good_def)
  then have "good s' (D - {i}) (L @ all_leaves ts @ R)"
    using s'(3) sub g by (auto simp: good_def)
  moreover have "\<forall>j \<in> D - {i}. content s' j = content s j"
    using same by (simp add: content_def)
  ultimately have "forest z d s' (D - {i}) L ts R"
    using f i(2) by (intro forest_cong [OF f]) (auto simp: forest_def)
  then show ?thesis
    using that s' \<open>\<forall>j \<in> D - {i}. content s' j = content s j\<close> by blast
qed


section \<open>Erasure from a leaf\<close>

definition without :: "('k, 'x) pairs \<Rightarrow> 'k \<Rightarrow> ('k, 'x) pairs" where
  "without b key = filter (\<lambda>e. fst e \<noteq> key) b"

lemma without_append [simp]: "without (xs @ ys) key = without xs key @ without ys key"
  by (simp add: without_def)

lemma without_other: "\<forall>e \<in> set xs. fst e \<noteq> key \<Longrightarrow> without xs key = xs"
  by (simp add: without_def)

lemma erase_search:
  assumes "sorted_keys b" "key \<in> fst ` set b"
  shows "below_count b key < length b" "take (below_count b key) b @ drop (Suc (below_count b key)) b = without b key"
proof -
  let ?c = "below_count b key"
  have c: "?c < length b" "fst (b ! ?c) = key"
    using below_count_key [OF assms(1), of key] assms(2) by blast+
  then show "?c < length b"
    by simp
  have split: "b = take ?c b @ b ! ?c # drop (Suc ?c) b"
    by (rule id_take_nth_drop [OF c(1)])
  have "sorted_keys (take ?c b @ b ! ?c # drop (Suc ?c) b)"
    using assms(1) split by metis
  then have "\<forall>e \<in> set (drop (Suc ?c) b). fst e \<noteq> key"
    using c(2) by (auto simp: sorted_wrt_append)
  moreover have "\<forall>e \<in> set (take ?c b). fst e \<noteq> key"
    using fst_set_take [of _ b key] by auto
  ultimately have "without b key = take ?c b @ drop (Suc ?c) b"
    using c(2) split by (metis (mono_tags, lifting) append_Nil filter.simps(2) without_append without_def without_other)
  then show "take ?c b @ drop (Suc ?c) b = without b key"
    by simp
qed

text \<open>When two neighbours are not merged, neither is empty, and averaging leaves neither empty.\<close>

lemma average_parts:
  assumes "0 < pair_size L" "a \<noteq> []" "off L (length a) \<le> PAGE_SIZE" "off L (length c) \<le> PAGE_SIZE"
    "\<not> off L (length a + length c) \<le> PAGE_SIZE"
  obtains l r where "blk_average L a c = Some (l, r)" "l @ r = a @ c" "l \<noteq> []" "r \<noteq> []"
    "off L (length l) \<le> PAGE_SIZE" "off L (length r) \<le> PAGE_SIZE"
proof -
  obtain n where n: "blk_average L a c = Some (take n (a @ c), drop n (a @ c))" "n \<le> length a + length c"
    "n = (length a + length c) div 2 \<or> n = (length a + length c + 1) div 2"
    by (rule blk_average_ok [OF assms(1,3,4)])
  have c: "0 < length c" "0 < length a"
    using assms(2,3,5) by (cases c; simp)+
  have "0 < n" "n < length a + length c" "n \<le> max (length a) (length c)" "length a + length c - n \<le> max (length a) (length c)"
    using n(3) c by (elim disjE; simp; linarith)+
  moreover have "off L m \<le> PAGE_SIZE" if "m \<le> max (length a) (length c)" for m
    using off_mono [OF that, of L] assms(3,4) by (simp add: max_def split: if_splits)
  ultimately show ?thesis
    using n(1,2) c by (intro that [of "take n (a @ c)" "drop n (a @ c)"]) (simp_all del: take_append drop_append)
qed

lemma merge_or_not:
  assumes "begin_pos L \<le> PAGE_SIZE"
  shows "merge_keep_average L a c > 0 \<longleftrightarrow> off L (length a + length c) \<le> PAGE_SIZE"
  by (rule merge_fits [OF assms])

text \<open>
  What an erasure leaves of a tree and its left neighbour, if it has one: the block is still there, with a new
  first key perhaps, or it is gone; the neighbour keeps its first key.
\<close>

definition erased_from ::
  "sizes \<Rightarrow> nat \<Rightarrow> ('k :: linorder, 'v) store \<Rightarrow> nat set \<Rightarrow> nat list \<Rightarrow> ('k, 'v) tree list \<Rightarrow> ('k, 'v) tree \<Rightarrow> nat list \<Rightarrow>
    ('k, 'v) pairs \<Rightarrow> (bool \<times> ('k \<times> nat) option \<times> ('k, 'v) store) option \<Rightarrow> bool" where
  "erased_from z d s D L B t R ps res \<longleftrightarrow> (\<exists>r M s' D'. res = Some (True, r, s') \<and> forest z d s' D' L M R \<and>
     turns s D (B @ [t]) s' D' M \<and> all_pairs M = ps \<and> st_total s' = st_total s \<and>
     (case r of None \<Rightarrow> map entry M = map entry B
      | Some e \<Rightarrow> snd e = root t \<and> map entry M = map entry B @ [e]))"

lemma data_block_erase_miss:
  assumes "sizes_ok z" "forest z 0 s D L [Leaf i b] R" "sorted_keys b" "key \<notin> fst ` set b"
  shows "data_block_erase z key before i s = Some (False, Some (first_key (Leaf i b), i), s)"
proof -
  have P: "0 < pair_size (DL z)" and b: "b \<noteq> []"
    using assms(1,2) by (simp_all add: forest_def)
  let ?c = "below_count b key"
  have "fst (b ! ?c) \<noteq> key" if "?c < length b"
    using below_count_key [OF assms(3), of key] assms(4) that by blast
  then have "(if off (DL z) ?c = end_off (DL z) b then Some True
      else do { k \<leftarrow> key_at (DL z) b (off (DL z) ?c); Some (k \<noteq> key) }) = Some True"
    using below_count_le [of b key] P by (auto simp: off_eqs key_at_off)
  then show ?thesis
    using forest_leaf_block(1) [OF assms(2)] lower_bound_ok [OF P assms(3), of key] data_first_ok [of s i _ _ b z, OF _ P b]
    by (simp add: data_block_erase_def first_key_def)
qed

lemma data_block_erase_hit:
  assumes "0 < pair_size (DL z)" "data_block s i = Some (p, n, b)" "sorted_keys b" "key \<in> fst ` set b"
    and "s1 = set_block s i (Data p n (without b key))"
  shows "\<exists>enough. (enough \<longrightarrow> without b key \<noteq> []) \<and> data_block_erase z key before i s =
    (if enough \<or> before = None
     then (if without b key = [] then do { s \<leftarrow> erase_block s1 i; Some (True, None, s) }
           else Some (True, Some (fst (hd (without b key)), i), s1))
     else do {
       (q, m, lb) \<leftarrow> data_block s1 (the before);
       let choice = merge_keep_average (DL z) lb (without b key);
       if choice > 0 then do {
         s \<leftarrow> data_merge z (the before) i s1;
         s \<leftarrow> erase_block s i;
         Some (True, None, s)
       } else do {
         s \<leftarrow> (if choice < 0 then data_average z (the before) i s1 else Some s1);
         k \<leftarrow> data_first z i s;
         Some (True, Some (k, i), s)
       }
     })"
proof -
  let ?c = "below_count b key" and ?b = "without b key"
  let ?e = "byte_size (DL z) b - pair_size (DL z) > (PAGE_SIZE - begin_pos (DL z)) div 2"
  have c: "?c < length b" "fst (b ! ?c) = key"
    using below_count_key [OF assms(3), of key] assms(4) by blast+
  have "blk_erase (DL z) b (off (DL z) ?c) = Some (?e, ?b)"
    using blk_erase_ok [OF assms(1) c(1)] erase_search(2) [OF assms(3,4)] by simp
  then have e: "data_erase z i (off (DL z) ?c) s = Some (?e, s1)"
    using assms(2,5) by (simp add: data_erase_def)
  have "length ?b + 1 = length b"
    using c(1) by (simp add: erase_search(2) [OF assms(3,4), symmetric] min_absorb2)
  then have "byte_size (DL z) b - pair_size (DL z) = length ?b * pair_size (DL z)"
    by (simp add: byte_size_eq flip: \<open>length ?b + 1 = length b\<close>)
  then have "?e \<longrightarrow> ?b \<noteq> []"
    by auto
  moreover have "begin_off (DL z) = end_off (DL z) ?b \<longleftrightarrow> ?b = []"
    using assms(1) by (simp add: off_eqs)
  moreover have "data_block s1 i = Some (p, n, ?b)"
    using assms(5) by simp
  moreover have "?b \<noteq> [] \<Longrightarrow> data_first z i s1 = Some (fst (hd ?b))"
    using data_first_ok [of s1 i p n ?b z] assms(1,5) by simp
  ultimately show ?thesis
    using assms(1,2) c e lower_bound_ok [OF assms(1,3), of key]
    by (intro exI [of _ ?e] conjI) (auto simp: data_block_erase_def off_eqs key_at_off Let_def)
qed


lemma set_block_again: "set_block (set_block s i a) i b = set_block s i b"
  "set_block (set_block (set_block s i a) j c) i b = set_block (set_block s j c) i b"
  by (simp_all add: set_block_def fun_upd_twist)

lemma set_block_same:
  assumes "data_block s j = Some (q, m, c)"
  shows "set_block s j (Data q m c) = s"
proof -
  have "st_blocks s j = Some (Data q m c)"
    using assms by (auto simp: data_block_def split: option.splits tree_block.splits)
  then have "(st_blocks s)(j \<mapsto> Data q m c) = st_blocks s"
    by (simp add: fun_upd_idem)
  then show ?thesis
    by (simp add: set_block_def)
qed

text \<open>Two leaves side by side may share their pairs anew.\<close>

lemma two_leaves:
  assumes f: "forest z 0 s D L [Leaf j c, Leaf i b] R" and d: "data_block s j = Some (q, m, c)" "data_block s i = Some (p, n, b)"
    and s': "s' = set_block (set_block s j (Data q m l)) i (Data p n r)"
  shows "i \<noteq> j" "good s' D (L @ j # i # R)" "content s' j = Some (Data 0 0 l)" "content s' i = Some (Data 0 0 r)"
    "\<forall>k. k \<notin> {i, j} \<longrightarrow> content s' k = content s k" "h_begin s' = h_begin s" "st_total s' = st_total s"
proof -
  have g: "good s D (L @ j # i # R)" "j \<in> D" "i \<in> D" and ij: "i \<noteq> j"
    using f by (auto simp: forest_def)
  have "good (set_block s j (Data q m l)) D (L @ j # i # R)"
    using d by (intro good_data g) (simp add: data_block_links)
  then show "good s' D (L @ j # i # R)"
    unfolding s' using d ij by (intro good_data g) (auto simp: data_block_links)
  show "i \<noteq> j" "content s' j = Some (Data 0 0 l)" "content s' i = Some (Data 0 0 r)"
    "\<forall>k. k \<notin> {i, j} \<longrightarrow> content s' k = content s k" "h_begin s' = h_begin s" "st_total s' = st_total s"
    using ij by (simp_all add: s')
qed

lemma two_leaves_forest:
  assumes f: "forest z 0 s D L [Leaf j c, Leaf i b] R" and d: "data_block s j = Some (q, m, c)" "data_block s i = Some (p, n, b)"
    and s': "s' = set_block (set_block s j (Data q m l)) i (Data p n r)"
    and lr: "l \<noteq> []" "r \<noteq> []" "off (DL z) (length l) \<le> PAGE_SIZE" "off (DL z) (length r) \<le> PAGE_SIZE"
  shows "forest z 0 s' D L [Leaf j l, Leaf i r] R" "turns s D [Leaf j c, Leaf i b] s' D [Leaf j l, Leaf i r]"
proof -
  note two = two_leaves [OF f d s']
  show "forest z 0 s' D L [Leaf j l, Leaf i r] R"
    using f two(1-4) lr by (simp add: forest_def)
  show "turns s D [Leaf j c, Leaf i b] s' D [Leaf j l, Leaf i r]"
    using two(5,6) by (simp add: turns_def)
qed

lemma data_block_erase_alone:
  assumes z: "sizes_ok z" and f: "forest z 0 s D L [Leaf i b] R" and b: "sorted_keys b" "key \<in> fst ` set b"
  shows "erased_from z 0 s D L [] (Leaf i b) R (without b key) (data_block_erase z key None i s)"
proof -
  note di = forest_leaf_block(1) [OF f]
  let ?b = "without b key"
  let ?s = "set_block s i (Data (last (0 # L)) (hd (R @ [0])) ?b)"
  have P: "0 < pair_size (DL z)"
    using z by simp
  have run: "data_block_erase z key None i s = (if ?b = [] then do { s \<leftarrow> erase_block ?s i; Some (True, None, s) }
      else Some (True, Some (fst (hd ?b), i), ?s))"
    using data_block_erase_hit [OF P di b refl, of None] by auto
  have len: "length ?b \<le> length b"
    by (simp add: without_def)
  show ?thesis
  proof (cases "?b = []")
    case True
    have "links s i = Some (last (0 # L), hd (R @ [0]))"
      using di by (simp add: data_block_links)
    then have "forest z 0 ?s D L [] (i # R)"
      using f good_data [of s D "L @ i # R" i] by (simp add: forest_def del: last.simps)
    then obtain s' where s': "erase_block ?s i = Some s'" "forest z 0 s' (D - {i}) L [] R" "\<forall>j \<in> D - {i}. content s' j = content ?s j"
      "h_begin s' = h_begin ?s" "st_total s' = st_total ?s"
      by (rule forest_erase_data)
    then show ?thesis
      unfolding erased_from_def run using True
      by (intro exI [of _ None] exI [of _ "[]"] exI [of _ s'] exI [of _ "D - {i}"]) (simp add: turns_def)
  next
    case False
    have "off (DL z) (length ?b) \<le> PAGE_SIZE"
      using off_mono [OF len, of "DL z"] f by (simp add: forest_def del: off_simps)
    then show ?thesis
      unfolding erased_from_def run using False forest_leaf_update [OF f False _ di]
      by (intro exI [of _ "Some (fst (hd ?b), i)"] exI [of _ "[Leaf i ?b]"] exI [of _ ?s] exI [of _ D]) (simp add: entry_def first_key_def)
  qed
qed

lemma data_block_erase_beside:
  assumes z: "sizes_ok z" and f: "forest z 0 s D L [Leaf j c, Leaf i b] R" and b: "sorted_keys b" "key \<in> fst ` set b"
    and c: "key \<notin> fst ` set c"
  shows "erased_from z 0 s D L [Leaf j c] (Leaf i b) R (c @ without b key) (data_block_erase z key (Some j) i s)"
proof -
  let ?b = "without b key"
  have fi: "forest z 0 s D (L @ [j]) [Leaf i b] R" and fj: "forest z 0 s D L [Leaf j c] (i # R)"
    using forest_part [of z 0 s D L "[Leaf j c]" "[Leaf i b]" "[]" R] forest_part [of z 0 s D L "[]" "[Leaf j c]" "[Leaf i b]" R] f by simp_all
  obtain p n where di: "data_block s i = Some (p, n, b)"
    using forest_leaf_block(1) [OF fi] by blast
  obtain q m where dj: "data_block s j = Some (q, m, c)"
    using forest_leaf_block(1) [OF fj] by blast
  have P: "0 < pair_size (DL z)"
    using z by simp
  have page: "begin_pos (DL z) \<le> PAGE_SIZE"
    by (simp add: data_layout_def PAGE_SIZE_def)
  have len: "length ?b \<le> length b"
    by (simp add: without_def)
  have fits: "off (DL z) (length ?b) \<le> PAGE_SIZE" "off (DL z) (length c) \<le> PAGE_SIZE" "c \<noteq> []"
    using off_mono [OF len, of "DL z"] f by (simp_all add: forest_def del: off_simps)
  have ij: "i \<noteq> j"
    using f by (auto simp: forest_def)
  let ?s1 = "set_block s i (Data p n ?b)"
  have s1: "?s1 = set_block (set_block s j (Data q m c)) i (Data p n ?b)"
    using set_block_same [OF dj] by simp
  have keep: "erased_from z 0 s D L [Leaf j c] (Leaf i b) R (c @ ?b) (Some (True, Some (fst (hd ?b), i), ?s1))" if "?b \<noteq> []"
    using two_leaves_forest [OF f dj di s1 fits(3) that fits(2,1)] unfolding erased_from_def
    by (intro exI [of _ "Some (fst (hd ?b), i)"] exI [of _ "[Leaf j c, Leaf i ?b]"] exI [of _ ?s1] exI [of _ D])
      (simp add: entry_def first_key_def)
  obtain enough where e: "enough \<longrightarrow> ?b \<noteq> []" "data_block_erase z key (Some j) i s =
    (if enough \<or> Some j = None
     then (if ?b = [] then do { s \<leftarrow> erase_block ?s1 i; Some (True, None, s) } else Some (True, Some (fst (hd ?b), i), ?s1))
     else do {
       (q, m, lb) \<leftarrow> data_block ?s1 (the (Some j));
       let choice = merge_keep_average (DL z) lb ?b;
       if choice > 0 then do {
         s \<leftarrow> data_merge z (the (Some j)) i ?s1;
         s \<leftarrow> erase_block s i;
         Some (True, None, s)
       } else do {
         s \<leftarrow> (if choice < 0 then data_average z (the (Some j)) i ?s1 else Some ?s1);
         k \<leftarrow> data_first z i s;
         Some (True, Some (k, i), s)
       }
     })"
    using data_block_erase_hit [OF P di b refl, of "Some j"] by blast
  have dj1: "data_block ?s1 j = Some (q, m, c)"
    using dj ij by simp
  have run: "data_block_erase z key (Some j) i s =
    (if enough then Some (True, Some (fst (hd ?b), i), ?s1)
     else if merge_keep_average (DL z) c ?b > 0 then do {
         s \<leftarrow> data_merge z j i ?s1;
         s \<leftarrow> erase_block s i;
         Some (True, None, s)
     } else do {
         s \<leftarrow> (if merge_keep_average (DL z) c ?b < 0 then data_average z j i ?s1 else Some ?s1);
         k \<leftarrow> data_first z i s;
         Some (True, Some (k, i), s)
     })"
    unfolding e(2) dj1 option.sel Let_def using e(1) by (cases enough) simp_all
  show ?thesis
  proof (cases "enough")
    case True
    then show ?thesis
      using run keep e(1) by simp
  next
    case less: False
    show ?thesis
    proof (cases "merge_keep_average (DL z) c ?b > 0")
      case True
      let ?s2 = "set_block (set_block s j (Data q m (c @ ?b))) i (Data p n [])"
      have "off (DL z) (length c + length ?b) \<le> PAGE_SIZE"
        using True merge_fits [OF page] by blast
      then have merge: "data_merge z j i ?s1 = Some ?s2" "off (DL z) (length (c @ ?b)) \<le> PAGE_SIZE"
        using dj ij blk_merge_ok [of "DL z" c ?b] by (simp_all add: data_merge_def set_block_again)
      note two = two_leaves [OF f dj di refl [of ?s2]]
      have "forest z 0 ?s2 D L [Leaf j (c @ ?b)] (i # R)"
        using fj two(1-3) merge(2) fits(3) by (simp add: forest_def)
      then obtain s' where s': "erase_block ?s2 i = Some s'" "forest z 0 s' (D - {i}) L [Leaf j (c @ ?b)] R"
        "\<forall>k \<in> D - {i}. content s' k = content ?s2 k" "h_begin s' = h_begin ?s2" "st_total s' = st_total ?s2"
        by (rule forest_erase_data)
      have "turns s D [Leaf j c, Leaf i b] s' (D - {i}) [Leaf j (c @ ?b)]"
        using s'(3,4) two(5,6) by (auto simp: turns_def)
      then show ?thesis
        unfolding erased_from_def using run less True merge(1) s' two(7) fits(3)
        by (intro exI [of _ None] exI [of _ "[Leaf j (c @ ?b)]"] exI [of _ s'] exI [of _ "D - {i}"])
          (simp add: entry_def first_key_def)
    next
      case False
      then have big: "\<not> off (DL z) (length c + length ?b) \<le> PAGE_SIZE"
        using merge_fits [OF page] by blast
      have ne: "?b \<noteq> []"
        using big fits(2) by auto
      show ?thesis
      proof (cases "merge_keep_average (DL z) c ?b < 0")
        case True
        obtain l r where lr: "blk_average (DL z) c ?b = Some (l, r)" "l @ r = c @ ?b" "l \<noteq> []" "r \<noteq> []"
          "off (DL z) (length l) \<le> PAGE_SIZE" "off (DL z) (length r) \<le> PAGE_SIZE"
          by (rule average_parts [OF P fits(3,2,1) big])
        let ?s2 = "set_block (set_block s j (Data q m l)) i (Data p n r)"
        have "data_average z j i ?s1 = Some ?s2"
          using dj ij lr(1) by (simp add: data_average_def set_block_again)
        moreover have "data_first z i ?s2 = Some (fst (hd r))"
          using data_first_ok [of ?s2 i p n r z] P lr(4) by simp
        moreover have "fst (hd l) = fst (hd c)"
          using lr(2,3) fits(3) by (metis hd_append2)
        ultimately show ?thesis
          unfolding erased_from_def using run less False True lr two_leaves_forest [OF f dj di refl [of ?s2] lr(3-6)]
          by (intro exI [of _ "Some (fst (hd r), i)"] exI [of _ "[Leaf j l, Leaf i r]"] exI [of _ ?s2] exI [of _ D])
            (simp add: entry_def first_key_def)
      next
        case zero: False
        have "data_first z i ?s1 = Some (fst (hd ?b))"
          using data_first_ok [of ?s1 i p n ?b z] P ne by simp
        then show ?thesis
          using run less False zero keep ne by simp
      qed
    qed
  qed
qed


section \<open>Erasure below a branch\<close>

lemma index_not_data: "index_block s i = Some b \<Longrightarrow> \<not> is_data_block s i"
  by (auto simp: index_block_def is_data_block_def split: option.splits tree_block.splits)

lemma set_index_same:
  assumes "index_block s j = Some b"
  shows "set_block s j (Index b) = s"
proof -
  have "(st_blocks s)(j \<mapsto> Index b) = st_blocks s"
    using assms by (simp add: index_block_content content_Index fun_upd_idem)
  then show ?thesis
    by (simp add: set_block_def)
qed

lemma set_block_total [simp]: "st_total (set_block s i b) = st_total s" "h_begin (set_block s i b) = h_begin s"
  by simp_all

text \<open>A branch, and two branches side by side, written anew over the same row of children.\<close>

lemma one_branch:
  assumes f: "forest z d s D L ts R" and i: "i \<in> D" "i \<notin> set (all_blocks ts)" "i \<notin> set (L @ R)"
    and ts: "ts \<noteq> []" "off (IL z) (length ts) \<le> PAGE_SIZE"
  shows "forest z (Suc d) (set_block s i (Index (map entry ts))) D L [Branch i ts] R"
    "turns s D [Branch i ts] (set_block s i (Index (map entry ts))) D [Branch i ts]"
proof -
  have "forest z d (set_block s i (Index (map entry ts))) D L ts R"
    by (rule forest_set_block [OF f i])
  then show "forest z (Suc d) (set_block s i (Index (map entry ts))) D L [Branch i ts] R"
    using i ts by (subst forest_branch [of "\<lambda>z n. off (IL z) n \<le> PAGE_SIZE"]) auto
  show "turns s D [Branch i ts] (set_block s i (Index (map entry ts))) D [Branch i ts]"
    by (auto simp: turns_def)
qed

lemma two_branches:
  assumes f: "forest z d s D L (us @ ts) R" and i: "i \<in> D" "i \<notin> set (all_blocks (us @ ts))" "i \<notin> set (L @ R)"
    and j: "j \<in> D" "j \<notin> set (all_blocks (us @ ts))" "j \<notin> set (L @ R)" "i \<noteq> j"
    and s': "s' = set_block (set_block s j (Index (map entry ls))) i (Index (map entry rs))"
    and lr: "ls @ rs = us @ ts" "ls \<noteq> []" "rs \<noteq> []" "off (IL z) (length ls) \<le> PAGE_SIZE" "off (IL z) (length rs) \<le> PAGE_SIZE"
  shows "forest z (Suc d) s' D L [Branch j ls, Branch i rs] R" "turns s D [Branch j us, Branch i ts] s' D [Branch j ls, Branch i rs]"
proof -
  have B: "set (all_blocks (ls @ rs)) = set (all_blocks (us @ ts))"
    by (simp only: lr(1))
  have "forest z d (set_block s j (Index (map entry ls))) D L (us @ ts) R"
    by (rule forest_set_block [OF f j(1-3)])
  then have "forest z d s' D L (us @ ts) R"
    unfolding s' by (rule forest_set_block [OF _ i])
  then have "forest z d s' D L (ls @ rs) R"
    by (simp only: lr(1))
  then show "forest z (Suc d) s' D L [Branch j ls, Branch i rs] R"
    using i j lr B by (subst forest_branches) (auto simp: s')
  show "turns s D [Branch j us, Branch i ts] s' D [Branch j ls, Branch i rs]"
    using B by (auto simp: turns_def s')
qed

lemma index_erase_ok:
  assumes "index_block s i = Some (map entry (A @ m # C))" "map entry ts = map entry A @ map entry C"
  shows "\<exists>enough. (enough \<longrightarrow> ts \<noteq> []) \<and>
    index_erase z i (off (IL z) (length A)) s = Some (enough, set_block s i (Index (map entry ts)))"
proof -
  have "length ts = length A + length C"
    using arg_cong [OF assms(2), of length] by simp
  then have "byte_size (IL z) (map entry (A @ m # C)) - pair_size (IL z) > (PAGE_SIZE - begin_pos (IL z)) div 2 \<longrightarrow> ts \<noteq> []"
    by (auto simp: byte_size_eq)
  then show ?thesis
    using blk_erase_ok [of "IL z" "length A" "map entry (A @ m # C)"] assms by (simp add: index_erase_def)
qed

lemma index_update_all:
  assumes "index_block s i = Some (map entry (A @ m # C))" "map entry ts = map entry A @ (k, root m) # map entry C"
  shows "\<exists>k0. key_at (IL z) (map entry (A @ m # C)) (off (IL z) (length A)) = Some k0 \<and>
    (if k0 \<noteq> k then index_update z i (off (IL z) (length A)) k s else Some s) = Some (set_block s i (Index (map entry ts)))"
proof -
  have "key_at (IL z) (map entry (A @ m # C)) (off (IL z) (length A)) = Some (first_key m)"
    by (simp add: key_at_off nth_append)
  moreover have "index_update z i (off (IL z) (length A)) k s = Some (set_block s i (Index (map entry ts)))"
    using assms blk_update_ok(1) [of "IL z" "length A" "map entry (A @ m # C)" k]
    by (simp add: index_update_def list_update_append nth_append)
  moreover have "set_block s i (Index (map entry ts)) = s" if "first_key m = k"
    using assms set_index_same [OF assms(1)] that by (simp add: entry_def)
  ultimately show ?thesis
    by simp
qed


lemma entry_Branch: "ts \<noteq> [] \<Longrightarrow> \<forall>t \<in> set ts. pairs_of t \<noteq> [] \<Longrightarrow> entry (Branch i ts) = (first_key (hd ts), i)"
  by (simp add: entry_def first_key_Branch)

lemma index_kept_alone:
  assumes f: "forest z d s D L ts R" and i: "i \<in> D" "i \<notin> set (all_blocks ts)" "i \<notin> set (L @ R)"
    and ts: "ts \<noteq> []" "off (IL z) (length ts) \<le> PAGE_SIZE"
  shows "erased_from z (Suc d) s D L [] (Branch i ts) R (all_pairs ts)
    (do { k \<leftarrow> index_first z i (set_block s i (Index (map entry ts))); Some (True, Some (k, i), set_block s i (Index (map entry ts))) })"
  using one_branch [OF f i ts] index_first_ok [of "set_block s i (Index (map entry ts))" i ts z] ts(1)
    entry_Branch [OF ts(1) forest_pairs [OF f]]
  unfolding erased_from_def
  by (intro exI [of _ "Some (first_key (hd ts), i)"] exI [of _ "[Branch i ts]"]
      exI [of _ "set_block s i (Index (map entry ts))"] exI [of _ D]) simp

lemma entries_length:
  "map entry ts = map entry A @ e # map entry C \<Longrightarrow> length ts = Suc (length A + length C)"
  "map entry ts = map entry A @ map entry C \<Longrightarrow> length ts = length A + length C"
  by (drule arg_cong [where f = length], simp)+

lemma index_after_erase_alone:
  assumes f: "forest z d s D L ts R" and i: "i \<in> D" "i \<notin> set (all_blocks ts)" "i \<notin> set (L @ R)"
    and b: "index_block s i = Some (map entry (A @ m # C))" "off (IL z) (length (A @ m # C)) \<le> PAGE_SIZE"
    and r: "(\<exists>k. r = Some (k, root m) \<and> map entry ts = map entry A @ (k, root m) # map entry C) \<or>
      (r = None \<and> map entry ts = map entry A @ map entry C)"
  shows "erased_from z (Suc d) s D L [] (Branch i ts) R (all_pairs ts) (index_after_erase z None i (off (IL z) (length A)) r s)"
  using r
proof (elim disjE exE conjE)
  fix k
  assume k: "r = Some (k, root m)" "map entry ts = map entry A @ (k, root m) # map entry C"
  then have "length ts = length (A @ m # C)" "ts \<noteq> []"
    using entries_length(1) [OF k(2)] by auto
  moreover obtain k0 where "key_at (IL z) (map entry (A @ m # C)) (off (IL z) (length A)) = Some k0"
    "(if k0 \<noteq> k then index_update z i (off (IL z) (length A)) k s else Some s) = Some (set_block s i (Index (map entry ts)))"
    using index_update_all [OF b(1) k(2)] by blast
  ultimately show ?thesis
    using index_kept_alone [OF f i] b k(1) by (simp add: index_after_erase_def)
next
  assume n: "r = None" "map entry ts = map entry A @ map entry C"
  let ?s = "set_block s i (Index (map entry ts))"
  have len: "length ts \<le> length (A @ m # C)"
    using entries_length(2) [OF n(2)] by simp
  have fits: "off (IL z) (length ts) \<le> PAGE_SIZE"
    using off_mono [OF len, of "IL z"] b(2) by (simp del: off_simps)
  obtain enough where e: "enough \<longrightarrow> ts \<noteq> []" "index_erase z i (off (IL z) (length A)) s = Some (enough, ?s)"
    using index_erase_ok [OF b(1) n(2)] by blast
  have run: "index_after_erase z None i (off (IL z) (length A)) r s = (if ts = [] then do { s \<leftarrow> erase_block ?s i; Some (True, None, s) }
      else do { k \<leftarrow> index_first z i ?s; Some (True, Some (k, i), ?s) })"
    using b(1) n(1) e(2) by (simp add: index_after_erase_def off_eqs)
  show ?thesis
  proof (cases "ts = []")
    case True
    have "forest z d ?s D L ts R"
      by (rule forest_set_block [OF f i])
    then obtain s' where s': "erase_block ?s i = Some s'" "forest z d s' (D - {i}) L ts R" "\<forall>j \<in> D - {i}. content s' j = content ?s j"
      "h_begin s' = h_begin ?s" "st_total s' = st_total ?s"
      by (rule forest_erase_index) (use i in auto)
    then show ?thesis
      unfolding erased_from_def run using True
      by (intro exI [of _ None] exI [of _ "[]"] exI [of _ s'] exI [of _ "D - {i}"]) (simp add: turns_def forest_def)
  next
    case False
    then show ?thesis
      unfolding run using index_kept_alone [OF f i False fits] by simp
  qed
qed

lemma index_after_erase_beside:
  assumes f: "forest z d s D L (us @ ts) R" and i: "i \<in> D" "i \<notin> set (all_blocks (us @ ts))" "i \<notin> set (L @ R)"
    and j: "j \<in> D" "j \<notin> set (all_blocks (us @ ts))" "j \<notin> set (L @ R)" "i \<noteq> j"
    and us: "index_block s j = Some (map entry us)" "us \<noteq> []" "off (IL z) (length us) \<le> PAGE_SIZE"
    and b: "index_block s i = Some (map entry (A @ m # C))" "off (IL z) (length (A @ m # C)) \<le> PAGE_SIZE"
    and r: "(\<exists>k. r = Some (k, root m) \<and> map entry ts = map entry A @ (k, root m) # map entry C) \<or>
      (r = None \<and> map entry ts = map entry A @ map entry C)"
  shows "erased_from z (Suc d) s D L [Branch j us] (Branch i ts) R (all_pairs (us @ ts))
    (index_after_erase z (Some j) i (off (IL z) (length A)) r s)"
proof -
  have page: "begin_pos (IL z) \<le> PAGE_SIZE"
    by (simp add: index_layout_def PAGE_SIZE_def)
  have ne: "\<forall>t \<in> set (us @ ts). pairs_of t \<noteq> []"
    by (rule forest_pairs [OF f])
  let ?s = "set_block s i (Index (map entry ts))"
  have s1: "?s = set_block (set_block s j (Index (map entry us))) i (Index (map entry ts))"
    using set_index_same [OF us(1)] by simp
  have len: "length ts \<le> length (A @ m # C)"
    using r by (auto dest: entries_length)
  have fits: "off (IL z) (length ts) \<le> PAGE_SIZE"
    using off_mono [OF len, of "IL z"] b(2) by (simp del: off_simps)
  have row: "erased_from z (Suc d) s D L [Branch j us] (Branch i ts) R (all_pairs (us @ ts))
      (do { k \<leftarrow> index_first z i s'; Some (True, Some (k, i), s') })"
    if s': "s' = set_block (set_block s j (Index (map entry ls))) i (Index (map entry rs))"
      and lr: "ls @ rs = us @ ts" "ls \<noteq> []" "rs \<noteq> []" "off (IL z) (length ls) \<le> PAGE_SIZE" "off (IL z) (length rs) \<le> PAGE_SIZE"
    for s' ls rs
  proof -
    have p: "\<forall>t \<in> set ls. pairs_of t \<noteq> []" "\<forall>t \<in> set rs. pairs_of t \<noteq> []"
      using ne lr(1) by (metis Un_iff set_append)+
    have "first_key (hd ls) = first_key (hd us)"
      using lr(1,2) us(2) by (metis hd_append2)
    then have "entry (Branch j ls) = entry (Branch j us)" "entry (Branch i rs) = (first_key (hd rs), i)"
      using entry_Branch [OF lr(2) p(1), of j] entry_Branch [OF lr(3) p(2), of i] entry_Branch [OF us(2), of j] ne by simp_all
    moreover have "index_first z i s' = Some (first_key (hd rs))"
      using s' lr(3) by (intro index_first_ok) simp_all
    moreover have "all_pairs [Branch j ls, Branch i rs] = all_pairs (us @ ts)"
      using arg_cong [OF lr(1), of all_pairs] by simp
    moreover have "st_total s' = st_total s"
      by (simp add: s')
    ultimately show ?thesis
      using two_branches [OF f i j s' lr] unfolding erased_from_def
      by (intro exI [of _ "Some (first_key (hd rs), i)"] exI [of _ "[Branch j ls, Branch i rs]"] exI [of _ s'] exI [of _ D]) simp
  qed
  show ?thesis
    using r
  proof (elim disjE exE conjE)
    fix k
    assume k: "r = Some (k, root m)" "map entry ts = map entry A @ (k, root m) # map entry C"
    then have "ts \<noteq> []"
      by auto
    moreover obtain k0 where "key_at (IL z) (map entry (A @ m # C)) (off (IL z) (length A)) = Some k0"
      "(if k0 \<noteq> k then index_update z i (off (IL z) (length A)) k s else Some s) = Some ?s"
      using index_update_all [OF b(1) k(2)] by blast
    ultimately show ?thesis
      using row [OF s1 refl us(2) _ us(3) fits] b k(1) by (simp add: index_after_erase_def)
  next
    assume n: "r = None" "map entry ts = map entry A @ map entry C"
    obtain enough where e: "enough \<longrightarrow> ts \<noteq> []" "index_erase z i (off (IL z) (length A)) s = Some (enough, ?s)"
      using index_erase_ok [OF b(1) n(2)] by blast
    have j1: "index_block ?s j = Some (map entry us)" "index_block ?s i = Some (map entry ts)"
      using us(1) j(4) by simp_all
    let ?m = "merge_keep_average (IL z) (map entry us) (map entry ts)"
    have run: "index_after_erase z (Some j) i (off (IL z) (length A)) r s =
      (if enough then do { k \<leftarrow> index_first z i ?s; Some (True, Some (k, i), ?s) }
       else if ?m > 0 then do { s \<leftarrow> index_merge z j i ?s; s \<leftarrow> erase_block s i; Some (True, None, s) }
       else do {
         s \<leftarrow> (if ?m < 0 then index_average z j i ?s else Some ?s);
         k \<leftarrow> index_first z i s;
         Some (True, Some (k, i), s)
       })"
      unfolding index_after_erase_def n(1) b(1) using e j1 by (cases enough) (simp_all add: off_eqs Let_def)
    show ?thesis
    proof (cases enough)
      case True
      then show ?thesis
        unfolding run using row [OF s1 refl us(2) _ us(3) fits] e(1) by simp
    next
      case less: False
      show ?thesis
      proof (cases "?m > 0")
        case True
        let ?s2 = "set_block (set_block s j (Index (map entry (us @ ts)))) i (Index [])"
        have big: "off (IL z) (length (us @ ts)) \<le> PAGE_SIZE"
          using True merge_fits [OF page, of "map entry us" "map entry ts"] by simp
        then have merge: "index_merge z j i ?s = Some ?s2"
          using j1 j(4) blk_merge_ok [of "IL z" "map entry us" "map entry ts"] by (simp add: index_merge_def set_block_again)
        have "forest z d (set_block s j (Index (map entry (us @ ts)))) D L (us @ ts) R"
          by (rule forest_set_block [OF f j(1-3)])
        then have "forest z d ?s2 D L (us @ ts) R"
          by (rule forest_set_block [OF _ i])
        then have "forest z (Suc d) ?s2 D L [Branch j (us @ ts)] R"
          using j us(2) big by (subst forest_branch [of "\<lambda>z n. off (IL z) n \<le> PAGE_SIZE"]) auto
        then obtain s' where s': "erase_block ?s2 i = Some s'" "forest z (Suc d) s' (D - {i}) L [Branch j (us @ ts)] R"
          "\<forall>k \<in> D - {i}. content s' k = content ?s2 k" "h_begin s' = h_begin ?s2" "st_total s' = st_total ?s2"
          by (rule forest_erase_index) (use i j in auto)
        have "turns s D [Branch j us, Branch i ts] s' (D - {i}) [Branch j (us @ ts)]"
          using s'(3,4) by (auto simp: turns_def)
        moreover have "entry (Branch j (us @ ts)) = entry (Branch j us)"
          using entry_Branch [of "us @ ts" j] entry_Branch [OF us(2), of j] us(2) ne by simp
        ultimately show ?thesis
          unfolding erased_from_def run using less True merge s'
          by (intro exI [of _ None] exI [of _ "[Branch j (us @ ts)]"] exI [of _ s'] exI [of _ "D - {i}"]) simp
      next
        case False
        then have big: "\<not> off (IL z) (length us + length ts) \<le> PAGE_SIZE"
          using merge_fits [OF page, of "map entry us" "map entry ts"] by simp
        have ts: "ts \<noteq> []"
          using big us(3) by auto
        show ?thesis
        proof (cases "?m < 0")
          case True
          obtain l r where lr: "blk_average (IL z) (map entry us) (map entry ts) = Some (l, r)" "l @ r = map entry us @ map entry ts"
            "l \<noteq> []" "r \<noteq> []" "off (IL z) (length l) \<le> PAGE_SIZE" "off (IL z) (length r) \<le> PAGE_SIZE"
            using average_parts [of "IL z" "map entry us" "map entry ts"] us(2,3) fits big by auto
          then have "map entry (us @ ts) = l @ r"
            by simp
          then obtain ls rs where lrs: "us @ ts = ls @ rs" "l = map entry ls" "r = map entry rs"
            by (metis map_eq_append_conv)
          have "index_average z j i ?s = Some (set_block (set_block s j (Index l)) i (Index r))"
            using j1 j(4) lr(1) by (simp add: index_average_def set_block_again)
          then show ?thesis
            unfolding run using less False True row [OF refl, of ls rs] lr(3-6) lrs by simp
        next
          case zero: False
          then show ?thesis
            unfolding run using less False row [OF s1 refl us(2) ts us(3) fits] by simp
        qed
      qed
    qed
  qed
qed


text \<open>The step of an erasure from a branch to the child the key belongs to.\<close>

lemma erase_step:
  assumes b: "index_block s i = Some (map entry ts)" "sorted_keys (map entry ts)"
    and ts: "ts = A @ m # C" "child_pos ts key = length A"
  shows "erase_impl z key before i s = (if key < first_key (hd ts) then Some (False, Some (first_key (hd ts), i), s) else do {
      (ok, r, s) \<leftarrow> erase_impl z key (if A = [] then None else Some (root (last A))) (root m) s;
      if \<not> ok then do { k \<leftarrow> index_first z i s; Some (False, Some (k, i), s) }
      else index_after_erase z before i (off (IL z) (length A)) r s
    })"
proof -
  let ?b = "map entry ts" and ?c = "below_count (map entry ts) key"
  have P: "0 < pair_size (IL z)" and ne: "ts \<noteq> []"
    using ts(1) by simp_all
  have first: "index_first z i s = Some (first_key (hd ts))"
    by (rule index_first_ok [OF b(1) ne])
  have c: "?c \<le> length ts" "?c < length ts \<Longrightarrow> key \<le> first_key (ts ! ?c)"
    using below_count_le [of ?b key] below_count_at [of ?b key] by simp_all
  have above: "(if off (IL z) ?c = begin_off (IL z) then do { k \<leftarrow> key_at (IL z) ?b (off (IL z) ?c); Some (key < k) } else Some False) =
      Some (key < first_key (hd ts))"
  proof (cases "?c = 0")
    case True
    then show ?thesis
      using ne by (simp add: off_eqs key_at_off hd_conv_nth)
  next
    case False
    then have "first_key (hd ts) < key"
      using below_count_less [of 0 ?b key] ne by (simp add: hd_conv_nth)
    then show ?thesis
      using False by (simp add: off_eqs)
  qed
  have pos: "do { past \<leftarrow> is_past (IL z) ?b (off (IL z) ?c) key; if past then prev_off (IL z) (off (IL z) ?c) else Some (off (IL z) ?c) } =
      Some (off (IL z) (length A))" if "\<not> key < first_key (hd ts)"
  proof -
    have zero: "?c = 0 \<Longrightarrow> first_key (ts ! 0) = key"
      using that c(2) ne by (auto simp: hd_conv_nth)
    have prev: "prev_off (IL z) (off (IL z) ?c) = Some (off (IL z) (?c - 1))" if "0 < ?c"
      using that by (cases ?c) simp_all
    show ?thesis
    proof (cases "?c < length ts \<and> first_key (ts ! ?c) = key")
      case True
      then have "length A = ?c"
        using ts(2) by (simp add: child_pos_def Let_def)
      then show ?thesis
        using True by (simp add: is_past_def off_eqs key_at_off)
    next
      case False
      then have pos: "0 < ?c"
        using zero ne by (cases ?c) auto
      then have "length A = ?c - 1"
        using ts(2) False by (auto simp: child_pos_def Let_def split: if_splits)
      moreover have "is_past (IL z) ?b (off (IL z) ?c) key = Some True"
        using False c by (auto simp: is_past_def off_eqs key_at_off)
      ultimately show ?thesis
        using prev [OF pos] by simp
    qed
  qed
  have before: "(if off (IL z) (length A) \<noteq> begin_off (IL z)
      then do { at \<leftarrow> prev_off (IL z) (off (IL z) (length A)); j \<leftarrow> entry_at (IL z) ?b at; Some (Some j) } else Some None) =
      Some (if A = [] then None else Some (root (last A)))"
    by (cases A rule: rev_cases) (simp_all add: off_eqs key_at_off ts(1) nth_append)
  have child: "entry_at (IL z) ?b (off (IL z) (length A)) = Some (root m)"
    by (simp add: ts(1) key_at_off nth_append)
  obtain past where past: "is_past (IL z) ?b (off (IL z) ?c) key = Some past"
    "\<not> key < first_key (hd ts) \<Longrightarrow> (if past then prev_off (IL z) (off (IL z) ?c) else Some (off (IL z) ?c)) = Some (off (IL z) (length A))"
    using pos c(1) by (cases "?c < length ts") (auto simp: is_past_def off_eqs key_at_off)
  show ?thesis
    using b index_not_data [OF b(1)] first above past before child lower_bound_ok [OF P b(2), of key]
    by (subst erase_impl.simps) (cases "key < first_key (hd ts)"; simp)
qed


lemma erased_from_trans:
  assumes "turns s D (B @ [t]) s1 D1 (B @ [t1])" "root t1 = root t" "st_total s1 = st_total s"
    and "erased_from z d s1 D1 L B t1 R ps res" "ps = ps'"
  shows "erased_from z d s D L B t R ps' res"
proof -
  from assms(4) obtain r M s' D' where r: "res = Some (True, r, s')" "forest z d s' D' L M R" "turns s1 D1 (B @ [t1]) s' D' M"
    "all_pairs M = ps" "st_total s' = st_total s1"
    "case r of None \<Rightarrow> map entry M = map entry B | Some e \<Rightarrow> snd e = root t1 \<and> map entry M = map entry B @ [e]"
    unfolding erased_from_def by blast
  moreover have "turns s D (B @ [t]) s' D' M"
    by (rule turns_trans [OF assms(1) r(3)])
  ultimately show ?thesis
    using assms(2,3,5) unfolding erased_from_def by (intro exI [of _ r] exI [of _ M] exI [of _ s'] exI [of _ D']) (auto split: option.splits)
qed

definition left_of :: "('k, 'v) tree list \<Rightarrow> nat option" where
  "left_of B = (if B = [] then None else Some (root (last B)))"

lemma erase_leaf_ok:
  assumes z: "sizes_ok z" and f: "forest z 0 s D L (B @ [t]) R" and B: "length B \<le> 1" and sorted: "sorted_keys (all_pairs (B @ [t]))"
  shows "key \<notin> fst ` set (pairs_of t) \<Longrightarrow> erase_impl z key (left_of B) (root t) s = Some (False, Some (entry t), s)"
    "key \<in> fst ` set (pairs_of t) \<Longrightarrow> erased_from z 0 s D L B t R (all_pairs B @ without (pairs_of t) key) (erase_impl z key (left_of B) (root t) s)"
proof -
  obtain i b where t: "t = Leaf i b"
    using f by (auto simp: forest_def elim: wf_cases)
  have fi: "forest z 0 s D (L @ all_leaves B) [Leaf i b] R"
    using forest_part [of z 0 s D L B "[t]" "[]" R] f t by simp
  have run: "erase_impl z key before i s = data_block_erase z key before i s" for before
    using forest_leaf_block(2) [OF fi] by (subst erase_impl.simps) simp
  have b: "sorted_keys b"
    using sorted t by (simp add: sorted_wrt_append)
  show "erase_impl z key (left_of B) (root t) s = Some (False, Some (entry t), s)" if "key \<notin> fst ` set (pairs_of t)"
    using data_block_erase_miss [OF z fi b, of key] that t run by (simp add: entry_def)
  assume key: "key \<in> fst ` set (pairs_of t)"
  consider "B = []" | c where "B = [c]"
    using B by (cases B) auto
  then show "erased_from z 0 s D L B t R (all_pairs B @ without (pairs_of t) key) (erase_impl z key (left_of B) (root t) s)"
  proof cases
    case 1
    then show ?thesis
      using data_block_erase_alone [OF z _ b, of s D L i R key] f key t run by (simp add: left_of_def)
  next
    case (2 c)
    then obtain j a where c: "c = Leaf j a"
      using f by (auto simp: forest_def elim: wf_cases)
    have "key \<notin> fst ` set a"
      using sorted key t 2 c by (force simp: sorted_wrt_append)
    then show ?thesis
      using data_block_erase_beside [OF z _ b, of s D L j a i R key] f key t 2 c run by (simp add: left_of_def)
  qed
qed

lemma erase_impl_ok:
  assumes z: "sizes_ok z"
  shows "forest z d s D L (B @ [t]) R \<Longrightarrow> length B \<le> 1 \<Longrightarrow> sorted_keys (all_pairs (B @ [t])) \<Longrightarrow>
    (key \<notin> fst ` set (pairs_of t) \<longrightarrow> erase_impl z key (left_of B) (root t) s = Some (False, Some (entry t), s)) \<and>
    (key \<in> fst ` set (pairs_of t) \<longrightarrow>
      erased_from z d s D L B t R (all_pairs B @ without (pairs_of t) key) (erase_impl z key (left_of B) (root t) s))"
proof (induction d arbitrary: s D L B t R)
  case 0
  then show ?case
    using erase_leaf_ok [OF z] by blast
next
  case (Suc d)
  obtain i ts where t: "t = Branch i ts"
    using Suc.prems(1) by (auto simp: forest_def elim: wf_cases)
  obtain us where us: "(B = [] \<and> us = []) \<or> (\<exists>j. B = [Branch j us])"
    using Suc.prems(1,2) by (cases B) (auto simp: forest_def elim: wf_cases)
  have f: "forest z d s D L (us @ ts) R" and i: "i \<in> D" "i \<notin> set (all_blocks (us @ ts))" "i \<notin> set (L @ R)"
    "index_block s i = Some (map entry ts)" "ts \<noteq> []" "off (IL z) (length ts) \<le> PAGE_SIZE"
    using us Suc.prems(1) forest_branch [of "\<lambda>z n. off (IL z) n \<le> PAGE_SIZE" z d s D L i ts R]
      forest_branches [of z d s D L _ us i ts R] by (auto simp: t)
  have j: "j \<in> D" "j \<notin> set (all_blocks (us @ ts))" "j \<notin> set (L @ R)" "i \<noteq> j" "index_block s j = Some (map entry us)" "us \<noteq> []"
    "off (IL z) (length us) \<le> PAGE_SIZE" if "B = [Branch j us]" for j
    using that Suc.prems(1) forest_branches [of z d s D L j us i ts R] by (auto simp: t)
  have B: "all_pairs B = all_pairs us"
    using us by auto
  have sorted: "sorted_keys (all_pairs ts)" "sorted_keys (all_pairs us)" and ne: "\<forall>t \<in> set ts. pairs_of t \<noteq> []"
    using Suc.prems(3) t forest_pairs [OF f] B by (simp_all add: sorted_wrt_append)
  obtain A m C where s: "ts = A @ m # C" "child_pos ts key = length A" "\<forall>e \<in> set (all_pairs A). fst e < key"
    "\<forall>e \<in> set (all_pairs C). key < fst e"
    by (rule child_pos_split [OF sorted(1) ne i(5), of key])
  note step = erase_step [OF i(4) sorted_entries [OF sorted(1) ne] s(1,2)]
  obtain A0 Bc where A: "A = A0 @ Bc" "left_of Bc = (if A = [] then None else Some (root (last A)))" "length Bc \<le> 1"
  proof (cases A rule: rev_cases)
    case Nil
    then show ?thesis
      using that [of "[]" "[]"] by (simp add: left_of_def)
  next
    case (snoc A0 a)
    then show ?thesis
      using that [of A0 "[a]"] by (simp add: left_of_def)
  qed
  have f': "forest z d s D L ((us @ A0) @ (Bc @ [m]) @ C) R"
    using f s(1) A(1) by simp
  have sorted': "sorted_keys (all_pairs (Bc @ [m]))"
    using sorted(1) s(1) A(1) by (simp add: sorted_wrt_append)
  note IH = Suc.IH [OF forest_part [OF f'] A(3) sorted']
  have entry_t: "entry t = (first_key (hd ts), i)"
    using entry_Branch [OF i(5) ne] t by simp
  have first: "index_first z i s = Some (first_key (hd ts))"
    by (rule index_first_ok [OF i(4,5)])
  show ?case
  proof (intro conjI impI)
    assume "key \<notin> fst ` set (pairs_of t)"
    then have "key \<notin> fst ` set (pairs_of m)"
      using t s(1) by (auto simp: set_all)
    then show "erase_impl z key (left_of B) (root t) s = Some (False, Some (entry t), s)"
      using IH A(2) first entry_t by (simp add: t step)
  next
    assume key: "key \<in> fst ` set (pairs_of t)"
    then have km: "key \<in> fst ` set (pairs_of m)"
      using t s(1,3,4) by (auto dest: less_imp_neq)
    have "first_key t \<le> key"
      using first_key_le [of t] sorted(1) key t by auto
    then have above: "\<not> key < first_key (hd ts)"
      using arg_cong [OF entry_t, of fst] by simp
    obtain r M s1 D1 where r: "erase_impl z key (left_of Bc) (root m) s = Some (True, r, s1)"
      "forest z d s1 D1 (L @ all_leaves (us @ A0)) M (all_leaves C @ R)" "turns s D (Bc @ [m]) s1 D1 M"
      "all_pairs M = all_pairs Bc @ without (pairs_of m) key" "st_total s1 = st_total s"
      "case r of None \<Rightarrow> map entry M = map entry Bc | Some e \<Rightarrow> snd e = root m \<and> map entry M = map entry Bc @ [e]"
      using IH km by (auto simp: erased_from_def)
    define vs where "vs = A0 @ M @ C"
    have f1: "forest z d s1 D1 L (us @ vs) R" "turns s D (us @ ts) s1 D1 (us @ vs)"
      using forest_replace [OF f' r(2,3)] s(1) A(1) by (simp_all add: vs_def)
    have run: "erase_impl z key (left_of B) i s = index_after_erase z (left_of B) i (off (IL z) (length A)) r s1"
      using step above r(1) A(2) by simp
    have ents: "(\<exists>k. r = Some (k, root m) \<and> map entry vs = map entry A @ (k, root m) # map entry C) \<or>
      (r = None \<and> map entry vs = map entry A @ map entry C)"
      using r(6) A(1) by (cases r) (auto simp: vs_def)
    have i1: "i \<in> D1" "i \<notin> set (all_blocks (us @ vs))" "index_block s1 i = Some (map entry (A @ m # C))"
      using f1(2) i(1,2,4) s(1) by (auto simp: turns_def index_block_content)
    have len: "off (IL z) (length (A @ m # C)) \<le> PAGE_SIZE"
      using i(6) s(1) by simp
    have "without (all_pairs ts) key = all_pairs A @ without (pairs_of m) key @ all_pairs C"
      using s(1,3,4) without_other [of "all_pairs A" key] without_other [of "all_pairs C" key] by fastforce
    then have pairs: "all_pairs (us @ vs) = all_pairs B @ without (pairs_of t) key"
      using r(4) A(1) B t by (simp add: vs_def)
    have "erased_from z (Suc d) s1 D1 L B (Branch i vs) R (all_pairs (us @ vs)) (erase_impl z key (left_of B) i s)"
      using us
    proof (elim disjE exE conjE)
      assume "B = []" "us = []"
      then show ?thesis
        using index_after_erase_alone [of z d s1 D1 L vs R i A m C r] f1(1) i1 i(3) len ents run by (simp add: left_of_def)
    next
      fix j
      assume j': "B = [Branch j us]"
      note j = j [OF j']
      have j1: "j \<in> D1" "j \<notin> set (all_blocks (us @ vs))" "index_block s1 j = Some (map entry us)"
        using f1(2) j(1,2,5) by (auto simp: turns_def index_block_content)
      show ?thesis
        using index_after_erase_beside [OF f1(1) i1(1,2) i(3) j1(1,2) j(3,4) j1(3) j(6,7) i1(3) len ents] run j' by (simp add: left_of_def)
    qed
    moreover have "turns s D (B @ [Branch i ts]) s1 D1 (B @ [Branch i vs])"
      using f1(2) i(1,2) i1(1,2) us by (auto simp: turns_def)
    ultimately show "erased_from z (Suc d) s D L B t R (all_pairs B @ without (pairs_of t) key) (erase_impl z key (left_of B) (root t) s)"
      using erased_from_trans [of s D B t s1 D1 "Branch i vs"] r(5) pairs t by simp
  qed
qed


section \<open>Erasure at the root\<close>

lemma is_data_begin [simp]: "is_data_block (set_begin_block s i) = is_data_block s"
  by (simp add: is_data_block_def fun_eq_iff)

lemma root_of_branch:
  assumes "forest z (Suc d) s D [] [Branch i ts] []" "D = set (blocks (Branch i ts))"
  shows "(case ts of [c] \<Rightarrow> \<exists>s'. (do {
        b \<leftarrow> index_block s i;
        if next_off (IL z) (begin_off (IL z)) = end_off (IL z) b
        then do { c \<leftarrow> entry_at (IL z) b (begin_off (IL z)); erase_block (set_begin_block s (Some c)) i }
        else Some s
      }) = Some s' \<and> forest z d s' (set (blocks c)) [] [c] [] \<and> h_begin s' = root c \<and> st_total s' = st_total s
    | _ \<Rightarrow> (do {
        b \<leftarrow> index_block s i;
        if next_off (IL z) (begin_off (IL z)) = end_off (IL z) b
        then do { c \<leftarrow> entry_at (IL z) b (begin_off (IL z)); erase_block (set_begin_block s (Some c)) i }
        else Some s
      }) = Some s)"
proof -
  have f: "forest z d s D [] ts []" and i: "i \<in> D" "i \<notin> set (all_blocks ts)" "index_block s i = Some (map entry ts)"
    "\<not> is_data_block s i" "ts \<noteq> []"
    using assms(1) forest_branch [of "\<lambda>z n. off (IL z) n \<le> PAGE_SIZE" z d s D "[]" i ts "[]"] by simp_all
  have one: "next_off (IL z) (begin_off (IL z)) = end_off (IL z) (map entry ts) \<longleftrightarrow> length ts = 1"
    by (auto simp: off_eqs)
  show ?thesis
  proof (cases "length ts = 1")
    case True
    then obtain c where c: "ts = [c]"
      by (cases ts) auto
    have "forest z d (set_begin_block s (Some (root c))) D [] [c] []"
      using forest_begin f c by blast
    then obtain s' where s': "erase_block (set_begin_block s (Some (root c))) i = Some s'" "forest z d s' (D - {i}) [] [c] []"
      "h_begin s' = h_begin (set_begin_block s (Some (root c)))" "st_total s' = st_total (set_begin_block s (Some (root c)))"
      by (rule forest_erase_index) (use i c in auto)
    have "D - {i} = set (blocks c)"
      using assms(2) i(2) c by auto
    moreover have "entry_at (IL z) (map entry ts) (begin_off (IL z)) = Some (root c)"
      by (simp add: c off_eqs key_at_off)
    ultimately show ?thesis
      using i(3) one True s' by (simp add: c)
  next
    case False
    then show ?thesis
      using i(3) one by (auto split: list.split)
  qed
qed

lemma bpt_erase_ok:
  assumes z: "sizes_ok z" and s: "stored z s ps"
  shows "\<exists>s'. bpt_erase z key s = Some (key \<in> fst ` set ps, s') \<and> stored z s' (without ps key) \<and> st_total s' = st_total s"
  using s
proof (cases rule: stored_cases)
  case (1 xs)
  then show ?thesis
    using s by (simp add: bpt_erase_def without_def)
next
  case (2 d D t)
  note t = tree_atD [OF 2(1)]
  have f: "forest z d s D [] [t] []" "D = set (blocks t)" "h_begin s = root t"
    using 2(1) unfolding tree_at_def by blast+
  note er = erase_impl_ok [OF z, of d s D "[]" "[]" t "[]" key]
  show ?thesis
  proof (cases "key \<in> fst ` set (pairs_of t)")
    case False
    then have "erase_impl z key None (root t) s = Some (False, Some (entry t), s)"
      using er f(1) t(3) by (simp add: left_of_def)
    then have "bpt_erase z key s = Some (False, s)"
      using t(4) by (simp add: bpt_erase_def entry_def)
    moreover have "without ps key = ps"
      using False 2(2) by (intro without_other) force
    ultimately show ?thesis
      using False 2(2) s by simp
  next
    case True
    then obtain r M s1 D1 where r: "erase_impl z key None (root t) s = Some (True, r, s1)" "forest z d s1 D1 [] M []"
      "turns s D [t] s1 D1 M" "all_pairs M = without (pairs_of t) key" "st_total s1 = st_total s"
      "case r of None \<Rightarrow> M = [] | Some e \<Rightarrow> snd e = root t \<and> map entry M = [e]"
      using er f(1) t(3) by (auto simp: left_of_def erased_from_def split: option.splits)
    have D1: "D1 = set (all_blocks M)" "h_begin s1 = h_begin s"
      using r(2,3) f(2) by (auto simp: turns_def forest_def)
    have sorted: "sorted_keys (all_pairs M)"
      using t(3) r(4) by (simp add: without_def sorted_wrt_map sorted_wrt_filter)
    show ?thesis
    proof (cases r)
      case None
      then have M: "M = []"
        using r(6) by simp
      let ?s = "set_begin_block s1 None"
      obtain xs where "owns s1 xs D1"
        using forest_good [OF r(2)] by blast
      then have "stored z ?s []"
        using D1(1) M owns_begin by (fastforce simp: stored_def)
      moreover have "bpt_erase z key s = Some (True, ?s)"
        using r(1) t(4) None by (simp add: bpt_erase_def)
      ultimately show ?thesis
        using True 2(2) r(4,5) M by (intro exI [of _ ?s]) simp
    next
      case (Some e)
      then obtain u where u: "M = [u]" "root u = root t" "e = entry u"
        using r(6) by (cases M) auto
      have run: "bpt_erase z key s = (if \<not> is_data_block s1 (root t) then do {
          s2 \<leftarrow> (do {
            b \<leftarrow> index_block s1 (root t);
            if next_off (IL z) (begin_off (IL z)) = end_off (IL z) b
            then do { c \<leftarrow> entry_at (IL z) b (begin_off (IL z)); erase_block (set_begin_block s1 (Some c)) (root t) }
            else Some s1
          });
          Some (True, s2) } else Some (True, s1))"
        using r(1) t(4) Some u(2,3) by (simp add: bpt_erase_def entry_def)
      have at: "tree_at z d s1 D1 u"
        using 2(1) r(2,3) sorted u by (intro tree_atI [OF 2(1)]) simp_all
      have st1: "stored z s1 (without ps key)"
        using storedI [OF at] r(4) 2(2) u(1) by simp
      show ?thesis
      proof (cases "is_data_block s1 (root t)")
        case data: True
        then show ?thesis
          using run st1 True 2(2) r(5) by simp
      next
        case False
        then obtain e ts where uts: "d = Suc e" "u = Branch (root t) ts"
          using tree_atD(1,2) [OF at] root_is_data [OF tree_atD(1,2) [OF at]] u(2) by (auto elim!: wf_cases)
        have D: "D1 = set (blocks (Branch (root t) ts))"
          using D1(1) u(1) uts(2) by simp
        note col = root_of_branch [of z e s1 D1 "root t" ts, OF _ D]
        show ?thesis
        proof (cases "length ts = 1")
          case True
          then obtain c where c: "ts = [c]"
            by (cases ts) auto
          obtain s2 where s2: "bpt_erase z key s = Some (True, s2)" "forest z e s2 (set (blocks c)) [] [c] []" "h_begin s2 = root c"
            "st_total s2 = st_total s1"
            using col r(2) u(1) uts c run False by (auto simp del: Option.bind_assoc)
          have "tree_at z e s2 (set (blocks c)) c"
            using s2(2,3) sorted u(1) uts(2) c by (simp add: tree_at_def)
          then show ?thesis
            using s2 \<open>key \<in> fst ` set (pairs_of t)\<close> 2(2) r(4,5) u(1) uts(2) c storedI [of z e s2 _ c] by auto
        next
          case many: False
          then have "bpt_erase z key s = Some (True, s1)"
            using col r(2) u(1) uts run False by (auto split: list.splits simp del: Option.bind_assoc)
          then show ?thesis
            using st1 True 2(2) r(5) by simp
        qed
      qed
    qed
  qed
qed

end
