(* ===== verification/BPMap.thy ===== *)
theory BPMap
  imports BPErase
begin

text \<open>
  The B+ tree is a map: updates of values, the interface of an ordered map as a locale, its interpretation on the
  tree, and sessions of a client from the empty file on.
\<close>

section \<open>Updates of a value\<close>

text \<open>The tree with other pairs in one leaf.\<close>

primrec leaf_upd :: "nat \<Rightarrow> ('k, 'v) pairs \<Rightarrow> ('k, 'v) tree \<Rightarrow> ('k, 'v) tree" where
  "leaf_upd i b (Leaf j c) = Leaf j (if j = i then b else c)"
| "leaf_upd i b (Branch j ts) = Branch j (map (leaf_upd i b) ts)"

lemma leaf_upd_root [simp]: "root (leaf_upd i b t) = root t"
  by (cases t) simp_all

lemma leaf_upd_shape: "blocks (leaf_upd i b t) = blocks t" "leaves (leaf_upd i b t) = leaves t"
  by (induction t) (simp_all add: all_blocks_def all_leaves_def o_def cong: map_cong)

lemma leaf_upd_rows: "rows (leaf_upd i b t) = map (\<lambda>(j, c). (j, if j = i then b else c)) (rows t)"
  by (induction t) (simp_all add: map_concat o_def cong: map_cong)

lemma leaf_upd_keys:
  assumes "\<forall>c. (i, c) \<in> set (rows t) \<longrightarrow> map fst b = map fst c"
  shows "map fst (pairs_of (leaf_upd i b t)) = map fst (pairs_of t)"
proof -
  have "map fst (concat (map snd (map (\<lambda>(j, c). (j, if j = i then b else c)) rs))) = map fst (concat (map snd rs))"
    if "\<forall>c. (i, c) \<in> set rs \<longrightarrow> map fst b = map fst c" for rs :: "(nat \<times> ('a, 'b) pairs) list"
    using that by (induction rs) auto
  from this [OF assms] show ?thesis
    by (simp add: rows_pairs flip: leaf_upd_rows)
qed

lemma first_key_keys: "pairs_of t \<noteq> [] \<Longrightarrow> map fst (pairs_of u) = map fst (pairs_of t) \<Longrightarrow> first_key u = first_key t"
  by (metis first_key_def hd_map map_is_Nil_conv)

lemma leaf_upd_wf:
  assumes "wf z d t" "\<forall>c. (i, c) \<in> set (rows t) \<longrightarrow> map fst b = map fst c"
  shows "wf z d (leaf_upd i b t)"
  using assms
proof (induction z d t rule: wf.induct)
  case (1 z j c)
  then show ?case
    by (auto dest: map_eq_imp_length_eq)
next
  case (2 z d j ts)
  then show ?case
    by (auto simp: Ball_def)
qed simp_all

lemma leaf_upd_holds:
  assumes "holds s t" "wf z d t" "\<forall>c. (i, c) \<in> set (rows t) \<longrightarrow> map fst b = map fst c"
    and "content s' i = Some (Data 0 0 b)" "\<forall>j \<in> set (blocks t) - {i}. content s' j = content s j" "is_data_block s i"
  shows "holds s' (leaf_upd i b t)"
  using assms
proof (induction z d t rule: wf.induct)
  case (2 z d j ts)
  have "j \<noteq> i"
    using 2(2,7) by (auto dest: block_of_content)
  moreover have "entry (leaf_upd i b t) = entry t" "holds s' (leaf_upd i b t)" if "t \<in> set ts" for t
  proof -
    have r: "\<forall>c. (i, c) \<in> set (rows t) \<longrightarrow> map fst b = map fst c" "wf z d t"
      using 2(3,4) that by auto
    show "entry (leaf_upd i b t) = entry t"
      using first_key_keys [OF wf_pairs [OF r(2)] leaf_upd_keys [OF r(1)]] by (simp add: entry_def)
    have "\<forall>k \<in> set (blocks t) - {i}. content s' k = content s k"
      using 2(6) that by (auto simp: set_all)
    then show "holds s' (leaf_upd i b t)"
      using 2(1) [OF that] 2(2,5,7) r that by simp
  qed
  ultimately show ?case
    using 2(2,6) by (simp cong: map_cong)
qed auto

text \<open>Values in the pairs of a key.\<close>

definition revalue :: "('k, 'v) pairs \<Rightarrow> 'k \<Rightarrow> ('v \<Rightarrow> 'v) \<Rightarrow> ('k, 'v) pairs" where
  "revalue ps key f = map (\<lambda>e. if fst e = key then (key, f (snd e)) else e) ps"

lemma revalue_keys: "map fst (revalue ps key f) = map fst ps"
  by (simp add: revalue_def)

lemma revalue_other: "\<forall>e \<in> set ps. fst e \<noteq> key \<Longrightarrow> revalue ps key f = ps"
  unfolding revalue_def by (rule map_idI) auto

lemma revalue_append [simp]: "revalue (xs @ ys) key f = revalue xs key f @ revalue ys key f"
  by (simp add: revalue_def)

lemma revalue_at:
  assumes "sorted_keys b" "c < length b" "fst (b ! c) = key"
  shows "b[c := (key, f (snd (b ! c)))] = revalue b key f"
proof (rule nth_equalityI)
  fix i
  assume i: "i < length (b[c := (key, f (snd (b ! c)))])"
  show "b[c := (key, f (snd (b ! c)))] ! i = revalue b key f ! i"
  proof (cases "i = c")
    case True
    then show ?thesis
      using i assms(3) by (simp add: revalue_def)
  next
    case False
    then have "fst (b ! i) \<noteq> key"
      using sorted_keys_nth [OF assms(1), of i c] sorted_keys_nth [OF assms(1), of c i] assms(2,3) i by (cases "i < c") auto
    then show ?thesis
      using i False by (simp add: revalue_def)
  qed
qed (simp add: revalue_def)


text \<open>\<open>find_for_update\<close> and \<open>update\<close>.\<close>

lemma row_upd_other: "i \<notin> fst ` set X \<Longrightarrow> map (\<lambda>(j, c). (j, if j = i then b else c)) X = X"
  by (induction X) auto

lemma data_update_stored:
  assumes t: "tree_at z d s D t" and r: "rows t = X @ (i, b) # Y" and P: "0 < pair_size (DL z)"
    and c: "c < length b" "fst (b ! c) = key"
    and X: "\<forall>e \<in> set (concat (map snd X)). fst e < key" "\<forall>e \<in> set (concat (map snd Y)). key < fst e"
    and v: "v = f (snd (b ! c))"
  shows "\<exists>s'. data_update z i (off (DL z) c) v s = Some (True, s') \<and> stored z s' (revalue (pairs_of t) key f) \<and> st_total s' = st_total s"
proof -
  note row = row_block [OF t r]
  let ?b = "revalue b key f"
  let ?s = "set_block s i (Data (last (0 # map fst X)) (hd (map fst Y @ [0])) ?b)"
  have f: "forest z d s D [] [t] []" "D = set (blocks t)" "h_begin s = root t"
    using t unfolding tree_at_def by blast+
  have dist: "distinct (map fst (rows t))"
    using distinct_leaves [OF tree_atD(7) [OF t]] by (simp only: rows_leaves)
  have "i \<in> set (leaves t)"
    unfolding rows_leaves [symmetric] r by simp
  then have i: "i \<in> set (blocks t)"
    using leaves_blocks by blast
  then have only: "\<forall>c. (i, c) \<in> set (rows t) \<longrightarrow> map fst ?b = map fst c"
  proof (intro allI impI)
    fix c
    assume "(i, c) \<in> set (rows t)"
    moreover have "(i, b) \<in> set (rows t)"
      by (simp add: r)
    ultimately have "c = b"
      using dist by (metis eq_key_imp_eq_value)
    then show "map fst ?b = map fst c"
      by (simp add: revalue_keys)
  qed
  have run: "data_update z i (off (DL z) c) v s = Some (True, ?s)"
    using row(1,3) c blk_update_ok(2) [OF P c(1), of v] v revalue_at [OF row(3) c, of f] by (simp add: data_update_def)
  have data: "is_data_block s i"
    using row(1) by (auto simp: data_block_def is_data_block_def split: option.splits tree_block.splits)
  have "holds ?s (leaf_upd i ?b t)"
    using tree_atD(1,2) [OF t] only data by (intro leaf_upd_holds [of s t z d i ?b]) auto
  moreover have "wf z d (leaf_upd i ?b t)"
    by (rule leaf_upd_wf [OF tree_atD(1) [OF t] only])
  moreover have "good ?s D (leaves t)"
    using f(1) i f(2) row(1) by (intro good_data) (auto simp: forest_def data_block_links)
  ultimately have "forest z d ?s D [] [leaf_upd i ?b t] []"
    using f(1) by (simp add: forest_def leaf_upd_shape)
  moreover have "sorted_keys (pairs_of (leaf_upd i ?b t))"
    using leaf_upd_keys [OF only] tree_atD(3) [OF t] by simp
  ultimately have "tree_at z d ?s D (leaf_upd i ?b t)"
    using f(2,3) by (simp add: tree_at_def leaf_upd_shape)
  moreover have "pairs_of (leaf_upd i ?b t) = revalue (pairs_of t) key f"
  proof -
    have "map (\<lambda>(j, c). (j, if j = i then ?b else c)) X = X" "map (\<lambda>(j, c). (j, if j = i then ?b else c)) Y = Y"
      using dist r by (simp_all add: row_upd_other)
    then have "rows (leaf_upd i ?b t) = X @ (i, ?b) # Y"
      by (simp add: leaf_upd_rows r)
    then have "pairs_of (leaf_upd i ?b t) = concat (map snd X) @ ?b @ concat (map snd Y)"
      using rows_pairs [of "leaf_upd i ?b t"] by simp
    moreover have "pairs_of t = concat (map snd X) @ b @ concat (map snd Y)"
      using rows_pairs [of t] by (simp add: r)
    moreover have "revalue (concat (map snd X)) key f = concat (map snd X)"
      by (rule revalue_other) (metis X(1) less_irrefl)
    moreover have "revalue (concat (map snd Y)) key f = concat (map snd Y)"
      by (rule revalue_other) (metis X(2) less_irrefl)
    ultimately show ?thesis
      by simp
  qed
  ultimately show ?thesis
    using run storedI [of z d ?s D "leaf_upd i ?b t"] by (intro exI [of _ ?s]) simp
qed

text \<open>Both operations look the key up and then update its pair.\<close>

lemma search_for_update:
  assumes z: "sizes_ok z" and t: "tree_at z d s D t"
  obtains i b p n where "find_data z key s = Some (Some i)" "data_block s i = Some (p, n, b)"
    "lower_bound (DL z) b key = Some (off (DL z) (below_count b key))" "key \<in> fst ` set b \<longleftrightarrow> key \<in> fst ` set (pairs_of t)"
    "sorted_keys b" "\<And>v f. key \<in> fst ` set b \<Longrightarrow> v = f (snd (b ! below_count b key)) \<Longrightarrow>
      \<exists>s'. data_update z i (off (DL z) (below_count b key)) v s = Some (True, s') \<and> stored z s' (revalue (pairs_of t) key f) \<and>
        st_total s' = st_total s"
proof -
  obtain X i b Y where r: "rows t = X @ (i, b) # Y" "find_data z key s = Some (Some i)"
    "\<forall>e \<in> set (concat (map snd X)). fst e < key" "\<forall>e \<in> set (concat (map snd Y)). key < fst e"
    by (rule find_data_ok [OF t])
  note row = row_block [OF t r(1)]
  have P: "0 < pair_size (DL z)"
    using z by simp
  have "map_of (pairs_of t) key = map_of b key"
    by (rule map_of_row [OF r(1,3,4)])
  then have "key \<in> fst ` set b \<longleftrightarrow> key \<in> fst ` set (pairs_of t)"
    by (metis map_of_eq_None_iff)
  moreover have "below_count b key < length b \<and> fst (b ! below_count b key) = key" if "key \<in> fst ` set b"
    using below_count_key [OF row(3), of key] that by blast
  ultimately show ?thesis
    by (intro that [OF r(2) row(1) lower_bound_ok [OF P row(3)] _ row(3)] data_update_stored [OF t r(1) P _ _ r(3,4)]) simp_all
qed

lemma bpt_find_for_update_ok:
  assumes z: "sizes_ok z" and s: "stored z s ps"
  shows "\<exists>s'. bpt_find_for_update z key f s = Some (key \<in> fst ` set ps, s') \<and> stored z s' (revalue ps key f) \<and> st_total s' = st_total s"
    "\<exists>s'. bpt_update z key x s = Some (key \<in> fst ` set ps, s') \<and> stored z s' (revalue ps key (\<lambda>_. x)) \<and> st_total s' = st_total s"
proof -
  have "(\<exists>s'. bpt_find_for_update z key f s = Some (key \<in> fst ` set ps, s') \<and> stored z s' (revalue ps key f) \<and> st_total s' = st_total s) \<and>
    (\<exists>s'. bpt_update z key x s = Some (key \<in> fst ` set ps, s') \<and> stored z s' (revalue ps key (\<lambda>_. x)) \<and> st_total s' = st_total s)"
    using s
  proof (cases rule: stored_cases)
    case (1 xs)
    then show ?thesis
      using s by (simp add: bpt_find_for_update_def bpt_update_def find_data_def revalue_def)
  next
    case (2 d D t)
    have P: "0 < pair_size (DL z)"
      using z by simp
    obtain i b p n where r: "find_data z key s = Some (Some i)" "data_block s i = Some (p, n, b)"
      "lower_bound (DL z) b key = Some (off (DL z) (below_count b key))" "key \<in> fst ` set b \<longleftrightarrow> key \<in> fst ` set (pairs_of t)"
      "sorted_keys b" "\<And>v f. key \<in> fst ` set b \<Longrightarrow> v = f (snd (b ! below_count b key)) \<Longrightarrow>
      \<exists>s'. data_update z i (off (DL z) (below_count b key)) v s = Some (True, s') \<and> stored z s' (revalue (pairs_of t) key f) \<and>
        st_total s' = st_total s"
      by (rule search_for_update [OF z 2(1), of key]) blast
    note c = below_count_key [OF r(5), of key] below_count_le [of b key]
    show ?thesis
    proof (cases "key \<in> fst ` set b")
      case True
      then have b: "below_count b key < length b" "fst (b ! below_count b key) = key"
        using c(1) by blast+
      then show ?thesis
        using r(1-4) r(6) [OF True refl, of f] r(6) [OF True refl, of "\<lambda>_. x"] P True 2(2)
        by (simp add: bpt_find_for_update_def bpt_update_def off_eqs key_at_off)
    next
      case False
      then have "\<not> (below_count b key < length b \<and> fst (b ! below_count b key) = key)"
        using c(1) by blast
      moreover have "revalue ps key g = ps" for g
        using False r(4) 2(2) by (intro revalue_other) force
      ultimately show ?thesis
        using r(1-4) P False 2(2) s c(2)
        by (cases "below_count b key < length b") (auto simp: bpt_find_for_update_def bpt_update_def off_eqs key_at_off)
    qed
  qed
  then show "\<exists>s'. bpt_find_for_update z key f s = Some (key \<in> fst ` set ps, s') \<and> stored z s' (revalue ps key f) \<and> st_total s' = st_total s"
    "\<exists>s'. bpt_update z key x s = Some (key \<in> fst ` set ps, s') \<and> stored z s' (revalue ps key (\<lambda>_. x)) \<and> st_total s' = st_total s"
    by blast+
qed


section \<open>The interface of an ordered map\<close>

lemma map_of_insert_sorted:
  assumes "key \<notin> fst ` set ps"
  shows "map_of (insert_sorted ps key x) = (map_of ps)(key \<mapsto> x)"
proof -
  obtain xs ys where s: "ps = xs @ ys" "insert_sorted ps key x = xs @ (key, x) # ys"
    by (rule insert_sorted_split)
  have "map_of xs key = None"
    using assms s(1) by (auto simp: map_of_eq_None_iff)
  then have "map_of (xs @ (key, x) # ys) k = ((map_of (xs @ ys))(key \<mapsto> x)) k" for k
    by (cases "k = key") (simp_all add: map_add_def split: option.split)
  then have "map_of (xs @ (key, x) # ys) = (map_of (xs @ ys))(key \<mapsto> x)"
    by (rule ext)
  then show ?thesis
    by (simp only: s(2)) (simp only: s(1))
qed

lemma map_of_without: "map_of (without ps key) = (map_of ps)(key := None)"
  by (induction ps) (auto simp: without_def fun_eq_iff)

lemma map_of_revalue: "map_of (revalue ps key f) = (map_of ps)(key := map_option f (map_of ps key))"
  by (induction ps) (auto simp: revalue_def fun_eq_iff)

lemma key_in: "key \<in> fst ` set ps \<longleftrightarrow> map_of ps key \<noteq> None"
  by (simp add: map_of_eq_None_iff)

text \<open>
  What the operations of a store of pairs promise on the sorted list of its pairs; \<open>room\<close> is what an insertion
  needs to be carried out.
\<close>

locale ordered_map =
  fixes pairs_in :: "'s \<Rightarrow> ('k :: linorder \<times> 'v) list \<Rightarrow> bool"
    and room :: "'s \<Rightarrow> bool"
    and ins :: "'k \<Rightarrow> 'v \<Rightarrow> 's \<Rightarrow> (bool \<times> 's) option"
    and del :: "'k \<Rightarrow> 's \<Rightarrow> (bool \<times> 's) option"
    and upd :: "'k \<Rightarrow> 'v \<Rightarrow> 's \<Rightarrow> (bool \<times> 's) option"
    and app :: "'k \<Rightarrow> ('v \<Rightarrow> 'v) \<Rightarrow> 's \<Rightarrow> (bool \<times> 's) option"
    and get :: "'k \<Rightarrow> 's \<Rightarrow> ('k \<times> 'v) option option"
  assumes ins_law: "pairs_in s ps \<Longrightarrow> room s \<Longrightarrow> \<exists>s'. ins k x s = Some (k \<notin> fst ` set ps, s') \<and>
      pairs_in s' (if k \<in> fst ` set ps then ps else insert_sorted ps k x)"
    and del_law: "pairs_in s ps \<Longrightarrow> \<exists>s'. del k s = Some (k \<in> fst ` set ps, s') \<and> pairs_in s' (without ps k)"
    and upd_law: "pairs_in s ps \<Longrightarrow> \<exists>s'. upd k x s = Some (k \<in> fst ` set ps, s') \<and> pairs_in s' (revalue ps k (\<lambda>_. x))"
    and app_law: "pairs_in s ps \<Longrightarrow> \<exists>s'. app k f s = Some (k \<in> fst ` set ps, s') \<and> pairs_in s' (revalue ps k f)"
    and get_law: "pairs_in s ps \<Longrightarrow> get k s = Some (map_option (\<lambda>v. (k, v)) (map_of ps k))"
begin

text \<open>So each operation acts on a map from keys to values.\<close>

lemma ins_map:
  assumes "pairs_in s ps" "room s"
  shows "\<exists>s' ps'. ins k x s = Some (map_of ps k = None, s') \<and> pairs_in s' ps' \<and>
    map_of ps' = (if map_of ps k = None then (map_of ps)(k \<mapsto> x) else map_of ps)"
  using ins_law [OF assms, of k x] map_of_insert_sorted [of k ps x] by (auto simp: key_in split: if_splits)

lemma del_map:
  assumes "pairs_in s ps"
  shows "\<exists>s' ps'. del k s = Some (map_of ps k \<noteq> None, s') \<and> pairs_in s' ps' \<and> map_of ps' = (map_of ps)(k := None)"
proof -
  obtain s' where "del k s = Some (k \<in> fst ` set ps, s')" "pairs_in s' (without ps k)"
    using del_law [OF assms, of k] by blast
  then show ?thesis
    by (intro exI [of _ s'] exI [of _ "without ps k"]) (simp add: key_in map_of_without)
qed

lemma upd_map:
  assumes "pairs_in s ps"
  shows "\<exists>s' ps'. upd k x s = Some (map_of ps k \<noteq> None, s') \<and> pairs_in s' ps' \<and>
    map_of ps' = (map_of ps)(k := map_option (\<lambda>_. x) (map_of ps k))"
proof -
  obtain s' where "upd k x s = Some (k \<in> fst ` set ps, s')" "pairs_in s' (revalue ps k (\<lambda>_. x))"
    using upd_law [OF assms, of k x] by blast
  then show ?thesis
    by (intro exI [of _ s'] exI [of _ "revalue ps k (\<lambda>_. x)"]) (simp add: key_in map_of_revalue)
qed

lemma app_map:
  assumes "pairs_in s ps"
  shows "\<exists>s' ps'. app k f s = Some (map_of ps k \<noteq> None, s') \<and> pairs_in s' ps' \<and>
    map_of ps' = (map_of ps)(k := map_option f (map_of ps k))"
proof -
  obtain s' where "app k f s = Some (k \<in> fst ` set ps, s')" "pairs_in s' (revalue ps k f)"
    using app_law [OF assms, of k f] by blast
  then show ?thesis
    by (intro exI [of _ s'] exI [of _ "revalue ps k f"]) (simp add: key_in map_of_revalue)
qed

end

lemma stored_sorted: "stored z s ps \<Longrightarrow> sorted_keys ps"
  by (auto simp: stored_def tree_at_def)

interpretation tree: ordered_map "\<lambda>s ps. sizes_ok z \<and> stored z s ps" "\<lambda>s. st_total s < 2 ^ 31" "bpt_insert z" "bpt_erase z"
  "bpt_update z" "bpt_find_for_update z" "bpt_find z" for z
proof (unfold_locales, goal_cases)
  case (1 s ps k x)
  then show ?case
    using bpt_insert_ok [of z s ps k x] by metis
next
  case (2 s ps k)
  then show ?case
    using bpt_erase_ok [of z s ps k] by metis
next
  case (3 s ps k x)
  then show ?case
    using bpt_find_for_update_ok(2) [of z s ps k x] by metis
next
  case (4 s ps k f)
  then show ?case
    using bpt_find_for_update_ok(1) [of z s ps k f] by metis
next
  case (5 s ps k)
  then show ?case
    using bpt_find_ok [of z s ps k] by simp
qed

section \<open>Sessions\<close>

datatype ('k, 'v) request =
  Insert 'k 'v
| Erase 'k
| Update 'k 'v
| Apply 'k "'v \<Rightarrow> 'v"
| Find 'k

datatype ('k, 'v) answer =
  Done bool
| Found "('k \<times> 'v) option"

text \<open>The specification: a map.\<close>

fun map_serve :: "('k, 'v) request \<Rightarrow> ('k \<rightharpoonup> 'v) \<Rightarrow> ('k, 'v) answer \<times> ('k \<rightharpoonup> 'v)" where
  "map_serve (Insert k x) m = (Done (m k = None), if m k = None then m(k \<mapsto> x) else m)"
| "map_serve (Erase k) m = (Done (m k \<noteq> None), m(k := None))"
| "map_serve (Update k x) m = (Done (m k \<noteq> None), m(k := map_option (\<lambda>_. x) (m k)))"
| "map_serve (Apply k f) m = (Done (m k \<noteq> None), m(k := map_option f (m k)))"
| "map_serve (Find k) m = (Found (map_option (\<lambda>v. (k, v)) (m k)), m)"

definition map_after :: "('k, 'v) request list \<Rightarrow> 'k \<rightharpoonup> 'v" where
  "map_after rs = fold (\<lambda>r m. snd (map_serve r m)) rs Map.empty"

text \<open>The tree, and its runs from the empty file on.\<close>

definition answered :: "(bool \<times> 's) option \<Rightarrow> (('k, 'v) answer \<times> 's) option" where
  "answered res = do { (ok, s) \<leftarrow> res; Some (Done ok, s) }"

fun tree_serve :: "sizes \<Rightarrow> ('k :: linorder, 'v) request \<Rightarrow> ('k, 'v) store \<Rightarrow> (('k, 'v) answer \<times> ('k, 'v) store) option" where
  "tree_serve z (Insert k x) s = answered (bpt_insert z k x s)"
| "tree_serve z (Erase k) s = answered (bpt_erase z k s)"
| "tree_serve z (Update k x) s = answered (bpt_update z k x s)"
| "tree_serve z (Apply k f) s = answered (bpt_find_for_update z k f s)"
| "tree_serve z (Find k) s = do { r \<leftarrow> bpt_find z k s; Some (Found r, s) }"

inductive session :: "sizes \<Rightarrow> ('k :: linorder, 'v) request list \<Rightarrow> ('k, 'v) store \<Rightarrow> bool" for z where
  empty_file: "session z [] new_store"
| request: "session z rs s \<Longrightarrow> st_total s < 2 ^ 31 \<Longrightarrow> tree_serve z r s = Some (a, s') \<Longrightarrow> session z (rs @ [r]) s'"

lemma serve_ok:
  assumes "sizes_ok z" "stored z s ps" "st_total s < 2 ^ 31"
  shows "\<exists>s' ps'. tree_serve z r s = Some (fst (map_serve r (map_of ps)), s') \<and> stored z s' ps' \<and>
    map_of ps' = snd (map_serve r (map_of ps))"
proof (cases r)
  case (Insert k x)
  then show ?thesis
    using tree.ins_map [of z s ps k x] assms by (auto simp: answered_def)
next
  case (Erase k)
  then show ?thesis
    using tree.del_map [of z s ps k] assms by (auto simp: answered_def)
next
  case (Update k x)
  then show ?thesis
    using tree.upd_map [of z s ps k x] assms by (auto simp: answered_def)
next
  case (Apply k f)
  then show ?thesis
    using tree.app_map [of z s ps k f] assms by (auto simp: answered_def)
next
  case (Find k)
  then show ?thesis
    using tree.get_law [of z s ps k] assms by auto
qed

lemma new_store_stored: "stored z new_store []"
proof -
  have "owns new_store [] {}"
    by (auto simp: owns_def alloc_inv_def erased_def new_store_def head_list_def slots_begin_def PAGE_SIZE_def)
  then show ?thesis
    by (auto simp: stored_def new_store_def)
qed

lemma session_stored:
  assumes "session z rs s" "sizes_ok z"
  shows "\<exists>ps. stored z s ps \<and> map_of ps = map_after rs"
  using assms(1)
proof (induction rule: session.induct)
  case empty_file
  show ?case
    using new_store_stored by (intro exI [of _ "[]"]) (simp add: map_after_def)
next
  case (request rs s r a s')
  then obtain ps where ps: "stored z s ps" "map_of ps = map_after rs"
    by blast
  from serve_ok [OF assms(2) ps(1) request(2), of r] request(3) ps(2) show ?case
    by (auto simp: map_after_def)
qed

text \<open>Runs can be computed.\<close>

fun serve_all :: "sizes \<Rightarrow> ('k :: linorder, 'v) request list \<Rightarrow> ('k, 'v) store \<Rightarrow> ('k, 'v) store option" where
  "serve_all z [] s = Some s"
| "serve_all z (r # rs) s = do { check (st_total s < 2 ^ 31); (a, s) \<leftarrow> tree_serve z r s; serve_all z rs s }"

lemma serve_all_session:
  assumes "session z rs s" "serve_all z rs' s = Some s'"
  shows "session z (rs @ rs') s'"
  using assms
proof (induction rs' arbitrary: rs s)
  case (Cons r rs')
  then obtain a s1 where s1: "st_total s < 2 ^ 31" "tree_serve z r s = Some (a, s1)" "serve_all z rs' s1 = Some s'"
    by (auto simp: bind_eq_Some_conv)
  then show ?case
    using Cons.IH [OF session.request [OF Cons.prems(1) s1(1,2)] s1(3)] by simp
qed simp


text \<open>The bundles and congruence rules with which the simplifier runs the model on concrete requests.\<close>

lemma bind_weak_cong: "a = b \<Longrightarrow> Option.bind a f = Option.bind b f"
  by simp

lemma option_weak_cong: "a = b \<Longrightarrow> case_option x f a = case_option x f b"
  by simp

lemmas block_ops = data_layout_def index_layout_def PTR_SIZE_def PAGE_SIZE_def off_def begin_off_def end_off_def byte_size_def slot_def
  pairs_in_def key_at_def entry_at_def next_off_def prev_off_def can_insert_def blk_insert_def blk_update_key_def blk_update_value_def
  blk_erase_def blk_merge_def merge_keep_average_def move_data_def lower_loop.simps lower_bound_def blk_split_def blk_average_def
  vget_def vset_def

lemmas store_ops = is_data_block_def set_block_def data_block_def index_block_def record_block_def slots_begin_def rest_size_def
  head_can_add_def head_slot_def head_add_def head_pop_def record_can_add_def get_new_block_index_def create_block_def
  create_data_block_def create_index_block_def unlink_data_def free_block_def erase_block_def begin_block_def set_begin_block_def
  new_store_def

lemmas tree_ops = index_insert_def index_update_def index_erase_def index_merge_def index_average_def index_split_def index_first_def
  data_insert_def data_update_def data_erase_def data_merge_def data_average_def data_split_def data_first_def is_past_def
  step_back_def find_loop.simps find_data_def bpt_find_def bpt_find_for_update_def bpt_update_def data_block_insert_def index_add_def
  insert_impl.simps bpt_insert_def data_block_erase_def index_after_erase_def erase_impl.simps bpt_erase_def answered_def

lemmas run_ops = block_ops store_ops tree_ops Let_def

text \<open>
  Property C2. The tree is a map. In every state a file reaches from the empty one by insertions, erasures, updates
  and searches, as long as it has fewer than \<open>2 ^ 31\<close> blocks, every further request returns, without an exception,
  a failed assertion or an access outside the pairs of a block, and it is answered as by a map that has seen the same
  requests: a key is inserted only when it is new, erased and updated only when it is there, and a search finds its
  latest value.
\<close>

theorem tree_is_map:
  assumes "sizes_ok z" "session z rs s" "st_total s < 2 ^ 31"
  shows "\<exists>s'. tree_serve z r s = Some (fst (map_serve r (map_after rs)), s') \<and> session z (rs @ [r]) s'"
proof -
  obtain ps where ps: "stored z s ps" "map_of ps = map_after rs"
    using session_stored [OF assms(2,1)] by blast
  show ?thesis
    using serve_ok [OF assms(1) ps(1) assms(3), of r] session.request [OF assms(2,3)] ps(2) by metis
qed

text \<open>Pages for two pairs: a leaf splits, a leaf and the root above it go again, and a key is searched.\<close>

lemma tree_is_map_witness:
  "\<exists>s. session \<lparr>key_size = 8, value_size = 2000\<rparr> [Insert (3 :: int) ''c'', Insert 1 ''a'', Insert 2 ''b'', Erase 1] s \<and>
    st_total s = 4 \<and> h_begin s = 2 \<and>
    (\<exists>s'. tree_serve \<lparr>key_size = 8, value_size = 2000\<rparr> (Find 2) s = Some (Found (Some (2, ''b'')), s'))"
proof -
  let ?z = "\<lparr>key_size = 8, value_size = 2000\<rparr>"
  let ?rs = "[Insert (3 :: int) ''c'', Insert 1 ''a'', Insert 2 ''b'', Erase 1]"
  have "case serve_all ?z ?rs new_store of None \<Rightarrow> False | Some s \<Rightarrow> st_total s = 4 \<and> h_begin s = 2"
    by (simp add: run_ops cong: bind_weak_cong option_weak_cong)
  then obtain s where s: "serve_all ?z ?rs new_store = Some s" "st_total s = 4" "h_begin s = 2"
    by (auto split: option.splits)
  have "session ?z ?rs s"
    using serve_all_session [OF empty_file s(1)] by simp
  moreover have "sizes_ok ?z"
    by (simp add: sizes_ok_def block_ops)
  moreover have "fst (map_serve (Find 2) (map_after ?rs)) = Found (Some (2, ''b''))"
    by (simp add: map_after_def)
  ultimately show ?thesis
    using tree_is_map [of ?z ?rs s "Find 2"] s by auto
qed

text \<open>
  Property C8. The file is always well formed: it is empty, or it holds one tree with all leaves at the same depth,
  blocks that are not empty and fit into a page, keys in strictly ascending order, separators that are the first keys
  of their children, and the leaves linked in this order. Every block of the file is either one of the
  tree or erased and will be used again, never both: no block is lost.
\<close>

theorem tree_shape:
  assumes "sizes_ok z" "session z rs s"
  shows "\<exists>xs. erased s xs \<and> distinct xs \<and>
    (h_begin s = 0 \<and> map_after rs = Map.empty \<and> {0 <..< st_total s} = set xs \<or>
    (\<exists>d t. wf z d t \<and> holds s t \<and> sorted_keys (pairs_of t) \<and> map_of (pairs_of t) = map_after rs \<and> h_begin s = root t \<and>
      leaf_chain s 0 (leaves t) 0 \<and> distinct (blocks t) \<and> set (blocks t) \<inter> set xs = {} \<and>
      {0 <..< st_total s} = set (blocks t) \<union> set xs))"
proof -
  obtain ps where ps: "stored z s ps" "map_of ps = map_after rs"
    using session_stored [OF assms(2,1)] by blast
  have o: "erased s xs" "distinct xs" "D \<inter> set xs = {}" "{0 <..< st_total s} = D \<union> set xs" if "owns s xs D" for xs D
    using that by (auto simp: owns_def alloc_inv_def intro: gr0I)
  from ps(1) show ?thesis
  proof (cases rule: stored_cases)
    case (1 xs)
    then show ?thesis
      using o [of xs "{}"] ps(2) by (intro exI [of _ xs]) simp
  next
    case (2 d D t)
    then obtain xs where xs: "owns s xs D"
      using tree_atD(6) by blast
    have "D = set (blocks t)" "h_begin s = root t"
      using 2(1) unfolding tree_at_def by blast+
    then show ?thesis
      using o [OF xs] tree_atD(1-3,5,7) [OF 2(1)] 2(2) ps(2) by (intro exI [of _ xs] conjI disjI2 exI [of _ d] exI [of _ t]) simp_all
  qed
qed

text \<open>The erased blocks of that file.\<close>

lemma tree_shape_witness:
  "\<exists>s xs. session \<lparr>key_size = 8, value_size = 2000\<rparr> [Insert (3 :: int) ''c'', Insert 1 ''a'', Insert 2 ''b'', Erase 1] s \<and>
    h_begin s = 2 \<and> erased s xs \<and> distinct xs \<and> set xs \<subseteq> {1, 2, 3}"
proof -
  let ?z = "\<lparr>key_size = 8, value_size = 2000\<rparr>"
  let ?rs = "[Insert (3 :: int) ''c'', Insert 1 ''a'', Insert 2 ''b'', Erase 1]"
  have "case serve_all ?z ?rs new_store of None \<Rightarrow> False | Some s \<Rightarrow> st_total s = 4 \<and> h_begin s = 2"
    by (simp add: run_ops cong: bind_weak_cong option_weak_cong)
  then obtain s where s: "serve_all ?z ?rs new_store = Some s" "st_total s = 4" "h_begin s = 2"
    by (auto split: option.splits)
  have ses: "session ?z ?rs s"
    using serve_all_session [OF empty_file s(1)] by simp
  have "sizes_ok ?z"
    by (simp add: sizes_ok_def block_ops)
  then obtain xs where "erased s xs" "distinct xs" "set xs \<subseteq> {0 <..< 4}"
    using tree_shape [OF _ ses] s by auto
  then show ?thesis
    using ses s(3) by (intro exI [of _ s] exI [of _ xs]) auto
qed

end
