(* ===== verification/BPRange.thy ===== *)
theory BPRange
  imports BPMap
begin

text \<open>
  The range operations of the B+ tree (\<open>Base/BPTree_impls/BPTree.hpp\<close>): searches along the chain of the leaves, and
  the erasure of a range of keys.

  A \<open>ResultSet\<close> is the list of the pairs in the order in which they are added. The loops along the chain count
  \<open>limit\<close> down, so they recur on it; the loop of \<open>upper_bound\<close> and the ways down to the first and the last leaf have
  no such bound.
\<close>

section \<open>Searches along the chain\<close>

text \<open>A position is a data block and an offset in it; \<open>to_next\<close> and \<open>to_prev\<close> open the neighbour.\<close>

definition to_next :: "('k, 'v) store \<Rightarrow> nat \<Rightarrow> nat option" where
  "to_next s i = do { (p, n, b) \<leftarrow> data_block s i; (q, m, c) \<leftarrow> data_block s n; Some n }"

definition to_prev :: "('k, 'v) store \<Rightarrow> nat \<Rightarrow> nat option" where
  "to_prev s i = do { (p, n, b) \<leftarrow> data_block s i; (q, m, c) \<leftarrow> data_block s p; Some p }"

definition pair_at :: "layout \<Rightarrow> ('k, 'x) pairs \<Rightarrow> nat \<Rightarrow> ('k \<times> 'x) option" where
  "pair_at L b pos = do { k \<leftarrow> key_at L b pos; v \<leftarrow> entry_at L b pos; Some (k, v) }"

text \<open>\<open>find(begin, end, limit)\<close>\<close>

fun range_loop :: "sizes \<Rightarrow> 'k :: linorder \<Rightarrow> nat \<Rightarrow> nat \<Rightarrow> nat \<Rightarrow> ('k, 'v) store \<Rightarrow> ('k, 'v) pairs option" where
  "range_loop z stop 0 i pos s = Some []"
| "range_loop z stop (Suc limit) i pos s = do {
     (p, n, b) \<leftarrow> data_block s i;
     (i, pos) \<leftarrow> (if pos = end_off (DL z) b \<and> n \<noteq> 0 then do { j \<leftarrow> to_next s i; Some (j, begin_off (DL z)) } else Some (i, pos));
     (p, n, b) \<leftarrow> data_block s i;
     if pos = end_off (DL z) b then Some []
     else do {
       k \<leftarrow> key_at (DL z) b pos;
       if k < stop
       then do {
         e \<leftarrow> pair_at (DL z) b pos;
         results \<leftarrow> range_loop z stop limit i (next_off (DL z) pos) s;
         Some (e # results)
       } else Some []
     }
   }"

definition bpt_find_range :: "sizes \<Rightarrow> 'k :: linorder \<Rightarrow> 'k \<Rightarrow> nat \<Rightarrow> ('k, 'v) store \<Rightarrow> ('k, 'v) pairs option" where
  "bpt_find_range z start stop limit s =
     (if start > stop \<or> start = stop then Some []
      else do {
        iter \<leftarrow> find_data z start s;
        case iter of
          None \<Rightarrow> Some []
        | Some i \<Rightarrow> do {
            (p, n, b) \<leftarrow> data_block s i;
            pos \<leftarrow> lower_bound (DL z) b start;
            range_loop z stop limit i pos s
          }
      })"

definition bpt_lower_bound :: "sizes \<Rightarrow> 'k :: linorder \<Rightarrow> ('k, 'v) store \<Rightarrow> ('k \<times> 'v) option option" where
  "bpt_lower_bound z key s = do {
     iter \<leftarrow> find_data z key s;
     case iter of
       None \<Rightarrow> Some None
     | Some i \<Rightarrow> do {
         (p, n, b) \<leftarrow> data_block s i;
         pos \<leftarrow> lower_bound (DL z) b key;
         if pos = end_off (DL z) b
         then (if n = 0 then Some None
               else do {
                 j \<leftarrow> to_next s i;
                 (p, n, b) \<leftarrow> data_block s j;
                 e \<leftarrow> pair_at (DL z) b (begin_off (DL z));
                 Some (Some e)
               })
         else do { e \<leftarrow> pair_at (DL z) b pos; Some (Some e) }
       }
   }"

partial_function (option) upper_loop ::
  "sizes \<Rightarrow> 'k :: linorder \<Rightarrow> nat \<Rightarrow> nat \<Rightarrow> ('k, 'v) store \<Rightarrow> ('k \<times> 'v) option option" where
  "upper_loop z key i pos s = do {
     (p, n, b) \<leftarrow> data_block s i;
     (i, pos) \<leftarrow> (if pos = end_off (DL z) b \<and> n \<noteq> 0 then do { j \<leftarrow> to_next s i; Some (j, begin_off (DL z)) } else Some (i, pos));
     (p, n, b) \<leftarrow> data_block s i;
     if pos = end_off (DL z) b then Some None
     else do {
       k \<leftarrow> key_at (DL z) b pos;
       if k > key then do { e \<leftarrow> pair_at (DL z) b pos; Some (Some e) }
       else upper_loop z key i (next_off (DL z) pos) s
     }
   }"

definition bpt_upper_bound :: "sizes \<Rightarrow> 'k :: linorder \<Rightarrow> ('k, 'v) store \<Rightarrow> ('k \<times> 'v) option option" where
  "bpt_upper_bound z key s = do {
     iter \<leftarrow> find_data z key s;
     case iter of
       None \<Rightarrow> Some None
     | Some i \<Rightarrow> do {
         (p, n, b) \<leftarrow> data_block s i;
         pos \<leftarrow> lower_bound (DL z) b key;
         upper_loop z key i pos s
       }
   }"

text \<open>The loop of \<open>above_or_equal\<close> and \<open>search_from_begin\<close>, and the one of \<open>below\<close>, which looks at a key only in a block it is in already.\<close>

fun above_loop :: "sizes \<Rightarrow> nat \<Rightarrow> nat \<Rightarrow> nat \<Rightarrow> ('k, 'v) store \<Rightarrow> ('k, 'v) pairs option" where
  "above_loop z 0 i pos s = Some []"
| "above_loop z (Suc limit) i pos s = do {
     (p, n, b) \<leftarrow> data_block s i;
     if pos \<noteq> end_off (DL z) b \<or> n \<noteq> 0
     then do {
       (i, pos) \<leftarrow> (if pos = end_off (DL z) b
         then do { j \<leftarrow> to_next s i; (q, m, c) \<leftarrow> data_block s j; check (end_off (DL z) c \<noteq> begin_off (DL z)); Some (j, begin_off (DL z)) }
         else Some (i, pos));
       (p, n, b) \<leftarrow> data_block s i;
       e \<leftarrow> pair_at (DL z) b pos;
       results \<leftarrow> above_loop z limit i (next_off (DL z) pos) s;
       Some (e # results)
     } else Some []
   }"

fun below_loop :: "sizes \<Rightarrow> 'k :: linorder \<Rightarrow> nat \<Rightarrow> nat \<Rightarrow> nat \<Rightarrow> ('k, 'v) store \<Rightarrow> ('k, 'v) pairs option" where
  "below_loop z key 0 i pos s = Some []"
| "below_loop z key (Suc limit) i pos s = do {
     (p, n, b) \<leftarrow> data_block s i;
     go \<leftarrow> (if pos \<noteq> end_off (DL z) b then do { k \<leftarrow> key_at (DL z) b pos; Some (k < key) } else Some (n \<noteq> 0));
     if go
     then do {
       (i, pos) \<leftarrow> (if pos = end_off (DL z) b
         then do { j \<leftarrow> to_next s i; (q, m, c) \<leftarrow> data_block s j; check (end_off (DL z) c \<noteq> begin_off (DL z)); Some (j, begin_off (DL z)) }
         else Some (i, pos));
       (p, n, b) \<leftarrow> data_block s i;
       e \<leftarrow> pair_at (DL z) b pos;
       results \<leftarrow> below_loop z key limit i (next_off (DL z) pos) s;
       Some (e # results)
     } else Some []
   }"

fun back_loop :: "sizes \<Rightarrow> nat \<Rightarrow> nat \<Rightarrow> nat \<Rightarrow> ('k, 'v) store \<Rightarrow> ('k, 'v) pairs option" where
  "back_loop z 0 i pos s = Some []"
| "back_loop z (Suc limit) i pos s = do {
     (p, n, b) \<leftarrow> data_block s i;
     if pos \<noteq> begin_off (DL z) \<or> p \<noteq> 0
     then do {
       (i, pos) \<leftarrow> (if pos = begin_off (DL z)
         then do { j \<leftarrow> to_prev s i; (q, m, c) \<leftarrow> data_block s j; check (begin_off (DL z) \<noteq> end_off (DL z) c); Some (j, end_off (DL z) c) }
         else Some (i, pos));
       (p, n, b) \<leftarrow> data_block s i;
       pos \<leftarrow> prev_off (DL z) pos;
       e \<leftarrow> pair_at (DL z) b pos;
       results \<leftarrow> back_loop z limit i pos s;
       Some (e # results)
     } else Some []
   }"

text \<open>The loops inside the only leaf.\<close>

fun leaf_scan :: "layout \<Rightarrow> ('k, 'x) pairs \<Rightarrow> nat \<Rightarrow> nat \<Rightarrow> nat \<Rightarrow> ('k, 'x) pairs option" where
  "leaf_scan L b stop 0 pos = Some []"
| "leaf_scan L b stop (Suc limit) pos =
     (if pos \<noteq> stop then do { e \<leftarrow> pair_at L b pos; results \<leftarrow> leaf_scan L b stop limit (next_off L pos); Some (e # results) }
      else Some [])"

fun leaf_scan_back :: "layout \<Rightarrow> ('k, 'x) pairs \<Rightarrow> nat \<Rightarrow> nat \<Rightarrow> ('k, 'x) pairs option" where
  "leaf_scan_back L b 0 pos = Some []"
| "leaf_scan_back L b (Suc limit) pos =
     (if pos \<noteq> begin_off L
      then do { pos \<leftarrow> prev_off L pos; e \<leftarrow> pair_at L b pos; results \<leftarrow> leaf_scan_back L b limit pos; Some (e # results) }
      else Some [])"

text \<open>The ways down to the first and to the last leaf.\<close>

partial_function (option) first_leaf :: "sizes \<Rightarrow> nat \<Rightarrow> ('k, 'v) store \<Rightarrow> nat option" where
  "first_leaf z i s = do {
     b \<leftarrow> index_block s i;
     child \<leftarrow> entry_at (IL z) b (begin_off (IL z));
     if is_data_block s child then Some child else first_leaf z child s
   }"

partial_function (option) last_leaf :: "sizes \<Rightarrow> nat \<Rightarrow> ('k, 'v) store \<Rightarrow> nat option" where
  "last_leaf z i s = do {
     b \<leftarrow> index_block s i;
     pos \<leftarrow> prev_off (IL z) (end_off (IL z) b);
     child \<leftarrow> entry_at (IL z) b pos;
     if is_data_block s child then Some child else last_leaf z child s
   }"

definition bpt_above_or_equal :: "sizes \<Rightarrow> 'k :: linorder \<Rightarrow> nat \<Rightarrow> ('k, 'v) store \<Rightarrow> ('k, 'v) pairs option" where
  "bpt_above_or_equal z key limit s = do {
     iter \<leftarrow> find_data z key s;
     case iter of
       None \<Rightarrow> Some []
     | Some i \<Rightarrow> do {
         (p, n, b) \<leftarrow> data_block s i;
         pos \<leftarrow> lower_bound (DL z) b key;
         above_loop z limit i pos s
       }
   }"

definition bpt_below :: "sizes \<Rightarrow> 'k :: linorder \<Rightarrow> nat \<Rightarrow> ('k, 'v) store \<Rightarrow> ('k, 'v) pairs option" where
  "bpt_below z key limit s =
     (case begin_block s of
        None \<Rightarrow> Some []
      | Some i \<Rightarrow>
          if is_data_block s i
          then do { (p, n, b) \<leftarrow> data_block s i; stop \<leftarrow> lower_bound (DL z) b key; leaf_scan (DL z) b stop limit (begin_off (DL z)) }
          else do { i \<leftarrow> first_leaf z i s; below_loop z key limit i (begin_off (DL z)) s })"

definition bpt_search_from_begin :: "sizes \<Rightarrow> nat \<Rightarrow> ('k, 'v) store \<Rightarrow> ('k, 'v) pairs option" where
  "bpt_search_from_begin z limit s =
     (case begin_block s of
        None \<Rightarrow> Some []
      | Some i \<Rightarrow>
          if is_data_block s i
          then do { (p, n, b) \<leftarrow> data_block s i; leaf_scan (DL z) b (end_off (DL z) b) limit (begin_off (DL z)) }
          else do { i \<leftarrow> first_leaf z i s; above_loop z limit i (begin_off (DL z)) s })"

definition bpt_search_from_end :: "sizes \<Rightarrow> nat \<Rightarrow> ('k, 'v) store \<Rightarrow> ('k, 'v) pairs option" where
  "bpt_search_from_end z limit s =
     (case begin_block s of
        None \<Rightarrow> Some []
      | Some i \<Rightarrow>
          if is_data_block s i
          then do { (p, n, b) \<leftarrow> data_block s i; leaf_scan_back (DL z) b limit (end_off (DL z) b) }
          else do { i \<leftarrow> last_leaf z i s; (p, n, b) \<leftarrow> data_block s i; back_loop z limit i (end_off (DL z) b) s })"



section \<open>Erasure of a range\<close>

definition data_erase_range :: "sizes \<Rightarrow> nat \<Rightarrow> nat \<Rightarrow> nat \<Rightarrow> ('k, 'v) store \<Rightarrow> ('k, 'v) store option" where
  "data_erase_range z i lo hi s = do {
     (p, n, b) \<leftarrow> data_block s i;
     b \<leftarrow> blk_erase_range (DL z) b lo hi;
     Some (set_block s i (Data p n b))
   }"

definition index_erase_range :: "sizes \<Rightarrow> nat \<Rightarrow> nat \<Rightarrow> nat \<Rightarrow> ('k, 'v) store \<Rightarrow> ('k, 'v) store option" where
  "index_erase_range z i lo hi s = do {
     b \<leftarrow> index_block s i;
     b \<leftarrow> blk_erase_range (IL z) b lo hi;
     Some (set_block s i (Index b))
   }"

text \<open>\<open>if (iter.key() != key) block.update(iter, key)\<close>, and the erasure of the separator of a child that is gone.\<close>

definition index_refresh :: "sizes \<Rightarrow> nat \<Rightarrow> nat \<Rightarrow> ('k \<times> nat) option \<Rightarrow> ('k, 'v) store \<Rightarrow> ('k, 'v) store option" where
  "index_refresh z i pos r s =
     (case r of
        Some (k, j) \<Rightarrow> do {
          b \<leftarrow> index_block s i;
          k0 \<leftarrow> key_at (IL z) b pos;
          if k0 \<noteq> k then index_update z i pos k s else Some s
        }
      | None \<Rightarrow> do { (enough, s) \<leftarrow> index_erase z i pos s; Some s })"

partial_function (option) erase_all_block :: "sizes \<Rightarrow> nat \<Rightarrow> nat \<Rightarrow> nat \<Rightarrow> ('k, 'v) store \<Rightarrow> ('k, 'v) store option" where
  "erase_all_block z i lo hi s =
     (if lo = hi then Some s
      else do {
        b \<leftarrow> index_block s i;
        child \<leftarrow> entry_at (IL z) b lo;
        s \<leftarrow> (if is_data_block s child then Some s
             else do { c \<leftarrow> index_block s child; erase_all_block z child (begin_off (IL z)) (end_off (IL z) c) s });
        s \<leftarrow> erase_block s child;
        erase_all_block z i (next_off (IL z) lo) hi s
      })"

text \<open>What becomes of two neighbours when the range between them is gone: the keys and numbers of those that are left.\<close>

definition data_close_gap ::
  "sizes \<Rightarrow> nat \<Rightarrow> nat \<Rightarrow> ('k, 'v) store \<Rightarrow> (('k \<times> nat) option \<times> ('k \<times> nat) option \<times> ('k, 'v) store) option" where
  "data_close_gap z l r s = do {
     (p, n, lb) \<leftarrow> data_block s l;
     (q, m, rb) \<leftarrow> data_block s r;
     let choice = merge_keep_average (DL z) lb rb;
     if choice > 0
     then (if begin_off (DL z) \<noteq> end_off (DL z) lb
       then do { s \<leftarrow> data_merge z l r s; s \<leftarrow> erase_block s r; k \<leftarrow> data_first z l s; Some (Some (k, l), None, s) }
       else do {
         s \<leftarrow> erase_block s l;
         if begin_off (DL z) = end_off (DL z) rb then do { s \<leftarrow> erase_block s r; Some (None, None, s) }
         else do { k \<leftarrow> data_first z r s; Some (None, Some (k, r), s) }
       })
     else do {
       s \<leftarrow> (if choice < 0 then data_average z l r s else Some s);
       k \<leftarrow> data_first z l s;
       k' \<leftarrow> data_first z r s;
       Some (Some (k, l), Some (k', r), s)
     }
   }"

definition index_close_gap ::
  "sizes \<Rightarrow> nat \<Rightarrow> nat \<Rightarrow> ('k, 'v) store \<Rightarrow> (('k \<times> nat) option \<times> ('k \<times> nat) option \<times> ('k, 'v) store) option" where
  "index_close_gap z l r s = do {
     lb \<leftarrow> index_block s l;
     rb \<leftarrow> index_block s r;
     let choice = merge_keep_average (IL z) lb rb;
     if choice > 0
     then (if begin_off (IL z) \<noteq> end_off (IL z) lb
       then do { s \<leftarrow> index_merge z l r s; s \<leftarrow> erase_block s r; k \<leftarrow> index_first z l s; Some (Some (k, l), None, s) }
       else do {
         s \<leftarrow> erase_block s l;
         if begin_off (IL z) = end_off (IL z) rb then do { s \<leftarrow> erase_block s r; Some (None, None, s) }
         else do { k \<leftarrow> index_first z r s; Some (None, Some (k, r), s) }
       })
     else do {
       s \<leftarrow> (if choice < 0 then index_average z l r s else Some s);
       k \<leftarrow> index_first z l s;
       k' \<leftarrow> index_first z r s;
       Some (Some (k, l), Some (k', r), s)
     }
   }"

definition data_range_erase ::
  "sizes \<Rightarrow> 'k :: linorder \<Rightarrow> 'k \<Rightarrow> nat \<Rightarrow> nat \<Rightarrow> ('k, 'v) store \<Rightarrow>
    (bool \<times> ('k \<times> nat) option \<times> ('k \<times> nat) option \<times> ('k, 'v) store) option" where
  "data_range_erase z start stop l r s =
     (if l = r
      then do {
        (p, n, b) \<leftarrow> data_block s l;
        lo \<leftarrow> lower_bound (DL z) b start;
        hi \<leftarrow> lower_bound (DL z) b stop;
        s \<leftarrow> (if lo = hi then Some s else data_erase_range z l lo hi s);
        (p, n, b) \<leftarrow> data_block s l;
        if begin_off (DL z) = end_off (DL z) b
        then do { s \<leftarrow> erase_block s l; Some (lo \<noteq> hi, None, None, s) }
        else do { k \<leftarrow> data_first z l s; Some (lo \<noteq> hi, Some (k, l), Some (k, l), s) }
      } else do {
        (p, n, lb) \<leftarrow> data_block s l;
        lo \<leftarrow> lower_bound (DL z) lb start;
        s \<leftarrow> data_erase_range z l lo (end_off (DL z) lb) s;
        (q, m, rb) \<leftarrow> data_block s r;
        hi \<leftarrow> lower_bound (DL z) rb stop;
        s \<leftarrow> data_erase_range z r (begin_off (DL z)) hi s;
        (kl, kr, s) \<leftarrow> data_close_gap z l r s;
        Some (True, kl, kr, s)
      })"

text \<open>The child on the border of a range: \<open>iter == end() || (iter != begin() && iter.key() != key)\<close>, then \<open>--iter\<close>.\<close>

definition border :: "layout \<Rightarrow> ('k :: linorder, 'x) pairs \<Rightarrow> 'k \<Rightarrow> nat option" where
  "border L b key = do {
     pos \<leftarrow> lower_bound L b key;
     back \<leftarrow> (if pos = end_off L b then Some True
       else if pos \<noteq> begin_off L then do { k \<leftarrow> key_at L b pos; Some (k \<noteq> key) } else Some False);
     if back then prev_off L pos else Some pos
   }"

partial_function (option) erase_range_impl ::
  "sizes \<Rightarrow> 'k :: linorder \<Rightarrow> 'k \<Rightarrow> nat \<Rightarrow> nat \<Rightarrow> ('k, 'v) store \<Rightarrow>
    (bool \<times> ('k \<times> nat) option \<times> ('k \<times> nat) option \<times> ('k, 'v) store) option" where
  "erase_range_impl z start stop l r s =
     (if is_data_block s l then data_range_erase z start stop l r s
      else if l = r
      then do {
        b \<leftarrow> index_block s l;
        li \<leftarrow> border (IL z) b start;
        ri \<leftarrow> lower_bound (IL z) b stop;
        back \<leftarrow> (if li \<noteq> ri then if ri = end_off (IL z) b then Some True else do { k \<leftarrow> key_at (IL z) b ri; Some (k \<noteq> stop) }
          else Some False);
        ri \<leftarrow> (if back then prev_off (IL z) ri else Some ri);
        cl \<leftarrow> entry_at (IL z) b li;
        cr \<leftarrow> entry_at (IL z) b ri;
        (ok, kl, kr, s) \<leftarrow> erase_range_impl z start stop cl cr s;
        s \<leftarrow> (if li \<noteq> ri
          then do {
            s \<leftarrow> (if kl \<noteq> None then do { s \<leftarrow> index_refresh z l li kl s; index_refresh z l ri kr s }
              else do { s \<leftarrow> index_refresh z l ri kr s; index_refresh z l li kl s });
            b \<leftarrow> index_block s l;
            eb \<leftarrow> lower_bound (IL z) b start;
            ee \<leftarrow> lower_bound (IL z) b stop;
            s \<leftarrow> erase_all_block z l eb ee s;
            index_erase_range z l eb ee s
          } else index_refresh z l li kl s);
        b \<leftarrow> index_block s l;
        if begin_off (IL z) = end_off (IL z) b
        then do { s \<leftarrow> erase_block s l; Some (ok, None, None, s) }
        else do { k \<leftarrow> index_first z l s; Some (ok, Some (k, l), Some (k, l), s) }
      } else do {
        lb \<leftarrow> index_block s l;
        rb \<leftarrow> index_block s r;
        li \<leftarrow> border (IL z) lb start;
        ri \<leftarrow> border (IL z) rb stop;
        cl \<leftarrow> entry_at (IL z) lb li;
        cr \<leftarrow> entry_at (IL z) rb ri;
        (ok, kl, kr, s) \<leftarrow> erase_range_impl z start stop cl cr s;
        s \<leftarrow> index_refresh z l li kl s;
        s \<leftarrow> index_refresh z r ri kr s;
        lb \<leftarrow> index_block s l;
        rb \<leftarrow> index_block s r;
        eb \<leftarrow> lower_bound (IL z) lb start;
        ee \<leftarrow> lower_bound (IL z) rb stop;
        s \<leftarrow> erase_all_block z l eb (end_off (IL z) lb) s;
        s \<leftarrow> index_erase_range z l eb (end_off (IL z) lb) s;
        s \<leftarrow> erase_all_block z r (begin_off (IL z)) ee s;
        s \<leftarrow> index_erase_range z r (begin_off (IL z)) ee s;
        (kl, kr, s) \<leftarrow> index_close_gap z l r s;
        Some (ok, kl, kr, s)
      })"

definition bpt_erase_range :: "sizes \<Rightarrow> 'k :: linorder \<Rightarrow> 'k \<Rightarrow> ('k, 'v) store \<Rightarrow> (bool \<times> ('k, 'v) store) option" where
  "bpt_erase_range z start stop s =
     (case begin_block s of
        None \<Rightarrow> Some (False, s)
      | Some i \<Rightarrow> do {
          (ok, kl, kr, s) \<leftarrow> erase_range_impl z start stop i i s;
          Some (ok, case kl of None \<Rightarrow> set_begin_block s None | Some (k, j) \<Rightarrow> if i \<noteq> j then set_begin_block s (Some j) else s)
        })"

section \<open>The chain as a list\<close>

lemma pair_at_off: "0 < pair_size L \<Longrightarrow> c < length b \<Longrightarrow> pair_at L b (off L c) = Some (b ! c)"
  by (simp add: pair_at_def key_at_off)

lemma leaf_pos:
  assumes t: "tree_at z d s D t" and i: "i \<in> set (leaves t)"
  shows "0 < i"
proof -
  have "i \<in> D"
    using i leaves_blocks t unfolding tree_at_def by blast
  then show ?thesis
    using tree_atD(6) [OF t] by (auto simp: owns_def)
qed

lemma row_last:
  assumes t: "tree_at z d s D t" and r: "rows t = X @ [(i, b)]"
  obtains p where "data_block s i = Some (p, 0, b)"
  using row_block(1) [OF t r] by simp

lemma row_next:
  assumes t: "tree_at z d s D t" and r: "rows t = X @ (i, b) # (j, e) # Y"
  obtains p where "data_block s i = Some (p, j, b)" "0 < j" "to_next s i = Some j" "to_prev s j = Some i"
proof -
  have b: "data_block s i = Some (last (0 # map fst X), j, b)"
    using row_block(1) [OF t r] by simp
  have e: "data_block s j = Some (i, hd (map fst Y @ [0]), e)"
    using row_block(1) [OF t, of "X @ [(i, b)]" j e Y] r by simp
  have "0 < j"
    by (rule leaf_pos [OF t]) (simp add: r flip: rows_leaves)
  then show ?thesis
    using b e by (intro that [of "last (0 # map fst X)"]) (simp_all add: to_next_def to_prev_def)
qed

lemma row_any:
  assumes t: "tree_at z d s D t" and r: "rows t = X @ (i, b) # Y"
  obtains p n where "data_block s i = Some (p, n, b)"
  using row_block(1) [OF t r] by simp

lemma row_nonempty:
  assumes "tree_at z d s D t" "rows t = X @ (i, b) # Y"
  obtains x c where "b = x # c"
  using row_block(2) [OF assms] by (cases b) auto

text \<open>What lies behind a position, and before it.\<close>

abbreviation ahead :: "('k, 'v) pairs \<Rightarrow> nat \<Rightarrow> (nat \<times> ('k, 'v) pairs) list \<Rightarrow> ('k, 'v) pairs" where
  "ahead b c Y \<equiv> drop c b @ concat (map snd Y)"

abbreviation behind :: "(nat \<times> ('k, 'v) pairs) list \<Rightarrow> ('k, 'v) pairs \<Rightarrow> nat \<Rightarrow> ('k, 'v) pairs" where
  "behind X b c \<equiv> concat (map snd X) @ take c b"

lemma rows_ahead: "rows t = X @ (i, b) # Y \<Longrightarrow> pairs_of t = behind X b c @ ahead b c Y"
  using rows_pairs [of t] append_take_drop_id [of c b] by (metis append.assoc concat.simps(2) concat_append list.simps(9) map_append snd_conv)

text \<open>Going on to the next leaf leaves what is ahead as it is.\<close>

lemma ahead_next: "c = length b \<Longrightarrow> ahead b c ((j, e) # Y) = ahead e 0 Y"
  by simp

lemma ahead_step: "c < length b \<Longrightarrow> ahead b c Y = b ! c # ahead b (Suc c) Y"
  by (simp add: Cons_nth_drop_Suc)

text \<open>A property of a position that holds at the end of a leaf when it holds at the start of the next one.\<close>

lemma position_cases:
  assumes t: "tree_at z d s D t" and r: "rows t = X @ (i, b) # Y" and c: "c \<le> length b"
  obtains (inside) p n where "c < length b" "data_block s i = Some (p, n, b)"
  | (end_of_chain) p where "c = length b" "Y = []" "data_block s i = Some (p, 0, b)"
  | (next_leaf) p j x e q n Y' where "c = length b" "Y = (j, x # e) # Y'" "data_block s i = Some (p, j, b)" "0 < j"
      "to_next s i = Some j" "data_block s j = Some (q, n, x # e)" "rows t = (X @ [(i, b)]) @ (j, x # e) # Y'"
proof (cases "c < length b")
  case True
  then show ?thesis
    using inside row_any [OF t r] by metis
next
  case False
  then have c': "c = length b"
    using c by simp
  show ?thesis
  proof (cases Y)
    case Nil
    then show ?thesis
      using end_of_chain [OF c'] row_last [OF t] r by metis
  next
    case (Cons y Y')
    obtain j e where y: "y = (j, e)"
      by (cases y)
    have r': "rows t = (X @ [(i, b)]) @ (j, e) # Y'"
      using r Cons y by simp
    obtain x e' where e: "e = x # e'"
      by (rule row_nonempty [OF t r'])
    obtain p where "data_block s i = Some (p, j, b)" "0 < j" "to_next s i = Some j"
      by (rule row_next [OF t, of X i b j e Y']) (simp_all add: r')
    moreover obtain q n where "data_block s j = Some (q, n, e)"
      by (rule row_any [OF t r'])
    ultimately show ?thesis
      using next_leaf [OF c'] Cons y e r' by blast
  qed
qed

lemma above_loop_ok:
  assumes t: "tree_at z d s D t" and P: "0 < pair_size (DL z)"
  shows "rows t = X @ (i, b) # Y \<Longrightarrow> c \<le> length b \<Longrightarrow>
    above_loop z limit i (off (DL z) c) s = Some (take limit (ahead b c Y))"
proof (induction limit arbitrary: X i b Y c)
  case (Suc limit)
  from t Suc.prems show ?case
  proof (cases rule: position_cases)
    case inside
    then show ?thesis
      using Suc.IH [OF Suc.prems(1), of "Suc c"] P by (simp add: off_eqs pair_at_off ahead_step)
  next
    case end_of_chain
    then show ?thesis
      by (simp add: off_eqs)
  next
    case (next_leaf p j x e q n Y')
    then show ?thesis
      using Suc.IH [OF next_leaf(7), of 1] P pair_at_off [of "DL z" 0 "x # e"] by (simp add: off_eqs)
  qed
qed simp


lemma range_loop_ok:
  assumes t: "tree_at z d s D t" and P: "0 < pair_size (DL z)"
  shows "rows t = X @ (i, b) # Y \<Longrightarrow> c \<le> length b \<Longrightarrow>
    range_loop z stop limit i (off (DL z) c) s = Some (take limit (takeWhile (\<lambda>e. fst e < stop) (ahead b c Y)))"
proof (induction limit arbitrary: X i b Y c)
  case (Suc limit)
  from t Suc.prems show ?case
  proof (cases rule: position_cases)
    case inside
    then show ?thesis
      using Suc.IH [OF Suc.prems(1), of "Suc c"] P by (simp add: off_eqs pair_at_off key_at_off ahead_step)
  next
    case end_of_chain
    then show ?thesis
      by (simp add: off_eqs)
  next
    case (next_leaf p j x e q n Y')
    then show ?thesis
      using Suc.IH [OF next_leaf(7), of 1] P pair_at_off [of "DL z" 0 "x # e"] key_at_off [of "DL z" 0 "x # e"]
      by (simp add: off_eqs)
  qed
qed simp

lemma upper_loop_ok:
  assumes t: "tree_at z d s D t" and P: "0 < pair_size (DL z)"
  shows "rows t = X @ (i, b) # Y \<Longrightarrow> c \<le> length b \<Longrightarrow> ahead b c Y = xs \<Longrightarrow>
    upper_loop z key i (off (DL z) c) s = Some (find (\<lambda>e. key < fst e) xs)"
proof (induction xs arbitrary: X i b Y c)
  case Nil
  from t Nil(1,2) show ?case
  proof (cases rule: position_cases)
    case (inside p n)
    then show ?thesis
      using Nil(3) by simp
  next
    case end_of_chain
    then show ?thesis
      by (subst upper_loop.simps) (simp add: off_eqs)
  next
    case next_leaf
    then show ?thesis
      using Nil(3) by simp
  qed
next
  case (Cons y xs)
  from t Cons(2,3) show ?case
  proof (cases rule: position_cases)
    case inside
    then have "y = b ! c" "ahead b (Suc c) Y = xs"
      using Cons(4) ahead_step [OF inside(1), of Y] by simp_all
    then show ?thesis
      using Cons(1) [OF Cons(2), of "Suc c"] inside P by (subst upper_loop.simps) (simp add: off_eqs pair_at_off key_at_off)
  next
    case end_of_chain
    then show ?thesis
      using Cons(4) by simp
  next
    case (next_leaf p j x e q n Y')
    then have "y = x" "ahead (x # e) 1 Y' = xs"
      using Cons(4) by simp_all
    then show ?thesis
      using Cons(1) [OF next_leaf(7), of 1] next_leaf P pair_at_off [of "DL z" 0 "x # e"] key_at_off [of "DL z" 0 "x # e"]
      by (subst upper_loop.simps) (simp add: off_eqs)
  qed
qed

text \<open>\<open>below\<close> takes the first pair of a leaf without looking at its key.\<close>

fun below_rest :: "'k :: linorder \<Rightarrow> ('k, 'v) pairs \<Rightarrow> (nat \<times> ('k, 'v) pairs) list \<Rightarrow> ('k, 'v) pairs" where
  "below_rest key b [] = takeWhile (\<lambda>e. fst e < key) b"
| "below_rest key b ((j, c) # Y) =
     (if \<forall>e \<in> set b. fst e < key then b @ take 1 c @ below_rest key (tl c) Y else takeWhile (\<lambda>e. fst e < key) b)"

lemma below_rest_step:
  "below_rest key (x # b) Y = (if fst x < key then x # below_rest key b Y else [])"
  by (cases Y) auto

lemma below_loop_ok:
  assumes t: "tree_at z d s D t" and P: "0 < pair_size (DL z)"
  shows "rows t = X @ (i, b) # Y \<Longrightarrow> c \<le> length b \<Longrightarrow>
    below_loop z key limit i (off (DL z) c) s = Some (take limit (below_rest key (drop c b) Y))"
proof (induction limit arbitrary: X i b Y c)
  case (Suc limit)
  from t Suc.prems show ?case
  proof (cases rule: position_cases)
    case inside
    then have "drop c b = b ! c # drop (Suc c) b"
      by (simp add: Cons_nth_drop_Suc)
    then show ?thesis
      using Suc.IH [OF Suc.prems(1), of "Suc c"] inside P
      by (simp add: off_eqs pair_at_off key_at_off below_rest_step)
  next
    case end_of_chain
    then show ?thesis
      by (simp add: off_eqs)
  next
    case (next_leaf p j x e q n Y')
    then show ?thesis
      using Suc.IH [OF next_leaf(7), of 1] P pair_at_off [of "DL z" 0 "x # e"]
      by (simp add: off_eqs)
  qed
qed simp

lemma back_loop_ok:
  assumes t: "tree_at z d s D t" and P: "0 < pair_size (DL z)"
  shows "rows t = X @ (i, b) # Y \<Longrightarrow> c \<le> length b \<Longrightarrow>
    back_loop z limit i (off (DL z) c) s = Some (take limit (rev (behind X b c)))"
proof (induction limit arbitrary: X i b Y c)
  case (Suc limit)
  obtain p n where b: "data_block s i = Some (p, n, b)"
    by (rule row_any [OF t Suc.prems(1)])
  show ?case
  proof (cases c)
    case (Suc k)
    then have "take c b = take k b @ [b ! k]"
      using Suc.prems(2) by (simp add: take_Suc_conv_app_nth)
    then show ?thesis
      using Suc.IH [OF Suc.prems(1), of k] Suc Suc.prems(2) b P by (simp add: off_eqs pair_at_off)
  next
    case 0
    show ?thesis
    proof (cases X rule: rev_exhaust)
      case Nil
      then show ?thesis
        using row_block(1) [OF t, of "[]" i b Y] Suc.prems(1) 0 by (simp add: off_eqs)
    next
      case (snoc X' y)
      obtain j e where y: "y = (j, e)"
        by (cases y)
      have r: "rows t = X' @ (j, e) # (i, b) # Y"
        using Suc.prems(1) snoc y by simp
      obtain e' x where e: "e = e' @ [x]"
        using row_block(2) [OF t r] by (metis rev_exhaust)
      obtain q where q: "data_block s j = Some (q, i, e)" "to_prev s i = Some j"
        using row_next [OF t r] by metis
      have "p = j" "0 < j"
        using row_block(1) [OF t Suc.prems(1)] b snoc y leaf_pos [OF t, of j] by (simp_all add: r flip: rows_leaves)
      then show ?thesis
        using Suc.IH [OF r, of "length e'"] 0 b q e P snoc y by (simp add: off_eqs pair_at_off)
    qed
  qed
qed simp

text \<open>The first and the last leaf.\<close>

lemma rows_not_Nil: "wf z d t \<Longrightarrow> rows t \<noteq> []"
  by (induction z d t rule: wf.induct) (auto simp: neq_Nil_conv)

lemma branch_parts:
  assumes "wf z (Suc d) t" "holds s t"
  obtains i ts where "t = Branch i ts" "ts \<noteq> []" "\<forall>m \<in> set ts. wf z d m \<and> holds s m" "index_block s i = Some (map entry ts)"
  using assms by (cases t) (auto simp: block_of_content)

lemma leaf_parts:
  assumes "wf z 0 t"
  obtains i b where "t = Leaf i b"
  using assms by (cases t) auto

text \<open>One step on the way down.\<close>

lemma first_leaf_step:
  assumes "wf z (Suc d) t" "holds s t"
  obtains m where "wf z d m" "holds s m" "hd (rows t) = hd (rows m)"
    "first_leaf z (root t) s = (if is_data_block s (root m) then Some (root m) else first_leaf z (root m) s)"
proof -
  obtain i ts where t: "t = Branch i ts" "ts \<noteq> []" "\<forall>m \<in> set ts. wf z d m \<and> holds s m" "index_block s i = Some (map entry ts)"
    by (rule branch_parts [OF assms])
  have m: "wf z d (hd ts)" "holds s (hd ts)"
    using t(2,3) by simp_all
  have "first_leaf z i s = (if is_data_block s (root (hd ts)) then Some (root (hd ts)) else first_leaf z (root (hd ts)) s)"
    using t(2,4) key_at_off(2) [of "IL z" 0 "map entry ts"] by (subst first_leaf.simps) (simp add: off_eqs entry_def hd_conv_nth)
  moreover have "hd (rows t) = hd (rows (hd ts))"
    using t(1,2) rows_not_Nil [OF m(1)] by (cases ts) simp_all
  ultimately show ?thesis
    using that m t(1) by simp
qed

lemma last_leaf_step:
  assumes "wf z (Suc d) t" "holds s t"
  obtains m where "wf z d m" "holds s m" "last (rows t) = last (rows m)"
    "last_leaf z (root t) s = (if is_data_block s (root m) then Some (root m) else last_leaf z (root m) s)"
proof -
  obtain i ts where t: "t = Branch i ts" "ts \<noteq> []" "\<forall>m \<in> set ts. wf z d m \<and> holds s m" "index_block s i = Some (map entry ts)"
    by (rule branch_parts [OF assms])
  obtain us m where us: "ts = us @ [m]"
    using t(2) by (metis rev_exhaust)
  have m: "wf z d m" "holds s m"
    using t(3) us by simp_all
  have "last_leaf z i s = (if is_data_block s (root m) then Some (root m) else last_leaf z (root m) s)"
    using t(4) us key_at_off(2) [of "IL z" "length us" "map entry ts"]
    by (subst last_leaf.simps) (simp add: off_eqs entry_def nth_append)
  moreover have "last (rows t) = last (rows m)"
    using t(1) us rows_not_Nil [OF m(1)] by simp
  ultimately show ?thesis
    using that m t(1) by simp
qed

lemma first_leaf_ok: "wf z (Suc d) t \<Longrightarrow> holds s t \<Longrightarrow> first_leaf z (root t) s = Some (fst (hd (rows t)))"
proof (induction d arbitrary: t)
  case (Suc d)
  obtain m where m: "wf z (Suc d) m" "holds s m" "hd (rows t) = hd (rows m)"
    "first_leaf z (root t) s = (if is_data_block s (root m) then Some (root m) else first_leaf z (root m) s)"
    by (rule first_leaf_step [OF Suc.prems])
  then show ?case
    using Suc.IH [OF m(1,2)] root_is_data [OF m(1,2)] by simp
next
  case 0
  obtain m where m: "wf z 0 m" "holds s m" "hd (rows t) = hd (rows m)"
    "first_leaf z (root t) s = (if is_data_block s (root m) then Some (root m) else first_leaf z (root m) s)"
    by (rule first_leaf_step [OF 0])
  obtain i b where "m = Leaf i b"
    by (rule leaf_parts [OF m(1)])
  then show ?case
    using m root_is_data [OF m(1,2)] by simp
qed

lemma last_leaf_ok: "wf z (Suc d) t \<Longrightarrow> holds s t \<Longrightarrow> last_leaf z (root t) s = Some (fst (last (rows t)))"
proof (induction d arbitrary: t)
  case (Suc d)
  obtain m where m: "wf z (Suc d) m" "holds s m" "last (rows t) = last (rows m)"
    "last_leaf z (root t) s = (if is_data_block s (root m) then Some (root m) else last_leaf z (root m) s)"
    by (rule last_leaf_step [OF Suc.prems])
  then show ?case
    using Suc.IH [OF m(1,2)] root_is_data [OF m(1,2)] by simp
next
  case 0
  obtain m where m: "wf z 0 m" "holds s m" "last (rows t) = last (rows m)"
    "last_leaf z (root t) s = (if is_data_block s (root m) then Some (root m) else last_leaf z (root m) s)"
    by (rule last_leaf_step [OF 0])
  obtain i b where "m = Leaf i b"
    by (rule leaf_parts [OF m(1)])
  then show ?case
    using m root_is_data [OF m(1,2)] by simp
qed


section \<open>The searches on the sorted list of the pairs\<close>

lemma filter_from_key:
  fixes key :: "'k :: linorder" and xs ys :: "('k, 'v) pairs"
  assumes "\<forall>e \<in> set xs. fst e < key" "\<forall>e \<in> set ys. key \<le> fst e"
  shows "filter (\<lambda>e. key \<le> fst e) (xs @ ys) = ys" "find (\<lambda>e. key < fst e) (xs @ ys) = find (\<lambda>e. key < fst e) ys"
    "find (\<lambda>e. key \<le> fst e) (xs @ ys) = (if ys = [] then None else Some (hd ys))"
proof -
  have "filter (\<lambda>e. key \<le> fst e) xs = []" "filter (\<lambda>e. key \<le> fst e) ys = ys"
    using assms by (auto simp: filter_empty_conv filter_id_conv)
  then show "filter (\<lambda>e. key \<le> fst e) (xs @ ys) = ys"
    by simp
  show "find (\<lambda>e. key < fst e) (xs @ ys) = find (\<lambda>e. key < fst e) ys"
    using assms(1) by (induction xs) (auto simp: not_less_iff_gr_or_eq)
  show "find (\<lambda>e. key \<le> fst e) (xs @ ys) = (if ys = [] then None else Some (hd ys))"
    using assms by (induction xs) (auto simp: neq_Nil_conv)
qed

lemma takeWhile_sorted:
  fixes stop :: "'k :: linorder"
  shows "sorted_keys ps \<Longrightarrow> takeWhile (\<lambda>e. fst e < stop) ps = filter (\<lambda>e. fst e < stop) ps"
proof (induction ps)
  case (Cons e ps)
  show ?case
  proof (cases "fst e < stop")
    case False
    then have "\<forall>x \<in> set ps. \<not> fst x < stop"
      using Cons.prems by fastforce
    then show ?thesis
      using False by simp
  qed (use Cons in simp)
qed simp

lemma below_count_drop:
  assumes b: "sorted_keys b" and e: "e \<in> set (drop (below_count b key) b)"
  shows "key \<le> fst e"
proof -
  let ?c = "below_count b key"
  obtain k where "k < length (drop ?c b)" "e = drop ?c b ! k"
    using e unfolding in_set_conv_nth by blast
  then have k: "?c + k < length b" "e = b ! (?c + k)"
    by simp_all
  then have "key \<le> fst (b ! ?c)"
    using below_count_at [of b key] by simp
  then show ?thesis
    using k sorted_keys_nth [OF b, of ?c "?c + k"] by (cases "k = 0") auto
qed

text \<open>Where a search for a key starts.\<close>

lemma search_position:
  assumes z: "sizes_ok z" and t: "tree_at z d s D t"
  obtains X i b Y p n where "rows t = X @ (i, b) # Y" "find_data z key s = Some (Some i)" "data_block s i = Some (p, n, b)"
    "lower_bound (DL z) b key = Some (off (DL z) (below_count b key))"
    "\<forall>e \<in> set (behind X b (below_count b key)). fst e < key" "\<forall>e \<in> set (ahead b (below_count b key) Y). key \<le> fst e"
proof -
  obtain X i b Y where r: "rows t = X @ (i, b) # Y" "find_data z key s = Some (Some i)"
    "\<forall>e \<in> set (concat (map snd X)). fst e < key" "\<forall>e \<in> set (concat (map snd Y)). key < fst e"
    by (rule find_data_ok [OF t])
  note row = row_block [OF t r(1)]
  let ?c = "below_count b key"
  have "\<forall>e \<in> set (take ?c b). fst e < key"
    using fst_set_take by blast
  moreover have "key \<le> fst e" if "e \<in> set (drop ?c b)" for e
    using below_count_drop [OF row(3)] that by blast
  ultimately have "\<forall>e \<in> set (behind X b ?c). fst e < key" "\<forall>e \<in> set (ahead b ?c Y). key \<le> fst e"
    using r(3,4) by (auto intro: less_imp_le) (metis less_imp_le fst_conv snd_conv)
  then show ?thesis
    using that [OF r(1,2) row(1) lower_bound_ok [OF _ row(3)]] z by simp
qed

lemma search_at:
  assumes z: "sizes_ok z" and t: "tree_at z d s D t"
  obtains X i b Y p n where "rows t = X @ (i, b) # Y" "find_data z key s = Some (Some i)" "data_block s i = Some (p, n, b)"
    "lower_bound (DL z) b key = Some (off (DL z) (below_count b key))"
    "filter (\<lambda>e. key \<le> fst e) (pairs_of t) = ahead b (below_count b key) Y"
    "find (\<lambda>e. key < fst e) (pairs_of t) = find (\<lambda>e. key < fst e) (ahead b (below_count b key) Y)"
    "find (\<lambda>e. key \<le> fst e) (pairs_of t) = (if ahead b (below_count b key) Y = [] then None else Some (hd (ahead b (below_count b key) Y)))"
proof (rule search_position [OF z t, of key], goal_cases)
  case (1 X i b Y p n)
  have "pairs_of t = behind X b (below_count b key) @ ahead b (below_count b key) Y"
    by (rule rows_ahead [OF 1(2)])
  then show ?thesis
    using 1(1) [OF 1(2-5)] filter_from_key [OF 1(6,7)] by (simp only:)
qed


text \<open>Each operation on a file that holds the pairs \<open>ps\<close>.\<close>

lemma bpt_find_range_ok:
  assumes z: "sizes_ok z" and s: "stored z s ps"
  shows "bpt_find_range z start stop limit s = Some (take limit (filter (\<lambda>e. start \<le> fst e \<and> fst e < stop) ps))"
  using s
proof (cases rule: stored_cases)
  case 1
  then show ?thesis
    by (simp add: bpt_find_range_def find_data_def)
next
  case (2 d D t)
  show ?thesis
  proof (cases "start < stop")
    case False
    then have "filter (\<lambda>e. start \<le> fst e \<and> fst e < stop) ps = []"
      by (auto simp: filter_empty_conv)
    then show ?thesis
      using False by (auto simp: bpt_find_range_def)
  next
    case True
    obtain X i b Y p n where r: "rows t = X @ (i, b) # Y" "find_data z start s = Some (Some i)" "data_block s i = Some (p, n, b)"
      "lower_bound (DL z) b start = Some (off (DL z) (below_count b start))"
      "filter (\<lambda>e. start \<le> fst e) (pairs_of t) = ahead b (below_count b start) Y"
      by (rule search_at [OF z 2(1), of start])
    have "sorted_keys (filter (\<lambda>e. start \<le> fst e) (pairs_of t))"
      using tree_atD(3) [OF 2(1)] by (simp add: sorted_wrt_map sorted_wrt_filter)
    then have "takeWhile (\<lambda>e. fst e < stop) (ahead b (below_count b start) Y) = filter (\<lambda>e. start \<le> fst e \<and> fst e < stop) ps"
      unfolding r(5) [symmetric] 2(2) by (simp add: takeWhile_sorted conj_commute)
    moreover have "\<not> (start > stop \<or> start = stop)"
      using True by auto
    ultimately show ?thesis
      using r(2-4) range_loop_ok [OF 2(1) _ r(1) below_count_le, of stop limit start] z
      by (simp add: bpt_find_range_def del: takeWhile_append1 takeWhile_append2)
  qed
qed

lemma bpt_above_or_equal_ok:
  assumes z: "sizes_ok z" and s: "stored z s ps"
  shows "bpt_above_or_equal z key limit s = Some (take limit (filter (\<lambda>e. key \<le> fst e) ps))"
  using s
proof (cases rule: stored_cases)
  case 1
  then show ?thesis
    by (simp add: bpt_above_or_equal_def find_data_def)
next
  case (2 d D t)
  obtain X i b Y p n where r: "rows t = X @ (i, b) # Y" "find_data z key s = Some (Some i)" "data_block s i = Some (p, n, b)"
    "lower_bound (DL z) b key = Some (off (DL z) (below_count b key))"
    "filter (\<lambda>e. key \<le> fst e) (pairs_of t) = ahead b (below_count b key) Y"
    by (rule search_at [OF z 2(1), of key])
  show ?thesis
    using r(2-5) 2(2) above_loop_ok [OF 2(1) _ r(1) below_count_le, of limit key] z by (simp add: bpt_above_or_equal_def)
qed

lemma bpt_upper_bound_ok:
  assumes z: "sizes_ok z" and s: "stored z s ps"
  shows "bpt_upper_bound z key s = Some (find (\<lambda>e. key < fst e) ps)"
  using s
proof (cases rule: stored_cases)
  case 1
  then show ?thesis
    by (simp add: bpt_upper_bound_def find_data_def)
next
  case (2 d D t)
  obtain X i b Y p n where r: "rows t = X @ (i, b) # Y" "find_data z key s = Some (Some i)" "data_block s i = Some (p, n, b)"
    "lower_bound (DL z) b key = Some (off (DL z) (below_count b key))"
    "find (\<lambda>e. key < fst e) (pairs_of t) = find (\<lambda>e. key < fst e) (ahead b (below_count b key) Y)"
    by (rule search_at [OF z 2(1), of key])
  show ?thesis
    using r(2-5) 2(2) upper_loop_ok [OF 2(1) _ r(1) below_count_le refl, of key key] z by (simp add: bpt_upper_bound_def)
qed

lemma bpt_lower_bound_ok:
  assumes z: "sizes_ok z" and s: "stored z s ps"
  shows "bpt_lower_bound z key s = Some (find (\<lambda>e. key \<le> fst e) ps)"
  using s
proof (cases rule: stored_cases)
  case 1
  then show ?thesis
    by (simp add: bpt_lower_bound_def find_data_def)
next
  case (2 d D t)
  obtain X i b Y p n where r: "rows t = X @ (i, b) # Y" "find_data z key s = Some (Some i)" "data_block s i = Some (p, n, b)"
    "lower_bound (DL z) b key = Some (off (DL z) (below_count b key))"
    "find (\<lambda>e. key \<le> fst e) (pairs_of t) = (if ahead b (below_count b key) Y = [] then None else Some (hd (ahead b (below_count b key) Y)))"
    by (rule search_at [OF z 2(1), of key])
  have P: "0 < pair_size (DL z)"
    using z by simp
  from 2(1) r(1) below_count_le [of b key] show ?thesis
  proof (cases rule: position_cases)
    case (inside p n)
    then show ?thesis
      using r 2(2) P ahead_step [OF inside(1), of Y] by (simp add: bpt_lower_bound_def off_eqs pair_at_off)
  next
    case (end_of_chain p)
    then show ?thesis
      using r 2(2) P by (simp add: bpt_lower_bound_def off_eqs)
  next
    case (next_leaf p j x e q n Y')
    then show ?thesis
      using r 2(2) P pair_at_off [of "DL z" 0 "x # e"] by (simp add: bpt_lower_bound_def off_eqs)
  qed
qed


text \<open>The scans of the only leaf.\<close>

lemma leaf_scan_ok: "0 < pair_size L \<Longrightarrow> c \<le> n \<Longrightarrow> n \<le> length b \<Longrightarrow> leaf_scan L b (off L n) limit (off L c) = Some (take limit (drop c (take n b)))"
proof (induction limit arbitrary: c)
  case (Suc limit)
  show ?case
  proof (cases "c < n")
    case True
    then have "drop c (take n b) = b ! c # drop (Suc c) (take n b)"
      using Suc.prems(3) Cons_nth_drop_Suc [of c "take n b"] by simp
    then show ?thesis
      using Suc True by (simp add: off_eqs pair_at_off)
  qed (use Suc.prems in simp)
qed simp

lemma leaf_scan_back_ok: "0 < pair_size L \<Longrightarrow> c \<le> length b \<Longrightarrow> leaf_scan_back L b limit (off L c) = Some (take limit (rev (take c b)))"
proof (induction limit arbitrary: c)
  case (Suc limit)
  show ?case
  proof (cases c)
    case (Suc k)
    then show ?thesis
      using Suc.prems Suc.IH [of k] by (simp add: off_eqs pair_at_off take_Suc_conv_app_nth)
  qed (simp add: off_eqs)
qed simp

lemma rows_single: "wf z 0 t \<Longrightarrow> \<exists>i b. t = Leaf i b"
  by (cases t) auto

lemma bpt_search_from_begin_ok:
  assumes z: "sizes_ok z" and s: "stored z s ps"
  shows "bpt_search_from_begin z limit s = Some (take limit ps)"
  using s
proof (cases rule: stored_cases)
  case 1
  then show ?thesis
    by (simp add: bpt_search_from_begin_def)
next
  case (2 d D t)
  have P: "0 < pair_size (DL z)"
    using z by simp
  note t = tree_atD [OF 2(1)]
  obtain i b Y where r: "rows t = [] @ (i, b) # Y"
    using rows_not_Nil [OF t(1)] by (metis append_Nil list.exhaust prod.exhaust)
  have ps: "ps = ahead b 0 Y"
    using rows_ahead [OF r, of 0] 2(2) by simp
  obtain p n where b: "data_block s i = Some (p, n, b)"
    by (rule row_any [OF 2(1) r])
  show ?thesis
  proof (cases d)
    case 0
    then have "t = Leaf i b" "Y = []"
      using rows_single [of z t] t(1) r by auto
    then show ?thesis
      using root_is_data [OF t(1,2)] 0 t(4) b ps leaf_scan_ok [OF P, of 0 "length b" b limit]
      by (simp add: bpt_search_from_begin_def off_eqs)
  next
    case (Suc e)
    then have "first_leaf z (root t) s = Some i"
      using first_leaf_ok [of z e t s] t(1,2) r by simp
    then show ?thesis
      using root_is_data [OF t(1,2)] Suc t(4) above_loop_ok [OF 2(1) P r, of 0 limit] ps
      by (simp add: bpt_search_from_begin_def off_eqs)
  qed
qed

lemma bpt_search_from_end_ok:
  assumes z: "sizes_ok z" and s: "stored z s ps"
  shows "bpt_search_from_end z limit s = Some (take limit (rev ps))"
  using s
proof (cases rule: stored_cases)
  case 1
  then show ?thesis
    by (simp add: bpt_search_from_end_def)
next
  case (2 d D t)
  have P: "0 < pair_size (DL z)"
    using z by simp
  note t = tree_atD [OF 2(1)]
  obtain i b X where r: "rows t = X @ (i, b) # []"
    using rows_not_Nil [OF t(1)] by (metis rev_exhaust prod.exhaust)
  have ps: "ps = behind X b (length b)"
    using rows_ahead [OF r, of "length b"] 2(2) by simp
  obtain p n where b: "data_block s i = Some (p, n, b)"
    by (rule row_any [OF 2(1) r])
  show ?thesis
  proof (cases d)
    case 0
    then have "t = Leaf i b" "X = []"
      using rows_single [of z t] t(1) r by (auto simp: Cons_eq_append_conv)
    then show ?thesis
      using root_is_data [OF t(1,2)] 0 t(4) b ps leaf_scan_back_ok [OF P, of "length b" b limit]
      by (simp add: bpt_search_from_end_def off_eqs)
  next
    case (Suc e)
    then have "last_leaf z (root t) s = Some i"
      using last_leaf_ok [of z e t s] t(1,2) r by simp
    then show ?thesis
      using root_is_data [OF t(1,2)] Suc t(4) back_loop_ok [OF 2(1) P r, of "length b" limit] ps b
      by (simp add: bpt_search_from_end_def off_eqs)
  qed
qed

lemma sorted_keys_less:
  fixes xs ys :: "('k :: linorder, 'v) pairs"
  shows "sorted_keys (xs @ ys) \<Longrightarrow> x \<in> set xs \<Longrightarrow> y \<in> set ys \<Longrightarrow> fst x < fst y"
  by (auto simp: sorted_wrt_append)

text \<open>What \<open>below\<close> yields: the pairs below the key and, it may be, some of the pairs behind them.\<close>

lemma below_rest_prefix:
  assumes "sorted_keys (ahead b 0 Y)"
  shows "\<exists>k \<ge> length (filter (\<lambda>e. fst e < key) (ahead b 0 Y)). below_rest key b Y = take k (ahead b 0 Y)"
  using assms
proof (induction key b Y rule: below_rest.induct)
  case (1 key b)
  have "takeWhile (\<lambda>e. fst e < key) b = take (length (takeWhile (\<lambda>e. fst e < key) b)) b"
    by (rule takeWhile_eq_take)
  then show ?case
    using 1 takeWhile_sorted [of b key] by (intro exI [of _ "length (takeWhile (\<lambda>e. fst e < key) b)"]) simp
next
  case (2 key b j c Y)
  show ?case
  proof (cases "\<forall>e \<in> set b. fst e < key")
    case False
    have rest: "below_rest key b ((j, c) # Y) = takeWhile (\<lambda>e. fst e < key) b"
      by (simp only: below_rest.simps(2) False if_False)
    have sorted: "sorted_keys (b @ ahead c 0 Y)"
      using 2(2) by simp
    obtain y where y: "y \<in> set b" "key \<le> fst y"
      using False by (auto simp: not_less)
    have "\<not> fst x < key" if "x \<in> set (ahead c 0 Y)" for x
      using sorted_keys_less [OF sorted y(1) that] y(2) by simp
    then have "filter (\<lambda>e. fst e < key) (ahead c 0 Y) = []"
      by (simp add: filter_empty_conv)
    moreover have "takeWhile (\<lambda>e. fst e < key) b = filter (\<lambda>e. fst e < key) b"
      using sorted by (intro takeWhile_sorted) (simp add: sorted_wrt_append)
    moreover have "takeWhile (\<lambda>e. fst e < key) b = take (length (takeWhile (\<lambda>e. fst e < key) b)) (b @ ahead c 0 Y)"
      using takeWhile_eq_take [of "\<lambda>e. fst e < key" b] by (simp add: length_takeWhile_le)
    ultimately show ?thesis
      unfolding rest by (intro exI [of _ "length (takeWhile (\<lambda>e. fst e < key) b)"]) simp
  next
    case True
    show ?thesis
    proof (cases c)
      case Nil
      then have "\<exists>k \<ge> length (filter (\<lambda>e. fst e < key) (ahead [] 0 Y)). below_rest key [] Y = take k (ahead [] 0 Y)"
        using 2(1) [OF True] 2(2) by (simp add: sorted_wrt_append)
      then obtain k where "k \<ge> length (filter (\<lambda>e. fst e < key) (ahead [] 0 Y))" "below_rest key [] Y = take k (ahead [] 0 Y)"
        by blast
      then show ?thesis
        using True Nil by (intro exI [of _ "length b + k"]) simp
    next
      case (Cons x e)
      then obtain k where "k \<ge> length (filter (\<lambda>e. fst e < key) (ahead e 0 Y))" "below_rest key e Y = take k (ahead e 0 Y)"
        using 2(1) [OF True] 2(2) by (auto simp: sorted_wrt_append)
      then show ?thesis
        using True Cons by (intro exI [of _ "length b + Suc k"]) simp
    qed
  qed
qed

lemma bpt_below_ok:
  assumes z: "sizes_ok z" and s: "stored z s ps"
  shows "\<exists>k \<ge> length (filter (\<lambda>e. fst e < key) ps). bpt_below z key limit s = Some (take limit (take k ps))"
  using s
proof (cases rule: stored_cases)
  case 1
  then show ?thesis
    by (simp add: bpt_below_def)
next
  case (2 d D t)
  have P: "0 < pair_size (DL z)"
    using z by simp
  note t = tree_atD [OF 2(1)]
  obtain i b Y where r: "rows t = [] @ (i, b) # Y"
    using rows_not_Nil [OF t(1)] by (metis append_Nil list.exhaust prod.exhaust)
  have ps: "ps = ahead b 0 Y"
    using rows_ahead [OF r, of 0] 2(2) by simp
  obtain p n where b: "data_block s i = Some (p, n, b)"
    by (rule row_any [OF 2(1) r])
  show ?thesis
  proof (cases d)
    case 0
    then have T: "t = Leaf i b" "Y = []"
      using rows_single [of z t] t(1) r by auto
    have "bpt_below z key limit s = Some (take limit (take (below_count b key) b))"
      using T root_is_data [OF t(1,2)] 0 t(4) b leaf_scan_ok [OF P le0 below_count_le, of b key limit]
        lower_bound_ok [OF P row_block(3) [OF 2(1) r]]
      by (simp add: bpt_below_def off_eqs)
    moreover have "length (filter (\<lambda>e. fst e < key) b) \<le> below_count b key"
      using takeWhile_sorted [OF row_block(3) [OF 2(1) r]] by (simp add: below_count_def)
    ultimately show ?thesis
      using ps T(2) by auto
  next
    case (Suc e)
    then have "first_leaf z (root t) s = Some i"
      using first_leaf_ok [of z e t s] t(1,2) r by simp
    then have "bpt_below z key limit s = Some (take limit (below_rest key b Y))"
      using root_is_data [OF t(1,2)] Suc t(4) below_loop_ok [OF 2(1) P r, of 0 key limit]
      by (simp add: bpt_below_def off_eqs)
    then show ?thesis
      using below_rest_prefix [of b Y key] t(3) ps 2(2) by auto
  qed
qed


text \<open>
  Property C9. The searches along the leaves: in every session the file holds a sorted list of pairs, and \<open>find\<close> with
  two keys yields those of its pairs in \<open>[start, stop)\<close>, \<open>above_or_equal\<close> those from a key on, \<open>search_from_begin\<close> and
  \<open>search_from_end\<close> all of them in order and in reverse, each up to the limit; \<open>lower_bound\<close> and \<open>upper_bound\<close> yield
  the first pair whose key is not below, and above, a key. All of them return, and none leaves the chain. \<open>below\<close> yields a
  prefix of the pairs that has all those below the key, up to the limit.
\<close>

theorem range_searches:
  assumes "sizes_ok z" "session z rs s"
  shows "\<exists>ps. sorted_keys ps \<and> map_of ps = map_after rs \<and>
    (\<forall>start stop limit. bpt_find_range z start stop limit s = Some (take limit (filter (\<lambda>e. start \<le> fst e \<and> fst e < stop) ps))) \<and>
    (\<forall>key limit. bpt_above_or_equal z key limit s = Some (take limit (filter (\<lambda>e. key \<le> fst e) ps))) \<and>
    (\<forall>key. bpt_lower_bound z key s = Some (find (\<lambda>e. key \<le> fst e) ps)) \<and>
    (\<forall>key. bpt_upper_bound z key s = Some (find (\<lambda>e. key < fst e) ps)) \<and>
    (\<forall>limit. bpt_search_from_begin z limit s = Some (take limit ps)) \<and>
    (\<forall>limit. bpt_search_from_end z limit s = Some (take limit (rev ps))) \<and>
    (\<forall>key limit. \<exists>k \<ge> length (filter (\<lambda>e. fst e < key) ps). bpt_below z key limit s = Some (take limit (take k ps)))"
proof -
  obtain ps where ps: "stored z s ps" "map_of ps = map_after rs"
    using session_stored [OF assms(2,1)] by blast
  show ?thesis
    using stored_sorted [OF ps(1)] ps(2) bpt_find_range_ok [OF assms(1) ps(1)] bpt_above_or_equal_ok [OF assms(1) ps(1)]
      bpt_lower_bound_ok [OF assms(1) ps(1)] bpt_upper_bound_ok [OF assms(1) ps(1)] bpt_search_from_begin_ok [OF assms(1) ps(1)]
      bpt_search_from_end_ok [OF assms(1) ps(1)] bpt_below_ok [OF assms(1) ps(1)]
    by (intro exI [of _ ps] conjI allI) simp_all
qed

lemmas range_ops = to_next_def to_prev_def pair_at_def border_def bpt_find_range_def bpt_lower_bound_def upper_loop.simps
  bpt_upper_bound_def first_leaf.simps last_leaf.simps bpt_above_or_equal_def bpt_below_def bpt_search_from_begin_def
  bpt_search_from_end_def data_erase_range_def index_erase_range_def index_refresh_def erase_all_block.simps data_close_gap_def
  index_close_gap_def data_range_erase_def erase_range_impl.simps bpt_erase_range_def blk_erase_range_def

lemma range_searches_witness:
  "\<exists>s. session \<lparr>key_size = 8, value_size = 2000\<rparr> [Insert (3 :: int) ''c'', Insert 1 ''a'', Insert 2 ''b''] s \<and>
    bpt_search_from_end \<lparr>key_size = 8, value_size = 2000\<rparr> 2 s = Some [(3, ''c''), (2, ''b'')]"
proof -
  let ?z = "\<lparr>key_size = 8, value_size = 2000\<rparr>"
  let ?rs = "[Insert (3 :: int) ''c'', Insert 1 ''a'', Insert 2 ''b'']"
  have "case serve_all ?z ?rs new_store of None \<Rightarrow> False | Some s \<Rightarrow> bpt_search_from_end ?z (Suc (Suc (Suc 0))) s = Some [(3, ''c''), (2, ''b''), (1, ''a'')]"
    by (simp add: run_ops range_ops cong: bind_weak_cong option_weak_cong)
  then obtain s where s: "serve_all ?z ?rs new_store = Some s" "bpt_search_from_end ?z (Suc (Suc (Suc 0))) s = Some [(3, ''c''), (2, ''b''), (1, ''a'')]"
    by (auto split: option.splits)
  have ses: "session ?z ?rs s"
    using serve_all_session [OF empty_file s(1)] by simp
  have "sizes_ok ?z"
    by (simp add: sizes_ok_def block_ops)
  from range_searches [OF this ses] obtain ps where ps: "\<forall>limit. bpt_search_from_end ?z limit s = Some (take limit (rev ps))"
    by blast
  then have "take (Suc (Suc (Suc 0))) (rev ps) = [(3, ''c''), (2, ''b''), (1, ''a'')]"
    using s(2) by simp
  moreover have "take 2 (rev ps) = take 2 (take (Suc (Suc (Suc 0))) (rev ps))"
    by (simp only: take_take) (simp add: min_def)
  ultimately have "take 2 (rev ps) = [(3, ''c''), (2, ''b'')]"
    by simp
  then show ?thesis
    using ses ps by (intro exI [of _ s]) simp
qed


section \<open>Erasing a range\<close>

abbreviation outside :: "('k :: linorder, 'v) pairs \<Rightarrow> 'k \<Rightarrow> 'k \<Rightarrow> ('k, 'v) pairs" where
  "outside ps start stop \<equiv> filter (\<lambda>e. \<not> (start \<le> fst e \<and> fst e < stop)) ps"

lemma outside_counts:
  fixes b :: "('k :: linorder, 'v) pairs"
  assumes b: "sorted_keys b" and le: "start \<le> stop"
  defines "lo \<equiv> below_count b start" and "hi \<equiv> below_count b stop"
  shows "lo \<le> hi" "take lo b @ drop hi b = outside b start stop" "lo = hi \<longleftrightarrow> \<not> (\<exists>e \<in> set b. start \<le> fst e \<and> fst e < stop)"
proof -
  show le: "lo \<le> hi"
  proof (rule ccontr)
    assume "\<not> lo \<le> hi"
    then have "stop \<le> fst (b ! hi)" "fst (b ! hi) < start"
      using below_count_at [of b stop] below_count_less [of hi b start] below_count_le [of b start] by (simp_all add: lo_def hi_def)
    then show False
      using assms(2) by simp
  qed
  define m where "m = take (hi - lo) (drop lo b)"
  have b': "b = take lo b @ m @ drop hi b"
    using le append_take_drop_id [of lo b] append_take_drop_id [of "hi - lo" "drop lo b"] by (simp add: m_def)
  have A: "fst e < start" if "e \<in> set (take lo b)" for e
    using fst_set_take that unfolding lo_def by blast
  have C: "stop \<le> fst e" if "e \<in> set (drop hi b)" for e
    using below_count_drop [OF b] that by (auto simp: hi_def)
  have M: "start \<le> fst e \<and> fst e < stop" if "e \<in> set m" for e
  proof -
    have "e \<in> set (drop lo b)"
      using that by (auto simp: m_def dest: in_set_takeD)
    moreover have "m = drop lo (take hi b)"
      using le by (simp add: m_def drop_take)
    then have "e \<in> set (take hi b)"
      using that by (auto dest: in_set_dropD)
    ultimately show ?thesis
      using below_count_drop [OF b] fst_set_take unfolding lo_def hi_def by blast
  qed
  have "outside (take lo b) start stop = take lo b" "outside m start stop = []" "outside (drop hi b) start stop = drop hi b"
    using A M C by (force simp: filter_id_conv filter_empty_conv)+
  then show "take lo b @ drop hi b = outside b start stop"
    by (subst (3) b') simp
  have "(\<exists>e \<in> set b. start \<le> fst e \<and> fst e < stop) \<longleftrightarrow> m \<noteq> []"
  proof
    assume "\<exists>e \<in> set b. start \<le> fst e \<and> fst e < stop"
    then obtain e where e: "e \<in> set b" "start \<le> fst e" "fst e < stop"
      by blast
    then have "e \<notin> set (take lo b) \<and> e \<notin> set (drop hi b)"
      using A [of e] C [of e] by auto
    moreover have "e \<in> set (take lo b @ m @ drop hi b)"
      using e(1) b' by simp
    ultimately show "m \<noteq> []"
      by auto
  next
    assume "m \<noteq> []"
    then have "hd m \<in> set m"
      by simp
    moreover from this have "hd m \<in> set (take lo b @ m @ drop hi b)"
      by simp
    ultimately show "\<exists>e \<in> set b. start \<le> fst e \<and> fst e < stop"
      using M b' by metis
  qed
  moreover have "m = [] \<longleftrightarrow> lo = hi"
    using le below_count_le [of b stop] by (auto simp: m_def hi_def)
  ultimately show "lo = hi \<longleftrightarrow> \<not> (\<exists>e \<in> set b. start \<le> fst e \<and> fst e < stop)"
    by blast
qed

text \<open>In the only leaf.\<close>

lemma bpt_erase_range_leaf:
  assumes z: "sizes_ok z" and t: "tree_at z 0 s D (Leaf i b)" and le: "start \<le> stop"
  shows "\<exists>s'. bpt_erase_range z start stop s = Some (\<exists>e \<in> set b. start \<le> fst e \<and> fst e < stop, s') \<and> stored z s' (outside b start stop)"
proof -
  have P: "0 < pair_size (DL z)"
    using z by simp
  have r: "rows (Leaf i b) = [] @ (i, b) # []"
    by simp
  note row = row_block [OF t r]
  have di: "data_block s i = Some (0, 0, b)" "is_data_block s i" "begin_block s = Some i"
    using row(1) root_is_data [OF tree_atD(1,2) [OF t]] tree_atD(4) [OF t] by simp_all
  have f: "forest z 0 s D [] [Leaf i b] []" "D = {i}" "h_begin s = i"
    using t unfolding tree_at_def by auto
  let ?lo = "below_count b start" and ?hi = "below_count b stop"
  note c = outside_counts [OF row(3) le]
  let ?b = "outside b start stop"
  let ?s = "set_block s i (Data 0 0 ?b)"
  have bounds: "lower_bound (DL z) b start = Some (off (DL z) ?lo)" "lower_bound (DL z) b stop = Some (off (DL z) ?hi)"
    using lower_bound_ok [OF P row(3)] by blast+
  show ?thesis
  proof (cases "?lo = ?hi")
    case True
    then have "?b = b"
      using c(2) by simp
    moreover have "bpt_erase_range z start stop s = Some (False, s)"
      using True bounds di row(2) P
      by (simp add: bpt_erase_range_def erase_range_impl.simps data_range_erase_def data_first_ok off_eqs)
    ultimately show ?thesis
      using True c(3) storedI [OF t] by auto
  next
    case False
    have erase: "data_erase_range z i (off (DL z) ?lo) (off (DL z) ?hi) s = Some ?s"
      using di(1) blk_erase_range_ok [OF P c(1) below_count_le] c(2) by (simp add: data_erase_range_def)
    have run: "bpt_erase_range z start stop s = (if ?b = [] then do { s \<leftarrow> erase_block ?s i; Some (True, set_begin_block s None) }
      else Some (True, ?s))"
      using False bounds di P erase data_first_ok [of ?s i 0 0 ?b z]
      by (simp add: bpt_erase_range_def erase_range_impl.simps data_range_erase_def off_eqs)
    show ?thesis
    proof (cases "?b = []")
      case True
      have "links s i = Some (0, 0)"
        using di by (simp add: data_block_links)
      then have "forest z 0 ?s D [] [] [i]"
        using f good_data [of s D "[i]" i] by (simp add: forest_def)
      then obtain s' where s': "erase_block ?s i = Some s'" "forest z 0 s' (D - {i}) [] [] []"
        by (rule forest_erase_data)
      then obtain xs where "owns s' xs {}"
        using f(2) forest_good [OF s'(2)] by auto
      then have "stored z (set_begin_block s' None) []"
        using owns_begin [of s' xs "{}" None] by (auto simp: stored_def set_begin_block_def)
      then show ?thesis
        using run s'(1) True False c(3) by auto
    next
      case keep: False
      have "off (DL z) (length ?b) \<le> PAGE_SIZE"
        using off_mono [of "length ?b" "length b" "DL z"] row(4) by (simp del: off_simps)
      from tree_atI [OF t forest_leaf_update [OF f(1) keep this di(1)]] have "tree_at z 0 ?s D (Leaf i ?b)"
        using row(3) by (simp add: sorted_wrt_map sorted_wrt_filter)
      then show ?thesis
        using run keep False c(3) storedI by fastforce
    qed
  qed
qed


text \<open>
  Where the operations go wrong. The file holds the keys 0, 1, 2, 11, 12, 21, 22, 31 and 32 at three pairs a leaf; then
  \<open>below(11)\<close> yields the key 11, because it stands first in its leaf.
\<close>

abbreviation small_leaves :: sizes where
  "small_leaves \<equiv> \<lparr>key_size = 8, value_size = 1340\<rparr>"

definition some_keys :: "(int, int) request list" where
  "some_keys = [Insert 1 1, Insert 2 2, Insert 11 3, Insert 12 4, Insert 21 5, Insert 22 6, Insert 31 7, Insert 32 8, Insert 0 9]"

lemma ten_times: "(10 :: nat) = Suc (Suc (Suc (Suc (Suc (Suc (Suc (Suc (Suc (Suc 0)))))))))"
  by simp

lemma some_keys_session:
  assumes "case serve_all small_leaves some_keys new_store of None \<Rightarrow> False | Some s \<Rightarrow> P s"
  shows "\<exists>s. session small_leaves some_keys s \<and> P s"
  using assms serve_all_session [OF empty_file, of small_leaves some_keys] by (auto split: option.splits)

lemma below_overshoots:
  "\<exists>s. session small_leaves some_keys s \<and> bpt_below small_leaves 11 10 s = Some [(0, 9), (1, 1), (2, 2), (11, 3)]"
  unfolding ten_times
  by (rule some_keys_session) (simp add: run_ops range_ops some_keys_def cong: bind_weak_cong option_weak_cong)

text \<open>
  \<open>erase(5, 32)\<close> erases the keys 2 and 32 as well: the two leaves at the ends of the range share their pairs evenly, the
  separator of the right one becomes a key below 5, and the search for the leaves in between, over separators
  that are no longer sorted, takes in the right leaf.
\<close>

lemma range_erase_loses_keys:
  "\<exists>s. session small_leaves some_keys s \<and>
    bpt_search_from_begin small_leaves 10 s = Some [(0, 9), (1, 1), (2, 2), (11, 3), (12, 4), (21, 5), (22, 6), (31, 7), (32, 8)] \<and>
    (\<exists>s'. bpt_erase_range small_leaves 5 32 s = Some (True, s') \<and> bpt_search_from_begin small_leaves 10 s' = Some [(0, 9), (1, 1)])"
  unfolding ten_times
  by (rule some_keys_session) (simp add: run_ops range_ops some_keys_def cong: bind_weak_cong option_weak_cong)

text \<open>With the two keys the wrong way round the size of what is to be moved underflows.\<close>

lemma range_erase_reversed: "\<exists>s. session small_leaves some_keys s \<and> bpt_erase_range small_leaves 2 1 s = None"
  by (rule some_keys_session) (simp add: run_ops range_ops some_keys_def cong: bind_weak_cong option_weak_cong)

text \<open>
  As long as the tree is a single leaf, \<open>erase(start, stop)\<close> with \<open>start \<le> stop\<close> erases exactly the
  pairs with keys in \<open>[start, stop)\<close>, and succeeds when there is one.
\<close>

theorem range_erase_in_leaf:
  assumes "sizes_ok z" "session z rs s" "begin_block s = Some i" "is_data_block s i" "start \<le> stop"
  shows "\<exists>ps s'. sorted_keys ps \<and> map_of ps = map_after rs \<and>
    bpt_erase_range z start stop s = Some (\<exists>e \<in> set ps. start \<le> fst e \<and> fst e < stop, s') \<and>
    (\<forall>limit. bpt_search_from_begin z limit s' = Some (take limit (outside ps start stop)))"
proof -
  obtain ps where ps: "stored z s ps" "map_of ps = map_after rs"
    using session_stored [OF assms(2,1)] by blast
  from ps(1) show ?thesis
  proof (cases rule: stored_cases)
    case (1 xs)
    then show ?thesis
      using assms(3) by simp
  next
    case (2 d D t)
    note t = tree_atD [OF 2(1)]
    have "d = 0"
      using root_is_data [OF t(1,2)] t(4) assms(3,4) by simp
    then obtain j b where b: "t = Leaf j b"
      using t(1) rows_single by blast
    then obtain s' where s': "bpt_erase_range z start stop s = Some (\<exists>e \<in> set b. start \<le> fst e \<and> fst e < stop, s')"
      "stored z s' (outside b start stop)"
      using bpt_erase_range_leaf [OF assms(1) _ assms(5), of s D j b] 2(1) \<open>d = 0\<close> by blast
    then show ?thesis
      using ps 2(2) b t(3) bpt_search_from_begin_ok [OF assms(1) s'(2)] by (intro exI [of _ b] exI [of _ s']) simp
  qed
qed

lemma range_erase_in_leaf_witness:
  "\<exists>s s'. session small_leaves [Insert (3 :: int) (7 :: int), Insert 5 8, Insert 4 9] s \<and>
    bpt_erase_range small_leaves 4 6 s = Some (True, s') \<and> bpt_search_from_begin small_leaves 10 s' = Some [(3, 7)]"
proof -
  let ?rs = "[Insert (3 :: int) (7 :: int), Insert 5 8, Insert 4 9]"
  have "case serve_all small_leaves ?rs new_store of None \<Rightarrow> False | Some s \<Rightarrow> begin_block s = Some 1 \<and> is_data_block s 1 \<and>
    (\<exists>s'. bpt_erase_range small_leaves 4 6 s = Some (True, s') \<and> bpt_search_from_begin small_leaves 10 s' = Some [(3, 7)])"
    unfolding ten_times by (simp add: run_ops range_ops cong: bind_weak_cong option_weak_cong)
  then obtain s where s: "serve_all small_leaves ?rs new_store = Some s" "begin_block s = Some 1" "is_data_block s 1"
    "\<exists>s'. bpt_erase_range small_leaves 4 6 s = Some (True, s') \<and> bpt_search_from_begin small_leaves 10 s' = Some [(3, 7)]"
    by (auto split: option.splits)
  have ses: "session small_leaves ?rs s"
    using serve_all_session [OF empty_file s(1)] by simp
  have "sizes_ok small_leaves"
    by (simp add: sizes_ok_def block_ops)
  then obtain s' where "bpt_erase_range small_leaves 4 6 s = Some (True, s')"
    using range_erase_in_leaf [OF _ ses s(2,3), of 4 6] s(4) by force
  then show ?thesis
    using ses s(4) by auto
qed

end
