(* ===== verification/LinkNodes.thy ===== *)
theory LinkNodes
  imports Prelude "HOL-Library.Multiset"
begin

text \<open>
  The nodes of a link log server (\<open>LogSystem/linkLog/LinkLogServer\<close>): which loggers are registered, created and
  ended, their timers, and the flag each node shares with its timer.

  A node of the map \<open>_nodes\<close> has an address; an iterator is that address, and to use an iterator whose node is
  erased is \<open>None\<close>, as is any use of a flag that is deleted, or of the iterator \<open>buf_iter\<close> of a node that was never
  given a buffer. The addresses that \<open>new\<close> and the map return are arguments, which must be unused. Each operation
  holds the server's mutex and is one step that reads the clock once; what it writes to a buffer, tells the handler and queues for the
  center goes to a trace. The time is an argument. Of the queue of timers,
  \<open>top\<close> is one of those with the least expiry; the model takes the oldest one.
\<close>

section \<open>The state\<close>

datatype node_type = Invalid | Head | BranchHead | Fork | Follow | Decision | RpcFork | RpcFollow | RpcDecision

datatype link_error =
  Success
| ExtraFollow
| WrongType
| ExtraDecision
| ConflictingNode
| FailureNotice
| NotRegister
| AlreadyCreated
| CreateTimeOut
| EndTimeOut

text \<open>The values of the enumeration.\<close>

primrec type_value :: "node_type \<Rightarrow> nat" where
  "type_value Invalid = 0"
| "type_value Head = 1"
| "type_value BranchHead = 2"
| "type_value Fork = 3"
| "type_value Follow = 4"
| "type_value Decision = 5"
| "type_value RpcFork = 6"
| "type_value RpcFollow = 7"
| "type_value RpcDecision = 8"

instantiation node_type :: linorder
begin

definition less_eq_node_type :: "node_type \<Rightarrow> node_type \<Rightarrow> bool" where
  "less_eq_node_type s t \<longleftrightarrow> type_value s \<le> type_value t"

definition less_node_type :: "node_type \<Rightarrow> node_type \<Rightarrow> bool" where
  "less_node_type s t \<longleftrightarrow> type_value s < type_value t"

instance
proof
  fix s t :: node_type
  show "s \<le> t \<Longrightarrow> t \<le> s \<Longrightarrow> s = t"
    by (cases s; cases t; simp add: less_eq_node_type_def)
qed (auto simp: less_eq_node_type_def less_node_type_def)

end

type_synonym ('s, 'n) ident = "'s \<times> 'n"

record node_msg =
  nd_type :: node_type
  nd_subtype :: node_type
  nd_created :: bool
  nd_sub_decision :: bool
  nd_buf :: "nat option"
  nd_init :: int
  nd_parent :: "nat option"
  nd_flag :: "nat option"

record timer_data =
  td_expire :: int
  td_node :: nat
  td_flag :: "nat option"

text \<open>The records of the log; a logger without parent has an empty one.\<close>

datatype ('s, 'n) log_record =
  Register_Logger node_type 's 'n 'n int int int
| Create_Logger node_type 's 'n "'n option" int int
| End_Logger 's 'n int int
| Error_Logger 's 'n int link_error

datatype ('s, 'n) trace =
  Written nat "('s, 'n) log_record"
| Told "('s, 'n) log_record"
| Queued "('s, 'n) log_record"

record ('s, 'n) registry =
  rg_ids :: "('s, 'n) ident \<Rightarrow> nat option"
  rg_nodes :: "nat \<Rightarrow> (('s, 'n) ident \<times> node_msg) option"
  rg_flags :: "nat \<Rightarrow> bool option"
  rg_timers :: "timer_data list"
  rg_refs :: "nat list"
  rg_trace :: "('s, 'n) trace list"

section \<open>Nodes, flags and timers\<close>

definition new_msg :: "node_type \<Rightarrow> nat option \<Rightarrow> node_msg" where
  "new_msg t p = \<lparr>nd_type = t, nd_subtype = Invalid, nd_created = False, nd_sub_decision = False, nd_buf = None,
     nd_init = 0, nd_parent = p, nd_flag = None\<rparr>"

definition set_msg :: "('s, 'n) registry \<Rightarrow> nat \<Rightarrow> (node_msg \<Rightarrow> node_msg) \<Rightarrow> ('s, 'n) registry" where
  "set_msg r h g = r\<lparr>rg_nodes := (rg_nodes r)(h := map_option (\<lambda>(i, m). (i, g m)) (rg_nodes r h))\<rparr>"

definition msg_create :: "('s, 'n) registry \<Rightarrow> nat \<Rightarrow> nat \<Rightarrow> ('s, 'n) registry option" where
  "msg_create r h f = do {
     (i, m) \<leftarrow> rg_nodes r h;
     check (rg_flags r f = None);
     Some (set_msg (r\<lparr>rg_flags := (rg_flags r)(f := Some False)\<rparr>) h (\<lambda>m. m\<lparr>nd_flag := Some f\<rparr>))
   }"

definition msg_destroy :: "('s, 'n) registry \<Rightarrow> nat \<Rightarrow> ('s, 'n) registry option" where
  "msg_destroy r h = do {
     (i, m) \<leftarrow> rg_nodes r h;
     f \<leftarrow> nd_flag m;
     timeout \<leftarrow> rg_flags r f;
     Some (set_msg (r\<lparr>rg_flags := (rg_flags r)(f := if timeout then None else Some True)\<rparr>) h (\<lambda>m. m\<lparr>nd_flag := None\<rparr>))
   }"

definition msg_complete :: "('s, 'n) registry \<Rightarrow> nat \<Rightarrow> nat option \<Rightarrow> int \<Rightarrow> ('s, 'n) registry option" where
  "msg_complete r h buf now = do {
     (i, m) \<leftarrow> rg_nodes r h;
     b \<leftarrow> buf;
     n \<leftarrow> vget (rg_refs r) b;
     Some (set_msg (r\<lparr>rg_refs := (rg_refs r)[b := w32 (n + 1)]\<rparr>) h (\<lambda>m. m\<lparr>nd_created := True, nd_buf := Some b, nd_init := now\<rparr>))
   }"

definition msg_shutdown :: "('s, 'n) registry \<Rightarrow> nat \<Rightarrow> ('s, 'n) registry option" where
  "msg_shutdown r h = do {
     (i, m) \<leftarrow> rg_nodes r h;
     b \<leftarrow> nd_buf m;
     n \<leftarrow> vget (rg_refs r) b;
     Some (set_msg (r\<lparr>rg_refs := (rg_refs r)[b := w32 (n + 2 ^ 32 - 1)]\<rparr>) h (\<lambda>m. m\<lparr>nd_created := False\<rparr>))
   }"

text \<open>\<open>_nodes.try_emplace\<close> and \<open>_nodes.erase\<close>.\<close>

definition try_emplace ::
  "('s, 'n) registry \<Rightarrow> ('s, 'n) ident \<Rightarrow> node_msg \<Rightarrow> nat \<Rightarrow> (nat \<times> bool \<times> ('s, 'n) registry) option" where
  "try_emplace r i m h =
     (case rg_ids r i of
        Some h' \<Rightarrow> Some (h', False, r)
      | None \<Rightarrow> do {
          check (rg_nodes r h = None);
          Some (h, True, r\<lparr>rg_ids := (rg_ids r)(i := Some h), rg_nodes := (rg_nodes r)(h := Some (i, m))\<rparr>)
        })"

definition erase_node :: "('s, 'n) registry \<Rightarrow> nat \<Rightarrow> ('s, 'n) registry option" where
  "erase_node r h = do {
     (i, m) \<leftarrow> rg_nodes r h;
     Some (r\<lparr>rg_ids := (rg_ids r)(i := None), rg_nodes := (rg_nodes r)(h := None)\<rparr>)
   }"

definition add_timer :: "('s, 'n) registry \<Rightarrow> int \<Rightarrow> nat \<Rightarrow> ('s, 'n) registry option" where
  "add_timer r expire h = do {
     (i, m) \<leftarrow> rg_nodes r h;
     Some (r\<lparr>rg_timers := rg_timers r @ [\<lparr>td_expire = expire, td_node = h, td_flag = nd_flag m\<rparr>]\<rparr>)
   }"

definition timer_check_timeout :: "('s, 'n) registry \<Rightarrow> timer_data \<Rightarrow> (bool \<times> ('s, 'n) registry) option" where
  "timer_check_timeout r t = do {
     f \<leftarrow> td_flag t;
     timeout \<leftarrow> rg_flags r f;
     if \<not> timeout then Some (True, r\<lparr>rg_flags := (rg_flags r)(f := Some True)\<rparr>)
     else Some (False, r\<lparr>rg_flags := (rg_flags r)(f := None)\<rparr>)
   }"

fun timer_top :: "timer_data list \<Rightarrow> timer_data option" where
  "timer_top [] = None"
| "timer_top (t # ts) = (case timer_top ts of Some u \<Rightarrow> Some (if td_expire u < td_expire t then u else t) | None \<Rightarrow> Some t)"

text \<open>The buffer with the least number of loggers.\<close>

fun least_ref :: "nat \<Rightarrow> nat list \<Rightarrow> nat \<Rightarrow> nat \<Rightarrow> nat" where
  "least_ref i [] best min_ref = best"
| "least_ref i (n # ns) best min_ref = (if n \<ge> min_ref then least_ref (i + 1) ns best min_ref else least_ref (i + 1) ns i n)"

definition get_buffer_iter :: "('s, 'n) registry \<Rightarrow> nat option" where
  "get_buffer_iter r = do { n \<leftarrow> vget (rg_refs r) 0; Some (least_ref 1 (tl (rg_refs r)) 0 n) }"

text \<open>What is written, under the lock of the buffer; the handler is told of it.\<close>

definition put_trace :: "('s, 'n) registry \<Rightarrow> ('s, 'n) trace list \<Rightarrow> ('s, 'n) registry" where
  "put_trace r ts = r\<lparr>rg_trace := rg_trace r @ ts\<rparr>"

definition safe_write :: "('s, 'n) registry \<Rightarrow> nat option \<Rightarrow> ('s, 'n) log_record \<Rightarrow> ('s, 'n) registry option" where
  "safe_write r buf e = do { b \<leftarrow> buf; n \<leftarrow> vget (rg_refs r) b; Some (put_trace r [Written b e, Told e]) }"

definition safe_error ::
  "('s, 'n) registry \<Rightarrow> nat option \<Rightarrow> 's \<Rightarrow> 'n \<Rightarrow> link_error \<Rightarrow> int \<Rightarrow> ('s, 'n) registry option" where
  "safe_error r buf service nd err now = safe_write r buf (Error_Logger service nd now err)"

section \<open>The operations\<close>

text \<open>Registration of a child: the error, the buffer and the record to write.\<close>

definition register_impl ::
  "('s, 'n) registry \<Rightarrow> nat \<Rightarrow> node_type \<Rightarrow> 'n \<Rightarrow> int \<Rightarrow> int \<Rightarrow> nat \<Rightarrow> nat \<Rightarrow>
    (link_error \<times> nat option \<times> ('s, 'n) log_record option \<times> ('s, 'n) registry) option" where
  "register_impl r p t nd timeout now h f = do {
     (pid, pm) \<leftarrow> rg_nodes r p;
     let buf = nd_buf pm;
     if nd_subtype pm = Follow then Some (ExtraFollow, buf, None, r)
     else do {
       let r = (if nd_subtype pm = Invalid then set_msg r p (\<lambda>m. m\<lparr>nd_subtype := t\<rparr>) else r);
       (pid, pm) \<leftarrow> rg_nodes r p;
       if nd_subtype pm \<noteq> t then Some (WrongType, buf, None, r)
       else if nd_subtype pm = Decision \<and> nd_sub_decision pm then Some (ExtraDecision, buf, None, r)
       else do {
         (ok, r) \<leftarrow> (if t \<le> Decision
           then do {
             (h, ok, r) \<leftarrow> try_emplace r (fst pid, nd) (new_msg t (Some p)) h;
             if ok then do { r \<leftarrow> msg_create r h f; r \<leftarrow> add_timer r (now + timeout) h; Some (True, r) }
             else Some (False, r)
           } else Some (True, r));
         if \<not> ok then Some (ConflictingNode, buf, None, r)
         else do {
           (pid, pm) \<leftarrow> rg_nodes r p;
           Some (Success, nd_buf pm,
             Some (Register_Logger t (fst pid) nd (snd pid) now (nd_init pm) (now + timeout)), r)
         }
       }
     }
   }"

definition register_logger ::
  "('s, 'n) registry \<Rightarrow> nat \<Rightarrow> node_type \<Rightarrow> 'n \<Rightarrow> int \<Rightarrow> int \<Rightarrow> nat \<Rightarrow> nat \<Rightarrow> (link_error \<times> ('s, 'n) registry) option" where
  "register_logger r p t nd timeout now h f = do {
     (err, buf, e, r) \<leftarrow> register_impl r p t nd timeout now h f;
     if err \<noteq> Success then do {
       (pid, pm) \<leftarrow> rg_nodes r p;
       r \<leftarrow> safe_error r buf (fst pid) nd err now;
       Some (err, r)
     } else do { e \<leftarrow> e; r \<leftarrow> safe_write r buf e; Some (err, r) }
   }"

definition create_head_logger ::
  "('s, 'n) registry \<Rightarrow> 's \<Rightarrow> 'n \<Rightarrow> int \<Rightarrow> bool \<Rightarrow> int \<Rightarrow> nat \<Rightarrow> nat \<Rightarrow> (link_error \<times> nat \<times> ('s, 'n) registry) option" where
  "create_head_logger r service nd timeout is_branch now h f = do {
     let t = (if is_branch then BranchHead else Head);
     (h, ok, r) \<leftarrow> try_emplace r (service, nd) (new_msg t None) h;
     if \<not> ok then do {
       (i, m) \<leftarrow> rg_nodes r h;
       r \<leftarrow> safe_error r (nd_buf m) service nd ConflictingNode now;
       Some (ConflictingNode, h, r)
     } else do {
       buf \<leftarrow> get_buffer_iter r;
       r \<leftarrow> msg_complete r h (Some buf) now;
       r \<leftarrow> msg_create r h f;
       r \<leftarrow> add_timer r (now + timeout) h;
       r \<leftarrow> safe_write r (Some buf) (Create_Logger t service nd None now 0);
       Some (Success, h, r)
     }
   }"

definition create_logger ::
  "('s, 'n) registry \<Rightarrow> 's \<Rightarrow> 'n \<Rightarrow> int \<Rightarrow> int \<Rightarrow> nat \<Rightarrow> nat \<Rightarrow> (link_error \<times> nat \<times> ('s, 'n) registry) option" where
  "create_logger r service nd timeout now h f =
     (case rg_ids r (service, nd) of
        None \<Rightarrow> do {
          buf \<leftarrow> get_buffer_iter r;
          r \<leftarrow> safe_error r (Some buf) service nd NotRegister now;
          create_head_logger r service nd timeout False now h f
        }
      | Some h \<Rightarrow> do {
          (i, m) \<leftarrow> rg_nodes r h;
          if nd_created m then do {
            r \<leftarrow> safe_error r (nd_buf m) service nd AlreadyCreated now;
            Some (AlreadyCreated, h, r)
          } else do {
            p \<leftarrow> nd_parent m;
            (pid, pm) \<leftarrow> rg_nodes r p;
            let r = (if nd_type m = Decision then set_msg r p (\<lambda>m. m\<lparr>nd_sub_decision := True\<rparr>) else r);
            let buf = nd_buf pm;
            r \<leftarrow> msg_complete r h buf now;
            r \<leftarrow> msg_destroy r h;
            r \<leftarrow> msg_create r h f;
            r \<leftarrow> add_timer r (now + timeout) h;
            r \<leftarrow> safe_write r buf (Create_Logger (nd_type m) service nd (Some (snd pid)) now (nd_init pm));
            Some (Success, h, r)
          }
        })"

definition destroy_logger :: "('s, 'n) registry \<Rightarrow> nat \<Rightarrow> int \<Rightarrow> ('s, 'n) registry option" where
  "destroy_logger r h now = do {
     (i, m) \<leftarrow> rg_nodes r h;
     check (rg_ids r i = Some h);
     let buf = nd_buf m;
     let e = End_Logger (fst i) (snd i) (nd_init m) now;
     r \<leftarrow> msg_shutdown r h;
     r \<leftarrow> msg_destroy r h;
     r \<leftarrow> erase_node r h;
     safe_write r buf e
   }"

text \<open>A timer that is due; \<open>center\<close> says whether the link to the center is up.\<close>

definition timeout_trace :: "bool \<Rightarrow> ('s, 'n) ident \<Rightarrow> int \<Rightarrow> link_error \<Rightarrow> ('s, 'n) trace list" where
  "timeout_trace center i expire err =
     (let e = Error_Logger (fst i) (snd i) expire err in (if center then [Queued e] else []) @ [Told e])"

definition timer_fires :: "bool \<Rightarrow> timer_data \<Rightarrow> ('s, 'n) registry \<Rightarrow> ('s, 'n) registry option" where
  "timer_fires center t r = do {
     (due, r) \<leftarrow> timer_check_timeout r t;
     if due then do {
       (i, m) \<leftarrow> rg_nodes r (td_node t);
       if nd_created m then Some (put_trace r (timeout_trace center i (td_expire t) EndTimeOut))
       else do {
         let r = (if nd_type m \<noteq> Decision then put_trace r (timeout_trace center i (td_expire t) CreateTimeOut) else r);
         r \<leftarrow> msg_destroy r (td_node t);
         erase_node r (td_node t)
       }
     } else Some r
   }"

lemma timer_top_in: "timer_top ts = Some t \<Longrightarrow> t \<in> set ts"
  by (induction ts arbitrary: t) (auto split: option.splits if_splits)

function check_timeout :: "bool \<Rightarrow> int \<Rightarrow> ('s, 'n) registry \<Rightarrow> ('s, 'n) registry option" where
  "check_timeout center now r =
     (case timer_top (rg_timers r) of
        None \<Rightarrow> Some r
      | Some t \<Rightarrow>
          if td_expire t \<le> now
          then do {
            r' \<leftarrow> timer_fires center t r;
            check_timeout center now (r'\<lparr>rg_timers := remove1 t (rg_timers r)\<rparr>)
          } else Some r)"
  by pat_completeness auto

termination
proof (relation "measure (\<lambda>(center, now, r). length (rg_timers r))", goal_cases)
  case (2 center now r t r')
  then have "t \<in> set (rg_timers r)"
    by (intro timer_top_in)
  then show ?case
    by (simp add: length_remove1) (metis Suc_pred lessI length_pos_if_in_set)
qed simp

declare check_timeout.simps [simp del]

definition new_registry :: "nat \<Rightarrow> ('s, 'n) registry" where
  "new_registry partition_rank = \<lparr>rg_ids = Map.empty, rg_nodes = Map.empty, rg_flags = Map.empty, rg_timers = [],
     rg_refs = replicate (2 ^ (partition_rank - 1)) 0, rg_trace = []\<rparr>"

section \<open>Who owns a flag\<close>

text \<open>
  A flag is shared by a node and a timer while it is false; the first of them to go sets it, and the other one
  deletes it. \<open>N\<close> has the flags of the nodes, \<open>T\<close> those of the timers with their nodes.
\<close>

definition nodes_of :: "(nat \<Rightarrow> nat option) \<Rightarrow> nat \<Rightarrow> nat set" where
  "nodes_of N f = {h. N h = Some f}"

definition timers_of :: "(nat \<times> nat) set \<Rightarrow> nat \<Rightarrow> nat set" where
  "timers_of T f = {h. (h, f) \<in> T}"

definition flag_ok :: "bool option \<Rightarrow> nat set \<Rightarrow> nat set \<Rightarrow> bool" where
  "flag_ok v ns ts \<longleftrightarrow> (case v of
       None \<Rightarrow> ns = {} \<and> ts = {}
     | Some False \<Rightarrow> \<exists>h. ns = {h} \<and> ts = {h}
     | Some True \<Rightarrow> \<exists>h. ns = {h} \<and> ts = {} \<or> ns = {} \<and> ts = {h})"

definition flags_ok :: "(nat \<Rightarrow> nat option) \<Rightarrow> (nat \<times> nat) set \<Rightarrow> (nat \<Rightarrow> bool option) \<Rightarrow> bool" where
  "flags_ok N T F \<longleftrightarrow> (\<forall>f. flag_ok (F f) (nodes_of N f) (timers_of T f))"

lemma owner_simps [simp]:
  "nodes_of (N(h := Some g)) f = (if f = g then insert h (nodes_of N f) else nodes_of N f - {h})"
  "nodes_of (N(h := None)) f = nodes_of N f - {h}"
  "timers_of (insert (h, g) T) f = (if f = g then insert h (timers_of T f) else timers_of T f)"
  "timers_of (T - {(h, g)}) f = (if f = g then timers_of T f - {h} else timers_of T f)"
  by (auto simp: nodes_of_def timers_of_def)

lemma owner_in: "h \<in> nodes_of N f \<longleftrightarrow> N h = Some f" "h \<in> timers_of T f \<longleftrightarrow> (h, f) \<in> T"
  by (simp_all add: nodes_of_def timers_of_def)

lemma flag_ok_simps [simp]:
  "flag_ok None ns ts \<longleftrightarrow> ns = {} \<and> ts = {}" "flag_ok (Some False) ns ts \<longleftrightarrow> (\<exists>h. ns = {h} \<and> ts = {h})"
  "flag_ok (Some True) ns ts \<longleftrightarrow> (\<exists>h. ns = {h} \<and> ts = {} \<or> ns = {} \<and> ts = {h})"
  by (simp_all add: flag_ok_def)

lemma flags_node:
  assumes "flags_ok N T F" "N h = Some f"
  shows "\<exists>b. F f = Some b \<and> nodes_of N f = {h} \<and> timers_of T f = (if b then {} else {h})"
proof -
  have "flag_ok (F f) (nodes_of N f) (timers_of T f)" "h \<in> nodes_of N f"
    using assms by (simp_all add: flags_ok_def owner_in)
  then show ?thesis
    by (cases "F f") (auto simp: flag_ok_def split: bool.splits)
qed

lemma flags_timer:
  assumes "flags_ok N T F" "(h, f) \<in> T"
  shows "\<exists>b. F f = Some b \<and> timers_of T f = {h} \<and> nodes_of N f = (if b then {} else {h})"
proof -
  have "flag_ok (F f) (nodes_of N f) (timers_of T f)" "h \<in> timers_of T f"
    using assms by (simp_all add: flags_ok_def owner_in)
  then show ?thesis
    by (cases "F f") (auto simp: flag_ok_def split: bool.splits)
qed

lemma other_nodes: "N h = Some f \<Longrightarrow> g \<noteq> f \<Longrightarrow> nodes_of N g - {h} = nodes_of N g"
  "N h = None \<Longrightarrow> nodes_of N g - {h} = nodes_of N g"
  by (auto simp: nodes_of_def)

lemma flags_new:
  assumes "flags_ok N T F" "N h = None" "F f = None"
  shows "flags_ok (N(h := Some f)) (insert (h, f) T) (F(f := Some False))"
proof -
  have "flag_ok (F f) (nodes_of N f) (timers_of T f)"
    using assms(1) by (simp add: flags_ok_def)
  then have "nodes_of N f = {}" "timers_of T f = {}"
    by (simp_all add: assms(3))
  then show ?thesis
    using assms other_nodes(2) [of N h] by (simp add: flags_ok_def)
qed

lemma flags_drop:
  assumes "flags_ok N T F" "N h = Some f" "F f = Some b"
  shows "flags_ok (N(h := None)) T (F(f := if b then None else Some True))"
  using assms flags_node [OF assms(1,2)] other_nodes(1) [of N h f] by (simp add: flags_ok_def)

lemma flags_fire:
  assumes "flags_ok N T F" "(h, f) \<in> T" "F f = Some b"
  shows "flags_ok N (T - {(h, f)}) (F(f := if b then None else Some True))"
  using assms flags_timer [OF assms(1,2)] by (simp add: flags_ok_def)

section \<open>The invariant\<close>

definition node_flags :: "('s, 'n) registry \<Rightarrow> nat \<Rightarrow> nat option" where
  "node_flags r h = (case rg_nodes r h of None \<Rightarrow> None | Some (i, m) \<Rightarrow> nd_flag m)"

definition timer_flags :: "timer_data list \<Rightarrow> (nat \<times> nat) set" where
  "timer_flags ts = {(td_node t, the (td_flag t)) | t. t \<in> set ts}"

text \<open>A node with a flag; one that is not created yet waits for its timer, under a parent that is created.\<close>

definition node_ok :: "('s, 'n) registry \<Rightarrow> node_msg \<Rightarrow> bool" where
  "node_ok r m \<longleftrightarrow> (\<exists>f. nd_flag m = Some f \<and> (nd_created m \<or> rg_flags r f = Some False)) \<and>
     (if nd_created m then \<exists>b. nd_buf m = Some b \<and> b < length (rg_refs r)
      else \<exists>p i pm. nd_parent m = Some p \<and> rg_nodes r p = Some (i, pm) \<and> nd_created pm)"

definition reg_inv :: "('s, 'n) registry \<Rightarrow> bool" where
  "reg_inv r \<longleftrightarrow> (\<forall>i h. rg_ids r i = Some h \<longleftrightarrow> (\<exists>m. rg_nodes r h = Some (i, m))) \<and>
     (\<forall>h i m. rg_nodes r h = Some (i, m) \<longrightarrow> node_ok r m) \<and>
     flags_ok (node_flags r) (timer_flags (rg_timers r)) (rg_flags r) \<and>
     distinct (map td_flag (rg_timers r)) \<and> None \<notin> td_flag ` set (rg_timers r) \<and> rg_refs r \<noteq> []"

lemma reg_invD:
  assumes "reg_inv r"
  shows "rg_ids r i = Some h \<longleftrightarrow> (\<exists>m. rg_nodes r h = Some (i, m))" "rg_nodes r h = Some (i, m) \<Longrightarrow> node_ok r m"
    "flags_ok (node_flags r) (timer_flags (rg_timers r)) (rg_flags r)" "distinct (map td_flag (rg_timers r))"
    "None \<notin> td_flag ` set (rg_timers r)" "rg_refs r \<noteq> []"
  using assms unfolding reg_inv_def by blast+

lemma set_msg_sel [simp]:
  "rg_nodes (set_msg r h g) = (rg_nodes r)(h := map_option (\<lambda>(i, m). (i, g m)) (rg_nodes r h))"
  "rg_ids (set_msg r h g) = rg_ids r" "rg_flags (set_msg r h g) = rg_flags r" "rg_timers (set_msg r h g) = rg_timers r"
  "rg_refs (set_msg r h g) = rg_refs r" "rg_trace (set_msg r h g) = rg_trace r"
  by (simp_all add: set_msg_def)

lemma put_trace_sel [simp]:
  "rg_nodes (put_trace r es) = rg_nodes r" "rg_ids (put_trace r es) = rg_ids r" "rg_flags (put_trace r es) = rg_flags r"
  "rg_timers (put_trace r es) = rg_timers r" "rg_refs (put_trace r es) = rg_refs r" "rg_trace (put_trace r es) = rg_trace r @ es"
  by (simp_all add: put_trace_def)

lemma timer_flags_simps [simp]:
  "timer_flags [] = {}" "timer_flags (ts @ [t]) = insert (td_node t, the (td_flag t)) (timer_flags ts)"
  by (auto simp: timer_flags_def)

lemma timer_flags_in: "t \<in> set ts \<Longrightarrow> td_flag t = Some f \<Longrightarrow> (td_node t, f) \<in> timer_flags ts"
  by (force simp: timer_flags_def)

lemma timer_flags_remove:
  assumes "distinct (map td_flag ts)" "None \<notin> td_flag ` set ts" "t \<in> set ts"
  shows "timer_flags (remove1 t ts) = timer_flags ts - {(td_node t, the (td_flag t))}"
proof -
  have "distinct ts" "inj_on td_flag (set ts)"
    using assms(1) by (simp_all add: distinct_map)
  moreover have "u = t" if "u \<in> set ts" "the (td_flag u) = the (td_flag t)" for u
  proof -
    have "td_flag u = td_flag t"
      using assms(2,3) that by (metis image_eqI option.expand)
    then show ?thesis
      using \<open>inj_on td_flag (set ts)\<close> assms(3) that(1) by (simp add: inj_on_eq_iff)
  qed
  ultimately show ?thesis
    by (auto simp: timer_flags_def set_remove1_eq)
qed

text \<open>Changes that leave the flags alone.\<close>

lemma node_flags_trace [simp]: "node_flags (put_trace r es) = node_flags r"
  by (simp add: node_flags_def fun_eq_iff)

lemma reg_inv_trace [simp]: "reg_inv (put_trace r es) \<longleftrightarrow> reg_inv r"
  by (simp add: reg_inv_def node_ok_def)

lemma reg_inv_set:
  assumes r: "reg_inv r" and g: "\<forall>m. nd_flag (g m) = nd_flag m \<and> nd_created (g m) = nd_created m \<and> nd_buf (g m) = nd_buf m \<and> nd_parent (g m) = nd_parent m"
  shows "reg_inv (set_msg r h g)"
proof -
  have flags: "node_flags (set_msg r h g) = node_flags r"
    using g by (auto simp: node_flags_def fun_eq_iff split: option.splits)
  have ok: "node_ok (set_msg r h g) (g m) \<longleftrightarrow> node_ok r m" "node_ok (set_msg r h g) m \<longleftrightarrow> node_ok r m" for m
    using g by (auto simp: node_ok_def split: if_splits)
  show ?thesis
    unfolding reg_inv_def flags using ok reg_invD [OF r] by (auto simp: split: if_splits) 
qed


text \<open>A node comes, with its flag and its timer.\<close>

lemma reg_inv_new:
  assumes r: "reg_inv r" and new: "rg_ids r i = None" "rg_nodes r h = None" "rg_flags r f = None"
    and m: "nd_flag m = Some f" "if nd_created m then \<exists>b. nd_buf m = Some b \<and> b < length (rg_refs r)
      else \<exists>p i pm. nd_parent m = Some p \<and> rg_nodes r p = Some (i, pm) \<and> nd_created pm"
    and r': "rg_ids r' = (rg_ids r)(i := Some h)" "rg_nodes r' = (rg_nodes r)(h := Some (i, m))"
      "rg_flags r' = (rg_flags r)(f := Some False)" "rg_timers r' = rg_timers r @ [\<lparr>td_expire = e, td_node = h, td_flag = Some f\<rparr>]"
      "length (rg_refs r') = length (rg_refs r)"
  shows "reg_inv r'"
proof -
  note d = reg_invD [OF r]
  have flags: "node_flags r' = (node_flags r)(h := Some f)"
    using r'(2) m(1) by (auto simp: node_flags_def fun_eq_iff)
  have "node_flags r h = None"
    using new(2) by (simp add: node_flags_def)
  then have "flags_ok (node_flags r') (timer_flags (rg_timers r')) (rg_flags r')"
    using flags_new [OF d(3) _ new(3)] flags r'(3,4) by simp
  moreover have "node_ok r' m'" if "rg_nodes r h' = Some (i', m')" for h' i' m'
  proof -
    have "h' \<noteq> h"
      using that new(2) by auto
    have live: "rg_nodes r p = Some (j, pm) \<Longrightarrow> rg_nodes r' p = Some (j, pm)" for p j pm
      using new(2) r'(2) by auto
    have false: "rg_flags r g = Some False \<Longrightarrow> rg_flags r' g = Some False" for g
      using new(3) r'(3) by auto
    show ?thesis
      using d(2) [OF that] live false r'(5) unfolding node_ok_def by (auto split: if_splits)
  qed
  moreover have "node_ok r' m"
  proof -
    have live: "rg_nodes r p = Some (j, pm) \<Longrightarrow> rg_nodes r' p = Some (j, pm)" for p j pm
      using new(2) r'(2) by auto
    show ?thesis
      using m live r'(3,5) unfolding node_ok_def by (auto split: if_splits)
  qed
  moreover have "Some f \<notin> td_flag ` set (rg_timers r)"
  proof
    assume "Some f \<in> td_flag ` set (rg_timers r)"
    then obtain t where "t \<in> set (rg_timers r)" "td_flag t = Some f"
      by force
    then show False
      using flags_timer [OF d(3) timer_flags_in] new(3) by fastforce
  qed
  moreover have "rg_nodes r h' \<noteq> Some (i, m')" for h' m'
    using d(1) [of i h'] new(1) by auto
  ultimately show ?thesis
    using d(1,4,5,6) new(2) r' unfolding reg_inv_def by (auto split: if_splits)
qed

text \<open>A node goes, and its flag passes to its timer or is deleted.\<close>

lemma reg_inv_drop:
  assumes r: "reg_inv r" and h: "rg_nodes r h = Some (i, m)" "nd_flag m = Some f" "rg_flags r f = Some b"
    and orphans: "\<forall>h' i' m'. rg_nodes r h' = Some (i', m') \<longrightarrow> \<not> nd_created m' \<longrightarrow> nd_parent m' \<noteq> Some h"
    and r': "rg_ids r' = (rg_ids r)(i := None)" "rg_nodes r' = (rg_nodes r)(h := None)"
      "rg_flags r' = (rg_flags r)(f := if b then None else Some True)" "rg_timers r' = rg_timers r"
      "length (rg_refs r') = length (rg_refs r)"
  shows "reg_inv r'"
proof -
  note d = reg_invD [OF r]
  have f: "node_flags r h = Some f"
    using h by (simp add: node_flags_def)
  have "node_flags r' = (node_flags r)(h := None)"
    using r'(2) by (auto simp: node_flags_def fun_eq_iff)
  then have "flags_ok (node_flags r') (timer_flags (rg_timers r')) (rg_flags r')"
    using flags_drop [OF d(3) f h(3)] r'(3,4) by simp
  moreover have "node_ok r' m'" if n: "rg_nodes r h' = Some (i', m')" "h' \<noteq> h" for h' i' m'
  proof -
    obtain g where g: "nd_flag m' = Some g" "nd_created m' \<or> rg_flags r g = Some False"
      using d(2) [OF n(1)] by (auto simp: node_ok_def)
    have "g \<noteq> f"
    proof
      assume "g = f"
      then have "h' \<in> nodes_of (node_flags r) f"
        using n(1) g(1) by (simp add: owner_in node_flags_def)
      then show False
        using flags_node [OF d(3) f] n(2) by auto
    qed
    moreover have "nd_parent m' \<noteq> Some h" if "\<not> nd_created m'"
      using orphans n(1) that by blast
    ultimately show ?thesis
      using d(2) [OF n(1)] g r' unfolding node_ok_def by (auto split: if_splits)
  qed
  moreover have "h' = h" if "rg_nodes r h' = Some (i, m')" for h' m'
    using d(1) [of i h] d(1) [of i h'] h(1) that by auto
  moreover have "rg_ids r' j = Some h' \<longleftrightarrow> (\<exists>m. rg_nodes r' h' = Some (j, m))" for j h'
  proof (cases "j = i")
    case True
    then show ?thesis
      using calculation(3) r'(1,2) by auto
  next
    case False
    then show ?thesis
      using d(1) [of j h'] h(1) r'(1,2) by auto
  qed
  moreover have "rg_refs r' \<noteq> []"
    using d(6) r'(5) by auto
  ultimately show ?thesis
    using d(4,5) r'(2,4) unfolding reg_inv_def by simp
qed

text \<open>A node is created: another flag, and another timer.\<close>

lemma reg_inv_renew:
  assumes r: "reg_inv r" and h: "rg_nodes r h = Some (i, m)" "nd_flag m = Some g" "rg_flags r g = Some False" and f: "rg_flags r f = None"
    and m': "nd_flag m' = Some f" "nd_created m'" "nd_buf m' = Some b" "b < length (rg_refs r)"
    and r': "rg_ids r' = rg_ids r" "rg_nodes r' = (rg_nodes r)(h := Some (i, m'))"
      "rg_flags r' = (rg_flags r)(g := Some True, f := Some False)" "rg_timers r' = rg_timers r @ [\<lparr>td_expire = e, td_node = h, td_flag = Some f\<rparr>]"
      "length (rg_refs r') = length (rg_refs r)"
  shows "reg_inv r'"
proof -
  note d = reg_invD [OF r]
  have g: "node_flags r h = Some g"
    using h by (simp add: node_flags_def)
  have "node_flags r' = ((node_flags r)(h := None))(h := Some f)"
    using r'(2) m'(1) by (auto simp: node_flags_def fun_eq_iff)
  moreover have "flags_ok ((node_flags r)(h := None)) (timer_flags (rg_timers r)) ((rg_flags r)(g := Some True))"
    using flags_drop [OF d(3) g h(3)] by simp
  moreover have "f \<noteq> g"
    using f h(3) by auto
  ultimately have "flags_ok (node_flags r') (timer_flags (rg_timers r')) (rg_flags r')"
    using flags_new [of "(node_flags r)(h := None)" "timer_flags (rg_timers r)" "(rg_flags r)(g := Some True)" h f] f r'(3,4) by simp
  moreover have "node_ok r' k" if n: "rg_nodes r h' = Some (i', k)" "h' \<noteq> h" for h' i' k
  proof -
    obtain g' where g': "nd_flag k = Some g'" "nd_created k \<or> rg_flags r g' = Some False"
      using d(2) [OF n(1)] by (auto simp: node_ok_def)
    have "g' \<noteq> g"
    proof
      assume "g' = g"
      then have "h' \<in> nodes_of (node_flags r) g"
        using n(1) g'(1) by (simp add: owner_in node_flags_def)
      then show False
        using flags_node [OF d(3) g] n(2) by auto
    qed
    moreover have "rg_flags r' g' = Some False" if "\<not> nd_created k"
      using that g' calculation f r'(3) by auto
    moreover have "\<exists>j pm. rg_nodes r' p = Some (j, pm) \<and> nd_created pm" if "rg_nodes r p = Some (j, pm)" "nd_created pm" for p j pm
      using that r'(2) m'(2) by auto
    ultimately show ?thesis
      using d(2) [OF n(1)] g' r'(5) unfolding node_ok_def by (auto split: if_splits)
  qed
  moreover have "node_ok r' m'"
    using m' r'(5) by (simp add: node_ok_def)
  moreover have "Some f \<notin> td_flag ` set (rg_timers r)"
  proof
    assume "Some f \<in> td_flag ` set (rg_timers r)"
    then obtain t where "t \<in> set (rg_timers r)" "td_flag t = Some f"
      by force
    then show False
      using flags_timer [OF d(3) timer_flags_in] f by fastforce
  qed
  ultimately show ?thesis
    using d(1,4,5,6) h(1) r' unfolding reg_inv_def by (auto split: if_splits)
qed

section \<open>Each operation is safe\<close>

lemma least_ref_bound: "best < i \<Longrightarrow> least_ref i ns best k < i + length ns"
  by (induction i ns best k rule: least_ref.induct) auto

lemma get_buffer_some: "rg_refs r \<noteq> [] \<Longrightarrow> \<exists>b. get_buffer_iter r = Some b \<and> b < length (rg_refs r)"
  using least_ref_bound [of 0 1 "tl (rg_refs r)"] by (cases "rg_refs r") (auto simp: get_buffer_iter_def vget_def)

definition fresh :: "('s, 'n) registry \<Rightarrow> nat \<Rightarrow> nat \<Rightarrow> bool" where
  "fresh r h f \<longleftrightarrow> rg_nodes r h = None \<and> rg_flags r f = None"

definition waits :: "('s, 'n) registry \<Rightarrow> ('s, 'n) ident \<Rightarrow> bool" where
  "waits r i \<longleftrightarrow> (\<exists>h m. rg_nodes r h = Some (i, m) \<and> \<not> nd_created m)"

definition handles :: "('s, 'n) registry \<Rightarrow> nat \<Rightarrow> bool" where
  "handles r h \<longleftrightarrow> (\<exists>i m. rg_nodes r h = Some (i, m) \<and> nd_created m)"

definition awaited :: "('s, 'n) registry \<Rightarrow> nat \<Rightarrow> bool" where
  "awaited r p \<longleftrightarrow> (\<exists>h i m. rg_nodes r h = Some (i, m) \<and> \<not> nd_created m \<and> nd_parent m = Some p)"

lemma created_buf:
  assumes "reg_inv r" "rg_nodes r h = Some (i, m)" "nd_created m"
  shows "\<exists>b. nd_buf m = Some b \<and> b < length (rg_refs r)"
  using reg_invD(2) [OF assms(1,2)] assms(3) by (simp add: node_ok_def)

lemma safe_write_some:
  assumes "b < length (rg_refs r)"
  shows "safe_write r (Some b) e = Some (put_trace r [Written b e, Told e])"
  using assms by (simp add: safe_write_def vget_def)

lemma safe_error_some:
  assumes "b < length (rg_refs r)"
  shows "safe_error r (Some b) s nd err now = Some (put_trace r [Written b (Error_Logger s nd now err), Told (Error_Logger s nd now err)])"
  using assms by (simp add: safe_error_def safe_write_some)

lemma ids_new: "reg_inv r \<Longrightarrow> rg_ids r i = Some h \<Longrightarrow> \<exists>m. rg_nodes r h = Some (i, m)"
  using reg_invD(1) by blast

lemma create_head_safe:
  assumes r: "reg_inv r" "fresh r h f" "\<not> waits r (s, nd)"
  shows "\<exists>err h' r'. create_head_logger r s nd timeout br now h f = Some (err, h', r') \<and> reg_inv r'"
proof (cases "rg_ids r (s, nd)")
  case (Some g)
  then obtain m where m: "rg_nodes r g = Some ((s, nd), m)" "nd_created m"
    using ids_new [OF r(1)] r(3) by (fastforce simp: waits_def)
  then obtain b where "nd_buf m = Some b" "b < length (rg_refs r)"
    using created_buf [OF r(1)] by blast
  then show ?thesis
    using Some m r(1) by (simp add: create_head_logger_def try_emplace_def safe_error_some)
next
  case None
  obtain b where b: "get_buffer_iter r = Some b" "b < length (rg_refs r)"
    using get_buffer_some [OF reg_invD(6) [OF r(1)]] by blast
  have new: "rg_nodes r h = None" "rg_flags r f = None"
    using r(2) by (simp_all add: fresh_def)
  obtain t where t: "(if br then BranchHead else Head) = t"
    by blast
  let ?m = "(new_msg t None)\<lparr>nd_created := True, nd_buf := Some b, nd_init := now, nd_flag := Some f\<rparr>"
  have buf: "get_buffer_iter (r\<lparr>rg_ids := is, rg_nodes := ns\<rparr>) = Some b" for "is" ns
    using b(1) by (simp add: get_buffer_iter_def)
  show ?thesis
    unfolding create_head_logger_def t Let_def using None new b
    by (simp add: try_emplace_def buf msg_complete_def vget_def msg_create_def add_timer_def safe_write_some)
      (rule reg_inv_new [where m = ?m and e = "now + timeout", OF r(1) None new], simp_all add: new_msg_def fun_eq_iff)
qed

lemma put_trace_pred [simp]:
  "fresh (put_trace r es) h f \<longleftrightarrow> fresh r h f" "waits (put_trace r es) i \<longleftrightarrow> waits r i"
  by (simp_all add: fresh_def waits_def)

lemma register_impl_safe:
  assumes r: "reg_inv r" "fresh r h f" and p: "rg_nodes r p = Some (pid, pm)" "nd_created pm"
  shows "\<exists>err b e r'. register_impl r p t nd timeout now h f = Some (err, Some b, e, r') \<and> reg_inv r' \<and>
    b < length (rg_refs r') \<and> (\<exists>pm'. rg_nodes r' p = Some (pid, pm')) \<and> (err = Success \<longrightarrow> e \<noteq> None)"
proof -
  obtain b where b: "nd_buf pm = Some b" "b < length (rg_refs r)"
    using created_buf [OF r(1) p] by blast
  show ?thesis
  proof (cases "nd_subtype pm = Follow")
    case True
    then show ?thesis
      using p b r(1) by (simp add: register_impl_def)
  next
    case False
    obtain r1 where r1: "(if nd_subtype pm = Invalid then set_msg r p (\<lambda>m. m\<lparr>nd_subtype := t\<rparr>) else r) = r1"
      by blast
    obtain qm where qm: "rg_nodes r1 p = Some (pid, qm)" "nd_created qm" "nd_buf qm = Some b"
      using p b r1 by (auto split: if_splits)
    have inv: "reg_inv r1" "fresh r1 h f" "b < length (rg_refs r1)"
      using r b reg_inv_set [of r "\<lambda>m. m\<lparr>nd_subtype := t\<rparr>" p] r1 [symmetric] by (auto simp: fresh_def p)
    then have new: "rg_nodes r1 h = None" "rg_flags r1 f = None"
      by (simp_all add: fresh_def)
    have "h \<noteq> p"
      using new(1) qm(1) by auto
    let ?m = "(new_msg t (Some p))\<lparr>nd_flag := Some f\<rparr>"
    have add: "reg_inv r'" if "rg_ids r1 (fst pid, nd) = None" "rg_ids r' = (rg_ids r1)((fst pid, nd) := Some h)"
        "rg_nodes r' = (rg_nodes r1)(h := Some ((fst pid, nd), ?m))" "rg_flags r' = (rg_flags r1)(f := Some False)"
        "rg_timers r' = rg_timers r1 @ [\<lparr>td_expire = now + timeout, td_node = h, td_flag = Some f\<rparr>]"
        "rg_refs r' = rg_refs r1" for r'
      by (rule reg_inv_new [where m = ?m and e = "now + timeout", OF inv(1) that(1) new])
        (use qm that in \<open>auto simp: new_msg_def\<close>)
    show ?thesis
      unfolding register_impl_def Let_def
      using p(1) b(1) False qm inv new \<open>h \<noteq> p\<close>
      by (simp add: r1 try_emplace_def msg_create_def add_timer_def split: option.split)
        (intro impI add, simp_all add: fun_eq_iff)
  qed
qed

lemma register_safe:
  assumes "reg_inv r" "fresh r h f" "handles r p"
  shows "\<exists>err r'. register_logger r p t nd timeout now h f = Some (err, r') \<and> reg_inv r'"
proof -
  obtain pid pm where p: "rg_nodes r p = Some (pid, pm)" "nd_created pm"
    using assms(3) by (auto simp: handles_def)
  obtain err b e r' pm' where s: "register_impl r p t nd timeout now h f = Some (err, Some b, e, r')" "reg_inv r'"
      "b < length (rg_refs r')" "rg_nodes r' p = Some (pid, pm')" "err = Success \<Longrightarrow> e \<noteq> None"
    using register_impl_safe [OF assms(1,2) p] by blast
  then show ?thesis
    by (cases e) (auto simp: register_logger_def safe_error_some safe_write_some)
qed

lemma create_safe:
  assumes r: "reg_inv r" "fresh r h f"
  shows "\<exists>err h' r'. create_logger r s nd timeout now h f = Some (err, h', r') \<and> reg_inv r'"
proof (cases "rg_ids r (s, nd)")
  case None
  obtain b where b: "get_buffer_iter r = Some b" "b < length (rg_refs r)"
    using get_buffer_some [OF reg_invD(6) [OF r(1)]] by blast
  have "\<not> waits r (s, nd)"
    using None reg_invD(1) [OF r(1), of "(s, nd)"] by (auto simp: waits_def)
  then show ?thesis
    using None b create_head_safe [of "put_trace r es" h f s nd timeout False now for es] r
    by (simp add: create_logger_def safe_error_some)
next
  case (Some g)
  then obtain m where m: "rg_nodes r g = Some ((s, nd), m)"
    using ids_new [OF r(1)] by blast
  show ?thesis
  proof (cases "nd_created m")
    case True
    then obtain b where "nd_buf m = Some b" "b < length (rg_refs r)"
      using created_buf [OF r(1) m] by blast
    then show ?thesis
      using Some m True r(1) by (simp add: create_logger_def safe_error_some)
  next
    case False
    then obtain f0 p pid pm where p: "nd_flag m = Some f0" "rg_flags r f0 = Some False" "nd_parent m = Some p"
        "rg_nodes r p = Some (pid, pm)" "nd_created pm"
      using reg_invD(2) [OF r(1) m] by (auto simp: node_ok_def)
    obtain b where b: "nd_buf pm = Some b" "b < length (rg_refs r)"
      using created_buf [OF r(1) p(4,5)] by blast
    obtain r1 where r1: "(if nd_type m = Decision then set_msg r p (\<lambda>m. m\<lparr>nd_sub_decision := True\<rparr>) else r) = r1"
      by blast
    have "p \<noteq> g"
      using p(4,5) m False by auto
    have "reg_inv r1"
      using reg_inv_set [OF r(1), of "\<lambda>m. m\<lparr>nd_sub_decision := True\<rparr>" p] r(1) r1 by (auto split: if_splits)
    have n: "rg_nodes r1 g = Some ((s, nd), m)" "rg_flags r1 = rg_flags r" "rg_refs r1 = rg_refs r" "rg_flags r f = None"
      using r1 [symmetric] m \<open>p \<noteq> g\<close> r(2) by (auto simp: fresh_def)
    then have "f \<noteq> f0"
      using p(2) by auto
    let ?m = "m\<lparr>nd_created := True, nd_buf := Some b, nd_init := now, nd_flag := Some f\<rparr>"
    show ?thesis
      unfolding create_logger_def Let_def
      using Some m False p b n \<open>f \<noteq> f0\<close>
      by (simp add: r1 msg_complete_def vget_def msg_destroy_def msg_create_def add_timer_def safe_write_some)
        (rule reg_inv_renew [where m' = ?m and g = f0 and f = f and b = b and e = "now + timeout", OF \<open>reg_inv r1\<close> n(1)], simp_all add: fun_eq_iff)
  qed
qed

lemma destroy_safe:
  assumes r: "reg_inv r" "handles r h" "\<not> awaited r h"
  shows "\<exists>r'. destroy_logger r h now = Some r' \<and> reg_inv r'"
proof -
  obtain i m where m: "rg_nodes r h = Some (i, m)" "nd_created m"
    using r(2) by (auto simp: handles_def)
  obtain b where b: "nd_buf m = Some b" "b < length (rg_refs r)"
    using created_buf [OF r(1) m] by blast
  obtain f v where f: "nd_flag m = Some f" "rg_flags r f = Some v"
  proof -
    obtain f where "nd_flag m = Some f"
      using reg_invD(2) [OF r(1) m(1)] by (auto simp: node_ok_def)
    moreover have "node_flags r h = nd_flag m"
      using m by (simp add: node_flags_def)
    ultimately show ?thesis
      using flags_node [OF reg_invD(3) [OF r(1)]] that by force
  qed
  have "rg_ids r i = Some h"
    using reg_invD(1) [OF r(1)] m by blast
  then show ?thesis
    using m b f
    by (simp add: destroy_logger_def msg_shutdown_def vget_def msg_destroy_def erase_node_def safe_write_some Let_def)
      (intro conjI impI; rule reg_inv_drop [where f = f and b = v, OF r(1) m(1)]; use r(3) in \<open>auto simp: fun_eq_iff awaited_def\<close>)
qed

section \<open>Timers that are due\<close>

lemma reg_inv_fire:
  assumes r: "reg_inv r" and t: "t \<in> set (rg_timers r)" "td_flag t = Some f" "rg_flags r f = Some b"
    and live: "\<forall>i m. \<not> b \<longrightarrow> rg_nodes r (td_node t) = Some (i, m) \<longrightarrow> nd_created m"
    and r': "rg_ids r' = rg_ids r" "rg_nodes r' = rg_nodes r" "rg_flags r' = (rg_flags r)(f := if b then None else Some True)"
      "rg_timers r' = remove1 t (rg_timers r)" "rg_refs r' = rg_refs r"
  shows "reg_inv r'"
proof -
  note d = reg_invD [OF r]
  have n: "node_flags r' = node_flags r"
    using r'(2) by (simp add: node_flags_def fun_eq_iff)
  have tf: "timer_flags (rg_timers r') = timer_flags (rg_timers r) - {(td_node t, f)}"
    using timer_flags_remove [OF d(4,5) t(1)] t(2) r'(4) by simp
  have flags: "flags_ok (node_flags r') (timer_flags (rg_timers r')) (rg_flags r')"
    using flags_fire [OF d(3) timer_flags_in [OF t(1,2)] t(3)] r'(3) by (simp add: tf n)
  have ok: "node_ok r' m" if m: "rg_nodes r h = Some (i, m)" for h i m
  proof -
    obtain g where g: "nd_flag m = Some g" "nd_created m \<or> rg_flags r g = Some False"
      using d(2) [OF m] by (auto simp: node_ok_def)
    have "nd_created m \<or> g \<noteq> f"
    proof (rule ccontr)
      assume "\<not> (nd_created m \<or> g \<noteq> f)"
      then have "h \<in> nodes_of (node_flags r) f" "\<not> b" "\<not> nd_created m"
        using m g t(3) by (simp_all add: owner_in node_flags_def)
      then show False
        using flags_timer [OF d(3) timer_flags_in [OF t(1,2)]] t(3) live m by (cases i) auto
    qed
    then show ?thesis
      using d(2) [OF m] g r' unfolding node_ok_def by (auto split: if_splits)
  qed
  have "distinct (map td_flag (rg_timers r'))" "None \<notin> td_flag ` set (rg_timers r')"
    using d(4,5) r'(4) set_remove1_subset [of t "rg_timers r"] by (auto simp: distinct_map distinct_remove1 intro: inj_on_subset)
  then show ?thesis
    using d(1,6) ok flags r'(1,2,5) unfolding reg_inv_def by simp
qed

text \<open>What a timer that is due reports, and the nodes that wait for one of the timers in vain.\<close>

definition reports :: "bool \<Rightarrow> ('s, 'n) registry \<Rightarrow> timer_data \<Rightarrow> ('s, 'n) trace list" where
  "reports center r t = (case (Option.bind (td_flag t) (rg_flags r), rg_nodes r (td_node t)) of
       (Some False, Some (i, m)) \<Rightarrow>
         if nd_created m then timeout_trace center i (td_expire t) EndTimeOut
         else if nd_type m \<noteq> Decision then timeout_trace center i (td_expire t) CreateTimeOut
         else []
     | _ \<Rightarrow> [])"

definition in_vain :: "('s, 'n) registry \<Rightarrow> timer_data set \<Rightarrow> nat set" where
  "in_vain r ts = {h. \<exists>i m. rg_nodes r h = Some (i, m) \<and> \<not> nd_created m \<and> nd_flag m \<in> td_flag ` ts}"

lemma restrict_map_UNIV: "g |` UNIV = g"
  by (simp add: restrict_map_def)

lemma timer_step:
  assumes r: "reg_inv r" and t: "t \<in> set (rg_timers r)" "td_flag t = Some f"
  shows "\<exists>r1. timer_fires center t r = Some r1 \<and> reg_inv (r1\<lparr>rg_timers := remove1 t (rg_timers r)\<rparr>) \<and>
     rg_trace r1 = rg_trace r @ reports center r t \<and> rg_nodes r1 = rg_nodes r |` (- in_vain r {t}) \<and>
     (\<forall>g. g \<noteq> f \<longrightarrow> rg_flags r1 g = rg_flags r g)"
proof -
  note d = reg_invD [OF r]
  obtain b where b: "rg_flags r f = Some b" "nodes_of (node_flags r) f = (if b then {} else {td_node t})"
    using flags_timer [OF d(3) timer_flags_in [OF t]] by blast
  have vain: "h \<in> in_vain r {t} \<longleftrightarrow> \<not> b \<and> h = td_node t \<and> (\<exists>i m. rg_nodes r h = Some (i, m) \<and> \<not> nd_created m)" for h
  proof -
    have "h \<in> nodes_of (node_flags r) f \<longleftrightarrow> (\<exists>i m. rg_nodes r h = Some (i, m) \<and> nd_flag m = Some f)"
      by (auto simp: owner_in node_flags_def split: option.splits)
    then show ?thesis
      using b(2) t(2) by (auto simp: in_vain_def split: if_splits)
  qed
  show ?thesis
  proof (cases b)
    case True
    have "reg_inv (r\<lparr>rg_flags := (rg_flags r)(f := None), rg_timers := remove1 t (rg_timers r)\<rparr>)"
      by (rule reg_inv_fire [OF r t b(1)]) (simp_all add: True)
    moreover have "in_vain r {t} = {}"
      using vain True by auto
    ultimately show ?thesis
      using t b(1) True by (simp add: timer_fires_def timer_check_timeout_def reports_def restrict_map_UNIV)
  next
    case False
    then have "td_node t \<in> nodes_of (node_flags r) f"
      using b(2) by simp
    then obtain i m where m: "rg_nodes r (td_node t) = Some (i, m)" "nd_flag m = Some f"
      by (auto simp: owner_in node_flags_def split: option.splits)
    show ?thesis
    proof (cases "nd_created m")
      case True
      have "reg_inv r'" if "rg_ids r' = rg_ids r" "rg_nodes r' = rg_nodes r" "rg_flags r' = (rg_flags r)(f := Some True)"
          "rg_timers r' = remove1 t (rg_timers r)" "rg_refs r' = rg_refs r" for r'
        by (rule reg_inv_fire [OF r t b(1)]) (simp_all add: False m True that)
      moreover have "in_vain r {t} = {}"
        using vain m True by auto
      ultimately show ?thesis
        using t b(1) False m True
        by (simp add: timer_fires_def timer_check_timeout_def reports_def put_trace_def restrict_map_UNIV)
    next
      case c: False
      define r0 where "r0 = r\<lparr>rg_ids := (rg_ids r)(i := None), rg_nodes := (rg_nodes r)(td_node t := None),
        rg_flags := (rg_flags r)(f := Some True)\<rparr>"
      have "nd_parent m' \<noteq> Some (td_node t)" if n: "rg_nodes r h' = Some (i', m')" "\<not> nd_created m'" for h' i' m'
        using d(2) [OF n(1)] n(2) m(1) c by (auto simp: node_ok_def)
      then have r0: "reg_inv r0"
        by (intro reg_inv_drop [OF r m b(1)]) (auto simp: r0_def False)
      have inv: "reg_inv r'" if "rg_ids r' = (rg_ids r)(i := None)" "rg_nodes r' = (rg_nodes r)(td_node t := None)"
          "rg_flags r' = (rg_flags r)(f := None)" "rg_timers r' = remove1 t (rg_timers r)" "rg_refs r' = rg_refs r" for r'
        by (rule reg_inv_fire [OF r0, of t f True]) (use t that in \<open>simp_all add: r0_def\<close>)
      have "- in_vain r {t} = - {td_node t}"
        using vain m c False by auto
      then have nodes: "rg_nodes r |` (- in_vain r {t}) = (rg_nodes r)(td_node t := None)"
        by (auto simp: restrict_map_def fun_eq_iff)
      show ?thesis
        unfolding nodes using t b(1) False m c
        by (simp add: timer_fires_def timer_check_timeout_def reports_def msg_destroy_def erase_node_def Let_def)
          (intro conjI impI inv; simp add: fun_eq_iff)
    qed
  qed
qed

lemma timer_top_None: "timer_top ts = None \<longleftrightarrow> ts = []"
  by (cases ts) (auto split: option.splits)

lemma timer_top_least:
  "timer_top ts = Some t \<Longrightarrow> u \<in> set ts \<Longrightarrow> td_expire t \<le> td_expire u"
proof (induction ts arbitrary: t u)
  case (Cons a ts)
  then show ?case
    by (cases "timer_top ts") (fastforce simp: timer_top_None split: if_splits)+
qed simp

lemma reports_cong:
  assumes r: "reg_inv r" and u: "u \<in> set (rg_timers r)" "td_flag u = Some g"
    and same: "rg_flags r' g = rg_flags r g" "rg_nodes r' = rg_nodes r |` (- in_vain r {t})" "td_flag t \<noteq> td_flag u"
  shows "reports center r' u = reports center r u"
proof (cases "rg_flags r g = Some False")
  case True
  then have "nodes_of (node_flags r) g = {td_node u}"
    using flags_timer [OF reg_invD(3) [OF r] timer_flags_in [OF u]] by auto
  then have "td_node u \<in> nodes_of (node_flags r) g"
    by simp
  then have "td_node u \<notin> in_vain r {t}"
    using same(3) u(2) by (auto simp: owner_in node_flags_def in_vain_def split: option.splits)
  then show ?thesis
    using u(2) same(1,2) by (simp add: reports_def)
next
  case False
  then show ?thesis
    using u(2) same(1) by (simp add: reports_def split: option.split bool.split)
qed

theorem check_timeout_reports:
  assumes "reg_inv r"
  shows "\<exists>r' ts. check_timeout center now r = Some r' \<and> reg_inv r' \<and>
     rg_timers r' = filter (\<lambda>t. now < td_expire t) (rg_timers r) \<and>
     mset ts = mset (filter (\<lambda>t. td_expire t \<le> now) (rg_timers r)) \<and> sorted (map td_expire ts) \<and>
     rg_trace r' = rg_trace r @ concat (map (reports center r) ts) \<and>
     rg_nodes r' = rg_nodes r |` (- in_vain r (set ts))"
  using assms
proof (induction "length (rg_timers r)" arbitrary: r rule: less_induct)
  case less
  note d = reg_invD [OF less.prems]
  have idle: ?case if "\<forall>t \<in> set (rg_timers r). now < td_expire t" "check_timeout center now r = Some r"
    using that less.prems
    by (intro exI [of _ r] exI [of _ "[]"]) (simp add: in_vain_def restrict_map_UNIV filter_empty_conv not_le)
  show ?case
  proof (cases "timer_top (rg_timers r)")
    case None
    then show ?thesis
      by (intro idle) (simp_all add: timer_top_None check_timeout.simps [of center now r])
  next
    case (Some t)
    then have t: "t \<in> set (rg_timers r)" "\<forall>u \<in> set (rg_timers r). td_expire t \<le> td_expire u"
      using timer_top_in timer_top_least by blast+
    show ?thesis
    proof (cases "td_expire t \<le> now")
      case False
      then show ?thesis
        using t Some by (intro idle) (force, simp add: check_timeout.simps [of center now r])
    next
      case True
      obtain f where f: "td_flag t = Some f"
        using d(5) t(1) by force
      obtain r1 where r1: "timer_fires center t r = Some r1" "reg_inv (r1\<lparr>rg_timers := remove1 t (rg_timers r)\<rparr>)"
          "rg_trace r1 = rg_trace r @ reports center r t" "rg_nodes r1 = rg_nodes r |` (- in_vain r {t})"
          "\<forall>g. g \<noteq> f \<longrightarrow> rg_flags r1 g = rg_flags r g"
        using timer_step [OF less.prems t(1) f] by blast
      let ?r = "r1\<lparr>rg_timers := remove1 t (rg_timers r)\<rparr>"
      have dist: "distinct (rg_timers r)"
        using d(4) by (simp add: distinct_map)
      have "length (rg_timers ?r) < length (rg_timers r)"
        using t(1) by (simp add: length_remove1) (metis Suc_pred lessI length_pos_if_in_set)
      then obtain r' ts where r': "check_timeout center now ?r = Some r'" "reg_inv r'"
          "rg_timers r' = filter (\<lambda>t. now < td_expire t) (remove1 t (rg_timers r))"
          "mset ts = mset (filter (\<lambda>t. td_expire t \<le> now) (remove1 t (rg_timers r)))" "sorted (map td_expire ts)"
          "rg_trace r' = rg_trace r1 @ concat (map (reports center ?r) ts)"
          "rg_nodes r' = rg_nodes r1 |` (- in_vain ?r (set ts))"
        using less.hyps [of ?r] r1(2) by auto
      have sub: "u \<in> set (rg_timers r) \<and> u \<noteq> t" if "u \<in> set ts" for u
      proof -
        have "u \<in> set (filter (\<lambda>t. td_expire t \<le> now) (remove1 t (rg_timers r)))"
          using that mset_eq_setD [OF r'(4)] by simp
        then show ?thesis
          using dist by (simp add: set_remove1_eq)
      qed
      have "mset (t # ts) = mset (filter (\<lambda>t. td_expire t \<le> now) (rg_timers r))"
        using t(1) True r'(4) by (simp add: mset_filter)
      moreover have "sorted (map td_expire (t # ts))"
        using r'(5) sub t(2) by simp
      moreover have "reports center ?r u = reports center r u" if u: "u \<in> set ts" for u
      proof -
        obtain g where "td_flag u = Some g"
          using d(5) sub [OF u] by force
        moreover have "td_flag t \<noteq> td_flag u"
          using d(4) sub [OF u] t(1) by (auto simp: distinct_map dest: inj_onD)
        ultimately show ?thesis
          using r1(4,5) f sub [OF u] by (intro reports_cong [OF less.prems]) auto
      qed
      then have "map (reports center ?r) ts = map (reports center r) ts"
        by simp
      moreover have "rg_nodes r' = rg_nodes r |` (- in_vain r (set (t # ts)))"
        unfolding r'(7) r1(4) by (auto simp: in_vain_def restrict_map_def fun_eq_iff r1(4))
      moreover have "rg_timers r' = filter (\<lambda>t. now < td_expire t) (rg_timers r)"
        using r'(3) dist True by (auto simp: remove1_eq_filter intro: filter_cong)
      moreover have "check_timeout center now r = Some r'"
        using Some True r1(1) r'(1) by (simp add: check_timeout.simps [of center now r])
      ultimately show ?thesis
        using r'(2,6) r1(3) by (intro exI [of _ r'] exI [of _ "t # ts"]) (simp del: map_eq_conv)
    qed
  qed
qed

section \<open>The server as a transition system\<close>

text \<open>
  A request of the public interface. \<open>allowed\<close> is what the callers must see to: a logger that registers a child or
  ends exists, it does not end while a registered child was not created yet, and a head is not made with the name of
  such a child.
\<close>

datatype ('s, 'n) request =
  Register nat node_type 'n int
| Create_Head 's 'n int bool
| Create 's 'n int
| End nat
| Tick bool

fun allowed :: "('s, 'n) registry \<Rightarrow> ('s, 'n) request \<Rightarrow> bool" where
  "allowed r (Register p t nd timeout) \<longleftrightarrow> handles r p"
| "allowed r (Create_Head s nd timeout br) \<longleftrightarrow> \<not> waits r (s, nd)"
| "allowed r (Create s nd timeout) \<longleftrightarrow> True"
| "allowed r (End h) \<longleftrightarrow> handles r h \<and> \<not> awaited r h"
| "allowed r (Tick center) \<longleftrightarrow> True"

fun serve :: "('s, 'n) registry \<Rightarrow> int \<Rightarrow> nat \<Rightarrow> nat \<Rightarrow> ('s, 'n) request \<Rightarrow> ('s, 'n) registry option" where
  "serve r now h f (Register p t nd timeout) = map_option snd (register_logger r p t nd timeout now h f)"
| "serve r now h f (Create_Head s nd timeout br) = map_option (snd \<circ> snd) (create_head_logger r s nd timeout br now h f)"
| "serve r now h f (Create s nd timeout) = map_option (snd \<circ> snd) (create_logger r s nd timeout now h f)"
| "serve r now h f (End g) = destroy_logger r g now"
| "serve r now h f (Tick center) = check_timeout center now r"

inductive serves :: "nat \<Rightarrow> ('s, 'n) registry \<Rightarrow> bool" for n where
  start: "serves n (new_registry n)"
| request: "serves n r \<Longrightarrow> fresh r h f \<Longrightarrow> allowed r q \<Longrightarrow> serve r now h f q = Some r' \<Longrightarrow> serves n r'"

lemma serve_safe:
  assumes "reg_inv r" "fresh r h f" "allowed r q"
  shows "\<exists>r'. serve r now h f q = Some r' \<and> reg_inv r'"
  using assms
proof (cases q)
  case (Register p t nd timeout)
  then show ?thesis
    using register_safe [of r h f p t nd timeout now] assms by auto
next
  case (Create_Head s nd timeout br)
  then show ?thesis
    using create_head_safe [of r h f s nd timeout br now] assms by auto
next
  case (Create s nd timeout)
  then show ?thesis
    using create_safe [of r h f s nd timeout now] assms by auto
next
  case (End g)
  then show ?thesis
    using destroy_safe [of r g now] assms by auto
next
  case (Tick center)
  then show ?thesis
    using check_timeout_reports [OF assms(1), of center now] by auto
qed

lemma reg_inv_start: "reg_inv (new_registry n)"
  by (auto simp: reg_inv_def new_registry_def node_flags_def flags_ok_def nodes_of_def timers_of_def)

lemma serves_inv: "serves n r \<Longrightarrow> reg_inv r"
proof (induction rule: serves.induct)
  case (request r h f q now r')
  then show ?case
    using serve_safe [of r h f q now] by auto
qed (rule reg_inv_start)

text \<open>
  Property C10. The server is memory safe. In every state that requests lead to, another request that its callers
  may make returns: it uses no node that is erased, no flag that was deleted, deletes none twice, and no buffer that a
  node was not given. In every such state each flag has an owner, so that none leaks: a node and its timer as long
  as it is false, and then just one of them.
\<close>

theorem link_server_safe:
  assumes "serves n r" "fresh r h f" "allowed r q"
  shows "(\<exists>r'. serve r now h f q = Some r') \<and> flags_ok (node_flags r) (timer_flags (rg_timers r)) (rg_flags r)"
  using serve_safe [OF serves_inv [OF assms(1)] assms(2,3)] reg_invD(3) [OF serves_inv [OF assms(1)]] by blast

text \<open>A server with two buffers: a head, a child that is registered, a second head, and the child is created.\<close>

lemmas run_server = new_registry_def create_head_logger_def try_emplace_def get_buffer_iter_def vget_def msg_complete_def
  msg_create_def msg_destroy_def msg_shutdown_def erase_node_def add_timer_def safe_write_def safe_error_def put_trace_def
  set_msg_def new_msg_def register_logger_def register_impl_def create_logger_def destroy_logger_def Let_def fresh_def
  less_eq_node_type_def

definition server1 :: "(nat, nat) registry option" where
  "server1 = serve (new_registry 2) 10 0 0 (Create_Head 7 1 100 False)"

definition server2 :: "(nat, nat) registry option" where
  "server2 = do { r \<leftarrow> server1; serve r 20 1 1 (Register 0 Fork 2 50) }"

lemma server2_serves: "\<exists>r. server2 = Some r \<and> serves 2 r \<and> fresh r 2 2 \<and> handles r 0"
proof -
  obtain r1 where r1: "server1 = Some r1"
    by (simp add: server1_def run_server)
  have "serves 2 r1"
    by (rule serves.request [OF serves.start, of _ 0 0 "Create_Head 7 1 100 False" 10])
      (use r1 in \<open>auto simp: server1_def run_server waits_def\<close>)
  obtain r2 where r2: "serve r1 20 1 1 (Register 0 Fork 2 50) = Some r2" "fresh r2 2 2" "fresh r1 1 1" "handles r1 0" "handles r2 0"
    using r1 by (auto simp: server1_def run_server handles_def)
  then have "serves 2 r2"
    by (intro serves.request [OF \<open>serves 2 r1\<close>, of 1 1 "Register 0 Fork 2 50" 20]) auto
  moreover have "server2 = Some r2"
    unfolding server2_def r1 using r2(1) by (simp only: Option.bind.bind_lunit)
  ultimately show ?thesis
    using r2 by blast
qed

lemma link_server_safe_witness: "\<exists>r r'. server2 = Some r \<and> serve r 30 2 2 (Create 7 2 100) = Some r'"
proof -
  obtain r where r: "server2 = Some r" "serves 2 r" "fresh r 2 2"
    using server2_serves by blast
  then show ?thesis
    using link_server_safe [of 2 r 2 2 "Create 7 2 100" 30] by auto
qed

text \<open>
  The two demands on the callers are needed, and \<open>LinkLogger\<close> makes neither sure. A parent that ends leaves its
  child with an iterator to a node that is erased, which the creation of the child uses; and a head with the name of
  a registered child uses the child's \<open>buf_iter\<close>, which nothing has set yet.
\<close>

lemma parent_ends_first: "do { r \<leftarrow> server2; r \<leftarrow> serve r 30 2 2 (End 0); Some (serve r 40 2 2 (Create 7 2 100)) } = Some None"
  by (simp add: server2_def server1_def run_server)

lemma head_of_registered: "do { r \<leftarrow> server2; Some (serve r 30 2 2 (Create_Head 7 2 100 True)) } = Some None"
  by (simp add: server2_def server1_def run_server)



text \<open>What the child that is never created leaves behind: a report to the center and to the handler.\<close>

lemma child_in_vain:
  "do { r \<leftarrow> server2; r' \<leftarrow> check_timeout True 75 r; Some (drop (length (rg_trace r)) (rg_trace r'), rg_ids r' (7, 2), rg_ids r' (7, 1)) } =
   Some ([Queued (Error_Logger 7 2 70 CreateTimeOut), Told (Error_Logger 7 2 70 CreateTimeOut)], None, Some 0)"
  by (simp add: server2_def server1_def run_server check_timeout.simps timer_fires_def timer_check_timeout_def timeout_trace_def)

text \<open>The verdict on a child, from the parent's children so far.\<close>

definition verdict :: "('s, 'n) registry \<Rightarrow> 's \<Rightarrow> node_msg \<Rightarrow> node_type \<Rightarrow> 'n \<Rightarrow> link_error" where
  "verdict r s pm t nd =
     (if nd_subtype pm = Follow then ExtraFollow
      else if nd_subtype pm \<noteq> Invalid \<and> nd_subtype pm \<noteq> t then WrongType
      else if t = Decision \<and> nd_sub_decision pm then ExtraDecision
      else if t \<le> Decision \<and> rg_ids r (s, nd) \<noteq> None then ConflictingNode
      else Success)"



end
