(* ===== verification/LinkCodec.thy ===== *)
theory LinkCodec
  imports RingBuffer
begin

unbundle bit_operations_syntax

text \<open>
  The messages of the link log as bytes (\<open>LogSystem/linkLog/LinkLogOperation.hpp\<close>), the encoder
  (\<open>LinkLogEncoder\<close>) and the replay of a file of messages (\<open>LinkLogCenter::replay_history\<close>).

  A class of messages is its \<open>object\<close>, a block of bytes that the constructor fills and the accessors read at
  fixed offsets; in memory and in the file the byte of its \<open>OperationType\<close> comes first. The machine is
  little-endian. A \<open>Mark\<close> is its bytes. \<open>emergency_exit\<close> is \<open>None\<close>. The file is its bytes; how many of them each
  \<open>read\<close> delivers, and what the new buffer holds, are arguments.
\<close>

type_synonym mark = "byte list"

type_synonym time = "64 word"

section \<open>Integers in memory\<close>

definition word_bytes :: "nat \<Rightarrow> 'a :: len word \<Rightarrow> byte list" where
  "word_bytes k w = map (\<lambda>i. ucast (drop_bit (8 * i) w)) [0..<k]"

fun bytes_word :: "byte list \<Rightarrow> 'a :: len word" where
  "bytes_word [] = 0"
| "bytes_word (b # bs) = push_bit 8 (bytes_word bs) OR ucast b"

section \<open>Identifiers\<close>

definition mark_size :: nat where
  "mark_size = 8"

definition make_mark :: "byte list \<Rightarrow> mark option" where
  "make_mark d = do { check (length d \<le> mark_size); mem_put (replicate mark_size 0) 0 d }"

definition mark_valid :: "mark \<Rightarrow> bool" where
  "mark_valid k \<longleftrightarrow> list_ex (\<lambda>b. b \<noteq> 0) k"

text \<open>\<open>memcmp\<close> on blocks of one size.\<close>

fun mark_less :: "byte list \<Rightarrow> byte list \<Rightarrow> bool" where
  "mark_less (a # as) (b # bs) \<longleftrightarrow> a < b \<or> a = b \<and> mark_less as bs"
| "mark_less _ _ \<longleftrightarrow> False"

fun ident_less :: "mark \<times> mark \<Rightarrow> mark \<times> mark \<Rightarrow> bool" where
  "ident_less (s, n) (s', n') \<longleftrightarrow> (if s \<noteq> s' then mark_less s s' else mark_less n n')"

section \<open>The classes of messages\<close>

text \<open>\<open>Register_Logger\<close>.\<close>

definition register_size :: nat where
  "register_size = 1 + 8 + 8 + 8 + 8 + 8 + 8"

definition register_object :: "byte \<Rightarrow> mark \<Rightarrow> mark \<Rightarrow> mark \<Rightarrow> time \<Rightarrow> time \<Rightarrow> time \<Rightarrow> byte list option" where
  "register_object ty service nd parent_node tm parent_init expire = do {
     obj \<leftarrow> mem_put (replicate register_size 0) 0 [ty];
     obj \<leftarrow> mem_put obj 1 service;
     obj \<leftarrow> mem_put obj (1 + 8) nd;
     obj \<leftarrow> mem_put obj (1 + 8 + 8) parent_node;
     obj \<leftarrow> mem_put obj (1 + 8 + 8 + 8) (word_bytes 8 tm);
     obj \<leftarrow> mem_put obj (1 + 8 + 8 + 8 + 8) (word_bytes 8 parent_init);
     mem_put obj (1 + 8 + 8 + 8 + 8 + 8) (word_bytes 8 expire)
   }"

definition get_byte :: "byte list \<Rightarrow> nat \<Rightarrow> byte option" where
  "get_byte obj off = map_option hd (mem_get obj off 1)"

definition get_time :: "byte list \<Rightarrow> nat \<Rightarrow> time option" where
  "get_time obj off = map_option bytes_word (mem_get obj off 8)"

definition register_type :: "byte list \<Rightarrow> byte option" where
  "register_type obj = get_byte obj 0"

definition register_service :: "byte list \<Rightarrow> mark option" where
  "register_service obj = mem_get obj 1 8"

definition register_node :: "byte list \<Rightarrow> mark option" where
  "register_node obj = mem_get obj (1 + 8) 8"

definition register_parent_node :: "byte list \<Rightarrow> mark option" where
  "register_parent_node obj = mem_get obj (1 + 8 + 8) 8"

definition register_time :: "byte list \<Rightarrow> time option" where
  "register_time obj = get_time obj (1 + 8 + 8 + 8)"

definition register_parent_init :: "byte list \<Rightarrow> time option" where
  "register_parent_init obj = get_time obj (1 + 8 + 8 + 8 + 8)"

definition register_expire :: "byte list \<Rightarrow> time option" where
  "register_expire obj = get_time obj (1 + 8 + 8 + 8 + 8 + 8)"

text \<open>\<open>Create_Logger\<close>.\<close>

definition create_size :: nat where
  "create_size = 1 + 8 + 8 + 8 + 8 + 8"

definition create_object :: "byte \<Rightarrow> mark \<Rightarrow> mark \<Rightarrow> mark \<Rightarrow> time \<Rightarrow> time \<Rightarrow> byte list option" where
  "create_object ty service nd parent_node init parent_init = do {
     obj \<leftarrow> mem_put (replicate create_size 0) 0 [ty];
     obj \<leftarrow> mem_put obj 1 service;
     obj \<leftarrow> mem_put obj (1 + 8) nd;
     obj \<leftarrow> mem_put obj (1 + 8 + 8) parent_node;
     obj \<leftarrow> mem_put obj (1 + 8 + 8 + 8) (word_bytes 8 init);
     mem_put obj (1 + 8 + 8 + 8 + 8) (word_bytes 8 parent_init)
   }"

definition create_type :: "byte list \<Rightarrow> byte option" where
  "create_type obj = get_byte obj 0"

definition create_service :: "byte list \<Rightarrow> mark option" where
  "create_service obj = mem_get obj 1 8"

definition create_node :: "byte list \<Rightarrow> mark option" where
  "create_node obj = mem_get obj (1 + 8) 8"

definition create_parent_node :: "byte list \<Rightarrow> mark option" where
  "create_parent_node obj = mem_get obj (1 + 8 + 8) 8"

definition create_init_time :: "byte list \<Rightarrow> time option" where
  "create_init_time obj = get_time obj (1 + 8 + 8 + 8)"

definition create_parent_init :: "byte list \<Rightarrow> time option" where
  "create_parent_init obj = get_time obj (1 + 8 + 8 + 8 + 8)"

text \<open>\<open>End_Logger\<close>.\<close>

definition end_size :: nat where
  "end_size = 8 + 8 + 8 + 8"

definition end_object :: "mark \<Rightarrow> mark \<Rightarrow> time \<Rightarrow> time \<Rightarrow> byte list option" where
  "end_object service nd init end_tm = do {
     obj \<leftarrow> mem_put (replicate end_size 0) 0 service;
     obj \<leftarrow> mem_put obj 8 nd;
     obj \<leftarrow> mem_put obj (8 + 8) (word_bytes 8 init);
     mem_put obj (8 + 8 + 8) (word_bytes 8 end_tm)
   }"

definition end_service :: "byte list \<Rightarrow> mark option" where
  "end_service obj = mem_get obj 0 8"

definition end_node :: "byte list \<Rightarrow> mark option" where
  "end_node obj = mem_get obj 8 8"

definition end_init_time :: "byte list \<Rightarrow> time option" where
  "end_init_time obj = get_time obj (8 + 8)"

definition end_end_time :: "byte list \<Rightarrow> time option" where
  "end_end_time obj = get_time obj (8 + 8 + 8)"

text \<open>\<open>Link_Log_Header\<close>; the constructor leaves the two fields of the latest log zero.\<close>

definition header_size :: nat where
  "header_size = 2 + 8 + 4 + 24 + 8 + 1"

definition header_object :: "16 word \<Rightarrow> mark \<Rightarrow> time \<Rightarrow> mark \<Rightarrow> time \<Rightarrow> byte \<Rightarrow> byte list option" where
  "header_object log_size service init nd tm rank = do {
     obj \<leftarrow> mem_put (replicate header_size 0) 0 (word_bytes 2 log_size);
     obj \<leftarrow> mem_put obj (2 + 8 + 4) service;
     obj \<leftarrow> mem_put obj (2 + 8 + 4 + 8) (word_bytes 8 init);
     obj \<leftarrow> mem_put obj (2 + 8 + 4 + 8 + 8) nd;
     obj \<leftarrow> mem_put obj (2 + 8 + 4 + 8 + 8 + 8) (word_bytes 8 tm);
     mem_put obj (2 + 8 + 4 + 8 + 8 + 8 + 8) [rank]
   }"

definition header_log_size :: "byte list \<Rightarrow> 16 word option" where
  "header_log_size obj = map_option bytes_word (mem_get obj 0 2)"

definition header_latest_file :: "byte list \<Rightarrow> time option" where
  "header_latest_file obj = get_time obj 2"

definition header_latest_index :: "byte list \<Rightarrow> 32 word option" where
  "header_latest_index obj = map_option bytes_word (mem_get obj (2 + 8) 4)"

definition header_service :: "byte list \<Rightarrow> mark option" where
  "header_service obj = mem_get obj (2 + 8 + 4) 8"

definition header_init_time :: "byte list \<Rightarrow> time option" where
  "header_init_time obj = get_time obj (2 + 8 + 4 + 8)"

definition header_node :: "byte list \<Rightarrow> mark option" where
  "header_node obj = mem_get obj (2 + 8 + 4 + 8 + 8) 8"

definition header_time :: "byte list \<Rightarrow> time option" where
  "header_time obj = get_time obj (2 + 8 + 4 + 8 + 8 + 8)"

definition header_rank :: "byte list \<Rightarrow> byte option" where
  "header_rank obj = get_byte obj (2 + 8 + 4 + 8 + 8 + 8 + 8)"

text \<open>\<open>Error_Logger\<close> and \<open>Node_Offline\<close>.\<close>

definition error_size :: nat where
  "error_size = 8 + 8 + 8 + 1"

definition error_object :: "mark \<Rightarrow> mark \<Rightarrow> time \<Rightarrow> byte \<Rightarrow> byte list option" where
  "error_object service nd tm err = do {
     obj \<leftarrow> mem_put (replicate error_size 0) 0 service;
     obj \<leftarrow> mem_put obj 8 nd;
     obj \<leftarrow> mem_put obj (8 + 8) (word_bytes 8 tm);
     mem_put obj (8 + 8 + 8) [err]
   }"

definition error_service :: "byte list \<Rightarrow> mark option" where
  "error_service obj = mem_get obj 0 8"

definition error_node :: "byte list \<Rightarrow> mark option" where
  "error_node obj = mem_get obj 8 8"

definition error_time :: "byte list \<Rightarrow> time option" where
  "error_time obj = get_time obj (8 + 8)"

definition error_type :: "byte list \<Rightarrow> byte option" where
  "error_type obj = get_byte obj (8 + 8 + 8)"

definition offline_size :: nat where
  "offline_size = 8"

definition offline_object :: "time \<Rightarrow> byte list option" where
  "offline_object tm = mem_put (replicate offline_size 0) 0 (word_bytes 8 tm)"

definition offline_time :: "byte list \<Rightarrow> time option" where
  "offline_time obj = get_time obj 0"

section \<open>The encoder\<close>

text \<open>\<open>OperationType\<close>, and an object of a class in memory: the \<open>sizeof\<close> a class is one more than the \<open>size\<close>.\<close>

datatype operation_type = Null | Register_Logger | Create_Logger | End_Logger | Link_Log | Error_Logger | Node_Offline

primrec ot_byte :: "operation_type \<Rightarrow> byte" where
  "ot_byte Null = 0"
| "ot_byte Register_Logger = 1"
| "ot_byte Create_Logger = 2"
| "ot_byte End_Logger = 3"
| "ot_byte Link_Log = 4"
| "ot_byte Error_Logger = 5"
| "ot_byte Node_Offline = 6"

definition instance_bytes :: "operation_type \<Rightarrow> byte list option \<Rightarrow> byte list option" where
  "instance_bytes ot obj = map_option (\<lambda>d. ot_byte ot # d) obj"

text \<open>
  The first three functions of the encoder: they copy \<open>limit\<close> bytes of the object, and answer with what is stored and
  the number of bytes of the object.
\<close>

definition encode_object :: "nat \<Rightarrow> byte list option \<Rightarrow> nat \<Rightarrow> (nat \<times> byte list) option" where
  "encode_object sz logger limit =
     (if limit < sz then Some (0, [])
      else do { d \<leftarrow> logger; d \<leftarrow> mem_get d 0 limit; Some (sz, d) })"

definition encode_register :: "byte \<Rightarrow> mark \<Rightarrow> mark \<Rightarrow> mark \<Rightarrow> time \<Rightarrow> time \<Rightarrow> time \<Rightarrow> nat \<Rightarrow> (nat \<times> byte list) option" where
  "encode_register ty service nd parent_node tm parent_init expire =
     encode_object (1 + register_size)
       (instance_bytes Register_Logger (register_object ty service nd parent_node tm parent_init expire))"

definition encode_create :: "byte \<Rightarrow> mark \<Rightarrow> mark \<Rightarrow> mark \<Rightarrow> time \<Rightarrow> time \<Rightarrow> nat \<Rightarrow> (nat \<times> byte list) option" where
  "encode_create ty service nd parent_node init parent_init =
     encode_object (1 + create_size) (instance_bytes Create_Logger (create_object ty service nd parent_node init parent_init))"

definition encode_end :: "mark \<Rightarrow> mark \<Rightarrow> time \<Rightarrow> time \<Rightarrow> nat \<Rightarrow> (nat \<times> byte list) option" where
  "encode_end service nd init end_tm = encode_object (1 + end_size) (instance_bytes End_Logger (end_object service nd init end_tm))"

definition can_write_log :: "nat \<Rightarrow> nat \<Rightarrow> bool" where
  "can_write_log sz limit \<longleftrightarrow> sz \<le> 65535 - (1 + header_size) \<and> 1 + header_size + sz \<le> limit"

text \<open>\<open>write_log\<close>: the size is a \<open>uint16\<close>, and so is the number it returns.\<close>

definition write_log ::
  "mark \<Rightarrow> time \<Rightarrow> mark \<Rightarrow> time \<Rightarrow> byte \<Rightarrow> byte list \<Rightarrow> 16 word \<Rightarrow> (16 word \<times> byte list) option" where
  "write_log service init nd tm rank data sz = do {
     header \<leftarrow> instance_bytes Link_Log (header_object sz service init nd tm rank);
     text \<leftarrow> mem_get data 0 (unat sz);
     Some (word_of_nat (1 + header_size) + sz, header @ text)
   }"

section \<open>Replay of a file\<close>

text \<open>What the handler of a replay is told.\<close>

datatype replay_event =
  Replay_Register mark mark mark byte time time
| Replay_Head mark mark time
| Replay_Create mark mark time
| Replay_End mark mark time
| Replay_Log mark time mark byte time "byte list"
| Replay_Error mark mark time byte

type_synonym replay_step = "(nat \<times> replay_event list \<times> ring) option"

definition replay_register_logger :: "ring \<Rightarrow> replay_step" where
  "replay_register_logger rb =
     (if readable_len rb < 1 + register_size then Some (0, [], rb)
      else do {
        (d, rb) \<leftarrow> rb_read rb (1 + register_size);
        let logger = drop 1 d;
        service \<leftarrow> register_service logger;
        nd \<leftarrow> register_node logger;
        parent_node \<leftarrow> register_parent_node logger;
        ty \<leftarrow> register_type logger;
        tm \<leftarrow> register_time logger;
        parent_init \<leftarrow> register_parent_init logger;
        Some (1 + register_size, [Replay_Register service nd parent_node ty tm parent_init], rb)
      })"

definition replay_create_logger :: "ring \<Rightarrow> replay_step" where
  "replay_create_logger rb =
     (if readable_len rb < 1 + create_size then Some (0, [], rb)
      else do {
        (d, rb) \<leftarrow> rb_read rb (1 + create_size);
        let logger = drop 1 d;
        ty \<leftarrow> create_type logger;
        service \<leftarrow> create_service logger;
        nd \<leftarrow> create_node logger;
        init \<leftarrow> create_init_time logger;
        Some (1 + create_size, [if ty = 1 then Replay_Head service nd init else Replay_Create service nd init], rb)
      })"

definition replay_end_logger :: "ring \<Rightarrow> replay_step" where
  "replay_end_logger rb =
     (if readable_len rb < 1 + end_size then Some (0, [], rb)
      else do {
        (d, rb) \<leftarrow> rb_read rb (1 + end_size);
        let logger = drop 1 d;
        service \<leftarrow> end_service logger;
        nd \<leftarrow> end_node logger;
        end_tm \<leftarrow> end_end_time logger;
        Some (1 + end_size, [Replay_End service nd end_tm], rb)
      })"

definition replay_log :: "ring \<Rightarrow> replay_step" where
  "replay_log rb =
     (if readable_len rb < 1 + header_size then Some (0, [], rb)
      else do {
        d \<leftarrow> rb_try_read rb (1 + header_size) 0;
        let header = drop 1 d;
        log_size \<leftarrow> header_log_size header;
        if readable_len rb < unat log_size + (1 + header_size) then Some (0, [], rb)
        else do {
          rb \<leftarrow> read_advance rb (1 + header_size);
          (text, rb) \<leftarrow> rb_read rb (unat log_size);
          service \<leftarrow> header_service header;
          init \<leftarrow> header_init_time header;
          nd \<leftarrow> header_node header;
          rank \<leftarrow> header_rank header;
          tm \<leftarrow> header_time header;
          Some (1 + header_size + unat log_size, [Replay_Log service init nd rank tm text], rb)
        }
      })"

definition replay_error_logger :: "ring \<Rightarrow> replay_step" where
  "replay_error_logger rb =
     (if readable_len rb < 1 + error_size then Some (0, [], rb)
      else do {
        (d, rb) \<leftarrow> rb_read rb (1 + error_size);
        let logger = drop 1 d;
        service \<leftarrow> error_service logger;
        nd \<leftarrow> error_node logger;
        tm \<leftarrow> error_time logger;
        err \<leftarrow> error_type logger;
        Some (1 + error_size, [Replay_Error service nd tm err], rb)
      })"

definition replay_remove_server :: "ring \<Rightarrow> replay_step" where
  "replay_remove_server rb =
     (if readable_len rb < 1 + offline_size then Some (0, [], rb)
      else do {
        (d, rb) \<leftarrow> rb_read rb (1 + offline_size);
        Some (1 + offline_size, [], rb)
      })"

text \<open>The \<open>switch\<close> on the first byte.\<close>

definition replay_message :: "ring \<Rightarrow> replay_step" where
  "replay_message rb = do {
     d \<leftarrow> rb_try_read rb 1 0;
     ot \<leftarrow> vget d 0;
     if ot = ot_byte Register_Logger then replay_register_logger rb
     else if ot = ot_byte Create_Logger then replay_create_logger rb
     else if ot = ot_byte End_Logger then replay_end_logger rb
     else if ot = ot_byte Link_Log then replay_log rb
     else if ot = ot_byte Error_Logger then replay_error_logger rb
     else if ot = ot_byte Node_Offline then replay_remove_server rb
     else None
   }"

lemma read_shrinks: "rb_read rb n = Some (d, rb') \<Longrightarrow> rb_readable rb' = rb_readable rb - min n (rb_readable rb)"
  by (auto simp: rb_read_def read_advance_def readable_len_def Let_def min_def split: bind_splits if_splits)

lemma advance_shrinks: "read_advance rb n = Some rb' \<Longrightarrow> rb_readable rb' = rb_readable rb - n \<and> n \<le> rb_readable rb"
  by (auto simp: read_advance_def readable_len_def Let_def split: bind_splits)

lemmas replay_defs = replay_register_logger_def replay_create_logger_def replay_end_logger_def replay_log_def
  replay_error_logger_def replay_remove_server_def

lemma replay_shrinks:
  assumes "replay_message rb = Some (n, es, rb')" "n \<noteq> 0"
  shows "rb_readable rb' < rb_readable rb"
  using assms
  by (auto simp: replay_message_def replay_defs readable_len_def Let_def
      dest!: read_shrinks advance_shrinks split: bind_splits if_splits)

text \<open>The inner loop, which empties the buffer of the messages that are complete.\<close>

function replay_buffer :: "ring \<Rightarrow> replay_step" where
  "replay_buffer rb =
     (if readable_len rb > 1
      then do {
        (n, es, rb) \<leftarrow> replay_message rb;
        if n \<noteq> 0 then do { (k, fs, rb) \<leftarrow> replay_buffer rb; Some (n + k, es @ fs, rb) }
        else Some (0, es, rb)
      } else Some (0, [], rb))"
  by pat_completeness auto

termination
  by (relation "measure rb_readable") (auto dest: replay_shrinks)

declare replay_buffer.simps [simp del]

text \<open>\<open>readv\<close> into the writable part of the buffer.\<close>

definition fill_buffer :: "ring \<Rightarrow> byte list \<Rightarrow> ring option" where
  "fill_buffer rb d = do {
     arr \<leftarrow> writable_array rb;
     m \<leftarrow> scatter (rb_mem rb) arr (split_lens (map snd arr) d);
     write_advance (rb\<lparr>rb_mem := m\<rparr>) (length d)
   }"

text \<open>A read delivers at least one byte while there are some; \<open>ns\<close> has how many it would deliver at most.\<close>

fun delivered :: "nat list \<Rightarrow> nat \<Rightarrow> nat" where
  "delivered [] avail = avail"
| "delivered (n # ns) avail = min (max 1 n) avail"

function replay_file :: "nat list \<Rightarrow> byte list \<Rightarrow> ring \<Rightarrow> (nat \<times> replay_event list) option" where
  "replay_file ns bytes rb =
     (let n = delivered ns (min (writable_len rb) (length bytes))
      in if n > 0
         then do {
           rb \<leftarrow> fill_buffer rb (take n bytes);
           (k, es, rb) \<leftarrow> replay_buffer rb;
           (k', fs) \<leftarrow> replay_file (tl ns) (drop n bytes) rb;
           Some (k + k', es @ fs)
         } else Some (0, []))"
  by pat_completeness auto

termination
proof (relation "measure (\<lambda>(ns, bytes, rb). length bytes)", goal_cases)
  case (2 ns bytes rb)
  then show ?case
    by (cases ns) auto
qed simp

declare replay_file.simps [simp del]

definition replay_history :: "byte list \<Rightarrow> nat list \<Rightarrow> byte list \<Rightarrow> (nat \<times> replay_event list) option" where
  "replay_history block ns bytes =
     (if length block \<noteq> 2 ^ 16 then Some (0, []) else replay_file ns bytes (rb_new block))"

section \<open>Words and objects\<close>

lemma length_word_bytes [simp]: "length (word_bytes k w) = k"
  by (simp add: word_bytes_def)

lemma bit_bytes_word:
  "bit (bytes_word bs :: 'a :: len word) n \<longleftrightarrow> n < LENGTH('a) \<and> n div 8 < length bs \<and> bit (bs ! (n div 8)) (n mod 8)"
proof (induction bs arbitrary: n)
  case (Cons b bs)
  show ?case
  proof (cases "n < 8")
    case True
    then show ?thesis
      by (auto simp: bit_or_iff bit_push_bit_iff bit_ucast_iff)
  next
    case False
    then obtain m where m: "n = m + 8"
      by (metis add.commute le_Suc_ex not_less)
    then have "\<not> bit b n"
      using bit_imp_le_length [of b n] False by auto
    then show ?thesis
      using Cons [of m] m by (auto simp: bit_or_iff bit_push_bit_iff bit_ucast_iff div_add_self2)
  qed
qed simp

lemma bytes_word_bytes: "LENGTH('a) = 8 * k \<Longrightarrow> bytes_word (word_bytes k (w :: 'a :: len word)) = w"
proof (rule bit_word_eqI)
  fix n assume n: "LENGTH('a) = 8 * k" "n < LENGTH('a)"
  then have "n div 8 < k"
    by simp
  moreover have "8 * (n div 8) + n mod 8 = n" "n mod 8 < 8"
    by simp_all
  ultimately show "bit (bytes_word (word_bytes k w) :: 'a word) n \<longleftrightarrow> bit w n"
    using n by (auto simp: bit_bytes_word word_bytes_def bit_ucast_iff bit_drop_bit_eq add.commute)
qed

lemma time_bytes [simp]: "bytes_word (word_bytes 8 (t :: time)) = t"
  by (rule bytes_word_bytes) simp

lemma size_bytes [simp]: "bytes_word (word_bytes 2 (n :: 16 word)) = n" "bytes_word (word_bytes 4 (i :: 32 word)) = i"
  by (rule bytes_word_bytes, simp)+

text \<open>The objects, written out.\<close>

definition filled :: "byte list \<Rightarrow> nat \<Rightarrow> byte list" where
  "filled pre n = pre @ replicate n 0"

lemma filled_put:
  assumes "length pre \<le> p" "p + length d \<le> length pre + n"
  shows "mem_put (filled pre n) p d = Some (filled (pre @ replicate (p - length pre) 0 @ d) (length pre + n - p - length d))"
  using assms by (auto simp: mem_put_def filled_def)

lemma filled_first: "length d \<le> n \<Longrightarrow> mem_put (replicate n 0) 0 d = Some (filled d (n - length d))"
  using filled_put [of "[]" 0 d n] by (simp add: filled_def)

lemma filled_all: "filled pre 0 = pre"
  by (simp add: filled_def)

lemmas fill_rules = filled_put filled_first filled_all

lemma register_object_eq:
  assumes "length service = 8" "length nd = 8" "length pn = 8"
  shows "register_object ty service nd pn tm pit expire =
    Some ([ty] @ service @ nd @ pn @ word_bytes 8 tm @ word_bytes 8 pit @ word_bytes 8 expire)"
  using assms
  by (simp add: register_object_def register_size_def fill_rules)

lemma create_object_eq:
  assumes "length service = 8" "length nd = 8" "length pn = 8"
  shows "create_object ty service nd pn init pit = Some ([ty] @ service @ nd @ pn @ word_bytes 8 init @ word_bytes 8 pit)"
  using assms
  by (simp add: create_object_def create_size_def fill_rules)

lemma end_object_eq:
  assumes "length service = 8" "length nd = 8"
  shows "end_object service nd init end_tm = Some (service @ nd @ word_bytes 8 init @ word_bytes 8 end_tm)"
  using assms
  by (simp add: end_object_def end_size_def fill_rules)

lemma error_object_eq:
  assumes "length service = 8" "length nd = 8"
  shows "error_object service nd tm err = Some (service @ nd @ word_bytes 8 tm @ [err])"
  using assms
  by (simp add: error_object_def error_size_def fill_rules)

lemma offline_object_eq: "offline_object tm = Some (word_bytes 8 tm)"
  by (simp add: offline_object_def offline_size_def fill_rules)

lemma header_object_eq:
  assumes "length service = 8" "length nd = 8"
  shows "header_object sz service init nd tm rank =
    Some (word_bytes 2 sz @ replicate 12 0 @ service @ word_bytes 8 init @ nd @ word_bytes 8 tm @ [rank])"
  using assms
  by (simp add: header_object_def header_size_def fill_rules)

text \<open>A field of an object.\<close>

lemma get_field:
  assumes "length pre = p" "length d = k"
  shows "mem_get (pre @ d @ post) p k = Some d"
  using assms by (auto simp: mem_get_def)

lemma bytes_zero [simp]: "bytes_word (replicate n 0) = 0"
  by (induction n) simp_all

text \<open>Every accessor reads what the constructor was given.\<close>

lemmas get_defs = get_byte_def get_time_def mem_get_def

lemma register_fields:
  assumes "length service = 8" "length nd = 8" "length pn = 8" "register_object ty service nd pn tm pit expire = Some obj"
  shows "register_type obj = Some ty" "register_service obj = Some service" "register_node obj = Some nd"
    "register_parent_node obj = Some pn" "register_time obj = Some tm" "register_parent_init obj = Some pit"
    "register_expire obj = Some expire" "length obj = register_size"
  using assms(1-3) assms(4) [symmetric]
  by (simp_all add: register_object_eq register_type_def register_service_def register_node_def register_parent_node_def
      register_time_def register_parent_init_def register_expire_def get_defs register_size_def)

lemma create_fields:
  assumes "length service = 8" "length nd = 8" "length pn = 8" "create_object ty service nd pn init pit = Some obj"
  shows "create_type obj = Some ty" "create_service obj = Some service" "create_node obj = Some nd"
    "create_parent_node obj = Some pn" "create_init_time obj = Some init" "create_parent_init obj = Some pit"
    "length obj = create_size"
  using assms(1-3) assms(4) [symmetric]
  by (simp_all add: create_object_eq create_type_def create_service_def create_node_def create_parent_node_def
      create_init_time_def create_parent_init_def get_defs create_size_def)

lemma end_fields:
  assumes "length service = 8" "length nd = 8" "end_object service nd init end_tm = Some obj"
  shows "end_service obj = Some service" "end_node obj = Some nd" "end_init_time obj = Some init"
    "end_end_time obj = Some end_tm" "length obj = end_size"
  using assms(1,2) assms(3) [symmetric]
  by (simp_all add: end_object_eq end_service_def end_node_def end_init_time_def end_end_time_def get_defs end_size_def)

lemma header_fields:
  assumes "length service = 8" "length nd = 8" "header_object sz service init nd tm rank = Some obj"
  shows "header_log_size obj = Some sz" "header_latest_file obj = Some 0" "header_latest_index obj = Some 0"
    "header_service obj = Some service" "header_init_time obj = Some init" "header_node obj = Some nd"
    "header_time obj = Some tm" "header_rank obj = Some rank" "length obj = header_size"
  using assms(1,2) assms(3) [symmetric]
  by (simp_all add: header_object_eq header_log_size_def header_latest_file_def header_latest_index_def header_service_def
      header_init_time_def header_node_def header_time_def header_rank_def get_defs header_size_def)

lemma error_fields:
  assumes "length service = 8" "length nd = 8" "error_object service nd tm err = Some obj"
  shows "error_service obj = Some service" "error_node obj = Some nd" "error_time obj = Some tm" "error_type obj = Some err"
    "length obj = error_size"
  using assms(1,2) assms(3) [symmetric]
  by (simp_all add: error_object_eq error_service_def error_node_def error_time_def error_type_def get_defs error_size_def)

lemma offline_fields: "offline_object tm = Some obj \<Longrightarrow> offline_time obj = Some tm" "offline_object tm = Some obj \<Longrightarrow> length obj = offline_size"
  by (auto simp: offline_object_eq offline_time_def get_defs offline_size_def)

section \<open>A stream of messages\<close>

text \<open>The messages as a sender gives them to the constructors and to \<open>write_log\<close>.\<close>

datatype message =
  Register_Message byte mark mark mark time time time
| Create_Message byte mark mark mark time time
| End_Message mark mark time time
| Log_Message mark time mark time byte "byte list"
| Error_Message mark mark time byte
| Offline_Message time

primrec good :: "message \<Rightarrow> bool" where
  "good (Register_Message ty s nd pn tm pit expire) \<longleftrightarrow> length s = 8 \<and> length nd = 8 \<and> length pn = 8"
| "good (Create_Message ty s nd pn init pit) \<longleftrightarrow> length s = 8 \<and> length nd = 8 \<and> length pn = 8"
| "good (End_Message s nd init end_tm) \<longleftrightarrow> length s = 8 \<and> length nd = 8"
| "good (Log_Message s init nd tm rank text) \<longleftrightarrow> length s = 8 \<and> length nd = 8 \<and> can_write_log (length text) 65535"
| "good (Error_Message s nd tm err) \<longleftrightarrow> length s = 8 \<and> length nd = 8"
| "good (Offline_Message tm) \<longleftrightarrow> True"

primrec encode :: "message \<Rightarrow> byte list" where
  "encode (Register_Message ty s nd pn tm pit expire) =
     the (instance_bytes Register_Logger (register_object ty s nd pn tm pit expire))"
| "encode (Create_Message ty s nd pn init pit) = the (instance_bytes Create_Logger (create_object ty s nd pn init pit))"
| "encode (End_Message s nd init end_tm) = the (instance_bytes End_Logger (end_object s nd init end_tm))"
| "encode (Log_Message s init nd tm rank text) = snd (the (write_log s init nd tm rank text (word_of_nat (length text))))"
| "encode (Error_Message s nd tm err) = the (instance_bytes Error_Logger (error_object s nd tm err))"
| "encode (Offline_Message tm) = the (instance_bytes Node_Offline (offline_object tm))"

primrec events :: "message \<Rightarrow> replay_event list" where
  "events (Register_Message ty s nd pn tm pit expire) = [Replay_Register s nd pn ty tm pit]"
| "events (Create_Message ty s nd pn init pit) = [if ty = 1 then Replay_Head s nd init else Replay_Create s nd init]"
| "events (End_Message s nd init end_tm) = [Replay_End s nd end_tm]"
| "events (Log_Message s init nd tm rank text) = [Replay_Log s init nd rank tm text]"
| "events (Error_Message s nd tm err) = [Replay_Error s nd tm err]"
| "events (Offline_Message tm) = []"

lemma text_size: "can_write_log n 65535 \<longleftrightarrow> n \<le> 65487"
  by (simp add: can_write_log_def header_size_def)

lemma unat_size: "n \<le> 65487 \<Longrightarrow> unat (word_of_nat n :: 16 word) = n"
  by (simp add: unat_of_nat)

lemma log_bytes:
  assumes "length s = 8" "length nd = 8" "header_object (word_of_nat (length text)) s init nd tm rank = Some obj" "length text \<le> 65487"
  shows "write_log s init nd tm rank text (word_of_nat (length text)) =
    Some (word_of_nat (1 + header_size + length text), ot_byte Link_Log # obj @ text)"
  using assms by (simp add: write_log_def instance_bytes_def unat_size mem_get_def)

text \<open>A buffer that starts with a complete message.\<close>

lemma read_front:
  assumes "rb_inv rb" "rb_content rb = d @ rest" "length d = n"
  shows "\<exists>rb'. rb_read rb n = Some (d, rb') \<and> rb_inv rb' \<and> rb_content rb' = rest \<and> rb_size rb' = rb_size rb"
  using rb_read_spec [OF assms(1), of n] assms(2,3) by (metis append_eq_conv_conj)

lemma enough:
  assumes "rb_inv rb" "rb_content rb = d @ rest" "length d = n"
  shows "\<not> readable_len rb < n"
  using length_content [OF assms(1)] assms(2,3) by (simp add: readable_len_def)

lemma object_some:
  "length s = 8 \<Longrightarrow> length nd = 8 \<Longrightarrow> length pn = 8 \<Longrightarrow> \<exists>obj. register_object ty s nd pn tm pit expire = Some obj"
  "length s = 8 \<Longrightarrow> length nd = 8 \<Longrightarrow> length pn = 8 \<Longrightarrow> \<exists>obj. create_object ty s nd pn init pit = Some obj"
  "length s = 8 \<Longrightarrow> length nd = 8 \<Longrightarrow> \<exists>obj. end_object s nd init end_tm = Some obj"
  "length s = 8 \<Longrightarrow> length nd = 8 \<Longrightarrow> \<exists>obj. header_object sz s init nd tm rank = Some obj"
  "length s = 8 \<Longrightarrow> length nd = 8 \<Longrightarrow> \<exists>obj. error_object s nd tm err = Some obj"
  by (simp_all add: register_object_eq create_object_eq end_object_eq header_object_eq error_object_eq)

definition steps_to :: "ring \<Rightarrow> message \<Rightarrow> byte list \<Rightarrow> replay_step \<Rightarrow> bool" where
  "steps_to rb m rest st \<longleftrightarrow>
     (\<exists>rb'. st = Some (length (encode m), events m, rb') \<and> rb_inv rb' \<and> rb_content rb' = rest \<and> rb_size rb' = rb_size rb)"

lemma step_full:
  assumes rb: "rb_inv rb" "rb_content rb = encode m @ rest" "length (encode m) = n"
    and f: "f = (if readable_len rb < n then Some (0, [], rb) else rb_read rb n \<bind> (\<lambda>(d, rb). g d rb))"
    and g: "\<And>rb'. g (encode m) rb' = Some (n, events m, rb')"
  shows "steps_to rb m rest f"
proof -
  obtain rb' where "rb_read rb n = Some (encode m, rb')" "rb_inv rb'" "rb_content rb' = rest" "rb_size rb' = rb_size rb"
    using read_front [OF rb] by blast
  then show ?thesis
    using enough [OF rb] rb(3) by (simp add: f g steps_to_def)
qed

lemma replay_register_full:
  assumes "rb_inv rb" "rb_content rb = encode m @ rest" "good m" "m = Register_Message ty s nd pn tm pit expire"
  shows "steps_to rb m rest (replay_register_logger rb)"
proof -
  obtain obj where obj: "register_object ty s nd pn tm pit expire = Some obj"
    using object_some(1) assms(3,4) by fastforce
  show ?thesis
    using register_fields [OF _ _ _ obj] assms(3,4) obj
    by (intro step_full [OF assms(1,2) _ replay_register_logger_def]) (simp_all add: instance_bytes_def)
qed

lemma replay_create_full:
  assumes "rb_inv rb" "rb_content rb = encode m @ rest" "good m" "m = Create_Message ty s nd pn init pit"
  shows "steps_to rb m rest (replay_create_logger rb)"
proof -
  obtain obj where obj: "create_object ty s nd pn init pit = Some obj"
    using object_some(2) assms(3,4) by fastforce
  show ?thesis
    using create_fields [OF _ _ _ obj] assms(3,4) obj
    by (intro step_full [OF assms(1,2) _ replay_create_logger_def]) (simp_all add: instance_bytes_def)
qed

lemma replay_end_full:
  assumes "rb_inv rb" "rb_content rb = encode m @ rest" "good m" "m = End_Message s nd init end_tm"
  shows "steps_to rb m rest (replay_end_logger rb)"
proof -
  obtain obj where obj: "end_object s nd init end_tm = Some obj"
    using object_some(3) assms(3,4) by fastforce
  show ?thesis
    using end_fields [OF _ _ obj] assms(3,4) obj
    by (intro step_full [OF assms(1,2) _ replay_end_logger_def]) (simp_all add: instance_bytes_def)
qed

lemma replay_error_full:
  assumes "rb_inv rb" "rb_content rb = encode m @ rest" "good m" "m = Error_Message s nd tm err"
  shows "steps_to rb m rest (replay_error_logger rb)"
proof -
  obtain obj where obj: "error_object s nd tm err = Some obj"
    using object_some(5) assms(3,4) by fastforce
  show ?thesis
    using error_fields [OF _ _ obj] assms(3,4) obj
    by (intro step_full [OF assms(1,2) _ replay_error_logger_def]) (simp_all add: instance_bytes_def)
qed

lemma replay_offline_full:
  assumes "rb_inv rb" "rb_content rb = encode m @ rest" "m = Offline_Message tm"
  shows "steps_to rb m rest (replay_remove_server rb)"
  using assms(3) offline_fields(2) [OF offline_object_eq]
  by (intro step_full [OF assms(1,2) _ replay_remove_server_def]) (simp_all add: instance_bytes_def offline_object_eq offline_size_def)

lemma rb_readable_small: "rb_inv rb \<Longrightarrow> rb_readable rb < 2 ^ 32"
  by (auto simp: rb_inv_def)

lemma replay_log_full:
  assumes "rb_inv rb" "rb_content rb = encode m @ rest" "good m" "m = Log_Message s init nd tm rank text"
  shows "steps_to rb m rest (replay_log rb)"
proof -
  let ?n = "length text" and ?h = "1 + header_size"
  have len: "length s = 8" "length nd = 8" "?n \<le> 65487"
    using assms(3,4) by (simp_all add: text_size)
  obtain obj where obj: "header_object (word_of_nat ?n) s init nd tm rank = Some obj"
    using object_some(4) len by blast
  note f = header_fields [OF len(1,2) obj]
  let ?d = "ot_byte Link_Log # obj"
  have e: "encode m = ?d @ text" and d: "length ?d = ?h"
    using log_bytes [OF len(1,2) obj len(3)] assms(4) f(9) by simp_all
  have c: "rb_content rb = ?d @ text @ rest"
    using assms(2) e by simp
  have try_read: "rb_try_read rb ?h 0 = Some ?d"
    using rb_try_read_spec [OF assms(1), of 0 ?h] c d by (simp add: header_size_def)
  have readable: "rb_readable rb = ?h + ?n + length rest"
    using length_content [OF assms(1)] c d by simp
  obtain rb1 where rb1: "read_advance rb ?h = Some rb1" "rb_inv rb1" "rb_content rb1 = text @ rest" "rb_size rb1 = rb_size rb"
    using read_advance_spec [OF assms(1), of ?h] readable c d by auto
  obtain rb2 where rb2: "rb_read rb1 ?n = Some (text, rb2)" "rb_inv rb2" "rb_content rb2 = rest" "rb_size rb2 = rb_size rb1"
    using read_front [OF rb1(2,3)] by blast
  show ?thesis
    using try_read readable rb1 rb2 f e d assms(4) unat_size [OF len(3)]
    by (simp add: replay_log_def steps_to_def readable_len_def)
qed

primrec ot_of :: "message \<Rightarrow> operation_type" where
  "ot_of (Register_Message ty s nd pn tm pit expire) = Register_Logger"
| "ot_of (Create_Message ty s nd pn init pit) = Create_Logger"
| "ot_of (End_Message s nd init end_tm) = End_Logger"
| "ot_of (Log_Message s init nd tm rank text) = Link_Log"
| "ot_of (Error_Message s nd tm err) = Error_Logger"
| "ot_of (Offline_Message tm) = Node_Offline"

lemma encode_form:
  assumes "good m"
  shows "\<exists>d. encode m = ot_byte (ot_of m) # d"
proof (cases m)
  case (Register_Message ty s nd pn tm pit expire)
  then show ?thesis
    using assms object_some(1) [of s nd pn ty tm pit expire] by (auto simp: instance_bytes_def)
next
  case (Create_Message ty s nd pn init pit)
  then show ?thesis
    using assms object_some(2) [of s nd pn ty init pit] by (auto simp: instance_bytes_def)
next
  case (End_Message s nd init end_tm)
  then show ?thesis
    using assms object_some(3) [of s nd init end_tm] by (auto simp: instance_bytes_def)
next
  case (Log_Message s init nd tm rank str)
  then show ?thesis
    using assms object_some(4) [of s nd "word_of_nat (length str)" init tm rank] log_bytes [of s nd str init tm rank]
    by (auto simp: text_size)
next
  case (Error_Message s nd tm err)
  then show ?thesis
    using assms object_some(5) [of s nd tm err] by (auto simp: instance_bytes_def)
next
  case (Offline_Message tm)
  then show ?thesis
    by (simp add: instance_bytes_def offline_object_eq)
qed

lemma first_byte:
  assumes "rb_inv rb" "rb_content rb = b # c"
  shows "rb_try_read rb 1 0 = Some [b]"
  using rb_try_read_spec [OF assms(1), of 0 1] assms(2) by simp

lemma message_full:
  assumes "rb_inv rb" "rb_content rb = encode m @ rest" "good m"
  shows "steps_to rb m rest (replay_message rb)"
proof -
  obtain d where d: "encode m = ot_byte (ot_of m) # d"
    using encode_form [OF assms(3)] by blast
  then have "rb_try_read rb 1 0 = Some [ot_byte (ot_of m)]"
    using first_byte [OF assms(1)] assms(2) by simp
  then show ?thesis
    using replay_register_full [OF assms] replay_create_full [OF assms] replay_end_full [OF assms]
      replay_log_full [OF assms] replay_error_full [OF assms] replay_offline_full [OF assms(1,2)]
    by (cases m) (simp_all add: replay_message_def)
qed

text \<open>A buffer that holds just a part of a message.\<close>

definition part_of :: "byte list \<Rightarrow> message \<Rightarrow> bool" where
  "part_of c m \<longleftrightarrow> good m \<and> (\<exists>x. x \<noteq> [] \<and> c @ x = encode m)"

lemma log_part:
  assumes "rb_inv rb" "part_of (rb_content rb) (Log_Message s init nd tm rank text)"
  shows "replay_log rb = Some (0, [], rb)"
proof (cases "rb_readable rb < 1 + header_size")
  case True
  then show ?thesis
    by (simp add: replay_log_def readable_len_def)
next
  case False
  obtain x where x: "x \<noteq> []" "rb_content rb @ x = encode (Log_Message s init nd tm rank text)"
    using assms(2) by (auto simp: part_of_def)
  have len: "length s = 8" "length nd = 8" "length text \<le> 65487"
    using assms(2) by (simp_all add: part_of_def text_size)
  obtain obj where obj: "header_object (word_of_nat (length text)) s init nd tm rank = Some obj"
    using object_some(4) len by blast
  let ?d = "ot_byte Link_Log # obj"
  note f = header_fields [OF len(1,2) obj]
  have e: "rb_content rb @ x = ?d @ text"
    using x(2) log_bytes [OF len(1,2) obj len(3)] by simp
  have n: "length (rb_content rb) = rb_readable rb" "length ?d = 1 + header_size"
    using length_content [OF assms(1)] f(9) by simp_all
  then have "take (1 + header_size) (rb_content rb) = ?d"
    using arg_cong [OF e, of "take (1 + header_size)"] False by simp
  then have "rb_try_read rb (1 + header_size) 0 = Some ?d"
    using rb_try_read_spec [OF assms(1), of 0 "1 + header_size"] by (simp add: header_size_def)
  moreover have "rb_readable rb < 1 + header_size + length text"
    using arg_cong [OF e, of length] x(1) n by (cases x) simp_all
  ultimately show ?thesis
    using False f(1) unat_size [OF len(3)] by (simp add: replay_log_def readable_len_def)
qed

lemma message_part:
  assumes "rb_inv rb" "part_of (rb_content rb) m" "rb_content rb \<noteq> []"
  shows "replay_message rb = Some (0, [], rb)"
proof -
  obtain x where x: "x \<noteq> []" "rb_content rb @ x = encode m" "good m"
    using assms(2) by (auto simp: part_of_def)
  obtain d where d: "encode m = ot_byte (ot_of m) # d"
    using encode_form [OF x(3)] by blast
  then obtain c where "rb_content rb = ot_byte (ot_of m) # c"
    using x(2) assms(3) by (cases "rb_content rb") auto
  then have one: "rb_try_read rb 1 0 = Some [ot_byte (ot_of m)]"
    using first_byte [OF assms(1)] by simp
  have short: "rb_readable rb < length (encode m)"
    using arg_cong [OF x(2), of length] x(1) length_content [OF assms(1)] by (cases x) simp_all
  show ?thesis
  proof (cases m)
    case (Register_Message ty s nd pn tm pit expire)
    then have "length (encode m) = 1 + register_size"
      using x(3) by (simp add: instance_bytes_def register_object_eq register_size_def)
    then show ?thesis
      using one short Register_Message by (simp add: replay_message_def replay_register_logger_def readable_len_def)
  next
    case (Create_Message ty s nd pn init pit)
    then have "length (encode m) = 1 + create_size"
      using x(3) by (simp add: instance_bytes_def create_object_eq create_size_def)
    then show ?thesis
      using one short Create_Message by (simp add: replay_message_def replay_create_logger_def readable_len_def)
  next
    case (End_Message s nd init end_tm)
    then have "length (encode m) = 1 + end_size"
      using x(3) by (simp add: instance_bytes_def end_object_eq end_size_def)
    then show ?thesis
      using one short End_Message by (simp add: replay_message_def replay_end_logger_def readable_len_def)
  next
    case (Log_Message s init nd tm rank str)
    then show ?thesis
      using one log_part [OF assms(1)] assms(2) by (simp add: replay_message_def)
  next
    case (Error_Message s nd tm err)
    then have "length (encode m) = 1 + error_size"
      using x(3) by (simp add: instance_bytes_def error_object_eq error_size_def)
    then show ?thesis
      using one short Error_Message by (simp add: replay_message_def replay_error_logger_def readable_len_def)
  next
    case (Offline_Message tm)
    then have "length (encode m) = 1 + offline_size"
      using x(3) by (simp add: instance_bytes_def offline_object_eq offline_size_def)
    then show ?thesis
      using one short Offline_Message by (simp add: replay_message_def replay_remove_server_def readable_len_def)
  qed
qed

abbreviation stream :: "message list \<Rightarrow> byte list" where
  "stream ms \<equiv> concat (map encode ms)"

lemma encode_bounds:
  assumes "good m"
  shows "1 < length (encode m)" "length (encode m) \<le> 65535"
proof -
  have "1 < length (encode m) \<and> length (encode m) \<le> 65535"
  proof (cases m)
    case (Log_Message s init nd tm rank str)
    then have len: "length s = 8" "length nd = 8" "length str \<le> 65487"
      using assms by (simp_all add: text_size)
    then obtain obj where obj: "header_object (word_of_nat (length str)) s init nd tm rank = Some obj"
      using object_some(4) by blast
    show ?thesis
      using log_bytes [OF len(1,2) obj len(3)] header_fields(9) [OF len(1,2) obj] len(3) Log_Message
      by (simp add: header_size_def)
  qed (use assms in \<open>simp_all add: instance_bytes_def register_object_eq create_object_eq end_object_eq error_object_eq offline_object_eq\<close>)
  then show "1 < length (encode m)" "length (encode m) \<le> 65535"
    by simp_all
qed

text \<open>The part of the stream that a buffer was emptied to.\<close>

lemma part_short:
  assumes "part_of c m"
  shows "length c < length (encode m) \<and> good m"
proof -
  obtain x where "x \<noteq> []" "encode m = c @ x" "good m"
    using assms unfolding part_of_def by metis
  then show ?thesis
    by simp
qed

definition begins :: "byte list \<Rightarrow> message list \<Rightarrow> bool" where
  "begins c ms \<longleftrightarrow> (\<exists>m. part_of c m \<and> (ms \<noteq> [] \<longrightarrow> m = hd ms))"

lemma replay_stops:
  assumes "rb_inv rb" "part_of (rb_content rb) m"
  shows "replay_buffer rb = Some (0, [], rb)"
proof (cases "readable_len rb > 1")
  case True
  then have "rb_content rb \<noteq> []"
    using length_content [OF assms(1)] by (auto simp: readable_len_def)
  then show ?thesis
    using message_part [OF assms] True by (simp add: replay_buffer.simps [of rb])
qed (simp add: replay_buffer.simps [of rb])

lemma replay_buffer_spec:
  assumes "rb_inv rb" "rb_content rb @ fut = stream ms @ tail" "\<forall>m \<in> set ms. good m" "part_of tail t"
  shows "\<exists>ms1 ms2 rb'. ms = ms1 @ ms2 \<and> replay_buffer rb = Some (length (stream ms1), concat (map events ms1), rb') \<and>
    rb_inv rb' \<and> rb_size rb' = rb_size rb \<and> rb_content rb' @ fut = stream ms2 @ tail \<and> begins (rb_content rb') ms2"
  using assms(1-3)
proof (induction ms arbitrary: rb)
  case Nil
  then have "part_of (rb_content rb) t"
    using assms(4) by (auto simp: part_of_def append_eq_append_conv2 intro: exI [of _ "fut @ _"])
  then show ?case
    using Nil replay_stops [OF Nil(1)] by (intro exI [of _ "[]"]) (auto simp: begins_def)
next
  case (Cons m ms)
  show ?case
  proof (cases "length (rb_content rb) < length (encode m)")
    case True
    have "rb_content rb @ fut = encode m @ (stream ms @ tail)"
      using Cons.prems(2) by simp
    then have "rb_content rb @ drop (length (rb_content rb)) (encode m) = encode m"
      using True by (metis append_eq_append_conv_if append_take_drop_id less_imp_le)
    then have part: "part_of (rb_content rb) m"
      using True Cons.prems(3) unfolding part_of_def by (intro conjI exI [of _ "drop (length (rb_content rb)) (encode m)"]) auto
    then show ?thesis
      using Cons.prems replay_stops [OF Cons.prems(1) part]
      by (intro exI [of _ "[]"] exI [of _ "m # ms"] exI [of _ rb]) (auto simp: begins_def)
  next
    case False
    define rest where "rest = drop (length (encode m)) (rb_content rb)"
    have "take (length (encode m)) (rb_content rb @ fut) = encode m"
      using Cons.prems(2) by simp
    then have "take (length (encode m)) (rb_content rb) = encode m"
      using False by simp
    then have rest: "rb_content rb = encode m @ rest"
      unfolding rest_def by (metis append_take_drop_id)
    then have fut: "rest @ fut = stream ms @ tail"
      using Cons.prems(2) by simp
    have good: "good m" "\<forall>m \<in> set ms. good m"
      using Cons.prems(3) by simp_all
    obtain rb1 where rb1: "replay_message rb = Some (length (encode m), events m, rb1)" "rb_inv rb1" "rb_content rb1 = rest" "rb_size rb1 = rb_size rb"
      using message_full [OF Cons.prems(1) rest good(1)] by (auto simp: steps_to_def)
    obtain ms1 ms2 rb' where r: "ms = ms1 @ ms2" "replay_buffer rb1 = Some (length (stream ms1), concat (map events ms1), rb')"
        "rb_inv rb'" "rb_size rb' = rb_size rb1" "rb_content rb' @ fut = stream ms2 @ tail" "begins (rb_content rb') ms2"
      using Cons.IH [OF rb1(2) _ good(2)] fut rb1(3) by auto
    have "1 < readable_len rb"
      using encode_bounds(1) [OF good(1)] rest length_content [OF Cons.prems(1)] by (simp add: readable_len_def)
    then have "replay_buffer rb = Some (length (stream (m # ms1)), concat (map events (m # ms1)), rb')"
      using rb1(1) r(2) encode_bounds(1) [OF good(1)] by (auto simp: replay_buffer.simps [of rb])
    then show ?thesis
      using r rb1(4) by (intro exI [of _ "m # ms1"] exI [of _ ms2] exI [of _ rb']) simp
  qed
qed

lemma fill_buffer_spec:
  assumes "rb_inv rb" "d \<noteq> []" "length d \<le> writable_len rb"
  shows "\<exists>rb'. fill_buffer rb d = Some rb' \<and> rb_inv rb' \<and> rb_content rb' = rb_content rb @ d \<and> rb_size rb' = rb_size rb"
proof -
  let ?c = "continuously_writable rb" and ?w = "writable_len rb"
  have "0 < length d"
    using assms(2) by simp
  then have w1: "0 < ?w"
    using assms(3) by linarith
  then have w2: "?c \<le> ?w"
    using assms(1) by (auto simp: rb_inv_def turn_eq_def continuously_writable_def writable_len_def)
  note w = w1 w2
  have arr: "writable_array rb = Some [(rb_wr rb, ?c), (0, ?w - ?c)]"
    using w(2) by (simp add: writable_array_def)
  have "rb_readable rb + length d \<le> rb_size rb" "rb_wr rb \<le> rb_size rb" "turn_eq (rb_size rb) (rb_wr rb) (rb_rd rb + rb_readable rb)"
    using assms by (auto simp: rb_inv_def writable_len_def)
  then obtain rb1 where rb1: "copy_in rb (rb_wr rb) d = Some rb1" "rot_put rb (rb_readable rb) d rb1"
    using copy_in_rot_put [OF assms(1)] by blast
  obtain rb' where rb': "write_advance rb1 (length d) = Some rb'" "rb_inv rb'" "rb_content rb' = rb_content rb @ d" "rb_size rb' = rb_size rb"
    using rot_put_append [OF rb1(2) assms(1,3)] by blast
  define st where "st = scatter (rb_mem rb) [(rb_wr rb, ?c), (0, ?w - ?c)] (split_lens [?c, ?w - ?c] d)"
  have "map_option (\<lambda>m. rb\<lparr>rb_mem := m\<rparr>) st = Some rb1"
    unfolding st_def using write_array_two(2) [OF assms(1) w(1) order_refl, of d] w(2) assms(3) rb1(1) by (simp add: min_absorb1)
  then obtain m where m: "st = Some m" "rb1 = rb\<lparr>rb_mem := m\<rparr>"
    by auto
  have "fill_buffer rb d = st \<bind> (\<lambda>m. write_advance (rb\<lparr>rb_mem := m\<rparr>) (length d))"
    unfolding fill_buffer_def st_def by (simp only: arr Option.bind.bind_lunit list.map snd_conv)
  then show ?thesis
    using rb' m by simp
qed

lemma delivered_bounds: "delivered ns avail \<le> avail" "0 < avail \<Longrightarrow> 0 < delivered ns avail"
  by (cases ns; simp)+

lemma replay_file_spec:
  assumes "rb_inv rb" "rb_size rb = 65536" "rb_content rb @ bytes = stream ms @ tail" "\<forall>m \<in> set ms. good m"
    "part_of tail t" "begins (rb_content rb) ms"
  shows "replay_file ns bytes rb = Some (length (stream ms), concat (map events ms))"
  using assms(1-4,6)
proof (induction "length bytes" arbitrary: ns bytes rb ms rule: less_induct)
  case less
  obtain m where m: "part_of (rb_content rb) m" "ms \<noteq> [] \<Longrightarrow> m = hd ms"
    using less.prems(5) by (auto simp: begins_def)
  then have short: "length (rb_content rb) < length (encode m)" "good m"
    using part_short by blast+
  then have w: "0 < writable_len rb"
    using encode_bounds(2) [of m] less.prems(2) writable_len_content [OF less.prems(1)] by simp
  let ?n = "delivered ns (min (writable_len rb) (length bytes))"
  have n: "?n \<le> writable_len rb" "?n \<le> length bytes"
    using delivered_bounds(1) [of ns "min (writable_len rb) (length bytes)"] by auto
  show ?case
  proof (cases "bytes = []")
    case True
    have "ms = []"
    proof (rule ccontr)
      assume "ms \<noteq> []"
      then have "length (encode m) \<le> length (stream ms)"
        using m(2) by (cases ms) auto
      then show False
        using arg_cong [OF less.prems(3), of length] short True by simp
    qed
    then show ?thesis
      using True delivered_bounds(1) [of ns 0] by (simp add: replay_file.simps [of ns])
  next
    case False
    then have pos: "0 < ?n"
      using w by (intro delivered_bounds(2)) simp
    obtain rb1 where rb1: "fill_buffer rb (take ?n bytes) = Some rb1" "rb_inv rb1"
        "rb_content rb1 = rb_content rb @ take ?n bytes" "rb_size rb1 = rb_size rb"
      using fill_buffer_spec [OF less.prems(1), of "take ?n bytes"] pos n False by auto
    have "rb_content rb1 @ drop ?n bytes = stream ms @ tail"
      using rb1(3) less.prems(3) by simp
    then obtain ms1 ms2 rb2 where r: "ms = ms1 @ ms2" "replay_buffer rb1 = Some (length (stream ms1), concat (map events ms1), rb2)"
        "rb_inv rb2" "rb_size rb2 = rb_size rb1" "rb_content rb2 @ drop ?n bytes = stream ms2 @ tail" "begins (rb_content rb2) ms2"
      using replay_buffer_spec [OF rb1(2) _ less.prems(4) assms(5)] by blast
    have "replay_file (tl ns) (drop ?n bytes) rb2 = Some (length (stream ms2), concat (map events ms2))"
      using less.hyps [of "drop ?n bytes" rb2 ms2 "tl ns"] r rb1(4) less.prems(2,4) pos False by simp
    then show ?thesis
      using rb1(1) r(1,2) pos by (simp add: replay_file.simps [of ns bytes] Let_def)
  qed
qed



section \<open>The limits of the encoder\<close>

text \<open>The first three functions need a limit that is exact: with more room they copy past the object.\<close>

lemma encode_exact:
  "good (Register_Message ty s nd pn tm pit expire) \<Longrightarrow>
     encode_register ty s nd pn tm pit expire (1 + register_size) = Some (1 + register_size, encode (Register_Message ty s nd pn tm pit expire))"
  "good (Create_Message ty s nd pn init pit) \<Longrightarrow>
     encode_create ty s nd pn init pit (1 + create_size) = Some (1 + create_size, encode (Create_Message ty s nd pn init pit))"
  "good (End_Message s nd init end_tm) \<Longrightarrow>
     encode_end s nd init end_tm (1 + end_size) = Some (1 + end_size, encode (End_Message s nd init end_tm))"
  by (simp_all add: encode_register_def encode_create_def encode_end_def encode_object_def instance_bytes_def mem_get_def
      register_object_eq create_object_eq end_object_eq register_size_def create_size_def end_size_def)

lemma encode_runs_over:
  "good (Register_Message ty s nd pn tm pit expire) \<Longrightarrow> 1 + register_size < limit \<Longrightarrow> encode_register ty s nd pn tm pit expire limit = None"
  by (simp add: encode_register_def encode_object_def instance_bytes_def mem_get_def register_object_eq register_size_def)

text \<open>
  Property C40. A log that \<open>can_write_log\<close> admits is written within the limit, and the number returned is that of the
  bytes written. For a longer text, which \<open>LinkLogger::push\<close> hands on all the same once it has a new buffer, the
  number is too small by \<open>2 ^ 16\<close>.
\<close>

theorem write_log_size:
  assumes "length s = 8" "length nd = 8" "unat sz \<le> length data"
  shows "\<exists>n d. write_log s init nd tm rank data sz = Some (n, d) \<and> length d = 48 + unat sz \<and>
    (if unat sz \<le> 65487 then unat n = length d else unat n + 2 ^ 16 = length d) \<and>
    (can_write_log (unat sz) limit \<longrightarrow> unat n = length d \<and> length d \<le> limit)"
proof -
  have sz_less: "unat sz < 2 ^ 16"
    using unsigned_less [of sz] by simp
  have "unat (48 + sz) = (if unat sz \<le> 65487 then 48 + unat sz else 48 + unat sz - 2 ^ 16)"
    using sz_less by (simp add: unat_word_ariths(1) mod_if)
  then show ?thesis
    using assms sz_less
    by (auto simp: write_log_def instance_bytes_def header_object_eq mem_get_def header_size_def can_write_log_def)
qed

theorem write_log_size_witness:
  "\<exists>n d. write_log (replicate 8 1) 5 (replicate 8 2) 7 2 [104, 105, 33] 2 = Some (n, d) \<and> length d = 48 + unat (2 :: 16 word) \<and>
    (if unat (2 :: 16 word) \<le> 65487 then unat n = length d else unat n + 2 ^ 16 = length d) \<and>
    (can_write_log (unat (2 :: 16 word)) 100 \<longrightarrow> unat n = length d \<and> length d \<le> 100)"
  by (rule write_log_size) simp_all

end
