(* ===== verification/LinkStorage.thy ===== *)
theory LinkStorage
  imports LinkCodec
begin

text \<open>
  The storage of a link log center (\<open>LogSystem/linkLog/LinkLogInterpreter\<close>, class \<open>LinkLogStorage\<close>), the handling of
  a log by the center, and the search.

  The logs of a logger are a chain: the header of each has the location of the one before, and the index has the
  location of the last. The index is a B+ tree under a cache, which \<open>BPMap\<close> and \<open>LRUCache\<close> show to be a map with its
  ranges in order; here it is the sorted list of its pairs. The names of the files and the deletions are trees too, and maps
  here. A file is its bytes; a write to it succeeds. A key that is not in the index where the cache loads it, an
  \<open>assert\<close> that fails and a file that is not open are \<open>None\<close>.
\<close>

section \<open>The state\<close>

type_synonym location = "time \<times> 32 word"

record index_value =
  iv_parent_init :: time
  iv_parent_node :: mark
  iv_type :: byte
  iv_latest_file :: time
  iv_latest_index :: "32 word"

record file_record =
  lr_file :: time
  lr_latest :: time
  lr_index :: nat
  lr_written :: nat

record storage =
  st_records :: "file_record list"
  st_index :: "(mark \<times> index_value) list"
  st_names :: "(time \<times> 32 word) list"
  st_deletions :: "time \<Rightarrow> mark option"
  st_logs :: time
  st_disk :: "time \<Rightarrow> byte list option"

definition index_key :: "mark \<Rightarrow> time \<Rightarrow> mark \<Rightarrow> mark option" where
  "index_key service init nd = do {
     obj \<leftarrow> mem_put (replicate (8 + 8 + 8) 0) 0 service;
     obj \<leftarrow> mem_put obj 8 (word_bytes 8 init);
     mem_put obj (8 + 8) nd
   }"

text \<open>A pair enters a sorted list, or takes the place of the one with its key.\<close>

fun sorted_put :: "('k \<Rightarrow> 'k \<Rightarrow> bool) \<Rightarrow> 'k \<Rightarrow> 'v \<Rightarrow> ('k \<times> 'v) list \<Rightarrow> ('k \<times> 'v) list" where
  "sorted_put lt k v [] = [(k, v)]"
| "sorted_put lt k v ((k', v') # xs) =
     (if k = k' then (k, v) # xs else if lt k k' then (k, v) # (k', v') # xs else (k', v') # sorted_put lt k v xs)"

definition index_put :: "mark \<Rightarrow> index_value \<Rightarrow> (mark \<times> index_value) list \<Rightarrow> (mark \<times> index_value) list" where
  "index_put = sorted_put mark_less"

definition name_put :: "time \<Rightarrow> 32 word \<Rightarrow> (time \<times> 32 word) list \<Rightarrow> (time \<times> 32 word) list" where
  "name_put = sorted_put (\<lambda>a b. sint a < sint b)"

definition index_find :: "mark \<Rightarrow> mark \<Rightarrow> (mark \<times> index_value) list \<Rightarrow> (mark \<times> index_value) list" where
  "index_find a b ix = filter (\<lambda>(k, v). \<not> mark_less k a \<and> mark_less k b) ix"

definition index_above :: "mark \<Rightarrow> (mark \<times> index_value) list \<Rightarrow> (mark \<times> index_value) list" where
  "index_above a ix = filter (\<lambda>(k, v). \<not> mark_less k a) ix"

definition MAX_UINT :: "32 word" where
  "MAX_UINT = - 1"

section \<open>Loggers and records\<close>

definition new_logger :: "storage \<Rightarrow> mark \<Rightarrow> mark \<Rightarrow> time \<Rightarrow> mark \<Rightarrow> byte \<Rightarrow> time \<Rightarrow> (bool \<times> storage) option" where
  "new_logger st service nd parent_init parent ty init = do {
     key \<leftarrow> index_key service init nd;
     let val = \<lparr>iv_parent_init = parent_init, iv_parent_node = parent, iv_type = ty, iv_latest_file = 0,
       iv_latest_index = MAX_UINT\<rparr>;
     if map_of (st_index st) key \<noteq> None then Some (False, st)
     else Some (True, st\<lparr>st_index := index_put key val (st_index st)\<rparr>)
   }"

definition update_logger :: "storage \<Rightarrow> mark \<Rightarrow> mark \<Rightarrow> time \<Rightarrow> mark \<Rightarrow> byte \<Rightarrow> time \<Rightarrow> storage option" where
  "update_logger st service nd parent_init parent ty init = do {
     key \<leftarrow> index_key service init nd;
     val \<leftarrow> map_of (st_index st) key;
     Some (st\<lparr>st_index := index_put key
       (val\<lparr>iv_parent_init := parent_init, iv_parent_node := parent, iv_type := ty\<rparr>) (st_index st)\<rparr>)
   }"

definition end_logger :: "storage \<Rightarrow> mark \<Rightarrow> mark \<Rightarrow> time \<Rightarrow> time \<Rightarrow> storage option" where
  "end_logger st service nd init now = do {
     key \<leftarrow> index_key service init nd;
     Some (if st_deletions st now \<noteq> None then st else st\<lparr>st_deletions := (st_deletions st)(now := Some key)\<rparr>)
   }"

definition LOG_FILE_LIMIT_SIZE :: nat where
  "LOG_FILE_LIMIT_SIZE = 2 ^ 28"

definition new_record :: "time \<Rightarrow> file_record" where
  "new_record now = \<lparr>lr_file = now, lr_latest = now, lr_index = 0, lr_written = 0\<rparr>"

definition add_record :: "storage \<Rightarrow> nat \<Rightarrow> time \<Rightarrow> storage" where
  "add_record st sz now =
     (let rs = (if st_records st = [] \<or> lr_index (last (st_records st)) \<ge> LOG_FILE_LIMIT_SIZE
                then st_records st @ [new_record now] else st_records st);
          r = last rs
      in st\<lparr>st_records := butlast rs @ [r\<lparr>lr_index := w32 (lr_index r + sz)\<rparr>]\<rparr>)"

section \<open>Logs\<close>

definition header_offset1 :: nat where
  "header_offset1 = 1 + 2"

definition header_offset2 :: nat where
  "header_offset2 = 1 + 2 + 8"

definition header_offset3 :: nat where
  "header_offset3 = 1 + 2 + 8 + 4"

definition header_key :: "byte list \<Rightarrow> mark option" where
  "header_key header = mem_get header (2 + 8 + 4) 24"

definition handle_a_log :: "storage \<Rightarrow> byte list \<Rightarrow> ring \<Rightarrow> (storage \<times> ring) option" where
  "handle_a_log st header rb = do {
     key \<leftarrow> header_key header;
     val \<leftarrow> map_of (st_index st) key;
     (n, rb) \<leftarrow> rb_change_written rb header_offset1 (word_bytes 8 (iv_latest_file val));
     (n, rb) \<leftarrow> rb_change_written rb header_offset2 (word_bytes 4 (iv_latest_index val));
     check (st_records st \<noteq> []);
     let r = last (st_records st);
     Some (st\<lparr>st_index := index_put key
       (val\<lparr>iv_latest_file := lr_file r, iv_latest_index := word_of_nat (lr_index r)\<rparr>) (st_index st)\<rparr>, rb)
   }"

text \<open>The values of the tree of the names are \<open>uint32\<close>, so that of the times only the low half is kept.\<close>

definition open_new_log_file :: "storage \<Rightarrow> file_record \<Rightarrow> time \<Rightarrow> storage option" where
  "open_new_log_file st r end_time = do {
     let names = (if st_names st = [] then [] else name_put (fst (last (st_names st))) (ucast end_time) (st_names st));
     check (map_of names (lr_file r) = None);
     Some (st\<lparr>st_names := name_put (lr_file r) (ucast (lr_latest r)) names, st_logs := lr_file r,
       st_disk := (st_disk st)(lr_file r := Some (case st_disk st (lr_file r) of Some d \<Rightarrow> d | None \<Rightarrow> []))\<rparr>)
   }"

definition append_log :: "storage \<Rightarrow> byte list \<Rightarrow> storage option" where
  "append_log st d = do {
     old \<leftarrow> st_disk st (st_logs st);
     Some (st\<lparr>st_disk := (st_disk st)(st_logs st := Some (old @ d))\<rparr>)
   }"

lemma append_log_records: "append_log st d = Some st' \<Longrightarrow> st_records st' = st_records st"
  by (auto simp: append_log_def split: bind_splits)

lemma open_new_records: "open_new_log_file st r e = Some st' \<Longrightarrow> st_records st' = st_records st"
  by (auto simp: open_new_log_file_def Let_def split: bind_splits)

text \<open>The loop of \<open>write_to_file\<close> over the records from \<open>i\<close> on.\<close>

function write_records :: "storage \<Rightarrow> nat \<Rightarrow> ring \<Rightarrow> nat \<Rightarrow> nat \<Rightarrow> (nat \<times> storage \<times> ring) option" where
  "write_records st i rb sz written =
     (if i < length (st_records st) \<and> sz \<noteq> 0
      then do {
        let r = st_records st ! i;
        st \<leftarrow> (if i > 0 then open_new_log_file st r (lr_latest (st_records st ! (i - 1))) else Some st);
        let can_write = min (w32 (lr_index r + 2 ^ 32 - lr_written r)) sz;
        d \<leftarrow> gather (rb_mem rb) (read_array rb can_write 0);
        st \<leftarrow> append_log st (concat d);
        check (length (concat d) = can_write);
        rb \<leftarrow> read_advance rb can_write;
        let st = st\<lparr>st_records := (st_records st)[i := r\<lparr>lr_written := lr_written r + can_write\<rparr>]\<rparr>;
        check (lr_index r = lr_written r + can_write);
        write_records st (i + 1) rb (sz - can_write) (written + can_write)
      } else Some (written, st, rb))"
  by pat_completeness auto

termination
  by (relation "measure (\<lambda>(st, i, rb, sz, written). length (st_records st) - i)")
    (auto dest!: append_log_records open_new_records split: if_splits)

declare write_records.simps [simp del]

definition write_to_file :: "storage \<Rightarrow> ring \<Rightarrow> nat \<Rightarrow> (nat \<times> storage \<times> ring) option" where
  "write_to_file st rb sz = do {
     check (readable_len rb \<ge> sz);
     write_records st 0 rb sz 0
   }"

section \<open>Search\<close>

text \<open>The end of the keys of a service: the service after it, unless that does not exist.\<close>

fun service_after :: "byte list \<Rightarrow> byte list option" where
  "service_after [] = None"
| "service_after (b # bs) = (case service_after bs of
       Some cs \<Rightarrow> Some (b # cs)
     | None \<Rightarrow> if b \<noteq> 0 then Some ((b + 1) # replicate (length bs) 0) else None)"

record query_set =
  qs_locations :: "location list"
  qs_current :: time
  qs_pos :: int
  qs_at :: int

text \<open>\<open>priority_queue\<close>: \<open>top\<close> is the greatest location.\<close>

definition location_less :: "location \<Rightarrow> location \<Rightarrow> bool" where
  "location_less a b \<longleftrightarrow> sint (fst a) < sint (fst b) \<or> fst a = fst b \<and> snd a < snd b"

fun location_top :: "location list \<Rightarrow> location option" where
  "location_top [] = None"
| "location_top (a # as) = (case location_top as of None \<Rightarrow> Some a | Some b \<Rightarrow> Some (if location_less a b then b else a))"

definition get_query_set :: "storage \<Rightarrow> mark \<Rightarrow> (mark \<Rightarrow> index_value \<Rightarrow> bool) \<Rightarrow> query_set option option" where
  "get_query_set st service filt = do {
     begin_key \<leftarrow> mem_put (replicate (8 + 8 + 8) 0) 0 service;
     end_key \<leftarrow> mem_put (replicate (8 + 8 + 8) 0) 0 (case service_after service of Some e \<Rightarrow> e | None \<Rightarrow> replicate 8 0);
     let results = (if service_after service \<noteq> None then index_find begin_key end_key (st_index st)
       else index_above begin_key (st_index st));
     if results = [] then Some None
     else do {
       check (list_all (\<lambda>(k, v). \<not> mark_less k begin_key \<and> mark_less k end_key) results);
       Some (Some \<lparr>qs_locations = map (\<lambda>(k, v). (iv_latest_file v, iv_latest_index v))
           (filter (\<lambda>(k, v). filt k v \<and> iv_latest_index v \<noteq> MAX_UINT) results),
         qs_current = 0, qs_pos = 0, qs_at = 0\<rparr>)
     }
   }"

text \<open>Reading \<open>n\<close> bytes of the file of the query, which moves its position by what there was.\<close>

definition read_log_file :: "storage \<Rightarrow> query_set \<Rightarrow> nat \<Rightarrow> byte list \<times> query_set" where
  "read_log_file st q n =
     (let d = (case st_disk st (qs_current q) of Some f \<Rightarrow> take n (drop (nat (qs_at q)) f) | None \<Rightarrow> [])
      in (d, q\<lparr>qs_at := qs_at q + int (length d)\<rparr>))"

text \<open>What a step of the query comes to: it failed and the set is destroyed, there is no room, or a log was read.\<close>

datatype query_step = Broken | No_Room query_set | Log_Read "byte list" query_set

definition prepare_read_a_log :: "storage \<Rightarrow> query_set \<Rightarrow> (byte list \<times> query_set) option" where
  "prepare_read_a_log st q = do {
     (file_name, i) \<leftarrow> location_top (qs_locations q);
     q \<leftarrow> (if file_name \<noteq> qs_current q
       then if st_disk st file_name \<noteq> None then Some (q\<lparr>qs_current := file_name, qs_pos := 0, qs_at := 0\<rparr>) else None
       else Some q);
     let q = q\<lparr>qs_at := qs_at q + (uint i - qs_pos q)\<rparr>;
     let q = q\<lparr>qs_pos := uint i\<rparr>;
     let (msg, q) = read_log_file st q header_offset3;
     if length msg \<noteq> header_offset3 then None else Some (msg, q\<lparr>qs_pos := qs_pos q + int header_offset3\<rparr>)
   }"

definition querying_a_log :: "storage \<Rightarrow> query_set \<Rightarrow> nat \<Rightarrow> query_step" where
  "querying_a_log st q limit =
     (case prepare_read_a_log st q of
        None \<Rightarrow> Broken
      | Some (msg, q) \<Rightarrow>
          (let log_size = unat (bytes_word (take 2 (drop 1 msg)) :: 16 word);
               need_write = log_size + (1 + header_size) - header_offset3
           in if log_size + (1 + header_size) > limit then No_Room q
              else let (d, q) = read_log_file st q need_write
                in if length d \<noteq> need_write then Broken
                   else let q = q\<lparr>qs_pos := qs_pos q + int need_write\<rparr>;
                            top = the (location_top (qs_locations q));
                            prev = (bytes_word (take 8 (drop header_offset1 msg)), bytes_word (take 4 (drop header_offset2 msg)));
                            q = q\<lparr>qs_locations := (if snd prev \<noteq> MAX_UINT then [prev] else []) @ remove1 top (qs_locations q)\<rparr>
                        in Log_Read (msg @ d) q))"

lemma log_read_length:
  assumes "querying_a_log st q limit = Log_Read d q'"
  shows "0 < length d" "length d \<le> limit"
proof -
  obtain msg q1 where "prepare_read_a_log st q = Some (msg, q1)"
    using assms by (cases "prepare_read_a_log st q") (auto simp: querying_a_log_def)
  moreover from this have "length msg = header_offset3"
    by (auto simp: prepare_read_a_log_def Let_def split: bind_splits prod.splits if_splits)
  ultimately show "0 < length d" "length d \<le> limit"
    using assms by (auto simp: querying_a_log_def Let_def header_offset3_def header_size_def split: if_splits prod.splits)
qed

text \<open>\<open>query\<close>: the logs that fit, and the set if there is more.\<close>

function query :: "storage \<Rightarrow> query_set \<Rightarrow> nat \<Rightarrow> byte list \<times> query_set option" where
  "query st q limit =
     (if limit > 0 \<and> qs_locations q \<noteq> []
      then (case querying_a_log st q limit of
          Broken \<Rightarrow> ([], None)
        | No_Room q \<Rightarrow> ([], Some q)
        | Log_Read d q \<Rightarrow> (let (ds, r) = query st q (limit - length d) in (d @ ds, r)))
      else ([], if qs_locations q \<noteq> [] then Some q else None))"
  by pat_completeness auto

termination
  by (relation "measure (\<lambda>(st, q, limit). limit)") (auto dest: log_read_length)

declare query.simps [simp del]

text \<open>The loop of \<open>search_link\<close>: the rest of the buffer, and the set. It may run as long as the chains lead on.\<close>

datatype found_log = Found mark time mark byte time "byte list"

partial_function (option) search_loop ::
  "storage \<Rightarrow> nat \<Rightarrow> byte list \<Rightarrow> query_set option \<Rightarrow> found_log list option" where
  "search_loop st buffer_size rest point =
     (if point = None \<and> rest = [] then Some []
      else do {
        (rest, point) \<leftarrow> (if rest = []
           then do {
             let (rest, p) = (case point of Some q \<Rightarrow> query st q buffer_size | None \<Rightarrow> ([], None));
             check (\<not> (rest = [] \<and> p \<noteq> None));
             Some (rest, p)
           } else Some (rest, point));
        if rest = [] then Some []
        else do {
          header \<leftarrow> mem_get rest 1 header_size;
          log_size \<leftarrow> header_log_size header;
          check (length rest \<ge> unat log_size + (1 + header_size));
          text \<leftarrow> mem_get rest (1 + header_size) (unat log_size);
          service \<leftarrow> header_service header;
          init \<leftarrow> header_init_time header;
          nd \<leftarrow> header_node header;
          rank \<leftarrow> header_rank header;
          tm \<leftarrow> header_time header;
          ls \<leftarrow> search_loop st buffer_size (drop (unat log_size + (1 + header_size)) rest) point;
          Some (Found service init nd rank tm text # ls)
        }
      })"

definition search_link :: "storage \<Rightarrow> mark \<Rightarrow> (mark \<Rightarrow> index_value \<Rightarrow> bool) \<Rightarrow> nat \<Rightarrow> found_log list option" where
  "search_link st service filt buffer_size = do {
     check (buffer_size \<ge> 2 ^ 16);
     point \<leftarrow> get_query_set st service filt;
     search_loop st buffer_size [] point
   }"

section \<open>The order of the keys\<close>

lemma mark_less_irrefl [simp]: "\<not> mark_less a a"
  by (induction a) auto

lemma mark_less_trans: "mark_less a b \<Longrightarrow> mark_less b c \<Longrightarrow> mark_less a c"
proof (induction a b arbitrary: c rule: mark_less.induct)
  case (1 a as b bs)
  then show ?case
    by (cases c) (auto dest: less_trans)
qed auto

lemma mark_less_total: "length a = length b \<Longrightarrow> a \<noteq> b \<Longrightarrow> mark_less a b \<or> mark_less b a"
proof (induction a b rule: list_induct2)
  case (Cons x xs y ys)
  then show ?case
    by (cases "x = y") auto
qed simp

lemma mark_less_append:
  "length p = length q \<Longrightarrow> mark_less (p @ r) (q @ z) \<longleftrightarrow> mark_less p q \<or> p = q \<and> mark_less r z"
  by (induction p q rule: list_induct2) auto

lemma not_less_zeros: "\<not> mark_less r (replicate n 0)"
proof (induction n arbitrary: r)
  case (Suc n)
  then show ?case
    by (cases r) auto
qed (simp add: mark_less.simps)

lemma map_of_sorted_put: "map_of (sorted_put lt k v xs) = (map_of xs)(k \<mapsto> v)"
  by (induction lt k v xs rule: sorted_put.induct) (auto simp: fun_eq_iff)

lemma set_sorted_put: "fst ` set (sorted_put lt k v xs) = insert k (fst ` set xs)"
  by (induction lt k v xs rule: sorted_put.induct) (auto simp: image_iff)

definition index_ok :: "(mark \<times> index_value) list \<Rightarrow> bool" where
  "index_ok ix \<longleftrightarrow> sorted_wrt mark_less (map fst ix) \<and> (\<forall>k \<in> fst ` set ix. length k = 24)"

lemma index_ok_put:
  assumes "index_ok ix" "length k = 24"
  shows "index_ok (index_put k v ix)"
  using assms
proof (induction ix)
  case (Cons e ix)
  obtain k' v' where e: "e = (k', v')"
    by fastforce
  have keys: "fst ` set (index_put k v ix) = insert k (fst ` set ix)" "length k' = 24"
    using Cons.prems e by (auto simp: index_put_def set_sorted_put index_ok_def)
  have ok: "index_ok ix" "\<forall>x \<in> fst ` set ix. mark_less k' x"
    using Cons.prems e by (auto simp: index_ok_def)
  then have rec: "index_ok (index_put k v ix)"
    using Cons by blast
  consider "k = k'" | "mark_less k k'" | "mark_less k' k" "\<not> mark_less k k'" "k \<noteq> k'"
    using mark_less_total [of k k'] Cons.prems(2) keys(2) by auto
  then show ?case
  proof cases
    case 1
    then show ?thesis
      using Cons.prems e by (simp add: index_put_def index_ok_def)
  next
    case 2
    then show ?thesis
      using Cons.prems e by (auto simp: index_put_def index_ok_def intro: mark_less_trans)
  next
    case 3
    then have "index_put k v (e # ix) = e # index_put k v ix"
      by (simp add: e index_put_def)
    moreover have "\<forall>x \<in> fst ` set (index_put k v ix). mark_less k' x"
      using keys(1) ok(2) 3 by auto
    ultimately show ?thesis
      using rec keys(2) by (auto simp: index_ok_def e)
  qed
qed (simp add: index_put_def index_ok_def)

lemma index_distinct: "index_ok ix \<Longrightarrow> distinct (map fst ix)"
proof (induction ix)
  case (Cons e ix)
  then have "fst e \<notin> fst ` set ix"
    by (auto simp: index_ok_def)
  then show ?case
    using Cons by (auto simp: index_ok_def)
qed simp

section \<open>The keys of a service\<close>

lemma service_after_zeros: "service_after (replicate n 0) = None"
  by (induction n) auto

lemma service_after_last: "b \<noteq> 0 \<Longrightarrow> service_after (xs @ [b]) = Some (xs @ [b + 1])"
  by (induction xs) auto

lemma service_range:
  assumes "b \<noteq> (- 1 :: byte)" "length p = length xs + 1"
  shows "\<not> mark_less p (xs @ [b]) \<and> mark_less p (xs @ [b + 1]) \<longleftrightarrow> p = xs @ [b]"
proof -
  obtain ps c where p: "p = ps @ [c]" "length ps = length xs"
    using assms(2) by (cases p rule: rev_cases) auto
  have "unat (- 1 :: byte) = 255"
    by (simp add: unsigned_minus_1_eq_mask mask_eq_exp_minus_1)
  then have "unat b \<noteq> 255"
    using assms(1) by (auto simp: word_unat_eq_iff)
  moreover have "unat b < 256"
    using unsigned_less [of b] by simp
  ultimately have "unat (b + 1) = unat b + 1"
    by (simp add: unat_word_ariths(1))
  then have up: "b < b + 1" "c < b + 1 \<longleftrightarrow> c \<le> b"
    by (simp_all add: word_less_nat_alt word_le_nat_alt less_Suc_eq_le)
  then show ?thesis
    using up by (auto simp: p mark_less_append not_less)
qed

text \<open>
  The range of a query is that of the service, when the last byte of its name is not the greatest and not zero.
\<close>

lemma key_in_range:
  assumes "length s = 8" "last s \<noteq> 0" "last s \<noteq> - 1" "length k = 24"
  shows "\<exists>e. service_after s = Some e \<and> length e = 8 \<and>
    (\<not> mark_less k (s @ replicate 16 0) \<and> mark_less k (e @ replicate 16 0) \<longleftrightarrow> take 8 k = s)"
proof -
  obtain xs b where s: "s = xs @ [b]" "length xs = 7"
    using assms(1) by (cases s rule: rev_cases) auto
  define e where "e = xs @ [b + 1]"
  have e: "service_after s = Some e" "length e = 8"
    using service_after_last [of b xs] assms(2) s by (simp_all add: e_def)
  define p r where "p = take 8 k" and "r = drop 8 k"
  then have k: "k = p @ r" "length p = 8" "take 8 k = p"
    using assms(4) by simp_all
  have "\<not> mark_less p s \<and> mark_less p e \<longleftrightarrow> p = s"
    using service_range [of b p xs] assms(3) s k(2) by (simp add: e_def)
  moreover have "mark_less k (q @ replicate 16 0) \<longleftrightarrow> mark_less p q" if "length q = 8" for q
    using mark_less_append [of p q r "replicate 16 0"] not_less_zeros [of r 16] k(1,2) that by simp
  ultimately show ?thesis
    using e assms(1) k(3) by blast
qed

section \<open>The chains of the logs\<close>

record log =
  lg_service :: mark
  lg_init :: time
  lg_node :: mark
  lg_rank :: byte
  lg_time :: time
  lg_text :: "byte list"

definition log_key :: "log \<Rightarrow> mark" where
  "log_key l = lg_service l @ word_bytes 8 (lg_init l) @ lg_node l"

definition log_ok :: "log \<Rightarrow> bool" where
  "log_ok l \<longleftrightarrow> length (lg_service l) = 8 \<and> length (lg_node l) = 8 \<and> length (lg_text l) \<le> 65487"

definition log_raw :: "location \<Rightarrow> log \<Rightarrow> byte list" where
  "log_raw a l = ot_byte Link_Log # word_bytes 2 (word_of_nat (length (lg_text l)) :: 16 word) @ word_bytes 8 (fst a) @
     word_bytes 4 (snd a) @ lg_service l @ word_bytes 8 (lg_init l) @ lg_node l @ word_bytes 8 (lg_time l) @ [lg_rank l] @ lg_text l"

definition log_len :: "log \<Rightarrow> nat" where
  "log_len l = 48 + length (lg_text l)"

lemma length_log_raw: "log_ok l \<Longrightarrow> length (log_raw a l) = log_len l"
  by (simp add: log_raw_def log_len_def log_ok_def)

text \<open>A history: the logs with their places in the file, and the last of a key.\<close>

type_synonym history = "(nat \<times> log) list"

definition prev :: "time \<Rightarrow> history \<Rightarrow> mark \<Rightarrow> location" where
  "prev F H k = (case filter (\<lambda>(p, l). log_key l = k) H of
       [] \<Rightarrow> (0, MAX_UINT)
     | xs \<Rightarrow> (F, word_of_nat (fst (last xs))))"

definition stored :: "time \<Rightarrow> byte list \<Rightarrow> history \<Rightarrow> bool" where
  "stored F D H \<longleftrightarrow> (\<forall>A p l B. H = A @ (p, l) # B \<longrightarrow> log_ok l \<and> p < 2 ^ 28 \<and>
     take (log_len l) (drop p D) = log_raw (prev F A (log_key l)) l \<and> (\<forall>(q, m) \<in> set A. q < p))"

definition keys_of :: "history \<Rightarrow> mark set" where
  "keys_of H = log_key ` snd ` set H"

lemma prev_Nil [simp]: "prev F [] k = (0, MAX_UINT)"
  by (simp add: prev_def)

lemma prev_snoc: "prev F (H @ [(p, l)]) k = (if log_key l = k then (F, word_of_nat p) else prev F H k)"
  by (cases "filter (\<lambda>(p, l). log_key l = k) H") (simp_all add: prev_def)

lemma prev_none: "k \<notin> keys_of H \<Longrightarrow> prev F H k = (0, MAX_UINT)"
proof (induction H rule: rev_induct)
  case (snoc e H)
  then show ?case
    by (cases e) (auto simp: prev_snoc keys_of_def)
qed simp

lemma prev_some: "k \<in> keys_of H \<Longrightarrow> \<exists>p l. (p, l) \<in> set H \<and> log_key l = k \<and> prev F H k = (F, word_of_nat p)"
proof (induction H rule: rev_induct)
  case (snoc e H)
  obtain p l where e: "e = (p, l)"
    by fastforce
  show ?case
  proof (cases "log_key l = k")
    case True
    then show ?thesis
      by (intro exI [of _ p] exI [of _ l]) (simp add: e prev_snoc)
  next
    case False
    then have "k \<in> keys_of H"
      using snoc.prems by (auto simp: e keys_of_def)
    then obtain p' l' where "(p', l') \<in> set H" "log_key l' = k" "prev F H k = (F, word_of_nat p')"
      using snoc.IH by blast
    then show ?thesis
      using False by (intro exI [of _ p'] exI [of _ l']) (simp add: e prev_snoc)
  qed
qed (simp add: keys_of_def)

lemmas prev_cases = prev_none prev_some

lemma stored_snoc:
  "stored F D (H @ [(p, l)]) \<longleftrightarrow> stored F D H \<and> log_ok l \<and> p < 2 ^ 28 \<and>
     take (log_len l) (drop p D) = log_raw (prev F H (log_key l)) l \<and> (\<forall>(q, m) \<in> set H. q < p)"
proof
  assume s: "stored F D (H @ [(p, l)])"
  then have "stored F D H"
    unfolding stored_def by (metis append.assoc append_Cons)
  then show "stored F D H \<and> log_ok l \<and> p < 2 ^ 28 \<and>
     take (log_len l) (drop p D) = log_raw (prev F H (log_key l)) l \<and> (\<forall>(q, m) \<in> set H. q < p)"
    using s unfolding stored_def by blast
next
  assume s: "stored F D H \<and> log_ok l \<and> p < 2 ^ 28 \<and>
     take (log_len l) (drop p D) = log_raw (prev F H (log_key l)) l \<and> (\<forall>(q, m) \<in> set H. q < p)"
  show "stored F D (H @ [(p, l)])"
    unfolding stored_def
  proof (intro allI impI)
    fix A p' l' B
    assume eq: "H @ [(p, l)] = A @ (p', l') # B"
    show "log_ok l' \<and> p' < 2 ^ 28 \<and> take (log_len l') (drop p' D) = log_raw (prev F A (log_key l')) l' \<and> (\<forall>(q, m) \<in> set A. q < p')"
    proof (cases B rule: rev_cases)
      case Nil
      then show ?thesis
        using eq s by simp
    next
      case (snoc B' b)
      then have "H = A @ (p', l') # B'"
        using eq by simp
      then show ?thesis
        using s unfolding stored_def by blast
    qed
  qed
qed

lemma stored_Nil [simp]: "stored F D []"
  by (simp add: stored_def)

lemma prev_filter:
  assumes "k \<in> K"
  shows "prev F (filter (\<lambda>(p, l). log_key l \<in> K) H) k = prev F H k"
proof -
  have "filter (\<lambda>(p, l). log_key l = k) (filter (\<lambda>(p, l). log_key l \<in> K) H) = filter (\<lambda>(p, l). log_key l = k) H"
    using assms by (auto intro: filter_cong)
  then show ?thesis
    by (simp add: prev_def)
qed

lemma stored_filter:
  "stored F D H \<Longrightarrow> stored F D (filter (\<lambda>(p, l). log_key l \<in> K) H)"
proof (induction H rule: rev_induct)
  case (snoc e H)
  then show ?case
    by (cases e) (auto simp: stored_snoc prev_filter)
qed simp

lemma stored_place: "stored F D H \<Longrightarrow> (p, l) \<in> set H \<Longrightarrow> p < 2 ^ 28"
  by (auto simp: stored_def in_set_conv_decomp)

section \<open>The search follows the chains\<close>

text \<open>A query that has yet to read the logs of \<open>R\<close>.\<close>

definition query_ok :: "time \<Rightarrow> history \<Rightarrow> query_set \<Rightarrow> bool" where
  "query_ok F R q \<longleftrightarrow> qs_pos q = qs_at q \<and> distinct (qs_locations q) \<and> set (qs_locations q) = prev F R ` keys_of R"

lemma location_less_asym: "location_less a b \<Longrightarrow> \<not> location_less b a"
  by (auto simp: location_less_def)

lemma location_less_irrefl [simp]: "\<not> location_less a a"
  by (simp add: location_less_def)

lemma location_top_in: "location_top as = Some a \<Longrightarrow> a \<in> set as"
  by (induction as arbitrary: a) (auto split: option.splits if_splits)

lemma location_top_max:
  "m \<in> set as \<Longrightarrow> (\<And>a. a \<in> set as \<Longrightarrow> a \<noteq> m \<Longrightarrow> location_less a m) \<Longrightarrow> location_top as = Some m"
proof (induction as)
  case (Cons a as)
  show ?case
  proof (cases "m \<in> set as")
    case True
    then show ?thesis
      using Cons by (cases "a = m") auto
  next
    case False
    then have "m = a" "\<And>b. location_top as = Some b \<Longrightarrow> location_less b a"
      using Cons.prems location_top_in [of as] by auto
    then show ?thesis
      using location_less_asym by (auto split: option.split)
  qed
qed simp

lemma place_less:
  assumes "p < 2 ^ 28" "q < p"
  shows "location_less (F, word_of_nat q) (F, word_of_nat p)"
  using assms by (simp add: location_less_def word_less_nat_alt unat_of_nat)

lemma place_not_max: "p < 2 ^ 28 \<Longrightarrow> (word_of_nat p :: 32 word) \<noteq> MAX_UINT"
proof
  assume p: "p < 2 ^ 28" "(word_of_nat p :: 32 word) = MAX_UINT"
  have "unat (MAX_UINT) = 2 ^ 32 - 1"
    by (simp add: MAX_UINT_def unsigned_minus_1_eq_mask mask_eq_exp_minus_1)
  moreover have "unat (word_of_nat p :: 32 word) = p"
    using p(1) by (simp add: unat_of_nat)
  ultimately show False
    using p by simp
qed

lemma prev_max:
  assumes "stored F D H"
  shows "snd (prev F H k) = MAX_UINT \<longleftrightarrow> k \<notin> keys_of H"
proof (cases "k \<in> keys_of H")
  case True
  then obtain p l where "(p, l) \<in> set H" "prev F H k = (F, word_of_nat p)"
    using prev_cases(2) by metis
  then show ?thesis
    using True place_not_max stored_place [OF assms] by auto
qed (simp add: prev_cases(1))

lemma query_top:
  assumes "stored F D (R @ [(p, l)])" "query_ok F (R @ [(p, l)]) q"
  shows "location_top (qs_locations q) = Some (F, word_of_nat p)"
proof (rule location_top_max)
  have "prev F (R @ [(p, l)]) (log_key l) = (F, word_of_nat p)" "log_key l \<in> keys_of (R @ [(p, l)])"
    by (simp_all add: prev_snoc keys_of_def)
  then show "(F, word_of_nat p) \<in> set (qs_locations q)"
    using assms(2) by (simp add: query_ok_def) (metis image_eqI)
next
  fix a assume a: "a \<in> set (qs_locations q)" "a \<noteq> (F, word_of_nat p)"
  then obtain k where k: "k \<in> keys_of (R @ [(p, l)])" "a = prev F (R @ [(p, l)]) k"
    using assms(2) by (auto simp: query_ok_def)
  then have "k \<noteq> log_key l"
    using a(2) by (auto simp: prev_snoc)
  then have "k \<in> keys_of R" "a = prev F R k"
    using k by (auto simp: keys_of_def prev_snoc)
  then obtain p' l' where "(p', l') \<in> set R" "a = (F, word_of_nat p')"
    using prev_cases(2) by metis
  then show "location_less a (F, word_of_nat p)"
    using assms(1) by (auto simp: stored_snoc intro: place_less)
qed

lemma stored_same: "stored F D H \<Longrightarrow> (p, l) \<in> set H \<Longrightarrow> (p, l') \<in> set H \<Longrightarrow> l = l'"
proof (induction H rule: rev_induct)
  case (snoc e H)
  then show ?case
    by (cases e) (auto simp: stored_snoc)
qed simp

lemma prev_inj:
  assumes s: "stored F D R" and k: "k \<in> keys_of R" "k' \<in> keys_of R" and eq: "prev F R k = prev F R k'"
  shows "k = k'"
proof -
  obtain r m where r: "(r, m) \<in> set R" "log_key m = k" "prev F R k = (F, word_of_nat r)"
    using prev_cases(2) [OF k(1)] by metis
  obtain r' m' where r': "(r', m') \<in> set R" "log_key m' = k'" "prev F R k' = (F, word_of_nat r')"
    using prev_cases(2) [OF k(2)] by metis
  have "r < 2 ^ 28" "r' < 2 ^ 28"
    using stored_place [OF s] r(1) r'(1) by blast+
  then have "r = r'"
    using eq r(3) r'(3) by (simp add: word_unat_eq_iff unat_of_nat)
  then have "m = m'"
    using stored_same [OF s] r(1) r'(1) by blast
  then show ?thesis
    using r(2) r'(2) by simp
qed

lemma query_next:
  assumes "stored F D (R @ [(p, l)])" "query_ok F (R @ [(p, l)]) q"
    and q': "qs_pos q' = qs_at q'" "qs_locations q' = (if snd (prev F R (log_key l)) \<noteq> MAX_UINT then [prev F R (log_key l)] else [])
       @ remove1 (F, word_of_nat p) (qs_locations q)"
  shows "query_ok F R q'"
proof -
  let ?k = "log_key l" and ?a = "(F, word_of_nat p) :: location"
  have s: "stored F D R" "\<forall>(r, m) \<in> set R. r < p" "p < 2 ^ 28"
    using assms(1) by (simp_all add: stored_snoc)
  have other: "prev F R k \<noteq> ?a \<and> snd (prev F R k) \<noteq> MAX_UINT" if k: "k \<in> keys_of R" for k
  proof -
    obtain r m where r: "(r, m) \<in> set R" "prev F R k = (F, word_of_nat r)"
      using prev_cases(2) [OF k] by metis
    then have "r < p"
      using s(2) by auto
    then show ?thesis
      using r place_less [OF s(3), of r F] place_not_max [of r] s(3) by auto
  qed
  have "keys_of (R @ [(p, l)]) = insert ?k (keys_of R - {?k})"
    by (auto simp: keys_of_def)
  moreover have "prev F (R @ [(p, l)]) ` (keys_of R - {?k}) = prev F R ` (keys_of R - {?k})"
    by (rule image_cong) (auto simp: prev_snoc)
  moreover have "prev F (R @ [(p, l)]) ?k = ?a"
    by (simp add: prev_snoc)
  ultimately have "prev F (R @ [(p, l)]) ` keys_of (R @ [(p, l)]) = insert ?a (prev F R ` (keys_of R - {?k}))"
    by (simp only: image_insert)
  then have locs: "set (qs_locations q) = insert ?a (prev F R ` (keys_of R - {?k}))" "distinct (qs_locations q)"
    using assms(2) unfolding query_ok_def by simp_all
  have rest: "set (remove1 ?a (qs_locations q)) = prev F R ` (keys_of R - {?k})"
  proof -
    have "?a \<notin> prev F R ` (keys_of R - {?k})"
      using other by (metis (no_types) DiffD1 imageE)
    then show ?thesis
      using locs by (simp add: set_remove1_eq)
  qed
  have "distinct (qs_locations q') \<and> set (qs_locations q') = prev F R ` keys_of R"
  proof (cases "?k \<in> keys_of R")
    case True
    then have "prev F R ?k \<notin> prev F R ` (keys_of R - {?k})"
      using prev_inj [OF s(1)] by blast
    then show ?thesis
      using True other [OF True] rest locs(2) q'(2) by auto
  next
    case False
    then show ?thesis
      using prev_cases(1) [OF False] rest locs(2) q'(2) by simp
  qed
  then show ?thesis
    using q'(1) by (simp add: query_ok_def)
qed

lemma raw_fields:
  assumes "log_ok l"
  shows "take 2 (drop 1 (take 15 (log_raw a l))) = word_bytes 2 (word_of_nat (length (lg_text l)) :: 16 word)"
    "take 8 (drop 3 (take 15 (log_raw a l))) = word_bytes 8 (fst a)"
    "take 4 (drop 11 (take 15 (log_raw a l))) = word_bytes 4 (snd a)"
  by (simp_all add: log_raw_def)

lemma querying_spec:
  assumes disk: "st_disk st F = Some D" and R: "stored F D (R @ [(p, l)])" "query_ok F (R @ [(p, l)]) q"
  shows "if log_len l \<le> limit
     then \<exists>q'. querying_a_log st q limit = Log_Read (log_raw (prev F R (log_key l)) l) q' \<and> query_ok F R q'
     else \<exists>q'. querying_a_log st q limit = No_Room q' \<and> query_ok F (R @ [(p, l)]) q'"
proof -
  let ?w = "log_raw (prev F R (log_key l)) l" and ?n = "length (lg_text l)"
  have l: "log_ok l" "p < 2 ^ 28" "take (log_len l) (drop p D) = ?w"
    using R(1) by (simp_all add: stored_snoc)
  have len: "length ?w = log_len l" "log_len l = 48 + ?n" "?n \<le> 65487"
    using length_log_raw [OF l(1)] l(1) by (simp_all add: log_len_def log_ok_def)
  have top: "location_top (qs_locations q) = Some (F, word_of_nat p)"
    using query_top [OF R] by simp
  have at: "uint (word_of_nat p :: 32 word) = int p"
    using l(2) by (simp add: unsigned_of_nat take_bit_eq_mod)
  have pos: "qs_pos q = qs_at q"
    using R(2) by (simp add: query_ok_def)
  have first: "take 15 (drop p D) = take 15 ?w"
    using arg_cong [OF l(3), of "take 15"] len by simp
  have second: "take (log_len l - 15) (drop (p + 15) D) = drop 15 ?w"
    using arg_cong [OF l(3), of "drop 15"] by (simp add: drop_take add.commute)
  have fl: "length (take 15 ?w) = 15" "length (drop 15 ?w) = log_len l - 15"
    using len by simp_all
  define q1 where "q1 = q\<lparr>qs_current := F, qs_pos := int p + 15, qs_at := int p + 15\<rparr>"
  have prep: "prepare_read_a_log st q = Some (take 15 ?w, q1)"
    using top at pos first fl(1) disk
    by (auto simp: prepare_read_a_log_def read_log_file_def header_offset3_def Let_def q1_def)
  have size: "unat (bytes_word (take 2 (drop 1 (take 15 ?w))) :: 16 word) = ?n"
    using raw_fields(1) [OF l(1)] unat_size [OF len(3)] by simp
  have offsets: "header_offset1 = 3" "header_offset2 = 11"
    by (simp_all add: header_offset1_def header_offset2_def)
  have prev: "bytes_word (take 8 (drop header_offset1 (take 15 ?w))) = fst (prev F R (log_key l))"
      "bytes_word (take 4 (drop header_offset2 (take 15 ?w))) = snd (prev F R (log_key l))"
    unfolding offsets raw_fields(2,3) [OF l(1)] by simp_all
  show ?thesis
  proof (cases "log_len l \<le> limit")
    case True
    define q2 where "q2 = q\<lparr>qs_current := F, qs_pos := int p + 15 + int (log_len l - 15), qs_at := int p + int (log_len l),
      qs_locations := (if snd (prev F R (log_key l)) \<noteq> MAX_UINT then [prev F R (log_key l)] else [])
        @ remove1 (F, word_of_nat p) (qs_locations q)\<rparr>"
    have read: "read_log_file st q1 (log_len l - 15) = (drop 15 ?w, q1\<lparr>qs_at := int p + int (log_len l)\<rparr>)"
      using disk second fl(2) len(2) by (simp add: read_log_file_def q1_def nat_add_distrib)
    have room: "\<not> limit < ?n + (1 + header_size)"
      using True by (simp add: log_len_def header_size_def)
    have need: "?n + (1 + header_size) - header_offset3 = log_len l - 15"
      by (simp add: log_len_def header_size_def header_offset3_def)
    have "querying_a_log st q limit = Log_Read (take 15 ?w @ drop 15 ?w) q2"
      unfolding querying_a_log_def prep Let_def option.case prod.case size need prev
      using True top read fl(2) room by (simp add: q1_def q2_def del: append_take_drop_id)
    moreover have "query_ok F R q2"
      by (rule query_next [OF R]) (use len(2) in \<open>simp_all add: q2_def\<close>)
    ultimately show ?thesis
      using True by simp
  next
    case False
    then have "querying_a_log st q limit = No_Room q1"
      unfolding querying_a_log_def prep Let_def option.case prod.case size
      by (simp add: log_len_def header_size_def)
    moreover have "query_ok F (R @ [(p, l)]) q1"
      using R(2) by (simp add: query_ok_def q1_def)
    ultimately show ?thesis
      using False by simp
  qed
qed

text \<open>The bytes of the logs of \<open>R\<close> in the file, the last first.\<close>

definition raw_in :: "byte list \<Rightarrow> nat \<times> log \<Rightarrow> byte list" where
  "raw_in D = (\<lambda>(p, l). take (log_len l) (drop p D))"

lemma query_ok_empty: "query_ok F R q \<Longrightarrow> qs_locations q = [] \<longleftrightarrow> R = []"
  by (cases "qs_locations q") (auto simp: query_ok_def keys_of_def)

lemma query_spec:
  assumes "st_disk st F = Some D" "stored F D R" "query_ok F R q"
  shows "\<exists>R1 R2 r. R = R1 @ R2 \<and> query st q limit = (concat (map (raw_in D) (rev R2)), r) \<and>
    (if R1 = [] then r = None else \<exists>q'. r = Some q' \<and> query_ok F R1 q') \<and> (R \<noteq> [] \<longrightarrow> 65535 \<le> limit \<longrightarrow> R2 \<noteq> [])"
  using assms(2,3)
proof (induction R arbitrary: q limit rule: rev_induct)
  case Nil
  then have "query st q limit = ([], None)"
    using query_ok_empty [of F "[]" q] by (simp add: query.simps [of st q])
  then show ?case
    by (intro exI [of _ "[]"]) simp
next
  case (snoc e R)
  obtain p l where e: "e = (p, l)"
    by fastforce
  have ne: "qs_locations q \<noteq> []"
    using query_ok_empty snoc.prems(2) by blast
  have R: "stored F D (R @ [(p, l)])" "query_ok F (R @ [(p, l)]) q" "log_ok l"
    using snoc.prems by (simp_all add: e stored_snoc)
  show ?case
  proof (cases "log_len l \<le> limit")
    case True
    let ?w = "log_raw (prev F R (log_key l)) l"
    obtain q' where q': "querying_a_log st q limit = Log_Read ?w q'" "query_ok F R q'"
      using querying_spec [OF assms(1) R(1,2), of limit] True by auto
    have st: "stored F D R" and w: "raw_in D (p, l) = ?w"
      using R(1) by (simp_all add: stored_snoc raw_in_def)
    obtain R1 R2 r where r: "R = R1 @ R2" "query st q' (limit - length ?w) = (concat (map (raw_in D) (rev R2)), r)"
        "if R1 = [] then r = None else \<exists>q'. r = Some q' \<and> query_ok F R1 q'"
      using snoc.IH [OF st q'(2), of "limit - length ?w"] by (elim exE conjE) (rule that)
    have "0 < limit"
      using True by (simp add: log_len_def)
    then have "query st q limit = (?w @ concat (map (raw_in D) (rev R2)), r)"
      using ne q'(1) r(2) by (simp add: query.simps [of st q])
    then show ?thesis
      using r(1,3) w by (intro exI [of _ R1] exI [of _ "R2 @ [e]"] exI [of _ r]) (simp add: e)
  next
    case False
    obtain q' where q': "limit > 0 \<Longrightarrow> querying_a_log st q limit = No_Room q'" "query_ok F (R @ [(p, l)]) q'"
      using querying_spec [OF assms(1) R(1,2), of limit] False by auto
    have "\<exists>q'. query st q limit = ([], Some q') \<and> query_ok F (R @ [(p, l)]) q'"
      using ne q' R(2) by (cases "limit > 0") (auto simp: query.simps [of st q])
    moreover have "\<not> 65535 \<le> limit"
      using False R(3) by (simp add: log_len_def log_ok_def)
    ultimately show ?thesis
      by (intro exI [of _ "R @ [e]"] exI [of _ "[]"]) (auto simp: e)
  qed
qed

definition found :: "log \<Rightarrow> found_log" where
  "found l = Found (lg_service l) (lg_init l) (lg_node l) (lg_rank l) (lg_time l) (lg_text l)"

lemma raw_header:
  assumes "log_ok l"
  shows "\<exists>h. log_raw a l = ot_byte Link_Log # h @ lg_text l \<and> length h = header_size \<and>
    header_log_size h = Some (word_of_nat (length (lg_text l))) \<and> header_service h = Some (lg_service l) \<and>
    header_init_time h = Some (lg_init l) \<and> header_node h = Some (lg_node l) \<and> header_rank h = Some (lg_rank l) \<and>
    header_time h = Some (lg_time l)"
proof (intro exI conjI)
  let ?h = "word_bytes 2 (word_of_nat (length (lg_text l)) :: 16 word) @ word_bytes 8 (fst a) @
     word_bytes 4 (snd a) @ lg_service l @ word_bytes 8 (lg_init l) @ lg_node l @ word_bytes 8 (lg_time l) @ [lg_rank l]"
  show "log_raw a l = ot_byte Link_Log # ?h @ lg_text l"
    by (simp add: log_raw_def)
  show "length ?h = header_size" "header_log_size ?h = Some (word_of_nat (length (lg_text l)))"
      "header_service ?h = Some (lg_service l)" "header_init_time ?h = Some (lg_init l)" "header_node ?h = Some (lg_node l)"
      "header_rank ?h = Some (lg_rank l)" "header_time ?h = Some (lg_time l)"
    using assms
    by (simp_all add: log_ok_def header_size_def header_log_size_def header_service_def header_init_time_def header_node_def
        header_rank_def header_time_def get_defs)
qed

lemma search_parse:
  assumes "log_ok l"
  shows "search_loop st n (log_raw a l @ rest) point = map_option (Cons (found l)) (search_loop st n rest point)"
proof -
  obtain h where h: "log_raw a l = ot_byte Link_Log # h @ lg_text l" "length h = header_size"
      "header_log_size h = Some (word_of_nat (length (lg_text l)))" "header_service h = Some (lg_service l)"
      "header_init_time h = Some (lg_init l)" "header_node h = Some (lg_node l)" "header_rank h = Some (lg_rank l)"
      "header_time h = Some (lg_time l)"
    using raw_header [OF assms] by metis
  have len: "unat (word_of_nat (length (lg_text l)) :: 16 word) = length (lg_text l)"
    using assms by (intro unat_size) (simp add: log_ok_def)
  have get: "mem_get (ot_byte Link_Log # h @ lg_text l @ rest) 1 header_size = Some h"
      "mem_get (ot_byte Link_Log # h @ lg_text l @ rest) (1 + header_size) (length (lg_text l)) = Some (lg_text l)"
    using h(2) by (simp_all add: mem_get_def)
  have drop: "drop (length (lg_text l) + (1 + header_size)) (ot_byte Link_Log # h @ lg_text l @ rest) = rest"
    using h(2) by simp
  show ?thesis
    apply (subst search_loop.simps)
    using get h(2-) len drop by (simp add: h(1) found_def map_option_case split: option.split bind_split)
qed

lemma search_more:
  assumes "query st q n = (rest, point)" "rest \<noteq> []"
  shows "search_loop st n [] (Some q) = search_loop st n rest point"
  using assms by (subst (1 2) search_loop.simps) simp

lemma search_none: "search_loop st n [] None = Some []"
  by (subst search_loop.simps) simp

lemma search_over: "query st q n = ([], None) \<Longrightarrow> search_loop st n [] (Some q) = Some []"
  by (subst search_loop.simps) simp

lemma raw_in_stored:
  assumes "stored F D R" "e \<in> set R"
  shows "\<exists>a. raw_in D e = log_raw a (snd e) \<and> log_ok (snd e)"
proof -
  obtain p l where e: "e = (p, l)"
    by fastforce
  then obtain A B where "R = A @ (p, l) # B"
    using assms(2) split_list by fastforce
  then have "log_ok l \<and> take (log_len l) (drop p D) = log_raw (prev F A (log_key l)) l"
    using assms(1) unfolding stored_def by blast
  then show ?thesis
    by (intro exI [of _ "prev F A (log_key l)"]) (simp add: raw_in_def e)
qed

lemma search_pending:
  assumes "stored F D R" "set es \<subseteq> set R"
  shows "search_loop st n (concat (map (raw_in D) es)) point =
    map_option ((@) (map (found \<circ> snd) es)) (search_loop st n [] point)"
  using assms(2)
proof (induction es)
  case (Cons e es)
  then have "e \<in> set R"
    by simp
  then obtain a where "raw_in D e = log_raw a (snd e)" "log_ok (snd e)"
    using raw_in_stored [OF assms(1)] by blast
  then show ?case
    using Cons search_parse [of "snd e" st n a] by (simp add: option.map_comp o_def)
next
  case Nil
  show ?case
    by (cases "search_loop st n [] point") simp_all
qed

lemma search_spec:
  assumes "st_disk st F = Some D" "stored F D R" "query_ok F R q" "65535 \<le> n"
  shows "search_loop st n [] (Some q) = Some (map (found \<circ> snd) (rev R))"
  using assms(2,3)
proof (induction "length R" arbitrary: R q rule: less_induct)
  case less
  obtain R1 R2 r where r: "R = R1 @ R2" "query st q n = (concat (map (raw_in D) (rev R2)), r)"
      "if R1 = [] then r = None else \<exists>q'. r = Some q' \<and> query_ok F R1 q'" "R \<noteq> [] \<longrightarrow> R2 \<noteq> []"
    using query_spec [OF assms(1) less.prems, of n] assms(4) by blast
  show ?case
  proof (cases "R = []")
    case True
    then show ?thesis
      using r search_over by simp
  next
    case False
    then obtain e es where es: "rev R2 = e # es"
      using r(4) by (cases "rev R2") auto
    have sub: "set (rev R2) \<subseteq> set R"
      using r(1) by auto
    then obtain a where "raw_in D e = log_raw a (snd e)" "log_ok (snd e)"
      using raw_in_stored [OF less.prems(1), of e] es by auto
    then have "concat (map (raw_in D) (rev R2)) \<noteq> []"
      using length_log_raw [of "snd e" a] by (auto simp: es log_len_def)
    then have "search_loop st n [] (Some q) = map_option ((@) (map (found \<circ> snd) (rev R2))) (search_loop st n [] r)"
      using search_more [OF r(2)] search_pending [OF less.prems(1) sub] by simp
    moreover have "search_loop st n [] r = Some (map (found \<circ> snd) (rev R1))"
    proof (cases "R1 = []")
      case True
      then show ?thesis
        using r(3) search_none by simp
    next
      case R1: False
      then obtain q' where q': "r = Some q'" "query_ok F R1 q'"
        using r(3) by auto
      have "stored F D R1"
        using less.prems(1) r(1) unfolding stored_def by (metis append.assoc append_Cons)
      then show ?thesis
        using less.hyps [OF _ _ q'(2)] r(1,4) False q'(1) by simp
    qed
    ultimately show ?thesis
      using r(1) by simp
  qed
qed

text \<open>The storage holds a history, in the file that is open.\<close>

definition storage_holds :: "storage \<Rightarrow> byte list \<Rightarrow> history \<Rightarrow> bool" where
  "storage_holds st D H \<longleftrightarrow> st_disk st (st_logs st) = Some D \<and> stored (st_logs st) D H \<and> index_ok (st_index st) \<and>
     keys_of H \<subseteq> fst ` set (st_index st) \<and>
     (\<forall>k v. map_of (st_index st) k = Some v \<longrightarrow> (iv_latest_file v, iv_latest_index v) = prev (st_logs st) H k)"

lemma put_key: "length s = 8 \<Longrightarrow> mem_put (replicate 24 0) 0 s = Some (s @ replicate 16 0)"
  by (simp add: mem_put_def)

definition picked :: "storage \<Rightarrow> mark \<Rightarrow> (mark \<Rightarrow> index_value \<Rightarrow> bool) \<Rightarrow> mark set" where
  "picked st s filt = {k. \<exists>v. map_of (st_index st) k = Some v \<and> take 8 k = s \<and> filt k v}"

lemma get_query_set_spec:
  fixes filt :: "mark \<Rightarrow> index_value \<Rightarrow> bool"
  assumes st: "storage_holds st D H" and s: "length s = 8" "last s \<noteq> 0" "last s \<noteq> - 1"
  defines "R \<equiv> filter (\<lambda>(p, l). log_key l \<in> picked st s filt) H"
  shows "get_query_set st s filt = Some None \<and> R = [] \<or>
    (\<exists>q. get_query_set st s filt = Some (Some q) \<and> query_ok (st_logs st) R q)"
proof -
  let ?F = "st_logs st"
  have ix: "index_ok (st_index st)" "stored ?F D H"
      "\<And>k v. map_of (st_index st) k = Some v \<Longrightarrow> (iv_latest_file v, iv_latest_index v) = prev ?F H k"
    using st by (auto simp: storage_holds_def)
  have dist: "distinct (map fst (st_index st))"
    using index_distinct [OF ix(1)] .
  have key: "length k = 24" if "(k, v) \<in> set (st_index st)" for k v
    using ix(1) that by (force simp: index_ok_def)
  have "length (replicate 16 (0 :: byte) @ s) = 24"
    using s(1) by simp
  then obtain e where e: "service_after s = Some e" "length e = 8"
    using key_in_range [OF s] by metis
  define results where "results = filter (\<lambda>(k, v). take 8 k = s) (st_index st)"
  have range: "\<not> mark_less k (s @ replicate 16 0) \<and> mark_less k (e @ replicate 16 0) \<longleftrightarrow> take 8 k = s" if "length k = 24" for k
    using key_in_range [OF s that] e(1) by auto
  have find: "index_find (s @ replicate 16 0) (e @ replicate 16 0) (st_index st) = results"
    unfolding index_find_def results_def using key range by (intro filter_cong) auto
  have all: "list_all (\<lambda>(k, v). \<not> mark_less k (s @ replicate 16 0) \<and> mark_less k (e @ replicate 16 0)) results"
    using key range by (auto simp: results_def list_all_iff)
  define chosen where "chosen = filter (\<lambda>(k, v). filt k v \<and> iv_latest_index v \<noteq> MAX_UINT) results"
  define q where "q = \<lparr>qs_locations = map (\<lambda>(k, v). (iv_latest_file v, iv_latest_index v)) chosen, qs_current = 0, qs_pos = 0, qs_at = 0\<rparr>"
  have get: "get_query_set st s filt = Some (if results = [] then None else Some q)"
    using e find all by (simp add: get_query_set_def put_key s(1) q_def chosen_def)
  have R: "stored ?F D R"
    unfolding R_def by (rule stored_filter [OF ix(2)])
  have same: "prev ?F R k = prev ?F H k" if "k \<in> picked st s filt" for k
    unfolding R_def by (rule prev_filter [OF that])
  have keys: "keys_of R = picked st s filt \<inter> keys_of H"
    by (force simp: R_def keys_of_def image_iff)
  have chosen: "(k, v) \<in> set chosen \<longleftrightarrow> map_of (st_index st) k = Some v \<and> k \<in> keys_of R" for k v
  proof -
    have "map_of (st_index st) k = Some v \<Longrightarrow> k \<in> picked st s filt \<longleftrightarrow> take 8 k = s \<and> filt k v"
      by (auto simp: picked_def)
    moreover have "map_of (st_index st) k = Some v \<Longrightarrow> iv_latest_index v = MAX_UINT \<longleftrightarrow> k \<notin> keys_of H"
      using ix(3) [of k v] prev_max [OF ix(2), of k] by (metis snd_conv)
    ultimately show ?thesis
      using dist by (auto simp: chosen_def results_def keys)
  qed
  have loc: "(\<lambda>(k, v). (iv_latest_file v, iv_latest_index v)) x = prev ?F R (fst x)" if "x \<in> set chosen" for x
  proof -
    obtain k v where x: "x = (k, v)"
      by fastforce
    then have "map_of (st_index st) k = Some v" "k \<in> keys_of R"
      using that chosen by blast+
    then show ?thesis
      using ix(3) [of k v] same [of k] keys x by simp
  qed
  have fst_chosen: "fst ` set chosen = keys_of R"
  proof (intro equalityI subsetI)
    fix k assume "k \<in> fst ` set chosen"
    then show "k \<in> keys_of R"
      using chosen by auto
  next
    fix k assume k: "k \<in> keys_of R"
    then have "k \<in> fst ` set (st_index st)"
      using keys st unfolding storage_holds_def by blast
    then obtain v where "map_of (st_index st) k = Some v"
      by (metis map_of_eq_None_iff not_None_eq)
    then have "(k, v) \<in> set chosen"
      using chosen k by blast
    then show "k \<in> fst ` set chosen"
      by force
  qed
  have locs: "qs_locations q = map (prev ?F R) (map fst chosen)"
    using loc by (simp add: q_def)
  then have set_locs: "set (qs_locations q) = prev ?F R ` keys_of R"
    by (simp add: fst_chosen [symmetric] image_comp)
  have "distinct (map fst chosen)"
    using dist by (auto simp: chosen_def results_def distinct_map inj_on_def)
  moreover have "inj_on (prev ?F R) (set (map fst chosen))"
    using prev_inj [OF R] fst_chosen by (auto intro: inj_onI)
  ultimately have "distinct (qs_locations q)"
    by (simp only: locs distinct_map)
  then have ok: "query_ok ?F R q"
    using set_locs by (simp add: query_ok_def q_def)
  show ?thesis
  proof (cases "results = []")
    case True
    then have "chosen = []"
      by (simp add: chosen_def)
    then have "R = []"
      using query_ok_empty [OF ok] by (simp add: q_def)
    then show ?thesis
      using get True by simp
  next
    case False
    then show ?thesis
      using get ok by simp
  qed
qed

theorem search_link_spec:
  assumes "storage_holds st D H" "length s = 8" "last s \<noteq> 0" "last s \<noteq> - 1" "2 ^ 16 \<le> n"
  shows "search_link st s filt n =
    Some (map (found \<circ> snd) (rev (filter (\<lambda>(p, l). log_key l \<in> picked st s filt) H)))"
proof -
  let ?R = "filter (\<lambda>(p, l). log_key l \<in> picked st s filt) H"
  have st: "st_disk st (st_logs st) = Some D" "stored (st_logs st) D ?R"
    using assms(1) stored_filter by (auto simp: storage_holds_def)
  consider "get_query_set st s filt = Some None" "?R = []"
    | q where "get_query_set st s filt = Some (Some q)" "query_ok (st_logs st) ?R q"
    using get_query_set_spec [OF assms(1-4), of filt] by blast
  then show ?thesis
  proof cases
    case 1
    then show ?thesis
      using assms(5) search_none by (simp add: search_link_def)
  next
    case 2
    then show ?thesis
      using search_spec [OF st 2(2), of n] assms(5) by (simp add: search_link_def)
  qed
qed


definition some_log :: "byte \<Rightarrow> byte list \<Rightarrow> log" where
  "some_log nd text = \<lparr>lg_service = replicate 8 7, lg_init = 5, lg_node = replicate 8 nd, lg_rank = 2, lg_time = 9, lg_text = text\<rparr>"

definition some_storage :: storage where
  "some_storage =
     (let v = \<lparr>iv_parent_init = 0, iv_parent_node = replicate 8 0, iv_type = 1, iv_latest_file = 3, iv_latest_index = 50\<rparr>
      in \<lparr>st_records = [\<lparr>lr_file = 3, lr_latest = 3, lr_index = 99, lr_written = 99\<rparr>], st_index = [(log_key (some_log 1 []), v)],
        st_names = [(3, 3)], st_deletions = Map.empty, st_logs = 3,
        st_disk = [3 \<mapsto> log_raw (0, MAX_UINT) (some_log 1 [104, 105]) @ log_raw (3, 0) (some_log 1 [33])]\<rparr>)"

lemma some_key: "log_key (some_log nd text) = log_key (some_log nd [])"
  by (simp add: log_key_def some_log_def)

lemma some_storage_holds:
  "storage_holds some_storage (log_raw (0, MAX_UINT) (some_log 1 [104, 105]) @ log_raw (3, 0) (some_log 1 [33]))
     ([(0, some_log 1 [104, 105])] @ [(50, some_log 1 [33])])"
proof -
  let ?a = "some_log 1 [104, 105]" and ?b = "some_log 1 [33]"
  have ok: "log_ok ?a" "log_ok ?b" "log_len ?a = 50" "log_len ?b = 49"
    by (simp_all add: log_ok_def some_log_def log_len_def)
  have len: "length (log_raw (0, MAX_UINT) ?a) = 50" "length (log_raw (3, 0) ?b) = 49"
    using length_log_raw [OF ok(1)] length_log_raw [OF ok(2)] ok(3,4) by simp_all
  have keys: "log_key ?a = log_key (some_log 1 [])" "log_key ?b = log_key (some_log 1 [])"
    using some_key by blast+
  have "stored 3 (log_raw (0, MAX_UINT) ?a @ log_raw (3, 0) ?b) ([] @ [(0, ?a)])"
    unfolding stored_snoc using ok len by simp
  moreover have "prev 3 ([] @ [(0, ?a)]) (log_key ?b) = (3, 0)"
    unfolding prev_snoc by (simp add: keys)
  ultimately have "stored 3 (log_raw (0, MAX_UINT) ?a @ log_raw (3, 0) ?b) (([] @ [(0, ?a)]) @ [(50, ?b)])"
    unfolding stored_snoc [of _ _ "[] @ [(0, ?a)]"] using ok len by simp
  moreover have "prev 3 (([] @ [(0, ?a)]) @ [(50, ?b)]) k = (if k = log_key (some_log 1 []) then (3, 50) else (0, MAX_UINT))" for k
    unfolding prev_snoc keys by simp
  moreover have "length (log_key (some_log 1 [])) = 24"
    by (simp add: log_key_def some_log_def)
  ultimately show ?thesis
    by (auto simp: storage_holds_def some_storage_def Let_def index_ok_def keys_of_def keys)
qed


text \<open>
  With another last byte the range is not that of the service: a name that ends in zero, as every name of less than eight
  bytes does, is searched together with those that it begins, and for one that ends in 255 there is nothing to find.
\<close>

lemma range_of_short_name:
  "service_after [115, 118, 99, 0, 0, 0, 0, 0] = Some [115, 118, 100, 0, 0, 0, 0, 0]"
  "\<not> mark_less [115, 118, 99, 49, 0, 0, 0, 0] [115, 118, 99, 0, 0, 0, 0, 0]"
  "mark_less [115, 118, 99, 49, 0, 0, 0, 0] [115, 118, 100, 0, 0, 0, 0, 0]"
  by simp_all

lemma range_of_last_name: "service_after (xs @ [- 1]) = Some (xs @ [0])"
  using service_after_last [of "- 1" xs] by simp

section \<open>When the file is full\<close>

text \<open>
  A log that arrives when the file has reached its limit is put down at the end of the old file, but its bytes are
  counted for the new one: \<open>add_record\<close> looks at the limit only after \<open>handle_a_log\<close> has used the record.
\<close>

lemma full_file_misplaces:
  assumes "handle_a_log st header rb = Some (st', rb')" "st_records st = rs @ [r]" "LOG_FILE_LIMIT_SIZE \<le> lr_index r"
    "header_key header = Some k"
  shows "\<exists>v. map_of (st_index st') k = Some v \<and> iv_latest_file v = lr_file r \<and> iv_latest_index v = word_of_nat (lr_index r)"
    "st_records (add_record st' n now) = rs @ [r, \<lparr>lr_file = now, lr_latest = now, lr_index = w32 n, lr_written = 0\<rparr>]"
  using assms
  by (auto simp: handle_a_log_def Let_def index_put_def map_of_sorted_put add_record_def new_record_def split: bind_splits)

end
