(* ===== verification/LinkCenter.thy ===== *)
theory LinkCenter
  imports LinkStorage
begin

text \<open>
  The center of the link log (\<open>LogSystem/linkLog/LinkLogCenter\<close>): it reads the messages of the servers from a ring
  buffer, tells its handler, keeps the loggers and the chains of the logs in the storage and writes what it has read to the
  file; and it waits for the two messages that belong to a remote child, its registration by the parent's server and
  its creation by its own.

  An iterator of the map of these, \<open>_check\<close>, is the name with the flag that the node was made with; the flags
  have numbers, and a flag that was deleted, or a node that was erased, cannot be used (\<open>None\<close>). The clock is an
  argument, which gives a time to each message. The address of a server, which is only handed on to the handler, is left out.
\<close>

section \<open>The state\<close>

record check_data =
  ck_parent :: mark
  ck_type :: byte
  ck_init :: time
  ck_parent_init :: time
  ck_flag :: nat

record check_timer =
  ct_expire :: time
  ct_ident :: "mark \<times> mark"
  ct_flag :: nat

datatype center_event = Heard replay_event | Went_Offline time

record center =
  ce_storage :: storage
  ce_check :: "mark \<times> mark \<Rightarrow> check_data option"
  ce_flags :: "nat \<Rightarrow> bool option"
  ce_next_flag :: nat
  ce_timers :: "check_timer list"
  ce_told :: "center_event list"

text \<open>
  The constructor of the storage: the file with the last of the names is opened to append to it; in an empty directory it is
  a new one. Its time comes back from the \<open>uint32\<close> of the tree of the names.
\<close>

definition open_storage :: "storage \<Rightarrow> time \<Rightarrow> storage" where
  "open_storage st now =
     (let names = (if st_names st = [] then name_put now (ucast now) [] else st_names st);
          (file_name, latest) = last names;
          d = (case st_disk st file_name of Some d \<Rightarrow> d | None \<Rightarrow> []);
          n = w32 (length d)
      in st\<lparr>st_names := names, st_logs := file_name, st_disk := (st_disk st)(file_name := Some d),
        st_records := [\<lparr>lr_file = file_name, lr_latest = ucast latest, lr_index = n, lr_written = n\<rparr>]\<rparr>)"

definition new_storage :: "time \<Rightarrow> storage" where
  "new_storage = open_storage \<lparr>st_records = [], st_index = [], st_names = [], st_deletions = Map.empty, st_logs = 0, st_disk = Map.empty\<rparr>"

definition new_center :: "time \<Rightarrow> center" where
  "new_center now = \<lparr>ce_storage = new_storage now, ce_check = Map.empty, ce_flags = Map.empty, ce_next_flag = 0,
     ce_timers = [], ce_told = []\<rparr>"

type_synonym center_step = "(nat \<times> center \<times> ring) option"

section \<open>Waiting for the other message\<close>

definition check_of_register :: "byte \<Rightarrow> mark \<Rightarrow> nat \<Rightarrow> check_data" where
  "check_of_register ty parent_node f = \<lparr>ck_parent = parent_node, ck_type = ty, ck_init = 0, ck_parent_init = 0, ck_flag = f\<rparr>"

definition check_of_create :: "byte \<Rightarrow> time \<Rightarrow> nat \<Rightarrow> check_data" where
  "check_of_create ty init f = \<lparr>ck_parent = replicate 8 0, ck_type = ty, ck_init = init, ck_parent_init = 0, ck_flag = f\<rparr>"

text \<open>\<open>try_emplace\<close> of a name that is not there, \<open>create\<close>, and the timer; and \<open>on_time\<close> with \<open>erase\<close>.\<close>

definition check_wait :: "center \<Rightarrow> mark \<times> mark \<Rightarrow> (nat \<Rightarrow> check_data) \<Rightarrow> time \<Rightarrow> center" where
  "check_wait c i d expire = c\<lparr>ce_check := (ce_check c)(i := Some (d (ce_next_flag c))),
     ce_flags := (ce_flags c)(ce_next_flag c := Some True),
     ce_timers := ce_timers c @ [\<lparr>ct_expire = expire, ct_ident = i, ct_flag = ce_next_flag c\<rparr>],
     ce_next_flag := ce_next_flag c + 1\<rparr>"

definition check_met :: "center \<Rightarrow> mark \<times> mark \<Rightarrow> center option" where
  "check_met c i = do {
     d \<leftarrow> ce_check c i;
     v \<leftarrow> ce_flags c (ck_flag d);
     Some (c\<lparr>ce_flags := (ce_flags c)(ck_flag d := Some False), ce_check := (ce_check c)(i := None)\<rparr>)
   }"

definition tell :: "center \<Rightarrow> center_event \<Rightarrow> center" where
  "tell c e = c\<lparr>ce_told := ce_told c @ [e]\<rparr>"

definition record_bytes :: "center \<Rightarrow> nat \<Rightarrow> time \<Rightarrow> center" where
  "record_bytes c n now = c\<lparr>ce_storage := add_record (ce_storage c) n now\<rparr>"

section \<open>The messages\<close>

definition ILLEGAL_LOGGER_TIMOUT :: time where
  "ILLEGAL_LOGGER_TIMOUT = 10 * 1000000000"

definition handle_register_logger :: "center \<Rightarrow> ring \<Rightarrow> time \<Rightarrow> center_step" where
  "handle_register_logger c rb now =
     (if readable_len rb < 1 + register_size then Some (0, c, rb)
      else do {
        (d, rb) \<leftarrow> rb_read rb (1 + register_size);
        let logger = drop 1 d;
        ty \<leftarrow> register_type logger;
        service \<leftarrow> register_service logger;
        nd \<leftarrow> register_node logger;
        parent_node \<leftarrow> register_parent_node logger;
        tm \<leftarrow> register_time logger;
        parent_init \<leftarrow> register_parent_init logger;
        expire \<leftarrow> register_expire logger;
        c \<leftarrow> (if ty > 5
          then case ce_check c (service, nd) of
              Some e \<Rightarrow> do {
                st \<leftarrow> update_logger (ce_storage c) service nd parent_init parent_node ty (ck_init e);
                check_met (c\<lparr>ce_storage := st\<rparr>) (service, nd)
              }
            | None \<Rightarrow> Some (check_wait c (service, nd) (check_of_register ty parent_node) expire)
          else Some c);
        let c = tell c (Heard (Replay_Register service nd parent_node ty tm parent_init));
        Some (1 + register_size, record_bytes c (1 + register_size) now, rb)
      })"

definition handle_create_logger :: "center \<Rightarrow> ring \<Rightarrow> time \<Rightarrow> center_step" where
  "handle_create_logger c rb now =
     (if readable_len rb < 1 + create_size then Some (0, c, rb)
      else do {
        (d, rb) \<leftarrow> rb_read rb (1 + create_size);
        let logger = drop 1 d;
        ty \<leftarrow> create_type logger;
        service \<leftarrow> create_service logger;
        nd \<leftarrow> create_node logger;
        parent_node \<leftarrow> create_parent_node logger;
        init \<leftarrow> create_init_time logger;
        parent_init \<leftarrow> create_parent_init logger;
        (ty, parent_node, parent_init, c) \<leftarrow> (if ty = 2
          then case ce_check c (service, nd) of
              Some e \<Rightarrow> do {
                c \<leftarrow> check_met c (service, nd);
                Some (ck_type e, ck_parent e, ck_parent_init e, c)
              }
            | None \<Rightarrow> Some (ty, parent_node, parent_init,
                check_wait c (service, nd) (check_of_create ty init) (now + ILLEGAL_LOGGER_TIMOUT))
          else Some (ty, parent_node, parent_init, c));
        (success, st) \<leftarrow> new_logger (ce_storage c) service nd parent_init parent_node ty init;
        let c = tell (c\<lparr>ce_storage := st\<rparr>)
          (Heard (if \<not> success then Replay_Error service nd init 4
             else if ty = 1 then Replay_Head service nd init else Replay_Create service nd init));
        Some (1 + create_size, record_bytes c (1 + create_size) now, rb)
      })"

definition handle_end_logger :: "center \<Rightarrow> ring \<Rightarrow> time \<Rightarrow> center_step" where
  "handle_end_logger c rb now =
     (if readable_len rb < 1 + end_size then Some (0, c, rb)
      else do {
        (d, rb) \<leftarrow> rb_read rb (1 + end_size);
        let logger = drop 1 d;
        service \<leftarrow> end_service logger;
        nd \<leftarrow> end_node logger;
        init \<leftarrow> end_init_time logger;
        end_tm \<leftarrow> end_end_time logger;
        st \<leftarrow> end_logger (ce_storage c) service nd init now;
        let c = tell (c\<lparr>ce_storage := st\<rparr>) (Heard (Replay_End service nd end_tm));
        Some (1 + end_size, record_bytes c (1 + end_size) now, rb)
      })"

definition handle_log :: "center \<Rightarrow> ring \<Rightarrow> time \<Rightarrow> center_step" where
  "handle_log c rb now =
     (if readable_len rb < 1 + header_size then Some (0, c, rb)
      else do {
        d \<leftarrow> rb_try_read rb (1 + header_size) 0;
        let header = drop 1 d;
        log_size \<leftarrow> header_log_size header;
        if readable_len rb < unat log_size + (1 + header_size) then Some (0, c, rb)
        else do {
          (st, rb) \<leftarrow> handle_a_log (ce_storage c) header rb;
          rb \<leftarrow> read_advance rb (1 + header_size);
          (text, rb) \<leftarrow> rb_read rb (unat log_size);
          service \<leftarrow> header_service header;
          init \<leftarrow> header_init_time header;
          nd \<leftarrow> header_node header;
          rank \<leftarrow> header_rank header;
          tm \<leftarrow> header_time header;
          let c = tell (c\<lparr>ce_storage := st\<rparr>) (Heard (Replay_Log service init nd rank tm text));
          Some (1 + header_size + unat log_size, record_bytes c (1 + header_size + unat log_size) now, rb)
        }
      })"

definition handle_error_logger :: "center \<Rightarrow> ring \<Rightarrow> time \<Rightarrow> center_step" where
  "handle_error_logger c rb now =
     (if readable_len rb < 1 + error_size then Some (0, c, rb)
      else do {
        (d, rb) \<leftarrow> rb_read rb (1 + error_size);
        let logger = drop 1 d;
        service \<leftarrow> error_service logger;
        nd \<leftarrow> error_node logger;
        tm \<leftarrow> error_time logger;
        err \<leftarrow> error_type logger;
        let c = tell c (Heard (Replay_Error service nd tm err));
        Some (1 + error_size, record_bytes c (1 + error_size) now, rb)
      })"

definition handle_remove_server :: "center \<Rightarrow> ring \<Rightarrow> time \<Rightarrow> center_step" where
  "handle_remove_server c rb now =
     (if readable_len rb < 1 + offline_size then Some (0, c, rb)
      else do {
        (d, rb) \<leftarrow> rb_read rb (1 + offline_size);
        tm \<leftarrow> offline_time (drop 1 d);
        let c = tell c (Went_Offline tm);
        Some (1 + offline_size, record_bytes c (1 + offline_size) now, rb)
      })"

definition handle_message :: "center \<Rightarrow> ring \<Rightarrow> time \<Rightarrow> center_step" where
  "handle_message c rb now = do {
     d \<leftarrow> rb_try_read rb 1 0;
     ot \<leftarrow> vget d 0;
     if ot = ot_byte Register_Logger then handle_register_logger c rb now
     else if ot = ot_byte Create_Logger then handle_create_logger c rb now
     else if ot = ot_byte End_Logger then handle_end_logger c rb now
     else if ot = ot_byte Link_Log then handle_log c rb now
     else if ot = ot_byte Error_Logger then handle_error_logger c rb now
     else if ot = ot_byte Node_Offline then do {
       (n, c, rb) \<leftarrow> handle_remove_server c rb now;
       check (readable_len rb = 0 \<or> n = 0);
       Some (n, c, rb)
     } else None
   }"

lemmas handle_defs = handle_register_logger_def handle_create_logger_def handle_end_logger_def handle_log_def
  handle_error_logger_def handle_remove_server_def

lemma change_readable: "rb_change_written rb off d = Some (n, rb') \<Longrightarrow> rb_readable rb' = rb_readable rb"
  by (auto simp: rb_change_written_def copy_in_def Let_def split: bind_splits if_splits)

lemma handle_a_log_readable: "handle_a_log st header rb = Some (st', rb') \<Longrightarrow> rb_readable rb' = rb_readable rb"
  by (auto simp: handle_a_log_def Let_def dest!: change_readable split: bind_splits)

lemma handle_register_logger_shrinks:
  "handle_register_logger c rb now = Some (n, c', rb') \<Longrightarrow> n \<noteq> 0 \<Longrightarrow> rb_readable rb' < rb_readable rb"
  unfolding handle_register_logger_def readable_len_def Let_def
  by (auto dest!: read_shrinks advance_shrinks handle_a_log_readable split: bind_splits if_splits)

lemma handle_create_logger_shrinks:
  "handle_create_logger c rb now = Some (n, c', rb') \<Longrightarrow> n \<noteq> 0 \<Longrightarrow> rb_readable rb' < rb_readable rb"
  unfolding handle_create_logger_def readable_len_def Let_def
  by (auto dest!: read_shrinks advance_shrinks handle_a_log_readable split: bind_splits if_splits)

lemma handle_end_logger_shrinks:
  "handle_end_logger c rb now = Some (n, c', rb') \<Longrightarrow> n \<noteq> 0 \<Longrightarrow> rb_readable rb' < rb_readable rb"
  unfolding handle_end_logger_def readable_len_def Let_def
  by (auto dest!: read_shrinks advance_shrinks handle_a_log_readable split: bind_splits if_splits)

lemma handle_log_shrinks:
  "handle_log c rb now = Some (n, c', rb') \<Longrightarrow> n \<noteq> 0 \<Longrightarrow> rb_readable rb' < rb_readable rb"
  unfolding handle_log_def readable_len_def Let_def
  by (auto dest!: read_shrinks advance_shrinks handle_a_log_readable split: bind_splits if_splits)

lemma handle_error_logger_shrinks:
  "handle_error_logger c rb now = Some (n, c', rb') \<Longrightarrow> n \<noteq> 0 \<Longrightarrow> rb_readable rb' < rb_readable rb"
  unfolding handle_error_logger_def readable_len_def Let_def
  by (auto dest!: read_shrinks advance_shrinks handle_a_log_readable split: bind_splits if_splits)

lemma handle_remove_server_shrinks:
  "handle_remove_server c rb now = Some (n, c', rb') \<Longrightarrow> n \<noteq> 0 \<Longrightarrow> rb_readable rb' < rb_readable rb"
  unfolding handle_remove_server_def readable_len_def Let_def
  by (auto dest!: read_shrinks advance_shrinks handle_a_log_readable split: bind_splits if_splits)

lemma handle_shrinks:
  assumes "handle_message c rb now = Some (n, c', rb')" "n \<noteq> 0"
  shows "rb_readable rb' < rb_readable rb"
  using assms unfolding handle_message_def
  by (auto dest: handle_register_logger_shrinks handle_create_logger_shrinks handle_end_logger_shrinks handle_log_shrinks
      handle_error_logger_shrinks handle_remove_server_shrinks split: bind_splits if_splits)

text \<open>The loop of \<open>handle_read\<close>, and what follows it: the bytes read are read once more, into the file.\<close>

function handle_messages :: "center \<Rightarrow> ring \<Rightarrow> (nat \<Rightarrow> time) \<Rightarrow> center_step" where
  "handle_messages c rb clock =
     (if readable_len rb > 1
      then do {
        (n, c, rb) \<leftarrow> handle_message c rb (clock 0);
        if n \<noteq> 0 then do { (k, c, rb) \<leftarrow> handle_messages c rb (\<lambda>i. clock (i + 1)); Some (n + k, c, rb) }
        else Some (0, c, rb)
      } else Some (0, c, rb))"
  by pat_completeness auto

termination
  by (relation "measure (\<lambda>(c, rb, clock). rb_readable rb)") (auto dest: handle_shrinks)

declare handle_messages.simps [simp del]

definition handle_read :: "center \<Rightarrow> ring \<Rightarrow> (nat \<Rightarrow> time) \<Rightarrow> (center \<times> ring) option" where
  "handle_read c rb clock = do {
     (total_read, c, rb) \<leftarrow> handle_messages c rb clock;
     rb \<leftarrow> read_back rb total_read;
     (written, st, rb) \<leftarrow> write_to_file (ce_storage c) rb total_read;
     Some (c\<lparr>ce_storage := st\<rparr>, rb)
   }"

section \<open>Timers\<close>

fun check_top :: "check_timer list \<Rightarrow> check_timer option" where
  "check_top [] = None"
| "check_top (t # ts) = (case check_top ts of
       Some u \<Rightarrow> Some (if sint (ct_expire u) < sint (ct_expire t) then u else t) | None \<Rightarrow> Some t)"

definition check_fires :: "center \<Rightarrow> check_timer \<Rightarrow> center option" where
  "check_fires c t = do {
     timeout \<leftarrow> ce_flags c (ct_flag t);
     let c = c\<lparr>ce_flags := (ce_flags c)(ct_flag t := None)\<rparr>;
     if timeout then do {
       d \<leftarrow> ce_check c (ct_ident t);
       check (ck_flag d = ct_flag t);
       let c = (if ck_type d \<noteq> 8
         then tell c (Heard (Replay_Error (fst (ct_ident t)) (snd (ct_ident t)) (ct_expire t) (if ck_type d = 2 then 6 else 8)))
         else c);
       Some (c\<lparr>ce_check := (ce_check c)(ct_ident t := None)\<rparr>)
     } else Some c
   }"

lemma check_top_in: "check_top ts = Some t \<Longrightarrow> t \<in> set ts"
  by (induction ts arbitrary: t) (auto split: option.splits if_splits)

function center_timeout :: "center \<Rightarrow> time \<Rightarrow> center option" where
  "center_timeout c now =
     (case check_top (ce_timers c) of
        None \<Rightarrow> Some c
      | Some t \<Rightarrow>
          if sint (ct_expire t) \<le> sint now
          then do {
            c' \<leftarrow> check_fires c t;
            center_timeout (c'\<lparr>ce_timers := remove1 t (ce_timers c)\<rparr>) now
          } else Some c)"
  by pat_completeness auto

termination
proof (relation "measure (\<lambda>(c, now). length (ce_timers c))", goal_cases)
  case (2 c now t c')
  then have "t \<in> set (ce_timers c)"
    by (intro check_top_in)
  then show ?case
    by (simp add: length_remove1) (metis Suc_pred lessI length_pos_if_in_set)
qed simp

declare center_timeout.simps [simp del]

section \<open>The bytes behind the read position\<close>

text \<open>Going back over the bytes \<open>P\<close> that were read gives them again, as long as nothing was written over them.\<close>

definition behind :: "ring \<Rightarrow> byte list \<Rightarrow> bool" where
  "behind rb P \<longleftrightarrow> rb_inv rb \<and> (\<exists>b. read_back rb (length P) = Some b \<and> rb_inv b \<and> rb_content b = P @ rb_content rb)"

lemma behind_inv: "behind rb P \<Longrightarrow> rb_inv rb"
  by (simp add: behind_def)

lemma behind_start: "rb_inv rb \<Longrightarrow> behind rb []"
  by (simp add: behind_def read_back_def)

lemma back_eq: "read_back rb k = (if k \<le> writable_len rb
   then Some (rb\<lparr>rb_rd := (if rb_rd rb < k then rb_rd rb + rb_size rb - k else rb_rd rb - k), rb_readable := rb_readable rb + k\<rparr>)
   else None)"
  by (simp add: read_back_def check_def)

lemma advance_eq: "read_advance rb k = (if k \<le> rb_readable rb
   then Some (rb\<lparr>rb_rd := (if rb_rd rb + k \<ge> rb_size rb then rb_rd rb + k - rb_size rb else rb_rd rb + k), rb_readable := rb_readable rb - k\<rparr>)
   else None)"
  by (simp add: read_advance_def readable_len_def check_def Let_def)

lemma back_fits: "read_back rb n = Some b \<Longrightarrow> rb_inv rb \<Longrightarrow> n + rb_readable rb \<le> rb_size rb"
  by (auto simp: back_eq writable_len_def rb_inv_def split: if_splits)

lemma back_advance:
  assumes "rb_inv rb" "read_advance rb n = Some rb'" "k + rb_readable rb \<le> rb_size rb"
  shows "read_back rb' (k + n) = read_back rb k"
  using assms unfolding back_eq advance_eq
  by (cases rb; cases rb') (auto simp: writable_len_def rb_inv_def split: if_splits)

lemma behind_advance:
  assumes "behind rb P" "read_advance rb n = Some rb'"
  shows "behind rb' (P @ take n (rb_content rb)) \<and> rb_content rb' = drop n (rb_content rb)"
proof -
  obtain b where inv: "rb_inv rb" and b: "read_back rb (length P) = Some b" "rb_inv b" "rb_content b = P @ rb_content rb"
    using assms(1) by (auto simp: behind_def)
  have n: "n \<le> rb_readable rb"
    using assms(2) by (auto simp: advance_eq split: if_splits)
  have rb': "rb_inv rb'" "rb_content rb' = drop n (rb_content rb)"
    using read_advance_spec [OF inv n] assms(2) by auto
  have "read_back rb' (length P + n) = Some b"
    using back_advance [OF inv assms(2) back_fits [OF b(1) inv]] b(1) by simp
  moreover have "length (P @ take n (rb_content rb)) = length P + n"
    using n length_content [OF inv] by simp
  ultimately show ?thesis
    using rb' b by (simp add: behind_def)
qed

lemma behind_read:
  assumes "behind rb P" "rb_content rb = d @ rest" "length d = n"
  shows "\<exists>rb'. rb_read rb n = Some (d, rb') \<and> behind rb' (P @ d) \<and> rb_content rb' = rest \<and> rb_size rb' = rb_size rb"
proof -
  have inv: "rb_inv rb"
    using assms(1) by (simp add: behind_def)
  obtain rb' where rb': "rb_read rb n = Some (d, rb')" "rb_content rb' = rest" "rb_size rb' = rb_size rb"
    using read_front [OF inv assms(2,3)] by blast
  moreover have "read_advance rb n = Some rb'"
    using rb'(1) length_content [OF inv] assms(2,3) by (auto simp: rb_read_def readable_len_def Let_def split: bind_splits if_splits)
  ultimately show ?thesis
    using behind_advance [OF assms(1), of n rb'] assms(2,3) by simp
qed

lemma back_mem: "read_back (rb\<lparr>rb_mem := m\<rparr>) k = map_option (rb_mem_update (\<lambda>_. m)) (read_back rb k)"
  by (simp add: back_eq writable_len_def)

lemma copy_in_same: "copy_in rb p d = Some rb' \<Longrightarrow> copy_in b p d = Some b' \<Longrightarrow> rb_mem b = rb_mem rb \<Longrightarrow> rb_size b = rb_size rb \<Longrightarrow>
    rb' = rb\<lparr>rb_mem := rb_mem rb'\<rparr> \<and> b' = b\<lparr>rb_mem := rb_mem rb'\<rparr>"
  by (auto simp: copy_in_def Let_def split: bind_splits if_splits)

lemma change_inside:
  assumes "rb_inv rb" "off + length d \<le> rb_readable rb"
  shows "\<exists>rb'. rb_change_written rb off d = Some (length d, rb') \<and> rb_inv rb' \<and> rb_size rb' = rb_size rb \<and>
    rb_content rb' = take off (rb_content rb) @ d @ drop (off + length d) (rb_content rb) \<and>
    copy_in rb (if rb_rd rb + off \<ge> rb_size rb then rb_rd rb + off - rb_size rb else rb_rd rb + off) d = Some rb'"
proof -
  have small: "off + length d < 2 ^ 32"
    using assms rb_inv_size [OF assms(1)] by (simp add: rb_inv_def)
  have "min (length d) (rb_readable rb - off) = length d" "take (rb_readable rb - off) d = d"
    using assms(2) by simp_all
  then obtain rb' where rb': "rb_change_written rb off d = Some (length d, rb')" "rb_inv rb'" "rb_size rb' = rb_size rb"
      "rb_content rb' = take off (rb_content rb) @ d @ drop (off + length d) (rb_content rb)"
    using rb_change_written_spec [OF assms(1) small] by metis
  have n: "(if w32 (off + length d) > readable_len rb then readable_len rb - off else length d) = length d"
    using assms(2) w32_id [OF small] by (simp add: readable_len_def)
  have "copy_in rb (if rb_rd rb + off \<ge> rb_size rb then rb_rd rb + off - rb_size rb else rb_rd rb + off) d = Some rb'"
    using rb'(1) assms(2) unfolding rb_change_written_def Let_def n by (simp add: readable_len_def split: bind_splits if_splits)
  then show ?thesis
    using rb' by blast
qed

lemma behind_change:
  assumes "behind rb P" "off + length d \<le> rb_readable rb"
  shows "\<exists>rb'. rb_change_written rb off d = Some (length d, rb') \<and> behind rb' P \<and> rb_size rb' = rb_size rb \<and>
    rb_content rb' = take off (rb_content rb) @ d @ drop (off + length d) (rb_content rb)"
proof -
  obtain b where inv: "rb_inv rb" and b: "read_back rb (length P) = Some b" "rb_inv b" "rb_content b = P @ rb_content rb"
    using assms(1) by (auto simp: behind_def)
  have fits: "length P + rb_readable rb \<le> rb_size rb"
    using back_fits [OF b(1) inv] .
  have rd: "rb_readable b = rb_readable rb + length P" "rb_size b = rb_size rb" "rb_mem b = rb_mem rb"
      "rb_rd b = (if rb_rd rb < length P then rb_rd rb + rb_size rb - length P else rb_rd rb - length P)"
    using b(1) by (auto simp: back_eq split: if_splits)
  obtain rb' where rb': "rb_change_written rb off d = Some (length d, rb')" "rb_inv rb'" "rb_size rb' = rb_size rb"
      "rb_content rb' = take off (rb_content rb) @ d @ drop (off + length d) (rb_content rb)"
      "copy_in rb (if rb_rd rb + off \<ge> rb_size rb then rb_rd rb + off - rb_size rb else rb_rd rb + off) d = Some rb'"
    using change_inside [OF inv assms(2)] by blast
  have "length P + off + length d \<le> rb_readable b"
    using assms(2) rd(1) by simp
  then obtain b' where b': "rb_inv b'"
      "rb_content b' = take (length P + off) (rb_content b) @ d @ drop (length P + off + length d) (rb_content b)"
      "copy_in b (if rb_rd b + (length P + off) \<ge> rb_size b then rb_rd b + (length P + off) - rb_size b else rb_rd b + (length P + off)) d = Some b'"
    using change_inside [OF b(2)] by blast
  have content: "rb_content b' = P @ rb_content rb'"
    using b'(2) b(3) rb'(4) by (simp add: add.assoc)
  have pos: "(if rb_rd b + (length P + off) \<ge> rb_size b then rb_rd b + (length P + off) - rb_size b else rb_rd b + (length P + off)) =
      (if rb_rd rb + off \<ge> rb_size rb then rb_rd rb + off - rb_size rb else rb_rd rb + off)"
    using fits assms(2) inv by (auto simp: rd rb_inv_def)
  have eqs: "rb' = rb\<lparr>rb_mem := rb_mem rb'\<rparr>" "b' = b\<lparr>rb_mem := rb_mem rb'\<rparr>"
    using copy_in_same [OF rb'(5) b'(3) [unfolded pos] rd(3,2)] by blast+
  have "read_back rb' (length P) = Some (b\<lparr>rb_mem := rb_mem rb'\<rparr>)"
    by (subst eqs(1)) (simp add: back_mem b(1))
  then have "read_back rb' (length P) = Some b'"
    using eqs(2) by simp
  then show ?thesis
    using rb' b'(1) content by (auto simp: behind_def)
qed

section \<open>The storage while messages arrive\<close>

text \<open>
  The file has the bytes \<open>D\<close>, the bytes \<open>P\<close> are handled and wait to be written, and the logs of both are \<open>H\<close>; there is one
  record, that of the open file, which has the last of the names.
\<close>

definition storing :: "storage \<Rightarrow> byte list \<Rightarrow> byte list \<Rightarrow> history \<Rightarrow> bool" where
  "storing st D P H \<longleftrightarrow>
     (\<exists>tm. st_records st = [\<lparr>lr_file = st_logs st, lr_latest = tm, lr_index = length (D @ P), lr_written = length D\<rparr>]) \<and>
     st_names st \<noteq> [] \<and> fst (last (st_names st)) = st_logs st \<and>
     st_disk st (st_logs st) = Some D \<and> stored (st_logs st) (D @ P) H \<and> index_ok (st_index st) \<and>
     keys_of H \<subseteq> fst ` set (st_index st) \<and>
     (\<forall>k v. map_of (st_index st) k = Some v \<longrightarrow> (iv_latest_file v, iv_latest_index v) = prev (st_logs st) H k)"

lemma storing_holds: "storing st D [] H \<Longrightarrow> storage_holds st D H"
  by (simp add: storing_def storage_holds_def)

lemma stored_append: "stored F D H \<Longrightarrow> stored F (D @ d) H"
proof (induction H rule: rev_induct)
  case (snoc e H)
  obtain p l where e: "e = (p, l)"
    by fastforce
  have "length (take (log_len l) (drop p D)) = log_len l" "0 < log_len l"
    using snoc.prems length_log_raw by (simp_all add: e stored_snoc log_len_def)
  then have "take (log_len l) (drop p (D @ d)) = take (log_len l) (drop p D)"
    by simp
  then show ?case
    using snoc by (simp add: e stored_snoc)
qed simp

lemma storing_record:
  assumes "storing st D P H" "length (D @ P) < 2 ^ 28" "length d < 2 ^ 16"
  shows "storing (add_record st (length d) now) D (P @ d) H"
proof -
  have "w32 (length (D @ P) + length d) = length (D @ P @ d)"
    using assms(2,3) by (simp add: w32_def)
  then show ?thesis
    using assms stored_append [of "st_logs st" "D @ P" H d]
    by (auto simp: storing_def add_record_def LOG_FILE_LIMIT_SIZE_def)
qed

lemma index_key_eq: "length s = 8 \<Longrightarrow> length nd = 8 \<Longrightarrow> index_key s init nd = Some (s @ word_bytes 8 init @ nd)"
  by (simp add: index_key_def mem_put_def)

lemma storing_new_logger:
  assumes "storing st D P H" "length s = 8" "length nd = 8"
  shows "\<exists>st'. new_logger st s nd pit pn ty init = Some (s @ word_bytes 8 init @ nd \<notin> fst ` set (st_index st), st') \<and> storing st' D P H \<and>
    fst ` set (st_index st') = insert (s @ word_bytes 8 init @ nd) (fst ` set (st_index st)) \<and> st_logs st' = st_logs st"
proof -
  let ?k = "s @ word_bytes 8 init @ nd"
  note key = index_key_eq [OF assms(2,3)]
  have some: "map_of (st_index st) ?k \<noteq> None \<longleftrightarrow> ?k \<in> fst ` set (st_index st)"
    by (simp add: map_of_eq_None_iff)
  show ?thesis
  proof (cases "?k \<in> fst ` set (st_index st)")
    case True
    then show ?thesis
      using assms(1) some key by (simp add: new_logger_def insert_absorb)
  next
    case False
    let ?v = "\<lparr>iv_parent_init = pit, iv_parent_node = pn, iv_type = ty, iv_latest_file = 0, iv_latest_index = MAX_UINT\<rparr>"
    have "?k \<notin> keys_of H"
      using False assms(1) by (auto simp: storing_def)
    then have "prev (st_logs st) H ?k = (0, MAX_UINT)"
      by (rule prev_none)
    moreover have "index_ok (index_put ?k ?v (st_index st))"
      using assms index_ok_put by (simp add: storing_def)
    ultimately have "storing (st\<lparr>st_index := index_put ?k ?v (st_index st)\<rparr>) D P H"
      using assms(1) by (auto simp: storing_def index_put_def map_of_sorted_put set_sorted_put)
    then show ?thesis
      using False some key by (auto simp: new_logger_def Let_def index_put_def set_sorted_put)
  qed
qed

lemma storing_end_logger:
  assumes "storing st D P H" "length s = 8" "length nd = 8"
  shows "\<exists>st'. end_logger st s nd init now = Some st' \<and> storing st' D P H \<and> st_index st' = st_index st \<and> st_logs st' = st_logs st"
  using assms by (auto simp: end_logger_def index_key_eq storing_def)

text \<open>A log: its header gets the location of the one before, and the index that of the log.\<close>

lemma storing_log:
  assumes st: "storing st D P H" and l: "log_ok l" "log_key l \<in> fst ` set (st_index st)" and len: "length (D @ P) < 2 ^ 28"
    and rb: "behind rb B" "rb_content rb = log_raw a l @ rest" and key: "header_key header = Some (log_key l)"
  shows "\<exists>st' rb'. handle_a_log st header rb = Some (st', rb') \<and> behind rb' B \<and> rb_size rb' = rb_size rb \<and>
     rb_content rb' = log_raw (prev (st_logs st) H (log_key l)) l @ rest \<and> st_logs st' = st_logs st \<and>
     fst ` set (st_index st') = fst ` set (st_index st) \<and>
     storing (add_record st' (log_len l) now) D (P @ log_raw (prev (st_logs st) H (log_key l)) l) (H @ [(length (D @ P), l)])"
proof -
  let ?F = "st_logs st" and ?k = "log_key l"
  let ?p = "prev ?F H ?k" and ?X = "ot_byte Link_Log # word_bytes 2 (word_of_nat (length (lg_text l)) :: 16 word)"
  let ?Y = "lg_service l @ word_bytes 8 (lg_init l) @ lg_node l @ word_bytes 8 (lg_time l) @ [lg_rank l] @ lg_text l"
  obtain v where v: "map_of (st_index st) ?k = Some v"
    using l(2) by (metis map_of_eq_None_iff not_None_eq)
  have p: "(iv_latest_file v, iv_latest_index v) = ?p"
    using st v by (simp add: storing_def)
  obtain tm where rec: "st_records st = [\<lparr>lr_file = ?F, lr_latest = tm, lr_index = length (D @ P), lr_written = length D\<rparr>]"
    using st by (auto simp: storing_def)
  have raw: "log_raw x l = ?X @ word_bytes 8 (fst x) @ word_bytes 4 (snd x) @ ?Y" for x
    by (simp add: log_raw_def)
  have readable: "15 \<le> rb_readable rb"
    using length_content [OF behind_inv [OF rb(1)]] rb(2) by (simp add: raw)
  obtain rb1 where rb1: "rb_change_written rb 3 (word_bytes 8 (fst ?p)) = Some (8, rb1)" "behind rb1 B" "rb_size rb1 = rb_size rb"
      "rb_content rb1 = ?X @ word_bytes 8 (fst ?p) @ word_bytes 4 (snd a) @ ?Y @ rest"
    using behind_change [OF rb(1), of 3 "word_bytes 8 (fst ?p)"] readable rb(2) by (auto simp: raw)
  have readable1: "15 \<le> rb_readable rb1"
    using length_content [OF behind_inv [OF rb1(2)]] rb1(4) by simp
  obtain rb2 where rb2: "rb_change_written rb1 11 (word_bytes 4 (snd ?p)) = Some (4, rb2)" "behind rb2 B" "rb_size rb2 = rb_size rb1"
      "rb_content rb2 = ?X @ word_bytes 8 (fst ?p) @ word_bytes 4 (snd ?p) @ ?Y @ rest"
    using behind_change [OF rb1(2), of 11 "word_bytes 4 (snd ?p)"] readable1 rb1(4) by auto
  define st' where "st' = st\<lparr>st_index := index_put ?k (v\<lparr>iv_latest_file := ?F, iv_latest_index := word_of_nat (length (D @ P))\<rparr>) (st_index st)\<rparr>"
  have handled: "handle_a_log st header rb = Some (st', rb2)"
  proof -
    have "header_offset1 = 3" "header_offset2 = 11"
      by (simp_all add: header_offset1_def header_offset2_def)
    moreover have "iv_latest_file v = fst ?p" "iv_latest_index v = snd ?p"
      using p by (metis fst_conv, metis snd_conv)
    ultimately show ?thesis
      using key v rb1(1) rb2(1) rec by (simp add: handle_a_log_def Let_def st'_def)
  qed
  have index: "fst ` set (st_index st') = fst ` set (st_index st)"
    using l(2) by (simp add: st'_def index_put_def set_sorted_put insert_absorb)
  let ?w = "log_raw ?p l"
  have w: "length ?w = log_len l" "log_len l < 2 ^ 16"
    using length_log_raw [OF l(1)] l(1) by (simp_all add: log_len_def log_ok_def)
  have wrap: "w32 (length (D @ P) + log_len l) = length (D @ P @ ?w)"
    using len w by (simp add: w32_def)
  have before: "\<forall>(q, m) \<in> set H. q < length (D @ P)"
  proof (clarify)
    fix q m assume "(q, m) \<in> set H"
    then obtain A B where "H = A @ (q, m) # B"
      by (meson split_list)
    then have "take (log_len m) (drop q (D @ P)) = log_raw (prev ?F A (log_key m)) m" "log_ok m"
      using st by (auto simp: storing_def stored_def)
    then have "length (take (log_len m) (drop q (D @ P))) = log_len m" "0 < log_len m"
      using length_log_raw by (simp_all add: log_len_def)
    then show "q < length (D @ P)"
      by (metis drop_all length_0_conv linorder_not_less take_Nil nat_neq_iff)
  qed
  have "stored ?F ((D @ P) @ ?w) (H @ [(length (D @ P), l)])"
    using st stored_append [of ?F "D @ P" H ?w] l(1) len w before by (simp add: storing_def stored_snoc)
  moreover have "index_ok (st_index st')"
    using st index_ok_put l(1) by (simp add: storing_def st'_def log_key_def log_ok_def)
  moreover have "keys_of (H @ [(length (D @ P), l)]) \<subseteq> fst ` set (st_index st')"
    unfolding index using st l(2) by (auto simp: storing_def keys_of_def)
  moreover have "(iv_latest_file u, iv_latest_index u) = prev ?F (H @ [(length (D @ P), l)]) k" if "map_of (st_index st') k = Some u" for k u
    using that st by (auto simp: st'_def index_put_def map_of_sorted_put prev_snoc storing_def split: if_splits)
  ultimately have "storing (add_record st' (log_len l) now) D (P @ ?w) (H @ [(length (D @ P), l)])"
    using st rec wrap len by (simp add: storing_def add_record_def LOG_FILE_LIMIT_SIZE_def st'_def)
  then show ?thesis
    using handled index rb1(3) rb2 by (intro exI [of _ st'] exI [of _ rb2]) (simp add: st'_def raw)
qed

text \<open>What is handled is written.\<close>

lemma write_records_done: "write_records st i rb 0 n = Some (n, st, rb)"
  by (simp add: write_records.simps)

lemma storing_write:
  assumes st: "storing st D P H" and rb: "rb_inv rb" "rb_content rb = P @ rest" and len: "length (D @ P) < 2 ^ 31"
  shows "\<exists>st' rb'. write_to_file st rb (length P) = Some (length P, st', rb') \<and> rb_inv rb' \<and> rb_content rb' = rest \<and>
    rb_size rb' = rb_size rb \<and> storing st' (D @ P) [] H \<and> st_index st' = st_index st \<and> st_logs st' = st_logs st"
proof (cases "P = []")
  case True
  then show ?thesis
    using st rb by (simp add: write_to_file_def readable_len_def write_records.simps)
next
  case False
  obtain tm where rec: "st_records st = [\<lparr>lr_file = st_logs st, lr_latest = tm, lr_index = length (D @ P), lr_written = length D\<rparr>]"
    using st by (auto simp: storing_def)
  have readable: "length P \<le> rb_readable rb" "length P < 2 ^ 32"
    using length_content [OF rb(1)] rb(2) len by simp_all
  obtain ds where ds: "gather (rb_mem rb) (read_array rb (length P) 0) = Some ds" "concat ds = P"
    using rb_read_array_spec [OF rb(1), of 0 "length P"] readable(2) rb(2) by auto
  obtain rb' where rb': "read_advance rb (length P) = Some rb'" "rb_inv rb'" "rb_content rb' = rest" "rb_size rb' = rb_size rb"
    using read_advance_spec [OF rb(1) readable(1)] rb(2) by auto
  have amount: "min (w32 (length (D @ P) + 2 ^ 32 - length D)) (length P) = length P"
    using len by (simp add: w32_def mod_if)
  define r where "r = \<lparr>lr_file = st_logs st, lr_latest = tm, lr_index = length (D @ P), lr_written = length (D @ P)\<rparr>"
  define st' where "st' = st\<lparr>st_disk := (st_disk st)(st_logs st := Some (D @ P)), st_records := [r]\<rparr>"
  have disk: "append_log st P = Some (st\<lparr>st_disk := (st_disk st)(st_logs st := Some (D @ P))\<rparr>)"
    using st by (simp add: append_log_def storing_def)
  have "write_records st 0 rb (length P) 0 = Some (length P, st', rb')"
    using rec False ds rb'(1) amount disk
    by (simp add: write_records.simps [of st] write_records_done st'_def r_def Let_def)
  moreover have "storing st' (D @ P) [] H"
    using st by (simp add: storing_def st'_def r_def)
  ultimately show ?thesis
    using rb' readable(1) by (simp add: write_to_file_def readable_len_def st'_def)
qed

section \<open>The messages of local loggers\<close>

text \<open>
  Messages that are complete in themselves: of loggers that are no remote children, of logs whose logger is known,
  ends and errors. \<open>K\<close> are the keys of the loggers that are known.
\<close>

definition logger_key :: "mark \<Rightarrow> time \<Rightarrow> mark \<Rightarrow> mark" where
  "logger_key s init nd = s @ word_bytes 8 init @ nd"

primrec admits :: "mark set \<Rightarrow> message \<Rightarrow> bool" where
  "admits K (Register_Message ty s nd pn tm pit expire) \<longleftrightarrow> ty \<le> 5"
| "admits K (Create_Message ty s nd pn init pit) \<longleftrightarrow> ty \<noteq> 2"
| "admits K (End_Message s nd init end_tm) \<longleftrightarrow> True"
| "admits K (Log_Message s init nd tm rank text) \<longleftrightarrow> logger_key s init nd \<in> K"
| "admits K (Error_Message s nd tm err) \<longleftrightarrow> True"
| "admits K (Offline_Message tm) \<longleftrightarrow> False"

fun known :: "mark set \<Rightarrow> message \<Rightarrow> mark set" where
  "known K (Create_Message ty s nd pn init pit) = insert (logger_key s init nd) K"
| "known K m = K"

text \<open>What the handler hears: the message, or that the logger is there already.\<close>

fun hears :: "mark set \<Rightarrow> message \<Rightarrow> center_event list" where
  "hears K (Create_Message ty s nd pn init pit) =
     [Heard (if logger_key s init nd \<in> K then Replay_Error s nd init 4 else if ty = 1 then Replay_Head s nd init else Replay_Create s nd init)]"
| "hears K m = map Heard (events m)"

fun log_of :: "message \<Rightarrow> log list" where
  "log_of (Log_Message s init nd tm rank text) =
     [\<lparr>lg_service = s, lg_init = init, lg_node = nd, lg_rank = rank, lg_time = tm, lg_text = text\<rparr>]"
| "log_of m = []"

primrec admitted :: "mark set \<Rightarrow> message list \<Rightarrow> bool" where
  "admitted K [] \<longleftrightarrow> True"
| "admitted K (m # ms) \<longleftrightarrow> good m \<and> admits K m \<and> admitted (known K m) ms"

primrec heard :: "mark set \<Rightarrow> message list \<Rightarrow> center_event list" where
  "heard K [] = []"
| "heard K (m # ms) = hears K m @ heard (known K m) ms"

definition logs_of :: "message list \<Rightarrow> log list" where
  "logs_of ms = concat (map log_of ms)"

definition loggers :: "center \<Rightarrow> mark set" where
  "loggers c = fst ` set (st_index (ce_storage c))"

text \<open>A message is handled: \<open>P'\<close> is \<open>P\<close> with its bytes, as the file will have them.\<close>

definition handled :: "center \<Rightarrow> ring \<Rightarrow> byte list \<Rightarrow> byte list \<Rightarrow> history \<Rightarrow> message \<Rightarrow> byte list \<Rightarrow> center_step \<Rightarrow> bool" where
  "handled c rb D P H m rest st \<longleftrightarrow>
     (\<exists>c' rb' d H'. st = Some (length (encode m), c', rb') \<and> length d = length (encode m) \<and> behind rb' (P @ d) \<and>
        rb_content rb' = rest \<and> rb_size rb' = rb_size rb \<and> storing (ce_storage c') D (P @ d) H' \<and>
        map snd H' = map snd H @ log_of m \<and> loggers c' = known (loggers c) m \<and>
        ce_told c' = ce_told c @ hears (loggers c) m)"

lemma front_read:
  assumes "behind rb P" "rb_content rb = encode m @ rest" "length (encode m) = n"
    and "f = (if readable_len rb < n then Some (0, c, rb) else rb_read rb n \<bind> (\<lambda>(d, rb). g d rb))"
  shows "\<exists>rb'. f = g (encode m) rb' \<and> behind rb' (P @ encode m) \<and> rb_content rb' = rest \<and> rb_size rb' = rb_size rb"
proof -
  obtain rb' where "rb_read rb n = Some (encode m, rb')" "behind rb' (P @ encode m)" "rb_content rb' = rest" "rb_size rb' = rb_size rb"
    using behind_read [OF assms(1-3)] by blast
  then show ?thesis
    using enough [OF behind_inv [OF assms(1)] assms(2,3)] by (intro exI [of _ rb']) (simp add: assms(4))
qed

text \<open>A message that changes only the loggers.\<close>

lemma handledI:
  assumes "behind rb' (P @ encode m)" "rb_content rb' = rest" "rb_size rb' = rb_size rb"
    and st: "storing st' D P H" "fst ` set (st_index st') = known (loggers c) m" "length (D @ P) < 2 ^ 28"
    and m: "good m" "log_of m = []" "length (encode m) = n"
    and f: "f = Some (n, record_bytes c' n now, rb')" "ce_storage c' = st'" "ce_told c' = ce_told c @ hears (loggers c) m"
  shows "handled c rb D P H m rest f"
proof -
  have "storing (add_record st' n now) D (P @ encode m) H"
    using storing_record [OF st(1,3), of "encode m" now] encode_bounds(2) [OF m(1)] m(3) by simp
  moreover have "st_index (add_record st' n now) = st_index st'"
    by (simp add: add_record_def Let_def)
  ultimately show ?thesis
    using assms by (auto simp: handled_def record_bytes_def loggers_def intro!: exI [of _ "encode m"] exI [of _ H])
qed

lemma register_handled:
  assumes c: "storing (ce_storage c) D P H" "behind rb P" "length (D @ P) < 2 ^ 28"
    and m: "rb_content rb = encode m @ rest" "good m" "admits (loggers c) m" "m = Register_Message ty s nd pn tm pit expire"
  shows "handled c rb D P H m rest (handle_register_logger c rb now)"
proof -
  obtain obj where obj: "register_object ty s nd pn tm pit expire = Some obj"
    using object_some(1) m(2,4) by fastforce
  note f = register_fields [OF _ _ _ obj]
  have e: "encode m = ot_byte Register_Logger # obj" "length (encode m) = 1 + register_size"
    using f(8) m(2,4) obj by (simp_all add: instance_bytes_def)
  have local: "(5 < ty) = False"
    using m(3,4) by (simp add: not_less)
  obtain rb' where rb': "handle_register_logger c rb now =
      Some (1 + register_size, record_bytes (tell c (Heard (Replay_Register s nd pn ty tm pit))) (1 + register_size) now, rb')"
      "behind rb' (P @ encode m)" "rb_content rb' = rest" "rb_size rb' = rb_size rb"
    using front_read [OF c(2) m(1) e(2) handle_register_logger_def [of c rb now]] f m(2,4) e(1) by (auto simp: local)
  show ?thesis
    by (rule handledI [OF rb'(2-4) c(1) _ c(3) m(2) _ e(2) rb'(1)]) (use m(4) in \<open>simp_all add: loggers_def tell_def\<close>)
qed

lemma create_handled:
  assumes c: "storing (ce_storage c) D P H" "behind rb P" "length (D @ P) < 2 ^ 28"
    and m: "rb_content rb = encode m @ rest" "good m" "admits (loggers c) m" "m = Create_Message ty s nd pn init pit"
  shows "handled c rb D P H m rest (handle_create_logger c rb now)"
proof -
  obtain obj where obj: "create_object ty s nd pn init pit = Some obj"
    using object_some(2) m(2,4) by fastforce
  note f = create_fields [OF _ _ _ obj]
  have e: "encode m = ot_byte Create_Logger # obj" "length (encode m) = 1 + create_size"
    using f(7) m(2,4) obj by (simp_all add: instance_bytes_def)
  have marks: "length s = 8" "length nd = 8"
    using m(2,4) by simp_all
  obtain st' where st': "new_logger (ce_storage c) s nd pit pn ty init = Some (logger_key s init nd \<notin> loggers c, st')"
      "storing st' D P H" "fst ` set (st_index st') = insert (logger_key s init nd) (loggers c)"
    using storing_new_logger [OF c(1) marks, of pit pn ty init] by (auto simp: logger_key_def loggers_def)
  obtain rb' where rb': "handle_create_logger c rb now =
      Some (1 + create_size, record_bytes (tell (c\<lparr>ce_storage := st'\<rparr>) (Heard (if \<not> logger_key s init nd \<notin> loggers c then Replay_Error s nd init 4
        else if ty = 1 then Replay_Head s nd init else Replay_Create s nd init))) (1 + create_size) now, rb')"
      "behind rb' (P @ encode m)" "rb_content rb' = rest" "rb_size rb' = rb_size rb"
    using front_read [OF c(2) m(1) e(2) handle_create_logger_def [of c rb now]] f m(2,3,4) e(1) st'(1) by auto
  show ?thesis
    by (rule handledI [OF rb'(2-4) st'(2) _ c(3) m(2) _ e(2) rb'(1)]) (use m(4) st'(3) in \<open>simp_all add: tell_def\<close>)
qed

lemma end_handled:
  assumes c: "storing (ce_storage c) D P H" "behind rb P" "length (D @ P) < 2 ^ 28"
    and m: "rb_content rb = encode m @ rest" "good m" "m = End_Message s nd init end_tm"
  shows "handled c rb D P H m rest (handle_end_logger c rb now)"
proof -
  obtain obj where obj: "end_object s nd init end_tm = Some obj"
    using object_some(3) m(2,3) by fastforce
  note f = end_fields [OF _ _ obj]
  have e: "encode m = ot_byte End_Logger # obj" "length (encode m) = 1 + end_size"
    using f(5) m(2,3) obj by (simp_all add: instance_bytes_def)
  have marks: "length s = 8" "length nd = 8"
    using m(2,3) by simp_all
  obtain st' where st': "end_logger (ce_storage c) s nd init now = Some st'" "storing st' D P H" "st_index st' = st_index (ce_storage c)"
    using storing_end_logger [OF c(1) marks, of init now] by blast
  obtain rb' where rb': "handle_end_logger c rb now =
      Some (1 + end_size, record_bytes (tell (c\<lparr>ce_storage := st'\<rparr>) (Heard (Replay_End s nd end_tm))) (1 + end_size) now, rb')"
      "behind rb' (P @ encode m)" "rb_content rb' = rest" "rb_size rb' = rb_size rb"
    using front_read [OF c(2) m(1) e(2) handle_end_logger_def [of c rb now]] f m(2,3) e(1) st'(1) by auto
  show ?thesis
    by (rule handledI [OF rb'(2-4) st'(2) _ c(3) m(2) _ e(2) rb'(1)]) (use m(3) st'(3) in \<open>simp_all add: loggers_def tell_def\<close>)
qed

lemma error_handled:
  assumes c: "storing (ce_storage c) D P H" "behind rb P" "length (D @ P) < 2 ^ 28"
    and m: "rb_content rb = encode m @ rest" "good m" "m = Error_Message s nd tm err"
  shows "handled c rb D P H m rest (handle_error_logger c rb now)"
proof -
  obtain obj where obj: "error_object s nd tm err = Some obj"
    using object_some(5) m(2,3) by fastforce
  note f = error_fields [OF _ _ obj]
  have e: "encode m = ot_byte Error_Logger # obj" "length (encode m) = 1 + error_size"
    using f(5) m(2,3) obj by (simp_all add: instance_bytes_def)
  obtain rb' where rb': "handle_error_logger c rb now =
      Some (1 + error_size, record_bytes (tell c (Heard (Replay_Error s nd tm err))) (1 + error_size) now, rb')"
      "behind rb' (P @ encode m)" "rb_content rb' = rest" "rb_size rb' = rb_size rb"
    using front_read [OF c(2) m(1) e(2) handle_error_logger_def [of c rb now]] f m(2,3) e(1) by auto
  show ?thesis
    by (rule handledI [OF rb'(2-4) c(1) _ c(3) m(2) _ e(2) rb'(1)]) (use m(3) in \<open>simp_all add: loggers_def tell_def\<close>)
qed

lemma log_handled:
  assumes c: "storing (ce_storage c) D P H" "behind rb P" "length (D @ P) < 2 ^ 28"
    and m: "rb_content rb = encode m @ rest" "good m" "admits (loggers c) m" "m = Log_Message s init nd tm rank text"
  shows "handled c rb D P H m rest (handle_log c rb now)"
proof -
  let ?n = "length text" and ?h = "1 + header_size"
  define l where "l = \<lparr>lg_service = s, lg_init = init, lg_node = nd, lg_rank = rank, lg_time = tm, lg_text = text\<rparr>"
  have len: "length s = 8" "length nd = 8" "?n \<le> 65487"
    using m(2,4) by (simp_all add: text_size)
  obtain obj where obj: "header_object (word_of_nat ?n) s init nd tm rank = Some obj"
    using object_some(4) len by blast
  note f = header_fields [OF len(1,2) obj]
  have e: "encode m = (ot_byte Link_Log # obj) @ text" and d: "length (ot_byte Link_Log # obj) = ?h"
    using log_bytes [OF len(1,2) obj len(3)] m(4) f(9) by simp_all
  have object: "obj = word_bytes 2 (word_of_nat ?n :: 16 word) @ replicate 12 0 @ s @ word_bytes 8 init @ nd @ word_bytes 8 tm @ [rank]"
    using header_object_eq [OF len(1,2), of "word_of_nat ?n" init tm rank] obj by simp
  have zeros: "(replicate 12 0 :: byte list) = word_bytes 8 (0 :: time) @ word_bytes 4 (0 :: 32 word)"
    by (simp add: word_bytes_def numeral_eq_Suc)
  have raw: "encode m = log_raw (0, 0) l"
    using e object zeros by (simp add: log_raw_def l_def)
  have ok: "log_ok l" "log_key l \<in> fst ` set (st_index (ce_storage c))" "log_len l = ?h + ?n" "log_of m = [l]"
    using len m(3,4) by (simp_all add: log_ok_def l_def log_key_def logger_key_def loggers_def log_len_def header_size_def)
  have key: "header_key obj = Some (log_key l)"
    using len by (simp add: header_key_def object mem_get_def log_key_def l_def)
  have inv: "rb_inv rb"
    using behind_inv [OF c(2)] .
  have try_read: "rb_try_read rb ?h 0 = Some (ot_byte Link_Log # obj)"
    using rb_try_read_spec [OF inv, of 0 ?h] m(1) e d by (simp add: header_size_def)
  have readable: "rb_readable rb = ?h + ?n + length rest"
    using length_content [OF inv] m(1) e d by simp
  let ?w = "log_raw (prev (st_logs (ce_storage c)) H (log_key l)) l"
  obtain st' rb1 where rb1: "handle_a_log (ce_storage c) obj rb = Some (st', rb1)" "behind rb1 P" "rb_size rb1 = rb_size rb"
      "rb_content rb1 = ?w @ rest" "fst ` set (st_index st') = fst ` set (st_index (ce_storage c))"
      "storing (add_record st' (log_len l) now) D (P @ ?w) (H @ [(length (D @ P), l)])"
    using storing_log [OF c(1) ok(1,2) c(3,2) m(1) [unfolded raw] key] by blast
  have w: "length ?w = ?h + ?n" "drop ?h ?w = text" "length (take ?h ?w) = ?h"
    using length_log_raw [OF ok(1)] ok(3) len by (simp_all add: log_raw_def l_def header_size_def)
  obtain rb2 where rb2: "read_advance rb1 ?h = Some rb2" "rb_size rb2 = rb_size rb1"
    using read_advance_spec [OF behind_inv [OF rb1(2)], of ?h] length_content [OF behind_inv [OF rb1(2)]] rb1(4) w(1) by auto
  have behind2: "behind rb2 (P @ take ?h ?w)" "rb_content rb2 = text @ rest"
    using behind_advance [OF rb1(2) rb2(1)] rb1(4) w by simp_all
  obtain rb3 where rb3: "rb_read rb2 ?n = Some (text, rb3)" "behind rb3 ((P @ take ?h ?w) @ text)" "rb_content rb3 = rest" "rb_size rb3 = rb_size rb2"
    using behind_read [OF behind2] by blast
  have all: "(P @ take ?h ?w) @ text = P @ ?w"
    using w(2) by (metis append.assoc append_take_drop_id)
  have "handle_log c rb now = Some (length (encode m), record_bytes (tell (c\<lparr>ce_storage := st'\<rparr>) (Heard (Replay_Log s init nd rank tm text))) (?h + ?n) now, rb3)"
    using try_read readable f unat_size [OF len(3)] rb1(1) rb2(1) rb3(1) e d
    by (simp add: handle_log_def readable_len_def)
  then show ?thesis
    unfolding handled_def
    using rb3 rb2(2) rb1(3,5,6) all w(1) e d m(4) ok(3,4)
    by (intro exI [of _ "record_bytes (tell (c\<lparr>ce_storage := st'\<rparr>) (Heard (Replay_Log s init nd rank tm text))) (?h + ?n) now"] exI [of _ rb3] exI [of _ ?w]
        exI [of _ "H @ [(length (D @ P), l)]"]) (simp add: record_bytes_def tell_def loggers_def add_record_def Let_def)
qed

lemma message_handled:
  assumes c: "storing (ce_storage c) D P H" "behind rb P" "length (D @ P) < 2 ^ 28"
    and m: "rb_content rb = encode m @ rest" "good m" "admits (loggers c) m"
  shows "handled c rb D P H m rest (handle_message c rb now)"
proof -
  obtain d where d: "encode m = ot_byte (ot_of m) # d"
    using encode_form [OF m(2)] by blast
  then have "rb_try_read rb 1 0 = Some [ot_byte (ot_of m)]"
    using first_byte [OF behind_inv [OF c(2)]] m(1) by simp
  then show ?thesis
    using register_handled [OF c m] create_handled [OF c m] end_handled [OF c m(1,2)] error_handled [OF c m(1,2)] log_handled [OF c m] m(3)
    by (cases m) (simp_all add: handle_message_def)
qed

section \<open>A stream of messages\<close>

lemma register_waits: "replay_register_logger rb = Some (0, es, rb') \<Longrightarrow> handle_register_logger c rb now = Some (0, c, rb)"
  by (auto simp: replay_register_logger_def handle_register_logger_def Let_def split: bind_splits if_splits)

lemma create_waits: "replay_create_logger rb = Some (0, es, rb') \<Longrightarrow> handle_create_logger c rb now = Some (0, c, rb)"
  by (auto simp: replay_create_logger_def handle_create_logger_def Let_def split: bind_splits if_splits)

lemma end_waits: "replay_end_logger rb = Some (0, es, rb') \<Longrightarrow> handle_end_logger c rb now = Some (0, c, rb)"
  by (auto simp: replay_end_logger_def handle_end_logger_def Let_def split: bind_splits if_splits)

lemma error_waits: "replay_error_logger rb = Some (0, es, rb') \<Longrightarrow> handle_error_logger c rb now = Some (0, c, rb)"
  by (auto simp: replay_error_logger_def handle_error_logger_def Let_def split: bind_splits if_splits)

lemma log_waits: "replay_log rb = Some (0, es, rb') \<Longrightarrow> handle_log c rb now = Some (0, c, rb)"
  by (auto simp: replay_log_def handle_log_def Let_def split: bind_splits if_splits)

lemma remove_waits: "replay_remove_server rb = Some (0, es, rb') \<Longrightarrow> handle_remove_server c rb now = Some (0, c, rb)"
  by (auto simp: replay_remove_server_def handle_remove_server_def Let_def split: bind_splits if_splits)

lemma message_waits:
  assumes "rb_inv rb" "part_of (rb_content rb) m"
  shows "handle_messages c rb clock = Some (0, c, rb)"
proof (cases "readable_len rb > 1")
  case True
  then have "rb_content rb \<noteq> []"
    using length_content [OF assms(1)] by (auto simp: readable_len_def)
  then have "replay_message rb = Some (0, [], rb)"
    by (rule message_part [OF assms])
  then have "handle_message c rb (clock 0) = Some (0, c, rb)"
    unfolding replay_message_def handle_message_def
    using register_waits [of rb _ _ c "clock 0"] create_waits [of rb _ _ c "clock 0"] end_waits [of rb _ _ c "clock 0"] log_waits [of rb _ _ c "clock 0"]
      error_waits [of rb _ _ c "clock 0"] remove_waits [of rb _ _ c "clock 0"]
    by (auto split: bind_splits if_splits)
  then show ?thesis
    using True by (simp add: handle_messages.simps [of c rb])
qed (simp add: handle_messages.simps [of c rb])

lemma logs_of_simps [simp]: "logs_of [] = []" "logs_of (m # ms) = log_of m @ logs_of ms"
  by (simp_all add: logs_of_def)

lemma messages_handled:
  assumes "storing (ce_storage c) D P H" "behind rb P" "rb_content rb @ fut = stream ms @ tail" "admitted (loggers c) ms"
    "part_of tail t" "length (D @ P) + length (stream ms) < 2 ^ 28"
  shows "\<exists>ms1 ms2 c' rb' d H'. ms = ms1 @ ms2 \<and> handle_messages c rb clock = Some (length (stream ms1), c', rb') \<and>
    length d = length (stream ms1) \<and> behind rb' (P @ d) \<and> rb_size rb' = rb_size rb \<and>
    rb_content rb' @ fut = stream ms2 @ tail \<and> begins (rb_content rb') ms2 \<and>
    storing (ce_storage c') D (P @ d) H' \<and> map snd H' @ logs_of ms2 = map snd H @ logs_of ms \<and> admitted (loggers c') ms2 \<and>
    ce_told c' @ heard (loggers c') ms2 = ce_told c @ heard (loggers c) ms"
  using assms(1-4,6)
proof (induction ms arbitrary: c rb P H clock)
  case Nil
  then have "part_of (rb_content rb) t"
    using assms(5) by (auto simp: part_of_def append_eq_append_conv2 intro: exI [of _ "fut @ _"])
  then show ?case
    using Nil message_waits [OF behind_inv [OF Nil(2)]]
    by (intro exI [of _ "[]"] exI [of _ c] exI [of _ rb] exI [of _ H]) (auto simp: begins_def)
next
  case (Cons m ms)
  have inv: "rb_inv rb"
    using behind_inv [OF Cons.prems(2)] .
  have m: "good m" "admits (loggers c) m" "admitted (known (loggers c) m) ms"
    using Cons.prems(4) by simp_all
  show ?case
  proof (cases "length (rb_content rb) < length (encode m)")
    case True
    have "rb_content rb @ fut = encode m @ (stream ms @ tail)"
      using Cons.prems(3) by simp
    then have "rb_content rb @ drop (length (rb_content rb)) (encode m) = encode m"
      using True by (metis append_eq_append_conv_if append_take_drop_id less_imp_le)
    then have part: "part_of (rb_content rb) m"
      using True m(1) unfolding part_of_def by (intro conjI exI [of _ "drop (length (rb_content rb)) (encode m)"]) auto
    then have "begins (rb_content rb) (m # ms)"
      by (auto simp: begins_def)
    then show ?thesis
      using Cons.prems message_waits [OF inv part]
      by (intro exI [of _ "[]"] exI [of _ "m # ms"] exI [of _ c] exI [of _ rb] exI [of _ H]) auto
  next
    case False
    define rest where "rest = drop (length (encode m)) (rb_content rb)"
    have "take (length (encode m)) (rb_content rb @ fut) = encode m"
      using Cons.prems(3) by simp
    then have "take (length (encode m)) (rb_content rb) = encode m"
      using False by simp
    then have rest: "rb_content rb = encode m @ rest"
      unfolding rest_def by (metis append_take_drop_id)
    then have fut: "rest @ fut = stream ms @ tail"
      using Cons.prems(3) by simp
    have "length (D @ P) < 2 ^ 28"
      using Cons.prems(5) by simp
    note step = message_handled [OF Cons.prems(1,2) this rest m(1,2), of "clock 0"]
    obtain c1 rb1 d1 H1 where one: "handle_message c rb (clock 0) = Some (length (encode m), c1, rb1)" "length d1 = length (encode m)"
        "behind rb1 (P @ d1)" "rb_content rb1 = rest" "rb_size rb1 = rb_size rb" "storing (ce_storage c1) D (P @ d1) H1"
        "map snd H1 = map snd H @ log_of m" "loggers c1 = known (loggers c) m" "ce_told c1 = ce_told c @ hears (loggers c) m"
      using step unfolding handled_def by blast
    have "rb_content rb1 @ fut = stream ms @ tail" "admitted (loggers c1) ms" "length (D @ P @ d1) + length (stream ms) < 2 ^ 28"
      using fut one(2,4,8) m(3) Cons.prems(5) by simp_all
    then obtain ms1 ms2 c' rb' d H' where r: "ms = ms1 @ ms2" "handle_messages c1 rb1 (\<lambda>i. clock (i + 1)) = Some (length (stream ms1), c', rb')"
        "length d = length (stream ms1)" "behind rb' ((P @ d1) @ d)" "rb_size rb' = rb_size rb1"
        "rb_content rb' @ fut = stream ms2 @ tail" "begins (rb_content rb') ms2" "storing (ce_storage c') D ((P @ d1) @ d) H'"
        "map snd H' @ logs_of ms2 = map snd H1 @ logs_of ms" "admitted (loggers c') ms2"
        "ce_told c' @ heard (loggers c') ms2 = ce_told c1 @ heard (loggers c1) ms"
      using Cons.IH [OF one(6,3)] by blast
    have "1 < readable_len rb"
      using encode_bounds(1) [OF m(1)] rest length_content [OF inv] by (simp add: readable_len_def)
    then have "handle_messages c rb clock = Some (length (stream (m # ms1)), c', rb')"
      using one(1) r(2) encode_bounds(1) [OF m(1)] by (auto simp: handle_messages.simps [of c rb])
    then show ?thesis
      using r one by (intro exI [of _ "m # ms1"] exI [of _ ms2] exI [of _ c'] exI [of _ rb'] exI [of _ "d1 @ d"] exI [of _ H']) simp
  qed
qed

lemma read_handled:
  assumes "storing (ce_storage c) D [] H" "rb_inv rb" "rb_content rb @ fut = stream ms @ tail" "admitted (loggers c) ms"
    "part_of tail t" "length D + length (stream ms) < 2 ^ 28"
  shows "\<exists>ms1 ms2 c' rb' D' H'. ms = ms1 @ ms2 \<and> handle_read c rb clock = Some (c', rb') \<and> rb_inv rb' \<and> rb_size rb' = rb_size rb \<and>
    length D' = length D + length (stream ms1) \<and> rb_content rb' @ fut = stream ms2 @ tail \<and> begins (rb_content rb') ms2 \<and>
    storing (ce_storage c') D' [] H' \<and> map snd H' @ logs_of ms2 = map snd H @ logs_of ms \<and> admitted (loggers c') ms2 \<and>
    ce_told c' @ heard (loggers c') ms2 = ce_told c @ heard (loggers c) ms"
proof -
  obtain ms1 ms2 c1 rb1 d H' where r: "ms = ms1 @ ms2" "handle_messages c rb clock = Some (length (stream ms1), c1, rb1)"
      "length d = length (stream ms1)" "behind rb1 d" "rb_size rb1 = rb_size rb"
      "rb_content rb1 @ fut = stream ms2 @ tail" "begins (rb_content rb1) ms2" "storing (ce_storage c1) D d H'"
      "map snd H' @ logs_of ms2 = map snd H @ logs_of ms" "admitted (loggers c1) ms2"
      "ce_told c1 @ heard (loggers c1) ms2 = ce_told c @ heard (loggers c) ms"
    using messages_handled [OF assms(1) behind_start [OF assms(2)] assms(3-5), of clock] assms(6) by auto
  obtain b where b: "read_back rb1 (length d) = Some b" "rb_inv b" "rb_content b = d @ rb_content rb1"
    using r(4) by (auto simp: behind_def)
  have size: "rb_size b = rb_size rb1"
    using b(1) by (auto simp: back_eq split: if_splits)
  have "length (D @ d) < 2 ^ 31"
    using assms(6) r(1,3) by simp
  then obtain st' rb' where w: "write_to_file (ce_storage c1) b (length d) = Some (length d, st', rb')" "rb_inv rb'"
      "rb_content rb' = rb_content rb1" "rb_size rb' = rb_size b" "storing st' (D @ d) [] H'" "st_index st' = st_index (ce_storage c1)"
    using storing_write [OF r(8) b(2,3)] by blast
  then show ?thesis
    using r b(1) size
    by (intro exI [of _ ms1] exI [of _ ms2] exI [of _ "c1\<lparr>ce_storage := st'\<rparr>"] exI [of _ rb'] exI [of _ "D @ d"] exI [of _ H'])
      (simp add: handle_read_def loggers_def)
qed

text \<open>What arrives from a server: the pieces, each of which is put into the input buffer and handled.\<close>

fun arrive :: "center \<Rightarrow> ring \<Rightarrow> ((nat \<Rightarrow> time) \<times> byte list) list \<Rightarrow> (center \<times> ring) option" where
  "arrive c rb [] = Some (c, rb)"
| "arrive c rb ((clock, d) # ds) = do {
     rb \<leftarrow> fill_buffer rb d;
     (c, rb) \<leftarrow> handle_read c rb clock;
     arrive c rb ds
   }"

lemma begins_short: "begins c ms \<Longrightarrow> length c < 65535 \<and> (ms \<noteq> [] \<longrightarrow> length c < length (encode (hd ms)))"
proof -
  assume "begins c ms"
  then obtain m where m: "part_of c m" "ms \<noteq> [] \<longrightarrow> m = hd ms"
    by (auto simp: begins_def)
  then show ?thesis
    using part_short [OF m(1)] encode_bounds(2) [of m] by auto
qed

lemma pieces_handled:
  assumes "storing (ce_storage c) D [] H" "rb_inv rb" "\<forall>(clock, d) \<in> set ds. d \<noteq> [] \<and> length d + 65535 \<le> rb_size rb"
    "rb_content rb @ concat (map snd ds) = stream ms @ tail" "begins (rb_content rb) ms" "admitted (loggers c) ms"
    "part_of tail t" "length D + length (stream ms) < 2 ^ 28"
  shows "\<exists>c' rb' D' H'. arrive c rb ds = Some (c', rb') \<and> rb_inv rb' \<and> rb_content rb' = tail \<and> rb_size rb' = rb_size rb \<and>
    length D' = length D + length (stream ms) \<and> storing (ce_storage c') D' [] H' \<and> map snd H' = map snd H @ logs_of ms \<and>
    ce_told c' = ce_told c @ heard (loggers c) ms"
  using assms(1-6,8)
proof (induction ds arbitrary: c rb D H ms)
  case Nil
  have "ms = []"
  proof (cases ms)
    case (Cons m ms')
    then show ?thesis
      using begins_short [OF Nil.prems(5)] Nil.prems(4) by simp
  qed
  then show ?case
    using Nil.prems by (intro exI [of _ c] exI [of _ rb] exI [of _ D] exI [of _ H]) simp
next
  case (Cons e ds)
  obtain clock d where e: "e = (clock, d)"
    by fastforce
  have "d \<noteq> []" "length d \<le> writable_len rb"
    using Cons.prems(3) begins_short [OF Cons.prems(5)] writable_len_content [OF Cons.prems(2)] by (auto simp: e)
  then obtain rb1 where rb1: "fill_buffer rb d = Some rb1" "rb_inv rb1" "rb_content rb1 = rb_content rb @ d" "rb_size rb1 = rb_size rb"
    using fill_buffer_spec [OF Cons.prems(2)] by blast
  have "rb_content rb1 @ concat (map snd ds) = stream ms @ tail"
    using Cons.prems(4) rb1(3) by (simp add: e)
  then obtain ms1 ms2 c2 rb2 D2 H2 where r: "ms = ms1 @ ms2" "handle_read c rb1 clock = Some (c2, rb2)" "rb_inv rb2" "rb_size rb2 = rb_size rb1"
      "length D2 = length D + length (stream ms1)" "rb_content rb2 @ concat (map snd ds) = stream ms2 @ tail" "begins (rb_content rb2) ms2"
      "storing (ce_storage c2) D2 [] H2" "map snd H2 @ logs_of ms2 = map snd H @ logs_of ms" "admitted (loggers c2) ms2"
      "ce_told c2 @ heard (loggers c2) ms2 = ce_told c @ heard (loggers c) ms"
    using read_handled [OF Cons.prems(1) rb1(2) _ Cons.prems(6) assms(7) Cons.prems(7), of _ clock] by blast
  have "\<forall>(clock, d) \<in> set ds. d \<noteq> [] \<and> length d + 65535 \<le> rb_size rb2" "length D2 + length (stream ms2) < 2 ^ 28"
    using Cons.prems(3,7) r(1,4,5) rb1(4) by auto
  then obtain c' rb' D' H' where t: "arrive c2 rb2 ds = Some (c', rb')" "rb_inv rb'" "rb_content rb' = tail" "rb_size rb' = rb_size rb2"
      "length D' = length D2 + length (stream ms2)" "storing (ce_storage c') D' [] H'" "map snd H' = map snd H2 @ logs_of ms2"
      "ce_told c' = ce_told c2 @ heard (loggers c2) ms2"
    using Cons.IH [OF r(8,3) _ r(6,7,10)] by blast
  then show ?case
    using r rb1 by (intro exI [of _ c'] exI [of _ rb'] exI [of _ D'] exI [of _ H']) (simp add: e)
qed

section \<open>From the servers to the search\<close>

lemma index_ok_Nil: "index_ok []"
  by (simp add: index_ok_def)

lemma new_storing: "storing (new_storage now) [] [] []"
  by (simp add: storing_def new_storage_def open_storage_def name_put_def w32_def index_ok_Nil keys_of_def)

lemma reopened: "storing st D [] H \<Longrightarrow> length D < 2 ^ 32 \<Longrightarrow> storing (open_storage st now) D [] H"
  by (cases "last (st_names st)") (auto simp: storing_def open_storage_def w32_def Let_def)

lemma search_service:
  assumes "storage_holds st D H" "length s = 8" "last s \<noteq> 0" "last s \<noteq> - 1" "2 ^ 16 \<le> n"
  shows "search_link st s (\<lambda>_ _. True) n = Some (map found (rev (filter (\<lambda>l. lg_service l = s) (map snd H))))"
proof -
  have "log_key l \<in> picked st s (\<lambda>_ _. True) \<longleftrightarrow> lg_service l = s" if "(p, l) \<in> set H" for p l
  proof -
    have "log_ok l"
      using assms(1) that by (auto simp: storage_holds_def stored_def dest!: split_list)
    then have "take 8 (log_key l) = lg_service l"
      by (simp add: log_key_def log_ok_def)
    moreover have "log_key l \<in> fst ` set (st_index st)"
      using assms(1) that by (force simp: storage_holds_def keys_of_def)
    then have "\<exists>v. map_of (st_index st) (log_key l) = Some v"
      by (metis map_of_eq_None_iff not_None_eq)
    ultimately show ?thesis
      by (auto simp: picked_def)
  qed
  then have "filter (\<lambda>(p, l). log_key l \<in> picked st s (\<lambda>_ _. True)) H = filter (\<lambda>e. lg_service (snd e) = s) H"
    by (intro filter_cong) auto
  then show ?thesis
    using search_link_spec [OF assms, of "\<lambda>_ _. True"] by (simp add: filter_map rev_map comp_def)
qed



section \<open>The timers of the center\<close>

text \<open>
  A remote child that is waited for has a flag, which is true, and a timer with it; a timer has a flag, and if that is
  true its child is waited for.
\<close>

definition checks_ok :: "(mark \<times> mark \<Rightarrow> check_data option) \<Rightarrow> (nat \<Rightarrow> bool option) \<Rightarrow> nat \<Rightarrow> check_timer list \<Rightarrow> bool" where
  "checks_ok ck fl nx ts \<longleftrightarrow>
     (\<forall>i d. ck i = Some d \<longrightarrow> fl (ck_flag d) = Some True \<and> (\<exists>t \<in> set ts. ct_flag t = ck_flag d \<and> ct_ident t = i)) \<and>
     (\<forall>t \<in> set ts. \<exists>v. fl (ct_flag t) = Some v \<and> (v \<longrightarrow> (\<exists>d. ck (ct_ident t) = Some d \<and> ck_flag d = ct_flag t))) \<and>
     (\<forall>f. fl f \<noteq> None \<longrightarrow> f < nx) \<and> distinct (map ct_flag ts)"

definition check_inv :: "center \<Rightarrow> bool" where
  "check_inv c \<longleftrightarrow> checks_ok (ce_check c) (ce_flags c) (ce_next_flag c) (ce_timers c)"

lemma check_inv_new: "check_inv (new_center now)"
  by (simp add: check_inv_def checks_ok_def new_center_def)

lemma check_inv_same [simp]: "check_inv (c\<lparr>ce_storage := st\<rparr>) = check_inv c" "check_inv (tell c e) = check_inv c"
  "check_inv (record_bytes c n now) = check_inv c"
  by (simp_all add: check_inv_def tell_def record_bytes_def)

lemma checksD:
  assumes "checks_ok ck fl nx ts"
  shows "ck i = Some d \<Longrightarrow> fl (ck_flag d) = Some True" "ck i = Some d \<Longrightarrow> \<exists>t \<in> set ts. ct_flag t = ck_flag d \<and> ct_ident t = i"
    "t \<in> set ts \<Longrightarrow> \<exists>v. fl (ct_flag t) = Some v \<and> (v \<longrightarrow> (\<exists>d. ck (ct_ident t) = Some d \<and> ck_flag d = ct_flag t))"
    "fl f = Some v \<Longrightarrow> f < nx" "distinct (map ct_flag ts)"
  using assms unfolding checks_ok_def by blast+

lemma checks_wait:
  assumes ok: "checks_ok ck fl nx ts" and new: "ck i = None" "ck_flag D = nx" "ct_flag T = nx" "ct_ident T = i"
  shows "checks_ok (ck(i := Some D)) (fl(nx := Some True)) (nx + 1) (ts @ [T])"
proof -
  have old: "ct_flag t < nx" if "t \<in> set ts" for t
    using checksD(3) [OF ok that] checksD(4) [OF ok] by blast
  have kept: "ck_flag e < nx" if "ck j = Some e" for j e
    using checksD(1,4) [OF ok] that by blast
  show ?thesis
    unfolding checks_ok_def
  proof (intro conjI allI impI ballI)
    fix j e assume "(ck(i := Some D)) j = Some e"
    then show "(fl(nx := Some True)) (ck_flag e) = Some True" "\<exists>t \<in> set (ts @ [T]). ct_flag t = ck_flag e \<and> ct_ident t = j"
      using checksD(1,2) [OF ok, of j e] new kept [of j e] by (auto split: if_splits)
  next
    fix t assume t: "t \<in> set (ts @ [T])"
    show "\<exists>v. (fl(nx := Some True)) (ct_flag t) = Some v \<and> (v \<longrightarrow> (\<exists>d. (ck(i := Some D)) (ct_ident t) = Some d \<and> ck_flag d = ct_flag t))"
    proof (cases "t \<in> set ts")
      case True
      then show ?thesis
        using checksD(3) [OF ok True] old [OF True] new(1) by auto
    next
      case False
      then show ?thesis
        using t new by (intro exI [of _ True]) simp
    qed
  next
    fix f assume "(fl(nx := Some True)) f \<noteq> None"
    then show "f < nx + 1"
      using checksD(4) [OF ok, of f] by (cases "f = nx") (auto simp: less_Suc_eq)
  next
    have "nx \<notin> ct_flag ` set ts"
      using old by (metis imageE less_irrefl)
    then show "distinct (map ct_flag (ts @ [T]))"
      using checksD(5) [OF ok] new(3) by simp
  qed
qed

lemma check_wait_inv:
  assumes "check_inv c" "ce_check c i = None" "ck_flag (d (ce_next_flag c)) = ce_next_flag c"
  shows "check_inv (check_wait c i d expire)"
  using checks_wait [of "ce_check c"] assms by (simp add: check_inv_def check_wait_def)

text \<open>The flag of a child, or of a timer, that goes.\<close>

lemma one_timer: "distinct (map ct_flag ts) \<Longrightarrow> t \<in> set ts \<Longrightarrow> u \<in> set ts \<Longrightarrow> ct_flag t = ct_flag u \<Longrightarrow> t = u"
  by (auto simp: distinct_map inj_on_def)

lemma one_waits:
  assumes "checks_ok ck fl nx ts" "ck i = Some d" "ck j = Some e" "ck_flag d = ck_flag e"
  shows "i = j"
proof -
  obtain t where t: "t \<in> set ts" "ct_flag t = ck_flag d" "ct_ident t = i"
    using checksD(2) [OF assms(1,2)] by blast
  obtain u where u: "u \<in> set ts" "ct_flag u = ck_flag e" "ct_ident u = j"
    using checksD(2) [OF assms(1,3)] by blast
  show ?thesis
    using one_timer [OF checksD(5) [OF assms(1)] t(1) u(1)] t u assms(4) by simp
qed

lemma checks_met:
  assumes ok: "checks_ok ck fl nx ts" and d: "ck i = Some d"
  shows "checks_ok (ck(i := None)) (fl(ck_flag d := Some False)) nx ts"
  unfolding checks_ok_def
proof (intro conjI allI impI ballI)
  fix j e assume e: "(ck(i := None)) j = Some e"
  then have "j \<noteq> i" "ck j = Some e"
    by (auto split: if_splits)
  moreover from this have "ck_flag e \<noteq> ck_flag d"
    using one_waits [OF ok _ d] by blast
  ultimately show "(fl(ck_flag d := Some False)) (ck_flag e) = Some True" "\<exists>t \<in> set ts. ct_flag t = ck_flag e \<and> ct_ident t = j"
    using checksD(1,2) [OF ok] by auto
next
  fix t assume t: "t \<in> set ts"
  show "\<exists>v. (fl(ck_flag d := Some False)) (ct_flag t) = Some v \<and> (v \<longrightarrow> (\<exists>e. (ck(i := None)) (ct_ident t) = Some e \<and> ck_flag e = ct_flag t))"
    using checksD(3) [OF ok t] d by (cases "ct_flag t = ck_flag d"; cases "ct_ident t = i") auto
next
  fix f assume "(fl(ck_flag d := Some False)) f \<noteq> None"
  then show "f < nx"
    using checksD(1) [OF ok d] checksD(4) [OF ok] by (cases "f = ck_flag d") auto
next
  show "distinct (map ct_flag ts)"
    using checksD(5) [OF ok] .
qed

lemma check_met_inv:
  assumes "check_inv c" "ce_check c i = Some d"
  shows "\<exists>c'. check_met c i = Some c' \<and> check_inv c'"
  using assms checks_met [of "ce_check c" _ _ _ i d] checksD(1) [of "ce_check c" "ce_flags c"]
  by (simp add: check_met_def check_inv_def)

lemma checks_fire:
  assumes ok: "checks_ok ck fl nx ts" and t: "t \<in> set ts"
    and ck': "ck' = (if fl (ct_flag t) = Some True then ck(ct_ident t := None) else ck)"
  shows "checks_ok ck' (fl(ct_flag t := None)) nx (remove1 t ts)"
proof -
  have dist: "distinct ts" "distinct (map ct_flag ts)"
    using checksD(5) [OF ok] by (simp_all add: distinct_map)
  have rest: "u \<in> set (remove1 t ts) \<longleftrightarrow> u \<in> set ts \<and> ct_flag u \<noteq> ct_flag t" for u
    using dist one_timer [OF dist(2) _ t, of u] by auto
  have kept: "ck j = Some e \<and> ck_flag e \<noteq> ct_flag t" if e: "ck' j = Some e" for j e
  proof (cases "fl (ct_flag t) = Some True")
    case True
    then obtain d where "ck (ct_ident t) = Some d" "ck_flag d = ct_flag t"
      using checksD(3) [OF ok t] by auto
    moreover have "j \<noteq> ct_ident t" "ck j = Some e"
      using e ck' True by (auto split: if_splits)
    ultimately show ?thesis
      using one_waits [OF ok, of "ct_ident t" d j e] by auto
  next
    case False
    then show ?thesis
      using e ck' checksD(1) [OF ok, of j e] by auto
  qed
  show ?thesis
    unfolding checks_ok_def
  proof (intro conjI allI impI ballI)
    fix j e assume "ck' j = Some e"
    then have e: "ck j = Some e" "ck_flag e \<noteq> ct_flag t"
      using kept by blast+
    then show "(fl(ct_flag t := None)) (ck_flag e) = Some True" "\<exists>u \<in> set (remove1 t ts). ct_flag u = ck_flag e \<and> ct_ident u = j"
      using checksD(1,2) [OF ok e(1)] rest by auto
  next
    fix u assume "u \<in> set (remove1 t ts)"
    then have u: "u \<in> set ts" "ct_flag u \<noteq> ct_flag t"
      using rest by blast+
    obtain v where v: "fl (ct_flag u) = Some v" "v \<longrightarrow> (\<exists>d. ck (ct_ident u) = Some d \<and> ck_flag d = ct_flag u)"
      using checksD(3) [OF ok u(1)] by blast
    moreover have "ck' (ct_ident u) = ck (ct_ident u)" if "v"
    proof (cases "fl (ct_flag t) = Some True")
      case True
      then show ?thesis
        using checksD(3) [OF ok t] v(2) that u(2) ck' by (cases "ct_ident u = ct_ident t") auto
    qed (simp add: ck')
    ultimately show "\<exists>v. (fl(ct_flag t := None)) (ct_flag u) = Some v \<and> (v \<longrightarrow> (\<exists>d. ck' (ct_ident u) = Some d \<and> ck_flag d = ct_flag u))"
      using u(2) by auto
  next
    fix f assume "(fl(ct_flag t := None)) f \<noteq> None"
    then show "f < nx"
      using checksD(4) [OF ok] by (auto split: if_splits)
  next
    show "distinct (map ct_flag (remove1 t ts))"
      using dist by (auto simp: distinct_map inj_on_def)
  qed
qed

lemma handle_message_inv:
  assumes "check_inv c" "handle_message c rb now = Some (n, c', rb')"
  shows "check_inv c'"
proof -
  have met: "check_inv c2" if "check_inv c1" "check_met c1 i = Some c2" for c1 c2 i
    using that check_met_inv [OF that(1), of i] by (cases "ce_check c1 i") (auto simp: check_met_def)
  have register: "check_inv c2" if "handle_register_logger c rb now = Some (k, c2, rb2)" for k c2 rb2
    using that assms(1) met [of "c\<lparr>ce_storage := _\<rparr>"] check_wait_inv [OF assms(1)]
    by (auto simp: handle_register_logger_def Let_def check_of_register_def split: bind_splits if_splits option.splits)
  have create: "check_inv c2" if "handle_create_logger c rb now = Some (k, c2, rb2)" for k c2 rb2
    using that assms(1) met check_wait_inv [OF assms(1)]
    by (auto simp: handle_create_logger_def Let_def check_of_create_def split: bind_splits if_splits option.splits)
  have others: "handle_end_logger c rb now = Some (k, c2, rb2) \<Longrightarrow> check_inv c2" "handle_log c rb now = Some (k, c2, rb2) \<Longrightarrow> check_inv c2"
      "handle_error_logger c rb now = Some (k, c2, rb2) \<Longrightarrow> check_inv c2" "handle_remove_server c rb now = Some (k, c2, rb2) \<Longrightarrow> check_inv c2" for k c2 rb2
    using assms(1) by (auto simp: handle_end_logger_def handle_log_def handle_error_logger_def handle_remove_server_def Let_def split: bind_splits if_splits)
  show ?thesis
    using assms(2) register create others by (auto simp: handle_message_def split: bind_splits if_splits)
qed

lemma handle_messages_inv: "handle_messages c rb clock = Some (n, c', rb') \<Longrightarrow> check_inv c \<Longrightarrow> check_inv c'"
proof (induction c rb clock arbitrary: n c' rb' rule: handle_messages.induct)
  case (1 c rb clock)
  show ?case
  proof (cases "readable_len rb > 1")
    case True
    then obtain k c1 rb1 where m: "handle_message c rb (clock 0) = Some (k, c1, rb1)"
      using 1(2) by (auto simp: handle_messages.simps [of c rb] split: bind_splits)
    have c1: "check_inv c1"
      using handle_message_inv [OF 1(3) m] .
    show ?thesis
    proof (cases "k = 0")
      case True
      then show ?thesis
        using 1(2) c1 m \<open>readable_len rb > 1\<close> by (simp add: handle_messages.simps [of c rb])
    next
      case False
      then obtain k' c2 rb2 where "handle_messages c1 rb1 (\<lambda>i. clock (i + 1)) = Some (k', c2, rb2)" "c' = c2"
        using 1(2) m True by (auto simp: handle_messages.simps [of c rb] split: bind_splits)
      then show ?thesis
        using 1(1) [OF True m refl refl False] c1 by blast
    qed
  next
    case False
    then show ?thesis
      using 1(2,3) by (simp add: handle_messages.simps [of c rb])
  qed
qed

lemma handle_read_inv:
  assumes "handle_read c rb clock = Some (c', rb')" "check_inv c"
  shows "check_inv c'"
proof -
  obtain n c1 rb1 where "handle_messages c rb clock = Some (n, c1, rb1)" "check_inv c1 \<Longrightarrow> check_inv c'"
    using assms(1) by (auto simp: handle_read_def split: bind_splits)
  then show ?thesis
    using handle_messages_inv assms(2) by blast
qed

lemma check_fires_inv:
  assumes "check_inv c" "t \<in> set (ce_timers c)"
  shows "\<exists>c'. check_fires c t = Some c' \<and> check_inv (c'\<lparr>ce_timers := remove1 t (ce_timers c)\<rparr>) \<and> ce_storage c' = ce_storage c"
proof -
  have ok: "checks_ok (ce_check c) (ce_flags c) (ce_next_flag c) (ce_timers c)"
    using assms(1) by (simp add: check_inv_def)
  obtain v where v: "ce_flags c (ct_flag t) = Some v" "v \<longrightarrow> (\<exists>d. ce_check c (ct_ident t) = Some d \<and> ck_flag d = ct_flag t)"
    using checksD(3) [OF ok assms(2)] by blast
  show ?thesis
    using checks_fire [OF ok assms(2) refl] v
    by (cases v) (auto simp: check_fires_def Let_def check_inv_def tell_def)
qed

lemma check_top_least: "check_top ts = Some t \<Longrightarrow> u \<in> set ts \<Longrightarrow> sint (ct_expire t) \<le> sint (ct_expire u)"
proof (induction ts arbitrary: t)
  case (Cons a ts)
  then show ?case
    by (cases ts) (force split: option.splits if_splits)+
qed simp

lemma check_top_None: "check_top ts = None \<longleftrightarrow> ts = []"
  by (cases ts) (auto split: option.split)

lemma timeout_safe:
  "check_inv c \<Longrightarrow> \<exists>c'. center_timeout c now = Some c' \<and> check_inv c' \<and> ce_storage c' = ce_storage c \<and>
    (\<forall>t \<in> set (ce_timers c). sint now < sint (ct_expire t) \<longrightarrow> t \<in> set (ce_timers c')) \<and>
    (\<forall>t \<in> set (ce_timers c'). t \<in> set (ce_timers c) \<and> sint now < sint (ct_expire t))"
proof (induction c now rule: center_timeout.induct)
  case (1 c now)
  show ?case
  proof (cases "check_top (ce_timers c)")
    case None
    then show ?thesis
      using 1(2) check_top_None by (simp add: center_timeout.simps [of c])
  next
    case (Some t)
    show ?thesis
    proof (cases "sint (ct_expire t) \<le> sint now")
      case True
      obtain c1 where c1: "check_fires c t = Some c1" "check_inv (c1\<lparr>ce_timers := remove1 t (ce_timers c)\<rparr>)" "ce_storage c1 = ce_storage c"
        using check_fires_inv [OF 1(2) check_top_in [OF Some]] by blast
      let ?c = "c1\<lparr>ce_timers := remove1 t (ce_timers c)\<rparr>"
      have rest: "u \<in> set (ce_timers ?c) \<Longrightarrow> u \<in> set (ce_timers c)"
          "u \<in> set (ce_timers c) \<Longrightarrow> sint now < sint (ct_expire u) \<Longrightarrow> u \<in> set (ce_timers ?c)" for u
        using True set_remove1_subset [of t "ce_timers c"] by (auto simp del: set_remove1_eq) (cases "u = t"; simp)
      obtain c' where c': "center_timeout ?c now = Some c'" "check_inv c'" "ce_storage c' = ce_storage ?c"
          "\<forall>u \<in> set (ce_timers ?c). sint now < sint (ct_expire u) \<longrightarrow> u \<in> set (ce_timers c')"
          "\<forall>u \<in> set (ce_timers c'). u \<in> set (ce_timers ?c) \<and> sint now < sint (ct_expire u)"
        using 1(1) [OF Some True c1(1,2)] by blast
      have "center_timeout c now = Some c'" "ce_storage c' = ce_storage c"
        using Some True c1(1,3) c'(1,3) by (simp_all add: center_timeout.simps [of c])
      moreover have "\<forall>u \<in> set (ce_timers c). sint now < sint (ct_expire u) \<longrightarrow> u \<in> set (ce_timers c')"
        using rest(2) c'(4) by blast
      moreover have "\<forall>u \<in> set (ce_timers c'). u \<in> set (ce_timers c) \<and> sint now < sint (ct_expire u)"
        using rest(1) c'(5) by blast
      ultimately show ?thesis
        using c'(2) by blast
    next
      case False
      then show ?thesis
        using 1(2) Some check_top_least [OF Some] by (force simp: center_timeout.simps [of c])
    qed
  qed
qed

text \<open>What a center comes to: it reads from the buffers of its servers, and its timers run.\<close>

inductive center_reach :: "center \<Rightarrow> bool" where
  start: "center_reach (new_center now)"
| read: "center_reach c \<Longrightarrow> handle_read c rb clock = Some (c', rb') \<Longrightarrow> center_reach c'"
| timeout: "center_reach c \<Longrightarrow> center_timeout c now = Some c' \<Longrightarrow> center_reach c'"

lemma center_reach_inv: "center_reach c \<Longrightarrow> check_inv c"
proof (induction rule: center_reach.induct)
  case (start now)
  show ?case
    by (rule check_inv_new)
next
  case (read c rb clock c' rb')
  then show ?case
    using handle_read_inv by blast
next
  case (timeout c now c')
  then show ?case
    using timeout_safe [of c now] by auto
qed


text \<open>A remote child is created by its server, and the registration by the parent's server does not come.\<close>

lemma remote_created:
  assumes c: "storing (ce_storage c) D [] H" "rb_inv rb" "length D < 2 ^ 27" "ce_check c (s, nd) = None"
    and m: "rb_content rb = encode m" "good m" "m = Create_Message 2 s nd pn init pit"
  shows "\<exists>c' rb'. handle_read c rb clock = Some (c', rb') \<and>
    ce_timers c' = ce_timers c @ [\<lparr>ct_expire = clock 0 + ILLEGAL_LOGGER_TIMOUT, ct_ident = (s, nd), ct_flag = ce_next_flag c\<rparr>]"
proof -
  obtain obj where obj: "create_object 2 s nd pn init pit = Some obj"
    using object_some(2) m(2,3) by fastforce
  note f = create_fields [OF _ _ _ obj]
  have e: "encode m = ot_byte Create_Logger # obj" "length (encode m) = 1 + create_size"
    using f(7) m(2,3) obj by (simp_all add: instance_bytes_def)
  have marks: "length s = 8" "length nd = 8" and front: "rb_content rb = encode m @ []"
    using m by simp_all
  let ?c = "check_wait c (s, nd) (check_of_create 2 init) (clock 0 + ILLEGAL_LOGGER_TIMOUT)"
  have "storing (ce_storage ?c) D [] H"
    using c(1) by (simp add: check_wait_def)
  then obtain b st' where st': "new_logger (ce_storage ?c) s nd pit pn 2 init = Some (b, st')" "storing st' D [] H"
    using storing_new_logger [OF _ marks] by metis
  obtain c1 rb1 where one: "handle_create_logger c rb (clock 0) = Some (1 + create_size, c1, rb1)"
      "ce_storage c1 = add_record st' (1 + create_size) (clock 0)" "ce_timers c1 = ce_timers ?c"
      "behind rb1 ([] @ encode m)" "rb_content rb1 = []"
    using front_read [OF behind_start [OF c(2)] front e(2) handle_create_logger_def [of c rb "clock 0"]] f m(2,3) e(1) c(4) st'(1)
    by (auto simp: record_bytes_def tell_def)
  have "rb_try_read rb 1 0 = Some [ot_byte Create_Logger]"
    using first_byte [OF c(2)] m(1) e(1) by simp
  then have "handle_message c rb (clock 0) = Some (1 + create_size, c1, rb1)"
    using one(1) by (simp add: handle_message_def)
  moreover have "readable_len rb1 = 0" "1 < readable_len rb"
    using length_content [OF behind_inv [OF one(4)]] one(5) length_content [OF c(2)] m(1) e(2)
    by (simp_all add: readable_len_def create_size_def)
  ultimately have "handle_messages c rb clock = Some (length (encode m), c1, rb1)"
    using e(2) by (simp add: handle_messages.simps [of c rb] handle_messages.simps [of c1 rb1])
  moreover obtain b' where "read_back rb1 (length (encode m)) = Some b'" "rb_inv b'" "rb_content b' = encode m @ []"
    using one(4,5) by (auto simp: behind_def)
  moreover have "storing (add_record st' (length (encode m)) (clock 0)) D ([] @ encode m) H"
    using storing_record [OF st'(2), of "encode m" "clock 0"] c(3) encode_bounds(2) [OF m(2)] by simp
  then have "storing (ce_storage c1) D (encode m) H"
    using one(2) e(2) by simp
  moreover have "length (D @ encode m) < 2 ^ 31"
    using c(3) encode_bounds(2) [OF m(2)] by simp
  ultimately obtain st2 rb2 where "handle_read c rb clock = Some (c1\<lparr>ce_storage := st2\<rparr>, rb2)"
    using storing_write [of "ce_storage c1" D "encode m" H b' "[]"] by (auto simp: handle_read_def)
  then show ?thesis
    using one(3) by (simp add: check_wait_def)
qed

definition late_center :: "center option" where
  "late_center = do {
     rb \<leftarrow> fill_buffer (rb_new (replicate 100 0)) (encode (Create_Message 2 (replicate 8 7) (replicate 8 1) (replicate 8 0) 5 0));
     (c, rb) \<leftarrow> handle_read (new_center 3) rb (\<lambda>_. 20);
     Some c
   }"


end
