(* ===== verification/Spec2Isabelle.thy ===== *)
theory Spec2Isabelle
  imports VersionNumber RingBuffer BufferPool PtrList LRUCache NetErrors RaftCluster TimeLib Scheduler BPRange LinkNodes LinkCenter
begin

text \<open>
  A verification development for tinyBackend, a C++ library for servers: memory and containers, files and a
  cache over them, dates and timers, network errors, a log of linked loggers, and an election protocol for a cluster.

  \<^bold>\<open>The parts and how they meet.\<close> A \<open>BufferPool\<close> hands out blocks of one allocation; a \<open>BlockFile\<close> stores
  blocks on disk; \<open>LRUCache\<close> keeps the blocks in use in memory over a helper that loads and stores them;
  \<open>Impl_Scheduler\<close> is that cache over a helper made of a pool and a file, and is what the B+ tree calls. The
  \<open>RingBuffer\<close> carries the bytes of a connection, with the scatter lists of \<open>BufferArray\<close>. Raft instances keep
  their peers, order their messages by wrapping version numbers and elect a leader. In the link log, a server
  keeps the loggers of its process and writes their messages; a center reads them from a \<open>RingBuffer\<close>, stores
  them in files with an index in B+ trees, and finds the logs of a service again.

  \<^item> \<open>Prelude\<close>: lists indexed with a check, words, C++ division; shared by the other theories.
  \<^item> \<open>VersionNumber\<close> (\<open>Base/VersionNumber.hpp\<close>): numbers of \<open>w\<close> bits that wrap, compared by their distance.
  \<^item> \<open>RingBuffer\<close> (\<open>Base/Buffer/RingBuffer.hpp\<close>, \<open>RingBufferWrapper\<close>, \<open>Base/Detail/BufferArray.hpp\<close>): the ring
    with its two positions, the zero-copy views and their commits, resizing. Its lemmas show a queue of bytes
    and the equality of the copying and the zero-copy operations.
  \<^item> \<open>BufferPool\<close> (\<open>Base/Buffer/BufferPool.hpp\<close>): the tree of free sizes in an array. Its lemmas show a buddy
    allocator (disjoint ranges, no needless refusal, merging); the locales \<open>allocator\<close> and
    \<open>coalescing_allocator\<close> state what a client relies on.
  \<^item> \<open>PtrList\<close> (\<open>Base/Container/List.hpp\<close>): nodes in an explicit heap of addresses. Its lemmas show that
    each operation on the links is the operation on the list they represent.
  \<^item> \<open>LRUCache\<close> (\<open>Base/LRUCache.hpp\<close>): the map, the three queues and their iterators (as handles), over a helper
    given as a record of functions. The locales \<open>backing_medium\<close> and \<open>backing_store\<close> state what the helper owes;
    the lemmas show that the cache is a memory for a client that keeps its side.
  \<^item> \<open>BlockFile\<close> (\<open>Base/Detail/BlockFile.hpp\<close>, \<open>ioFile.hpp\<close>): a file as an array of blocks, on a disk that
    can be full.
  \<^item> \<open>Scheduler\<close> (\<open>Base/BPTree_impls/Impl_Scheduler\<close>): interprets the cache's locales on the pool and the block
    file, and shows that the whole is a memory of blocks.
  \<^item> \<open>BPBlocks\<close>, \<open>BPStore\<close> (\<open>Base/BPTree_impls/Interpreter.hpp\<close>, \<open>IndexBlock_Impl\<close>, \<open>DataBlock_Impl\<close>,
    \<open>BPTree_impl\<close>): the pairs of a page by byte offset, with the binary search, split, merge and average; the head and
    record blocks and the reuse of erased blocks. The scheduler is the memory of blocks \<open>Scheduler\<close> shows it to be.
  \<^item> \<open>BPTree\<close>, \<open>BPInsert\<close>, \<open>BPErase\<close>, \<open>BPMap\<close>, \<open>BPRange\<close> (\<open>Base/BPTree_impls/BPTree.hpp\<close>): the operations of the tree on
    the blocks; the invariant (one balanced sorted tree in the store, its leaves chained, every other block erased)
    and its preservation by insertion and erasure; the locale \<open>ordered_map\<close>, its interpretation on the tree and
    the sessions of a client; range searches and the erasure of ranges.
  \<^item> \<open>NetErrors\<close> (\<open>Net/error\<close>): the message of every system call and errno.
  \<^item> \<open>Raft\<close>, \<open>RaftCluster\<close> (\<open>Distributed/raft\<close>): one instance with its message handlers and timeouts, and a
    cluster of them over a network that delays, reorders, loses and (separately) duplicates messages. An instance
    refines a voter; a cluster has at most one leader per version.
  \<^item> \<open>LinkNodes\<close> (\<open>LogSystem/linkLog/LinkLogServer\<close>): the nodes of a server, with the flags they share with their
    timers as an explicit heap. Its lemmas show that no request uses or deletes a flag or a node that is gone, what a
    registration is answered, and what the timers report.
  \<^item> \<open>LinkCodec\<close> (\<open>LogSystem/linkLog/LinkLogOperation.hpp\<close>, \<open>Identification.hpp\<close>, \<open>LinkLogEncoder\<close> and
    \<open>LinkLogCenter::replay_history\<close>): the messages as bytes, and the replay of a file of them through a \<open>RingBuffer\<close>.
    Its lemmas show that every accessor reads what the constructor was given and that the replay recovers the messages.
  \<^item> \<open>LinkStorage\<close> (\<open>LinkLogStorage\<close>, \<open>LinkLogCenter::search_link\<close>): the index of the loggers, the chains of their
    logs in a file, the records of what is to be written, the query. Its lemmas show that a search follows the chains and
    finds the logs of a service. The trees and the cache of the index are the maps that \<open>BPMap\<close> and \<open>LRUCache\<close> show
    them to be.
  \<^item> \<open>LinkCenter\<close> (\<open>LinkLogCenter\<close>, the constructor of \<open>LinkLogStorage\<close>): the handlers of the messages of a server,
    the remote children that are waited for and their timers. Its lemmas show that what arrives of local loggers, in
    whatever pieces, is stored so that a search finds it, and that the timers use nothing that is gone.
  \<^item> \<open>TimeLib\<close> (\<open>Base/Time\<close>): dates, intervals and time stamps, the sleeping timer, the timer loop.

  \<^bold>\<open>Conventions.\<close> A C++ object is a record, an operation a function from the old state to the new one. \<open>None\<close>
  (or \<open>Stuck\<close>) stands for an assertion that fails, an access out of range or a null stream; exceptions are
  \<open>Throw\<close> or a sum. Machine integers are words where they wrap in practice (version numbers, instance counts,
  buffer positions) and naturals elsewhere; a sum that can wrap is written with its \<open>mod\<close>. Loops are recursive
  functions with a termination proof; those that may run forever (\<open>write_to_back\<close>, and the ways down a B+ tree, which end
  only when the tree is well formed) are partial functions into an option, with the proof that they return. No fuel is used. What is not under \<open>src/\<close> is a parameter: the
  clock, the disk's capacity, \<open>fopen\<close>'s outcome, the content of uninitialised memory, the user's state machine,
  callbacks and helpers.

  \<^bold>\<open>Not modelled.\<close> Locks, threads, condition variables and thread pools (\<open>Base/Mutex\<close>, \<open>Thread\<close>, \<open>ThreadPool\<close>,
  \<open>ScheduledThread\<close>): operations under one mutex are single steps. Sockets, pollers, reactors and the
  multiplexer, which are system calls and callbacks around the modelled buffers; the aspect templates of
  \<open>AOP\<close>, which only generate calls at compile time; the system log; of the link log the sockets and the thread, the
  buffers of the server and their submission, the connections of the center, the deletion of old files
  and the query into a ring; formatting and reading of text; the tests.
\<close>

end
